(* ===== verification/Prelude.thy ===== *)
theory Prelude
  imports Main "HOL-Library.Word" "HOL-Library.Sublist"
begin

text \<open>
  Shared vocabulary of the development: C characters and strings, the machine
  integers of the LP64 ABI the daemon runs on, the printf conversions and the
  libc routines the sources call, and the lemmas about them that more than one
  component uses. A C string is a HOL \<open>string\<close> that holds no NUL; its terminator
  is the end of the list.
\<close>

named_theorems c_lib \<open>unfoldings of the libc and printf models\<close>
named_theorems glob_laws \<open>laws of the wildcard semantics\<close>

section \<open>Characters and strings\<close>

abbreviation NUL :: char where
  "NUL \<equiv> CHR 0x00"

abbreviation backslash :: char where
  "backslash \<equiv> CHR 0x5C"

text \<open>\<open>char\<close> is signed on the platforms the daemon is built for.\<close>

definition schar :: "char \<Rightarrow> int" where
  "schar c = (let n = (of_char c :: int) in if n < 128 then n else n - 256)"

definition uchar :: "char \<Rightarrow> nat" where
  "uchar c = of_char c"

text \<open>What \<open>*p\<close> reads when \<open>p\<close> points at the rest \<open>s\<close> of a string.\<close>

fun deref :: "string \<Rightarrow> char" where
  "deref [] = NUL"
| "deref (c # _) = c"

definition cstring :: "string \<Rightarrow> bool" where
  "cstring s \<longleftrightarrow> NUL \<notin> set s"

lemma cstring_simps [simp]:
  "cstring []"
  "cstring (c # s) \<longleftrightarrow> c \<noteq> NUL \<and> cstring s"
  "cstring (s @ t) \<longleftrightarrow> cstring s \<and> cstring t"
  by (auto simp: cstring_def)

lemma cstring_take [simp]: "cstring s \<Longrightarrow> cstring (take n s)"
  by (auto simp: cstring_def dest: in_set_takeD)

lemma cstring_drop [simp]: "cstring s \<Longrightarrow> cstring (drop n s)"
  by (auto simp: cstring_def dest: in_set_dropD)

lemma deref_eq_NUL: "cstring s \<Longrightarrow> deref s = NUL \<longleftrightarrow> s = []"
  by (cases s) auto

lemma uchar_less [simp]: "uchar c < 256"
proof -
  have "(of_char c :: nat) mod 256 < 256" by (rule mod_less_divisor) simp
  then show ?thesis by (simp add: uchar_def)
qed

lemma uchar_eq_iff [simp]: "uchar c = uchar d \<longleftrightarrow> c = d"
  by (simp add: uchar_def)

lemma char_of_uchar [simp]: "char_of (uchar c) = c"
  by (simp add: uchar_def)

lemma uchar_char_of [simp]: "n < 256 \<Longrightarrow> uchar (char_of n) = n"
  by (simp add: uchar_def)

lemma schar_uchar: "schar c = (if uchar c < 128 then int (uchar c) else int (uchar c) - 256)"
proof -
  have "(of_char c :: int) = int (uchar c)"
    by (simp only: uchar_def of_nat_of_char)
  then show ?thesis by (simp add: schar_def Let_def)
qed

lemma schar_eq_iff [simp]: "schar c = schar d \<longleftrightarrow> c = d"
proof -
  have "schar c = schar d \<longleftrightarrow> uchar c = uchar d"
    using uchar_less [of c] uchar_less [of d] unfolding schar_uchar
    by (auto simp del: uchar_less uchar_eq_iff split: if_splits)
  then show ?thesis by simp
qed

lemma schar_NUL [simp]: "schar NUL = 0"
  by (simp add: schar_def)

lemma schar_eq_0_iff [simp]: "schar c = 0 \<longleftrightarrow> c = NUL"
  using schar_eq_iff [of c NUL] by (simp del: schar_eq_iff)

lemma schar_bounds: "- 128 \<le> schar c" "schar c \<le> 127"
  using uchar_less [of c] unfolding schar_uchar by (auto simp del: uchar_less)

text \<open>A property of all characters is a property of the 256 codes.\<close>

lemma all_chars:
  assumes "list_all (\<lambda>n. P (char_of n)) [0..<256]"
  shows "P c"
proof -
  have "uchar c \<in> set [0..<256]" by simp
  then have "P (char_of (uchar c))"
    using assms unfolding list_all_iff by blast
  then show ?thesis by simp
qed

section \<open>Machine integers\<close>

text \<open>
  \<open>int\<close> has 32 bits, \<open>long\<close>, \<open>size_t\<close> and \<open>time_t\<close> have 64. Arithmetic is done on
  HOL integers and reduced where the source stores the result.
\<close>

definition c_int :: "int \<Rightarrow> int" where
  "c_int x = signed_take_bit 31 x"

definition c_long :: "int \<Rightarrow> int" where
  "c_long x = signed_take_bit 63 x"

definition c_uint :: "int \<Rightarrow> int" where
  "c_uint x = take_bit 32 x"

definition INT_MIN :: int where "INT_MIN = - (2 ^ 31)"
definition INT_MAX :: int where "INT_MAX = 2 ^ 31 - 1"
definition LONG_MIN :: int where "LONG_MIN = - (2 ^ 63)"
definition LONG_MAX :: int where "LONG_MAX = 2 ^ 63 - 1"

lemma c_int_id [simp]: "- (2 ^ 31) \<le> x \<Longrightarrow> x < 2 ^ 31 \<Longrightarrow> c_int x = x"
  by (simp add: c_int_def signed_take_bit_int_eq_self_iff)

lemma c_int_range: "- (2 ^ 31) \<le> c_int x" "c_int x < 2 ^ 31"
  unfolding c_int_def
  by (metis signed_take_bit_int_greater_eq_minus_exp)
     (metis signed_take_bit_int_less_exp)

lemma c_long_id [simp]: "- (2 ^ 63) \<le> x \<Longrightarrow> x < 2 ^ 63 \<Longrightarrow> c_long x = x"
  by (simp add: c_long_def signed_take_bit_int_eq_self_iff)

lemma c_uint_id [simp]: "0 \<le> x \<Longrightarrow> x < 2 ^ 32 \<Longrightarrow> c_uint x = x"
  by (simp add: c_uint_def take_bit_int_eq_self_iff)

section \<open>printf conversions\<close>

definition digit_char :: "nat \<Rightarrow> char" where
  "digit_char d = char_of (if d < 10 then 48 + d else 87 + d)"

fun show_base :: "nat \<Rightarrow> nat \<Rightarrow> string" where
  "show_base b n =
     (if n < b \<or> b < 2 then [digit_char n]
      else show_base b (n div b) @ [digit_char (n mod b)])"

declare show_base.simps [simp del]

text \<open>The conversions \<open>%lu\<close> and \<open>%u\<close>, \<open>%x\<close>, \<open>%d\<close>, and \<open>%02d\<close>.\<close>

definition show_nat :: "nat \<Rightarrow> string" where
  "show_nat n = show_base 10 n"

definition show_hex :: "nat \<Rightarrow> string" where
  "show_hex n = show_base 16 n"

definition show_int :: "int \<Rightarrow> string" where
  "show_int x = (if x < 0 then CHR ''-'' # show_nat (nat (- x)) else show_nat (nat x))"

definition show_02d :: "int \<Rightarrow> string" where
  "show_02d x = (let s = show_int x in if length s < 2 then CHR ''0'' # s else s)"

lemma show_base_nonempty [simp]: "show_base b n \<noteq> []"
  by (subst show_base.simps) simp

lemma show_nat_nonempty [simp]: "show_nat n \<noteq> []"
  by (simp add: show_nat_def)

lemma show_hex_nonempty [simp]: "show_hex n \<noteq> []"
  by (simp add: show_hex_def)

definition is_digit :: "char \<Rightarrow> bool" where
  "is_digit c \<longleftrightarrow> 48 \<le> uchar c \<and> uchar c \<le> 57"

definition digit_val :: "char \<Rightarrow> nat" where
  "digit_val c = uchar c - 48"

lemma is_digit_digit_char [simp]: "d < 10 \<Longrightarrow> is_digit (digit_char d)"
  by (simp add: is_digit_def digit_char_def)

lemma digit_val_digit_char [simp]: "d < 10 \<Longrightarrow> digit_val (digit_char d) = d"
  by (simp add: digit_val_def digit_char_def)

lemma show_nat_digits: "\<forall>c \<in> set (show_nat n). is_digit c"
  unfolding show_nat_def
proof (induction "10::nat" n rule: show_base.induct)
  case (1 n)
  show ?case
  proof (cases "n < 10")
    case True
    then show ?thesis by (subst show_base.simps) simp
  next
    case False
    with 1 show ?thesis by (subst show_base.simps) auto
  qed
qed

lemma is_digit_not_NUL [simp]: "\<not> is_digit NUL"
  by (simp add: is_digit_def uchar_def)

lemma cstring_show_nat [simp]: "cstring (show_nat n)"
  using show_nat_digits [of n] unfolding cstring_def by force

section \<open>strtol\<close>

text \<open>
  \<open>strtol (s, &ep, 10)\<close>: leading white space and one sign are skipped, the digits are
  read, the value saturates at the ends of \<open>long\<close>. With no digit the end pointer is
  the start of the string. The result is the value and the rest at \<open>ep\<close>.
\<close>

definition isspace :: "char \<Rightarrow> bool" where
  "isspace c \<longleftrightarrow> c = CHR '' '' \<or> (9 \<le> uchar c \<and> uchar c \<le> 13)"

definition digits_val :: "string \<Rightarrow> nat" where
  "digits_val ds = foldl (\<lambda>v c. 10 * v + digit_val c) 0 ds"

definition strtol10 :: "string \<Rightarrow> int \<times> string" where
  "strtol10 s =
     (let s1 = dropWhile isspace s;
          neg = (deref s1 = CHR ''-'');
          s2 = (if deref s1 = CHR ''-'' \<or> deref s1 = CHR ''+'' then tl s1 else s1);
          ds = takeWhile is_digit s2;
          v = int (digits_val ds)
      in if ds = [] then (0, s)
         else (max LONG_MIN (min LONG_MAX (if neg then - v else v)), dropWhile is_digit s2))"

text \<open>\<open>strtoul (s, &ep, 10)\<close>, and \<open>strtoull\<close>: a minus sign wraps, a number that is too large saturates.\<close>

definition strtoul10 :: "string \<Rightarrow> nat \<times> string" where
  "strtoul10 s =
     (let s1 = dropWhile isspace s;
          neg = (deref s1 = CHR ''-'');
          s2 = (if deref s1 = CHR ''-'' \<or> deref s1 = CHR ''+'' then tl s1 else s1);
          ds = takeWhile is_digit s2;
          v = digits_val ds
      in if ds = [] then (0, s)
         else (if v \<ge> 2 ^ 64 then 2 ^ 64 - 1 else if neg then nat ((- int v) mod 2 ^ 64) else v,
               dropWhile is_digit s2))"

lemma digits_val_snoc: "digits_val (ds @ [c]) = 10 * digits_val ds + digit_val c"
  by (simp add: digits_val_def)

lemma digits_val_show_nat [simp]: "digits_val (show_nat n) = n"
  unfolding show_nat_def
proof (induction "10::nat" n rule: show_base.induct)
  case (1 n)
  show ?case
  proof (cases "n < 10")
    case True
    then show ?thesis by (subst show_base.simps) (simp add: digits_val_def)
  next
    case False
    with 1 show ?thesis by (subst show_base.simps) (simp add: digits_val_snoc)
  qed
qed

lemma is_digit_not_space: "is_digit c \<Longrightarrow> \<not> isspace c"
  by (auto simp: is_digit_def isspace_def uchar_def)

lemma is_digit_not_sign: "is_digit c \<Longrightarrow> c \<noteq> CHR ''-'' \<and> c \<noteq> CHR ''+''"
  by (auto simp: is_digit_def uchar_def)

text \<open>Reading back a printed number that is followed by a non-digit.\<close>

lemma strtol10_show_nat:
  assumes "int n \<le> LONG_MAX" and "rest = [] \<or> \<not> is_digit (hd rest)"
  shows "strtol10 (show_nat n @ rest) = (int n, rest)"
proof -
  obtain c cs where c: "show_nat n = c # cs"
    using show_nat_nonempty [of n] by (cases "show_nat n") auto
  then have dig: "is_digit c" using show_nat_digits [of n] by simp
  have tw: "takeWhile is_digit (show_nat n @ rest) = show_nat n"
    using show_nat_digits [of n] assms(2) by (cases rest) (auto simp: takeWhile_append)
  have dw: "dropWhile is_digit (show_nat n @ rest) = rest"
    using show_nat_digits [of n] assms(2) by (cases rest) (auto simp: dropWhile_append)
  have s1: "dropWhile isspace (show_nat n @ rest) = show_nat n @ rest"
    using dig c by (simp add: is_digit_not_space)
  have "deref (show_nat n @ rest) = c" using c by simp
  then show ?thesis
    using dig is_digit_not_sign [OF dig] assms(1) tw dw s1
    by (simp add: strtol10_def Let_def LONG_MIN_def)
qed

lemma strtol10_space:
  "isspace c \<Longrightarrow> snd (strtol10 s) \<noteq> s \<Longrightarrow> strtol10 (c # s) = strtol10 s"
  by (auto simp: strtol10_def Let_def split: if_splits)

lemma unat16_less [simp]: "unat (p :: 16 word) < 65536"
  by (rule order.strict_trans2 [OF unsigned_less]) simp

section \<open>Refinement\<close>

text \<open>
  The contract between a data structure and the abstract state it stands for: every step
  that is allowed keeps the invariant and acts on the abstract state as \<open>spec\<close> does. Then
  so does every sequence of steps.
\<close>

locale refinement =
  fixes inv :: "'s \<Rightarrow> bool" and absf :: "'s \<Rightarrow> 'a" and step :: "'s \<Rightarrow> 'e \<Rightarrow> 's"
    and spec :: "'a \<Rightarrow> 'e \<Rightarrow> 'a" and ok :: "'e \<Rightarrow> bool"
  assumes step_inv: "inv s \<Longrightarrow> ok e \<Longrightarrow> inv (step s e)"
    and step_absf: "inv s \<Longrightarrow> ok e \<Longrightarrow> absf (step s e) = spec (absf s) e"
begin

lemma run_inv: "inv s \<Longrightarrow> list_all ok es \<Longrightarrow> inv (foldl step s es)"
  by (induction es arbitrary: s) (simp_all add: step_inv)

lemma run_absf: "inv s \<Longrightarrow> list_all ok es \<Longrightarrow> absf (foldl step s es) = foldl spec (absf s) es"
  by (induction es arbitrary: s) (simp_all add: step_inv step_absf)

end

end
