(* ===== verification/Chattr.thy ===== *)
theory Chattr
  imports Prelude
begin

text \<open>
  The generated character tables of \<open>lib/chattr.tab.c\<close> as they are compiled on a
  platform with signed \<open>char\<close> (the first 128 entries are for the codes 0x80 to 0xff,
  and a character is looked up at its value minus \<open>CHAR_MIN\<close>), the macros
  \<open>ToLower\<close> (lib/irc_string.h) and \<open>IsDigit\<close> (lib/irc_ipv6.h) over them, and the
  closed forms of both that the other components reason with.
\<close>

definition ToLowerTab_8859_1 :: "char list" where
  "ToLowerTab_8859_1 =
    [CHR 0x80, CHR 0x81, CHR 0x82, CHR 0x83, CHR 0x84, CHR 0x85, CHR 0x86, CHR 0x87,
     CHR 0x88, CHR 0x89, CHR 0x8A, CHR 0x8B, CHR 0x8C, CHR 0x8D, CHR 0x8E, CHR 0x8F,
     CHR 0x90, CHR 0x91, CHR 0x92, CHR 0x93, CHR 0x94, CHR 0x95, CHR 0x96, CHR 0x97,
     CHR 0x98, CHR 0x99, CHR 0x9A, CHR 0x9B, CHR 0x9C, CHR 0x9D, CHR 0x9E, CHR 0x9F,
     CHR 0xA0, CHR 0xA1, CHR 0xA2, CHR 0xA3, CHR 0xA4, CHR 0xA5, CHR 0xA6, CHR 0xA7,
     CHR 0xA8, CHR 0xA9, CHR 0xAA, CHR 0xAB, CHR 0xAC, CHR 0xAD, CHR 0xAE, CHR 0xAF,
     CHR 0xB0, CHR 0xB1, CHR 0xB2, CHR 0xB3, CHR 0xB4, CHR 0xB5, CHR 0xB6, CHR 0xB7,
     CHR 0xB8, CHR 0xB9, CHR 0xBA, CHR 0xBB, CHR 0xBC, CHR 0xBD, CHR 0xBE, CHR 0xBF,
     CHR 0xE0, CHR 0xE1, CHR 0xE2, CHR 0xE3, CHR 0xE4, CHR 0xE5, CHR 0xE6, CHR 0xE7,
     CHR 0xE8, CHR 0xE9, CHR 0xEA, CHR 0xEB, CHR 0xEC, CHR 0xED, CHR 0xEE, CHR 0xEF,
     CHR 0xF0, CHR 0xF1, CHR 0xF2, CHR 0xF3, CHR 0xF4, CHR 0xF5, CHR 0xF6, CHR 0xD7,
     CHR 0xF8, CHR 0xF9, CHR 0xFA, CHR 0xFB, CHR 0xFC, CHR 0xFD, CHR 0xFE, CHR 0xDF,
     CHR 0xE0, CHR 0xE1, CHR 0xE2, CHR 0xE3, CHR 0xE4, CHR 0xE5, CHR 0xE6, CHR 0xE7,
     CHR 0xE8, CHR 0xE9, CHR 0xEA, CHR 0xEB, CHR 0xEC, CHR 0xED, CHR 0xEE, CHR 0xEF,
     CHR 0xF0, CHR 0xF1, CHR 0xF2, CHR 0xF3, CHR 0xF4, CHR 0xF5, CHR 0xF6, CHR 0xF7,
     CHR 0xF8, CHR 0xF9, CHR 0xFA, CHR 0xFB, CHR 0xFC, CHR 0xFD, CHR 0xFE, CHR 0xFF,
     CHR 0x00, CHR 0x01, CHR 0x02, CHR 0x03, CHR 0x04, CHR 0x05, CHR 0x06, CHR 0x07,
     CHR 0x08, CHR 0x09, CHR 0x0A, CHR 0x0B, CHR 0x0C, CHR 0x0D, CHR 0x0E, CHR 0x0F,
     CHR 0x10, CHR 0x11, CHR 0x12, CHR 0x13, CHR 0x14, CHR 0x15, CHR 0x16, CHR 0x17,
     CHR 0x18, CHR 0x19, CHR 0x1A, CHR 0x1B, CHR 0x1C, CHR 0x1D, CHR 0x1E, CHR 0x1F,
     CHR 0x20, CHR 0x21, CHR 0x22, CHR 0x23, CHR 0x24, CHR 0x25, CHR 0x26, CHR 0x27,
     CHR 0x28, CHR 0x29, CHR 0x2A, CHR 0x2B, CHR 0x2C, CHR 0x2D, CHR 0x2E, CHR 0x2F,
     CHR 0x30, CHR 0x31, CHR 0x32, CHR 0x33, CHR 0x34, CHR 0x35, CHR 0x36, CHR 0x37,
     CHR 0x38, CHR 0x39, CHR 0x3A, CHR 0x3B, CHR 0x3C, CHR 0x3D, CHR 0x3E, CHR 0x3F,
     CHR 0x40, CHR 0x61, CHR 0x62, CHR 0x63, CHR 0x64, CHR 0x65, CHR 0x66, CHR 0x67,
     CHR 0x68, CHR 0x69, CHR 0x6A, CHR 0x6B, CHR 0x6C, CHR 0x6D, CHR 0x6E, CHR 0x6F,
     CHR 0x70, CHR 0x71, CHR 0x72, CHR 0x73, CHR 0x74, CHR 0x75, CHR 0x76, CHR 0x77,
     CHR 0x78, CHR 0x79, CHR 0x7A, CHR 0x7B, CHR 0x7C, CHR 0x7D, CHR 0x7E, CHR 0x5F,
     CHR 0x60, CHR 0x61, CHR 0x62, CHR 0x63, CHR 0x64, CHR 0x65, CHR 0x66, CHR 0x67,
     CHR 0x68, CHR 0x69, CHR 0x6A, CHR 0x6B, CHR 0x6C, CHR 0x6D, CHR 0x6E, CHR 0x6F,
     CHR 0x70, CHR 0x71, CHR 0x72, CHR 0x73, CHR 0x74, CHR 0x75, CHR 0x76, CHR 0x77,
     CHR 0x78, CHR 0x79, CHR 0x7A, CHR 0x7B, CHR 0x7C, CHR 0x7D, CHR 0x7E, CHR 0x7F]"

definition IRCD_CharAttrTab :: "nat list" where
  "IRCD_CharAttrTab =
    [0x400, 0x400, 0x400, 0x400, 0x400, 0x400, 0x400, 0x400,
     0x400, 0x400, 0x400, 0x400, 0x400, 0x400, 0x400, 0x400,
     0x400, 0x400, 0x400, 0x400, 0x400, 0x400, 0x400, 0x400,
     0x400, 0x400, 0x400, 0x400, 0x400, 0x400, 0x400, 0x400,
     0x0, 0x400, 0x400, 0x400, 0x400, 0x400, 0x400, 0x400,
     0x400, 0x400, 0x400, 0x400, 0x400, 0x400, 0x400, 0x400,
     0x400, 0x400, 0x400, 0x400, 0x400, 0x400, 0x400, 0x400,
     0x400, 0x400, 0x400, 0x400, 0x400, 0x400, 0x400, 0x400,
     0x2C00, 0x2C00, 0x2C00, 0x2C00, 0x2C00, 0x2C00, 0x2C00, 0x2C00,
     0x2C00, 0x2C00, 0x2C00, 0x2C00, 0x2C00, 0x2C00, 0x2C00, 0x2C00,
     0x2C00, 0x2C00, 0x2C00, 0x2C00, 0x2C00, 0x2C00, 0x2C00, 0x400,
     0x2C00, 0x2C00, 0x2C00, 0x2C00, 0x2C00, 0x2C00, 0x2C00, 0x400,
     0x2400, 0x2400, 0x2400, 0x2400, 0x2400, 0x2400, 0x2400, 0x2400,
     0x2400, 0x2400, 0x2400, 0x2400, 0x2400, 0x2400, 0x2400, 0x2400,
     0x2400, 0x2400, 0x2400, 0x2400, 0x2400, 0x2400, 0x2400, 0x400,
     0x2400, 0x2400, 0x2400, 0x2400, 0x2400, 0x2400, 0x2400, 0x400,
     0x404, 0x404, 0x404, 0x404, 0x404, 0x404, 0x404, 0x4,
     0x404, 0x504, 0x10504, 0x504, 0x504, 0x10504, 0x404, 0x404,
     0x404, 0x404, 0x404, 0x404, 0x404, 0x404, 0x404, 0x404,
     0x404, 0x404, 0x404, 0x404, 0x404, 0x404, 0x404, 0x404,
     0x20140, 0x4D0, 0x4D0, 0x404D0, 0x4D0, 0x4D0, 0x404D0, 0x24D0,
     0x4D0, 0x4D0, 0x4D0, 0x4D0, 0x200D0, 0x274D0, 0xE4D0, 0x4D0,
     0x2F459, 0x2F459, 0x2F459, 0x2F459, 0x2F459, 0x2F459, 0x2F459, 0x2F459,
     0x2F459, 0x2F459, 0x4D0, 0x4D0, 0x4D0, 0x4D0, 0x4D0, 0x4D0,
     0x4D0, 0x7653, 0x7653, 0x7653, 0x7653, 0x7653, 0x7653, 0x7653,
     0x7653, 0x7653, 0x7653, 0x7653, 0x7653, 0x7653, 0x7653, 0x7653,
     0x7653, 0x7653, 0x7653, 0x7653, 0x7653, 0x7653, 0x7653, 0x7653,
     0x7653, 0x7653, 0x7653, 0x7653, 0x7653, 0x7653, 0x7653, 0x74D0,
     0x34D0, 0x7473, 0x7473, 0x7473, 0x7473, 0x7473, 0x7473, 0x7473,
     0x7473, 0x7473, 0x7473, 0x7473, 0x7473, 0x7473, 0x7473, 0x7473,
     0x7473, 0x7473, 0x7473, 0x7473, 0x7473, 0x7473, 0x7473, 0x7473,
     0x7473, 0x7473, 0x7473, 0x7473, 0x7473, 0x7473, 0x7473, 0x400]"

definition NTL_DIGIT :: nat where
  "NTL_DIGIT = 0x0008"

definition CHAR_MIN :: int where
  "CHAR_MIN = - 128"

definition ToLower :: "char \<Rightarrow> char" where
  "ToLower c = ToLowerTab_8859_1 ! nat (schar c - CHAR_MIN)"

definition IsDigit :: "char \<Rightarrow> bool" where
  "IsDigit c \<longleftrightarrow> bit (IRCD_CharAttrTab ! nat (schar c - CHAR_MIN)) 3"

lemma NTL_DIGIT_bit: "NTL_DIGIT = 2 ^ 3"
  by (simp add: NTL_DIGIT_def)

text \<open>
  Lower case: the ASCII letters, the four RFC 1459 brackets next to them, and the
  accented Latin-1 letters.
\<close>

definition lower_code :: "nat \<Rightarrow> nat" where
  "lower_code n =
     (if (65 \<le> n \<and> n \<le> 94) \<or> (192 \<le> n \<and> n \<le> 222 \<and> n \<noteq> 215) then n + 32 else n)"

lemma ToLowerTab_codes: "map uchar ToLowerTab_8859_1 = map lower_code ([128..<256] @ [0..<128])"
  by (simp add: ToLowerTab_8859_1_def uchar_def lower_code_def upt_rec)

lemma schar_index: "nat (schar c - CHAR_MIN) = (uchar c + 128) mod 256"
  using uchar_less [of c] unfolding schar_uchar CHAR_MIN_def
  by (auto simp: mod_if simp del: uchar_less)

lemma char_codes_nth: "n < 256 \<Longrightarrow> ([128..<256] @ [0..<128]) ! ((n + 128) mod 256) = n"
  by (cases "n < 128") (auto simp: nth_append mod_if simp del: upt_rec_numeral)

lemma ToLower_code: "ToLower c = char_of (lower_code (uchar c))"
proof -
  let ?i = "(uchar c + 128) mod 256"
  have len: "length ToLowerTab_8859_1 = 256"
    using arg_cong [OF ToLowerTab_codes, of length] by simp
  have i: "?i < 256" by simp
  have "uchar (ToLowerTab_8859_1 ! ?i) = map uchar ToLowerTab_8859_1 ! ?i"
    using len i by simp
  also have "\<dots> = lower_code (([128..<256] @ [0..<128]) ! ?i)"
    unfolding ToLowerTab_codes using i by (subst nth_map) simp_all
  also have "\<dots> = lower_code (uchar c)"
    by (simp only: char_codes_nth [OF uchar_less])
  finally show ?thesis
    unfolding ToLower_def schar_index by (metis char_of_uchar)
qed

lemma IRCD_CharAttrTab_digits:
  "map (\<lambda>a. bit a 3) IRCD_CharAttrTab
     = map (\<lambda>n. 48 \<le> n \<and> n \<le> 57) ([128..<256] @ [0..<128])"
  by (simp add: IRCD_CharAttrTab_def upt_rec bit_numeral_rec)

lemma IsDigit_code [simp]: "IsDigit c \<longleftrightarrow> is_digit c"
proof -
  let ?i = "(uchar c + 128) mod 256"
  have len: "length IRCD_CharAttrTab = 256"
    using arg_cong [OF IRCD_CharAttrTab_digits, of length] by simp
  have i: "?i < 256" by simp
  have "bit (IRCD_CharAttrTab ! ?i) 3 = map (\<lambda>a. bit a 3) IRCD_CharAttrTab ! ?i"
    using len i by simp
  also have "\<dots> = (\<lambda>n. 48 \<le> n \<and> n \<le> 57) (([128..<256] @ [0..<128]) ! ?i)"
    unfolding IRCD_CharAttrTab_digits using i by (subst nth_map) simp_all
  finally show ?thesis
    unfolding IsDigit_def schar_index is_digit_def char_codes_nth [OF uchar_less] .
qed

lemma lower_code_less [simp]: "n < 256 \<Longrightarrow> lower_code n < 256"
  by (simp add: lower_code_def)

lemma lower_code_idem [simp]: "lower_code (lower_code n) = lower_code n"
  by (auto simp: lower_code_def)

lemma ToLower_idem [simp]: "ToLower (ToLower c) = ToLower c"
  by (simp add: ToLower_code)

lemma ToLower_NUL [simp]: "ToLower NUL = NUL"
  by (rule uchar_eq_iff [THEN iffD1]) (simp add: ToLower_code lower_code_def uchar_def)

lemma ToLower_eq_code: "ToLower c = d \<longleftrightarrow> lower_code (uchar c) = uchar d"
  by (metis ToLower_code char_of_uchar lower_code_less uchar_char_of uchar_less)

lemma uchar_wildcards:
  "uchar c = 42 \<longleftrightarrow> c = CHR ''*''" "uchar c = 63 \<longleftrightarrow> c = CHR ''?''"
  using uchar_eq_iff [of c "CHR ''*''"] uchar_eq_iff [of c "CHR ''?''"] by (simp_all add: uchar_def)

lemma ToLower_wildcards [simp]:
  "ToLower c = CHR ''*'' \<longleftrightarrow> c = CHR ''*''" "ToLower c = CHR ''?'' \<longleftrightarrow> c = CHR ''?''"
proof -
  have "lower_code n = 42 \<longleftrightarrow> n = 42" "lower_code n = 63 \<longleftrightarrow> n = 63" for n
    by (auto simp: lower_code_def split: if_splits)
  then show "ToLower c = CHR ''*'' \<longleftrightarrow> c = CHR ''*''" "ToLower c = CHR ''?'' \<longleftrightarrow> c = CHR ''?''"
    by (simp_all flip: uchar_wildcards add: ToLower_code)
qed

lemma ToLower_wildcard_consts [simp]:
  "ToLower (CHR ''*'') = CHR ''*''" "ToLower (CHR ''?'') = CHR ''?''"
  by simp_all

lemma ToLower_wildcards_sym [simp]:
  "CHR ''*'' = ToLower c \<longleftrightarrow> c = CHR ''*''" "CHR ''?'' = ToLower c \<longleftrightarrow> c = CHR ''?''"
  by (metis ToLower_wildcards(1)) (metis ToLower_wildcards(2))

lemma uchar_NUL [simp]: "uchar c = 0 \<longleftrightarrow> c = NUL"
  using uchar_eq_iff [of c NUL] by (simp add: uchar_def)

lemma ToLower_eq_NUL [simp]: "ToLower c = NUL \<longleftrightarrow> c = NUL"
proof -
  have "ToLower c = NUL \<longleftrightarrow> lower_code (uchar c) = 0"
    using uchar_NUL [of "ToLower c"] by (simp add: ToLower_code del: uchar_NUL)
  then show ?thesis by (auto simp: lower_code_def split: if_splits)
qed

lemma ToLower_eq_NUL_sym [simp]: "NUL = ToLower c \<longleftrightarrow> c = NUL"
  using ToLower_eq_NUL [of c] by metis

end
