(* ===== verification/IrcString.thy ===== *)
theory IrcString
  imports Chattr
begin

text \<open>
  The string routines of \<open>lib/irc_string.c\<close>: the CRC used by the hash tables, the
  RFC 1459 comparisons, the duration and address formatters, the wildcard matchers
  \<open>match\<close> and \<open>mmatch\<close> and the mask normaliser \<open>collapse\<close>. A pointer that walks a
  string is modelled by the suffix it points at, \<open>deref\<close> of the empty suffix being
  the terminating NUL. The matchers are proved against a reference semantics of
  masks (\<open>glob\<close>).
\<close>

unbundle bit_operations_syntax

section \<open>CRC32\<close>

definition crc32_tab :: "64 word list" where
  "crc32_tab =
    [0x00000000, 0x77073096, 0xEE0E612C, 0x990951BA, 0x076DC419,
     0x706AF48F, 0xE963A535, 0x9E6495A3, 0x0EDB8832, 0x79DCB8A4,
     0xE0D5E91E, 0x97D2D988, 0x09B64C2B, 0x7EB17CBD, 0xE7B82D07,
     0x90BF1D91, 0x1DB71064, 0x6AB020F2, 0xF3B97148, 0x84BE41DE,
     0x1ADAD47D, 0x6DDDE4EB, 0xF4D4B551, 0x83D385C7, 0x136C9856,
     0x646BA8C0, 0xFD62F97A, 0x8A65C9EC, 0x14015C4F, 0x63066CD9,
     0xFA0F3D63, 0x8D080DF5, 0x3B6E20C8, 0x4C69105E, 0xD56041E4,
     0xA2677172, 0x3C03E4D1, 0x4B04D447, 0xD20D85FD, 0xA50AB56B,
     0x35B5A8FA, 0x42B2986C, 0xDBBBC9D6, 0xACBCF940, 0x32D86CE3,
     0x45DF5C75, 0xDCD60DCF, 0xABD13D59, 0x26D930AC, 0x51DE003A,
     0xC8D75180, 0xBFD06116, 0x21B4F4B5, 0x56B3C423, 0xCFBA9599,
     0xB8BDA50F, 0x2802B89E, 0x5F058808, 0xC60CD9B2, 0xB10BE924,
     0x2F6F7C87, 0x58684C11, 0xC1611DAB, 0xB6662D3D, 0x76DC4190,
     0x01DB7106, 0x98D220BC, 0xEFD5102A, 0x71B18589, 0x06B6B51F,
     0x9FBFE4A5, 0xE8B8D433, 0x7807C9A2, 0x0F00F934, 0x9609A88E,
     0xE10E9818, 0x7F6A0DBB, 0x086D3D2D, 0x91646C97, 0xE6635C01,
     0x6B6B51F4, 0x1C6C6162, 0x856530D8, 0xF262004E, 0x6C0695ED,
     0x1B01A57B, 0x8208F4C1, 0xF50FC457, 0x65B0D9C6, 0x12B7E950,
     0x8BBEB8EA, 0xFCB9887C, 0x62DD1DDF, 0x15DA2D49, 0x8CD37CF3,
     0xFBD44C65, 0x4DB26158, 0x3AB551CE, 0xA3BC0074, 0xD4BB30E2,
     0x4ADFA541, 0x3DD895D7, 0xA4D1C46D, 0xD3D6F4FB, 0x4369E96A,
     0x346ED9FC, 0xAD678846, 0xDA60B8D0, 0x44042D73, 0x33031DE5,
     0xAA0A4C5F, 0xDD0D7CC9, 0x5005713C, 0x270241AA, 0xBE0B1010,
     0xC90C2086, 0x5768B525, 0x206F85B3, 0xB966D409, 0xCE61E49F,
     0x5EDEF90E, 0x29D9C998, 0xB0D09822, 0xC7D7A8B4, 0x59B33D17,
     0x2EB40D81, 0xB7BD5C3B, 0xC0BA6CAD, 0xEDB88320, 0x9ABFB3B6,
     0x03B6E20C, 0x74B1D29A, 0xEAD54739, 0x9DD277AF, 0x04DB2615,
     0x73DC1683, 0xE3630B12, 0x94643B84, 0x0D6D6A3E, 0x7A6A5AA8,
     0xE40ECF0B, 0x9309FF9D, 0x0A00AE27, 0x7D079EB1, 0xF00F9344,
     0x8708A3D2, 0x1E01F268, 0x6906C2FE, 0xF762575D, 0x806567CB,
     0x196C3671, 0x6E6B06E7, 0xFED41B76, 0x89D32BE0, 0x10DA7A5A,
     0x67DD4ACC, 0xF9B9DF6F, 0x8EBEEFF9, 0x17B7BE43, 0x60B08ED5,
     0xD6D6A3E8, 0xA1D1937E, 0x38D8C2C4, 0x4FDFF252, 0xD1BB67F1,
     0xA6BC5767, 0x3FB506DD, 0x48B2364B, 0xD80D2BDA, 0xAF0A1B4C,
     0x36034AF6, 0x41047A60, 0xDF60EFC3, 0xA867DF55, 0x316E8EEF,
     0x4669BE79, 0xCB61B38C, 0xBC66831A, 0x256FD2A0, 0x5268E236,
     0xCC0C7795, 0xBB0B4703, 0x220216B9, 0x5505262F, 0xC5BA3BBE,
     0xB2BD0B28, 0x2BB45A92, 0x5CB36A04, 0xC2D7FFA7, 0xB5D0CF31,
     0x2CD99E8B, 0x5BDEAE1D, 0x9B64C2B0, 0xEC63F226, 0x756AA39C,
     0x026D930A, 0x9C0906A9, 0xEB0E363F, 0x72076785, 0x05005713,
     0x95BF4A82, 0xE2B87A14, 0x7BB12BAE, 0x0CB61B38, 0x92D28E9B,
     0xE5D5BE0D, 0x7CDCEFB7, 0x0BDBDF21, 0x86D3D2D4, 0xF1D4E242,
     0x68DDB3F8, 0x1FDA836E, 0x81BE16CD, 0xF6B9265B, 0x6FB077E1,
     0x18B74777, 0x88085AE6, 0xFF0F6A70, 0x66063BCA, 0x11010B5C,
     0x8F659EFF, 0xF862AE69, 0x616BFFD3, 0x166CCF45, 0xA00AE278,
     0xD70DD2EE, 0x4E048354, 0x3903B3C2, 0xA7672661, 0xD06016F7,
     0x4969474D, 0x3E6E77DB, 0xAED16A4A, 0xD9D65ADC, 0x40DF0B66,
     0x37D83BF0, 0xA9BCAE53, 0xDEBB9EC5, 0x47B2CF7F, 0x30B5FFE9,
     0xBDBDF21C, 0xCABAC28A, 0x53B39330, 0x24B4A3A6, 0xBAD03605,
     0xCDD70693, 0x54DE5729, 0x23D967BF, 0xB3667A2E, 0xC4614AB8,
     0x5D681B02, 0x2A6F2B94, 0xB40BBE37, 0xC30C8EA1, 0x5A05DF1B,
     0x2D02EF8D]"

fun irc_crc32_loop :: "64 word \<Rightarrow> string \<Rightarrow> 64 word" where
  "irc_crc32_loop crc32val [] = crc32val"
| "irc_crc32_loop crc32val (c # cp) =
     irc_crc32_loop
       (crc32_tab ! unat ((crc32val XOR word_of_int (schar c)) AND 0xff) XOR drop_bit 8 crc32val)
       cp"

definition irc_crc32 :: "string \<Rightarrow> 64 word" where
  "irc_crc32 s = irc_crc32_loop 0 s"

fun irc_crc32i_loop :: "64 word \<Rightarrow> string \<Rightarrow> 64 word" where
  "irc_crc32i_loop crc32val [] = crc32val"
| "irc_crc32i_loop crc32val (c # cp) =
     irc_crc32i_loop
       (crc32_tab ! unat ((crc32val XOR word_of_int (schar (ToLower c))) AND 0xff)
         XOR drop_bit 8 crc32val)
       cp"

definition irc_crc32i :: "string \<Rightarrow> 64 word" where
  "irc_crc32i s = irc_crc32i_loop 0 s"

section \<open>Comparison\<close>

fun ircd_strcmp :: "string \<Rightarrow> string \<Rightarrow> int" where
  "ircd_strcmp u1 u2 =
     (if ToLower (deref u1) = ToLower (deref u2)
      then (case u1 of [] \<Rightarrow> 0 | _ # u1' \<Rightarrow> ircd_strcmp u1' (tl u2))
      else schar (ToLower (deref u1)) - schar (ToLower (deref u2)))"

text \<open>The counter of \<open>ircd_strncmp\<close> is a \<open>size_t\<close>: it starts at \<open>len - 1\<close> and wraps.\<close>

fun ircd_strncmp_loop :: "string \<Rightarrow> string \<Rightarrow> 64 word \<Rightarrow> int" where
  "ircd_strncmp_loop u1 u2 remaining =
     (if ToLower (deref u1) = ToLower (deref u2)
      then (case u1 of [] \<Rightarrow> 0
            | _ # u1' \<Rightarrow> (if remaining = 0 then 0
                          else ircd_strncmp_loop u1' (tl u2) (remaining - 1)))
      else schar (ToLower (deref u1)) - schar (ToLower (deref u2)))"

definition ircd_strncmp :: "string \<Rightarrow> string \<Rightarrow> 64 word \<Rightarrow> int" where
  "ircd_strncmp s1 s2 len =
     (let remaining = len - 1 in if remaining = 0 then 0 else ircd_strncmp_loop s1 s2 remaining)"

declare ircd_strcmp.simps [simp del] ircd_strncmp_loop.simps [simp del]

fun delchars_isbad :: "char \<Rightarrow> string \<Rightarrow> bool" where
  "delchars_isbad s [] = False"
| "delchars_isbad s (b # bs) = (if b = s then True else delchars_isbad s bs)"

fun delchars :: "string \<Rightarrow> string \<Rightarrow> string" where
  "delchars [] badchars = []"
| "delchars (c # s) badchars =
     (if delchars_isbad c badchars then delchars s badchars else c # delchars s badchars)"

section \<open>Formatting\<close>

definition IPlongtostr :: "64 word \<Rightarrow> string" where
  "IPlongtostr IP =
     show_nat (unat (drop_bit 24 IP)) @ ''.'' @ show_nat (unat (drop_bit 16 IP AND 255)) @ ''.'' @
     show_nat (unat (drop_bit 8 IP AND 255)) @ ''.'' @ show_nat (unat (IP AND 255))"

definition plural :: "int \<Rightarrow> string" where
  "plural n = (if n = 1 then '''' else ''s'')"

text \<open>
  \<open>interval\<close> is an \<open>unsigned long\<close>; the four parts are stored in \<open>int\<close>s. Each branch
  writes the static buffer from its start, so the result is the text written.
\<close>

definition longtoduration :: "nat \<Rightarrow> int \<Rightarrow> string" where
  "longtoduration interval format =
     (let seconds = c_int (int (interval mod 60));
          minutes = c_int (int (interval mod 3600 div 60));
          hours = c_int (int (interval mod (3600 * 24) div 3600));
          days = c_int (int (interval div (3600 * 24)))
      in if format < 2 then
           if format = 0 \<or> (days > 0 \<and> (hours \<noteq> 0 \<or> minutes \<noteq> 0 \<or> seconds \<noteq> 0)) then
             show_int days @ '' day'' @ plural days @ '', '' @ show_02d hours @ '':'' @
             show_02d minutes @ '':'' @ show_02d seconds
           else if days > 0 then show_int days @ '' day'' @ plural days
           else
             (if hours > 0 then show_int hours @ '' hour'' @ plural hours @ '' '' else '''') @
             (if minutes > 0 \<or> (hours > 0 \<and> seconds > 0)
              then show_int minutes @ '' minute'' @ plural minutes @ '' '' else '''') @
             (if seconds > 0 \<or> interval = 0
              then show_int seconds @ '' second'' @ plural seconds @ '' '' else '''')
         else
           (if days > 0 then show_int days @ ''d '' else '''') @
           (if hours > 0 \<or> (days > 0 \<and> (minutes > 0 \<or> seconds > 0))
            then show_int hours @ ''h '' else '''') @
           (if minutes > 0 \<or> ((days > 0 \<or> hours > 0) \<and> seconds > 0)
            then show_int minutes @ ''m '' else '''') @
           (if seconds > 0 \<or> interval = 0 then show_int seconds @ ''s '' else ''''))"

text \<open>
  The unit switch of \<open>durationtolong\<close> at \<open>ch\<close>: what is added to \<open>total\<close> and where \<open>ch\<close>
  points afterwards. At the end of the string \<open>ch\<close> stays on the NUL.
\<close>

definition duration_unit :: "string \<Rightarrow> int \<Rightarrow> int \<times> string" where
  "duration_unit ch current =
     (case ch of [] \<Rightarrow> (current, [])
      | u # ch' \<Rightarrow>
          (if u = CHR ''s'' then current
           else if u = CHR ''m'' then c_int (current * 60)
           else if u = CHR ''h'' then c_int (current * 3600)
           else if u = CHR ''d'' then c_int (current * 86400)
           else if u = CHR ''w'' then c_int (current * 604800)
           else if u = CHR ''M'' then c_int (current * 2592000)
           else if u = CHR ''y'' then c_int (current * 31557600)
           else 0, ch'))"

lemma strtol10_length: "length (snd (strtol10 s)) \<le> length s"
proof -
  define s1 where "s1 = dropWhile isspace s"
  define s2 where "s2 = (if deref s1 = CHR ''-'' \<or> deref s1 = CHR ''+'' then tl s1 else s1)"
  have "length (dropWhile is_digit s2) \<le> length s2" by (rule length_dropWhile_le)
  also have "\<dots> \<le> length s1" by (simp add: s2_def)
  also have "\<dots> \<le> length s" unfolding s1_def by (rule length_dropWhile_le)
  finally show ?thesis
    unfolding strtol10_def Let_def s1_def [symmetric] s2_def [symmetric] by simp
qed

text \<open>
  \<open>och==ch\<close> is tested on the rest that \<open>strtol\<close> leaves: it is the whole string exactly
  when no number was found.
\<close>

function durationtolong_loop :: "string \<Rightarrow> int \<Rightarrow> int" where
  "durationtolong_loop och tot =
     (if och = [] then tot
      else
        let (v, ch) = strtol10 och; current = c_int v
        in if length ch = length och then tot
           else if current \<noteq> 0 then
             (let (n, ch') = duration_unit ch current
              in durationtolong_loop ch' (c_int (tot + n)))
           else durationtolong_loop ch tot)"
  by pat_completeness auto

lemma duration_unit_length: "length (snd (duration_unit ch n)) \<le> length ch"
  by (cases ch) (auto simp: duration_unit_def)

termination durationtolong_loop
proof (relation "measure (\<lambda>(ch, _). length ch)", goal_cases)
  case 1
  show ?case by simp
next
  case (2 och tot p v ch current q n ch')
  have "length ch \<le> length och"
    using strtol10_length [of och] 2 by (metis snd_conv)
  moreover have "length ch' \<le> length ch"
    using duration_unit_length [of ch current] 2 by (metis snd_conv)
  ultimately show ?case using 2 by simp
next
  case (3 och tot p v ch current)
  have "length ch \<le> length och"
    using strtol10_length [of och] 3 by (metis snd_conv)
  then show ?case using 3 by simp
qed

declare durationtolong_loop.simps [simp del]

definition durationtolong :: "string \<Rightarrow> int" where
  "durationtolong s = durationtolong_loop s 0"

text \<open>
  \<open>protectedatoi\<close> returns 0 or 1 and writes \<open>*value\<close> only with 1. A saturated result
  of \<open>strtol\<close> (\<open>ERANGE\<close>) lies outside \<open>int\<close>, so both tests of the source are the
  range test.
\<close>

definition protectedatoi :: "string \<Rightarrow> int option" where
  "protectedatoi buf =
     (let (lval, ep) = strtol10 buf
      in if buf = [] \<or> ep \<noteq> [] then None
         else if lval > INT_MAX \<or> lval < INT_MIN then None
         else Some lval)"

section \<open>Comparison and hashing agree\<close>

lemma ircd_strcmp_lower:
  assumes "cstring s1" "cstring s2"
  shows "ircd_strcmp s1 s2 = 0 \<longleftrightarrow> map ToLower s1 = map ToLower s2"
  using assms
proof (induction s1 arbitrary: s2)
  case Nil
  then show ?case by (cases s2) (simp_all add: ircd_strcmp.simps)
next
  case (Cons c s1)
  then show ?case by (cases s2) (auto simp: ircd_strcmp.simps [of "c # s1"])
qed

lemma irc_crc32i_loop_lower:
  "irc_crc32i_loop v s = irc_crc32_loop v (map ToLower s)"
  by (induction v s rule: irc_crc32i_loop.induct) auto

text \<open>
  C33: \<open>ircd_strcmp\<close> answers 0 exactly for strings that are equal after \<open>ToLower\<close>, and then
  their \<open>irc_crc32i\<close> is the same: the tables that hash with the one and compare with the
  other find every spelling of a nick or channel name in one bucket.
\<close>

theorem ircd_strcmp_hash:
  assumes "cstring s1" "cstring s2"
  shows "(ircd_strcmp s1 s2 = 0 \<longleftrightarrow> map ToLower s1 = map ToLower s2)
     \<and> (ircd_strcmp s1 s2 = 0 \<longrightarrow> irc_crc32i s1 = irc_crc32i s2)"
  using assms by (simp add: ircd_strcmp_lower irc_crc32i_def irc_crc32i_loop_lower)

lemma ircd_strcmp_hash_witness:
  "ircd_strcmp ''[Nick]'' ''{nICK}'' = 0 \<and> irc_crc32i ''[Nick]'' = irc_crc32i ''{nICK}''"
proof -
  have "map ToLower ''[Nick]'' = map ToLower ''{nICK}''" by code_simp
  moreover have "cstring ''[Nick]''" "cstring ''{nICK}''" by (simp_all add: cstring_def)
  ultimately show ?thesis using ircd_strcmp_hash [of "''[Nick]''" "''{nICK}''"] by blast
qed

text \<open>After one character the counter says how many more are compared.\<close>

lemma ircd_strncmp_loop_prefix:
  assumes "cstring s1" "cstring s2" "unat remaining = r"
  shows "ircd_strncmp_loop s1 s2 remaining = 0
    \<longleftrightarrow> map ToLower (take (Suc r) s1) = map ToLower (take (Suc r) s2)"
  using assms
proof (induction r arbitrary: s1 s2 remaining)
  case 0
  then have "remaining = 0" by (simp add: unat_eq_0)
  with 0 show ?case
    by (cases s1; cases s2) (auto simp: ircd_strncmp_loop.simps)
next
  case (Suc r)
  then have "remaining \<noteq> 0" by auto
  with Suc.prems(3) have "unat (remaining - 1) = r" by (simp add: unat_minus_one)
  with Suc \<open>remaining \<noteq> 0\<close> show ?case
    by (cases s1; cases s2) (auto simp: ircd_strncmp_loop.simps [of _ _ remaining])
qed

lemma ircd_strncmp_prefix:
  assumes "cstring s1" "cstring s2" "1 \<le> len"
  shows "ircd_strncmp s1 s2 len = 0
    \<longleftrightarrow> len = 1 \<or> map ToLower (take (unat len) s1) = map ToLower (take (unat len) s2)"
proof (cases "len = 1")
  case True
  then show ?thesis by (simp add: ircd_strncmp_def)
next
  case False
  have "unat (len - 1) = unat len - 1"
    using assms(3) by (intro unat_minus_one) auto
  moreover have "0 < unat len" using assms(3) by (simp add: word_le_nat_alt)
  ultimately show ?thesis
    using False ircd_strncmp_loop_prefix [OF assms(1,2), of "len - 1" "unat len - 1"]
    by (simp add: ircd_strncmp_def Let_def)
qed

text \<open>
  For a length of two or more \<open>ircd_strncmp\<close> answers 0 exactly when the first \<open>len\<close>
  characters agree after \<open>ToLower\<close>; for a length of one it answers 0 for any two strings,
  because the counter starts at \<open>len - 1\<close> and is tested before the first comparison.
\<close>

lemma ircd_strncmp_spec:
  assumes "cstring s1" "cstring s2" "1 \<le> len"
  shows "ircd_strncmp s1 s2 len = 0
    \<longleftrightarrow> len = 1 \<or> map ToLower (take (unat len) s1) = map ToLower (take (unat len) s2)"
  using assms by (rule ircd_strncmp_prefix)

lemma ircd_strncmp_spec_witness:
  "ircd_strncmp ''abX'' ''aBy'' 2 = 0
    \<longleftrightarrow> (2 :: 64 word) = 1 \<or> map ToLower (take (unat (2 :: 64 word)) ''abX'')
       = map ToLower (take (unat (2 :: 64 word)) ''aBy'')"
  by (rule ircd_strncmp_spec) (simp_all add: cstring_def)

section \<open>Durations\<close>

lemma show_int_nat [simp]: "show_int (int n) = show_nat n"
  by (simp add: show_int_def)

lemma c_int_small [simp]: "n < 2 ^ 31 \<Longrightarrow> c_int (int n) = int n"
  by (rule c_int_id) simp_all

lemma durationtolong_blank [simp]: "durationtolong_loop '' '' t = t"
  by (simp add: durationtolong_loop.simps strtol10_def isspace_def digits_val_def Let_def)

lemma durationtolong_Nil [simp]: "durationtolong_loop [] t = t"
  by (simp add: durationtolong_loop.simps)

lemma durationtolong_number:
  assumes "0 < n" "n < 2 ^ 31" "\<not> is_digit u"
  shows "durationtolong_loop (show_nat n @ u # rest) t =
    durationtolong_loop rest (c_int (t + fst (duration_unit (u # rest) (int n))))"
    and "durationtolong_loop (CHR '' '' # show_nat n @ u # rest) t =
    durationtolong_loop rest (c_int (t + fst (duration_unit (u # rest) (int n))))"
proof -
  have "int n \<le> LONG_MAX" using assms(2) by (simp add: LONG_MAX_def)
  then have s: "strtol10 (show_nat n @ u # rest) = (int n, u # rest)"
    using assms(3) by (intro strtol10_show_nat) simp_all
  then have s': "strtol10 (CHR '' '' # show_nat n @ u # rest) = (int n, u # rest)"
    by (subst strtol10_space) (simp_all add: isspace_def)
  have snd: "snd (duration_unit (u # rest) (int n)) = rest" by (simp add: duration_unit_def)
  show "durationtolong_loop (show_nat n @ u # rest) t =
    durationtolong_loop rest (c_int (t + fst (duration_unit (u # rest) (int n))))"
    using s assms snd by (subst durationtolong_loop.simps) (simp add: Let_def case_prod_beta)
  show "durationtolong_loop (CHR '' '' # show_nat n @ u # rest) t =
    durationtolong_loop rest (c_int (t + fst (duration_unit (u # rest) (int n))))"
    using s' assms snd by (subst durationtolong_loop.simps) (simp add: Let_def case_prod_beta)
qed

lemma durationtolong_zero:
  assumes "\<not> is_digit u" "\<not> isspace u" "u \<noteq> CHR ''-''" "u \<noteq> CHR ''+''"
  shows "durationtolong_loop (show_nat 0 @ u # rest) t = t"
    and "durationtolong_loop (CHR '' '' # show_nat 0 @ u # rest) t = t"
proof -
  have s: "strtol10 (show_nat 0 @ u # rest) = (0, u # rest)"
    using strtol10_show_nat [of 0 "u # rest"] assms(1) by (simp add: LONG_MAX_def)
  then have s': "strtol10 (CHR '' '' # show_nat 0 @ u # rest) = (0, u # rest)"
    by (subst strtol10_space) (simp_all add: isspace_def)
  have "strtol10 (u # rest) = (0, u # rest)"
    using assms by (simp add: strtol10_def Let_def digits_val_def)
  then have stop: "durationtolong_loop (u # rest) t = t"
    by (subst durationtolong_loop.simps) simp
  show "durationtolong_loop (show_nat 0 @ u # rest) t = t"
    using s stop by (subst durationtolong_loop.simps) (simp add: Let_def)
  show "durationtolong_loop (CHR '' '' # show_nat 0 @ u # rest) t = t"
    using s' stop by (subst durationtolong_loop.simps) (simp add: Let_def)
qed

lemma not_digit_units [simp]:
  "\<not> is_digit (CHR ''d'')" "\<not> is_digit (CHR ''h'')" "\<not> is_digit (CHR ''m'')"
  "\<not> is_digit (CHR ''s'')"
  by (simp_all add: is_digit_def uchar_def)

lemma not_space_units [simp]:
  "\<not> isspace (CHR ''d'')" "\<not> isspace (CHR ''h'')" "\<not> isspace (CHR ''m'')"
  "\<not> isspace (CHR ''s'')"
  by (simp_all add: isspace_def uchar_def)

lemma duration_unit_simps [simp]:
  "duration_unit (CHR ''s'' # r) n = (n, r)"
  "duration_unit (CHR ''m'' # r) n = (c_int (n * 60), r)"
  "duration_unit (CHR ''h'' # r) n = (c_int (n * 3600), r)"
  "duration_unit (CHR ''d'' # r) n = (c_int (n * 86400), r)"
  by (simp_all add: duration_unit_def)

definition duration_part :: "nat \<Rightarrow> char \<Rightarrow> string" where
  "duration_part n u = show_nat n @ u # '' ''"

text \<open>One printed part, at the start of the text or after the blank of the part before.\<close>

lemma durationtolong_part:
  assumes "0 < n" "n < 2 ^ 31" "\<not> is_digit u" "w = [] \<or> w = '' ''"
  shows "durationtolong_loop (w @ duration_part n u @ rest) t =
    durationtolong_loop (CHR '' '' # rest) (c_int (t + fst (duration_unit (u # CHR '' '' # rest) (int n))))"
  using assms durationtolong_number [where n = n and u = u and rest = "CHR '' '' # rest"]
  by (auto simp: duration_part_def)

lemma durationtolong_part_zero:
  assumes "u \<in> {CHR ''h'', CHR ''m'', CHR ''s''}" "w = [] \<or> w = '' ''"
  shows "durationtolong_loop (w @ duration_part 0 u @ rest) t = t"
  using assms durationtolong_zero [where u = u and rest = "CHR '' '' # rest"]
  by (auto simp: duration_part_def)

definition duration_read :: "nat \<Rightarrow> nat" where
  "duration_read t =
     (let d = t div 86400; h = t mod 86400 div 3600; m = t mod 3600 div 60; s = t mod 60
      in d * 86400 +
         (if h = 0 \<and> d > 0 then 0
          else h * 3600 + (if m = 0 \<and> (d > 0 \<or> h > 0) then 0 else m * 60 + s)))"

lemma durationtolong_parts:
  assumes "0 < n" "n < 2 ^ 31" "\<not> is_digit u"
  shows "durationtolong_loop (duration_part n u @ rest) t =
      durationtolong_loop (CHR '' '' # rest)
        (c_int (t + fst (duration_unit (u # CHR '' '' # rest) (int n))))"
    and "durationtolong_loop (CHR '' '' # duration_part n u @ rest) t =
      durationtolong_loop (CHR '' '' # rest)
        (c_int (t + fst (duration_unit (u # CHR '' '' # rest) (int n))))"
    and "durationtolong_loop (duration_part n u) t =
      durationtolong_loop '' '' (c_int (t + fst (duration_unit (u # '' '') (int n))))"
    and "durationtolong_loop (CHR '' '' # duration_part n u) t =
      durationtolong_loop '' '' (c_int (t + fst (duration_unit (u # '' '') (int n))))"
  using durationtolong_part [OF assms, of "[]" rest] durationtolong_part [OF assms, of "'' ''" rest]
    durationtolong_part [OF assms, of "[]" "[]"] durationtolong_part [OF assms, of "'' ''" "[]"]
  by simp_all

lemma durationtolong_parts_zero:
  assumes "u \<in> {CHR ''h'', CHR ''m'', CHR ''s''}"
  shows "durationtolong_loop (duration_part 0 u @ rest) t = t"
    and "durationtolong_loop (CHR '' '' # duration_part 0 u @ rest) t = t"
    and "durationtolong_loop (duration_part 0 u) t = t"
  using durationtolong_part_zero [OF assms, of "[]" rest]
    durationtolong_part_zero [OF assms, of "'' ''" rest]
    durationtolong_part_zero [OF assms, of "[]" "[]"]
  by simp_all

lemma longtoduration_parts:
  assumes "t < 2 ^ 31"
  shows "longtoduration t 2 =
    (let d = t div 86400; h = t mod 86400 div 3600; m = t mod 3600 div 60; s = t mod 60
     in (if d > 0 then duration_part d (CHR ''d'') else []) @
        (if h > 0 \<or> (d > 0 \<and> (m > 0 \<or> s > 0)) then duration_part h (CHR ''h'') else []) @
        (if m > 0 \<or> ((d > 0 \<or> h > 0) \<and> s > 0) then duration_part m (CHR ''m'') else []) @
        (if s > 0 \<or> t = 0 then duration_part s (CHR ''s'') else []))"
proof -
  have "t mod 60 < 2 ^ 31" "t mod 3600 div 60 < 2 ^ 31" "t mod (3600 * 24) div 3600 < 2 ^ 31"
    "t div (3600 * 24) < 2 ^ 31"
    using assms by simp_all
  note b = this [THEN c_int_small]
  show ?thesis
    unfolding longtoduration_def Let_def b by (simp add: duration_part_def)
qed

lemma duration_split:
  "(t::nat) = t div 86400 * 86400 + t mod 86400 div 3600 * 3600 + t mod 3600 div 60 * 60 + t mod 60"
proof -
  have "t = t div 86400 * 86400 + t mod 86400" by simp
  moreover have "t mod 86400 = t mod 86400 div 3600 * 3600 + t mod 86400 mod 3600" by simp
  moreover have "t mod 86400 mod 3600 = t mod 3600" by (rule mod_mod_cancel) simp
  moreover have "t mod 3600 = t mod 3600 div 60 * 60 + t mod 3600 mod 60" by simp
  moreover have "t mod 3600 mod 60 = t mod 60" by (rule mod_mod_cancel) simp
  ultimately show ?thesis by linarith
qed

lemma duration_read_text:
  assumes "d * 86400 + h * 3600 + m * 60 + s < (2::nat) ^ 31"
  shows "durationtolong_loop
    ((if d > 0 then duration_part d (CHR ''d'') else []) @
     (if h > 0 \<or> (d > 0 \<and> (m > 0 \<or> s > 0)) then duration_part h (CHR ''h'') else []) @
     (if m > 0 \<or> ((d > 0 \<or> h > 0) \<and> s > 0) then duration_part m (CHR ''m'') else []) @
     (if s > 0 \<or> d * 86400 + h * 3600 + m * 60 + s = 0 then duration_part s (CHR ''s'') else [])) 0
    = int (d * 86400 +
         (if h = 0 \<and> d > 0 then 0
          else h * 3600 + (if m = 0 \<and> (d > 0 \<or> h > 0) then 0 else m * 60 + s)))"
proof -
  have b: "d < 2 ^ 31" "h < 2 ^ 31" "m < 2 ^ 31" "s < 2 ^ 31"
    "c_int (int d * 86400) = int d * 86400" "c_int (int h * 3600) = int h * 3600"
    "c_int (int m * 60) = int m * 60" "c_int (int m * 60 + int s) = int m * 60 + int s"
    "c_int (int d * 86400 + int h * 3600) = int d * 86400 + int h * 3600"
    "c_int (int d * 86400 + int h * 3600 + int m * 60) = int d * 86400 + int h * 3600 + int m * 60"
    "c_int (int h * 3600 + int m * 60) = int h * 3600 + int m * 60"
    "c_int (int h * 3600 + int m * 60 + int s) = int h * 3600 + int m * 60 + int s"
    "c_int (int d * 86400 + int h * 3600 + int m * 60 + int s)
      = int d * 86400 + int h * 3600 + int m * 60 + int s"
    using assms by simp_all
  show ?thesis
    by (cases "d = 0"; cases "h = 0"; cases "m = 0"; cases "s = 0")
       (simp_all add: durationtolong_parts durationtolong_parts_zero b b [simplified])
qed

text \<open>
  C39: what \<open>durationtolong\<close> reads back from the text \<open>longtoduration\<close> prints in format 2,
  for every interval an \<open>int\<close> can hold. The result is the interval itself unless a part in
  the middle of the text is zero: then the reader stops at that part and the parts after
  it are lost.
\<close>

theorem duration_roundtrip:
  assumes "t < 2 ^ 31"
  shows "durationtolong (longtoduration t 2) = int (duration_read t)"
proof -
  have "t div 86400 * 86400 + t mod 86400 div 3600 * 3600 + t mod 3600 div 60 * 60 + t mod 60 = t"
    using duration_split [of t] by (rule sym)
  with duration_read_text [of "t div 86400" "t mod 86400 div 3600" "t mod 3600 div 60" "t mod 60"] assms
  show ?thesis
    by (simp add: longtoduration_parts [OF assms] durationtolong_def duration_read_def Let_def)
qed

lemma duration_roundtrip_witness:
  "durationtolong (longtoduration 86700 2) = 86400
     \<and> durationtolong (longtoduration 93784 2) = 93784"
  using duration_roundtrip [of 86700] duration_roundtrip [of 93784]
  by (simp_all add: duration_read_def Let_def)

section \<open>delchars\<close>

lemma delchars_isbad_iff: "delchars_isbad c bs \<longleftrightarrow> c \<in> set bs"
  by (induction c bs rule: delchars_isbad.induct) auto

lemma delchars_filter: "delchars s bs = filter (\<lambda>c. c \<notin> set bs) s"
  by (induction s) (simp_all add: delchars_isbad_iff)

end
