(* ===== verification/IrcMatch.thy ===== *)
theory IrcMatch
  imports IrcString
begin

text \<open>
  The wildcard matchers of \<open>lib/irc_string.c\<close>: \<open>match\<close> (mask against string),
  \<open>mmatch\<close> (mask against mask) and \<open>collapse\<close>. A pointer is the suffix it points at;
  \<open>goto got_star\<close> and the rollback are a recursion on a shorter string. The reference
  semantics reads a mask as a list of tokens and says which strings it matches.
\<close>

section \<open>Reference semantics of masks\<close>

datatype gtok = GStar | GAny | GLit char

fun mask_tokens :: "string \<Rightarrow> gtok list" where
  "mask_tokens [] = []"
| "mask_tokens (c # cs) =
     (if c = CHR ''*'' then GStar # mask_tokens cs
      else if c = CHR ''?'' then GAny # mask_tokens cs
      else if c = backslash \<and> (deref cs = CHR ''*'' \<or> deref cs = CHR ''?'')
      then GLit (ToLower (deref cs)) # mask_tokens (tl cs)
      else GLit (ToLower c) # mask_tokens cs)"

fun glob :: "gtok list \<Rightarrow> string \<Rightarrow> bool" where
  "glob [] s = (s = [])"
| "glob (GStar # ts) [] = glob ts []"
| "glob (GStar # ts) (c # s) = (glob ts (c # s) \<or> glob (GStar # ts) s)"
| "glob (GAny # ts) s = (case s of [] \<Rightarrow> False | _ # s' \<Rightarrow> glob ts s')"
| "glob (GLit d # ts) s = (case s of [] \<Rightarrow> False | c # s' \<Rightarrow> ToLower c = d \<and> glob ts s')"

definition mask_matches :: "string \<Rightarrow> string \<Rightarrow> bool" where
  "mask_matches patrn s = glob (mask_tokens patrn) s"

fun min_len :: "gtok list \<Rightarrow> nat" where
  "min_len [] = 0"
| "min_len (GStar # ts) = min_len ts"
| "min_len (GAny # ts) = Suc (min_len ts)"
| "min_len (GLit _ # ts) = Suc (min_len ts)"

lemma glob_star: "glob (GStar # ts) s \<longleftrightarrow> (\<exists>k \<le> length s. glob ts (drop k s))"
proof (induction s)
  case Nil
  then show ?case by simp
next
  case (Cons c s)
  have "(\<exists>k \<le> length (c # s). glob ts (drop k (c # s))) \<longleftrightarrow>
        glob ts (c # s) \<or> (\<exists>k \<le> length s. glob ts (drop k s))"
    (is "?L \<longleftrightarrow> ?R")
  proof
    assume ?L
    then obtain k where "k \<le> length (c # s)" "glob ts (drop k (c # s))" by blast
    then show ?R by (cases k) auto
  next
    assume ?R
    then show ?L
    proof
      assume "glob ts (c # s)"
      then show ?L by (intro exI [of _ 0]) simp
    next
      assume "\<exists>k \<le> length s. glob ts (drop k s)"
      then obtain k where "k \<le> length s" "glob ts (drop k s)" by blast
      then show ?L by (intro exI [of _ "Suc k"]) simp
    qed
  qed
  with Cons show ?case by simp
qed

lemma glob_star_suffix: "glob (GStar # ts) s \<longleftrightarrow> (\<exists>u v. s = u @ v \<and> glob ts v)"
proof
  assume "glob (GStar # ts) s"
  then obtain k where "glob ts (drop k s)" unfolding glob_star by blast
  then show "\<exists>u v. s = u @ v \<and> glob ts v"
    by (intro exI [of _ "take k s"] exI [of _ "drop k s"]) simp
next
  assume "\<exists>u v. s = u @ v \<and> glob ts v"
  then obtain u v where "s = u @ v" "glob ts v" by blast
  then show "glob (GStar # ts) s"
    unfolding glob_star by (intro exI [of _ "length u"]) simp
qed

lemma glob_star_append: "glob (GStar # ts) v \<Longrightarrow> glob (GStar # ts) (u @ v)"
  unfolding glob_star_suffix by (metis append.assoc)

lemma glob_starI: "glob ts s \<Longrightarrow> glob (GStar # ts) s"
  unfolding glob_star_suffix by (metis append_Nil)

lemma glob_star_star [glob_laws]: "glob (GStar # GStar # ts) s \<longleftrightarrow> glob (GStar # ts) s"
  unfolding glob_star_suffix [of "GStar # ts"] unfolding glob_star_suffix
  by (metis append.assoc append_Nil)

lemma glob_star_any [glob_laws]:
  "glob (GStar # GAny # ts) s \<longleftrightarrow> (case s of [] \<Rightarrow> False | _ # s' \<Rightarrow> glob (GStar # ts) s')"
proof (induction s)
  case (Cons c s)
  then show ?case by (cases s) auto
qed simp

declare glob.simps(3) [simp del]

lemma glob_any_star: "glob (GAny # GStar # ts) s \<longleftrightarrow> glob (GStar # GAny # ts) s"
  unfolding glob_star_any by simp

lemma glob_cong: "(\<And>s. glob ts s = glob us s) \<Longrightarrow> glob (t # ts) s = glob (t # us) s"
  by (cases t; cases s) (simp_all add: glob_star)

lemma glob_cong_append:
  assumes "\<And>s. glob ts s = glob us s"
  shows "glob (xs @ ts) s = glob (xs @ us) s"
proof (induction xs arbitrary: s)
  case (Cons x xs)
  show ?case unfolding append_Cons by (rule glob_cong) (rule Cons.IH)
qed (simp add: assms)

lemma glob_min_len: "glob ts s \<Longrightarrow> min_len ts \<le> length s"
proof (induction ts s rule: glob.induct)
  case (3 ts c s)
  then show ?case by (auto simp: glob.simps(3))
qed (auto split: list.splits)

text \<open>Tokens without a star consume one character each.\<close>

lemma glob_append_nostar:
  "GStar \<notin> set cs \<Longrightarrow> glob (cs @ ts) s \<longleftrightarrow>
     length cs \<le> length s \<and> glob cs (take (length cs) s) \<and> glob ts (drop (length cs) s)"
proof (induction cs arbitrary: s)
  case (Cons t cs)
  then show ?case by (cases t; cases s) auto
qed simp

section \<open>match\<close>

text \<open>\<open>case '\\'\<close> of the switches: \<open>if (*m == '?' || *m == '*') ch = *m++\<close>.\<close>

definition unescape :: "char \<Rightarrow> string \<Rightarrow> char \<times> string" where
  "unescape ch m =
     (if ch = backslash \<and> (deref m = CHR ''?'' \<or> deref m = CHR ''*'')
      then (deref m, tl m) else (ch, m))"

lemma unescape_length: "length (snd (unescape ch m)) \<le> length m"
  by (simp add: unescape_def)

datatype head_result = HeadReturn int | HeadStar string string

function match_head :: "string \<Rightarrow> string \<Rightarrow> head_result" where
  "match_head [] s = HeadReturn (schar (deref s))"
| "match_head (ch # m) s =
     (if ch = CHR ''*'' then HeadStar m s
      else if ch = CHR ''?'' then
        (case s of [] \<Rightarrow> HeadReturn 1 | _ # s' \<Rightarrow> match_head m s')
      else
        (let ch' = fst (unescape ch m); m' = snd (unescape ch m)
         in if ToLower (deref s) \<noteq> ToLower ch' then HeadReturn 1
            else (case s of [] \<Rightarrow> HeadReturn 1 | _ # s' \<Rightarrow> match_head m' s')))"
  by pat_completeness auto
termination
  by (relation "measure (\<lambda>(m, _). length m)") (auto simp: unescape_def)

datatype scan_result = ScanFail | ScanEnd | ScanChar char string string string

text \<open>
  The loop after \<open>got_star\<close>: skips stars, lets each \<open>?\<close> consume a character, and stops
  at the next literal with the mask rest, the rollback point \<open>bm\<close> and the string rest.
\<close>

fun star_scan :: "string \<Rightarrow> string \<Rightarrow> string \<Rightarrow> scan_result" where
  "star_scan bm [] s = ScanEnd"
| "star_scan bm (ch # m) s =
     (if ch = CHR ''?'' then
        (case s of [] \<Rightarrow> ScanFail | _ # s' \<Rightarrow> star_scan m m s')
      else if ch = CHR ''*'' then star_scan m m s
      else ScanChar (fst (unescape ch m)) (snd (unescape ch m)) bm s)"

text \<open>\<open>do { if (!*s) return 1; } while (ToLower(*s++) != ch)\<close>\<close>

fun find_char :: "char \<Rightarrow> string \<Rightarrow> string option" where
  "find_char ch [] = None"
| "find_char ch (c # s) = (if ToLower c \<noteq> ch then find_char ch s else Some s)"

datatype chunk_result = ChunkReturn int | Restart string string

function match_chunk :: "string \<Rightarrow> string \<Rightarrow> string \<Rightarrow> string \<Rightarrow> chunk_result" where
  "match_chunk bm bs [] s = (if s \<noteq> [] then Restart bm bs else ChunkReturn 0)"
| "match_chunk bm bs (ch # m) s =
     (if ch = CHR ''*'' then Restart m s
      else if ch = CHR ''?'' then
        (case s of [] \<Rightarrow> ChunkReturn 1 | _ # s' \<Rightarrow> match_chunk bm bs m s')
      else
        (let ch' = fst (unescape ch m); m' = snd (unescape ch m)
         in if ToLower (deref s) \<noteq> ToLower ch' then
              (if bs = [] then ChunkReturn 1 else Restart bm bs)
            else (case s of [] \<Rightarrow> ChunkReturn 1 | _ # s' \<Rightarrow> match_chunk bm bs m' s')))"
  by pat_completeness auto
termination
  by (relation "measure (\<lambda>(_, _, m, _). length m)") (auto simp: unescape_def)

lemma star_scan_length: "star_scan bm m s = ScanChar ch m' bm' s' \<Longrightarrow> length s' \<le> length s"
  by (induction bm m s rule: star_scan.induct) (auto split: if_splits list.splits)

lemma find_char_length: "find_char ch s = Some s' \<Longrightarrow> length s' < length s"
  by (induction s) (auto split: if_splits)

lemma match_chunk_length:
  "match_chunk bm bs m s = Restart m' s' \<Longrightarrow> length s \<le> length bs \<Longrightarrow> length s' \<le> length bs"
  by (induction bm bs m s rule: match_chunk.induct)
     (auto simp: Let_def split: if_splits list.splits)

function got_star :: "string \<Rightarrow> string \<Rightarrow> int" where
  "got_star m s =
     (case star_scan m m s of
        ScanFail \<Rightarrow> 1
      | ScanEnd \<Rightarrow> 0
      | ScanChar ch m' bm s' \<Rightarrow>
          (case find_char (ToLower ch) s' of
             None \<Rightarrow> 1
           | Some bs \<Rightarrow>
               (case match_chunk bm bs m' bs of
                  ChunkReturn r \<Rightarrow> r
                | Restart m'' s'' \<Rightarrow> got_star m'' s'')))"
  by pat_completeness auto
termination
proof (relation "measure (\<lambda>(_, s). length s)", goal_cases)
  case (2 m s ch m' bm s' bs m'' s'')
  then show ?case
    using star_scan_length [of m m s ch m' bm s'] find_char_length [of "ToLower ch" s' bs]
      match_chunk_length [of bm bs m' bs m'' s'']
    by simp
qed simp

declare got_star.simps [simp del]

definition match :: "string \<Rightarrow> string \<Rightarrow> int" where
  "match patrn s =
     (case match_head patrn s of HeadReturn r \<Rightarrow> r | HeadStar m s' \<Rightarrow> got_star m s')"

definition match2strings :: "string \<Rightarrow> string \<Rightarrow> bool" where
  "match2strings patrn s \<longleftrightarrow> match patrn s = 0"

subsection \<open>Correctness of match\<close>

lemma mask_tokens_literal:
  assumes "ch \<noteq> CHR ''*''" and "ch \<noteq> CHR ''?''"
  shows "mask_tokens (ch # m)
    = GLit (ToLower (fst (unescape ch m))) # mask_tokens (snd (unescape ch m))"
  using assms by (auto simp: unescape_def)

text \<open>
  The scan over stars and question marks is sound and complete, and leaves a rollback
  point whose tokens start with the literal found.
\<close>

lemma star_scan_correct:
  "case star_scan bm m s of
     ScanFail \<Rightarrow> \<not> glob (GStar # mask_tokens m) s
   | ScanEnd \<Rightarrow> glob (GStar # mask_tokens m) s
   | ScanChar ch m' bm' s' \<Rightarrow>
       (glob (GStar # mask_tokens m) s
          \<longleftrightarrow> glob (GStar # GLit (ToLower ch) # mask_tokens m') s')
       \<and> (bm = m \<longrightarrow> mask_tokens bm' = GLit (ToLower ch) # mask_tokens m')"
proof (induction bm m s rule: star_scan.induct)
  case (1 bm s)
  then show ?case by (auto simp: glob_star intro: exI [of _ "length s"])
next
  case (2 bm ch m s)
  consider "ch = CHR ''?''" "s = []" | c s' where "ch = CHR ''?''" "s = c # s'"
    | "ch = CHR ''*''" | "ch \<noteq> CHR ''*''" "ch \<noteq> CHR ''?''"
    by (cases s) auto
  then show ?case
  proof cases
    case 1
    then show ?thesis by (simp add: glob_star)
  next
    case 2
    with "2.IH"(1) show ?thesis
      by (simp add: glob_star_any split: scan_result.splits)
  next
    case 3
    with "2.IH"(2) show ?thesis
      by (simp add: glob_star_star split: scan_result.splits)
  next
    case 4
    then show ?thesis by (simp add: mask_tokens_literal del: mask_tokens.simps)
  qed
qed

lemma find_char_correct:
  "case find_char ch s of
     None \<Rightarrow> \<not> glob (GStar # GLit ch # ts) s
   | Some bs \<Rightarrow> (glob (GStar # GLit ch # ts) s
                  \<longleftrightarrow> glob ts bs \<or> glob (GStar # GLit ch # ts) bs)"
proof (induction s)
  case (Cons c s)
  then show ?case by (simp add: glob.simps(3) split: option.splits)
qed simp

text \<open>
  One chunk: with \<open>ChunkReturn 0\<close> the rest of the mask matches; with another return no
  later start can match either, the mask being longer than the string; a rollback
  to \<open>bm\<close> means that the mask does not match here; at the next star only the
  leftmost position of the chunk matters.
\<close>

definition chunk_post :: "string \<Rightarrow> string \<Rightarrow> string \<Rightarrow> string \<Rightarrow> chunk_result \<Rightarrow> bool" where
  "chunk_post bm bs m s r =
     (case r of
        ChunkReturn k \<Rightarrow>
          (if k = 0 then glob (mask_tokens m) s
           else k = 1 \<and> min_len (mask_tokens m) > length s)
      | Restart m' s' \<Rightarrow>
          (m' = bm \<and> s' = bs \<and> \<not> glob (mask_tokens m) s)
          \<or> (\<exists>cs. mask_tokens m = cs @ GStar # mask_tokens m' \<and> GStar \<notin> set cs
                \<and> length cs \<le> length s \<and> s' = drop (length cs) s \<and> glob cs (take (length cs) s)))"

lemma match_chunk_correct:
  "length s \<le> length bs \<Longrightarrow> chunk_post bm bs m s (match_chunk bm bs m s)"
proof (induction bm bs m s rule: match_chunk.induct)
  case (1 bm bs s)
  then show ?case by (simp add: chunk_post_def)
next
  case (2 bm bs ch m s)
  have step: "chunk_post bm bs (ch # m) (c # s') (match_chunk bm bs m' s')"
    if "mask_tokens (ch # m) = t # mask_tokens m'" "t \<noteq> GStar" "glob [t] [c]"
      and IH: "chunk_post bm bs m' s' (match_chunk bm bs m' s')" for t m' c s'
  proof (cases "match_chunk bm bs m' s'")
    case (ChunkReturn k)
    with that show ?thesis by (cases t) (auto simp: chunk_post_def)
  next
    case (Restart m'' s'')
    from IH Restart consider "m'' = bm" "s'' = bs" "\<not> glob (mask_tokens m') s'"
      | cs where "mask_tokens m' = cs @ GStar # mask_tokens m''" "GStar \<notin> set cs"
          "length cs \<le> length s'" "s'' = drop (length cs) s'" "glob cs (take (length cs) s')"
      by (auto simp: chunk_post_def)
    then show ?thesis
    proof cases
      case 1
      with Restart that show ?thesis by (cases t) (auto simp: chunk_post_def)
    next
      case 2
      then have "\<exists>ds. mask_tokens (ch # m) = ds @ GStar # mask_tokens m'' \<and> GStar \<notin> set ds
          \<and> length ds \<le> length (c # s') \<and> s'' = drop (length ds) (c # s')
          \<and> glob ds (take (length ds) (c # s'))"
        using that(1-3) by (intro exI [of _ "t # cs"], cases t) auto
      with Restart show ?thesis by (auto simp: chunk_post_def simp del: mask_tokens.simps)
    qed
  qed
  consider "ch = CHR ''*''" | "ch = CHR ''?''" "s = []" | c s' where "ch = CHR ''?''" "s = c # s'"
    | "ch \<noteq> CHR ''*''" "ch \<noteq> CHR ''?''"
    by (cases s) auto
  then show ?case
  proof cases
    case 1
    then show ?thesis
      by (auto simp: chunk_post_def intro!: exI [of _ "[]"])
  next
    case 2
    then show ?thesis by (simp add: chunk_post_def)
  next
    case 3
    with "2.IH"(1) "2.prems" step [of GAny m c s'] show ?thesis by simp
  next
    case 4
    show ?thesis
    proof (cases s)
      case Nil
      with 4 show ?thesis
        by (simp add: chunk_post_def mask_tokens_literal Let_def del: mask_tokens.simps)
    next
      case (Cons c s')
      show ?thesis
      proof (cases "ToLower c = ToLower (fst (unescape ch m))")
        case True
        with 4 Cons "2.IH"(2) "2.prems" step [OF mask_tokens_literal, of c s'] show ?thesis
          by (simp add: Let_def)
      next
        case False
        with 4 Cons "2.prems" show ?thesis
          by (auto simp: chunk_post_def mask_tokens_literal Let_def simp del: mask_tokens.simps)
      qed
    qed
  qed
qed

text \<open>The part of the mask after a star: only the leftmost match of a chunk matters.\<close>

lemma chunk_leftmost:
  assumes T: "T = GLit c # cs @ GStar # ts" and "GStar \<notin> set cs"
    and later: "glob (GStar # T) s"
  shows "glob (GStar # ts) (drop (length cs) s)"
proof -
  from later obtain u v where s: "s = u @ v" and v: "glob T v"
    unfolding glob_star_suffix by blast
  from v T obtain d v' where v': "v = d # v'" "glob (cs @ GStar # ts) v'"
    by (cases v) auto
  with assms(2) have "length cs \<le> length v'" and g: "glob (GStar # ts) (drop (length cs) v')"
    by (simp_all add: glob_append_nostar)
  moreover have "suffix (drop (length cs) v') (drop (length cs) s)"
  proof (rule suffix_length_suffix [of _ s])
    have "s = (u @ [d]) @ v'" using s v'(1) by simp
    then have "suffix v' s" unfolding suffix_def by blast
    with suffix_drop [of "length cs" v'] show "suffix (drop (length cs) v') s"
      by (rule suffix_order.trans)
    show "suffix (drop (length cs) s) s" by (rule suffix_drop)
    show "length (drop (length cs) v') \<le> length (drop (length cs) s)" using s v'(1) by simp
  qed
  ultimately show ?thesis by (auto simp: suffix_def glob_star_append)
qed

lemma got_star_correct:
  "(got_star m s = 0 \<longleftrightarrow> glob (GStar # mask_tokens m) s) \<and> got_star m s \<in> {0, 1}"
proof (induction m s rule: got_star.induct)
  case (1 m s)
  show ?case
  proof (cases "star_scan m m s")
    case ScanFail
    then show ?thesis using star_scan_correct [where bm = m and m = m and s = s] by (simp add: got_star.simps [of m s])
  next
    case ScanEnd
    then show ?thesis using star_scan_correct [where bm = m and m = m and s = s] by (simp add: got_star.simps [of m s])
  next
    case (ScanChar ch m' bm s')
    let ?lit = "GLit (ToLower ch)"
    let ?T = "?lit # mask_tokens m'"
    have scan: "glob (GStar # mask_tokens m) s \<longleftrightarrow> glob (GStar # ?T) s'"
      and bm: "mask_tokens bm = ?T"
      using star_scan_correct [where bm = m and m = m and s = s] ScanChar by simp_all
    show ?thesis
    proof (cases "find_char (ToLower ch) s'")
      case None
      with ScanChar scan show ?thesis
        using find_char_correct [where ch = "ToLower ch" and s = s' and ts = "mask_tokens m'"]
        by (simp add: got_star.simps [of m s])
    next
      case (Some bs)
      have found: "glob (GStar # mask_tokens m) s
          \<longleftrightarrow> glob (mask_tokens m') bs \<or> glob (GStar # ?T) bs"
        using find_char_correct [where ch = "ToLower ch" and s = s' and ts = "mask_tokens m'"] Some scan by simp
      have post: "chunk_post bm bs m' bs (match_chunk bm bs m' bs)"
        by (rule match_chunk_correct) simp
      show ?thesis
      proof (cases "match_chunk bm bs m' bs")
        case (ChunkReturn r)
        have "\<not> glob (GStar # ?T) bs \<and> \<not> glob (mask_tokens m') bs"
          if "length bs < min_len (mask_tokens m')"
          using that glob_min_len [of "GStar # ?T" bs] glob_min_len [of "mask_tokens m'" bs] by auto
        with ChunkReturn Some ScanChar found post show ?thesis
          by (auto simp: got_star.simps [of m s] chunk_post_def split: if_splits)
      next
        case (Restart m'' s'')
        have eq: "got_star m s = got_star m'' s''"
          using Restart Some ScanChar by (simp add: got_star.simps [of m s])
        have "glob (GStar # mask_tokens m) s \<longleftrightarrow> glob (GStar # mask_tokens m'') s''"
          using post Restart found bm
          by (auto simp: chunk_post_def glob_append_nostar intro: chunk_leftmost)
        with eq "1.IH" [OF ScanChar Some Restart] show ?thesis by auto
      qed
    qed
  qed
qed

lemma match_head_correct:
  assumes "cstring s"
  shows "case match_head m s of
           HeadReturn r \<Rightarrow> (r = 0 \<longleftrightarrow> glob (mask_tokens m) s)
         | HeadStar m' s' \<Rightarrow> (glob (mask_tokens m) s \<longleftrightarrow> glob (GStar # mask_tokens m') s')"
  using assms
proof (induction m s rule: match_head.induct)
  case (1 s)
  then show ?case by (simp add: deref_eq_NUL)
next
  case (2 ch m s)
  show ?case
  proof (cases s)
    case Nil
    then show ?thesis
      by (cases "ch = CHR ''*'' \<or> ch = CHR ''?''")
         (auto simp: mask_tokens_literal Let_def simp del: mask_tokens.simps(2)
           simp: mask_tokens.simps(2) [of "CHR ''*''"] mask_tokens.simps(2) [of "CHR ''?''"])
  next
    case (Cons c s')
    consider "ch = CHR ''*''" | "ch = CHR ''?''" | "ch \<noteq> CHR ''*''" "ch \<noteq> CHR ''?''"
      by blast
    then show ?thesis
    proof cases
      case 2
      with "2.IH"(1) [OF _ 2 Cons] "2.prems" Cons show ?thesis
        by (simp split: head_result.splits)
    next
      case 3
      with "2.IH"(2) [OF 3 refl refl _ Cons] "2.prems" Cons show ?thesis
        by (auto simp: mask_tokens_literal Let_def simp del: mask_tokens.simps
          split: head_result.splits)
    qed simp
  qed
qed

lemma match_glob:
  assumes "cstring s"
  shows "match patrn s = 0 \<longleftrightarrow> glob (mask_tokens patrn) s"
proof (cases "match_head patrn s")
  case (HeadReturn r)
  with match_head_correct [OF assms, of patrn] show ?thesis by (simp add: match_def)
next
  case (HeadStar m' s')
  with match_head_correct [OF assms, of patrn] got_star_correct [of m' s'] show ?thesis
    by (simp add: match_def)
qed

lemma match2strings_glob: "cstring s \<Longrightarrow> match2strings patrn s \<longleftrightarrow> glob (mask_tokens patrn) s"
  by (simp add: match2strings_def match_glob)

text \<open>
  C7: \<open>match\<close> answers 0 exactly when the string is in the language of the mask, for
  every mask and every string without an embedded NUL: the rollback of the star part
  never loses a match and never invents one.
\<close>

theorem match_correct:
  assumes "cstring s"
  shows "match patrn s = 0 \<longleftrightarrow> mask_matches patrn s"
  unfolding mask_matches_def by (rule match_glob [OF assms])

lemma match_correct_witness:
  "match ''*!*@*.example.?et'' ''Nick!user@host.EXAMPLE.net'' = 0
     \<longleftrightarrow> mask_matches ''*!*@*.example.?et'' ''Nick!user@host.EXAMPLE.net''"
  by (rule match_correct) (simp add: cstring_def)

section \<open>collapse\<close>

text \<open>
  The inner loop of \<open>collapse\<close>, which moves every star of a run behind the question
  marks of the run. The mask is rewritten in place; the write position never passes the
  read position, so the result is a function of the text still to be read.
\<close>

definition at_wild :: "string \<Rightarrow> bool" where
  "at_wild m \<longleftrightarrow> deref m = CHR ''*'' \<or> deref m = CHR ''?''"

fun collapse_inner :: "bool \<Rightarrow> string \<Rightarrow> string" where
  "collapse_inner star [] = (if star then ''*'' else [])"
| "collapse_inner star (c # m) =
     (if c = CHR ''*'' then collapse_inner True m
      else
        let put = star \<and> c \<noteq> CHR ''?''; star' = (if put then False else star)
        in (if put then ''*'' else []) @
           (if c = backslash \<and> at_wild m then c # deref m # collapse_inner star' (tl m)
            else c # collapse_inner star' m))"

fun collapse :: "string \<Rightarrow> string" where
  "collapse [] = []"
| "collapse (c # m) =
     (if c = CHR ''*'' \<and> at_wild m then collapse_inner False (c # m)
      else if c = backslash \<and> at_wild m then c # deref m # collapse (tl m)
      else c # collapse m)"

lemma collapse_inner_head_wild:
  "\<not> at_wild m \<Longrightarrow> \<not> at_wild (collapse_inner False m)"
  by (cases m) (auto simp: at_wild_def Let_def)

lemma mask_tokens_wild:
  "mask_tokens (c # m) =
     (if c = CHR ''*'' then GStar # mask_tokens m
      else if c = CHR ''?'' then GAny # mask_tokens m
      else if c = backslash \<and> at_wild m then GLit (ToLower (deref m)) # mask_tokens (tl m)
      else GLit (ToLower c) # mask_tokens m)"
  by (simp add: at_wild_def)

lemma glob_push_star:
  assumes "\<And>s. glob us s = glob (GStar # ts) s"
  shows "glob (GAny # us) s = glob (GStar # GAny # ts) s"
proof -
  have "glob (GAny # us) s = glob (GAny # GStar # ts) s" by (rule glob_cong) (rule assms)
  then show ?thesis by (simp only: glob_any_star)
qed

lemma glob_lit_cong:
  assumes "\<And>s. glob ts s = glob us s"
  shows "glob (GLit d # ts) s = glob (GLit d # us) s"
  by (rule glob_cong) (rule assms)

text \<open>Tokens in normal form: no star stands before a star or a question mark.\<close>

fun collapsed :: "gtok list \<Rightarrow> bool" where
  "collapsed (GStar # t # ts) = (t \<noteq> GStar \<and> t \<noteq> GAny \<and> collapsed (t # ts))"
| "collapsed (_ # ts) = collapsed ts"
| "collapsed [] = True"

definition star_prefix :: "bool \<Rightarrow> gtok list \<Rightarrow> gtok list" where
  "star_prefix star ts = (if star then GStar # ts else ts)"

lemma collapse_inner_glob:
  "glob (mask_tokens (collapse_inner star m)) s = glob (star_prefix star (mask_tokens m)) s"
proof (induction star m arbitrary: s rule: collapse_inner.induct)
  case (1 star)
  then show ?case by (simp add: star_prefix_def)
next
  case (2 star c m)
  consider "c = CHR ''*''" | "c = CHR ''?''"
    | "c = backslash" "at_wild m"
    | "c \<noteq> CHR ''*''" "c \<noteq> CHR ''?''" "\<not> (c = backslash \<and> at_wild m)" by blast
  then show ?case
  proof cases
    case 1
    with "2.IH"(1) show ?thesis
      by (cases star) (simp_all add: star_prefix_def glob_star_star)
  next
    case 2
    have IH: "glob (mask_tokens (collapse_inner star m)) s = glob (star_prefix star (mask_tokens m)) s"
      for s using "2.IH"(3) [of False star s] 2 by simp
    show ?thesis
    proof (cases star)
      case True
      with IH have "glob (GAny # mask_tokens (collapse_inner True m)) s
          = glob (GStar # GAny # mask_tokens m) s"
        by (intro glob_push_star) (simp add: star_prefix_def)
      with 2 True show ?thesis by (simp add: star_prefix_def)
    next
      case False
      with IH have "glob (GAny # mask_tokens (collapse_inner False m)) s
          = glob (GAny # mask_tokens m) s"
        by (intro glob_cong) (simp add: star_prefix_def)
      with 2 False show ?thesis by (simp add: star_prefix_def)
    qed
  next
    case 3
    let ?l = "GLit (ToLower (deref m))"
    have IH: "glob (mask_tokens (collapse_inner False (tl m))) s = glob (mask_tokens (tl m)) s"
      for s using "2.IH"(2) [of star False] 3 by (cases star) (simp_all add: star_prefix_def)
    have "glob (star_prefix star (?l # mask_tokens (collapse_inner False (tl m)))) s
        = glob (star_prefix star (?l # mask_tokens (tl m))) s"
      unfolding star_prefix_def using glob_lit_cong [OF IH] glob_cong [OF glob_lit_cong [OF IH]]
      by simp
    with 3 show ?thesis
      by (cases star) (simp_all add: star_prefix_def Let_def mask_tokens_wild at_wild_def
        del: mask_tokens.simps(2))
  next
    case 4
    have IH: "glob (mask_tokens (collapse_inner False m)) s = glob (mask_tokens m) s"
      for s using "2.IH"(3) [of star False] 4 by (cases star) (simp_all add: star_prefix_def)
    have eq: "glob (star_prefix star (GLit (ToLower c) # mask_tokens (collapse_inner False m))) s
        = glob (star_prefix star (GLit (ToLower c) # mask_tokens m)) s"
      unfolding star_prefix_def using glob_lit_cong [OF IH] glob_cong [OF glob_lit_cong [OF IH]]
      by simp
    have "c = backslash \<Longrightarrow> \<not> at_wild (collapse_inner False m)"
      using 4 collapse_inner_head_wild by blast
    then have "mask_tokens (c # collapse_inner False m)
        = GLit (ToLower c) # mask_tokens (collapse_inner False m)"
      unfolding mask_tokens_wild [of c] using 4 by auto
    moreover have "mask_tokens (c # m) = GLit (ToLower c) # mask_tokens m"
      unfolding mask_tokens_wild [of c] using 4 by auto
    ultimately show ?thesis using 4 eq
      by (cases star) (auto simp: star_prefix_def Let_def simp del: mask_tokens.simps(2)
        simp: mask_tokens.simps(2) [of "CHR ''*''"])
  qed
qed

lemma collapse_tokens:
  "\<not> at_wild m \<Longrightarrow> \<not> at_wild (collapse m)"
  by (cases m) (auto simp: at_wild_def)

lemma collapse_glob: "glob (mask_tokens (collapse m)) s = glob (mask_tokens m) s"
proof (induction m arbitrary: s rule: collapse.induct)
  case 1
  then show ?case by simp
next
  case (2 c m)
  consider "c = CHR ''*'' \<and> at_wild m" | "c = backslash" "at_wild m"
    | "\<not> (c = CHR ''*'' \<and> at_wild m)" "\<not> (c = backslash \<and> at_wild m)" by blast
  then show ?case
  proof cases
    case 1
    with collapse_inner_glob [of False "c # m" s] show ?thesis
      by (simp add: star_prefix_def del: collapse_inner.simps)
  next
    case 2
    with "2.IH"(1) have IH: "glob (mask_tokens (collapse (tl m))) s = glob (mask_tokens (tl m)) s"
      for s by simp
    have "glob (GLit (ToLower (deref m)) # mask_tokens (collapse (tl m))) s
        = glob (GLit (ToLower (deref m)) # mask_tokens (tl m)) s"
      by (rule glob_cong) (rule IH)
    with 2 show ?thesis
      by (simp add: mask_tokens_wild at_wild_def del: mask_tokens.simps(2))
  next
    case 3
    with "2.IH"(2) have IH: "glob (mask_tokens (collapse m)) s = glob (mask_tokens m) s" for s
      by blast
    have c: "collapse (c # m) = c # collapse m" using 3 by auto
    have e: "c = backslash \<Longrightarrow> \<not> at_wild (collapse m)" using 3 collapse_tokens by blast
    define t where "t = (if c = CHR ''*'' then GStar else if c = CHR ''?'' then GAny
      else GLit (ToLower c))"
    have "mask_tokens (collapse (c # m)) = t # mask_tokens (collapse m)"
      unfolding c mask_tokens_wild [of c "collapse m"] t_def using e by auto
    moreover have "mask_tokens (c # m) = t # mask_tokens m"
      unfolding mask_tokens_wild [of c m] t_def using 3 by auto
    ultimately show ?thesis using glob_cong [of "mask_tokens (collapse m)", OF IH] by metis
  qed
qed

lemma collapsed_lit [simp]: "collapsed (GLit c # ts) = collapsed ts"
  by (cases ts) auto

lemma collapsed_any [simp]: "collapsed (GAny # ts) = collapsed ts"
  by (cases ts) auto

lemma collapsed_star:
  "collapsed (GStar # ts) \<longleftrightarrow> collapsed ts \<and> (ts \<noteq> [] \<longrightarrow> hd ts \<noteq> GStar \<and> hd ts \<noteq> GAny)"
  by (cases ts) auto

lemma collapse_inner_collapsed: "collapsed (mask_tokens (collapse_inner star m))"
proof (induction star m rule: collapse_inner.induct)
  case (2 star c m)
  consider "c = CHR ''*''" | "c = CHR ''?''" | "c = backslash" "at_wild m"
    | "c \<noteq> CHR ''*''" "c \<noteq> CHR ''?''" "\<not> (c = backslash \<and> at_wild m)" by blast
  then show ?case
  proof cases
    case 1
    with "2.IH"(1) show ?thesis by simp
  next
    case 2
    with "2.IH"(3) [of False star] show ?thesis by simp
  next
    case 3
    with "2.IH"(2) [of star False] show ?thesis
      by (cases star) (simp_all add: Let_def mask_tokens_wild at_wild_def collapsed_star
        del: mask_tokens.simps(2))
  next
    case 4
    with "2.IH"(3) [of star False] collapse_inner_head_wild [of m] show ?thesis
      by (cases star) (auto simp add: Let_def mask_tokens_wild collapsed_star
        simp del: mask_tokens.simps(2))
  qed
qed simp

lemma collapse_hd_tok:
  "\<not> at_wild m \<Longrightarrow> collapse m \<noteq> [] \<Longrightarrow>
     hd (mask_tokens (collapse m)) \<noteq> GStar \<and> hd (mask_tokens (collapse m)) \<noteq> GAny"
  by (cases m) (auto simp: at_wild_def)

lemma mask_tokens_Nil [simp]: "mask_tokens m = [] \<longleftrightarrow> m = []"
  by (cases m) auto

lemma collapse_collapsed: "collapsed (mask_tokens (collapse m))"
proof (induction m rule: collapse.induct)
  case (2 c m)
  consider "c = CHR ''*'' \<and> at_wild m" | "c = backslash" "at_wild m"
    | "\<not> (c = CHR ''*'' \<and> at_wild m)" "\<not> (c = backslash \<and> at_wild m)" by blast
  then show ?case
  proof cases
    case 1
    then show ?thesis using collapse_inner_collapsed [of False "c # m"] by simp
  next
    case 2
    with "2.IH"(1) show ?thesis
      by (simp add: mask_tokens_wild at_wild_def del: mask_tokens.simps(2))
  next
    case 3
    with "2.IH"(2) have IH: "collapsed (mask_tokens (collapse m))" by blast
    have "c = backslash \<Longrightarrow> \<not> at_wild (collapse m)"
      using 3 collapse_tokens by blast
    moreover have "c = CHR ''*'' \<Longrightarrow> collapse m \<noteq> [] \<Longrightarrow>
        hd (mask_tokens (collapse m)) \<noteq> GStar \<and> hd (mask_tokens (collapse m)) \<noteq> GAny"
      using 3 collapse_hd_tok by blast
    moreover have "collapse (c # m) = c # collapse m" using 3 by auto
    ultimately show ?thesis using IH
      by (auto simp add: mask_tokens_wild [of c "collapse m"] collapsed_star
        simp del: mask_tokens.simps(2) collapse.simps(2))
  qed
qed simp

text \<open>
  C31: \<open>collapse\<close> rewrites a mask to one that matches the same strings and has a normal
  form: no star is followed by another star or by a question mark.
\<close>

theorem collapse_same_language:
  "mask_matches (collapse m) s = mask_matches m s \<and> collapsed (mask_tokens (collapse m))"
  unfolding mask_matches_def by (simp add: collapse_glob collapse_collapsed)

end
