(* ===== verification/IrcMmatch.thy ===== *)
theory IrcMmatch
  imports IrcMatch
begin

text \<open>
  \<open>mmatch\<close> of \<open>lib/irc_string.c\<close>, which compares two masks: it answers 0 when the
  first covers the second. The loop body is \<open>mm_step\<close>, one iteration of the source's
  \<open>while (1)\<close>, run with fuel. Reading before the start of the mask or moving \<open>na\<close>
  past its NUL is the outcome \<open>MMOut\<close>. Shown: the fuel chosen is enough, no such
  access happens for a nonempty first mask, and an answer of 0 is right.
\<close>

section \<open>The loop\<close>

record mm_state =
  mm_m :: string
  mm_n :: string
  mm_ma :: string
  mm_na :: string
  mm_wild :: bool

datatype mm_outcome = MMReturn int | MMOut | MMNext mm_state

text \<open>\<open>for (m--; (m > old_mask) && (*m == '?'); m--)\<close> from the end of the mask.\<close>

fun back_over_q :: "string \<Rightarrow> nat \<Rightarrow> nat" where
  "back_over_q old_mask i =
     (if i > 0 \<and> old_mask ! i = CHR ''?'' then back_over_q old_mask (i - 1) else i)"

declare back_over_q.simps [simp del]

text \<open>With an empty mask the loop's first read is before its start.\<close>

definition trailing_star :: "string \<Rightarrow> bool option" where
  "trailing_star old_mask =
     (if old_mask = [] then None
      else let i = back_over_q old_mask (length old_mask - 1)
           in Some (old_mask ! i = CHR ''*'' \<and> i > 0 \<and> old_mask ! (i - 1) \<noteq> backslash))"

definition is_escape :: "string \<Rightarrow> bool" where
  "is_escape p \<longleftrightarrow>
     deref p = backslash \<and> (deref (tl p) = CHR ''*'' \<or> deref (tl p) = CHR ''?'')"

definition mm_star :: "mm_state \<Rightarrow> mm_state" where
  "mm_star st =
     (if deref (mm_m st) = CHR ''*'' then
        let m = dropWhile (\<lambda>c. c = CHR ''*'') (mm_m st)
        in st\<lparr>mm_m := m, mm_wild := True, mm_ma := m, mm_na := mm_n st\<rparr>
      else st)"

text \<open>\<open>m = ma\<close>, then \<open>na\<close> moves over one character of the new mask, and \<open>n = na\<close>.\<close>

definition mm_rewind :: "mm_state \<Rightarrow> mm_state option" where
  "mm_rewind st =
     (let na = (if is_escape (mm_na st) then tl (mm_na st) else mm_na st)
      in if na = [] then None
         else Some (st\<lparr>mm_m := mm_ma st, mm_na := tl na, mm_n := tl na\<rparr>))"

definition mm_compare :: "mm_state \<Rightarrow> mm_outcome" where
  "mm_compare st =
     (let mq = is_escape (mm_m st);
          m = (if mq then tl (mm_m st) else mm_m st);
          nq = is_escape (mm_n st);
          n = (if nq then tl (mm_n st) else mm_n st)
      in if (deref m = CHR ''*'' \<and> \<not> mq)
            \<or> ((\<not> mq \<or> nq) \<and> ToLower (deref m) = ToLower (deref n))
            \<or> (deref m = CHR ''?'' \<and> \<not> mq \<and> (deref n \<noteq> CHR ''*'' \<or> nq))
         then MMNext (st\<lparr>mm_m := tl m, mm_n := tl n\<rparr>)
         else if \<not> mm_wild st then MMReturn 1
         else (case mm_rewind st of None \<Rightarrow> MMOut | Some st' \<Rightarrow> MMNext st'))"

definition mm_step :: "string \<Rightarrow> mm_state \<Rightarrow> mm_outcome" where
  "mm_step old_mask st0 =
     (let st = mm_star st0
      in if mm_m st = [] then
           (if mm_n st = [] then MMReturn 0
            else case trailing_star old_mask of
                   None \<Rightarrow> MMOut
                 | Some b \<Rightarrow>
                     if b then MMReturn 0
                     else if \<not> mm_wild st then MMReturn 1
                     else (case mm_rewind st of None \<Rightarrow> MMOut | Some st' \<Rightarrow> mm_compare st'))
         else if mm_n st = [] then
           MMReturn (if dropWhile (\<lambda>c. c = CHR ''*'') (mm_m st) \<noteq> [] then 1 else 0)
         else mm_compare st)"

fun mm_loop :: "nat \<Rightarrow> string \<Rightarrow> mm_state \<Rightarrow> int option" where
  "mm_loop 0 old_mask st = None"
| "mm_loop (Suc fuel) old_mask st =
     (case mm_step old_mask st of
        MMReturn r \<Rightarrow> Some r
      | MMOut \<Rightarrow> None
      | MMNext st' \<Rightarrow> mm_loop fuel old_mask st')"

definition mm_fuel :: "string \<Rightarrow> string \<Rightarrow> nat" where
  "mm_fuel old_mask new_mask =
     (length new_mask + 1) * (length old_mask + length new_mask + 1) + 1"

definition mmatch :: "string \<Rightarrow> string \<Rightarrow> int option" where
  "mmatch old_mask new_mask =
     mm_loop (mm_fuel old_mask new_mask) old_mask
       \<lparr>mm_m = old_mask, mm_n = new_mask, mm_ma = old_mask, mm_na = new_mask, mm_wild = False\<rparr>"

definition match2patterns :: "string \<Rightarrow> string \<Rightarrow> bool option" where
  "match2patterns patrn s = map_option (\<lambda>r. r = 0) (mmatch patrn s)"

section \<open>Subsumption of masks\<close>

definition subsumes :: "gtok list \<Rightarrow> gtok list \<Rightarrow> bool" where
  "subsumes ps qs \<longleftrightarrow> (\<forall>s. glob qs s \<longrightarrow> glob ps s)"

lemma subsumes_refl [simp, intro]: "subsumes ps ps"
  by (simp add: subsumes_def)

lemma subsumes_star_drop:
  assumes "subsumes ps (drop k qs)"
  shows "subsumes (GStar # ps) qs"
  using assms
proof (induction k arbitrary: qs)
  case 0
  then show ?case by (auto simp: subsumes_def intro: glob_starI)
next
  case (Suc k)
  show ?case
  proof (cases qs)
    case Nil
    with Suc.prems show ?thesis by (auto simp: subsumes_def intro: glob_starI)
  next
    case (Cons q qs')
    with Suc have IH: "subsumes (GStar # ps) qs'" by simp
    have "glob (GStar # ps) s" if "glob (q # qs') s" for s
    proof (cases q)
      case GStar
      with that obtain u v where "s = u @ v" "glob qs' v" by (auto simp: glob_star_suffix)
      with IH show ?thesis by (auto simp: subsumes_def intro: glob_star_append)
    next
      case GAny
      with that IH show ?thesis
        by (auto simp: subsumes_def glob.simps(3) split: list.splits)
    next
      case (GLit c)
      with that IH show ?thesis
        by (auto simp: subsumes_def glob.simps(3) split: list.splits)
    qed
    with Cons show ?thesis by (simp add: subsumes_def)
  qed
qed

lemma subsumes_any: "q \<noteq> GStar \<Longrightarrow> subsumes ps qs \<Longrightarrow> subsumes (GAny # ps) (q # qs)"
  by (cases q) (auto simp: subsumes_def split: list.splits)

lemma subsumes_lit: "subsumes ps qs \<Longrightarrow> subsumes (GLit c # ps) (GLit c # qs)"
  by (auto simp: subsumes_def split: list.splits)

lemma glob_star_anys: "k \<le> length s \<Longrightarrow> glob (GStar # replicate k GAny) s"
proof (induction k arbitrary: s)
  case 0
  then show ?case by (auto simp: glob_star intro: exI [of _ "length s"])
next
  case (Suc k)
  then obtain c s' where "s = c # s'" by (cases s) auto
  with Suc show ?case by (simp add: glob_star_any)
qed

lemma min_len_nostar: "GStar \<notin> set ts \<Longrightarrow> length ts \<le> min_len (ts @ us)"
proof (induction ts)
  case (Cons t ts)
  then show ?case by (cases t) auto
qed simp

lemma subsumes_star_anys:
  assumes "GStar \<notin> set ts" and "k = length ts"
  shows "subsumes (GStar # replicate k GAny) (ts @ qs)"
  unfolding subsumes_def
proof (intro allI impI)
  fix s
  assume "glob (ts @ qs) s"
  then have "min_len (ts @ qs) \<le> length s" by (rule glob_min_len)
  with min_len_nostar [OF assms(1), of qs] assms(2) have "k \<le> length s" by simp
  then show "glob (GStar # replicate k GAny) s" by (rule glob_star_anys)
qed

section \<open>Tokens and the text of a mask\<close>

definition head_tok :: "string \<Rightarrow> gtok" where
  "head_tok m = hd (mask_tokens m)"

definition tail_of :: "string \<Rightarrow> string" where
  "tail_of m = (if is_escape m then tl (tl m) else tl m)"

lemma mask_tokens_head:
  "m \<noteq> [] \<Longrightarrow> mask_tokens m = head_tok m # mask_tokens (tail_of m)"
  by (cases m) (auto simp: head_tok_def tail_of_def is_escape_def)

lemma mask_tokens_append:
  assumes "x = [] \<or> last x \<noteq> backslash"
  shows "mask_tokens (x @ y) = mask_tokens x @ mask_tokens y"
  using assms
proof (induction x rule: mask_tokens.induct)
  case (2 c cs)
  show ?case
  proof (cases cs)
    case Nil
    with 2 show ?thesis by auto
  next
    case (Cons d ds)
    with "2.prems" have "last cs \<noteq> backslash" by simp
    moreover from this Cons have "ds = [] \<or> last ds \<noteq> backslash" by auto
    ultimately show ?thesis using "2.IH" Cons by auto
  qed
qed simp

lemma dropWhile_star_tokens:
  "\<exists>j. mask_tokens m = replicate j GStar @ mask_tokens (dropWhile (\<lambda>c. c = CHR ''*'') m)
     \<and> (deref m = CHR ''*'' \<longrightarrow> 0 < j)"
proof (induction m)
  case (Cons c m)
  show ?case
  proof (cases "c = CHR ''*''")
    case True
    from Cons obtain j where
      "mask_tokens m = replicate j GStar @ mask_tokens (dropWhile (\<lambda>c. c = CHR ''*'') m)"
      by blast
    with True show ?thesis by (intro exI [of _ "Suc j"]) simp
  next
    case False
    then show ?thesis by (intro exI [of _ 0]) simp
  qed
qed simp

lemma glob_stars: "0 < j \<Longrightarrow> glob (replicate j GStar @ ps) s \<longleftrightarrow> glob (GStar # ps) s"
proof (induction j arbitrary: s)
  case (Suc j)
  show ?case
  proof (cases j)
    case 0
    then show ?thesis by simp
  next
    case (Suc i)
    with Suc.IH have "glob (GStar # replicate j GStar @ ps) s = glob (GStar # GStar # ps) s"
      by (intro glob_cong) simp
    then show ?thesis by (simp add: glob_star_star)
  qed
qed simp

lemma back_over_q_post:
  "i < length old \<Longrightarrow>
     back_over_q old i \<le> i
     \<and> (\<forall>k. back_over_q old i < k \<and> k \<le> i \<longrightarrow> old ! k = CHR ''?'')"
proof (induction i)
  case 0
  then show ?case by (simp add: back_over_q.simps)
next
  case (Suc i)
  show ?case
  proof (cases "old ! Suc i = CHR ''?''")
    case True
    then have "back_over_q old (Suc i) = back_over_q old i"
      by (simp add: back_over_q.simps [of old "Suc i"])
    with Suc True show ?thesis by (auto simp: le_Suc_eq)
  next
    case False
    then show ?thesis by (auto simp: back_over_q.simps [of old "Suc i"])
  qed
qed

lemma mask_tokens_qs: "mask_tokens (replicate k (CHR ''?'')) = replicate k GAny"
  by (induction k) auto

lemma trailing_star_tokens:
  assumes "trailing_star old = Some True"
  obtains pre k where "mask_tokens old = pre @ GStar # replicate k GAny"
proof -
  define i where "i = back_over_q old (length old - 1)"
  from assms have ne: "old \<noteq> []" and star: "old ! i = CHR ''*''" "0 < i"
    and esc: "old ! (i - 1) \<noteq> backslash"
    by (auto simp: trailing_star_def i_def Let_def split: if_splits)
  from ne have post: "i \<le> length old - 1"
      "\<And>k. i < k \<Longrightarrow> k \<le> length old - 1 \<Longrightarrow> old ! k = CHR ''?''"
    using back_over_q_post [of "length old - 1" old] by (auto simp: i_def)
  have "drop (Suc i) old = replicate (length old - Suc i) (CHR ''?'')"
    using post by (intro nth_equalityI) auto
  moreover from post ne have "i < length old" by (cases old) auto
  ultimately have "old = take i old @ CHR ''*'' # replicate (length old - Suc i) (CHR ''?'')"
    using id_take_nth_drop [of i old] star by simp
  moreover have "last (take i old) \<noteq> backslash"
    using esc star post ne by (simp add: last_conv_nth)
  ultimately have "mask_tokens old
      = mask_tokens (take i old) @ GStar # replicate (length old - Suc i) GAny"
    using mask_tokens_append [of "take i old" "CHR ''*'' # replicate (length old - Suc i) (CHR ''?'')"]
    by (simp add: mask_tokens_qs)
  then show ?thesis by (rule that)
qed

section \<open>The loop invariant\<close>

text \<open>
  \<open>goal\<close> stands for what is to be shown of the two masks. It follows whenever the rests
  at \<open>m\<close> and \<open>n\<close> are in the relation, and, after a star, whenever the star followed
  by \<open>ma\<close> subsumes the rest at \<open>na\<close>. The tokens read since the last star are in
  lockstep and hold no star.
\<close>

definition mm_inv :: "bool \<Rightarrow> string \<Rightarrow> string \<Rightarrow> mm_state \<Rightarrow> bool" where
  "mm_inv goal old new st \<longleftrightarrow>
     cstring (mm_m st) \<and> cstring (mm_n st) \<and> cstring (mm_ma st) \<and> cstring (mm_na st)
     \<and> length (mm_n st) \<le> length (mm_na st) \<and> length (mm_na st) \<le> length new
     \<and> length (mm_m st) \<le> length old \<and> length (mm_ma st) \<le> length old
     \<and> (subsumes (mask_tokens (mm_m st)) (mask_tokens (mm_n st)) \<longrightarrow> goal)
     \<and> (if mm_wild st
        then (subsumes (GStar # mask_tokens (mm_ma st)) (mask_tokens (mm_na st)) \<longrightarrow> goal)
          \<and> deref (mm_ma st) \<noteq> CHR ''*''
          \<and> (\<exists>pre. mask_tokens old = pre @ GStar # mask_tokens (mm_ma st))
          \<and> (\<exists>us ts. mask_tokens (mm_ma st) = us @ mask_tokens (mm_m st)
               \<and> mask_tokens (mm_na st) = ts @ mask_tokens (mm_n st)
               \<and> length us = length ts \<and> GStar \<notin> set us \<and> GStar \<notin> set ts)
        else (\<exists>us. mask_tokens old = us @ mask_tokens (mm_m st) \<and> GStar \<notin> set us))"

definition mm_measure :: "string \<Rightarrow> string \<Rightarrow> mm_state \<Rightarrow> nat" where
  "mm_measure old new st =
     length (mm_na st) * (length old + length new + 1) + length (mm_m st) + length (mm_n st)"

lemma cstring_tl [simp]: "cstring s \<Longrightarrow> cstring (tl s)"
  by (cases s) auto

lemma cstring_dropWhile [simp]: "cstring s \<Longrightarrow> cstring (dropWhile P s)"
  by (auto simp: cstring_def dest: set_dropWhileD)

lemma cstring_tail_of [simp]: "cstring s \<Longrightarrow> cstring (tail_of s)"
  by (simp add: tail_of_def)

lemma tail_of_less: "m \<noteq> [] \<Longrightarrow> length (tail_of m) < length m"
  by (cases m; cases "tl m") (auto simp: tail_of_def)

lemma deref_dropWhile: "d \<noteq> NUL \<Longrightarrow> deref (dropWhile (\<lambda>c. c = d) s) \<noteq> d"
  by (induction s) auto

lemma mm_star_inv:
  assumes "mm_inv goal old new st"
  shows "mm_inv goal old new (mm_star st)" "deref (mm_m (mm_star st)) \<noteq> CHR ''*''"
    "mm_measure old new (mm_star st) \<le> mm_measure old new st"
proof -
  define m where "m = dropWhile (\<lambda>c. c = CHR ''*'') (mm_m st)"
  have nostar: "deref m \<noteq> CHR ''*''"
    unfolding m_def by (rule deref_dropWhile) simp
  show "deref (mm_m (mm_star st)) \<noteq> CHR ''*''"
    using nostar by (simp add: mm_star_def m_def Let_def)
  have len: "length m \<le> length (mm_m st)" unfolding m_def by (rule length_dropWhile_le)
  then show "mm_measure old new (mm_star st) \<le> mm_measure old new st"
    using assms by (auto simp: mm_star_def mm_measure_def mm_inv_def m_def [symmetric]
      intro!: add_mono mult_le_mono1)
  show "mm_inv goal old new (mm_star st)"
  proof (cases "deref (mm_m st) = CHR ''*''")
    case True
    obtain j where j: "mask_tokens (mm_m st) = replicate j GStar @ mask_tokens m" "0 < j"
      using dropWhile_star_tokens [of "mm_m st"] True by (auto simp: m_def)
    obtain pre where "mask_tokens old = pre @ mask_tokens (mm_m st)"
      using assms by (fastforce simp: mm_inv_def split: if_splits)
    with j have "mask_tokens old = (pre @ replicate (j - 1) GStar) @ GStar # mask_tokens m"
      by (cases j) (simp_all add: replicate_append_same)
    then have "\<exists>pre. mask_tokens old = pre @ GStar # mask_tokens m" by blast
    moreover have eq: "subsumes (mask_tokens (mm_m st)) qs \<longleftrightarrow> subsumes (GStar # mask_tokens m) qs"
      for qs using j by (simp add: subsumes_def glob_stars)
    moreover have "subsumes (mask_tokens m) qs \<Longrightarrow> subsumes (GStar # mask_tokens m) qs" for qs
      by (auto simp: subsumes_def intro: glob_starI)
    moreover have "cstring m" using assms by (simp add: m_def mm_inv_def)
    ultimately show ?thesis
      using assms True len nostar
      by (auto simp: mm_star_def mm_inv_def Let_def m_def [symmetric])
  next
    case False
    with assms show ?thesis by (simp add: mm_star_def)
  qed
qed

text \<open>The token read at a compare, in terms of the characters the source looks at.\<close>

lemma head_tok_chars:
  assumes "m \<noteq> []" "cstring m"
  shows "head_tok m =
    (let q = is_escape m; c = deref (if q then tl m else m)
     in if \<not> q \<and> c = CHR ''*'' then GStar else if \<not> q \<and> c = CHR ''?'' then GAny
        else GLit (ToLower c))"
  using assms by (cases m) (auto simp: head_tok_def is_escape_def)

lemma mm_rewind_inv:
  assumes inv: "mm_inv goal old new st" and w: "mm_wild st" and ne: "mm_na st \<noteq> []"
  obtains st' where "mm_rewind st = Some st'" "mm_inv goal old new st'"
    "mm_measure old new st' < mm_measure old new st" "mm_wild st'"
    "mm_m st' = mm_ma st" "mm_n st' = tail_of (mm_na st)" "mm_na st' = tail_of (mm_na st)"
    "mm_ma st' = mm_ma st"
proof -
  let ?na = "tail_of (mm_na st)"
  let ?st = "st\<lparr>mm_m := mm_ma st, mm_na := ?na, mm_n := ?na\<rparr>"
  have rew: "mm_rewind st = Some ?st"
    using ne by (cases "tl (mm_na st)") (auto simp: mm_rewind_def tail_of_def is_escape_def)
  have less: "length ?na < length (mm_na st)" using ne by (rule tail_of_less)
  have tok: "drop 1 (mask_tokens (mm_na st)) = mask_tokens ?na"
    using mask_tokens_head [OF ne] by simp
  let ?M = "mask_tokens (mm_ma st)"
  have I2: "subsumes (GStar # ?M) (mask_tokens (mm_na st)) \<longrightarrow> goal"
    using inv w by (simp add: mm_inv_def)
  have "subsumes ?M (mask_tokens ?na) \<longrightarrow> goal"
    using I2 subsumes_star_drop [of ?M 1 "mask_tokens (mm_na st)"] tok by simp
  moreover have "subsumes (GStar # ?M) (mask_tokens ?na) \<longrightarrow> goal"
    using I2 subsumes_star_drop [of "GStar # ?M" 1 "mask_tokens (mm_na st)"] tok
    by (simp add: subsumes_def glob_star_star)
  ultimately have "mm_inv goal old new ?st"
    using inv w less by (auto simp: mm_inv_def)
  moreover have "mm_measure old new ?st < mm_measure old new st"
  proof -
    let ?K = "length old + length new + 1"
    have "length (mm_ma st) + length ?na < ?K" using inv less by (simp add: mm_inv_def)
    moreover have "length ?na * ?K + ?K \<le> length (mm_na st) * ?K"
      using less mult_le_mono1 [of "Suc (length ?na)" "length (mm_na st)" ?K] by simp
    ultimately show ?thesis by (simp add: mm_measure_def)
  qed
  ultimately show ?thesis using rew w by (intro that [of ?st]) simp_all
qed

definition step_ok :: "bool \<Rightarrow> string \<Rightarrow> string \<Rightarrow> mm_state \<Rightarrow> mm_outcome \<Rightarrow> bool" where
  "step_ok goal old new st r =
     (case r of
        MMReturn k \<Rightarrow> k = 0 \<longrightarrow> goal
      | MMOut \<Rightarrow> old = []
      | MMNext st' \<Rightarrow> mm_inv goal old new st' \<and> mm_measure old new st' < mm_measure old new st)"

lemma mismatch_ok:
  assumes "mm_inv goal old new st" and "mm_n st \<noteq> []"
  shows "step_ok goal old new st
    (if \<not> mm_wild st then MMReturn 1
     else (case mm_rewind st of None \<Rightarrow> MMOut | Some st' \<Rightarrow> MMNext st'))"
proof (cases "mm_wild st")
  case True
  have "mm_na st \<noteq> []" using assms by (auto simp: mm_inv_def)
  from mm_rewind_inv [OF assms(1) True this] obtain st' where
    "mm_rewind st = Some st'" "mm_inv goal old new st'"
    "mm_measure old new st' < mm_measure old new st" .
  with True show ?thesis by (simp add: step_ok_def)
next
  case False
  then show ?thesis by (simp add: step_ok_def)
qed

lemma advance_ok:
  assumes inv: "mm_inv goal old new st" and ne: "mm_m st \<noteq> []" "mm_n st \<noteq> []"
    and t: "head_tok (mm_m st) \<noteq> GStar" "head_tok (mm_n st) \<noteq> GStar"
      "head_tok (mm_m st) = GAny \<or> head_tok (mm_m st) = head_tok (mm_n st)"
  shows "step_ok goal old new st
    (MMNext (st\<lparr>mm_m := tail_of (mm_m st), mm_n := tail_of (mm_n st)\<rparr>))"
proof -
  let ?m = "tail_of (mm_m st)" and ?n = "tail_of (mm_n st)"
  let ?st = "st\<lparr>mm_m := ?m, mm_n := ?n\<rparr>"
  note M = mask_tokens_head [OF ne(1)] and N = mask_tokens_head [OF ne(2)]
  have less: "length ?m < length (mm_m st)" "length ?n < length (mm_n st)"
    using ne by (simp_all add: tail_of_less)
  have sub: "subsumes (mask_tokens ?m) (mask_tokens ?n)
      \<Longrightarrow> subsumes (mask_tokens (mm_m st)) (mask_tokens (mm_n st))"
    unfolding M N using t
    by (cases "head_tok (mm_m st)"; cases "head_tok (mm_n st)")
       (auto intro: subsumes_any subsumes_lit)
  have "mm_inv goal old new ?st"
  proof (cases "mm_wild st")
    case True
    then obtain us ts where
      "mask_tokens (mm_ma st) = us @ mask_tokens (mm_m st)"
      "mask_tokens (mm_na st) = ts @ mask_tokens (mm_n st)"
      "length us = length ts" "GStar \<notin> set us" "GStar \<notin> set ts"
      using inv by (auto simp: mm_inv_def)
    with t M N have "\<exists>us ts. mask_tokens (mm_ma st) = us @ mask_tokens ?m
        \<and> mask_tokens (mm_na st) = ts @ mask_tokens ?n
        \<and> length us = length ts \<and> GStar \<notin> set us \<and> GStar \<notin> set ts"
      by (intro exI [of _ "us @ [head_tok (mm_m st)]"] exI [of _ "ts @ [head_tok (mm_n st)]"]) auto
    with inv True less sub show ?thesis by (auto simp: mm_inv_def)
  next
    case False
    then obtain us where "mask_tokens old = us @ mask_tokens (mm_m st)" "GStar \<notin> set us"
      using inv by (auto simp: mm_inv_def)
    with t M have "\<exists>us. mask_tokens old = us @ mask_tokens ?m \<and> GStar \<notin> set us"
      by (intro exI [of _ "us @ [head_tok (mm_m st)]"]) auto
    with inv False less sub show ?thesis by (auto simp: mm_inv_def)
  qed
  moreover have "mm_measure old new ?st < mm_measure old new st"
    using less by (simp add: mm_measure_def)
  ultimately show ?thesis by (simp add: step_ok_def)
qed

definition char_tok :: "bool \<Rightarrow> char \<Rightarrow> gtok" where
  "char_tok q c =
     (if \<not> q \<and> c = CHR ''*'' then GStar else if \<not> q \<and> c = CHR ''?'' then GAny
      else GLit (ToLower c))"

lemma compare_condition:
  assumes "mq \<longrightarrow> cm = CHR ''*'' \<or> cm = CHR ''?''"
    and "nq \<longrightarrow> cn = CHR ''*'' \<or> cn = CHR ''?''"
    and "\<not> mq \<longrightarrow> cm \<noteq> CHR ''*''"
  shows "((cm = CHR ''*'' \<and> \<not> mq) \<or> ((\<not> mq \<or> nq) \<and> ToLower cm = ToLower cn)
          \<or> (cm = CHR ''?'' \<and> \<not> mq \<and> (cn \<noteq> CHR ''*'' \<or> nq)))
      \<longleftrightarrow> (char_tok nq cn \<noteq> GStar
           \<and> (char_tok mq cm = GAny \<or> char_tok mq cm = char_tok nq cn))"
  using assms by (cases mq; cases nq) (auto simp: char_tok_def)

lemma compare_tokens:
  assumes "mm_m st \<noteq> []" "mm_n st \<noteq> []" "cstring (mm_m st)" "cstring (mm_n st)"
    and "deref (mm_m st) \<noteq> CHR ''*''"
  shows "head_tok (mm_m st) \<noteq> GStar" "mm_compare st =
    (if head_tok (mm_n st) \<noteq> GStar
        \<and> (head_tok (mm_m st) = GAny \<or> head_tok (mm_m st) = head_tok (mm_n st))
     then MMNext (st\<lparr>mm_m := tail_of (mm_m st), mm_n := tail_of (mm_n st)\<rparr>)
     else if \<not> mm_wild st then MMReturn 1
     else (case mm_rewind st of None \<Rightarrow> MMOut | Some st' \<Rightarrow> MMNext st'))"
proof -
  define mq nq where "mq = is_escape (mm_m st)" and "nq = is_escape (mm_n st)"
  define m n where "m = (if mq then tl (mm_m st) else mm_m st)"
    and "n = (if nq then tl (mm_n st) else mm_n st)"
  have toks: "head_tok (mm_m st) = char_tok mq (deref m)" "head_tok (mm_n st) = char_tok nq (deref n)"
    using assms by (simp_all add: head_tok_chars char_tok_def mq_def nq_def m_def n_def Let_def)
  have tails: "tail_of (mm_m st) = tl m" "tail_of (mm_n st) = tl n"
    by (simp_all add: tail_of_def mq_def nq_def m_def n_def)
  have q: "mq \<longrightarrow> deref m = CHR ''*'' \<or> deref m = CHR ''?''"
      "nq \<longrightarrow> deref n = CHR ''*'' \<or> deref n = CHR ''?''"
      "\<not> mq \<longrightarrow> deref m \<noteq> CHR ''*''"
    using assms(5) by (auto simp: mq_def nq_def m_def n_def is_escape_def)
  show "head_tok (mm_m st) \<noteq> GStar" using q(3) by (auto simp: toks char_tok_def)
  show "mm_compare st =
    (if head_tok (mm_n st) \<noteq> GStar
        \<and> (head_tok (mm_m st) = GAny \<or> head_tok (mm_m st) = head_tok (mm_n st))
     then MMNext (st\<lparr>mm_m := tail_of (mm_m st), mm_n := tail_of (mm_n st)\<rparr>)
     else if \<not> mm_wild st then MMReturn 1
     else (case mm_rewind st of None \<Rightarrow> MMOut | Some st' \<Rightarrow> MMNext st'))"
    unfolding mm_compare_def Let_def mq_def [symmetric] nq_def [symmetric]
      m_def [symmetric] n_def [symmetric] compare_condition [OF q] toks tails ..
qed

lemma compare_ok:
  assumes inv: "mm_inv goal old new st" and ne: "mm_m st \<noteq> []" "mm_n st \<noteq> []"
    and "deref (mm_m st) \<noteq> CHR ''*''"
  shows "step_ok goal old new st (mm_compare st)"
proof -
  have c: "cstring (mm_m st)" "cstring (mm_n st)" using inv by (simp_all add: mm_inv_def)
  note ct = compare_tokens [OF ne c assms(4)]
  show ?thesis
  proof (cases "head_tok (mm_n st) \<noteq> GStar
      \<and> (head_tok (mm_m st) = GAny \<or> head_tok (mm_m st) = head_tok (mm_n st))")
    case True
    with advance_ok [OF inv ne ct(1)] show ?thesis unfolding ct(2) if_P [OF True] by blast
  next
    case False
    from mismatch_ok [OF inv ne(2)] show ?thesis unfolding ct(2) if_not_P [OF False] .
  qed
qed

text \<open>After a rewind the mask may be used up; its NUL only equals a NUL.\<close>

lemma compare_ok_end:
  assumes inv: "mm_inv goal old new st" and "mm_m st = []" and w: "mm_wild st"
  shows "if mm_n st = [] then mm_compare st = MMNext st
         else step_ok goal old new st (mm_compare st)"
proof (cases "mm_n st")
  case Nil
  then show ?thesis using assms by (simp add: mm_compare_def is_escape_def)
next
  case (Cons c n)
  define q where "q = is_escape (mm_n st)"
  define d where "d = deref (if q then tl (mm_n st) else mm_n st)"
  have "d \<noteq> NUL"
    using inv Cons by (auto simp: d_def q_def is_escape_def mm_inv_def)
  then have "ToLower NUL \<noteq> ToLower d" using ToLower_eq_NUL [of d] by simp
  moreover have "\<not> is_escape []" by (simp add: is_escape_def)
  ultimately have "mm_compare st = (case mm_rewind st of None \<Rightarrow> MMOut | Some st' \<Rightarrow> MMNext st')"
    using assms unfolding mm_compare_def Let_def q_def [symmetric] d_def [symmetric] by simp
  with mismatch_ok [OF inv] w Cons show ?thesis by simp
qed

lemma step_ok_mono:
  "step_ok goal old new st' r \<Longrightarrow> mm_measure old new st' \<le> mm_measure old new st
     \<Longrightarrow> step_ok goal old new st r"
  by (auto simp: step_ok_def split: mm_outcome.splits)

lemma fallthrough_ok:
  assumes inv: "mm_inv goal old new st" and m: "mm_m st = []" and n: "mm_n st \<noteq> []"
    and w: "mm_wild st"
  shows "step_ok goal old new st
    (case mm_rewind st of None \<Rightarrow> MMOut | Some st' \<Rightarrow> mm_compare st')"
proof -
  have "mm_na st \<noteq> []" using inv n by (auto simp: mm_inv_def)
  from mm_rewind_inv [OF inv w this] obtain st' where rew: "mm_rewind st = Some st'"
    and inv': "mm_inv goal old new st'" and less: "mm_measure old new st' < mm_measure old new st"
    and w': "mm_wild st'" and st': "mm_m st' = mm_ma st" "mm_n st' = tail_of (mm_na st)" .
  have "step_ok goal old new st (mm_compare st')"
  proof (cases "mm_ma st = []")
    case True
    with st' have m': "mm_m st' = []" by simp
    show ?thesis
    proof (cases "mm_n st' = []")
      case True
      with compare_ok_end [OF inv' m' w'] inv' less show ?thesis by (simp add: step_ok_def)
    next
      case False
      with compare_ok_end [OF inv' m' w'] have "step_ok goal old new st' (mm_compare st')"
        by simp
      with less show ?thesis by (blast intro: step_ok_mono less_imp_le)
    qed
  next
    case False
    from inv w m obtain ts where ts: "mask_tokens (mm_na st) = ts @ mask_tokens (mm_n st)"
      "length (mask_tokens (mm_ma st)) = length ts"
      by (auto simp: mm_inv_def)
    have "2 \<le> length (mask_tokens (mm_na st))"
    proof -
      have "0 < length ts" using False ts(2) by (metis length_greater_0_conv mask_tokens_Nil)
      moreover have "0 < length (mask_tokens (mm_n st))" using n by simp
      ultimately show ?thesis unfolding ts(1) length_append by linarith
    qed
    with mask_tokens_head [OF \<open>mm_na st \<noteq> []\<close>] have "mm_n st' \<noteq> []"
      unfolding st' by (cases "tail_of (mm_na st)") auto
    moreover have "deref (mm_m st') \<noteq> CHR ''*''" using inv w st' by (simp add: mm_inv_def)
    ultimately have "step_ok goal old new st' (mm_compare st')"
      using compare_ok [OF inv'] False st' by simp
    with less show ?thesis by (blast intro: step_ok_mono less_imp_le)
  qed
  with rew show ?thesis by simp
qed

lemma last_star_unique:
  assumes "pre' @ GStar # us = pre @ GStar # vs" "GStar \<notin> set us" "GStar \<notin> set vs"
  shows "us = vs"
  using assms
proof (induction pre' arbitrary: pre)
  case Nil
  then show ?case by (cases pre) auto
next
  case (Cons p pre')
  then show ?case by (cases pre) auto
qed

text \<open>The special case of the source: the mask ends in a star and question marks.\<close>

lemma trailing_star_goal:
  assumes inv: "mm_inv goal old new st" and m: "mm_m st = []"
    and ts: "trailing_star old = Some True"
  shows goal
proof -
  obtain pre k where pre: "mask_tokens old = pre @ GStar # replicate k GAny"
    using trailing_star_tokens [OF ts] .
  have w: "mm_wild st"
  proof (rule ccontr)
    assume "\<not> mm_wild st"
    with inv m have "GStar \<notin> set (mask_tokens old)" by (auto simp: mm_inv_def)
    with pre show False by simp
  qed
  from inv w m obtain us ts where us: "mask_tokens (mm_ma st) = us"
      "mask_tokens (mm_na st) = ts @ mask_tokens (mm_n st)" "length us = length ts"
      "GStar \<notin> set us" "GStar \<notin> set ts"
    by (auto simp: mm_inv_def)
  from inv w obtain pre' where "mask_tokens old = pre' @ GStar # mask_tokens (mm_ma st)"
    by (auto simp: mm_inv_def)
  with pre us(1) have "pre' @ GStar # us = pre @ GStar # replicate k GAny" by simp
  then have "us = replicate k GAny" by (rule last_star_unique) (use us(4) in simp_all)
  with us have "subsumes (GStar # mask_tokens (mm_ma st)) (mask_tokens (mm_na st))"
    using subsumes_star_anys [OF us(5), of k] by simp
  with inv w show goal by (simp add: mm_inv_def)
qed

lemma mm_step_ok:
  assumes "mm_inv goal old new st"
  shows "step_ok goal old new st (mm_step old st)"
proof -
  let ?st = "mm_star st"
  note star = mm_star_inv [OF assms]
  have "step_ok goal old new ?st (mm_step old st)"
  proof (cases "mm_m ?st = []")
    case m: True
    show ?thesis
    proof (cases "mm_n ?st = []")
      case True
      with m star(1) show ?thesis by (simp add: mm_step_def step_ok_def mm_inv_def)
    next
      case n: False
      show ?thesis
      proof (cases "trailing_star old")
        case None
        then have "old = []" by (auto simp: trailing_star_def Let_def split: if_splits)
        with m n None show ?thesis by (simp add: mm_step_def step_ok_def)
      next
        case (Some b)
        with m n star(1) trailing_star_goal [OF star(1) m] fallthrough_ok [OF star(1) m n]
        show ?thesis
          by (cases b; cases "mm_wild ?st") (simp_all add: mm_step_def step_ok_def)
      qed
    qed
  next
    case m: False
    show ?thesis
    proof (cases "mm_n ?st = []")
      case True
      moreover have "dropWhile (\<lambda>c. c = CHR ''*'') (mm_m ?st) = mm_m ?st"
        using star(2) m by (cases "mm_m ?st") auto
      ultimately show ?thesis using m by (simp add: mm_step_def step_ok_def)
    next
      case False
      with m compare_ok [OF star(1) m False star(2)] show ?thesis by (simp add: mm_step_def)
    qed
  qed
  with star(3) show ?thesis by (rule step_ok_mono [rotated])
qed

lemma mm_loop_ok:
  "mm_inv goal old new st \<Longrightarrow> mm_measure old new st < fuel \<Longrightarrow>
     (old \<noteq> [] \<longrightarrow> mm_loop fuel old st \<noteq> None) \<and> (mm_loop fuel old st = Some 0 \<longrightarrow> goal)"
proof (induction fuel arbitrary: st)
  case (Suc fuel)
  note ok = mm_step_ok [OF Suc.prems(1)]
  show ?case
  proof (cases "mm_step old st")
    case (MMNext st')
    with ok have "mm_inv goal old new st'" "mm_measure old new st' < mm_measure old new st"
      by (simp_all add: step_ok_def)
    with Suc.prems(2) have "(old \<noteq> [] \<longrightarrow> mm_loop fuel old st' \<noteq> None)
        \<and> (mm_loop fuel old st' = Some 0 \<longrightarrow> goal)"
      by (intro Suc.IH) simp_all
    with MMNext show ?thesis by simp
  qed (use ok in \<open>simp_all add: step_ok_def\<close>)
qed simp

lemma mm_init_inv:
  assumes "cstring old" "cstring new"
  shows "mm_inv (subsumes (mask_tokens old) (mask_tokens new)) old new
    \<lparr>mm_m = old, mm_n = new, mm_ma = old, mm_na = new, mm_wild = False\<rparr>"
  using assms by (simp add: mm_inv_def)

lemma mmatch_ok:
  assumes "cstring old" "cstring new"
  shows "old \<noteq> [] \<longrightarrow> mmatch old new \<noteq> None"
    and "mmatch old new = Some 0 \<longrightarrow> subsumes (mask_tokens old) (mask_tokens new)"
proof -
  have "mm_measure old new
    \<lparr>mm_m = old, mm_n = new, mm_ma = old, mm_na = new, mm_wild = False\<rparr> < mm_fuel old new"
    by (simp add: mm_measure_def mm_fuel_def)
  from mm_loop_ok [OF mm_init_inv [OF assms] this]
  show "old \<noteq> [] \<longrightarrow> mmatch old new \<noteq> None"
    and "mmatch old new = Some 0 \<longrightarrow> subsumes (mask_tokens old) (mask_tokens new)"
    by (auto simp: mmatch_def)
qed

section \<open>Results\<close>

text \<open>
  C27: for a nonempty first mask \<open>mmatch\<close> returns, never reads outside the masks, and an
  answer of 0 means that every string the second mask matches is matched by the first.
\<close>

theorem mmatch_sound:
  assumes "cstring old" "cstring new"
  shows "(old \<noteq> [] \<longrightarrow> mmatch old new \<noteq> None)
    \<and> (mmatch old new = Some 0 \<longrightarrow> (\<forall>s. mask_matches new s \<longrightarrow> mask_matches old s))"
  using mmatch_ok [OF assms] by (simp add: subsumes_def mask_matches_def)

lemma mmatch_sound_witness:
  "mmatch ''n*@h'' ''nick*@h'' = Some 0 \<and> mask_matches ''n*@h'' ''nick!u@h''"
proof -
  have "mmatch ''n*@h'' ''nick*@h'' = Some 0" by code_simp
  moreover have "mask_matches ''nick*@h'' ''nick!u@h''" by code_simp
  moreover have "cstring ''n*@h''" "cstring ''nick*@h''" by (simp_all add: cstring_def)
  ultimately show ?thesis using mmatch_sound [of "''n*@h''" "''nick*@h''"] by blast
qed

text \<open>
  With an empty first mask and a nonempty second one the loop leaves the first mask at
  its end, and the search for a trailing star starts one character before its start.
\<close>

lemma mmatch_empty_mask_reads_before_start:
  assumes "cstring new" "new \<noteq> []"
  shows "mm_step [] \<lparr>mm_m = [], mm_n = new, mm_ma = [], mm_na = new, mm_wild = False\<rparr> = MMOut"
  using assms by (simp add: mm_step_def mm_star_def trailing_star_def)

lemma mmatch_empty_mask_reads_before_start_witness:
  "mm_step [] \<lparr>mm_m = [], mm_n = ''a'', mm_ma = [], mm_na = ''a'', mm_wild = False\<rparr> = MMOut"
  by (rule mmatch_empty_mask_reads_before_start) (simp_all add: cstring_def)

section \<open>The interface the ban code uses\<close>

text \<open>
  A client matches strings with \<open>matches\<close> (\<open>match2strings\<close>) and compares masks with
  \<open>covers\<close> (\<open>match2patterns\<close>); what it relies on is that a positive comparison is right.
\<close>

locale mask_matcher =
  fixes matches :: "string \<Rightarrow> string \<Rightarrow> bool"
    and covers :: "string \<Rightarrow> string \<Rightarrow> bool option"
  assumes covers_sound:
    "covers a b = Some True \<Longrightarrow> cstring a \<Longrightarrow> cstring b \<Longrightarrow> cstring s \<Longrightarrow> matches b s \<Longrightarrow> matches a s"
begin

lemma covers_trans:
  assumes "covers a b = Some True" "covers b c = Some True" "cstring a" "cstring b" "cstring c"
    "cstring s" "matches c s"
  shows "matches a s"
  using assms by (meson covers_sound)

text \<open>A list of masks loses nothing when the masks a member covers are dropped.\<close>

definition without_covered :: "string \<Rightarrow> string list \<Rightarrow> string list" where
  "without_covered a ms = filter (\<lambda>m. covers a m \<noteq> Some True) ms"

lemma without_covered:
  assumes "cstring a" "\<forall>m \<in> set ms. cstring m" "cstring s"
  shows "(\<exists>m \<in> set (a # without_covered a ms). matches m s) \<longleftrightarrow> (\<exists>m \<in> set (a # ms). matches m s)"
  using assms covers_sound unfolding without_covered_def by (auto; blast)

end

lemma match2patterns_sound:
  assumes "match2patterns a b = Some True" "cstring a" "cstring b" "cstring s" "match2strings b s"
  shows "match2strings a s"
  using mmatch_ok(2) [OF assms(2,3)] assms
  by (auto simp: match2patterns_def match2strings_glob subsumes_def)

interpretation irc_masks: mask_matcher match2strings match2patterns
  by unfold_locales (rule match2patterns_sound)

end
