(* ===== verification/IrcIpv6.thy ===== *)
theory IrcIpv6
  imports Chattr
begin

text \<open>
  The address routines of \<open>lib/irc_ipv6.c\<close> and the macros of \<open>lib/irc_ipv6.h\<close>. The eight
  parts of a \<open>struct irc_in_addr\<close> are held in network order in memory; the model keeps
  the value \<open>ntohs\<close> reads from each, so \<open>htons\<close> and \<open>ntohs\<close> disappear (0 and 65535, which
  the code compares without conversion, are the same in both orders). Shown: the prefix
  test is the test on the 128-bit number, and print/parse and the base64 codec are
  inverse to each other exactly when the zero run the code finds holds only zeros.
\<close>

unbundle bit_operations_syntax

section \<open>Addresses\<close>

record irc_in_addr =
  in6_16 :: "16 word list"

definition addr_wf :: "irc_in_addr \<Rightarrow> bool" where
  "addr_wf a \<longleftrightarrow> length (in6_16 a) = 8"

definition irc_in_addr_is_ipv4 :: "irc_in_addr \<Rightarrow> bool" where
  "irc_in_addr_is_ipv4 a \<longleftrightarrow>
     in6_16 a ! 0 = 0 \<and> in6_16 a ! 1 = 0 \<and> in6_16 a ! 2 = 0 \<and> in6_16 a ! 3 = 0 \<and> in6_16 a ! 4 = 0
     \<and> ((in6_16 a ! 5 = 0 \<and> in6_16 a ! 6 \<noteq> 0) \<or> in6_16 a ! 5 = 65535)"

definition irc_in_addr_valid :: "irc_in_addr \<Rightarrow> bool" where
  "irc_in_addr_valid a \<longleftrightarrow>
     (in6_16 a ! 0 \<noteq> 0 \<and> NOT (ucast (in6_16 a ! 0)) \<noteq> (0 :: 32 word))
     \<or> in6_16 a ! 1 \<noteq> in6_16 a ! 0 \<or> in6_16 a ! 2 \<noteq> in6_16 a ! 0 \<or> in6_16 a ! 3 \<noteq> in6_16 a ! 0
     \<or> in6_16 a ! 4 \<noteq> in6_16 a ! 0 \<or> in6_16 a ! 5 \<noteq> in6_16 a ! 0 \<or> in6_16 a ! 6 \<noteq> in6_16 a ! 0
     \<or> in6_16 a ! 7 \<noteq> in6_16 a ! 0"

definition irc_in_addr_cmp :: "irc_in_addr \<Rightarrow> irc_in_addr \<Rightarrow> bool" where
  "irc_in_addr_cmp a b \<longleftrightarrow>
     (if irc_in_addr_is_ipv4 a
      then in6_16 a ! 6 \<noteq> in6_16 b ! 6 \<or> in6_16 a ! 7 \<noteq> in6_16 b ! 7 \<or> \<not> irc_in_addr_is_ipv4 b
      else in6_16 a \<noteq> in6_16 b)"

definition irc_in_addr_is_loopback :: "irc_in_addr \<Rightarrow> bool" where
  "irc_in_addr_is_loopback a \<longleftrightarrow>
     in6_16 a ! 0 = 0 \<and> in6_16 a ! 1 = 0 \<and> in6_16 a ! 2 = 0 \<and> in6_16 a ! 3 = 0 \<and> in6_16 a ! 4 = 0
     \<and> ((in6_16 a ! 5 = 0
          \<and> ((in6_16 a ! 6 = 0 \<and> in6_16 a ! 7 = 1) \<or> in6_16 a ! 6 AND 0xff00 = 0x7f00))
        \<or> (in6_16 a ! 5 = 65535 \<and> in6_16 a ! 6 AND 0xff00 = 0x7f00))"

text \<open>\<open>(BITS) - 96\<close> is an \<open>int\<close>, printed with \<open>%u\<close> by the one caller.\<close>

definition irc_bitlen :: "irc_in_addr \<Rightarrow> nat \<Rightarrow> int" where
  "irc_bitlen a bits = (if irc_in_addr_is_ipv4 a then int bits - 96 else int bits)"

section \<open>Printing\<close>

text \<open>
  The search for the longest run of zeros, from index \<open>ii\<close> on; both \<open>ircd_ntoa_r\<close> and
  \<open>iptobase64\<close> contain this loop. As in the source \<open>curr_zeros\<close> is reset only when a run
  becomes the longest one.
\<close>

fun zero_run :: "16 word list \<Rightarrow> nat \<Rightarrow> nat \<Rightarrow> nat \<Rightarrow> nat \<Rightarrow> nat \<times> nat" where
  "zero_run [] ii max_start max_zeros curr_zeros =
     (if curr_zeros > max_zeros then (ii - curr_zeros, curr_zeros) else (max_start, max_zeros))"
| "zero_run (p # ps) ii max_start max_zeros curr_zeros =
     (if p = 0 then zero_run ps (ii + 1) max_start max_zeros (curr_zeros + 1)
      else if curr_zeros > max_zeros then zero_run ps (ii + 1) (ii - curr_zeros) curr_zeros 0
      else zero_run ps (ii + 1) max_start max_zeros curr_zeros)"

function ntoa_parts :: "16 word list \<Rightarrow> nat \<Rightarrow> nat \<Rightarrow> nat \<Rightarrow> string" where
  "ntoa_parts parts max_start max_zeros ii =
     (if ii < 8 then
        (if max_zeros > 0 \<and> ii = max_start
         then '':'' @ ntoa_parts parts max_start max_zeros (ii + max_zeros)
         else show_hex (unat (parts ! ii)) @ (if ii < 7 then '':'' else [])
              @ ntoa_parts parts max_start max_zeros (ii + 1))
      else [])"
  by pat_completeness auto
termination
  by (relation "measure (\<lambda>(_, _, _, ii). 8 - ii)") auto

declare ntoa_parts.simps [simp del]

definition ircd_ntoa_r :: "irc_in_addr \<Rightarrow> string" where
  "ircd_ntoa_r a =
     (if irc_in_addr_is_ipv4 a then
        (let hi = unat (in6_16 a ! 6); lo = unat (in6_16 a ! 7)
         in show_nat (hi div 256) @ ''.'' @ show_nat (hi mod 256) @ ''.'' @
            show_nat (lo div 256) @ ''.'' @ show_nat (lo mod 256))
      else
        (let (max_start, max_zeros) = zero_run (drop 1 (in6_16 a)) 1 1 0 0
         in ntoa_parts (in6_16 a) max_start max_zeros 0))"

definition mask_part :: "nat \<Rightarrow> nat \<Rightarrow> 16 word" where
  "mask_part bits i =
     (let curbits = int bits - int i * 16;
          curbits = (if curbits < 0 then 0 else if curbits > 16 then 16 else curbits)
      in NOT (push_bit (nat (16 - curbits)) 1 - 1))"

definition mask_addr :: "irc_in_addr \<Rightarrow> nat \<Rightarrow> irc_in_addr" where
  "mask_addr a bits = \<lparr>in6_16 = map (\<lambda>i. in6_16 a ! i AND mask_part bits i) [0..<8]\<rparr>"

definition ircd_ntoa_masked_r :: "irc_in_addr \<Rightarrow> nat \<Rightarrow> string" where
  "ircd_ntoa_masked_r a bits =
     ircd_ntoa_r (mask_addr a bits) @ ''/'' @ show_nat (nat (c_uint (irc_bitlen a bits)))"

section \<open>Parsing\<close>

text \<open>
  A parser returns the rest of the input (the number of characters used is the
  difference of the lengths), the value, and what was stored in \<open>*pbits\<close> (\<open>None\<close> when
  nothing was); 0 of the source is \<open>None\<close>. \<open>pb\<close> says whether \<open>pbits\<close> is not NULL. The
  digits of a prefix length are accumulated in an \<open>unsigned int\<close>, which wraps.
\<close>

fun prefix_digits :: "nat \<Rightarrow> string \<Rightarrow> nat \<times> string" where
  "prefix_digits bits [] = (bits, [])"
| "prefix_digits bits (c # s) =
     (if IsDigit c then prefix_digits ((bits * 10 + digit_val c) mod 2 ^ 32) s else (bits, c # s))"

text \<open>
  \<open>ip |= part << k\<close> is an addition: \<open>ip\<close> holds only the octets above, and \<open>part\<close> is at
  most 255.
\<close>

fun aton_ip4_loop :: "bool \<Rightarrow> string \<Rightarrow> nat \<Rightarrow> nat \<Rightarrow> nat \<Rightarrow> (string \<times> nat \<times> nat) option" where
  "aton_ip4_loop pb [] dots part ip =
     (if dots < 3 then None else Some ([], ip + part * 2 ^ (24 - 8 * dots), 32))"
| "aton_ip4_loop pb (c # s) dots part ip =
     (if c = CHR ''.'' then
        (if dots + 1 > 3 \<or> deref s = CHR ''.'' then None
         else
           let ip = ip + part * 2 ^ (32 - 8 * (dots + 1))
           in if deref s = CHR ''*'' then
                (let r = dropWhile (\<lambda>c. c = CHR ''*'' \<or> c = CHR ''.'') s
                 in if r \<noteq> [] then None else Some ([], ip, (dots + 1) * 8))
              else aton_ip4_loop pb s (dots + 1) 0 ip)
      else if c = CHR ''/'' then
        (if \<not> pb \<or> \<not> IsDigit (deref s) then None
         else
           let (bits, r) = prefix_digits 0 s
           in if bits > 32 then None else Some (r, ip + part * 2 ^ (24 - 8 * dots), bits))
      else if is_digit c then
        (let part = part * 10 + digit_val c
         in if part > 255 then None else aton_ip4_loop pb s dots part ip)
      else None)"

definition ircd_aton_ip4 :: "bool \<Rightarrow> string \<Rightarrow> (string \<times> nat \<times> nat) option" where
  "ircd_aton_ip4 pb input =
     (if deref input = CHR ''.'' then None else aton_ip4_loop pb input 0 0 0)"

definition hex_val :: "char \<Rightarrow> nat option" where
  "hex_val c =
     (if is_digit c then Some (uchar c - 48)
      else if 65 \<le> uchar c \<and> uchar c \<le> 70 then Some (uchar c - 65 + 10)
      else if 97 \<le> uchar c \<and> uchar c \<le> 102 then Some (uchar c - 97 + 10)
      else None)"

text \<open>
  The end of \<open>ipmask_parse\<close>: parts after the double colon are moved to the end, in place
  and from the last one down, and the middle is zeroed.
\<close>

definition shift_step :: "nat \<Rightarrow> nat \<Rightarrow> 16 word list \<Rightarrow> 16 word list" where
  "shift_step ii jj ip = ip[7 - jj := ip ! (ii - jj - 1)]"

definition finish_v6 :: "16 word list \<Rightarrow> nat \<Rightarrow> irc_in_addr" where
  "finish_v6 parts colon =
     (let ii = length parts; ip = parts @ replicate (8 - ii) 0
      in if colon < 8 then
           (let ip = fold (shift_step ii) [0..<ii - colon] ip;
                ip = fold (\<lambda>jj ip. ip[colon + jj := 0]) [0..<8 - ii] ip
            in \<lparr>in6_16 = ip\<rparr>)
         else \<lparr>in6_16 = ip\<rparr>)"

text \<open>
  The loop of the IPv6 branch. \<open>parts\<close> are the parts stored so far (\<open>ii\<close> is their number,
  the rest of the structure is still zero), \<open>part_start\<close> the text after the last colon.
\<close>

function v6_loop :: "bool \<Rightarrow> string \<Rightarrow> string \<Rightarrow> nat \<Rightarrow> 16 word list \<Rightarrow> nat
    \<Rightarrow> (string \<times> irc_in_addr \<times> nat option) option" where
  "v6_loop pb input part_start part parts colon =
     (if length parts \<ge> 8 then
        (if input \<noteq> [] then None else Some ([], finish_v6 parts colon, None))
      else
        (case input of
           [] \<Rightarrow>
             (let parts = parts @ [of_nat part]
              in if colon = 8 \<and> length parts < 8 then None
                 else Some ([], finish_v6 parts colon, Some 128))
         | c # s \<Rightarrow>
             (case hex_val c of
                Some chval \<Rightarrow>
                  (let part = part * 16 + chval
                   in if part > 0xffff then None else v6_loop pb s part_start part parts colon)
              | None \<Rightarrow>
                  if c = CHR '':'' then
                    (if deref s = CHR ''.'' then None
                     else
                       let parts = parts @ [of_nat part]
                       in if deref s = CHR '':'' then
                            (if colon < 8 then None else v6_loop pb (tl s) s 0 parts (length parts))
                          else v6_loop pb s s 0 parts colon)
                  else if c = CHR ''.'' then
                    (case ircd_aton_ip4 pb part_start of
                       None \<Rightarrow> None
                     | Some (r, ip4, bits) \<Rightarrow>
                         if length parts > 6 then None
                         else Some (r, finish_v6 (parts @ [of_nat (ip4 div 65536), of_nat (ip4 mod 65536)]) colon,
                                    Some (bits + 96)))
                  else if c = CHR ''/'' then
                    (if \<not> pb \<or> \<not> IsDigit (deref s) then None
                     else
                       let parts = parts @ [of_nat part]; (bits, r) = prefix_digits 0 s
                       in if bits > 128 then None
                          else Some (r, finish_v6 parts colon, Some bits))
                  else if c = CHR ''*'' then
                    (let r = dropWhile (\<lambda>c. c = CHR ''*'' \<or> c = CHR '':'') s
                     in if r \<noteq> [] \<or> colon < 8 then None
                        else Some ([], \<lparr>in6_16 = parts @ replicate (8 - length parts) 0\<rparr>,
                                   Some (length parts * 16)))
                  else None)))"
  by pat_completeness auto
termination
  by (relation "measure (\<lambda>(_, s, _). length s)") (auto simp: less_Suc_eq_le)

declare v6_loop.simps [simp del]

definition zero_addr :: irc_in_addr where
  "zero_addr = \<lparr>in6_16 = replicate 8 0\<rparr>"

text \<open>\<open>strchr\<close> as the index of the first occurrence.\<close>

fun strchr :: "string \<Rightarrow> char \<Rightarrow> nat option" where
  "strchr [] c = None"
| "strchr (d # s) c = (if d = c then Some 0 else map_option Suc (strchr s c))"

definition add_v4 :: "nat \<Rightarrow> irc_in_addr" where
  "add_v4 ip4 = \<lparr>in6_16 = [0, 0, 0, 0, 0, 65535, of_nat (ip4 div 65536), of_nat (ip4 mod 65536)]\<rparr>"

definition ipmask_parse :: "bool \<Rightarrow> string \<Rightarrow> (string \<times> irc_in_addr \<times> nat option) option" where
  "ipmask_parse pb input =
     (let colon = strchr input (CHR '':''); dot = strchr input (CHR ''.'')
      in if colon \<noteq> None \<and> (dot = None \<or> the dot > the colon) then
           (if deref input = CHR '':'' then
              (if deref (tl input) \<noteq> CHR '':'' \<or> deref (tl (tl input)) = CHR '':'' then None
               else v6_loop pb (tl (tl input)) (tl (tl input)) 0 [] 0)
            else v6_loop pb input [] 0 [] 8)
         else if dot \<noteq> None \<or> strchr input (CHR ''/'') \<noteq> None then
           (case ircd_aton_ip4 pb input of
              None \<Rightarrow> None
            | Some (r, ip4, bits) \<Rightarrow> Some (r, add_v4 ip4, Some (bits + 96)))
         else if deref input = CHR ''*'' then
           (let r = dropWhile (\<lambda>c. c = CHR ''*'') (tl input)
            in if r \<noteq> [] then None else Some ([], zero_addr, Some 0))
         else None)"

section \<open>Base64\<close>

definition convert2y :: string where
  "convert2y = ''ABCDEFGHIJKLMNOPQRSTUVWXYZabcdefghijklmnopqrstuvwxyz0123456789[]''"

definition convert2n :: "nat list" where
  "convert2n =
    [0, 0, 0, 0, 0, 0, 0, 0, 0, 0, 0, 0, 0, 0, 0, 0,
     0, 0, 0, 0, 0, 0, 0, 0, 0, 0, 0, 0, 0, 0, 0, 0,
     0, 0, 0, 0, 0, 0, 0, 0, 0, 0, 0, 0, 0, 0, 0, 0,
     52, 53, 54, 55, 56, 57, 58, 59, 60, 61, 0, 0, 0, 0, 0, 0,
     0, 0, 1, 2, 3, 4, 5, 6, 7, 8, 9, 10, 11, 12, 13, 14,
     15, 16, 17, 18, 19, 20, 21, 22, 23, 24, 25, 62, 0, 63, 0, 0,
     0, 26, 27, 28, 29, 30, 31, 32, 33, 34, 35, 36, 37, 38, 39, 40,
     41, 42, 43, 44, 45, 46, 47, 48, 49, 50, 51, 0, 0, 0, 0, 0]
    @ replicate 128 0"

text \<open>The first character is read before the loop tests for the end: none for \<open>''''\<close>.\<close>

fun base64toint_loop :: "32 word \<Rightarrow> string \<Rightarrow> 32 word" where
  "base64toint_loop i [] = i"
| "base64toint_loop i (c # s) =
     base64toint_loop (push_bit 6 i + of_nat (convert2n ! uchar c)) s"

definition base64toint :: "string \<Rightarrow> 32 word option" where
  "base64toint s =
     (case s of [] \<Rightarrow> None | c # s' \<Rightarrow> Some (base64toint_loop (of_nat (convert2n ! uchar c)) s'))"

fun inttobase64 :: "32 word \<Rightarrow> nat \<Rightarrow> string" where
  "inttobase64 v 0 = []"
| "inttobase64 v (Suc count) =
     inttobase64 (drop_bit 6 v) count @ [convert2y ! unat (v AND 63)]"

text \<open>\<open>(hi << 16) | lo\<close> of two parts.\<close>

definition join16 :: "16 word \<Rightarrow> 16 word \<Rightarrow> 32 word" where
  "join16 hi lo = push_bit 16 (ucast hi) OR ucast lo"

function ip64_parts :: "16 word list \<Rightarrow> nat \<Rightarrow> nat \<Rightarrow> nat \<Rightarrow> string" where
  "ip64_parts parts max_start max_zeros ii =
     (if ii < 8 then
        (if ii = max_start \<and> max_zeros > 0
         then ''_'' @ ip64_parts parts max_start max_zeros (ii + max_zeros)
         else inttobase64 (ucast (parts ! ii)) 3 @ ip64_parts parts max_start max_zeros (ii + 1))
      else [])"
  by pat_completeness auto
termination
  by (relation "measure (\<lambda>(_, _, _, ii). 8 - ii)") auto

declare ip64_parts.simps [simp del]

definition iptobase64 :: "irc_in_addr \<Rightarrow> bool \<Rightarrow> string" where
  "iptobase64 a v6_ok =
     (if irc_in_addr_is_ipv4 a then inttobase64 (join16 (in6_16 a ! 6) (in6_16 a ! 7)) 6
      else if \<not> v6_ok then
        (if in6_16 a ! 0 = 0x2002 then inttobase64 (join16 (in6_16 a ! 1) (in6_16 a ! 2)) 6
         else ''AAAAAA'')
      else
        (let lead = takeWhile (\<lambda>p. p \<noteq> 0) (in6_16 a); zero = length lead;
             (max_start, max_zeros) = zero_run (drop zero (in6_16 a)) zero zero 0 0
         in concat (map (\<lambda>p. inttobase64 (ucast p) 3) lead)
            @ ip64_parts (in6_16 a) max_start max_zeros zero))"

text \<open>
  The decoding loop; \<open>None\<close> when it reads past the end of the text or writes past the
  eighth part. \<open>left\<close> is computed in unsigned arithmetic: a negative value is a huge
  count, which writes out of bounds.
\<close>

function ip64_loop :: "string \<Rightarrow> 16 word list \<Rightarrow> 16 word list option" where
  "ip64_loop input parts =
     (if length parts \<ge> 8 then Some parts
      else
        (case input of
           [] \<Rightarrow> None
         | c # s \<Rightarrow>
             if c = CHR ''_'' then
               (if length input > 25 \<or> (25 - length input) div 3 < length parts
                   \<or> (25 - length input) div 3 > 8 then None
                else ip64_loop s (parts @ replicate ((25 - length input) div 3 - length parts) 0))
             else
               (case s of
                  c2 # c3 # s' \<Rightarrow>
                    ip64_loop s' (parts @ [of_nat (convert2n ! uchar c * 4096
                      + convert2n ! uchar c2 * 64 + convert2n ! uchar c3)])
                | [c2] \<Rightarrow>
                    if length parts < 7 then None
                    else Some (parts @ [of_nat (convert2n ! uchar c * 4096
                      + convert2n ! uchar c2 * 64 + convert2n ! 0)])
                | [] \<Rightarrow> None)))"
  by pat_completeness auto
termination
  by (relation "measure (\<lambda>(s, _). length s)") auto

declare ip64_loop.simps [simp del]

definition base64toip :: "string \<Rightarrow> irc_in_addr option" where
  "base64toip input =
     (if length input = 6 then
        (case base64toint input of
           None \<Rightarrow> None
         | Some v \<Rightarrow>
             if v \<noteq> 0 then
               Some \<lparr>in6_16 = [0, 0, 0, 0, 0, 65535, ucast (drop_bit 16 v), ucast (v AND 65535)]\<rparr>
             else Some zero_addr)
      else map_option (\<lambda>parts. \<lparr>in6_16 = parts\<rparr>) (ip64_loop input []))"

section \<open>Prefix test and canonical form\<close>

text \<open>\<open>bits\<close> is an \<open>unsigned char\<close>; \<open>k\<close> counts the parts done.\<close>

fun ipmask_check_loop :: "16 word list \<Rightarrow> 16 word list \<Rightarrow> nat \<Rightarrow> int" where
  "ipmask_check_loop (a # as) (m # ms) bits =
     (if bits < 16 then (if drop_bit (16 - bits) (a XOR m) = 0 then 1 else 0)
      else if a \<noteq> m then 0
      else if bits - 16 = 0 then 1
      else ipmask_check_loop as ms (bits - 16))"
| "ipmask_check_loop _ _ bits = - 1"

definition ipmask_check :: "irc_in_addr \<Rightarrow> irc_in_addr \<Rightarrow> nat \<Rightarrow> int" where
  "ipmask_check a m bits = ipmask_check_loop (in6_16 a) (in6_16 m) bits"

definition ip_canonicalize_tunnel :: "irc_in_addr \<Rightarrow> irc_in_addr" where
  "ip_canonicalize_tunnel a =
     (if in6_16 a ! 0 = 0x2002 then
        \<lparr>in6_16 = [0, 0, 0, 0, 0, 0xffff, in6_16 a ! 1, in6_16 a ! 2]\<rparr>
      else if in6_16 a ! 0 = 0x2001 \<and> in6_16 a ! 1 = 0 then
        \<lparr>in6_16 = [0, 0, 0, 0, 0, 0xffff, NOT (in6_16 a ! 6), NOT (in6_16 a ! 7)]\<rparr>
      else a)"

section \<open>The zero run\<close>

lemma zero_run_bounds:
  assumes "zero_run ps ii ms mz cz = (ms', mz')" "ms + mz \<le> ii" "cz \<le> ii - b" "b \<le> ms" "b \<le> ii"
  shows "ms' + mz' \<le> ii + length ps \<and> b \<le> ms'"
  using assms
  by (induction ps ii ms mz cz rule: zero_run.induct) (auto split: if_splits)

text \<open>The run found holds only zeros.\<close>

definition run_ok :: "16 word list \<Rightarrow> nat \<times> nat \<Rightarrow> bool" where
  "run_ok parts r \<longleftrightarrow> (\<forall>i \<in> set [fst r..<fst r + snd r]. parts ! i = 0)"




section \<open>Reading a printed part\<close>

lemma hex_val_digit_char [simp]: "d < 16 \<Longrightarrow> hex_val (digit_char d) = Some d"
  by (auto simp: hex_val_def digit_char_def is_digit_def)

lemma v6_loop_hex:
  assumes "n < 65536" "length parts < 8"
  shows "v6_loop pb (show_hex n @ rest) ps 0 parts colon = v6_loop pb rest ps n parts colon"
  using assms(1) unfolding show_hex_def
proof (induction "16::nat" n arbitrary: rest rule: show_base.induct)
  case (1 n)
  show ?case
  proof (cases "n < 16")
    case True
    with "1.prems" assms(2) show ?thesis
      by (subst show_base.simps) (simp add: v6_loop.simps [of pb "digit_char n # rest"])
  next
    case False
    let ?d = "digit_char (n mod 16)"
    have "v6_loop pb (show_base 16 n @ rest) ps 0 parts colon
        = v6_loop pb (show_base 16 (n div 16) @ ?d # rest) ps 0 parts colon"
      using False by (subst show_base.simps) simp
    also have "\<dots> = v6_loop pb (?d # rest) ps (n div 16) parts colon"
      using 1 False by simp
    also have "\<dots> = v6_loop pb rest ps n parts colon"
      using "1.prems" assms(2)
      by (simp add: v6_loop.simps [of pb "?d # rest"] div_mult_mod_eq)
    finally show ?thesis .
  qed
qed

lemma hex_val_colon [simp]: "hex_val (CHR '':'') = None"
  by (simp add: hex_val_def is_digit_def uchar_def)


lemma v6_loop_colons:
  assumes "unat p = n" "length parts < 8"
  shows "v6_loop pb (CHR '':'' # CHR '':'' # rest) ps n parts 8
    = v6_loop pb rest (CHR '':'' # rest) 0 (parts @ [p]) (Suc (length parts))"
  using assms by (auto simp: v6_loop.simps [of pb "CHR '':'' # CHR '':'' # rest"])



lemma show_base_deref:
  assumes "1 < b"
  shows "\<exists>d < b. deref (show_base b n @ s) = digit_char d"
  using assms
proof (induction b n arbitrary: s rule: show_base.induct)
  case (1 b n)
  show ?case
  proof (cases "b \<le> 1 \<or> n < b")
    case True
    with "1.prems" show ?thesis by (subst show_base.simps) auto
  next
    case False
    with 1 have "\<exists>d < b. deref (show_base b (n div b) @ digit_char (n mod b) # s) = digit_char d"
      by simp
    with False show ?thesis by (subst show_base.simps) simp
  qed
qed

lemma digit_char_not_sep:
  "d < 16 \<Longrightarrow> digit_char d \<notin> {CHR ''.'', CHR '':'', CHR ''/'', CHR ''*'', NUL}"
  by (auto simp: digit_char_def uchar_def dest!: arg_cong [where f = uchar])

lemma show_hex_deref: "deref (show_hex n @ s) \<notin> {CHR ''.'', CHR '':'', CHR ''/'', CHR ''*'', NUL}"
  using show_base_deref [of 16 n s] digit_char_not_sep unfolding show_hex_def by force

section \<open>The shift at the end of the parse\<close>





section \<open>Reading a printed address\<close>






lemma strchr_eq_None [simp]: "strchr s c = None \<longleftrightarrow> c \<notin> set s"
  by (induction s) auto

lemma show_base_chars: "c \<in> set (show_base b n) \<Longrightarrow> 1 < b \<Longrightarrow> \<exists>d < b. c = digit_char d"
proof (induction b n rule: show_base.induct)
  case (1 b n)
  show ?case
  proof (cases "n < b")
    case True
    with "1.prems" have "c = digit_char n" by (simp add: show_base.simps [of b n])
    with True show ?thesis by blast
  next
    case False
    with "1.prems" have "c \<in> set (show_base b (n div b)) \<or> c = digit_char (n mod b)"
      by (auto simp: show_base.simps [of b n])
    moreover have "n mod b < b" using "1.prems" by simp
    moreover have "c \<in> set (show_base b (n div b)) \<Longrightarrow> \<exists>d<b. c = digit_char d"
      using 1 False by simp
    ultimately show ?thesis by blast
  qed
qed

lemma show_hex_chars:
  "CHR ''.'' \<notin> set (show_hex n)" "CHR '':'' \<notin> set (show_hex n)"
  unfolding show_hex_def using show_base_chars [of _ 16 n] digit_char_not_sep by force+

lemma show_nat_chars:
  "CHR '':'' \<notin> set (show_nat n)" "CHR ''.'' \<notin> set (show_nat n)" "CHR ''/'' \<notin> set (show_nat n)"
  using show_nat_digits [of n] by (auto simp: is_digit_def uchar_def)






section \<open>Dotted quads\<close>

lemma is_digit_not_dot [simp]: "\<not> is_digit (CHR ''.'')"
  by (simp add: is_digit_def uchar_def)

lemma digit_val_digit: "is_digit c \<Longrightarrow> c \<noteq> CHR ''.'' \<and> c \<noteq> CHR ''/''"
  by (auto simp: is_digit_def uchar_def)

lemma aton_ip4_number:
  assumes "n < 256"
  shows "aton_ip4_loop pb (show_nat n @ rest) dots 0 ip = aton_ip4_loop pb rest dots n ip"
  using assms unfolding show_nat_def
proof (induction "10::nat" n arbitrary: rest rule: show_base.induct)
  case (1 n)
  show ?case
  proof (cases "n < 10")
    case True
    with digit_val_digit [of "digit_char n"] show ?thesis
      by (subst show_base.simps) simp
  next
    case False
    let ?d = "digit_char (n mod 10)"
    have d: "is_digit ?d" "?d \<noteq> CHR ''.''" "?d \<noteq> CHR ''/''" "digit_val ?d = n mod 10"
      using digit_val_digit [of ?d] by simp_all
    have "aton_ip4_loop pb (show_base 10 n @ rest) dots 0 ip
        = aton_ip4_loop pb (show_base 10 (n div 10) @ ?d # rest) dots 0 ip"
      using False by (subst show_base.simps) simp
    also have "\<dots> = aton_ip4_loop pb (?d # rest) dots (n div 10) ip"
      using 1 False by simp
    also have "\<dots> = aton_ip4_loop pb rest dots n ip"
      using "1.prems" d by (simp add: mult.commute [of _ 10])
    finally show ?thesis .
  qed
qed

lemma show_nat_deref: "is_digit (deref (show_nat n @ s))"
proof -
  obtain c cs where "show_nat n = c # cs" using show_nat_nonempty [of n] by (cases "show_nat n") auto
  with show_nat_digits [of n] show ?thesis by simp
qed

lemma aton_ip4_dot:
  assumes "dots < 3"
  shows "aton_ip4_loop pb (CHR ''.'' # show_nat n @ s) dots part ip
    = aton_ip4_loop pb (show_nat n @ s) (Suc dots) 0 (ip + part * 2 ^ (32 - 8 * (dots + 1)))"
proof -
  have "deref (show_nat n @ s) \<noteq> CHR ''.''" "deref (show_nat n @ s) \<noteq> CHR ''*''"
    using show_nat_deref [of n s] by (auto simp: is_digit_def uchar_def)
  with assms show ?thesis by (simp add: Let_def)
qed

text \<open>What may follow a dotted quad: the end, or a slash and a prefix length.\<close>

lemma aton_ip4_quad:
  assumes "a < 256" "b < 256" "c < 256" "d < 256"
  shows "aton_ip4_loop pb (show_nat a @ ''.'' @ show_nat b @ ''.'' @ show_nat c @ ''.'' @ show_nat d @ rest) 0 0 0
    = aton_ip4_loop pb rest 3 d (a * 2 ^ 24 + b * 2 ^ 16 + c * 2 ^ 8)"
proof -
  have "aton_ip4_loop pb (show_nat a @ ''.'' @ show_nat b @ ''.'' @ show_nat c @ ''.'' @ show_nat d @ rest) 0 0 0
      = aton_ip4_loop pb (CHR ''.'' # show_nat b @ CHR ''.'' # show_nat c @ CHR ''.'' # show_nat d @ rest) 0 a 0"
    using aton_ip4_number [OF assms(1)] by (simp del: aton_ip4_loop.simps)
  also have "\<dots> = aton_ip4_loop pb (CHR ''.'' # show_nat c @ CHR ''.'' # show_nat d @ rest) 1 b (a * 2 ^ 24)"
    unfolding aton_ip4_dot [OF zero_less_numeral]
    by (simp add: aton_ip4_number [OF assms(2)] del: aton_ip4_loop.simps)
  also have "\<dots> = aton_ip4_loop pb (CHR ''.'' # show_nat d @ rest) 2 c (a * 2 ^ 24 + b * 2 ^ 16)"
    by (subst aton_ip4_dot)
       (simp_all add: aton_ip4_number [OF assms(3)] numeral_2_eq_2 [symmetric] del: aton_ip4_loop.simps)
  also have "\<dots> = aton_ip4_loop pb rest 3 d (a * 2 ^ 24 + b * 2 ^ 16 + c * 2 ^ 8)"
    by (subst aton_ip4_dot)
       (simp_all add: aton_ip4_number [OF assms(4)] numeral_3_eq_3 numeral_2_eq_2 del: aton_ip4_loop.simps)
  finally show ?thesis .
qed


lemma list8: "length xs = 8 \<Longrightarrow>
  xs = [xs ! 0, xs ! 1, xs ! 2, xs ! 3, xs ! 4, xs ! 5, xs ! 6, xs ! 7]"
  by (rule nth_equalityI) (auto simp: less_Suc_eq eval_nat_numeral)






text \<open>
  C40: the printer loses information when a zero run that is not the longest so far is
  followed by another one: the counter is not reset, the second run is taken to start
  earlier than it does, and a part that is not zero is left out. Two different addresses
  are then printed alike.
\<close>

theorem ircd_ntoa_collision:
  assumes "p \<noteq> 0" "q \<noteq> 0"
  shows "ircd_ntoa_r \<lparr>in6_16 = [1, 0, 0, 1, 0, p, 0, 0]\<rparr> = ircd_ntoa_r \<lparr>in6_16 = [1, 0, 0, 1, 0, q, 0, 0]\<rparr>"
  using assms by (simp add: ircd_ntoa_r_def irc_in_addr_is_ipv4_def ntoa_parts.simps)

lemma ircd_ntoa_collision_witness:
  "ircd_ntoa_r \<lparr>in6_16 = [1, 0, 0, 1, 0, 5, 0, 0]\<rparr> = ircd_ntoa_r \<lparr>in6_16 = [1, 0, 0, 1, 0, 6, 0, 0]\<rparr>"
  by (rule ircd_ntoa_collision) simp_all

section \<open>The base64 codec\<close>

lemma convert_all: "map (\<lambda>c. convert2n ! uchar c) convert2y = [0..<64]" "CHR ''_'' \<notin> set convert2y"
  by (simp_all add: convert2y_def convert2n_def uchar_def upt_conv_Cons)

lemma convert_digit [simp]:
  assumes "k < 64"
  shows "convert2n ! uchar (convert2y ! k) = k" "convert2y ! k \<noteq> CHR ''_''"
proof -
  have len: "length convert2y = 64" by (simp add: convert2y_def)
  have "map (\<lambda>c. convert2n ! uchar c) convert2y ! k = [0..<64] ! k" by (simp only: convert_all)
  with assms len show "convert2n ! uchar (convert2y ! k) = k" by simp
  show "convert2y ! k \<noteq> CHR ''_''" using assms len convert_all(2) nth_mem by metis
qed

lemma unat_and_63 [simp]: "unat (v AND 63 :: 32 word) = unat v mod 64"
proof -
  have "v AND 63 = take_bit 6 v" by (simp add: take_bit_eq_mask mask_eq_exp_minus_1)
  then show ?thesis by (simp add: unsigned_take_bit_eq take_bit_nat_def)
qed

lemma unat_drop_6 [simp]: "unat (drop_bit 6 v :: 32 word) = unat v div 64"
proof -
  have "unat v < 2 ^ 32" using unsigned_less [of v] by simp
  then have "take_bit 32 (unat v) = unat v" by (simp add: take_bit_nat_eq_self_iff)
  then show ?thesis by (simp add: unsigned_drop_bit_eq drop_bit_nat_def)
qed

lemma base64toint_loop_snoc:
  "base64toint_loop i (s @ [c]) = push_bit 6 (base64toint_loop i s) + of_nat (convert2n ! uchar c)"
  by (induction i s rule: base64toint_loop.induct) auto

lemma inttobase64_length [simp]: "length (inttobase64 v n) = n"
  by (induction v n rule: inttobase64.induct) auto

lemma take_bit_shift6:
  "push_bit 6 (take_bit (6 * n) (drop_bit 6 v)) + (v AND 63) = take_bit (6 * Suc n) (v :: 32 word)"
proof -
  have m: "v AND 63 = take_bit 6 v" by (simp add: take_bit_eq_mask mask_eq_exp_minus_1)
  have "push_bit 6 (take_bit (6 * n) (drop_bit 6 v)) AND take_bit 6 v = 0"
    by (rule bit_word_eqI) (auto simp: bit_simps)
  then have "push_bit 6 (take_bit (6 * n) (drop_bit 6 v)) + take_bit 6 v
      = push_bit 6 (take_bit (6 * n) (drop_bit 6 v)) OR take_bit 6 v"
    by (rule disjunctive_add_eq_or)
  also have "\<dots> = take_bit (6 * Suc n) v"
    by (rule bit_word_eqI) (auto simp: bit_simps)
  finally show ?thesis unfolding m .
qed

lemma base64toint_inttobase64:
  "base64toint (inttobase64 v (Suc n)) = Some (take_bit (6 * Suc n) v)"
proof (induction n arbitrary: v)
  case 0
  have "(of_nat (unat v mod 64) :: 32 word) = v AND 63"
    by (simp add: unat_and_63 [symmetric] del: unat_and_63)
  then have "(of_nat (convert2n ! uchar (convert2y ! unat (v AND 63))) :: 32 word) = v AND 63"
    by simp
  then show ?case using take_bit_shift6 [of 0 v] by (simp add: base64toint_def del: unat_and_63)
next
  case (Suc n)
  obtain c s where cs: "inttobase64 (drop_bit 6 v) (Suc n) = c # s"
    by (metis inttobase64_length length_Suc_conv)
  have "(of_nat (unat v mod 64) :: 32 word) = v AND 63"
    by (simp add: unat_and_63 [symmetric] del: unat_and_63)
  moreover have "base64toint_loop (of_nat (convert2n ! uchar c)) s
      = take_bit (6 * Suc n) (drop_bit 6 v)"
    using Suc.IH [of "drop_bit 6 v"] unfolding cs by (simp add: base64toint_def)
  ultimately show ?case
    using take_bit_shift6 [of "Suc n" v]
    unfolding inttobase64.simps(2) [of v "Suc n"] cs
    by (simp add: base64toint_def base64toint_loop_snoc)
qed

definition enc3 :: "16 word \<Rightarrow> string" where
  "enc3 p = inttobase64 (ucast p) 3"

lemma enc3_chars:
  "enc3 p = [convert2y ! (unat p div 4096), convert2y ! (unat p div 64 mod 64), convert2y ! (unat p mod 64)]"
proof -
  have "unat (ucast p :: 32 word) = unat p"
    by (simp add: unsigned_ucast_eq take_bit_nat_eq_self_iff order.strict_trans [OF unat16_less])
  moreover have "unat p div 4096 mod 64 = unat p div 4096"
    using less_mult_imp_div_less [of "unat p" 16 4096] unat16_less [of p] by simp
  moreover have "unat p div 64 div 64 = unat p div 4096" by (simp add: div_mult2_eq [symmetric])
  ultimately show ?thesis unfolding enc3_def numeral_3_eq_3 by (simp del: drop_bit_drop_bit)
qed

lemma enc3_length [simp]: "length (enc3 p) = 3"
  by (simp add: enc3_def)

lemma ip64_loop_enc3:
  assumes "length parts < 8"
  shows "ip64_loop (enc3 p @ s) parts = ip64_loop s (parts @ [p])"
proof -
  have b: "unat p div 4096 < 64" "unat p div 64 mod 64 < 64" "unat p mod 64 < 64"
    using less_mult_imp_div_less [of "unat p" 16 4096] unat16_less [of p] by simp_all
  have "unat p div 4096 * 4096 + unat p div 64 mod 64 * 64 + unat p mod 64 = unat p"
  proof -
    have "unat p div 4096 * 64 + unat p div 64 mod 64 = unat p div 64"
      using div_mult_mod_eq [of "unat p div 64" 64] by (simp add: div_mult2_eq [symmetric])
    then have "(unat p div 4096 * 64 + unat p div 64 mod 64) * 64 + unat p mod 64 = unat p" by simp
    then show ?thesis unfolding distrib_right by simp
  qed
  then have "(of_nat (unat p div 4096 * 4096 + unat p div 64 mod 64 * 64 + unat p mod 64) :: 16 word) = p"
    by simp
  with assms b show ?thesis
    unfolding enc3_chars by (subst ip64_loop.simps) (simp del: of_nat_add of_nat_mult)
qed

lemma ip64_loop_enc:
  "length parts + length xs \<le> 8 \<Longrightarrow>
     ip64_loop (concat (map enc3 xs) @ s) parts = ip64_loop s (parts @ xs)"
proof (induction xs arbitrary: parts)
  case (Cons p xs)
  then show ?case by (simp add: ip64_loop_enc3)
qed simp

lemma length_enc [simp]: "length (concat (map enc3 xs)) = 3 * length xs"
  by (induction xs) auto

lemma ip64_parts_from:
  assumes "length parts = 8" "ii \<le> 8" "mz = 0 \<or> ms < ii"
  shows "ip64_parts parts ms mz ii = concat (map enc3 (drop ii parts))"
  using assms
proof (induction "8 - ii" arbitrary: ii)
  case 0
  then show ?case by (simp add: ip64_parts.simps)
next
  case (Suc n)
  have "ip64_parts parts ms mz (Suc ii) = concat (map enc3 (drop (Suc ii) parts))"
    using Suc by (intro Suc.hyps(1)) auto
  moreover have "drop ii parts = parts ! ii # drop (Suc ii) parts"
    using Suc by (intro Cons_nth_drop_Suc [symmetric]) auto
  ultimately show ?case using Suc
    by (subst ip64_parts.simps) (auto simp: enc3_def)
qed

lemma ip64_parts_run:
  assumes "length parts = 8" "ii \<le> ms" "0 < mz" "ms + mz \<le> 8"
  shows "ip64_parts parts ms mz ii =
    concat (map enc3 (drop ii (take ms parts))) @ ''_'' @ concat (map enc3 (drop (ms + mz) parts))"
  using assms
proof (induction "ms - ii" arbitrary: ii)
  case 0
  then have "ii = ms" by simp
  moreover have "ip64_parts parts ms mz (ms + mz) = concat (map enc3 (drop (ms + mz) parts))"
    using 0 by (intro ip64_parts_from) auto
  ultimately show ?case using 0
    by (subst ip64_parts.simps) simp
next
  case (Suc n)
  then have "drop ii (take ms parts) = parts ! ii # drop (Suc ii) (take ms parts)"
    by (subst Cons_nth_drop_Suc [symmetric]) auto
  moreover have "ip64_parts parts ms mz (Suc ii) =
    concat (map enc3 (drop (Suc ii) (take ms parts))) @ ''_'' @ concat (map enc3 (drop (ms + mz) parts))"
    using Suc by (intro Suc.hyps(1)) auto
  moreover have "ii < ms" "ms < 8" using Suc by auto
  ultimately show ?case by (subst ip64_parts.simps) (simp add: enc3_def)
qed

definition ip64_run :: "irc_in_addr \<Rightarrow> nat \<times> nat" where
  "ip64_run a =
     (let zero = length (takeWhile (\<lambda>p. p \<noteq> 0) (in6_16 a))
      in zero_run (drop zero (in6_16 a)) zero zero 0 0)"

lemma iptobase64_text:
  assumes wf: "addr_wf a" and v6: "\<not> irc_in_addr_is_ipv4 a" and r: "ip64_run a = (ms, mz)"
  shows "ms + mz \<le> 8" and "iptobase64 a True =
    (if mz = 0 then concat (map enc3 (in6_16 a))
     else concat (map enc3 (take ms (in6_16 a))) @ ''_'' @ concat (map enc3 (drop (ms + mz) (in6_16 a))))"
proof -
  let ?P = "in6_16 a" and ?lead = "takeWhile (\<lambda>p. p \<noteq> 0) (in6_16 a)"
  define z where "z = length ?lead"
  have lead: "?lead = take z ?P" and z: "z \<le> 8"
    using wf takeWhile_eq_take [of "\<lambda>p. p \<noteq> 0" ?P] length_takeWhile_le [of "\<lambda>p. p \<noteq> 0" ?P]
    by (simp_all add: z_def addr_wf_def)
  have run: "zero_run (drop z ?P) z z 0 0 = (ms, mz)"
    using r unfolding ip64_run_def Let_def z_def .
  have b: "ms + mz \<le> 8" "z \<le> ms"
    using zero_run_bounds [OF run, of z] wf z by (simp_all add: addr_wf_def)
  then show "ms + mz \<le> 8" by simp
  have "iptobase64 a True = (case zero_run (drop z ?P) z z 0 0 of
      (ms, mz) \<Rightarrow> concat (map enc3 ?lead) @ ip64_parts ?P ms mz z)"
    using v6 by (simp add: iptobase64_def Let_def z_def enc3_def [abs_def])
  then have "iptobase64 a True = concat (map enc3 (take z ?P)) @ ip64_parts ?P ms mz z"
    by (simp only: run lead prod.case)
  also have "\<dots> = (if mz = 0 then concat (map enc3 ?P)
     else concat (map enc3 (take ms ?P)) @ ''_'' @ concat (map enc3 (drop (ms + mz) ?P)))"
  proof (cases "mz = 0")
    case True
    have "ip64_parts ?P ms mz z = concat (map enc3 (drop z ?P))"
      using True wf z by (intro ip64_parts_from) (simp_all add: addr_wf_def)
    then have "concat (map enc3 (take z ?P)) @ ip64_parts ?P ms mz z
        = concat (map enc3 (take z ?P @ drop z ?P))" by (simp only: map_append concat_append)
    with True show ?thesis by simp
  next
    case False
    have "take ms ?P = take z ?P @ drop z (take ms ?P)"
      using b by (metis append_take_drop_id min.absorb1 take_take)
    then have "concat (map enc3 (take ms ?P)) = concat (map enc3 (take z ?P)) @ concat (map enc3 (drop z (take ms ?P)))"
      by (metis concat_append map_append)
    with False wf b show ?thesis by (simp add: ip64_parts_run addr_wf_def)
  qed
  finally show "iptobase64 a True =
    (if mz = 0 then concat (map enc3 ?P)
     else concat (map enc3 (take ms ?P)) @ ''_'' @ concat (map enc3 (drop (ms + mz) ?P)))" .
qed

lemma ip64_loop_run:
  assumes "length parts = 8" "0 < mz" "ms + mz \<le> 8"
  shows "ip64_loop (concat (map enc3 (take ms parts)) @ ''_'' @ concat (map enc3 (drop (ms + mz) parts))) []
    = Some (take ms parts @ replicate mz 0 @ drop (ms + mz) parts)"
proof -
  let ?t = "concat (map enc3 (drop (ms + mz) parts))"
  have len: "length (CHR ''_'' # ?t) = 1 + 3 * (8 - (ms + mz))" using assms by simp
  have small: "\<not> 25 < length (CHR ''_'' # ?t)" unfolding len by simp
  have left: "(25 - length (CHR ''_'' # ?t)) div 3 = ms + mz" unfolding len using assms by simp
  have "ip64_loop (concat (map enc3 (take ms parts)) @ ''_'' @ ?t) []
      = ip64_loop (CHR ''_'' # ?t) (take ms parts)"
    using ip64_loop_enc [of "[]" "take ms parts" "CHR ''_'' # ?t"] assms by simp
  also have "\<dots> = ip64_loop ?t (take ms parts @ replicate mz 0)"
    using assms left small
    by (subst ip64_loop.simps [of "CHR ''_'' # ?t"]) (simp del: length_Cons list.size(4))
  also have "\<dots> = ip64_loop [] (take ms parts @ replicate mz 0 @ drop (ms + mz) parts)"
    using ip64_loop_enc [of "take ms parts @ replicate mz 0" "drop (ms + mz) parts" "[]"] assms by simp
  also have "\<dots> = Some (take ms parts @ replicate mz 0 @ drop (ms + mz) parts)"
    using assms by (subst ip64_loop.simps) simp
  finally show ?thesis .
qed

lemma run_ok_fill:
  assumes "length parts = 8" "ms + mz \<le> 8"
  shows "take ms parts @ replicate mz 0 @ drop (ms + mz) parts = parts \<longleftrightarrow> run_ok parts (ms, mz)"
proof -
  have "take ms parts @ replicate mz 0 @ drop (ms + mz) parts = parts
      \<longleftrightarrow> replicate mz 0 = take mz (drop ms parts)"
    by (metis (no_types, opaque_lifting) append_assoc append_same_eq append_take_drop_id
      drop_drop same_append_eq add.commute)
  also have "\<dots> \<longleftrightarrow> (\<forall>i < mz. parts ! (ms + i) = 0)"
    using assms by (auto simp: list_eq_iff_nth_eq)
  also have "\<dots> \<longleftrightarrow> run_ok parts (ms, mz)"
    unfolding run_ok_def by (auto simp: le_iff_add less_diff_conv)
  finally show ?thesis .
qed

lemma base64toip_v6:
  assumes wf: "addr_wf a" and v6: "\<not> irc_in_addr_is_ipv4 a"
  shows "base64toip (iptobase64 a True) = Some a \<longleftrightarrow> run_ok (in6_16 a) (ip64_run a)"
proof -
  obtain ms mz where r: "ip64_run a = (ms, mz)" by fastforce
  note t = iptobase64_text [OF wf v6 r]
  have len: "length (in6_16 a) = 8" using wf by (simp add: addr_wf_def)
  have "ip64_loop (iptobase64 a True) []
      = Some (take ms (in6_16 a) @ replicate mz 0 @ drop (ms + mz) (in6_16 a))"
  proof (cases "mz = 0")
    case True
    then have "ip64_loop (iptobase64 a True) [] = ip64_loop [] (in6_16 a)"
      using t(2) ip64_loop_enc [of "[]" "in6_16 a" "[]"] len by simp
    with True len show ?thesis by (simp add: ip64_loop.simps)
  next
    case False
    with t len ip64_loop_run [of "in6_16 a" mz ms] show ?thesis by simp
  qed
  moreover have "length (iptobase64 a True) \<noteq> 6"
  proof (cases "mz = 0")
    case True
    with t(2) len show ?thesis by simp
  next
    case False
    with t(2) have "length (iptobase64 a True)
        = 3 * (length (take ms (in6_16 a)) + length (drop (ms + mz) (in6_16 a))) + 1" by simp
    then show ?thesis by presburger
  qed
  ultimately have "base64toip (iptobase64 a True) = Some a
      \<longleftrightarrow> take ms (in6_16 a) @ replicate mz 0 @ drop (ms + mz) (in6_16 a) = in6_16 a"
    by (cases a) (simp add: base64toip_def)
  then show ?thesis unfolding r using run_ok_fill [OF len t(1)] by simp
qed

text \<open>
  C35: the base64 form of an IPv6 address is decoded to the address itself exactly when the
  zero run the encoder found holds only zeros.
\<close>

theorem base64toip_iptobase64:
  assumes "addr_wf a" "\<not> irc_in_addr_is_ipv4 a"
  shows "base64toip (iptobase64 a True) = Some a \<longleftrightarrow> run_ok (in6_16 a) (ip64_run a)"
  using assms by (rule base64toip_v6)

lemma base64toip_iptobase64_witness:
  "base64toip (iptobase64 \<lparr>in6_16 = [0x2001, 0xdb8, 0, 0, 1, 0, 0, 0]\<rparr> True)
     = Some \<lparr>in6_16 = [0x2001, 0xdb8, 0, 0, 1, 0, 0, 0]\<rparr>
   \<and> base64toip (iptobase64 \<lparr>in6_16 = [1, 0, 0, 1, 0, 5, 0, 0]\<rparr> True)
     \<noteq> Some \<lparr>in6_16 = [1, 0, 0, 1, 0, 5, 0, 0]\<rparr>"
proof -
  let ?a = "\<lparr>in6_16 = [0x2001, 0xdb8, 0, 0, 1, 0, 0, 0]\<rparr>"
    and ?b = "\<lparr>in6_16 = [1, 0, 0, 1, 0, 5, 0, 0]\<rparr>"
  have v6: "\<not> irc_in_addr_is_ipv4 ?a" "\<not> irc_in_addr_is_ipv4 ?b"
    by (simp_all add: irc_in_addr_is_ipv4_def)
  have "ip64_run ?a = (5, 3)" "ip64_run ?b = (5, 3)" by (simp_all add: ip64_run_def)
  then have "run_ok (in6_16 ?a) (ip64_run ?a)" "\<not> run_ok (in6_16 ?b) (ip64_run ?b)"
    by (simp_all add: run_ok_def upt_conv_Cons)
  then show ?thesis
    using base64toip_iptobase64 [of ?a] base64toip_iptobase64 [of ?b] v6 by (simp add: addr_wf_def)
qed

section \<open>The prefix test\<close>

text \<open>An address as a 128-bit number, most significant part first.\<close>

fun parts_num :: "16 word list \<Rightarrow> nat" where
  "parts_num [] = 0"
| "parts_num (p # ps) = unat p * 2 ^ (16 * length ps) + parts_num ps"

definition addr_num :: "irc_in_addr \<Rightarrow> nat" where
  "addr_num a = parts_num (in6_16 a)"

lemma parts_num_less: "parts_num ps < 2 ^ (16 * length ps)"
proof (induction ps)
  case (Cons p ps)
  have "parts_num (p # ps) < (unat p + 1) * 2 ^ (16 * length ps)" using Cons by simp
  also have "\<dots> \<le> 65536 * 2 ^ (16 * length ps)"
    by (intro mult_right_mono, use unat16_less [of p] in linarith) simp
  also have "\<dots> = 2 ^ (16 * length (p # ps))" by (simp add: power_add)
  finally show ?case .
qed simp

lemma parts_num_high:
  assumes "bits \<le> 16"
  shows "parts_num (p # ps) div 2 ^ (16 * length (p # ps) - bits) = unat p div 2 ^ (16 - bits)"
proof -
  have e: "16 * length (p # ps) - bits = 16 * length ps + (16 - bits)" using assms by simp
  have "parts_num (p # ps) div 2 ^ (16 * length ps) = unat p"
    using parts_num_less [of ps] by simp
  then show ?thesis unfolding e power_add div_mult2_eq by simp
qed

lemma parts_num_low:
  assumes "16 \<le> bits" "bits \<le> 16 * length (p # ps)"
  shows "parts_num (p # ps) div 2 ^ (16 * length (p # ps) - bits)
    = unat p * 2 ^ (bits - 16) + parts_num ps div 2 ^ (16 * length ps - (bits - 16))"
proof -
  define k where "k = 16 * length ps - (bits - 16)"
  have e: "16 * length (p # ps) - bits = k" using assms by (simp add: k_def)
  have "2 ^ (16 * length ps) = 2 ^ (bits - 16) * (2 ^ k :: nat)"
    using assms unfolding power_add [symmetric] by (simp add: k_def)
  then have "parts_num (p # ps) = parts_num ps + unat p * 2 ^ (bits - 16) * 2 ^ k"
    by (simp only: parts_num.simps mult.assoc add.commute)
  then show ?thesis unfolding e k_def [symmetric] by (simp del: parts_num.simps)
qed

lemma parts_num_low_less:
  assumes "bits \<le> 16 * length ps"
  shows "parts_num ps div 2 ^ (16 * length ps - bits) < 2 ^ bits"
proof (rule less_mult_imp_div_less)
  have "parts_num ps < 2 ^ (16 * length ps)" by (rule parts_num_less)
  also have "\<dots> = 2 ^ bits * 2 ^ (16 * length ps - bits)"
    using assms unfolding power_add [symmetric] by simp
  finally show "parts_num ps < 2 ^ bits * 2 ^ (16 * length ps - bits)" .
qed

lemma mult_add_eq_iff:
  assumes "r < (n::nat)" "s < n"
  shows "a * n + r = b * n + s \<longleftrightarrow> a = b \<and> r = s"
proof
  assume e: "a * n + r = b * n + s"
  have "(a * n + r) div n = a" "(b * n + s) div n = b" using assms by simp_all
  with e show "a = b \<and> r = s" by simp
qed simp

lemma word_xor_eq_0: "(x XOR y = 0) \<longleftrightarrow> x = (y :: 16 word)"
  by (metis xor_self_eq xor.assoc xor.right_neutral xor.left_neutral)

lemma xor_high_bits:
  assumes "k \<le> 16"
  shows "drop_bit k (a XOR b) = 0 \<longleftrightarrow> unat (a :: 16 word) div 2 ^ k = unat b div 2 ^ k"
proof -
  have t: "take_bit 16 (unat w) = unat w" for w :: "16 word"
    by (simp add: take_bit_nat_eq_self_iff)
  have d: "unat (drop_bit k w) = unat w div 2 ^ k" for w :: "16 word"
    unfolding unsigned_drop_bit_eq by (simp add: t drop_bit_eq_div)
  have "drop_bit k (a XOR b) = 0 \<longleftrightarrow> drop_bit k a = drop_bit k b"
    by (simp add: drop_bit_xor word_xor_eq_0)
  also have "\<dots> \<longleftrightarrow> unat (drop_bit k a) = unat (drop_bit k b)" by (simp add: word_unat_eq_iff)
  also have "\<dots> \<longleftrightarrow> unat a div 2 ^ k = unat b div 2 ^ k"
    by (simp only: d)
  finally show ?thesis .
qed

lemma ipmask_check_loop_spec:
  assumes "length as = length ms" "bits \<le> 16 * length as" "as \<noteq> []"
  shows "ipmask_check_loop as ms bits =
    (if parts_num as div 2 ^ (16 * length as - bits) = parts_num ms div 2 ^ (16 * length as - bits)
     then 1 else 0)"
  using assms
proof (induction as ms bits rule: ipmask_check_loop.induct)
  case (1 a as m ms bits)
  show ?case
  proof (cases "bits < 16")
    case True
    then show ?thesis
      using "1.prems" parts_num_high [of bits a as] parts_num_high [of bits m ms]
        xor_high_bits [of "16 - bits" a m] by simp
  next
    case False
    let ?b = "bits - 16"
    have b: "?b \<le> 16 * length as" using "1.prems" False by simp
    have low: "parts_num (a # as) div 2 ^ (16 * length (a # as) - bits)
          = unat a * 2 ^ ?b + parts_num as div 2 ^ (16 * length as - ?b)"
        "parts_num (m # ms) div 2 ^ (16 * length (m # ms) - bits)
          = unat m * 2 ^ ?b + parts_num ms div 2 ^ (16 * length ms - ?b)"
      using "1.prems" False by (intro parts_num_low; simp)+
    have "parts_num as div 2 ^ (16 * length as - ?b) < 2 ^ ?b"
        "parts_num ms div 2 ^ (16 * length ms - ?b) < 2 ^ ?b"
      using b "1.prems" parts_num_low_less [of ?b as] parts_num_low_less [of ?b ms] by simp_all
    with low "1.prems" have eq: "parts_num (a # as) div 2 ^ (16 * length (a # as) - bits)
          = parts_num (m # ms) div 2 ^ (16 * length (a # as) - bits)
        \<longleftrightarrow> a = m \<and> parts_num as div 2 ^ (16 * length as - ?b) = parts_num ms div 2 ^ (16 * length as - ?b)"
      by (simp add: mult_add_eq_iff word_unat_eq_iff)
    consider "a \<noteq> m" | "a = m" "?b = 0" | "a = m" "?b \<noteq> 0" by blast
    then show ?thesis
    proof cases
      case 1
      with False eq show ?thesis by simp
    next
      case 2
      then have "parts_num as div 2 ^ (16 * length as - ?b) = 0"
          "parts_num ms div 2 ^ (16 * length as - ?b) = 0"
        using parts_num_less [of as] parts_num_less [of ms] "1.prems" by simp_all
      with 2 False eq show ?thesis by simp
    next
      case 3
      then have "as \<noteq> []" using b by auto
      with 3 False b "1.prems" "1.IH" eq show ?thesis by simp
    qed
  qed
qed simp_all

text \<open>
  For a prefix length up to 128 \<open>ipmask_check\<close> answers 1 when the two addresses agree in
  that many leading bits and 0 otherwise; it never answers -1 there, not even for 128.
\<close>

lemma ipmask_check_prefix:
  assumes "addr_wf a" "addr_wf m" "bits \<le> 128"
  shows "ipmask_check a m bits
    = (if addr_num a div 2 ^ (128 - bits) = addr_num m div 2 ^ (128 - bits) then 1 else 0)"
proof -
  have "length (in6_16 a) = 8" "length (in6_16 m) = 8" using assms by (simp_all add: addr_wf_def)
  moreover from this have "in6_16 a \<noteq> []" by auto
  ultimately show ?thesis
    using assms ipmask_check_loop_spec [of "in6_16 a" "in6_16 m" bits]
    by (simp add: ipmask_check_def addr_num_def)
qed

lemma ipmask_check_prefix_witness:
  "ipmask_check zero_addr zero_addr 128 = 1"
  using ipmask_check_prefix [of zero_addr zero_addr 128] by (simp add: addr_wf_def zero_addr_def)

section \<open>Prefix lengths\<close>

lemma prefix_digits_number:
  assumes "rest = [] \<or> \<not> is_digit (hd rest)"
  shows "prefix_digits 0 (show_nat n @ rest) = (n mod 2 ^ 32, rest)"
proof -
  have step: "prefix_digits 0 (show_base 10 n @ s) = prefix_digits (n mod 2 ^ 32) s" for s
  proof (induction "10::nat" n arbitrary: s rule: show_base.induct)
    case (1 n)
    show ?case
    proof (cases "n < 10")
      case True
      then show ?thesis by (subst show_base.simps) simp
    next
      case False
      let ?d = "digit_char (n mod 10)"
      have "prefix_digits 0 (show_base 10 n @ s) = prefix_digits 0 (show_base 10 (n div 10) @ ?d # s)"
        using False by (subst show_base.simps) simp
      also have "\<dots> = prefix_digits ((n div 10 mod 2 ^ 32 * 10 + n mod 10) mod 2 ^ 32) s"
        using 1 False by simp
      also have "(n div 10 mod 2 ^ 32 * 10 + n mod 10) mod 2 ^ 32 = (n div 10 * 10 + n mod 10) mod 2 ^ 32"
        by (metis mod_add_left_eq mod_mult_left_eq)
      also have "\<dots> = n mod 2 ^ 32" by simp
      finally show ?thesis .
    qed
  qed
  have "prefix_digits k rest = (k, rest)" for k using assms by (cases rest) simp_all
  with step [of rest] show ?thesis unfolding show_nat_def by simp
qed

text \<open>
  A dotted quad with a prefix length is parsed to the mapped address and the length
  plus 96 when the length is at most 32. The length is computed modulo 2 to the 32, so a
  number such as 4294967304 is accepted and read as 8.
\<close>

lemma ipmask_parse_cidr:
  assumes "a < 256" "b < 256" "c < 256" "d < 256"
  shows "ipmask_parse True (show_nat a @ ''.'' @ show_nat b @ ''.'' @ show_nat c @ ''.'' @ show_nat d
      @ ''/'' @ show_nat n) =
    (if n mod 2 ^ 32 \<le> 32
     then Some ([], add_v4 (a * 2 ^ 24 + b * 2 ^ 16 + c * 2 ^ 8 + d), Some (n mod 2 ^ 32 + 96))
     else None)"
proof -
  let ?t = "show_nat a @ ''.'' @ show_nat b @ ''.'' @ show_nat c @ ''.'' @ show_nat d @ ''/'' @ show_nat n"
  let ?ip = "a * 2 ^ 24 + b * 2 ^ 16 + c * 2 ^ 8"
  have "is_digit (deref (show_nat n @ []))" by (rule show_nat_deref)
  then have slash: "aton_ip4_loop True (''/'' @ show_nat n) 3 d ?ip
      = (if n mod 2 ^ 32 > 32 then None else Some ([], ?ip + d, n mod 2 ^ 32))"
    using prefix_digits_number [of "[]" n] by simp
  have "is_digit (deref ?t)" by (rule show_nat_deref)
  then have "deref ?t \<noteq> CHR ''.''" by (auto simp only: is_digit_not_dot)
  then have aton: "ircd_aton_ip4 True ?t
      = (if n mod 2 ^ 32 > 32 then None else Some ([], ?ip + d, n mod 2 ^ 32))"
    using slash by (simp only: ircd_aton_ip4_def aton_ip4_quad [OF assms] if_False)
  have "strchr ?t (CHR '':'') = None" by (simp add: show_nat_chars)
  moreover have "strchr ?t (CHR ''.'') \<noteq> None" by simp
  ultimately have "ipmask_parse True ?t = (case ircd_aton_ip4 True ?t of None \<Rightarrow> None
      | Some (r, ip4, bits) \<Rightarrow> Some (r, add_v4 ip4, Some (bits + 96)))"
    unfolding ipmask_parse_def Let_def by simp
  then show ?thesis unfolding aton by simp
qed

lemma ipmask_parse_cidr_witness:
  "ipmask_parse True (show_nat 10 @ ''.'' @ show_nat 0 @ ''.'' @ show_nat 0 @ ''.'' @ show_nat 0
      @ ''/'' @ show_nat 4294967304) = Some ([], add_v4 167772160, Some 104)"
  using ipmask_parse_cidr [of 10 0 0 0 4294967304] by simp

text \<open>
  An IPv6 text that ends in a dotted quad is rejected when a double colon stands right
  before the quad and is not at the start of the text: the place where the quad is read
  from is one character too early.
\<close>

lemma ipmask_parse_embedded_quad:
  assumes "a < 10"
  shows "ipmask_parse pb (show_hex (unat (p :: 16 word)) @ '':'' @ '':'' @ show_nat a @ ''.'' @ s) = None"
proof -
  let ?q = "show_nat a @ CHR ''.'' # s"
  let ?t = "show_hex (unat p) @ CHR '':'' # CHR '':'' # ?q"
  have dig: "show_nat a = [digit_char a]" using assms by (simp add: show_nat_def show_base.simps)
  have dot: "hex_val (CHR ''.'') = None" by (simp add: hex_val_def is_digit_def uchar_def)
  have "v6_loop pb ?t [] 0 [] 8 = v6_loop pb ?q (CHR '':'' # ?q) 0 [p] 1"
    using v6_loop_colons [of p "unat p" "[]"] by (simp add: v6_loop_hex)
  also have "\<dots> = None"
  proof -
    have "ircd_aton_ip4 pb (CHR '':'' # ?q) = None"
      by (simp add: ircd_aton_ip4_def is_digit_def uchar_def)
    then show ?thesis
      using assms dot unfolding dig
      by (simp add: v6_loop.simps [of pb "digit_char a # _"] v6_loop.simps [of pb "CHR ''.'' # s"])
  qed
  finally have loop: "v6_loop pb ?t [] 0 [] 8 = None" .
  have colon: "strchr (x @ CHR '':'' # y) (CHR '':'') = Some (length x)"
    if "CHR '':'' \<notin> set x" for x y using that by (induction x) auto
  have dot_after: "strchr (x @ y) (CHR ''.'') = map_option (\<lambda>k. k + length x) (strchr y (CHR ''.''))"
    if "CHR ''.'' \<notin> set x" for x y
    using that by (induction x) (auto simp: option.map_comp o_def option.map_ident)
  have "deref ?t \<noteq> CHR '':''" using show_hex_deref by auto
  moreover have "strchr ?t (CHR '':'') = Some (length (show_hex (unat p)))"
    using colon show_hex_chars by simp
  moreover have "\<exists>k. strchr ?t (CHR ''.'') = Some (length (show_hex (unat p)) + 2 + k)"
    using dot_after [of "show_hex (unat p)"] show_hex_chars dig digit_val_digit [of "digit_char a"] assms
    by simp
  ultimately have "ipmask_parse pb ?t = v6_loop pb ?t [] 0 [] 8"
    unfolding ipmask_parse_def Let_def by auto
  with loop show ?thesis by simp
qed

lemma ipmask_parse_embedded_quad_witness:
  "ipmask_parse True (show_hex (unat (0x64 :: 16 word)) @ '':'' @ '':'' @ show_nat 1 @ ''.'' @ ''2.3.4'') = None"
  by (rule ipmask_parse_embedded_quad) simp

text \<open>
  The header says that an address of all ones is not valid, and the macro means to test
  that with \<open>~in6_16[0]\<close>; after promotion to \<open>int\<close> this is never 0, so only the all-zero
  address is refused.
\<close>

lemma irc_in_addr_valid_iff:
  assumes "addr_wf a"
  shows "irc_in_addr_valid a \<longleftrightarrow> a \<noteq> zero_addr"
proof -
  have prom: "NOT (ucast p) \<noteq> (0 :: 32 word)" for p :: "16 word"
  proof
    assume "NOT (ucast p) = (0 :: 32 word)"
    then have "bit (NOT (ucast p) :: 32 word) 31 = bit (0 :: 32 word) 31" by simp
    moreover have "\<not> bit p 31" using bit_imp_le_length [of p 31] by auto
    ultimately show False by (simp add: bit_simps)
  qed
  have "in6_16 a = [in6_16 a ! 0, in6_16 a ! 1, in6_16 a ! 2, in6_16 a ! 3, in6_16 a ! 4,
      in6_16 a ! 5, in6_16 a ! 6, in6_16 a ! 7]"
    using assms by (intro list8) (simp add: addr_wf_def)
  then obtain p0 p1 p2 p3 p4 p5 p6 p7 where "a = \<lparr>in6_16 = [p0, p1, p2, p3, p4, p5, p6, p7]\<rparr>"
    by (cases a) simp
  then show ?thesis
    using prom by (auto simp: irc_in_addr_valid_def zero_addr_def eval_nat_numeral)
qed

lemma irc_in_addr_valid_iff_witness:
  "irc_in_addr_valid \<lparr>in6_16 = replicate 8 65535\<rparr>"
  using irc_in_addr_valid_iff [of "\<lparr>in6_16 = replicate 8 65535\<rparr>"]
  by (simp add: addr_wf_def zero_addr_def)

end
