(* ===== verification/Numerics.thy ===== *)
theory Numerics
  imports IrcIpv6 "HOL-Library.Signed_Division"
begin

text \<open>
  The base64 numerics of \<open>lib/base64.c\<close> and \<open>lib/base64.h\<close>, and the interface both
  base64 codecs of the program satisfy: this one and the one in \<open>lib/irc_ipv6.c\<close>.
\<close>

section \<open>The codec\<close>

definition numerictab :: "nat list" where
  "numerictab =
    [0, 0, 0, 0, 0, 0, 0, 0, 0, 0, 0, 0, 0, 0, 0, 0, 0, 0, 0, 0,
     0, 0, 0, 0, 0, 0, 0, 0, 0, 0, 0, 0, 0, 0, 0, 0, 0, 0, 0, 0,
     0, 0, 0, 0, 0, 0, 0, 0, 52, 53, 54, 55, 56, 57, 58, 59, 60, 61, 0, 0,
     0, 0, 0, 0, 0, 0, 1, 2, 3, 4, 5, 6, 7, 8, 9, 10, 11, 12, 13, 14,
     15, 16, 17, 18, 19, 20, 21, 22, 23, 24, 25, 62, 0, 63, 0, 0, 0, 26, 27, 28,
     29, 30, 31, 32, 33, 34, 35, 36, 37, 38, 39, 40, 41, 42, 43, 44, 45, 46, 47, 48,
     49, 50, 51] @ replicate 137 0"

definition tokens :: string where
  "tokens = ''ABCDEFGHIJKLMNOPQRSTUVWXYZabcdefghijklmnopqrstuvwxyz0123456789[]''"

text \<open>
  \<open>numerictolong\<close> reads \<open>numericlen\<close> characters, the terminating NUL being one of them when
  the text is shorter; the index is a signed \<open>char\<close>. \<open>None\<close> is a read out of bounds.
\<close>

fun numerictolong_loop :: "int \<Rightarrow> string \<Rightarrow> nat \<Rightarrow> int option" where
  "numerictolong_loop v s 0 = Some v"
| "numerictolong_loop v [] (Suc n) =
     (if n = 0 then Some (c_long (v * 64 + int (numerictab ! 0))) else None)"
| "numerictolong_loop v (c # s) (Suc n) =
     (if schar c < 0 then None
      else numerictolong_loop (c_long (v * 64 + int (numerictab ! nat (schar c)))) s n)"

definition numerictolong :: "string \<Rightarrow> nat \<Rightarrow> int option" where
  "numerictolong numeric numericlen = numerictolong_loop 0 numeric numericlen"

text \<open>The last character is produced first; a negative remainder indexes before \<open>tokens\<close>.\<close>

fun longtonumeric_loop :: "int \<Rightarrow> nat \<Rightarrow> string option" where
  "longtonumeric_loop param 0 = Some []"
| "longtonumeric_loop param (Suc n) =
     (let r = param smod 64
      in if r < 0 then None
         else map_option (\<lambda>s. s @ [tokens ! nat r]) (longtonumeric_loop (param sdiv 64) n))"

definition longtonumeric :: "int \<Rightarrow> nat \<Rightarrow> string option" where
  "longtonumeric param len = (if len > 6 then None else longtonumeric_loop param len)"

definition longtonumeric2 :: "int \<Rightarrow> nat \<Rightarrow> string option" where
  "longtonumeric2 param len = longtonumeric_loop param len"

lemma tokens_table: "map (\<lambda>c. numerictab ! uchar c) tokens = [0..<64]"
  "map schar tokens = map (\<lambda>c. int (uchar c)) tokens"
  by (simp_all add: tokens_def numerictab_def uchar_def schar_def upt_conv_Cons Let_def)

lemma tokens_digit [simp]:
  assumes "k < 64"
  shows "numerictab ! nat (schar (tokens ! k)) = k" "\<not> schar (tokens ! k) < 0"
proof -
  have len: "length tokens = 64" by (simp add: tokens_def)
  have "map schar tokens ! k = map (\<lambda>c. int (uchar c)) tokens ! k" by (simp only: tokens_table)
  with assms len have s: "schar (tokens ! k) = int (uchar (tokens ! k))" by simp
  have "map (\<lambda>c. numerictab ! uchar c) tokens ! k = [0..<64] ! k" by (simp only: tokens_table)
  with assms len s show "numerictab ! nat (schar (tokens ! k)) = k" by simp
  from s show "\<not> schar (tokens ! k) < 0" by simp
qed

lemma numerictolong_loop_snoc:
  assumes "numerictolong_loop v s (length s) = Some w" "k < 64"
  shows "numerictolong_loop v (s @ [tokens ! k]) (Suc (length s)) = Some (c_long (w * 64 + int k))"
  using assms
proof (induction s arbitrary: v)
  case (Cons c s)
  then show ?case by (auto split: if_splits)
qed simp

lemma longtonumeric_loop_ok:
  assumes "0 \<le> param" "n \<le> 6"
  shows "\<exists>s. longtonumeric_loop param n = Some s \<and> length s = n
    \<and> numerictolong_loop 0 s n = Some (param mod 64 ^ n)"
  using assms
proof (induction n arbitrary: param)
  case (Suc n)
  have sd: "param smod 64 = param mod 64" "param sdiv 64 = param div 64"
    using Suc.prems by (simp_all add: signed_modulo_int_def signed_divide_int_def sgn_if)
  obtain s where s: "longtonumeric_loop (param div 64) n = Some s" "length s = n"
      "numerictolong_loop 0 s n = Some (param div 64 mod 64 ^ n)"
    using Suc.IH [of "param div 64"] Suc.prems by (auto simp: pos_imp_zdiv_nonneg_iff)
  let ?k = "nat (param mod 64)"
  have k: "?k < 64" "int ?k = param mod 64" using pos_mod_bound [of 64 param] by simp_all
  have val: "param div 64 mod 64 ^ n * 64 + param mod 64 = param mod 64 ^ Suc n"
  proof -
    have "param mod (64 * 64 ^ n) = 64 * (param div 64 mod 64 ^ n) + param mod 64"
      by (rule zmod_zmult2_eq) simp
    then show ?thesis by simp
  qed
  have "param mod 64 ^ Suc n < 64 ^ Suc n" by (rule pos_mod_bound) simp
  also have "(64::int) ^ Suc n \<le> 64 ^ 6" using Suc.prems by (intro power_increasing) simp_all
  also have "\<dots> < 2 ^ 63" by simp
  finally have "param mod 64 ^ Suc n < 2 ^ 63" .
  moreover have "0 \<le> param mod 64 ^ Suc n" by (rule pos_mod_sign) simp
  then have "- (2 ^ 63) \<le> param mod 64 ^ Suc n" by (rule order_trans [rotated]) simp
  ultimately have "c_long (param mod 64 ^ Suc n) = param mod 64 ^ Suc n" by (intro c_long_id)
  then have "numerictolong_loop 0 (s @ [tokens ! ?k]) (Suc n) = Some (param mod 64 ^ Suc n)"
    using numerictolong_loop_snoc [of 0 s "param div 64 mod 64 ^ n" ?k] s k val by simp
  moreover have "longtonumeric_loop param (Suc n) = Some (s @ [tokens ! ?k])"
    using s k sd by (simp add: Let_def)
  ultimately show ?case using s by simp
qed simp

lemma digit_step:
  assumes "0 \<le> v" "v < 64 ^ k" "k < 10" "d < 64"
  shows "0 \<le> c_long (v * 64 + int d) \<and> c_long (v * 64 + int d) < 64 ^ Suc k"
proof -
  have "v * 64 + int d < 64 ^ Suc k" using assms by simp
  moreover have "(64::int) ^ Suc k \<le> 64 ^ 10" using assms(3) by (intro power_increasing) simp_all
  moreover have "(64::int) ^ 10 < 2 ^ 63" by simp
  ultimately have "c_long (v * 64 + int d) = v * 64 + int d" using assms(1) by (intro c_long_id) linarith+
  then show ?thesis using \<open>v * 64 + int d < 64 ^ Suc k\<close> assms(1) by simp
qed

lemma numerictab_bound: "i < 128 \<Longrightarrow> numerictab ! i < 64"
proof -
  have "\<forall>x \<in> set numerictab. x < 64" "128 \<le> length numerictab" by (simp_all add: numerictab_def)
  then show "i < 128 \<Longrightarrow> numerictab ! i < 64" by simp
qed

lemma numerictolong_loop_bound:
  assumes "numerictolong_loop v s n = Some r" "0 \<le> v" "v < 64 ^ k" "k + n \<le> 10"
  shows "0 \<le> r \<and> r < 64 ^ (k + n)"
  using assms
proof (induction v s n arbitrary: k rule: numerictolong_loop.induct)
  case (2 v n)
  then show ?case using digit_step [OF 2(2,3), of "numerictab ! 0"] numerictab_bound [of 0]
    by (auto split: if_splits)
next
  case (3 v c s n)
  let ?d = "numerictab ! nat (schar c)"
  have c: "\<not> schar c < 0" using 3(2) by (auto split: if_splits)
  have "nat (schar c) < 128" using schar_bounds(2) [of c] by simp
  note d = digit_step [OF 3(3,4) _ numerictab_bound [OF this]]
  from 3 c d have "0 \<le> r \<and> r < 64 ^ (Suc k + n)" by (intro 3(1)) auto
  then show ?case by simp
qed simp

section \<open>The interface of a numeric codec\<close>

text \<open>
  \<open>enc v n\<close> is the text of \<open>n\<close> characters for \<open>v\<close>, \<open>dec s\<close> the number of a text; numbers
  and their bound are taken through \<open>num\<close>.
\<close>

locale numeric_codec =
  fixes enc :: "nat \<Rightarrow> nat \<Rightarrow> string option" and dec :: "string \<Rightarrow> nat option"
    and maxlen :: nat and limit :: nat
  assumes enc_dec: "0 < n \<Longrightarrow> n \<le> maxlen \<Longrightarrow> v < limit \<Longrightarrow>
      \<exists>s. enc v n = Some s \<and> length s = n \<and> dec s = Some (v mod 64 ^ n)"
begin

lemma enc_inj:
  assumes "0 < n" "n \<le> maxlen" "v < limit" "w < limit" "v < 64 ^ n" "w < 64 ^ n" "enc v n = enc w n"
  shows "v = w"
  using enc_dec [OF assms(1,2,3)] enc_dec [OF assms(1,2,4)] assms(5,6,7) by auto

lemma enc_prefix_free:
  assumes "0 < n" "n \<le> maxlen" "v < limit" "w < limit" "v < 64 ^ n" "w < 64 ^ n"
    "enc v n = Some s" "enc w n = Some t" "s @ x = t @ y"
  shows "v = w \<and> x = y"
proof -
  have "length s = n" "length t = n"
    using enc_dec [OF assms(1,2,3)] enc_dec [OF assms(1,2,4)] assms by auto
  with assms(9) have "s = t \<and> x = y" by simp
  moreover from this have "enc v n = enc w n" using assms(7,8) by simp
  then have "v = w" by (rule enc_inj [OF assms(1-6)])
  ultimately show ?thesis by simp
qed

end

interpretation numerics: numeric_codec
  "\<lambda>v n. longtonumeric (int v) n" "\<lambda>s. map_option nat (numerictolong s (length s))" 6 "2 ^ 63"
proof unfold_locales
  fix n v :: nat
  assume "0 < n" "n \<le> 6"
  then obtain s where s: "longtonumeric_loop (int v) n = Some s" "length s = n"
      "numerictolong_loop 0 s n = Some (int v mod 64 ^ n)"
    using longtonumeric_loop_ok [of "int v" n, OF of_nat_0_le_iff] by blast
  have "nat (int v mod 64 ^ n) = v mod 64 ^ n"
    by (simp add: nat_mod_distrib nat_power_eq)
  with s \<open>n \<le> 6\<close> show "\<exists>s. longtonumeric (int v) n = Some s \<and> length s = n
      \<and> map_option nat (numerictolong s (length s)) = Some (v mod 64 ^ n)"
    by (intro exI [of _ s]) (simp add: longtonumeric_def numerictolong_def)
qed

interpretation ip_numerics: numeric_codec
  "\<lambda>v n. Some (inttobase64 (of_nat v) n)" "\<lambda>s. map_option unat (base64toint s)" 5 "2 ^ 32"
proof unfold_locales
  fix n v :: nat
  assume n: "0 < n" "n \<le> 5" and v: "v < 2 ^ 32"
  then obtain k where k: "n = Suc k" by (cases n) auto
  have "take_bit 32 v = v" using v by (simp add: take_bit_nat_eq_self_iff)
  then have "unat (of_nat v :: 32 word) = v" by (simp add: unsigned_of_nat)
  then have "unat (take_bit (6 * n) (of_nat v :: 32 word)) = take_bit (6 * n) v"
    by (simp add: unsigned_take_bit_eq)
  also have "\<dots> = v mod 64 ^ n" by (simp add: take_bit_eq_mod power_mult)
  finally show "\<exists>s. Some (inttobase64 (of_nat v) n) = Some s \<and> length s = n
      \<and> map_option unat (base64toint s) = Some (v mod 64 ^ n)"
    using base64toint_inttobase64 [of "of_nat v" k] unfolding k by simp
qed

text \<open>
  C37: a numeric of up to six characters made by \<open>longtonumeric\<close> has that length, is read
  back by \<open>numerictolong\<close> as the number modulo the range of the length, and two numbers in
  range that give texts with the same start are the same number, as the protocol code that
  cuts server and client numerics out of one token needs.
\<close>

theorem longtonumeric_roundtrip:
  assumes "0 < n" "n \<le> 6" "v < 64 ^ n" "w < 64 ^ n"
  shows "\<exists>s. longtonumeric (int v) n = Some s \<and> length s = n \<and> numerictolong s n = Some (int v)
    \<and> (\<forall>t x y. longtonumeric (int w) n = Some t \<and> s @ x = t @ y \<longrightarrow> v = w \<and> x = y)"
proof -
  have "(64::nat) ^ n \<le> 64 ^ 6" using assms by (intro power_increasing) simp_all
  then have lim: "v < 2 ^ 63" "w < 2 ^ 63" using assms by simp_all
  obtain s where s: "longtonumeric (int v) n = Some s" "length s = n"
      "numerictolong s n = Some (int v mod 64 ^ n)"
    using longtonumeric_loop_ok [of "int v" n, OF of_nat_0_le_iff assms(2)] assms(2)
    unfolding longtonumeric_def numerictolong_def if_not_P [OF leD [OF assms(2)]] by blast
  have "int v < int (64 ^ n)" using assms(3) by (simp only: of_nat_less_iff)
  then have "int v mod 64 ^ n = int v" by simp
  with s(3) have "numerictolong s n = Some (int v)" by simp
  moreover have "\<forall>t x y. longtonumeric (int w) n = Some t \<and> s @ x = t @ y \<longrightarrow> v = w \<and> x = y"
    using numerics.enc_prefix_free [OF assms(1,2) lim assms(3,4) s(1)] by blast
  ultimately show ?thesis using s(1,2) by blast
qed

lemma longtonumeric_roundtrip_witness:
  "\<exists>s. longtonumeric 1000 2 = Some s \<and> numerictolong s 2 = Some 1000"
  using longtonumeric_roundtrip [of 2 1000 7] by auto

end
