(* ===== verification/LibUtil.thy ===== *)
theory LibUtil
  imports Prelude "HOL-Library.Multiset"
begin

text \<open>
  The small utilities of \<open>lib\<close>: line splitting (\<open>splitline.c\<close>), flag words
  (\<open>flags.c\<close>), the unordered array (\<open>array.c\<close>), numerics (\<open>base64.c\<close>), counted strings
  (\<open>sstring.c\<close>), bounded string buffers (\<open>stringbuf.c\<close>) and the bounded copies
  (\<open>strlfunc.c\<close>).
\<close>

unbundle bit_operations_syntax

section \<open>splitline\<close>

text \<open>
  The line is a buffer that is changed in place; a parameter is the index it starts at.
  \<open>instr\<close> is the state variable, \<open>i\<close> the index of \<open>c\<close>. The result is the buffer, with NUL
  for each space seen, and the output vector.
\<close>

function splitline_loop :: "string \<Rightarrow> nat list \<Rightarrow> bool \<Rightarrow> nat \<Rightarrow> nat \<Rightarrow> bool \<Rightarrow> string \<times> nat list" where
  "splitline_loop buf outv instr i maxparams coloncheck =
     (if i \<ge> length buf then (buf, outv)
      else if instr then
        (if buf ! i = CHR '' '' then
           splitline_loop (buf[i := NUL]) outv False (i + 1) maxparams coloncheck
         else splitline_loop buf outv True (i + 1) maxparams coloncheck)
      else if buf ! i = CHR '' '' then
        splitline_loop (buf[i := NUL]) outv False (i + 1) maxparams coloncheck
      else if buf ! i = CHR '':'' \<and> coloncheck \<and> outv \<noteq> [] then (buf, outv @ [i + 1])
      else if length outv + 1 = maxparams then (buf, outv @ [i])
      else splitline_loop buf (outv @ [i]) True (i + 1) maxparams coloncheck)"
  by pat_completeness auto
termination
  by (relation "measure (\<lambda>(buf, _, _, i, _). length buf - i)") auto

declare splitline_loop.simps [simp del]

definition splitline :: "string \<Rightarrow> nat \<Rightarrow> bool \<Rightarrow> string \<times> nat list" where
  "splitline inputstring maxparams coloncheck =
     splitline_loop inputstring [] False 0 maxparams coloncheck"

text \<open>The C string a parameter points at: up to the next NUL of the buffer.\<close>

definition cstr_at :: "string \<Rightarrow> nat \<Rightarrow> string" where
  "cstr_at buf i = takeWhile (\<lambda>c. c \<noteq> NUL) (drop i buf)"

text \<open>
  Reference: the parameters as strings. \<open>n\<close> is the number found so far.
\<close>

function split_spec :: "string \<Rightarrow> nat \<Rightarrow> nat \<Rightarrow> bool \<Rightarrow> string list" where
  "split_spec s n maxparams coloncheck =
     (let s = dropWhile (\<lambda>c. c = CHR '' '') s
      in if s = [] then []
         else if hd s = CHR '':'' \<and> coloncheck \<and> n > 0 then [tl s]
         else if n + 1 = maxparams then [s]
         else takeWhile (\<lambda>c. c \<noteq> CHR '' '') s
              # split_spec (dropWhile (\<lambda>c. c \<noteq> CHR '' '') s) (n + 1) maxparams coloncheck)"
  by pat_completeness auto
termination
proof (relation "measure (\<lambda>(s, _). length s)", goal_cases)
  case (2 s n maxparams coloncheck s')
  have "s' \<noteq> []" using 2 by simp
  then have "hd s' \<noteq> CHR '' ''" unfolding 2(1) using hd_dropWhile [of "\<lambda>c. c = CHR '' ''" s] by simp
  with \<open>s' \<noteq> []\<close> obtain c t where "s' = c # t" "c \<noteq> CHR '' ''" by (cases s') auto
  moreover have "length (dropWhile (\<lambda>c. c \<noteq> CHR '' '') t) \<le> length t" by (rule length_dropWhile_le)
  moreover have "length s' \<le> length s" unfolding 2(1) by (rule length_dropWhile_le)
  ultimately show ?case by simp
qed simp

declare split_spec.simps [simp del]

text \<open>
  \<open>rejoinline\<close> on the buffer from \<open>ch\<close> on: \<open>None\<close> when the loop runs past the end of the
  buffer, which holds the line and its terminating NUL.
\<close>

fun rejoin_loop :: "string \<Rightarrow> nat \<Rightarrow> bool \<Rightarrow> nat \<Rightarrow> string option" where
  "rejoin_loop [] i inword argstojoin = None"
| "rejoin_loop (c # s) i inword argstojoin =
     (if inword then
        (if c = NUL then
           (if i + 1 = argstojoin then Some (c # s)
            else map_option (Cons (CHR '' '')) (rejoin_loop s (i + 1) False argstojoin))
         else map_option (Cons c) (rejoin_loop s i True argstojoin))
      else if c \<noteq> NUL then map_option (Cons c) (rejoin_loop s i True argstojoin)
      else map_option (Cons (CHR '' '')) (rejoin_loop s i False argstojoin))"

definition rejoinline :: "string \<Rightarrow> nat \<Rightarrow> string option" where
  "rejoinline input argstojoin =
     (if argstojoin < 2 then Some input else rejoin_loop input 0 False argstojoin)"

section \<open>Flag words\<close>

record flag =
  flagchar :: char
  flagbit :: "32 word"

datatype reject = REJECT_NONE | REJECT_UNKNOWN | REJECT_DISALLOWED

text \<open>The character of the string is signed and the one of the table is not.\<close>

fun find_flag :: "char \<Rightarrow> flag list \<Rightarrow> flag option" where
  "find_flag ch [] = None"
| "find_flag ch (f # fs) =
     (if flagchar f = NUL then None
      else if schar ch = int (uchar (flagchar f)) then Some f else find_flag ch fs)"

fun setflags_loop :: "32 word \<Rightarrow> bool \<Rightarrow> 32 word \<Rightarrow> string \<Rightarrow> flag list \<Rightarrow> bool \<Rightarrow> bool
    \<Rightarrow> reject \<times> 32 word" where
  "setflags_loop newflags dir flagmask [] flagslist rej_unknown rej_disallowed = (REJECT_NONE, newflags)"
| "setflags_loop newflags dir flagmask (ch # s) flagslist rej_unknown rej_disallowed =
     (if ch = CHR ''+'' then setflags_loop newflags True flagmask s flagslist rej_unknown rej_disallowed
      else if ch = CHR ''-'' then setflags_loop newflags False flagmask s flagslist rej_unknown rej_disallowed
      else
        (case find_flag ch flagslist of
           Some f \<Rightarrow>
             if flagmask AND flagbit f \<noteq> 0 then
               setflags_loop (if dir then newflags OR flagbit f else newflags AND NOT (flagbit f))
                 dir flagmask s flagslist rej_unknown rej_disallowed
             else if rej_disallowed then (REJECT_DISALLOWED, newflags)
             else setflags_loop newflags dir flagmask s flagslist rej_unknown rej_disallowed
         | None \<Rightarrow>
             if rej_unknown then (REJECT_UNKNOWN, newflags)
             else setflags_loop newflags dir flagmask s flagslist rej_unknown rej_disallowed))"

text \<open>\<open>*inflags\<close> is assigned only at the end.\<close>

definition setflags :: "32 word \<Rightarrow> 32 word \<Rightarrow> string \<Rightarrow> flag list \<Rightarrow> bool \<Rightarrow> bool \<Rightarrow> reject \<times> 32 word" where
  "setflags inflags flagmask flagstr flagslist rej_unknown rej_disallowed =
     (let (r, newflags) = setflags_loop inflags True flagmask flagstr flagslist rej_unknown rej_disallowed
      in (r, if r = REJECT_NONE then newflags else inflags))"

text \<open>The entries the printing loops look at: up to the NUL entry, at most 32.\<close>

definition flag_entries :: "flag list \<Rightarrow> flag list" where
  "flag_entries fs = take 32 (takeWhile (\<lambda>f. flagchar f \<noteq> NUL) fs)"

definition flag_chars :: "(32 word \<Rightarrow> bool) \<Rightarrow> flag list \<Rightarrow> string" where
  "flag_chars P fs = map flagchar (filter (\<lambda>f. P (flagbit f)) (flag_entries fs))"

definition printflags_noprefix :: "32 word \<Rightarrow> flag list \<Rightarrow> string" where
  "printflags_noprefix inflags flaglist = flag_chars (\<lambda>b. inflags AND b \<noteq> 0) flaglist"

definition printflags :: "32 word \<Rightarrow> flag list \<Rightarrow> string" where
  "printflags inflags flaglist = ''+'' @ flag_chars (\<lambda>b. inflags AND b \<noteq> 0) flaglist"

definition printflagsornone :: "32 word \<Rightarrow> flag list \<Rightarrow> string" where
  "printflagsornone inflags flaglist =
     (let cs = flag_chars (\<lambda>b. inflags AND b \<noteq> 0) flaglist
      in if cs = [] then ''none'' else ''+'' @ cs)"

definition printflagdiff :: "32 word \<Rightarrow> 32 word \<Rightarrow> flag list \<Rightarrow> string" where
  "printflagdiff oldflags newflags flaglist =
     (let rem = flag_chars (\<lambda>b. oldflags AND b \<noteq> 0 \<and> newflags AND b = 0) flaglist;
          new = flag_chars (\<lambda>b. oldflags AND b = 0 \<and> newflags AND b \<noteq> 0) flaglist
      in (if rem = [] then [] else ''-'' @ rem) @ (if new = [] then [] else ''+'' @ new))"

section \<open>What splitline finds\<close>

lemma split_spec_simps [simp]:
  "split_spec [] n mp cc = []"
  "split_spec (CHR '' '' # s) n mp cc = split_spec s n mp cc"
  by (subst split_spec.simps, simp) (subst (1 2) split_spec.simps, simp)

lemma split_spec_word:
  "c \<noteq> CHR '' '' \<Longrightarrow> split_spec (c # s) n mp cc =
     (if c = CHR '':'' \<and> cc \<and> n > 0 then [s]
      else if n + 1 = mp then [c # s]
      else (c # takeWhile (\<lambda>c. c \<noteq> CHR '' '') s)
           # split_spec (dropWhile (\<lambda>c. c \<noteq> CHR '' '') s) (n + 1) mp cc)"
  by (subst split_spec.simps) (simp add: Let_def)

lemma cstr_at_step:
  "i < length buf \<Longrightarrow> cstr_at buf i = (if buf ! i = NUL then [] else buf ! i # cstr_at buf (Suc i))"
  by (simp add: cstr_at_def Cons_nth_drop_Suc [symmetric])

lemma cstr_at_clean: "NUL \<notin> set (drop i buf) \<Longrightarrow> cstr_at buf i = drop i buf"
  unfolding cstr_at_def by (rule takeWhile_eq_all_conv [THEN iffD2]) auto

definition split_post :: "string \<Rightarrow> nat list \<Rightarrow> bool \<Rightarrow> nat \<Rightarrow> nat \<Rightarrow> bool \<Rightarrow> string \<Rightarrow> nat list \<Rightarrow> bool" where
  "split_post buf outv instr i mp cc buf' outv' \<longleftrightarrow>
     length buf' = length buf \<and> take i buf' = take i buf
     \<and> (\<exists>new. outv' = outv @ new \<and>
          map (cstr_at buf') new =
            split_spec (if instr then dropWhile (\<lambda>c. c \<noteq> CHR '' '') (drop i buf) else drop i buf)
              (length outv) mp cc)
     \<and> (instr \<longrightarrow> cstr_at buf' i = takeWhile (\<lambda>c. c \<noteq> CHR '' '') (drop i buf))"

lemma nth_of_take_eq: "take (Suc i) xs = take (Suc i) ys \<Longrightarrow> xs ! i = ys ! i"
  by (metis lessI nth_take)

lemma take_of_take_eq: "take (Suc i) xs = take (Suc i) ys \<Longrightarrow> take i xs = take i ys"
  by (metis min.absorb1 le_SucI order_refl take_take)

lemma splitline_loop_post:
  assumes "splitline_loop buf outv instr i mp cc = (buf', outv')" "NUL \<notin> set (drop i buf)"
    "i \<le> length buf"
  shows "split_post buf outv instr i mp cc buf' outv'"
  using assms
proof (induction buf outv instr i mp cc rule: splitline_loop.induct)
  case (1 buf outv instr i mp cc)
  show ?case
  proof (cases "i \<ge> length buf")
    case True
    with "1.prems" show ?thesis
      by (simp add: splitline_loop.simps [of buf] split_post_def cstr_at_def)
  next
    case False
    let ?s = "drop (Suc i) buf"
    have cons: "drop i buf = buf ! i # ?s" using False by (simp add: Cons_nth_drop_Suc)
    then have nul: "buf ! i \<noteq> NUL" "NUL \<notin> set ?s" using "1.prems"(2) by auto
    have len: "Suc i \<le> length buf" using False by simp
    note step = "1.prems"(1) [unfolded splitline_loop.simps [of buf outv instr i mp cc]]
    consider (close) "instr" "buf ! i = CHR '' ''" | (word) "instr" "buf ! i \<noteq> CHR '' ''"
      | (blank) "\<not> instr" "buf ! i = CHR '' ''" | (start) "\<not> instr" "buf ! i \<noteq> CHR '' ''" by blast
    then show ?thesis
    proof cases
      case close
      have "split_post (buf[i := NUL]) outv False (i + 1) mp cc buf' outv'"
        using close False step nul len by (intro "1.IH"(1)) simp_all
      then show ?thesis
        using close cons len nth_of_take_eq [of i buf' "buf[i := NUL]"] take_of_take_eq [of i buf' "buf[i := NUL]"]
        by (auto simp: split_post_def cstr_at_step)
    next
      case word
      have "split_post buf outv True (i + 1) mp cc buf' outv'"
        using word False step nul len by (intro "1.IH"(2)) simp_all
      then show ?thesis
        using word cons len nul nth_of_take_eq [of i buf' buf] take_of_take_eq [of i buf' buf]
        by (auto simp: split_post_def cstr_at_step)
    next
      case blank
      have "split_post (buf[i := NUL]) outv False (i + 1) mp cc buf' outv'"
        using blank False step nul len by (intro "1.IH"(3)) simp_all
      then show ?thesis
        using blank cons len take_of_take_eq [of i buf' "buf[i := NUL]"]
        by (auto simp: split_post_def)
    next
      case start
      note w = split_spec_word [OF start(2), of ?s "length outv" mp cc]
      consider (colon) "buf ! i = CHR '':'' \<and> cc \<and> outv \<noteq> []"
        | (max) "\<not> (buf ! i = CHR '':'' \<and> cc \<and> outv \<noteq> [])" "length outv + 1 = mp"
        | (new) "\<not> (buf ! i = CHR '':'' \<and> cc \<and> outv \<noteq> [])" "length outv + 1 \<noteq> mp" by blast
      then show ?thesis
      proof cases
        case colon
        with start False step nul cons w show ?thesis
          by (auto simp: split_post_def cstr_at_clean)
      next
        case max
        with start False step "1.prems"(2) cons w show ?thesis
          by (auto simp: split_post_def cstr_at_clean)
      next
        case new
        have "split_post buf (outv @ [i]) True (i + 1) mp cc buf' outv'"
          using start new False step nul len
          by (intro "1.IH"(4)) (auto split: if_splits)
        then show ?thesis
          using start new cons w len nul nth_of_take_eq [of i buf' buf] take_of_take_eq [of i buf' buf]
          by (auto simp: split_post_def cstr_at_step)
      qed
    qed
  qed
qed

text \<open>
  The parameters \<open>splitline\<close> leaves in the line are the words of the line between
  spaces, the last one running to the end when it starts with a colon (and is not the
  first) or when \<open>maxparams\<close> is reached.
\<close>

lemma splitline_words:
  assumes "cstring line"
  shows "map (cstr_at (fst (splitline line maxparams coloncheck))) (snd (splitline line maxparams coloncheck))
    = split_spec line 0 maxparams coloncheck"
  using assms splitline_loop_post [of line "[]" False 0 maxparams coloncheck]
  by (cases "splitline line maxparams coloncheck")
     (auto simp: splitline_def split_post_def cstring_def)

lemma splitline_words_witness:
  "map (cstr_at (fst (splitline ''A  bc :d e'' 20 True))) (snd (splitline ''A  bc :d e'' 20 True))
    = [''A'', ''bc'', ''d e'']"
proof -
  have "split_spec ''A  bc :d e'' 0 20 True = [''A'', ''bc'', ''d e'']"
    by (simp add: split_spec_word)
  then show ?thesis using splitline_words [of "''A  bc :d e''" 20 True] by (simp add: cstring_def)
qed

section \<open>Flags printed and applied again\<close>

definition flag_table_ok :: "flag list \<Rightarrow> bool" where
  "flag_table_ok fs \<longleftrightarrow>
     length (takeWhile (\<lambda>f. flagchar f \<noteq> NUL) fs) \<le> 32
     \<and> distinct (map flagchar (takeWhile (\<lambda>f. flagchar f \<noteq> NUL) fs))
     \<and> (\<forall>f \<in> set (takeWhile (\<lambda>f. flagchar f \<noteq> NUL) fs).
          uchar (flagchar f) < 128 \<and> flagchar f \<noteq> CHR ''+'' \<and> flagchar f \<noteq> CHR ''-''
          \<and> (\<exists>n < 32. flagbit f = push_bit n 1))"

lemma find_flag_entry:
  assumes "f \<in> set (takeWhile (\<lambda>f. flagchar f \<noteq> NUL) fs)"
    "distinct (map flagchar (takeWhile (\<lambda>f. flagchar f \<noteq> NUL) fs))"
    "\<forall>f \<in> set (takeWhile (\<lambda>f. flagchar f \<noteq> NUL) fs). uchar (flagchar f) < 128"
  shows "find_flag (flagchar f) fs = Some f"
  using assms
proof (induction fs)
  case (Cons g fs)
  have s: "schar (flagchar f) = int (uchar (flagchar f))"
    using Cons.prems(1,3) by (auto simp: schar_uchar)
  show ?case
  proof (cases "f = g")
    case True
    with Cons.prems s show ?thesis by (auto split: if_splits)
  next
    case False
    with Cons.prems have "f \<in> set (takeWhile (\<lambda>f. flagchar f \<noteq> NUL) fs)" "flagchar g \<noteq> NUL"
      "flagchar g \<noteq> flagchar f" by (auto split: if_splits intro: rev_image_eqI)
    with Cons s show ?thesis by auto
  qed
qed simp

lemma flag_bit_test:
  assumes "n < 32" shows "(w :: 32 word) AND push_bit n 1 \<noteq> 0 \<longleftrightarrow> bit w n"
proof
  assume "w AND push_bit n 1 \<noteq> 0"
  then obtain k where "bit (w AND push_bit n 1) k" by (auto simp: bit_eq_iff)
  then show "bit w n" by (auto simp: bit_simps split: if_splits)
next
  assume "bit w n"
  then have "bit (w AND push_bit n 1) n" using assms by (simp add: bit_simps)
  then show "w AND push_bit n 1 \<noteq> 0" by auto
qed

definition apply_flag :: "bool \<Rightarrow> 32 word \<Rightarrow> 32 word \<Rightarrow> 32 word" where
  "apply_flag dir w b = (if dir then w OR b else w AND NOT b)"

lemma setflags_loop_chars:
  assumes ok: "flag_table_ok fs" and "set es \<subseteq> set (takeWhile (\<lambda>f. flagchar f \<noteq> NUL) fs)"
  shows "setflags_loop w dir (- 1) (map flagchar es @ s) fs u d
    = setflags_loop (foldl (apply_flag dir) w (map flagbit es)) dir (- 1) s fs u d"
  using assms(2)
proof (induction es arbitrary: w)
  case (Cons e es)
  then have e: "e \<in> set (takeWhile (\<lambda>f. flagchar f \<noteq> NUL) fs)" by simp
  then have "find_flag (flagchar e) fs = Some e"
    using ok by (intro find_flag_entry) (auto simp: flag_table_ok_def)
  moreover from e ok obtain n where "n < 32" "flagbit e = push_bit n 1"
      "flagchar e \<noteq> CHR ''+''" "flagchar e \<noteq> CHR ''-''"
    by (auto simp: flag_table_ok_def)
  moreover from this have "flagbit e \<noteq> 0" using flag_bit_test [of n "- 1"] by simp
  ultimately show ?case using Cons by (simp add: apply_flag_def)
qed simp

lemma bit_fold_apply:
  "bit (foldl (apply_flag dir) w bs) n \<longleftrightarrow>
     (if dir then bit w n \<or> (\<exists>b \<in> set bs. bit b n) else bit w n \<and> (\<forall>b \<in> set bs. \<not> bit b n))"
  if "n < 32"
  using that by (induction bs arbitrary: w) (auto simp: apply_flag_def bit_simps)

lemma flag_chars_set:
  assumes "flag_table_ok fs"
  shows "flag_chars P fs
    = map flagchar (filter (\<lambda>f. P (flagbit f)) (takeWhile (\<lambda>f. flagchar f \<noteq> NUL) fs))"
  using assms by (simp add: flag_chars_def flag_entries_def flag_table_ok_def)

lemma printflagdiff_apply:
  assumes ok: "flag_table_ok fs"
    and cover: "\<forall>n < 32. bit old n \<noteq> bit new n
      \<longrightarrow> (\<exists>f \<in> set (takeWhile (\<lambda>f. flagchar f \<noteq> NUL) fs). bit (flagbit f) n)"
  shows "setflags_loop old True (- 1) (printflagdiff old new fs) fs u d = (REJECT_NONE, new)"
proof -
  let ?E = "takeWhile (\<lambda>f. flagchar f \<noteq> NUL) fs"
  define rem where "rem = filter (\<lambda>f. old AND flagbit f \<noteq> 0 \<and> new AND flagbit f = 0) ?E"
  define add where "add = filter (\<lambda>f. old AND flagbit f = 0 \<and> new AND flagbit f \<noteq> 0) ?E"
  have sub: "set rem \<subseteq> set ?E" "set add \<subseteq> set ?E" unfolding rem_def add_def by auto
  have txt_eq: "printflagdiff old new fs
      = (if rem = [] then [] else ''-'' @ map flagchar rem @ [])
        @ (if add = [] then [] else ''+'' @ map flagchar add @ [])"
    unfolding printflagdiff_def Let_def flag_chars_set [OF ok] rem_def add_def by simp
  define w1 where "w1 = foldl (apply_flag False) old (map flagbit rem)"
  define w2 where "w2 = foldl (apply_flag True) w1 (map flagbit add)"
  have "setflags_loop old True (- 1) (printflagdiff old new fs) fs u d = (REJECT_NONE, w2)"
    unfolding txt_eq w2_def w1_def
    using setflags_loop_chars [OF ok sub(1)] setflags_loop_chars [OF ok sub(2)]
    by simp (metis append_Nil2 setflags_loop.simps(1))
  moreover have "w2 = new"
  proof (rule bit_word_eqI)
    fix n assume "n < LENGTH(32)"
    then have n: "n < 32" by simp
    have single: "bit (flagbit f) k \<longleftrightarrow> (\<forall>w. (w AND flagbit f \<noteq> 0) = bit w k)"
      if "f \<in> set ?E" "k < 32" for f k
    proof -
      from that ok obtain m where "m < 32" "flagbit f = push_bit m 1"
        by (auto simp: flag_table_ok_def)
      with that(2) flag_bit_test [of m] show ?thesis
        by (auto simp: bit_simps dest: spec [where x = "push_bit m 1"])
    qed
    have rem: "(\<exists>b \<in> set (map flagbit rem). bit b n) \<longleftrightarrow>
        bit old n \<and> \<not> bit new n \<and> (\<exists>f \<in> set ?E. bit (flagbit f) n)"
      unfolding rem_def using single n by auto
    have add: "(\<exists>b \<in> set (map flagbit add). bit b n) \<longleftrightarrow>
        \<not> bit old n \<and> bit new n \<and> (\<exists>f \<in> set ?E. bit (flagbit f) n)"
      unfolding add_def using single n by auto
    have "bit w2 n \<longleftrightarrow> (bit old n \<and> \<not> (\<exists>b \<in> set (map flagbit rem). bit b n))
        \<or> (\<exists>b \<in> set (map flagbit add). bit b n)"
      unfolding w2_def w1_def bit_fold_apply [OF n] by auto
    then show "bit w2 n = bit new n" unfolding rem add using cover n by blast
  qed
  ultimately show ?thesis by simp
qed

text \<open>
  C36: applying the text \<open>printflagdiff\<close> prints for two flag words to the first one with
  \<open>setflags\<close> gives the second one, for a table of at most 32 single-bit flags with
  distinct letters that knows every flag in which the words differ.
\<close>

theorem setflags_printflagdiff:
  assumes "flag_table_ok fs"
    and "\<forall>n < 32. bit old n \<noteq> bit new n
      \<longrightarrow> (\<exists>f \<in> set (takeWhile (\<lambda>f. flagchar f \<noteq> NUL) fs). bit (flagbit f) n)"
  shows "setflags old (- 1) (printflagdiff old new fs) fs True True = (REJECT_NONE, new)"
  unfolding setflags_def printflagdiff_apply [OF assms] by simp

lemma setflags_printflagdiff_witness:
  "setflags 1 (- 1) (printflagdiff 1 2 [\<lparr>flagchar = CHR ''n'', flagbit = 1\<rparr>,
       \<lparr>flagchar = CHR ''t'', flagbit = 2\<rparr>, \<lparr>flagchar = NUL, flagbit = 0\<rparr>])
     [\<lparr>flagchar = CHR ''n'', flagbit = 1\<rparr>, \<lparr>flagchar = CHR ''t'', flagbit = 2\<rparr>,
       \<lparr>flagchar = NUL, flagbit = 0\<rparr>] True True = (REJECT_NONE, 2)"
proof (rule setflags_printflagdiff)
  have "(1 :: 32 word) = push_bit 0 1" "(2 :: 32 word) = push_bit 1 1" by simp_all
  then show "flag_table_ok [\<lparr>flagchar = CHR ''n'', flagbit = 1\<rparr>,
      \<lparr>flagchar = CHR ''t'', flagbit = 2\<rparr>, \<lparr>flagchar = NUL, flagbit = 0\<rparr>]"
    by (auto simp: flag_table_ok_def uchar_def intro: exI [of _ 0] exI [of _ 1])
qed (auto simp: bit_simps bit_1_iff)

section \<open>The unordered array\<close>

text \<open>
  \<open>content\<close> holds \<open>capacity\<close> slots, \<open>None\<close> for memory that was never written. A failed
  \<open>realloc\<close> ends the program and is not modelled.
\<close>

record 'a carray =
  content :: "'a option list"
  cursi :: nat
  capacity :: nat
  allocchunksize :: nat
  freechunksize :: nat

definition array_init :: "'a carray" where
  "array_init = \<lparr>content = [], cursi = 0, capacity = 0, allocchunksize = 100, freechunksize = 150\<rparr>"

definition array_free :: "'a carray \<Rightarrow> 'a carray" where
  "array_free a = array_init"

definition array_getfreeslot :: "'a carray \<Rightarrow> nat \<times> 'a carray" where
  "array_getfreeslot a =
     (let a' = (if cursi a + 1 \<ge> capacity a
                then a\<lparr>capacity := capacity a + allocchunksize a,
                       content := content a @ replicate (allocchunksize a) None\<rparr>
                else a)
      in (cursi a', a'\<lparr>cursi := cursi a' + 1\<rparr>))"

definition array_delslot :: "'a carray \<Rightarrow> nat \<Rightarrow> 'a carray" where
  "array_delslot a index =
     (let c = cursi a - 1;
          a1 = a\<lparr>cursi := c,
                 content := (if c \<noteq> index then (content a)[index := content a ! c] else content a)\<rparr>
      in if c + freechunksize a < capacity a
         then a1\<lparr>capacity := c + allocchunksize a, content := take (c + allocchunksize a) (content a1)\<rparr>
         else a1)"

definition array_ok :: "'a carray \<Rightarrow> bool" where
  "array_ok a \<longleftrightarrow>
     length (content a) = capacity a \<and> cursi a \<le> capacity a
     \<and> 0 < allocchunksize a \<and> allocchunksize a \<le> freechunksize a"

definition items :: "'a carray \<Rightarrow> 'a option list" where
  "items a = take (cursi a) (content a)"

lemma array_getfreeslot_ok:
  assumes "array_ok a" "array_getfreeslot a = (i, a')"
  shows "array_ok a' \<and> i < length (content a') \<and> butlast (items a') = items a"
proof -
  define c where "c = (if cursi a + 1 \<ge> capacity a
    then content a @ replicate (allocchunksize a) None else content a)"
  have ok: "length (content a) = capacity a" "cursi a \<le> capacity a" "0 < allocchunksize a"
    "allocchunksize a \<le> freechunksize a"
    using assms(1) by (simp_all add: array_ok_def)
  have c: "cursi a < length c" "take (cursi a) c = take (cursi a) (content a)"
    using ok by (auto simp: c_def)
  have i: "i = cursi a" and a': "content a' = c" "cursi a' = Suc (cursi a)" "array_ok a'"
    using assms(2) ok by (auto simp: array_getfreeslot_def c_def array_ok_def Let_def)
  have "items a' = take (cursi a) c @ [c ! cursi a]"
    using c by (simp add: items_def a' take_Suc_conv_app_nth)
  with c i a' show ?thesis by (simp add: items_def)
qed

text \<open>Swapping the last item into the hole removes one occurrence of the deleted item.\<close>

lemma swap_remove_mset:
  assumes "i < length xs"
  shows "mset (butlast (xs[i := last xs])) = mset xs - {#xs ! i#}"
proof (cases xs rule: rev_cases)
  case Nil
  with assms show ?thesis by simp
next
  case (snoc ys y)
  show ?thesis
  proof (cases "i = length ys")
    case True
    with snoc show ?thesis by simp
  next
    case False
    with assms snoc have "i < length ys" by simp
    with snoc show ?thesis
      by (simp add: list_update_append nth_append mset_update add_mset_remove_trivial_If)
  qed
qed

lemma array_delslot_items:
  assumes ok: "array_ok a" and i: "i < cursi a"
  shows "array_ok (array_delslot a i)" "items (array_delslot a i) = butlast ((items a)[i := last (items a)])"
proof -
  let ?c = "cursi a - 1"
  have c: "?c < cursi a" "cursi a \<le> length (content a)" using ok i by (auto simp: array_ok_def)
  show "array_ok (array_delslot a i)"
    using ok i by (auto simp: array_ok_def array_delslot_def Let_def)
  have last: "last (items a) = content a ! ?c"
    using c by (subst last_conv_nth) (auto simp: items_def)
  have "items (array_delslot a i) = take ?c (if ?c \<noteq> i then (content a)[i := content a ! ?c] else content a)"
    by (simp add: items_def array_delslot_def Let_def min_def)
  also have "\<dots> = take ?c ((content a)[i := content a ! ?c])"
    by (simp add: list_update_id)
  also have "\<dots> = butlast ((items a)[i := last (items a)])"
    using c last by (simp add: items_def butlast_conv_take take_update_swap min_def)
  finally show "items (array_delslot a i) = butlast ((items a)[i := last (items a)])" .
qed

text \<open>
  C38: \<open>array_delslot\<close> keeps the array well formed and removes exactly the item at the given
  index (as a multiset: the last item is moved into the hole); a slot handed out by
  \<open>array_getfreeslot\<close> lies inside the allocated block.
\<close>

theorem array_delslot_removes:
  assumes "array_ok a" "i < cursi a"
  shows "array_ok (array_delslot a i)
    \<and> mset (items (array_delslot a i)) = mset (items a) - {#items a ! i#}
    \<and> (\<forall>j b. array_getfreeslot a = (j, b) \<longrightarrow> array_ok b \<and> j < length (content b))"
proof -
  have "i < length (items a)" using assms by (simp add: items_def array_ok_def)
  then show ?thesis
    using array_delslot_items [OF assms] swap_remove_mset [of i "items a"]
      array_getfreeslot_ok [OF assms(1)] by simp
qed

lemma array_delslot_removes_witness:
  "mset (items (array_delslot \<lparr>content = [Some True, Some False, Some False, None], cursi = 3,
       capacity = 4, allocchunksize = 1, freechunksize = 1\<rparr> 0)) = {#Some False, Some False#}"
proof -
  let ?a = "\<lparr>content = [Some True, Some False, Some False, None], cursi = 3,
       capacity = 4, allocchunksize = 1, freechunksize = 1\<rparr>"
  have "items ?a = [Some True, Some False, Some False]" by (simp add: items_def)
  moreover have "mset (items (array_delslot ?a 0)) = mset (items ?a) - {#items ?a ! 0#}"
    using array_delslot_removes [of ?a 0] by (simp add: array_ok_def)
  ultimately show ?thesis by simp
qed

section \<open>String buffers\<close>

record StringBuf =
  buf :: string
  sbcapacity :: int
  sblen :: nat

definition sbinit :: "string \<Rightarrow> int \<Rightarrow> StringBuf" where
  "sbinit c cap = \<lparr>buf = c, sbcapacity = cap, sblen = 0\<rparr>"

definition sbput :: "StringBuf \<Rightarrow> char \<Rightarrow> StringBuf" where
  "sbput b c = b\<lparr>buf := (buf b)[sblen b := c], sblen := sblen b + 1\<rparr>"

definition sbaddchar :: "StringBuf \<Rightarrow> char \<Rightarrow> bool \<times> StringBuf" where
  "sbaddchar b c = (if int (sblen b) \<ge> sbcapacity b - 1 then (False, b) else (True, sbput b c))"

fun sbaddstr_loop :: "StringBuf \<Rightarrow> int \<Rightarrow> string \<Rightarrow> bool \<times> StringBuf" where
  "sbaddstr_loop b remaining [] = (True, b)"
| "sbaddstr_loop b remaining (c # p) =
     (if remaining \<le> 0 then (False, b) else sbaddstr_loop (sbput b c) (remaining - 1) p)"

definition sbaddstr :: "StringBuf \<Rightarrow> string \<Rightarrow> bool \<times> StringBuf" where
  "sbaddstr b c = sbaddstr_loop b (sbcapacity b - int (sblen b) - 1) c"

text \<open>\<open>sbaddstrlen\<close> takes the bytes of \<open>c\<close> up to \<open>len\<close>, NUL or not.\<close>

definition sbaddstrlen :: "StringBuf \<Rightarrow> string \<Rightarrow> nat \<Rightarrow> bool \<times> StringBuf" where
  "sbaddstrlen b c len = sbaddstr_loop b (sbcapacity b - int (sblen b) - 1) (take len c)"

definition sbterminate :: "StringBuf \<Rightarrow> bool \<times> StringBuf" where
  "sbterminate b =
     (if sbcapacity b - int (sblen b) > 0 then (True, b\<lparr>buf := (buf b)[sblen b := NUL]\<rparr>)
      else (False, b))"

definition sb_ok :: "StringBuf \<Rightarrow> bool" where
  "sb_ok b \<longleftrightarrow> sbcapacity b = int (length (buf b)) \<and> sblen b < length (buf b)"

definition sb_text :: "StringBuf \<Rightarrow> string" where
  "sb_text b = take (sblen b) (buf b)"

lemma sbput_ok:
  assumes "sb_ok b" "0 < sbcapacity b - int (sblen b) - 1"
  shows "sb_ok (sbput b c)" "sb_text (sbput b c) = sb_text b @ [c]"
    "sbcapacity (sbput b c) - int (sblen (sbput b c)) - 1 = sbcapacity b - int (sblen b) - 1 - 1"
  using assms by (auto simp: sb_ok_def sbput_def sb_text_def take_Suc_conv_app_nth)

lemma sbaddstr_loop_ok:
  assumes "sb_ok b" "remaining = sbcapacity b - int (sblen b) - 1" "sbaddstr_loop b remaining s = (r, b')"
  shows "sb_ok b' \<and> sb_text b' = sb_text b @ take (nat remaining) s
     \<and> (r \<longleftrightarrow> length s \<le> nat remaining)"
  using assms
proof (induction b remaining s rule: sbaddstr_loop.induct)
  case (2 b remaining c p)
  show ?case
  proof (cases "remaining \<le> 0")
    case True
    with 2 show ?thesis by simp
  next
    case False
    have "sb_ok b' \<and> sb_text b' = sb_text (sbput b c) @ take (nat (remaining - 1)) p
        \<and> (r \<longleftrightarrow> length p \<le> nat (remaining - 1))"
      using 2 False sbput_ok [of b c] by (intro "2.IH") simp_all
    moreover have "nat remaining = Suc (nat (remaining - 1))" using False by simp
    ultimately show ?thesis using sbput_ok [of b c] 2 False by simp
  qed
qed auto

text \<open>
  \<open>sbaddstr\<close> appends the longest prefix of its argument that leaves room for the NUL,
  reports whether that was all of it, and keeps the buffer in a state in which
  \<open>sbterminate\<close> succeeds.
\<close>

lemma sbaddstr_fits:
  assumes "sb_ok b"
  shows "sb_ok (snd (sbaddstr b s))
    \<and> sb_text (snd (sbaddstr b s)) = sb_text b @ take (length (buf b) - sblen b - 1) s
    \<and> (fst (sbaddstr b s) \<longleftrightarrow> length s \<le> length (buf b) - sblen b - 1)
    \<and> fst (sbterminate (snd (sbaddstr b s)))"
proof -
  obtain r b' where rb: "sbaddstr b s = (r, b')" by fastforce
  have "nat (sbcapacity b - int (sblen b) - 1) = length (buf b) - sblen b - 1"
    using assms by (auto simp: sb_ok_def)
  moreover have "sb_ok b' \<and> sb_text b' = sb_text b @ take (nat (sbcapacity b - int (sblen b) - 1)) s
     \<and> (r \<longleftrightarrow> length s \<le> nat (sbcapacity b - int (sblen b) - 1))"
    using rb assms by (intro sbaddstr_loop_ok) (simp_all add: sbaddstr_def)
  ultimately show ?thesis unfolding rb by (auto simp: sbterminate_def sb_ok_def)
qed

lemma sbaddstr_fits_witness:
  "sb_text (snd (sbaddstr (sbinit ''....'' 4) ''abcd'')) = ''abc''"
  using sbaddstr_fits [of "sbinit ''....'' 4" "''abcd''"] by (simp add: sb_ok_def sbinit_def sb_text_def)

section \<open>Counted strings\<close>

record sstring =
  ss_length :: int
  ss_content :: string

text \<open>
  \<open>getsstring\<close> of a non-NULL string; \<open>None\<close> when the assertion on the length fails. The
  length field is a \<open>short\<close>, which holds every length the assertion lets through.
\<close>

definition SSTRING_MAX :: nat where
  "SSTRING_MAX = 512"

definition getsstring :: "string \<Rightarrow> nat \<Rightarrow> sstring option" where
  "getsstring inputstr maxlen =
     (let len = length inputstr + 1; len = (if len > maxlen then maxlen + 1 else len)
      in if len > SSTRING_MAX + 1 then None
         else Some \<lparr>ss_length = int len - 1, ss_content = take (len - 1) inputstr\<rparr>)"

text \<open>The text of a counted string, where the assertion holds.\<close>

definition sstr :: "string \<Rightarrow> nat \<Rightarrow> string" where
  "sstr s n = (case getsstring s n of None \<Rightarrow> [] | Some x \<Rightarrow> ss_content x)"

lemma sstr_take: "n \<le> SSTRING_MAX \<Longrightarrow> sstr s n = take n s"
  by (auto simp: sstr_def getsstring_def Let_def min_def)

fun strncmp0 :: "string \<Rightarrow> string \<Rightarrow> nat \<Rightarrow> int" where
  "strncmp0 s t 0 = 0"
| "strncmp0 s t (Suc n) =
     (if deref s \<noteq> deref t then (if uchar (deref s) < uchar (deref t) then - 1 else 1)
      else if s = [] then 0 else strncmp0 (tl s) (tl t) n)"

definition sstringcompare :: "sstring \<Rightarrow> sstring \<Rightarrow> int" where
  "sstringcompare ss1 ss2 =
     (if ss_length ss1 \<noteq> ss_length ss2 then - 1
      else strncmp0 (ss_content ss1) (ss_content ss2) (nat (ss_length ss1)))"

lemma strncmp0_eq:
  "cstring s \<Longrightarrow> cstring t \<Longrightarrow> length s = n \<Longrightarrow> length t = n \<Longrightarrow> strncmp0 s t n = 0 \<longleftrightarrow> s = t"
proof (induction s t n rule: strncmp0.induct)
  case (2 s t n)
  then show ?case by (cases s; cases t) auto
qed auto

text \<open>
  Two counted strings made by \<open>getsstring\<close> compare equal exactly when the texts cut to
  \<open>maxlen\<close> characters are the same; for \<open>maxlen\<close> up to 512 the assertion never fails.
\<close>

lemma sstringcompare_getsstring:
  assumes "cstring s" "cstring t" "m \<le> SSTRING_MAX"
  shows "\<exists>a b. getsstring s m = Some a \<and> getsstring t m = Some b
    \<and> (sstringcompare a b = 0 \<longleftrightarrow> take m s = take m t)"
proof -
  define a where "a = \<lparr>ss_length = int (length (take m s)), ss_content = take m s\<rparr>"
  define b where "b = \<lparr>ss_length = int (length (take m t)), ss_content = take m t\<rparr>"
  have g: "getsstring s m = Some a" "getsstring t m = Some b"
    using assms(3) by (auto simp: getsstring_def a_def b_def Let_def min_def)
  have "sstringcompare a b = 0 \<longleftrightarrow> take m s = take m t"
  proof (cases "length (take m s) = length (take m t)")
    case True
    then show ?thesis
      using assms strncmp0_eq [of "take m s" "take m t"]
      by (simp add: sstringcompare_def a_def b_def)
  next
    case False
    then have "take m s \<noteq> take m t" by metis
    with False show ?thesis by (simp add: sstringcompare_def a_def b_def)
  qed
  with g show ?thesis by blast
qed

lemma sstringcompare_getsstring_witness:
  "\<exists>a b. getsstring ''chan'' 2 = Some a \<and> getsstring ''chop'' 2 = Some b \<and> sstringcompare a b = 0"
  using sstringcompare_getsstring [of "''chan''" "''chop''" 2] by (auto simp: SSTRING_MAX_def cstring_def)

section \<open>Bounded copies\<close>

text \<open>
  The copying loop: what is written, the rest of the source and the rest of the count.
  It stops after writing the NUL or when the count is used up.
\<close>

fun strlcpy_loop :: "string \<Rightarrow> nat \<Rightarrow> string \<times> string \<times> nat" where
  "strlcpy_loop [] n = ([NUL], [], n)"
| "strlcpy_loop (c # s) n =
     (if n - 1 = 0 then ([c], s, 0)
      else let (w, r, m) = strlcpy_loop s (n - 1) in (c # w, r, m))"

definition strlcpy :: "string \<Rightarrow> string \<Rightarrow> nat \<Rightarrow> string \<times> nat" where
  "strlcpy dst src siz =
     (let (w, r, n) = (if siz \<noteq> 0 \<and> siz - 1 \<noteq> 0 then strlcpy_loop src (siz - 1) else ([], src, 0));
          w = (if n = 0 \<and> siz \<noteq> 0 then w @ [NUL] else w)
      in (w @ drop (length w) dst, length src))"

fun strlcat_loop :: "string \<Rightarrow> nat \<Rightarrow> string" where
  "strlcat_loop [] n = []"
| "strlcat_loop (c # s) n = (if n \<noteq> 1 then c # strlcat_loop s (n - 1) else strlcat_loop s n)"

definition strlcat :: "string \<Rightarrow> string \<Rightarrow> nat \<Rightarrow> string \<times> nat" where
  "strlcat dst src siz =
     (let dlen = length (takeWhile (\<lambda>c. c \<noteq> NUL) (take siz dst)); n = siz - dlen
      in if n = 0 then (dst, dlen + length src)
         else let w = strlcat_loop src n @ [NUL]
              in (take dlen dst @ w @ drop (dlen + length w) dst, dlen + length src))"

lemma strlcpy_loop_spec:
  "0 < n \<Longrightarrow> strlcpy_loop s n =
     (if length s < n then (s @ [NUL], [], n - length s) else (take n s, drop n s, 0))"
proof (induction s n rule: strlcpy_loop.induct)
  case (2 c s n)
  then show ?case by (cases n; cases "n - 1") auto
qed simp

lemma strlcat_loop_spec: "0 < n \<Longrightarrow> strlcat_loop s n = take (n - 1) s"
proof (induction s n rule: strlcat_loop.induct)
  case (2 c s n)
  then show ?case by (cases n; cases "n - 1") auto
qed simp

text \<open>
  \<open>strlcpy\<close> and \<open>strlcat\<close> write inside a destination of the given size, leave it NUL
  terminated with the longest text that fits, and return the length the whole text would
  have had.
\<close>

lemma strl_spec:
  assumes "length dst = siz" "0 < siz" "cstring d" "length d < siz" "cstring src"
  shows "length (fst (strlcpy dst src siz)) = siz
    \<and> cstr_at (fst (strlcpy dst src siz)) 0 = take (siz - 1) src \<and> snd (strlcpy dst src siz) = length src
    \<and> (let b = d @ NUL # drop (length d + 1) dst
       in length (fst (strlcat b src siz)) = siz
          \<and> cstr_at (fst (strlcat b src siz)) 0 = take (siz - 1) (d @ src)
          \<and> snd (strlcat b src siz) = length d + length src)"
proof -
  have tw: "takeWhile (\<lambda>c. c \<noteq> NUL) (x @ NUL # y) = x" if "cstring x" for x y
    using that by (induction x) auto
  let ?w = "take (siz - 1) src @ [NUL]"
  have cpy: "strlcpy dst src siz = (?w @ drop (length ?w) dst, length src)"
  proof (cases "siz = 1")
    case True
    then show ?thesis by (simp add: strlcpy_def)
  next
    case False
    with assms(2) have "0 < siz - 1" by simp
    then show ?thesis
      using False by (auto simp: strlcpy_def strlcpy_loop_spec Let_def)
  qed
  let ?b = "d @ NUL # drop (length d + 1) dst"
  have dl: "takeWhile (\<lambda>c. c \<noteq> NUL) (take siz ?b) = d"
    using assms tw [of d] by simp
  let ?v = "take (siz - length d - 1) src @ [NUL]"
  have cat: "strlcat ?b src siz = (d @ ?v @ drop (length d + length ?v) ?b, length d + length src)"
    unfolding strlcat_def Let_def dl using assms by (simp add: strlcat_loop_spec)
  have "take (siz - 1) (d @ src) = d @ take (siz - length d - 1) src"
    using assms(4) by (simp add: diff_commute)
  then show ?thesis
    unfolding cpy Let_def cat using assms tw [of "take (siz - 1) src"] tw [of "d @ take (siz - length d - 1) src"]
    by (auto simp: cstr_at_def)
qed

lemma strl_spec_witness:
  "cstr_at (fst (strlcpy ''xxxx'' ''abcde'' 4)) 0 = ''abc''"
  using strl_spec [of "''xxxx''" 4 "''a''" "''abcde''"] by simp

end
