(* ===== verification/Schedule.thy ===== *)
theory Schedule
  imports LibUtil
begin

text \<open>
  The timer queue of \<open>core/schedule.c\<close>: a binary heap of pointers to \<open>schedule\<close>
  structures, each of which records its place in the heap. A pointer is an identity, the
  structures are a store \<open>mem\<close>, \<open>events\<close> the first \<open>heapsize\<close> slots of the array (its
  growth is not visible). Shown: the heap order and the index fields are kept by every
  operation, the queue refines a priority queue, and \<open>doscheduledevents\<close> ends with no due
  event left when the callbacks leave the queue alone and every interval is positive.
\<close>

section \<open>State\<close>

datatype sched_type = SCHEDULE_ONESHOT | SCHEDULE_REPEATING

record ('cb, 'arg) schedule =
  nextschedule :: int
  stype :: sched_type
  repeatinterval :: int
  repeatcount :: int
  callback :: "'cb option"
  callbackparam :: 'arg
  sindex :: int
  sdeleted :: bool

record ('cb, 'arg) sched =
  events :: "nat list"
  mem :: "nat \<Rightarrow> ('cb, 'arg) schedule"
  fresh :: nat
  schedadds :: nat
  scheddels :: nat
  scheddelfast :: nat
  schedexes :: nat

definition key :: "('cb, 'arg) sched \<Rightarrow> nat \<Rightarrow> int" where
  "key st p = nextschedule (mem st p)"

definition set_index :: "nat \<Rightarrow> int \<Rightarrow> ('cb, 'arg) sched \<Rightarrow> ('cb, 'arg) sched" where
  "set_index p i st = st\<lparr>mem := (mem st)(p := mem st p\<lparr>sindex := i\<rparr>)\<rparr>"

definition initschedule :: "(nat \<Rightarrow> ('cb, 'arg) schedule) \<Rightarrow> ('cb, 'arg) sched" where
  "initschedule m = \<lparr>events = [], mem = m, fresh = 0, schedadds = 0, scheddels = 0,
     scheddelfast = 0, schedexes = 0\<rparr>"

section \<open>The heap\<close>

text \<open>\<open>events[pos] = p; p->index = pos\<close>, and the exchange of two slots.\<close>

definition put :: "nat \<Rightarrow> nat \<Rightarrow> ('cb, 'arg) sched \<Rightarrow> ('cb, 'arg) sched" where
  "put pos p st = set_index p (int pos) (st\<lparr>events := (events st)[pos := p]\<rparr>)"

definition swap_slots :: "nat \<Rightarrow> nat \<Rightarrow> ('cb, 'arg) sched \<Rightarrow> ('cb, 'arg) sched" where
  "swap_slots i j st =
     (let p = events st ! i; q = events st ! j in put i q (put j p st))"

definition first_index :: "('cb, 'arg) sched \<Rightarrow> nat \<Rightarrow> nat" where
  "first_index st index =
     (let n = length (events st); l = index * 2 + 1; r = index * 2 + 2;
          f = (if key st (events st ! index) > key st (events st ! l) then l else index)
      in if r < n \<and> key st (events st ! f) > key st (events st ! r) then r else f)"

lemma length_put [simp]: "length (events (put pos p st)) = length (events st)"
  by (simp add: put_def set_index_def)

lemma length_swap [simp]: "length (events (swap_slots i j st)) = length (events st)"
  by (simp add: swap_slots_def Let_def)

lemma first_index_cases:
  "first_index st i = i \<or> first_index st i = i * 2 + 1
   \<or> (first_index st i = i * 2 + 2 \<and> i * 2 + 2 < length (events st))"
  by (auto simp: first_index_def Let_def)

function schedule_heapify :: "nat \<Rightarrow> ('cb, 'arg) sched \<Rightarrow> ('cb, 'arg) sched" where
  "schedule_heapify index st =
     (if index * 2 + 1 \<ge> length (events st) then st
      else let f = first_index st index
           in if f = index then st else schedule_heapify f (swap_slots f index st))"
  by pat_completeness auto
termination
proof (relation "measure (\<lambda>(index, st). length (events st) - index)", goal_cases)
  case (2 index st f)
  then show ?case using first_index_cases [of st index] by auto
qed simp

declare schedule_heapify.simps [simp del]

text \<open>The vacant slot travels up until its parent is not later than the new element.\<close>

function insert_loop :: "nat \<Rightarrow> nat \<Rightarrow> ('cb, 'arg) sched \<Rightarrow> ('cb, 'arg) sched" where
  "insert_loop sp mypos st =
     (let myparent = (mypos - 1) div 2
      in if mypos = 0 \<or> key st sp \<ge> key st (events st ! myparent) then put mypos sp st
         else insert_loop sp myparent (put mypos (events st ! myparent) st))"
  by pat_completeness auto
termination
  by (relation "measure (\<lambda>(_, mypos, _). mypos)") auto

declare insert_loop.simps [simp del]

definition insertschedule :: "nat \<Rightarrow> ('cb, 'arg) sched \<Rightarrow> ('cb, 'arg) sched" where
  "insertschedule sp st =
     insert_loop sp (length (events st))
       (st\<lparr>schedadds := schedadds st + 1, events := events st @ [sp]\<rparr>)"




section \<open>The operations\<close>

text \<open>\<open>getschedule\<close> hands out a structure that is not in use.\<close>

definition getschedule :: "('cb, 'arg) schedule \<Rightarrow> ('cb, 'arg) sched \<Rightarrow> nat \<times> ('cb, 'arg) sched" where
  "getschedule s st = (fresh st, st\<lparr>fresh := fresh st + 1, mem := (mem st)(fresh st := s)\<rparr>)"

definition scheduleoneshot :: "int \<Rightarrow> 'cb option \<Rightarrow> 'arg \<Rightarrow> ('cb, 'arg) sched
    \<Rightarrow> nat \<times> ('cb, 'arg) sched" where
  "scheduleoneshot when cb arg st =
     (let (sp, st) = getschedule \<lparr>nextschedule = when, stype = SCHEDULE_ONESHOT, repeatinterval = 0,
            repeatcount = 1, callback = cb, callbackparam = arg, sindex = 0, sdeleted = False\<rparr> st
      in (sp, insertschedule sp st))"







text \<open>
  One iteration of \<open>doscheduledevents\<close>. Taking the first event off the queue; with one
  event left the slot is copied onto itself and its index becomes 0 again.
\<close>

definition pop_event :: "('cb, 'arg) sched \<Rightarrow> ('cb, 'arg) sched" where
  "pop_event st =
     (let sp = events st ! 0; st1 = set_index sp (- 1) st; p = last (events st);
          st2 = set_index p 0 (st1\<lparr>events := (butlast (events st))[0 := p]\<rparr>)
      in schedule_heapify 0 st2)"





section \<open>Heap order\<close>

text \<open>
  The order on an array of keys; \<open>hole_down\<close> holds when only the edges from \<open>i\<close> to its
  children may be wrong, \<open>hole_up\<close> when only the edge from \<open>i\<close> to its parent may be.
\<close>

definition parent :: "nat \<Rightarrow> nat" where
  "parent j = (j - 1) div 2"

definition heap :: "nat \<Rightarrow> (nat \<Rightarrow> int) \<Rightarrow> bool" where
  "heap n k \<longleftrightarrow> (\<forall>j. 0 < j \<and> j < n \<longrightarrow> k (parent j) \<le> k j)"

definition hole_down :: "nat \<Rightarrow> (nat \<Rightarrow> int) \<Rightarrow> nat \<Rightarrow> bool" where
  "hole_down n k i \<longleftrightarrow>
     (\<forall>j. 0 < j \<and> j < n \<and> parent j \<noteq> i \<longrightarrow> k (parent j) \<le> k j)
     \<and> (\<forall>j. 0 < j \<and> j < n \<and> parent j = i \<and> 0 < i \<longrightarrow> k (parent i) \<le> k j)"

definition hole_up :: "nat \<Rightarrow> (nat \<Rightarrow> int) \<Rightarrow> nat \<Rightarrow> bool" where
  "hole_up n k i \<longleftrightarrow>
     (\<forall>j. 0 < j \<and> j < n \<and> j \<noteq> i \<longrightarrow> k (parent j) \<le> k j)
     \<and> (\<forall>j. 0 < j \<and> j < n \<and> parent j = i \<and> 0 < i \<longrightarrow> k (parent i) \<le> k j)"

lemma parent_less: "0 < j \<Longrightarrow> parent j < j"
  by (auto simp: parent_def)

lemma parent_eq: "0 < j \<Longrightarrow> parent j = i \<longleftrightarrow> j = i * 2 + 1 \<or> j = i * 2 + 2"
  by (auto simp: parent_def)

lemma heap_root: "heap n k \<Longrightarrow> i < n \<Longrightarrow> k 0 \<le> k i"
proof (induction i rule: less_induct)
  case (less i)
  show ?case
  proof (cases "i = 0")
    case False
    then have "k (parent i) \<le> k i" "parent i < i" using less.prems by (auto simp: heap_def parent_less)
    with less show ?thesis by force
  qed simp
qed

lemma hole_down_leaf: "hole_down n k i \<Longrightarrow> n \<le> i * 2 + 1 \<Longrightarrow> heap n k"
  unfolding hole_down_def heap_def by (metis (no_types, lifting) parent_eq not_le trans_le_add1 add_2_eq_Suc' add_Suc_right less_SucI Suc_eq_plus1)

lemma hole_down_heap:
  assumes "hole_down n k i" "\<And>j. 0 < j \<Longrightarrow> j < n \<Longrightarrow> parent j = i \<Longrightarrow> k i \<le> k j"
  shows "heap n k"
  using assms unfolding hole_down_def heap_def by metis

lemma hole_down_step:
  assumes h: "hole_down n k i" and f: "0 < f" "f < n" "parent f = i" and lt: "k f < k i"
    and least: "\<And>j. 0 < j \<Longrightarrow> j < n \<Longrightarrow> parent j = i \<Longrightarrow> k f \<le> k j"
  shows "hole_down n (k(i := k f, f := k i)) f"
proof -
  let ?k = "k(i := k f, f := k i)"
  have fi: "i < f" using f parent_less by blast
  have h1: "\<And>j. 0 < j \<Longrightarrow> j < n \<Longrightarrow> parent j \<noteq> i \<Longrightarrow> k (parent j) \<le> k j"
    and h2: "\<And>j. 0 < j \<Longrightarrow> j < n \<Longrightarrow> parent j = i \<Longrightarrow> 0 < i \<Longrightarrow> k (parent i) \<le> k j"
    using h by (simp_all add: hole_down_def)
  have "?k (parent j) \<le> ?k j" if j: "0 < j" "j < n" "parent j \<noteq> f" for j
  proof -
    consider "parent j = i" "j = f" | "parent j = i" "j \<noteq> f" | "parent j \<noteq> i" "j = i"
      | "parent j \<noteq> i" "j \<noteq> i" "j = f" | "parent j \<noteq> i" "j \<noteq> i" "j \<noteq> f" by blast
    then show ?thesis
    proof cases
      case 1
      with fi lt show ?thesis by simp
    next
      case 2
      with fi j least parent_less [of j] show ?thesis by simp
    next
      case 3
      have "parent i \<noteq> f" using parent_less [of i] 3 j fi by auto
      then show ?thesis using 3 j h2 [OF f] fi by simp
    next
      case 4
      with f show ?thesis by simp
    next
      case 5
      with j h1 [of j] show ?thesis by simp
    qed
  qed
  moreover have "?k (parent f) \<le> ?k j" if j: "0 < j" "j < n" "parent j = f" for j
  proof -
    have "f < j" using j parent_less by metis
    with fi have "j \<noteq> f" "j \<noteq> i" "f \<noteq> i" by simp_all
    moreover have "k f \<le> k j" using h1 [of j] j fi by simp
    ultimately show ?thesis using f by simp
  qed
  ultimately show ?thesis by (auto simp: hole_down_def)
qed

lemma hole_up_heap:
  assumes "hole_up n k i" "i = 0 \<or> k (parent i) \<le> k i"
  shows "heap n k"
  unfolding heap_def
proof (intro allI impI)
  fix j assume j: "0 < j \<and> j < n"
  with assms show "k (parent j) \<le> k j" by (cases "j = i") (auto simp: hole_up_def)
qed

lemma hole_up_step:
  assumes h: "hole_up n k i" and i: "0 < i" "i < n" and lt: "k i < k (parent i)"
  shows "hole_up n (k(i := k (parent i), parent i := k i)) (parent i)"
proof -
  let ?p = "parent i" and ?k = "k(i := k (parent i), parent i := k i)"
  have pi: "?p < i" using i parent_less by simp
  have h1: "\<And>j. 0 < j \<Longrightarrow> j < n \<Longrightarrow> j \<noteq> i \<Longrightarrow> k (parent j) \<le> k j"
    and h2: "\<And>j. 0 < j \<Longrightarrow> j < n \<Longrightarrow> parent j = i \<Longrightarrow> k ?p \<le> k j"
    using h i by (simp_all add: hole_up_def)
  have up: "0 < ?p \<Longrightarrow> k (parent ?p) \<le> k ?p" using h1 [of ?p] pi i by simp
  have "?k (parent j) \<le> ?k j" if j: "0 < j" "j < n" "j \<noteq> ?p" for j
  proof -
    consider "j = i" | "j \<noteq> i" "parent j = i" | "j \<noteq> i" "parent j = ?p"
      | "j \<noteq> i" "parent j \<noteq> i" "parent j \<noteq> ?p" by blast
    then show ?thesis
    proof cases
      case 1
      with pi lt show ?thesis by simp
    next
      case 2
      with j h2 pi show ?thesis by simp
    next
      case 3
      with j h1 [of j] lt pi show ?thesis by simp
    next
      case 4
      with j h1 [of j] show ?thesis by simp
    qed
  qed
  moreover have "?k (parent ?p) \<le> ?k j" if j: "0 < j" "j < n" "parent j = ?p" "0 < ?p" for j
  proof -
    have pp: "parent ?p < ?p" using j parent_less by simp
    have "k (parent ?p) \<le> k ?p" using up j by simp
    moreover have "j \<noteq> ?p" using j(1,3) parent_less [of j] by auto
    moreover have "j \<noteq> i \<Longrightarrow> k ?p \<le> k j" using h1 [of j] j by simp
    ultimately show ?thesis using pp pi by (cases "j = i") auto
  qed
  ultimately show ?thesis by (auto simp: hole_up_def)
qed

section \<open>The operations on slots\<close>

definition slot_key :: "('cb, 'arg) sched \<Rightarrow> nat \<Rightarrow> int" where
  "slot_key st i = key st (events st ! i)"

text \<open>Everything but the index fields and the order of the slots.\<close>

definition same_content :: "('cb, 'arg) sched \<Rightarrow> ('cb, 'arg) sched \<Rightarrow> bool" where
  "same_content st st' \<longleftrightarrow>
     (\<forall>p. (mem st' p)\<lparr>sindex := 0\<rparr> = (mem st p)\<lparr>sindex := 0\<rparr>)
     \<and> mset (events st') = mset (events st) \<and> fresh st' = fresh st"

definition index_ok :: "('cb, 'arg) sched \<Rightarrow> bool" where
  "index_ok st \<longleftrightarrow> distinct (events st)
     \<and> (\<forall>i < length (events st). sindex (mem st (events st ! i)) = int i)"

lemma key_updates [simp]:
  "key (st\<lparr>events := e\<rparr>) = key st" "key (st\<lparr>schedadds := a\<rparr>) = key st"
  "key (st\<lparr>scheddels := a\<rparr>) = key st" "key (st\<lparr>scheddelfast := a\<rparr>) = key st"
  "key (st\<lparr>schedexes := a\<rparr>) = key st"
  by (simp_all add: key_def fun_eq_iff)

lemma same_content_refl [simp]: "same_content st st"
  by (simp add: same_content_def)

lemma same_content_trans: "same_content a b \<Longrightarrow> same_content b c \<Longrightarrow> same_content a c"
  by (simp add: same_content_def)

lemma sindex_update_eq:
  fixes s t :: "('cb, 'arg) schedule"
  assumes "s\<lparr>sindex := 0\<rparr> = t\<lparr>sindex := 0\<rparr>"
  shows "nextschedule s = nextschedule t" "stype s = stype t" "repeatinterval s = repeatinterval t"
    "repeatcount s = repeatcount t" "callback s = callback t" "callbackparam s = callbackparam t"
    "sdeleted s = sdeleted t"
  using assms by (cases s; cases t; simp)+

lemma same_content_key: "same_content st st' \<Longrightarrow> key st' p = key st p"
  unfolding same_content_def key_def using sindex_update_eq(1) by blast

lemma key_put [simp]: "key (put i p st) q = key st q"
  by (simp add: put_def set_index_def key_def)

lemma events_put [simp]: "events (put i p st) = (events st)[i := p]"
  by (simp add: put_def set_index_def)

lemma mem_put: "mem (put i p st) q = (if q = p then (mem st p)\<lparr>sindex := int i\<rparr> else mem st q)"
  by (simp add: put_def set_index_def)

lemma fresh_put [simp]: "fresh (put i p st) = fresh st"
  by (simp add: put_def set_index_def)

lemma swap_slots_ok:
  assumes "i < length (events st)" "j < length (events st)" "i \<noteq> j" "index_ok st"
  shows "same_content st (swap_slots i j st)" "index_ok (swap_slots i j st)"
    "slot_key (swap_slots i j st) = (slot_key st)(i := slot_key st j, j := slot_key st i)"
proof -
  let ?p = "events st ! i" and ?q = "events st ! j"
  have d: "distinct (events st)" and idx: "\<And>k. k < length (events st) \<Longrightarrow> sindex (mem st (events st ! k)) = int k"
    using assms(4) by (simp_all add: index_ok_def)
  have pq: "?p \<noteq> ?q" using d assms(1-3) by (simp add: nth_eq_iff_index_eq)
  have ev: "events (swap_slots i j st) = (events st)[j := ?p, i := ?q]"
    by (simp add: swap_slots_def Let_def)
  have ev': "events (swap_slots i j st) = (events st)[i := ?q, j := ?p]"
    unfolding ev using assms(3) by (rule list_update_swap [OF not_sym])
  have m: "mset (events (swap_slots i j st)) = mset (events st)"
    unfolding ev using assms(1,2) by (rule mset_swap)
  have mm: "mem (swap_slots i j st) r = (if r = ?q then (mem st ?q)\<lparr>sindex := int i\<rparr>
      else if r = ?p then (mem st ?p)\<lparr>sindex := int j\<rparr> else mem st r)" for r
    using pq by (simp add: swap_slots_def Let_def mem_put)
  show "same_content st (swap_slots i j st)"
    unfolding same_content_def using m by (auto simp: mm) (simp add: swap_slots_def Let_def)
  show "slot_key (swap_slots i j st) = (slot_key st)(i := slot_key st j, j := slot_key st i)"
  proof
    fix k
    show "slot_key (swap_slots i j st) k = ((slot_key st)(i := slot_key st j, j := slot_key st i)) k"
      unfolding slot_key_def ev' using assms
      by (cases "k < length (events st)") (auto simp: swap_slots_def Let_def nth_list_update)
  qed
  have "distinct (events (swap_slots i j st))"
    using m d by (metis mset_eq_imp_distinct_iff)
  moreover have "sindex (mem (swap_slots i j st) (events (swap_slots i j st) ! k)) = int k"
    if "k < length (events st)" for k
  proof -
    have "events st ! k = ?p \<longleftrightarrow> k = i" "events st ! k = ?q \<longleftrightarrow> k = j"
      using d assms(1,2) that by (auto simp: nth_eq_iff_index_eq)
    then show ?thesis unfolding mm ev' using assms(1-3) that idx pq
      by (auto simp: nth_list_update)
  qed
  ultimately show "index_ok (swap_slots i j st)" by (simp add: index_ok_def)
qed

lemma first_index_least:
  assumes "i * 2 + 1 < length (events st)"
  shows "first_index st i = i \<or> (0 < first_index st i \<and> first_index st i < length (events st)
      \<and> parent (first_index st i) = i \<and> slot_key st (first_index st i) < slot_key st i)"
    and "0 < j \<Longrightarrow> j < length (events st) \<Longrightarrow> parent j = i
      \<Longrightarrow> slot_key st (first_index st i) \<le> slot_key st j"
proof -
  show "first_index st i = i \<or> (0 < first_index st i \<and> first_index st i < length (events st)
      \<and> parent (first_index st i) = i \<and> slot_key st (first_index st i) < slot_key st i)"
    using assms by (auto simp: first_index_def Let_def slot_key_def parent_def)
  assume "0 < j" "j < length (events st)" "parent j = i"
  then have "j = i * 2 + 1 \<or> j = i * 2 + 2" using parent_eq by blast
  then show "slot_key st (first_index st i) \<le> slot_key st j"
    using \<open>j < length (events st)\<close> by (auto simp: first_index_def Let_def slot_key_def)
qed

lemma schedule_heapify_ok:
  assumes "hole_down (length (events st)) (slot_key st) i" "index_ok st" "i < length (events st)"
  shows "heap (length (events st)) (slot_key (schedule_heapify i st))
    \<and> same_content st (schedule_heapify i st) \<and> index_ok (schedule_heapify i st)
    \<and> length (events (schedule_heapify i st)) = length (events st)"
  using assms
proof (induction i st rule: schedule_heapify.induct)
  case (1 i st)
  let ?n = "length (events st)" and ?f = "first_index st i"
  show ?case
  proof (cases "i * 2 + 1 \<ge> ?n")
    case True
    with 1 hole_down_leaf show ?thesis by (simp add: schedule_heapify.simps)
  next
    case False
    then have n: "i * 2 + 1 < ?n" by simp
    note f = first_index_least(1) [OF n] and least = first_index_least(2) [OF n]
    show ?thesis
    proof (cases "?f = i")
      case True
      with least have "heap ?n (slot_key st)" by (intro hole_down_heap [OF "1.prems"(1)]) auto
      with True False 1 show ?thesis by (simp add: schedule_heapify.simps [of i st] Let_def)
    next
      case f': False
      with f have F: "0 < ?f" "?f < ?n" "parent ?f = i" "slot_key st ?f < slot_key st i" by auto
      let ?st = "swap_slots ?f i st"
      note sw = swap_slots_ok [OF F(2) "1.prems"(3) f' "1.prems"(2)]
      have "hole_down ?n ((slot_key st)(i := slot_key st ?f, ?f := slot_key st i)) ?f"
        by (rule hole_down_step [OF "1.prems"(1) F least])
      then have "hole_down (length (events ?st)) (slot_key ?st) ?f"
        unfolding sw(3) using f' by (simp add: fun_upd_twist)
      then have "heap (length (events ?st)) (slot_key (schedule_heapify ?f ?st))
          \<and> same_content ?st (schedule_heapify ?f ?st) \<and> index_ok (schedule_heapify ?f ?st)
          \<and> length (events (schedule_heapify ?f ?st)) = length (events ?st)"
        using False f' F sw(2) by (intro "1.IH") auto
      moreover have "schedule_heapify i st = schedule_heapify ?f ?st"
        using False f' by (simp add: schedule_heapify.simps [of i st] Let_def)
      ultimately show ?thesis using same_content_trans [OF sw(1)] by simp
    qed
  qed
qed


section \<open>Insertion and removal\<close>

definition sched_ok :: "('cb, 'arg) sched \<Rightarrow> bool" where
  "sched_ok st \<longleftrightarrow> heap (length (events st)) (slot_key st) \<and> index_ok st
     \<and> (\<forall>p \<in> set (events st). p < fresh st)"

text \<open>
  The state while the vacant slot travels up: the heap with the new element put into the
  vacant slot has at most the edge to its parent wrong.
\<close>

definition insert_inv :: "nat \<Rightarrow> nat \<Rightarrow> ('cb, 'arg) sched \<Rightarrow> bool" where
  "insert_inv sp i st \<longleftrightarrow>
     i < length (events st)
     \<and> hole_up (length (events st)) ((slot_key st)(i := key st sp)) i
     \<and> distinct ((events st)[i := sp])
     \<and> (\<forall>k < length (events st). k \<noteq> i \<longrightarrow> sindex (mem st (events st ! k)) = int k)"

lemma slot_key_put:
  "i < length (events st) \<Longrightarrow> slot_key (put i p st) = (slot_key st)(i := key st p)"
  by (auto simp: slot_key_def fun_eq_iff nth_list_update)

lemma insert_put_ok:
  assumes "insert_inv sp i st"
  shows "index_ok (put i sp st)"
  unfolding index_ok_def
proof (intro conjI allI impI)
  show "distinct (events (put i sp st))" using assms by (simp add: insert_inv_def)
  fix k assume "k < length (events (put i sp st))"
  then have k: "k < length (events st)" by simp
  show "sindex (mem (put i sp st) (events (put i sp st) ! k)) = int k"
  proof (cases "k = i")
    case True
    with k show ?thesis by (simp add: mem_put)
  next
    case False
    have "(events st)[i := sp] ! k \<noteq> (events st)[i := sp] ! i"
      using assms k False by (subst nth_eq_iff_index_eq) (auto simp: insert_inv_def)
    with False k assms show ?thesis by (auto simp: mem_put insert_inv_def)
  qed
qed

lemma insert_loop_ok:
  assumes "insert_inv sp i st"
  shows "heap (length (events st)) (slot_key (insert_loop sp i st))
    \<and> index_ok (insert_loop sp i st) \<and> same_content (st\<lparr>events := (events st)[i := sp]\<rparr>) (insert_loop sp i st)
    \<and> length (events (insert_loop sp i st)) = length (events st)"
  using assms
proof (induction sp i st rule: insert_loop.induct)
  case (1 sp i st)
  let ?n = "length (events st)" and ?p = "parent i"
  have i: "i < ?n" and h: "hole_up ?n ((slot_key st)(i := key st sp)) i"
    using "1.prems" by (simp_all add: insert_inv_def)
  have put_same: "same_content (st\<lparr>events := (events st)[i := p]\<rparr>) (put i p st)" for p
    by (simp add: same_content_def mem_put)
  show ?case
  proof (cases "i = 0 \<or> slot_key st ?p \<le> key st sp")
    case True
    have "i = 0 \<or> ((slot_key st)(i := key st sp)) ?p \<le> ((slot_key st)(i := key st sp)) i"
      using True by auto
    then have "heap ?n ((slot_key st)(i := key st sp))" by (rule hole_up_heap [OF h])
    moreover have "insert_loop sp i st = put i sp st"
      using True by (simp add: insert_loop.simps [of sp i st] slot_key_def parent_def)
    ultimately show ?thesis
      using slot_key_put [OF i] insert_put_ok [OF "1.prems"] put_same by (simp add: fun_upd_def)
  next
    case False
    then have pos: "0 < i" "key st sp < slot_key st ?p" "?p < i" by (simp_all add: parent_less)
    then have p: "?p < ?n" using i by simp
    let ?q = "events st ! ?p" and ?k = "(slot_key st)(i := key st sp)"
    let ?st = "put i ?q st"
    have ne: "i \<noteq> ?p" using pos by simp
    have sk: "slot_key ?st = (slot_key st)(i := slot_key st ?p)"
      using slot_key_put [OF i] by (simp add: slot_key_def)
    have "hole_up ?n (?k(i := ?k ?p, ?p := ?k i)) ?p"
      using pos by (intro hole_up_step [OF h pos(1) i]) simp
    moreover have "?k(i := ?k ?p, ?p := ?k i) = (slot_key ?st)(?p := key ?st sp)"
      unfolding sk using ne by (auto simp: fun_eq_iff)
    ultimately have up: "hole_up ?n ((slot_key ?st)(?p := key ?st sp)) ?p" by simp
    have d: "distinct ((events st)[i := sp])" using "1.prems" by (simp add: insert_inv_def)
    have ev: "(events ?st)[?p := sp] = (events st)[i := ?q, ?p := sp]" by simp
    have m: "mset ((events ?st)[?p := sp]) = mset ((events st)[i := sp])"
    proof -
      let ?xs = "(events st)[i := sp]"
      have "(events st)[i := ?q, ?p := sp] = ?xs[i := ?xs ! ?p, ?p := ?xs ! i]"
        using i p ne by (simp add: list_update_swap)
      also have "mset \<dots> = mset ?xs"
        using i p mset_swap [of ?p ?xs i] by simp
      finally show ?thesis unfolding ev .
    qed
    then have d': "distinct ((events ?st)[?p := sp])" using d by (metis mset_eq_imp_distinct_iff)
    have inv: "insert_inv sp ?p ?st"
      unfolding insert_inv_def
    proof (intro conjI allI impI)
      show "?p < length (events ?st)" using p by simp
      show "hole_up (length (events ?st)) ((slot_key ?st)(?p := key ?st sp)) ?p" using up by simp
      show "distinct ((events ?st)[?p := sp])" by (rule d')
      fix k assume k: "k < length (events ?st)" "k \<noteq> ?p"
      show "sindex (mem ?st (events ?st ! k)) = int k"
      proof (cases "k = i")
        case True
        with i show ?thesis by (simp add: mem_put)
      next
        case False
        have "(events st)[i := sp] ! k \<noteq> (events st)[i := sp] ! ?p"
          using d k p by (subst nth_eq_iff_index_eq) auto
        then have "events st ! k \<noteq> ?q" using False ne by simp
        with False k "1.prems" show ?thesis by (simp add: mem_put insert_inv_def)
      qed
    qed
    have "heap (length (events ?st)) (slot_key (insert_loop sp ?p ?st))
        \<and> index_ok (insert_loop sp ?p ?st)
        \<and> same_content (?st\<lparr>events := (events ?st)[?p := sp]\<rparr>) (insert_loop sp ?p ?st)
        \<and> length (events (insert_loop sp ?p ?st)) = length (events ?st)"
      by (rule "1.IH" [OF refl, folded parent_def, OF False [unfolded slot_key_def] inv])
    moreover have "insert_loop sp i st = insert_loop sp ?p ?st"
      using False by (simp add: insert_loop.simps [of sp i st] slot_key_def parent_def Let_def)
    moreover have "same_content (st\<lparr>events := (events st)[i := sp]\<rparr>) (?st\<lparr>events := (events ?st)[?p := sp]\<rparr>)"
      using m by (simp add: same_content_def mem_put)
    ultimately show ?thesis using same_content_trans by (metis length_put)
  qed
qed

lemma heap_snoc_hole:
  assumes "heap n k" shows "hole_up (Suc n) (k(n := x)) n"
  using assms unfolding hole_up_def heap_def
  by (auto simp: parent_less less_Suc_eq) (metis Suc_lessD le_less_trans not_less_eq parent_less order_less_imp_le less_irrefl)+

lemma hole_up_cong:
  assumes "\<And>j. j < n \<Longrightarrow> k j = k' j" "i < n"
  shows "hole_up n k i \<longleftrightarrow> hole_up n k' i"
proof -
  have "parent j < n" if "0 < j" "j < n" for j using that parent_less [of j] by simp
  moreover have "0 < i \<Longrightarrow> parent i < n" using assms(2) parent_less [of i] by simp
  ultimately show ?thesis using assms by (simp add: hole_up_def cong: conj_cong imp_cong)
qed

lemma heap_cong:
  assumes "\<And>j. j < n \<Longrightarrow> k j = k' j"
  shows "heap n k \<longleftrightarrow> heap n k'"
proof -
  have "parent j < n" if "0 < j" "j < n" for j using that parent_less [of j] by simp
  with assms show ?thesis by (simp add: heap_def cong: conj_cong imp_cong)
qed

lemma insertschedule_ok:
  assumes ok: "sched_ok st" and new: "sp \<notin> set (events st)" "sp < fresh st"
  shows "sched_ok (insertschedule sp st)"
    and "same_content (st\<lparr>events := events st @ [sp]\<rparr>) (insertschedule sp st)"
    and "length (events (insertschedule sp st)) = Suc (length (events st))"
proof -
  let ?n = "length (events st)"
  let ?st = "st\<lparr>schedadds := schedadds st + 1, events := events st @ [sp]\<rparr>"
  have ks: "key ?st = key st" by (simp add: key_def fun_eq_iff)
  have "hole_up (Suc ?n) ((slot_key st)(?n := key st sp)) ?n"
    using ok by (intro heap_snoc_hole) (simp add: sched_ok_def)
  moreover have "((slot_key ?st)(?n := key ?st sp)) i = ((slot_key st)(?n := key st sp)) i"
    if "i < Suc ?n" for i
    using that by (simp add: slot_key_def ks nth_append)
  ultimately have "hole_up (Suc ?n) ((slot_key ?st)(?n := key ?st sp)) ?n"
    using hole_up_cong [of "Suc ?n" "(slot_key ?st)(?n := key ?st sp)" "(slot_key st)(?n := key st sp)" ?n]
    by simp
  then have inv: "insert_inv sp ?n ?st"
    using ok new by (auto simp: insert_inv_def sched_ok_def index_ok_def nth_append less_Suc_eq)
  note ins = insert_loop_ok [OF inv]
  have eq: "insertschedule sp st = insert_loop sp ?n ?st" by (simp add: insertschedule_def)
  have sc: "same_content (st\<lparr>events := events st @ [sp]\<rparr>) (insertschedule sp st)"
    using ins unfolding eq by (simp add: same_content_def)
  then show "same_content (st\<lparr>events := events st @ [sp]\<rparr>) (insertschedule sp st)" .
  show "length (events (insertschedule sp st)) = Suc ?n" using ins unfolding eq by simp
  have "mset (events (insertschedule sp st)) = mset (events st @ [sp])"
    using sc by (simp add: same_content_def)
  then have "set (events (insertschedule sp st)) = insert sp (set (events st))"
    by (metis Un_insert_right append_Nil2 list.set(2) mset_eq_setD set_append sup_bot.right_neutral
      empty_set)
  with ins new ok show "sched_ok (insertschedule sp st)"
    using sc unfolding eq by (auto simp: sched_ok_def same_content_def)
qed

text \<open>The last element moved into slot \<open>i\<close>, before the order is restored.\<close>

definition fill :: "nat \<Rightarrow> ('cb, 'arg) sched \<Rightarrow> ('cb, 'arg) sched" where
  "fill i st =
     (let st3 = put i (last (events st)) (set_index (events st ! i) (- 1) st)
      in st3\<lparr>events := butlast (events st3)\<rparr>)"

lemma key_set_index [simp]: "key (set_index p i st) q = key st q"
  by (simp add: set_index_def key_def)

lemma events_set_index [simp]: "events (set_index p i st) = events st"
  by (simp add: set_index_def)

lemma fill_ok:
  assumes i: "i < length (events st) - 1" and idx: "index_ok st"
  shows "events (fill i st) = butlast ((events st)[i := last (events st)])"
    "index_ok (fill i st)" "mset (events (fill i st)) = mset (events st) - {#events st ! i#}"
    "\<And>p. (mem (fill i st) p)\<lparr>sindex := 0\<rparr> = (mem st p)\<lparr>sindex := 0\<rparr>" "fresh (fill i st) = fresh st"
    "\<And>j. j < length (events st) - 1 \<Longrightarrow>
       slot_key (fill i st) j = (if j = i then key st (last (events st)) else slot_key st j)"
proof -
  let ?ev = "events st" and ?n = "length (events st)"
  show ev: "events (fill i st) = butlast (?ev[i := last ?ev])"
    by (simp add: fill_def Let_def)
  have lst: "last ?ev = ?ev ! (?n - 1)" using i by (intro last_conv_nth) auto
  show m: "mset (events (fill i st)) = mset ?ev - {#?ev ! i#}"
    unfolding ev using i by (intro swap_remove_mset) simp
  show "\<And>p. (mem (fill i st) p)\<lparr>sindex := 0\<rparr> = (mem st p)\<lparr>sindex := 0\<rparr>" "fresh (fill i st) = fresh st"
    by (simp_all add: fill_def Let_def put_def set_index_def)
  have nth: "events (fill i st) ! j = (if j = i then ?ev ! (?n - 1) else ?ev ! j)" if "j < ?n - 1" for j
    unfolding ev lst using that i by (simp add: nth_butlast)
  have kf: "key (fill i st) = key st"
    by (simp add: fun_eq_iff fill_def Let_def)
  show "\<And>j. j < ?n - 1 \<Longrightarrow> slot_key (fill i st) j = (if j = i then key st (last ?ev) else slot_key st j)"
    unfolding slot_key_def kf lst by (simp add: nth)
  have d: "distinct ?ev" using idx by (simp add: index_ok_def)
  have "mset (?ev ! i # events (fill i st)) = mset ?ev" unfolding mset.simps m using i by simp
  then have "distinct (?ev ! i # events (fill i st))"
    using d by (metis mset_eq_imp_distinct_iff)
  then have "distinct (events (fill i st))" by simp
  moreover have "sindex (mem (fill i st) (events (fill i st) ! k)) = int k" if k: "k < ?n - 1" for k
  proof (cases "k = i")
    case True
    then show ?thesis using nth [OF k] lst by (simp add: fill_def Let_def mem_put)
  next
    case False
    have "?ev ! k \<noteq> ?ev ! i" "?ev ! k \<noteq> ?ev ! (?n - 1)"
      using d k i False by (simp_all add: nth_eq_iff_index_eq)
    moreover have "sindex (mem st (?ev ! k)) = int k" using idx k by (simp add: index_ok_def)
    ultimately show ?thesis using nth [OF k] False lst
      by (simp add: fill_def Let_def mem_put set_index_def)
  qed
  ultimately show "index_ok (fill i st)" by (simp add: index_ok_def ev)
qed

lemma same_content_of_fill:
  assumes "i < length (events st) - 1" "index_ok st" "same_content (fill i st) st'"
  shows "mset (events st') = mset (events st) - {#events st ! i#}" "fresh st' = fresh st"
    "\<And>p. (mem st' p)\<lparr>sindex := 0\<rparr> = (mem st p)\<lparr>sindex := 0\<rparr>"
  using fill_ok [OF assms(1,2)] assms(3) by (simp_all add: same_content_def)

lemma pop_event_fill:
  assumes "2 \<le> length (events st)"
  shows "pop_event st = schedule_heapify 0 (fill 0 st)"
proof -
  have "(butlast (events st))[0 := last (events st)] = butlast ((events st)[0 := last (events st)])"
    using assms by (cases "events st") auto
  moreover have "length (events st) \<noteq> 0" using assms by auto
  ultimately show ?thesis
    by (cases st) (simp add: pop_event_def fill_def Let_def put_def set_index_def)
qed

definition removed :: "nat \<Rightarrow> ('cb, 'arg) sched \<Rightarrow> ('cb, 'arg) sched \<Rightarrow> bool" where
  "removed p st st' \<longleftrightarrow> sched_ok st'
     \<and> mset (events st') = mset (events st) - {#p#} \<and> fresh st' = fresh st
     \<and> (\<forall>q. (mem st' q)\<lparr>sindex := 0\<rparr> = (mem st q)\<lparr>sindex := 0\<rparr>)"

lemma set_of_mset_minus: "mset xs = mset ys - {#p#} \<Longrightarrow> set xs \<subseteq> set ys"
  by (metis in_diffD set_mset_mset subsetI)

lemma pop_event_ok:
  assumes ok: "sched_ok st" and ne: "events st \<noteq> []"
  shows "removed (events st ! 0) st (pop_event st)"
proof (cases "2 \<le> length (events st)")
  case False
  with ne obtain p where p: "events st = [p]" by (cases "events st"; cases "tl (events st)") auto
  then have "pop_event st = (set_index p 0 (set_index p (- 1) st))\<lparr>events := []\<rparr>"
    by (simp add: pop_event_def Let_def schedule_heapify.simps set_index_def)
  with p ok show ?thesis
    by (simp add: removed_def sched_ok_def heap_def index_ok_def set_index_def)
next
  case True
  let ?n = "length (events st)" and ?f = "fill 0 st"
  have i: "0 < length (events st) - 1" and idx: "index_ok st" using True ok by (auto simp: sched_ok_def)
  note f = fill_ok [OF i idx]
  have len: "length (events ?f) = ?n - 1" unfolding f(1) by simp
  have "heap ?n (slot_key st)" using ok by (simp add: sched_ok_def)
  then have "hole_down (length (events ?f)) (slot_key ?f) 0"
    unfolding hole_down_def heap_def len using parent_less
    by (auto simp: f(6) less_diff_conv) (metis Suc_lessD Suc_lessE diff_Suc_1 less_trans f(6) neq0_conv)
  then have h: "heap (length (events ?f)) (slot_key (pop_event st)) \<and> same_content ?f (pop_event st)
      \<and> index_ok (pop_event st) \<and> length (events (pop_event st)) = length (events ?f)"
    unfolding pop_event_fill [OF True] using f(2) len True by (intro schedule_heapify_ok) auto
  note sc = same_content_of_fill [OF i idx conjunct1 [OF conjunct2 [OF h]]]
  have "\<forall>p \<in> set (events (pop_event st)). p < fresh st"
    using set_of_mset_minus [OF sc(1)] ok by (auto simp: sched_ok_def)
  with h sc show ?thesis by (simp add: removed_def sched_ok_def)
qed





lemma sched_ok_counters [simp]:
  "sched_ok (st\<lparr>scheddels := k\<rparr>) \<longleftrightarrow> sched_ok st" "sched_ok (st\<lparr>schedexes := k\<rparr>) \<longleftrightarrow> sched_ok st"
  "sched_ok (st\<lparr>scheddelfast := k\<rparr>) \<longleftrightarrow> sched_ok st"
  by (simp_all add: sched_ok_def index_ok_def slot_key_def [abs_def])



section \<open>The interface of a timer queue\<close>

locale event_queue =
  fixes elems :: "'q \<Rightarrow> 'e multiset" and time :: "'q \<Rightarrow> 'e \<Rightarrow> int" and ok :: "'q \<Rightarrow> bool"
    and top :: "'q \<Rightarrow> 'e" and pop :: "'q \<Rightarrow> 'q"
  assumes top_in: "ok q \<Longrightarrow> elems q \<noteq> {#} \<Longrightarrow> top q \<in># elems q"
    and top_least: "ok q \<Longrightarrow> e \<in># elems q \<Longrightarrow> time q (top q) \<le> time q e"
    and pop_ok: "ok q \<Longrightarrow> elems q \<noteq> {#} \<Longrightarrow> ok (pop q)"
    and pop_elems: "ok q \<Longrightarrow> elems q \<noteq> {#} \<Longrightarrow> elems (pop q) = elems q - {#top q#}"
    and pop_time: "ok q \<Longrightarrow> elems q \<noteq> {#} \<Longrightarrow> time (pop q) e = time q e"
begin

fun drain :: "nat \<Rightarrow> 'q \<Rightarrow> 'e list" where
  "drain 0 q = []"
| "drain (Suc n) q = top q # drain n (pop q)"

lemma drain_sorted:
  assumes "ok q" "size (elems q) = n"
  shows "mset (drain n q) = elems q \<and> sorted (map (time q) (drain n q))"
  using assms
proof (induction n arbitrary: q)
  case (Suc n)
  then have ne: "elems q \<noteq> {#}" by auto
  have mem: "top q \<in># elems q" using Suc.prems ne by (simp add: top_in)
  have "size (elems (pop q)) = n" using Suc.prems ne mem by (simp add: pop_elems size_Diff_singleton)
  then have IH: "mset (drain n (pop q)) = elems (pop q)" "sorted (map (time (pop q)) (drain n (pop q)))"
    using Suc ne by (simp_all add: pop_ok)
  have "map (time (pop q)) (drain n (pop q)) = map (time q) (drain n (pop q))"
    using Suc.prems ne by (simp add: pop_time)
  then have "sorted (map (time q) (drain n (pop q)))" using IH(2) by (simp only:)
  moreover have "time q (top q) \<le> time q e" if "e \<in> set (drain n (pop q))" for e
  proof -
    have "e \<in># elems (pop q)" using that IH(1) by (metis set_mset_mset)
    then have "e \<in># elems q" using Suc.prems ne by (simp add: pop_elems in_diffD)
    then show ?thesis using Suc.prems by (simp add: top_least)
  qed
  ultimately show ?case
    using IH Suc.prems ne mem by (simp add: pop_elems)
qed simp

end

lemma sched_top_least:
  assumes "sched_ok st" "p \<in> set (events st)"
  shows "key st (events st ! 0) \<le> key st p"
proof -
  obtain i where i: "i < length (events st)" "events st ! i = p"
    using assms(2) by (auto simp: in_set_conv_nth)
  have "slot_key st 0 \<le> slot_key st i"
    using assms(1) i by (intro heap_root) (auto simp: sched_ok_def)
  with i show ?thesis by (simp add: slot_key_def)
qed

lemma removed_key: "removed p st st' \<Longrightarrow> key st' q = key st q"
  unfolding removed_def key_def using sindex_update_eq(1) by blast

interpretation timers: event_queue "\<lambda>st. mset (events st)" key sched_ok "\<lambda>st. events st ! 0" pop_event
proof unfold_locales
  fix st :: "('a, 'b) sched" and e
  assume ok: "sched_ok st"
  show "e \<in># mset (events st) \<Longrightarrow> key st (events st ! 0) \<le> key st e"
    using ok by (simp add: sched_top_least)
  assume "mset (events st) \<noteq> {#}"
  then have ne: "events st \<noteq> []" by simp
  then show "events st ! 0 \<in># mset (events st)" by simp
  show "sched_ok (pop_event st)" "mset (events (pop_event st)) = mset (events st) - {#events st ! 0#}"
    using pop_event_ok [OF ok ne] by (simp_all add: removed_def)
  show "key (pop_event st) e = key st e" using pop_event_ok [OF ok ne] by (rule removed_key)
qed

section \<open>The operations keep the queue\<close>

lemma getschedule_ok:
  assumes "sched_ok st" "getschedule s st = (p, st')"
  shows "sched_ok st'" "p \<notin> set (events st')" "p < fresh st'" "events st' = events st" "mem st' p = s"
    "p = fresh st" "\<And>q. q \<noteq> p \<Longrightarrow> mem st' q = mem st q"
proof -
  have p: "p = fresh st" and st': "st' = st\<lparr>fresh := fresh st + 1, mem := (mem st)(fresh st := s)\<rparr>"
    using assms(2) by (auto simp: getschedule_def)
  show "p < fresh st'" "events st' = events st" "mem st' p = s" "p = fresh st"
    "\<And>q. q \<noteq> p \<Longrightarrow> mem st' q = mem st q"
    by (simp_all add: p st')
  show new: "p \<notin> set (events st')" using assms(1) by (auto simp: p st' sched_ok_def)
  have m: "mem st' (events st ! i) = mem st (events st ! i)" if "i < length (events st)" for i
    using new nth_mem [OF that] by (simp add: st' p) metis
  have ev: "events st' = events st" by (simp add: st')
  have "heap (length (events st)) (slot_key st') \<longleftrightarrow> heap (length (events st)) (slot_key st)"
    by (rule heap_cong) (simp add: slot_key_def key_def ev m)
  then show "sched_ok st'"
    using assms(1) m by (auto simp: sched_ok_def index_ok_def st' less_Suc_eq)
qed

lemma insert_new_ok:
  assumes "sched_ok st" "getschedule s st = (p, st')"
  shows "sched_ok (insertschedule p st') \<and> mset (events (insertschedule p st')) = add_mset p (mset (events st))
     \<and> (mem (insertschedule p st') p)\<lparr>sindex := 0\<rparr> = s\<lparr>sindex := 0\<rparr>"
proof -
  note g = getschedule_ok [OF assms]
  note ins = insertschedule_ok [OF g(1-3)]
  show ?thesis using ins(1,2) g(4,5) by (simp add: same_content_def)
qed






text \<open>
  C24: taking events off the queue one after the other yields all of them, in the order of
  their times.
\<close>

theorem pop_event_order:
  assumes "sched_ok st"
  shows "mset (timers.drain (length (events st)) st) = mset (events st)
    \<and> sorted (map (key st) (timers.drain (length (events st)) st))"
  using timers.drain_sorted [of st "length (events st)"] assms by simp

lemma pop_event_order_witness:
  "mset (timers.drain 1 (snd (scheduleoneshot 5 (Some True) () (initschedule (\<lambda>_. undefined))))) = {#0#}"
proof -
  let ?q = "initschedule (\<lambda>_. undefined) :: (bool, unit) sched"
  let ?st = "snd (scheduleoneshot 5 (Some True) () ?q)"
  have "sched_ok ?q" by (simp add: initschedule_def sched_ok_def heap_def index_ok_def)
  from insert_new_ok [OF this, of _ "fst (getschedule _ ?q)" "snd (getschedule _ ?q)"]
  have ok: "sched_ok ?st" by (simp add: scheduleoneshot_def getschedule_def)
  have ev: "events ?st = [0]"
    by (simp add: scheduleoneshot_def getschedule_def initschedule_def insertschedule_def
      insert_loop.simps put_def set_index_def)
  show ?thesis using pop_event_order [OF ok] unfolding ev by simp
qed

section \<open>The event loop\<close>

















end
