(* ===== verification/Parser.thy ===== *)
theory Parser
  imports IrcString LibUtil
begin

text \<open>
  The command tree of \<open>parser/parser.c\<close>: commands are found by their letters, and the tail
  of a name that no other command shares is kept in the node (\<open>final\<close>) instead of a chain
  of nodes. A \<open>Command\<close> with the commands chained to it by \<open>next\<close> is a list; NULL is the
  empty list. Shown: the tree is a map from names to chains, insertion and deletion update
  that map at one name, and the conflict the code reports as unexpected cannot happen.
\<close>

section \<open>Commands and trees\<close>

record ('h, 'e) command =
  cname :: string
  level :: int
  maxparams :: int
  handler :: 'h
  ext :: "'e option"
  calls :: nat

datatype ('h, 'e) ctree =
  CNode (node_cmd: "('h, 'e) command list") (node_final: string) (node_next: "('h, 'e) ctree option list")

definition MAX_COMMAND_LEN :: nat where
  "MAX_COMMAND_LEN = 100"

definition newcommandtree :: "('h, 'e) ctree" where
  "newcommandtree = CNode [] [] (replicate 26 None)"

fun countcommandtree :: "('h, 'e) ctree \<Rightarrow> nat" where
  "countcommandtree (CNode cmd final next) =
     (if cmd \<noteq> [] then 1 else 0)
     + sum_list (map (\<lambda>x. case x of None \<Rightarrow> 0 | Some t \<Rightarrow> countcommandtree t) next)"

text \<open>\<open>toupper\<close> of the C locale, and the index of a letter.\<close>

definition toupper :: "char \<Rightarrow> char" where
  "toupper c = (if 97 \<le> uchar c \<and> uchar c \<le> 122 then char_of (uchar c - 32) else c)"

definition is_letter :: "char \<Rightarrow> bool" where
  "is_letter c \<longleftrightarrow> 65 \<le> uchar c \<and> uchar c \<le> 90"

definition letter_index :: "char \<Rightarrow> nat" where
  "letter_index c = uchar c - 65"

text \<open>The sanitised name, or \<open>None\<close> when a character is not a letter.\<close>

definition sanitisecommandname :: "string \<Rightarrow> string option" where
  "sanitisecommandname cmdname =
     (let cmdbuf = map toupper (take (MAX_COMMAND_LEN - 1) cmdname)
      in if list_all is_letter cmdbuf then Some cmdbuf else None)"

definition subtree :: "('h, 'e) ctree option list \<Rightarrow> nat \<Rightarrow> ('h, 'e) ctree" where
  "subtree next i = (case next ! i of None \<Rightarrow> newcommandtree | Some t \<Rightarrow> t)"

text \<open>
  \<open>insertcommand\<close> of a command with its chain; the first argument bounds the recursion
  depth. The result is the return value and the tree.
\<close>

fun insertcommand :: "nat \<Rightarrow> ('h, 'e) command list \<Rightarrow> ('h, 'e) ctree \<Rightarrow> nat
    \<Rightarrow> (int \<times> ('h, 'e) ctree) option" where
  "insertcommand 0 c ct depth = None"
| "insertcommand (Suc fuel) c (CNode cmd final next) depth =
     (let name = cname (hd c)
      in if length name = depth \<or> countcommandtree (CNode cmd final next) = 0 then
           (if cmd \<noteq> [] then
              (if final = [] then Some (1, CNode cmd final next)
               else
                 let oldcharindex = letter_index (hd final)
                 in (case insertcommand fuel cmd (subtree next oldcharindex) (depth + 1) of
                       None \<Rightarrow> None
                     | Some (_, t) \<Rightarrow> Some (0, CNode c (drop depth name) (next[oldcharindex := Some t]))))
            else Some (0, CNode c (drop depth name) next))
         else
           let nextcharindex = letter_index (name ! depth);
               descend = (\<lambda>cmd final next.
                 case insertcommand fuel c (subtree next nextcharindex) (depth + 1) of
                   None \<Rightarrow> None
                 | Some (r, t) \<Rightarrow> Some (r, CNode cmd final (next[nextcharindex := Some t])))
           in if cmd \<noteq> [] \<and> final \<noteq> [] then
                let oldcharindex = letter_index (hd final)
                in (case insertcommand fuel cmd (subtree next oldcharindex) (depth + 1) of
                      None \<Rightarrow> None
                    | Some (_, t) \<Rightarrow> descend [] [] (next[oldcharindex := Some t]))
              else descend cmd final next)"

text \<open>\<open>findcommand\<close> from the rest of the text; the empty list is NULL.\<close>

fun findcommand :: "('h, 'e) ctree \<Rightarrow> string \<Rightarrow> ('h, 'e) command list" where
  "findcommand (CNode cmd final next) [] = cmd"
| "findcommand (CNode cmd final next) (ch # command) =
     (let nextchar = toupper ch
      in if cmd \<noteq> [] \<and> deref final = nextchar then cmd
         else if \<not> is_letter nextchar then []
         else (case next ! letter_index nextchar of
                 None \<Rightarrow> [] | Some t \<Rightarrow> findcommand t command))"

definition findcommandintree :: "('h, 'e) ctree \<Rightarrow> string \<Rightarrow> bool \<Rightarrow> ('h, 'e) command list" where
  "findcommandintree ct command strictcheck =
     (let c = findcommand ct command
      in if c = [] then []
         else if strictcheck
             \<and> (ircd_strncmp command (cname (hd c)) (of_nat (length (cname (hd c)))) \<noteq> 0
                \<or> length (cname (hd c)) \<noteq> length command)
         then [] else c)"

text \<open>
  \<open>addcommandexttotree\<close>. When a command with the name exists, the new one is put at the end
  of its chain, which is a change of that node; \<open>append_chain\<close> follows the path of the
  lookup to it.
\<close>

fun append_chain :: "('h, 'e) ctree \<Rightarrow> string \<Rightarrow> ('h, 'e) command \<Rightarrow> ('h, 'e) ctree" where
  "append_chain (CNode cmd final next) [] c = CNode (cmd @ [c]) final next"
| "append_chain (CNode cmd final next) (ch # command) c =
     (let nextchar = toupper ch
      in if cmd \<noteq> [] \<and> deref final = nextchar then CNode (cmd @ [c]) final next
         else (case next ! letter_index nextchar of
                 None \<Rightarrow> CNode cmd final next
               | Some t \<Rightarrow> CNode cmd final (next[letter_index nextchar := Some (append_chain t command c)])))"

definition addcommandexttotree :: "('h, 'e) ctree \<Rightarrow> string \<Rightarrow> int \<Rightarrow> int \<Rightarrow> 'h \<Rightarrow> 'e option
    \<Rightarrow> (bool \<times> ('h, 'e) ctree) option" where
  "addcommandexttotree ct cmdname lev maxp h ex =
     (case sanitisecommandname cmdname of
        None \<Rightarrow> Some (False, ct)
      | Some cmdbuf \<Rightarrow>
          (let nc = \<lparr>cname = cmdbuf, level = lev, maxparams = maxp, handler = h, ext = ex, calls = 0\<rparr>
           in if findcommandintree ct cmdname True \<noteq> [] then Some (True, append_chain ct cmdname nc)
              else (case insertcommand (MAX_COMMAND_LEN + 1) [nc] ct 0 of
                      None \<Rightarrow> None
                    | Some (r, ct') \<Rightarrow> if r \<noteq> 0 then Some (False, ct') else Some (True, ct'))))"

text \<open>Unlinking the first command of a chain with the handler.\<close>

fun unlink :: "'h \<Rightarrow> ('h, 'e) command list \<Rightarrow> ('h, 'e) command list option" where
  "unlink h [] = None"
| "unlink h (c # cs) = (if handler c = h then Some cs else map_option (Cons c) (unlink h cs))"

text \<open>\<open>rest\<close> is \<open>cmdname\<close> from \<open>depth\<close> on.\<close>

fun deletecommand :: "string \<Rightarrow> ('h, 'e) ctree \<Rightarrow> string \<Rightarrow> 'h \<Rightarrow> int \<times> ('h, 'e) ctree" where
  "deletecommand cmdname (CNode cmd final next) [] h =
     (if cmd = [] \<or> cname (hd cmd) \<noteq> cmdname then (1, CNode cmd final next)
      else (case unlink h cmd of
              None \<Rightarrow> (1, CNode cmd final next)
            | Some cmd' \<Rightarrow> (0, CNode cmd' final next)))"
| "deletecommand cmdname (CNode cmd final next) (ch # rest) h =
     (if deref final = ch then
        (if cname (hd cmd) \<noteq> cmdname then (1, CNode cmd final next)
         else (case unlink h cmd of
                 None \<Rightarrow> (1, CNode cmd final next)
               | Some cmd' \<Rightarrow>
                   (0, CNode cmd' (if cmd' \<noteq> [] then drop (length cmdname - length (ch # rest)) (cname (hd cmd')) else []) next)))
      else
        (case next ! letter_index ch of
           None \<Rightarrow> (1, CNode cmd final next)
         | Some t \<Rightarrow>
             (let (i, t') = deletecommand cmdname t rest h
              in (i, CNode cmd final
                   (next[letter_index ch := (if countcommandtree t' = 0 then None else Some t')])))))"

definition deletecommandfromtree :: "('h, 'e) ctree \<Rightarrow> string \<Rightarrow> 'h \<Rightarrow> int \<times> ('h, 'e) ctree" where
  "deletecommandfromtree ct cmdname h =
     (case sanitisecommandname cmdname of
        None \<Rightarrow> (1, ct) | Some cmdbuf \<Rightarrow> deletecommand cmdbuf ct cmdbuf h)"

text \<open>
  \<open>getcommandlist\<close>: the commands written, in order. The count left is tested for being
  negative only.
\<close>

fun getcommandlist :: "('h, 'e) ctree \<Rightarrow> int \<Rightarrow> ('h, 'e) command list"
  and getcommandlists :: "('h, 'e) ctree option list \<Rightarrow> int \<Rightarrow> ('h, 'e) command list" where
  "getcommandlist (CNode cmd final next) maxcommands =
     (if maxcommands < 0 then []
      else (if cmd \<noteq> [] then [hd cmd] else []) @
        getcommandlists next (maxcommands - (if cmd \<noteq> [] then 1 else 0)))"
| "getcommandlists [] maxcommands = []"
| "getcommandlists (x # xs) maxcommands =
     (case x of
        None \<Rightarrow> getcommandlists xs maxcommands
      | Some t \<Rightarrow>
          (let cs = getcommandlist t maxcommands
           in cs @ getcommandlists xs (maxcommands - int (length cs))))"

fun getcommandname :: "('h, 'e) ctree \<Rightarrow> 'h \<Rightarrow> string option"
  and getcommandnames :: "('h, 'e) ctree option list \<Rightarrow> 'h \<Rightarrow> string option" where
  "getcommandname (CNode cmd final next) h =
     (if cmd \<noteq> [] \<and> handler (hd cmd) = h then Some (cname (hd cmd)) else getcommandnames next h)"
| "getcommandnames [] h = None"
| "getcommandnames (x # xs) h =
     (case x of
        None \<Rightarrow> getcommandnames xs h
      | Some t \<Rightarrow> (case getcommandname t h of Some s \<Rightarrow> Some s | None \<Rightarrow> getcommandnames xs h))"

lemma toupper_eq_NUL [simp]: "toupper c = NUL \<longleftrightarrow> c = NUL"
proof -
  have "uchar (toupper c) = 0 \<longleftrightarrow> uchar c = 0"
    using uchar_less [of c] by (auto simp: toupper_def simp del: uchar_less uchar_NUL)
  then show ?thesis by simp
qed

section \<open>The shape of a command tree\<close>

definition letter :: "nat \<Rightarrow> char" where
  "letter i = char_of (65 + i)"

lemma letter_facts [simp]:
  "i < 26 \<Longrightarrow> is_letter (letter i)" "i < 26 \<Longrightarrow> letter_index (letter i) = i"
  "is_letter c \<Longrightarrow> letter_index c < 26" "is_letter c \<Longrightarrow> letter (letter_index c) = c"
  by (auto simp: letter_def is_letter_def letter_index_def)

lemma letter_index_inj: "is_letter c \<Longrightarrow> is_letter d \<Longrightarrow> letter_index c = letter_index d \<longleftrightarrow> c = d"
  by (metis letter_facts(4))

text \<open>
  The node reached by the letters \<open>pre\<close>: its commands have the name \<open>pre @ final\<close>, a node with
  a rest of a name has no subtrees, and no subtree is empty.
\<close>

inductive cwf :: "string \<Rightarrow> ('h, 'e) ctree \<Rightarrow> bool" where
  node: "length next = 26 \<Longrightarrow> \<forall>c \<in> set cmd. cname c = pre @ final \<Longrightarrow> list_all is_letter final
    \<Longrightarrow> (cmd = [] \<Longrightarrow> final = []) \<Longrightarrow> (final \<noteq> [] \<Longrightarrow> \<forall>i < 26. next ! i = None)
    \<Longrightarrow> \<forall>i t. i < 26 \<longrightarrow> next ! i = Some t \<longrightarrow> countcommandtree t \<noteq> 0 \<and> cwf (pre @ [letter i]) t
    \<Longrightarrow> cwf pre (CNode cmd final next)"

inductive_simps cwf_node: "cwf pre (CNode cmd final next)"

lemma cwf_child:
  assumes "cwf pre (CNode cmd final next)" "is_letter c" "next ! letter_index c = Some u"
  shows "cwf (pre @ [c]) u \<and> countcommandtree u \<noteq> 0 \<and> final = []"
proof -
  have i: "letter_index c < 26" "letter (letter_index c) = c" using assms(2) by simp_all
  have all: "\<forall>i < 26. \<forall>t. next ! i = Some t \<longrightarrow> 0 < countcommandtree t \<and> cwf (pre @ [letter i]) t"
    and f: "final \<noteq> [] \<longrightarrow> (\<forall>i < 26. next ! i = None)"
    using assms(1) unfolding cwf_node by blast+
  have "0 < countcommandtree u \<and> cwf (pre @ [letter (letter_index c)]) u"
    using all i(1) assms(3) by blast
  moreover have "final = []" using f i(1) assms(3) by force
  ultimately show ?thesis using i(2) by simp
qed

lemma cwf_nodeD:
  assumes "cwf pre (CNode cmd final next)"
  shows "length next = 26" "c \<in> set cmd \<Longrightarrow> cname c = pre @ final" "cmd \<noteq> [] \<Longrightarrow> cname (hd cmd) = pre @ final"
    "list_all is_letter final" "cmd = [] \<Longrightarrow> final = []" "final \<noteq> [] \<Longrightarrow> i < 26 \<Longrightarrow> next ! i = None"
  using assms unfolding cwf_node by simp_all

declare countcommandtree.simps [simp del]

definition count_opt :: "('h, 'e) ctree option \<Rightarrow> nat" where
  "count_opt x = (case x of None \<Rightarrow> 0 | Some t \<Rightarrow> countcommandtree t)"

lemma count_opt_simps [simp]: "count_opt None = 0" "count_opt (Some t) = countcommandtree t"
  by (simp_all add: count_opt_def)

lemma count_node: "countcommandtree (CNode cmd final next) = (if cmd \<noteq> [] then 1 else 0) + sum_list (map count_opt next)"
  unfolding countcommandtree.simps count_opt_def ..

lemma sum_list_map_update:
  "i < length xs \<Longrightarrow> sum_list (map f (xs[i := y])) + f (xs ! i) = sum_list (map f xs) + (f y :: nat)"
  by (induction xs arbitrary: i) (auto split: nat.splits)

lemma count_none: "\<forall>i < length next. next ! i = None \<Longrightarrow> sum_list (map count_opt next) = 0"
  by (auto simp: in_set_conv_nth)

lemma count_zero_nones:
  assumes "cwf pre (CNode cmd final next)" "countcommandtree (CNode cmd final next) = 0"
  shows "cmd = [] \<and> (\<forall>i < 26. next ! i = None)"
proof -
  have z: "sum_list (map count_opt next) = 0" "cmd = []"
    using assms(2) by (auto simp: count_node split: if_splits)
  have "next ! i = None" if "i < 26" for i
  proof (cases "next ! i")
    case (Some t)
    have "i < length next" using assms(1) that by (simp add: cwf_node)
    then have "count_opt (next ! i) = 0" using z(1) by simp
    with Some assms(1) that show ?thesis unfolding cwf_node by force
  qed
  with z show ?thesis by simp
qed

lemma cwf_new: "cwf pre newcommandtree" "countcommandtree newcommandtree = 0"
  by (simp_all add: newcommandtree_def count_node cwf_node)

section \<open>The tree as a map\<close>

text \<open>The chain stored under the letters \<open>s\<close>, relative to a node.\<close>

fun cfind :: "('h, 'e) ctree \<Rightarrow> string \<Rightarrow> ('h, 'e) command list" where
  "cfind (CNode cmd final next) [] = (if final = [] then cmd else [])"
| "cfind (CNode cmd final next) (ch # s) =
     (if cmd \<noteq> [] \<and> final = ch # s then cmd
      else if is_letter ch then (case next ! letter_index ch of None \<Rightarrow> [] | Some t \<Rightarrow> cfind t s)
      else [])"

lemma cfind_new [simp]: "cfind newcommandtree s = []"
  by (cases s) (simp_all add: newcommandtree_def)

lemma cfind_new_fun: "cfind newcommandtree = (\<lambda>_. [])"
  by (rule ext) simp

lemma cfind_empty:
  assumes "cwf pre t" "countcommandtree t = 0"
  shows "cfind t s = []"
proof -
  obtain cmd final "next" where t: "t = CNode cmd final next" by (cases t)
  have "cmd = []" "\<And>i. i < 26 \<Longrightarrow> next ! i = None"
    using count_zero_nones [of pre cmd final "next"] assms t by simp_all
  with t show ?thesis by (cases s) simp_all
qed

lemma cfind_names: "cwf pre t \<Longrightarrow> c \<in> set (cfind t s) \<Longrightarrow> cname c = pre @ s"
proof (induction s arbitrary: pre t)
  case Nil
  then show ?case by (cases t) (auto dest: cwf_nodeD(2) split: if_splits)
next
  case (Cons ch s)
  obtain cmd final "next" where t: "t = CNode cmd final next" by (cases t)
  show ?case
  proof (cases "cmd \<noteq> [] \<and> final = ch # s")
    case True
    then have "c \<in> set cmd" using Cons.prems(2) t by simp
    with cwf_nodeD(2) [OF Cons.prems(1) [unfolded t]] True show ?thesis by simp
  next
    case False
    then have "c \<in> set (if is_letter ch then (case next ! letter_index ch of None \<Rightarrow> [] | Some t \<Rightarrow> cfind t s) else [])"
      using Cons.prems(2) t by (simp only: cfind.simps if_False)
    then have "is_letter ch \<and> (\<exists>u. next ! letter_index ch = Some u \<and> c \<in> set (cfind u s))"
      by (cases "is_letter ch"; cases "next ! letter_index ch") simp_all
    then obtain u where u: "is_letter ch" "next ! letter_index ch = Some u" "c \<in> set (cfind u s)" by blast
    from Cons.IH [OF conjunct1 [OF cwf_child [OF Cons.prems(1) [unfolded t] u(1,2)]] u(3)]
    show ?thesis by simp
  qed
qed

lemma cfind_name_length: "cwf [] t \<Longrightarrow> c \<in> set (cfind t s) \<Longrightarrow> cname c = s"
  using cfind_names [of "[]" t c s] by simp

text \<open>What the walk of \<open>findcommand\<close> finds, once the name is compared.\<close>

lemma findcommand_cfind:
  assumes "cwf pre t" "cstring s"
  shows "cfind t (map toupper s)
    = (let c = findcommand t s in if c \<noteq> [] \<and> cname (hd c) = pre @ map toupper s then c else [])"
  using assms
proof (induction s arbitrary: pre t)
  case Nil
  obtain cmd final "next" where t: "t = CNode cmd final next" by (cases t)
  with cwf_nodeD(3) [OF Nil.prems(1) [unfolded t]] show ?case by (cases "cmd = []") (simp_all add: Let_def)
next
  case (Cons ch s)
  obtain cmd final "next" where t: "t = CNode cmd final next" by (cases t)
  note w = Cons.prems(1) [unfolded t]
  have up: "toupper ch \<noteq> NUL" using Cons.prems(2) by simp
  show ?case
  proof (cases "cmd \<noteq> [] \<and> deref final = toupper ch")
    case True
    with up obtain f where f: "final = toupper ch # f" by (cases final) (auto dest: sym)
    have "is_letter (toupper ch)" using cwf_nodeD(4) [OF w] f by simp
    then have "next ! letter_index (toupper ch) = None" using cwf_nodeD(6) [OF w] f by simp
    with True f cwf_nodeD(3) [OF w] t show ?thesis by (simp add: Let_def)
  next
    case False
    then have nf: "\<not> (cmd \<noteq> [] \<and> final = toupper ch # map toupper s)" by (cases final) auto
    show ?thesis
    proof (cases "is_letter (toupper ch)")
      case True
      show ?thesis
      proof (cases "next ! letter_index (toupper ch)")
        case None
        with True False nf t show ?thesis by (auto simp: Let_def)
      next
        case (Some u)
        have "cwf (pre @ [toupper ch]) u" using cwf_child [OF w True Some] by simp
        moreover have "findcommand t (ch # s) = findcommand u s"
          using False Some True t by (auto simp: Let_def)
        moreover have "cfind t (map toupper (ch # s)) = cfind u (map toupper s)"
          using nf Some True t by auto
        ultimately show ?thesis using Cons.IH [of "pre @ [toupper ch]" u] Cons.prems(2) by simp
      qed
    qed (use False nf t in \<open>auto simp: Let_def\<close>)
  qed
qed

lemma findcommand_prefix:
  assumes "cwf pre t" "findcommand t s \<noteq> []"
  shows "\<exists>z. cname (hd (findcommand t s)) = pre @ z \<and> list_all is_letter z"
  using assms
proof (induction s arbitrary: pre t)
  case Nil
  obtain cmd final "next" where t: "t = CNode cmd final next" by (cases t)
  with cwf_nodeD(3,4) [OF Nil.prems(1) [unfolded t]] Nil.prems(2) show ?case by auto
next
  case (Cons ch s)
  obtain cmd final "next" where t: "t = CNode cmd final next" by (cases t)
  show ?case
  proof (cases "cmd \<noteq> [] \<and> deref final = toupper ch")
    case True
    with cwf_nodeD(3,4) [OF Cons.prems(1) [unfolded t]] t show ?thesis by (auto simp: Let_def)
  next
    case False
    with Cons.prems(2) t obtain u where u: "is_letter (toupper ch)" "next ! letter_index (toupper ch) = Some u"
        "findcommand u s \<noteq> []"
      by (auto simp: Let_def split: if_splits option.splits)
    have "cwf (pre @ [toupper ch]) u" using cwf_child [OF Cons.prems(1) [unfolded t] u(1,2)] by simp
    moreover have "findcommand t (ch # s) = findcommand u s"
      using False u(1,2) t by (auto simp: Let_def)
    ultimately show ?thesis using Cons.IH [OF _ u(3)] u(1) by force
  qed
qed

section \<open>Insertion\<close>

lemma cfind_next_update:
  assumes "length next = 26" "is_letter c"
  shows "cfind (CNode cmd [] (next[letter_index c := Some u])) s
    = (case s of [] \<Rightarrow> cmd | d # s' \<Rightarrow> if d = c then cfind u s' else cfind (CNode cmd [] next) s)"
  using assms by (cases s) (auto simp: nth_list_update letter_index_inj)

lemma cfind_next_drop:
  assumes "length next = 26" "is_letter c"
  shows "cfind (CNode cmd [] (next[letter_index c := None])) s
    = (case s of [] \<Rightarrow> cmd | d # s' \<Rightarrow> if d = c then [] else cfind (CNode cmd [] next) s)"
  using assms by (cases s) (auto simp: nth_list_update letter_index_inj)

lemma cwf_next_update:
  assumes "cwf pre (CNode cmd [] next)" "is_letter c" "cwf (pre @ [c]) u" "countcommandtree u \<noteq> 0"
  shows "cwf pre (CNode cmd [] (next[letter_index c := Some u]))"
proof -
  have "letter (letter_index c) = c" using assms(2) by simp
  then show ?thesis using assms unfolding cwf_node by (auto simp: nth_list_update)
qed

lemma count_next_update:
  assumes "length next = 26" "is_letter c"
  shows "countcommandtree (CNode cmd final (next[letter_index c := y])) + count_opt (next ! letter_index c)
    = countcommandtree (CNode cmd final next) + count_opt y"
  using sum_list_map_update [of "letter_index c" "next" count_opt y] assms by (simp add: count_node)

text \<open>The node in which a subtree is to be inserted, and a node whose name ends there.\<close>

lemma subtree_ok:
  assumes "cwf pre (CNode cmd [] next)" "is_letter c"
  shows "cwf (pre @ [c]) (subtree next (letter_index c))"
    and "cfind (subtree next (letter_index c)) s = cfind (CNode cmd [] next) (c # s)"
    and "countcommandtree (subtree next (letter_index c)) = count_opt (next ! letter_index c)"
proof -
  show "cwf (pre @ [c]) (subtree next (letter_index c))"
    using cwf_child [OF assms] by (cases "next ! letter_index c") (simp_all add: subtree_def cwf_new)
qed (use assms(2) in \<open>auto simp: subtree_def cwf_new split: option.splits\<close>)

lemma cwf_set_cmd:
  assumes "cwf pre (CNode [] [] next)" "c \<noteq> []" "\<forall>x \<in> set c. cname x = pre"
  shows "cwf pre (CNode c [] next) \<and> cfind (CNode c [] next) = (cfind (CNode [] [] next))([] := c)
    \<and> countcommandtree (CNode c [] next) = countcommandtree (CNode [] [] next) + 1"
proof -
  have "cfind (CNode c [] next) s = ((cfind (CNode [] [] next))([] := c)) s" for s
    by (cases s) simp_all
  with assms show ?thesis by (auto simp: cwf_node count_node)
qed

lemma insert_empty:
  assumes "cwf pre t" "countcommandtree t = 0" "c \<noteq> []" "\<forall>x \<in> set c. cname x = pre @ z" "list_all is_letter z"
  shows "\<exists>t'. insertcommand (Suc fuel) c t (length pre) = Some (0, t') \<and> cwf pre t'
    \<and> cfind t' = (\<lambda>_. [])(z := c) \<and> countcommandtree t' = 1"
proof -
  obtain cmd final "next" where t: "t = CNode cmd final next" by (cases t)
  have n: "cmd = []" "\<forall>i < 26. next ! i = None" "length next = 26"
    using count_zero_nones [OF assms(1) [unfolded t] assms(2) [unfolded t]] cwf_nodeD(1) [OF assms(1) [unfolded t]]
    by simp_all
  have d: "drop (length pre) (cname (hd c)) = z" using assms(3,4) by simp
  have "insertcommand (Suc fuel) c t (length pre) = Some (0, CNode c z next)"
    using assms(2) n(1) d unfolding t by (simp add: Let_def)
  moreover have "cwf pre (CNode c z next)" using assms n by (simp add: cwf_node)
  moreover have "cfind (CNode c z next) s = ((\<lambda>_. [])(z := c)) s" for s
    using assms(3) n by (cases s) auto
  moreover have "countcommandtree (CNode c z next) = 1"
    using assms(3) count_none [of "next"] n by (simp add: count_node)
  ultimately show ?thesis by blast
qed

text \<open>A name that is kept as a whole moves one letter down.\<close>

lemma push_down:
  assumes "cwf pre (CNode cmd (d # f) next)"
  shows "\<exists>t1. insertcommand (Suc fuel) cmd (subtree next (letter_index d)) (length pre + 1) = Some (0, t1)
    \<and> cwf pre (CNode [] [] (next[letter_index d := Some t1]))
    \<and> cfind (CNode [] [] (next[letter_index d := Some t1])) = cfind (CNode cmd (d # f) next)
    \<and> countcommandtree (CNode [] [] (next[letter_index d := Some t1])) = countcommandtree (CNode cmd (d # f) next)"
proof -
  note w = cwf_nodeD [OF assms]
  have l: "is_letter d" "list_all is_letter f" using w(4) by simp_all
  have c: "cmd \<noteq> []" "\<forall>x \<in> set cmd. cname x = (pre @ [d]) @ f" using w(2,5) by auto
  have n: "\<forall>i < 26. next ! i = None" using w(6) by simp
  have w0: "cwf pre (CNode [] [] next)" using w(1) n by (simp add: cwf_node)
  have "subtree next (letter_index d) = newcommandtree" using n l(1) by (simp add: subtree_def)
  with insert_empty [OF cwf_new c l(2), of fuel]
  obtain t1 where t1: "insertcommand (Suc fuel) cmd (subtree next (letter_index d)) (length pre + 1) = Some (0, t1)"
      "cwf (pre @ [d]) t1" "cfind t1 = (\<lambda>_. [])(f := cmd)" "countcommandtree t1 = 1" by auto
  let ?N = "CNode [] [] (next[letter_index d := Some t1])"
  have "cfind ?N s = cfind (CNode cmd (d # f) next) s" for s
    unfolding cfind_next_update [OF w(1) l(1)] using t1(3) c(1) n by (cases s) auto
  moreover have "countcommandtree ?N = countcommandtree (CNode cmd (d # f) next)"
    using count_next_update [OF w(1) l(1), of "[]" "[]" "Some t1"] t1(4) c(1) n l(1)
    by (simp add: count_node)
  ultimately show ?thesis using t1 cwf_next_update [OF w0 l(1) t1(2)] by auto
qed

lemma insert_below:
  assumes "cwf pre (CNode cmd [] next)" "is_letter e"
    "\<exists>t'. insertcommand fuel c (subtree next (letter_index e)) (length pre + 1) = Some (0, t') \<and> cwf (pre @ [e]) t'
      \<and> cfind t' = (cfind (subtree next (letter_index e)))(z := c)
      \<and> countcommandtree t' = countcommandtree (subtree next (letter_index e)) + 1"
  shows "\<exists>t'. insertcommand fuel c (subtree next (letter_index e)) (length pre + 1) = Some (0, t')
    \<and> cwf pre (CNode cmd [] (next[letter_index e := Some t']))
    \<and> cfind (CNode cmd [] (next[letter_index e := Some t'])) = (cfind (CNode cmd [] next))(e # z := c)
    \<and> countcommandtree (CNode cmd [] (next[letter_index e := Some t'])) = countcommandtree (CNode cmd [] next) + 1"
proof -
  obtain t' where t': "insertcommand fuel c (subtree next (letter_index e)) (length pre + 1) = Some (0, t')"
      "cwf (pre @ [e]) t'" "cfind t' = (cfind (subtree next (letter_index e)))(z := c)"
      "countcommandtree t' = countcommandtree (subtree next (letter_index e)) + 1"
    using assms(3) by blast
  have len: "length next = 26" using cwf_nodeD(1) [OF assms(1)] .
  have "cfind (CNode cmd [] (next[letter_index e := Some t'])) s = ((cfind (CNode cmd [] next))(e # z := c)) s" for s
    unfolding cfind_next_update [OF len assms(2)] t'(3) using subtree_ok(2) [OF assms(1,2)]
    by (auto split: list.splits)
  moreover have "countcommandtree (CNode cmd [] (next[letter_index e := Some t'])) = countcommandtree (CNode cmd [] next) + 1"
    using count_next_update [OF len assms(2), of cmd "[]" "Some t'"] t'(4) subtree_ok(3) [OF assms(1,2)] by simp
  ultimately show ?thesis using t' cwf_next_update [OF assms(1,2) t'(2)] by auto
qed

lemma insertcommand_ok:
  assumes "cwf pre t" "c \<noteq> []" "\<forall>x \<in> set c. cname x = pre @ z" "list_all is_letter z"
    "cfind t z = []" "length z + 2 \<le> fuel"
  shows "\<exists>t'. insertcommand fuel c t (length pre) = Some (0, t') \<and> cwf pre t' \<and> cfind t' = (cfind t)(z := c)
    \<and> countcommandtree t' = countcommandtree t + 1"
  using assms
proof (induction z arbitrary: fuel pre t)
  case Nil
  obtain cmd final "next" where t: "t = CNode cmd final next" by (cases t)
  obtain g where g: "fuel = Suc (Suc g)" using Nil.prems(6) by (cases fuel; cases "fuel - 1") auto
  have nm: "cname (hd c) = pre" "\<forall>x \<in> set c. cname x = pre" using Nil.prems(2,3) by simp_all
  note w = Nil.prems(1) [unfolded t]
  show ?case
  proof (cases final)
    case Nil': Nil
    then have "cmd = []" using Nil.prems(5) t by simp
    with cwf_set_cmd [of pre "next" c] w Nil.prems(2) nm Nil' show ?thesis
      unfolding t g by (simp add: Let_def fun_upd_def)
  next
    case (Cons d f)
    obtain t1 where t1: "insertcommand (Suc g) cmd (subtree next (letter_index d)) (length pre + 1) = Some (0, t1)"
        "cwf pre (CNode [] [] (next[letter_index d := Some t1]))"
        "cfind (CNode [] [] (next[letter_index d := Some t1])) = cfind t"
        "countcommandtree (CNode [] [] (next[letter_index d := Some t1])) = countcommandtree t"
      using push_down [OF w [unfolded Cons]] unfolding t Cons by blast
    have "cmd \<noteq> []" using cwf_nodeD(5) [OF w] Cons by auto
    then have "insertcommand fuel c t (length pre) = Some (0, CNode c [] (next[letter_index d := Some t1]))"
      unfolding t g insertcommand.simps(2) [of "Suc g"] using nm(1) Cons t1(1) by (simp add: Let_def del: insertcommand.simps)
    with cwf_set_cmd [OF t1(2) Nil.prems(2) nm(2)] t1(3,4) show ?thesis by auto
  qed
next
  case (Cons e z)
  obtain cmd final "next" where t: "t = CNode cmd final next" by (cases t)
  obtain g where g: "fuel = Suc (Suc g)" using Cons.prems(6) by (cases fuel; cases "fuel - 1") auto
  note w = Cons.prems(1) [unfolded t]
  have e: "is_letter e" "list_all is_letter z" using Cons.prems(4) by simp_all
  have nm: "cname (hd c) = pre @ e # z" "\<forall>x \<in> set c. cname x = (pre @ [e]) @ z"
    using Cons.prems(2,3) by simp_all
  have f: "length z + 2 \<le> Suc g" using Cons.prems(6) g by simp
  show ?case
  proof (cases "countcommandtree t = 0")
    case True
    with insert_empty [OF Cons.prems(1) True Cons.prems(2-4), of "Suc g"] cfind_empty [OF Cons.prems(1) True]
    show ?thesis unfolding g by auto
  next
    case nz: False
    have below: "\<exists>t'. insertcommand (Suc g) c (subtree nx (letter_index e)) (length pre + 1) = Some (0, t')
        \<and> cwf pre (CNode cm [] (nx[letter_index e := Some t']))
        \<and> cfind (CNode cm [] (nx[letter_index e := Some t'])) = (cfind t)(e # z := c)
        \<and> countcommandtree (CNode cm [] (nx[letter_index e := Some t'])) = countcommandtree t + 1"
      if "cwf pre (CNode cm [] nx)" "cfind (CNode cm [] nx) = cfind t" "countcommandtree (CNode cm [] nx) = countcommandtree t"
      for cm nx
    proof -
      have "cfind (subtree nx (letter_index e)) z = []"
        using subtree_ok(2) [OF that(1) e(1), of z] Cons.prems(5) that(2) by simp
      then have "\<exists>t'. insertcommand (Suc g) c (subtree nx (letter_index e)) (length pre + 1) = Some (0, t')
          \<and> cwf (pre @ [e]) t' \<and> cfind t' = (cfind (subtree nx (letter_index e)))(z := c)
          \<and> countcommandtree t' = countcommandtree (subtree nx (letter_index e)) + 1"
        using Cons.IH [OF subtree_ok(1) [OF that(1) e(1)] Cons.prems(2) nm(2) e(2) _ f]
        by (simp add: fun_upd_def)
      from insert_below [OF that(1) e(1) this] show ?thesis using that(2,3) by simp
    qed
    have ix: "cname (hd c) ! length pre = e" "length (cname (hd c)) \<noteq> length pre" using nm(1) by simp_all
    show ?thesis
    proof (cases final)
      case Nil
      with below [of cmd "next"] w t obtain t' where
        "insertcommand (Suc g) c (subtree next (letter_index e)) (length pre + 1) = Some (0, t')"
        "cwf pre (CNode cmd [] (next[letter_index e := Some t']))"
        "cfind (CNode cmd [] (next[letter_index e := Some t'])) = (cfind t)(e # z := c)"
        "countcommandtree (CNode cmd [] (next[letter_index e := Some t'])) = countcommandtree t + 1" by auto
      moreover have "insertcommand fuel c t (length pre) = Some (0, CNode cmd [] (next[letter_index e := Some t']))"
        using nz ix Nil calculation(1) unfolding t g insertcommand.simps(2) [of "Suc g"]
        by (simp add: Let_def del: insertcommand.simps)
      ultimately show ?thesis by blast
    next
      case (Cons d f)
      obtain t1 where t1: "insertcommand (Suc g) cmd (subtree next (letter_index d)) (length pre + 1) = Some (0, t1)"
          "cwf pre (CNode [] [] (next[letter_index d := Some t1]))"
          "cfind (CNode [] [] (next[letter_index d := Some t1])) = cfind t"
          "countcommandtree (CNode [] [] (next[letter_index d := Some t1])) = countcommandtree t"
        using push_down [OF w [unfolded Cons]] unfolding t Cons by blast
      have cm: "cmd \<noteq> []" using cwf_nodeD(5) [OF w] Cons by auto
      let ?n1 = "next[letter_index d := Some t1]"
      from below [OF t1(2-4)] obtain t' where
        "insertcommand (Suc g) c (subtree ?n1 (letter_index e)) (length pre + 1) = Some (0, t')"
        "cwf pre (CNode [] [] (?n1[letter_index e := Some t']))"
        "cfind (CNode [] [] (?n1[letter_index e := Some t'])) = (cfind t)(e # z := c)"
        "countcommandtree (CNode [] [] (?n1[letter_index e := Some t'])) = countcommandtree t + 1" by auto
      moreover have "insertcommand fuel c t (length pre) = Some (0, CNode [] [] (?n1[letter_index e := Some t']))"
        using nz ix Cons cm t1(1) calculation(1) unfolding t g insertcommand.simps(2) [of "Suc g"]
        by (simp add: Let_def del: insertcommand.simps)
      ultimately show ?thesis by blast
    qed
  qed
qed

section \<open>Chains and deletion\<close>

lemma cfind_descend:
  assumes "is_letter e" "\<not> (cmd \<noteq> [] \<and> final = e # z)"
  shows "cfind (CNode cmd final next) (e # z)
    = (case next ! letter_index e of None \<Rightarrow> [] | Some t \<Rightarrow> cfind t z)"
  using assms by auto

lemma cfind_leaf:
  assumes "cwf pre (CNode cmd (d # f) next)"
  shows "cfind (CNode cmd (d # f) next) = (\<lambda>_. [])(d # f := cmd)"
proof
  fix s
  show "cfind (CNode cmd (d # f) next) s = ((\<lambda>_. [])(d # f := cmd)) s"
    using cwf_nodeD(5,6) [OF assms] by (cases s) (auto simp: letter_facts(3) split: option.splits)
qed

lemma append_chain_ok:
  assumes "cwf pre t" "cfind t (map toupper s) \<noteq> []" "cstring s" "cname x = pre @ map toupper s"
  shows "cwf pre (append_chain t s x)
    \<and> cfind (append_chain t s x) = (cfind t)(map toupper s := cfind t (map toupper s) @ [x])
    \<and> countcommandtree (append_chain t s x) = countcommandtree t"
  using assms
proof (induction s arbitrary: pre t)
  case Nil
  obtain cmd final "next" where t: "t = CNode cmd final next" by (cases t)
  with Nil.prems(2) have c: "final = []" "cmd \<noteq> []" by (auto split: if_splits)
  have "cfind (CNode (cmd @ [x]) [] next) s = ((cfind t)([] := cmd @ [x])) s" for s
    using t c by (cases s) simp_all
  moreover have "cwf pre (CNode (cmd @ [x]) [] next)" using Nil.prems t c by (auto simp: cwf_node)
  ultimately show ?case using t c by (auto simp: count_node)
next
  case (Cons ch s)
  obtain cmd final "next" where t: "t = CNode cmd final next" by (cases t)
  note w = Cons.prems(1) [unfolded t]
  let ?e = "toupper ch" and ?z = "map toupper s"
  have up: "?e \<noteq> NUL" using Cons.prems(3) by simp
  show ?case
  proof (cases "cmd \<noteq> [] \<and> deref final = ?e")
    case True
    with up obtain f where f: "final = ?e # f" by (cases final) (auto dest: sym)
    have "((\<lambda>_. [])(?e # f := cmd)) (?e # ?z) \<noteq> []"
      using Cons.prems(2) fun_cong [OF cfind_leaf [OF w [unfolded f]], of "?e # ?z"]
      unfolding t f list.map by argo
    then have "f = ?z \<and> cmd \<noteq> []" by (auto split: if_splits)
    with f have z: "final = ?e # ?z" "cmd \<noteq> []" by simp_all
    have w': "cwf pre (CNode (cmd @ [x]) (?e # ?z) next)"
      using w z Cons.prems(4) by (auto simp: cwf_node)
    show ?thesis
      using True t z w' cfind_leaf [OF w'] cfind_leaf [OF w [unfolded z(1)]] by (auto simp: count_node Let_def)
  next
    case False
    then have nf: "\<not> (cmd \<noteq> [] \<and> final = ?e # ?z)" by auto
    have e: "is_letter ?e" using Cons.prems(2) nf t by (auto split: if_splits)
    obtain u where u: "next ! letter_index ?e = Some u" "cfind t (map toupper (ch # s)) = cfind u ?z"
      using Cons.prems(2) cfind_descend [OF e nf] t by (cases "next ! letter_index ?e") auto
    have c: "cwf (pre @ [?e]) u" "countcommandtree u \<noteq> 0" "final = []" using cwf_child [OF w e u(1)] by simp_all
    have len: "length next = 26" using cwf_nodeD(1) [OF w] .
    have ih: "cwf (pre @ [?e]) (append_chain u s x)" "countcommandtree (append_chain u s x) = countcommandtree u"
        "cfind (append_chain u s x) = (cfind u)(?z := cfind u ?z @ [x])"
      using Cons.IH [OF c(1)] Cons.prems u(2) by (simp_all add: fun_upd_def)
    have eq: "append_chain t (ch # s) x = CNode cmd [] (next[letter_index ?e := Some (append_chain u s x)])"
      using False u(1) c(3) t by (auto simp: Let_def)
    have "cfind (append_chain t (ch # s) x) r = ((cfind t)(?e # ?z := cfind u ?z @ [x])) r" for r
      unfolding eq cfind_next_update [OF len e] using ih(3) t c(3) e u(1) by (auto split: list.splits)
    moreover have "cwf pre (append_chain t (ch # s) x)"
      unfolding eq using cwf_next_update w c(2,3) e ih(1,2) by metis
    moreover have "countcommandtree (append_chain t (ch # s) x) = countcommandtree t"
      using count_next_update [OF len e, of cmd "[]" "Some (append_chain u s x)"] ih(2) u(1) eq t c(3) by simp
    ultimately show ?thesis using u(2) by auto
  qed
qed

lemma unlink_set: "unlink h cs = Some cs' \<Longrightarrow> set cs' \<subseteq> set cs"
  by (induction h cs arbitrary: cs' rule: unlink.induct) (auto split: if_splits)

lemma cwf_shrink:
  assumes "cwf pre (CNode cmd final next)" "set cmd' \<subseteq> set cmd"
  shows "cwf pre (CNode cmd' (if cmd' \<noteq> [] then final else []) next)"
  using assms by (auto simp: cwf_node)

lemma cwf_drop_next:
  assumes "cwf pre (CNode cmd final next)" "i < 26"
  shows "cwf pre (CNode cmd final (next[i := None]))"
proof -
  have "next[i := None] ! j = (if j = i then None else next ! j)" if "j < 26" for j
    using cwf_nodeD(1) [OF assms(1)] that by (simp add: nth_list_update)
  with assms show ?thesis unfolding cwf_node by (auto split: if_splits)
qed

lemma deletecommand_ok:
  assumes "cwf pre t" "list_all is_letter rest"
  shows "case unlink h (cfind t rest) of
      None \<Rightarrow> deletecommand (pre @ rest) t rest h = (1, t)
    | Some cs \<Rightarrow> (\<exists>t'. deletecommand (pre @ rest) t rest h = (0, t') \<and> cwf pre t' \<and> cfind t' = (cfind t)(rest := cs))"
  using assms
proof (induction rest arbitrary: pre t)
  case Nil
  obtain cmd final "next" where t: "t = CNode cmd final next" by (cases t)
  note w = cwf_nodeD [OF Nil.prems(1) [unfolded t]]
  show ?case
  proof (cases "cmd = [] \<or> final \<noteq> []")
    case True
    then show ?thesis using w(3) t by auto
  next
    case False
    have "cfind (CNode cs final next) s = ((cfind t)([] := cs)) s" for s cs
      using t False by (cases s) simp_all
    moreover have "cwf pre (CNode cs final next)" if "unlink h cmd = Some cs" for cs
      using cwf_shrink [OF Nil.prems(1) [unfolded t] unlink_set [OF that]] False by (cases "cs = []") simp_all
    ultimately have ok: "cwf pre (CNode cs final next) \<and> cfind (CNode cs final next) = (cfind t)([] := cs)"
      if "unlink h cmd = Some cs" for cs using that by auto
    have "deletecommand (pre @ []) t [] h = (case unlink h cmd of None \<Rightarrow> (1, t) | Some cs \<Rightarrow> (0, CNode cs final next))"
      "cfind t [] = cmd" using False w(3) t by (cases "unlink h cmd"; simp)+
    then show ?thesis using ok by (cases "unlink h cmd") auto
  qed
next
  case (Cons e z)
  obtain cmd final "next" where t: "t = CNode cmd final next" by (cases t)
  note p = Cons.prems(1) [unfolded t]
  note w = cwf_nodeD [OF p]
  have e: "is_letter e" "list_all is_letter z" using Cons.prems(2) by simp_all
  show ?case
  proof (cases "deref final = e")
    case True
    have "e \<noteq> NUL" using e(1) by (auto simp: is_letter_def uchar_def)
    with True obtain f where f: "final = e # f" by (cases final) auto
    then have c: "cmd \<noteq> []" "cname (hd cmd) = pre @ e # f" using w(3,5) by auto
    note lf = cfind_leaf [OF p [unfolded f]]
    show ?thesis
    proof (cases "f = z")
      case False
      then show ?thesis using lf c f t by auto
    next
      case z: True
      have cf: "cfind t (e # z) = cmd" using lf z f t by simp
      have "\<exists>t'. deletecommand (pre @ e # z) t (e # z) h = (0, t') \<and> cwf pre t' \<and> cfind t' = (cfind t)(e # z := cs)"
        if cs: "unlink h cmd = Some cs" for cs
      proof -
        have nm: "cs \<noteq> [] \<Longrightarrow> cname (hd cs) = pre @ e # z"
          using w(2) [of "hd cs"] unlink_set [OF cs] f z by (cases cs) auto
        have w': "cwf pre (CNode cs (if cs \<noteq> [] then e # z else []) next)"
          using cwf_shrink [OF p unlink_set [OF cs]] f z by (cases "cs = []") simp_all
        have "cfind (CNode cs (if cs \<noteq> [] then e # z else []) next) = (\<lambda>_. [])(e # z := cs)"
        proof (cases "cs = []")
          case True
          have "\<forall>i < 26. next ! i = None" using w(6) f by simp
          then have "cfind (CNode [] [] next) s = []" for s by (cases s) simp_all
          with True show ?thesis by auto
        qed (use cfind_leaf [of pre cs e z "next"] w' in simp)
        moreover have "deletecommand (pre @ e # z) t (e # z) h = (0, CNode cs (if cs \<noteq> [] then e # z else []) next)"
          using t f z c cs nm by auto
        ultimately show ?thesis using w' lf f z t by auto
      qed
      moreover have "deletecommand (pre @ e # z) t (e # z) h = (1, t)" if "unlink h cmd = None"
        using that t f z c by simp
      ultimately show ?thesis unfolding cf by (auto simp: fun_upd_def split: option.splits)
    qed
  next
    case nd: False
    then have nf: "\<not> (cmd \<noteq> [] \<and> final = e # z)" by auto
    show ?thesis
    proof (cases "next ! letter_index e")
      case None
      then show ?thesis using cfind_descend [OF e(1) nf, of "next"] nd t by simp
    next
      case (Some u)
      have cf: "cfind t (e # z) = cfind u z" using cfind_descend [OF e(1) nf, of "next"] Some t by simp
      have c: "cwf (pre @ [e]) u" "countcommandtree u \<noteq> 0" "final = []" using cwf_child [OF p e(1) Some] by simp_all
      note ih = Cons.IH [OF c(1) e(2), simplified]
      show ?thesis
      proof (cases "unlink h (cfind u z)")
        case None
        with ih have "deletecommand (pre @ e # z) u z h = (1, u)" by simp
        with None Some cf nd c(2) t show ?thesis by (simp add: list_update_same_conv w(1) e(1))
      next
        case (Some cs)
        with ih obtain u' where u': "deletecommand (pre @ e # z) u z h = (0, u')" "cwf (pre @ [e]) u'"
            "cfind u' = (cfind u)(z := cs)" by (auto simp: fun_upd_def)
        have nx: "next ! letter_index e = Some u" by fact
        let ?y = "if countcommandtree u' = 0 then None else Some u'"
        let ?t = "CNode cmd [] (next[letter_index e := ?y])"
        have eq: "deletecommand (pre @ e # z) t (e # z) h = (0, ?t)" using u'(1) nx nd c(3) t by simp
        have wt: "cwf pre ?t"
        proof (cases "countcommandtree u' = 0")
          case True
          with cwf_drop_next [OF p] c(3) e(1) show ?thesis by simp
        qed (use cwf_next_update p c(3) e(1) u'(2) in simp)
        have at: "cfind t [] = cmd" "cfind t (e # r) = cfind u r" for r
          using t c(3) nx e(1) by simp_all
        have R: "((cfind t)(e # z := cs)) s
            = (case s of [] \<Rightarrow> cmd | d # s' \<Rightarrow> if d = e then ((cfind u)(z := cs)) s' else cfind t s)" for s
          using at by (cases s) (auto simp del: cfind.simps)
        have "cfind ?t s = ((cfind t)(e # z := cs)) s" for s
        proof (cases "countcommandtree u' = 0")
          case True
          then have "cfind u' r = []" for r using cfind_empty [OF u'(2)] by simp
          then have u0: "((cfind u)(z := cs)) r = []" for r using u'(3) by simp
          have "cfind ?t s = (case s of [] \<Rightarrow> cmd | d # s' \<Rightarrow> if d = e then [] else cfind t s)"
            unfolding t c(3) if_P [OF True] by (rule cfind_next_drop [OF w(1) e(1)])
          then show ?thesis unfolding R u0 .
        next
          case False
          have "cfind ?t s = (case s of [] \<Rightarrow> cmd | d # s' \<Rightarrow> if d = e then cfind u' s' else cfind t s)"
            unfolding t c(3) if_not_P [OF False] by (rule cfind_next_update [OF w(1) e(1)])
          then show ?thesis unfolding R u'(3) .
        qed
        then have "cfind ?t = (cfind t)(e # z := cs)" by (rule ext)
        with wt eq Some show ?thesis unfolding cf by auto
      qed
    qed
  qed
qed

section \<open>The operations on the whole tree\<close>

lemma ToLower_letter: "is_letter n \<Longrightarrow> ToLower c = ToLower n \<longleftrightarrow> toupper c = n"
proof -
  assume n: "is_letter n"
  have "ToLower c = ToLower n \<longleftrightarrow> lower_code (uchar c) = lower_code (uchar n)"
    by (metis ToLower_eq_code ToLower_code lower_code_less uchar_char_of uchar_less)
  also have "\<dots> \<longleftrightarrow> uchar (toupper c) = uchar n"
    using n uchar_less [of c]
    by (auto simp: is_letter_def lower_code_def toupper_def simp del: uchar_less uchar_eq_iff split: if_splits)
  finally show ?thesis by simp
qed

lemma map_ToLower_letters:
  "list_all is_letter n \<Longrightarrow> map ToLower s = map ToLower n \<longleftrightarrow> map toupper s = n"
proof (induction s arbitrary: n)
  case (Cons c s)
  then show ?case by (cases n) (auto simp: ToLower_letter)
qed auto

lemma findcommand_single:
  assumes "cwf [] t" "findcommand t [ch] \<noteq> []" "length (cname (hd (findcommand t [ch]))) = 1" "ch \<noteq> NUL"
  shows "cname (hd (findcommand t [ch])) = [toupper ch]"
proof -
  obtain cmd final "next" where t: "t = CNode cmd final next" by (cases t)
  note w = assms(1) [unfolded t]
  show ?thesis
  proof (cases "cmd \<noteq> [] \<and> deref final = toupper ch")
    case True
    with assms(4) obtain f where "final = toupper ch # f" by (cases final) (auto dest: sym)
    with True cwf_nodeD(3) [OF w] assms(3) t show ?thesis by (auto simp: Let_def)
  next
    case False
    then obtain u where u: "is_letter (toupper ch)" "next ! letter_index (toupper ch) = Some u"
        "findcommand t [ch] = findcommand u []"
      using assms(2) t by (auto simp: Let_def split: if_splits option.splits)
    have "cwf [toupper ch] u" using cwf_child [OF w u(1,2)] by simp
    then obtain z where "cname (hd (findcommand t [ch])) = [toupper ch] @ z"
      using findcommand_prefix [of "[toupper ch]" u "[]"] u(3) assms(2) by auto
    with assms(3) show ?thesis by simp
  qed
qed

text \<open>The strict lookup is the lookup in the map, although names of one letter are not compared.\<close>

lemma findcommandintree_strict:
  assumes "cwf [] t" "cstring s" "length s < 2 ^ 64"
  shows "findcommandintree t s True = cfind t (map toupper s)"
proof (cases "findcommand t s = []")
  case True
  then show ?thesis
    using findcommand_cfind [OF assms(1,2)] by (simp add: findcommandintree_def)
next
  case ne: False
  let ?N = "cname (hd (findcommand t s))"
  have l: "list_all is_letter ?N" using findcommand_prefix [OF assms(1) ne] by auto
  then have cN: "cstring ?N" by (auto simp: cstring_def list_all_iff is_letter_def uchar_def)
  have "ircd_strncmp s ?N (of_nat (length ?N)) = 0 \<longleftrightarrow> ?N = map toupper s" if len: "length ?N = length s"
  proof (cases "length s \<le> 1")
    case False
    have un: "unat (of_nat (length ?N) :: 64 word) = length s"
      using len assms(3) by (simp add: unsigned_of_nat take_bit_nat_eq_self)
    define L where "L = (of_nat (length ?N) :: 64 word)"
    have uL: "unat L = length s" unfolding L_def by (rule un)
    have L1: "1 \<le> L" unfolding word_le_nat_alt uL unsigned_1 using False by linarith
    have "unat L \<noteq> 1" unfolding uL using False by linarith
    then have L2: "L \<noteq> 1" by (metis unsigned_1)
    note L = L1 L2 uL
    have "ircd_strncmp s ?N L = 0 \<longleftrightarrow> map ToLower (take (unat L) s) = map ToLower (take (unat L) ?N)"
      using ircd_strncmp_prefix [OF assms(2) cN L(1)] L(2) by blast
    then have "ircd_strncmp s ?N L = 0 \<longleftrightarrow> map ToLower s = map ToLower ?N"
      unfolding L(3) using len by simp
    then show ?thesis unfolding L_def map_ToLower_letters [OF l] by (rule trans [OF _ eq_commute])
  next
    case True
    show ?thesis
    proof (cases s)
      case Nil
      with len show ?thesis by (simp add: ircd_strncmp_def ircd_strncmp_loop.simps)
    next
      case (Cons ch s')
      with True have s: "s = [ch]" by simp
      then have "?N = [toupper ch]"
        using findcommand_single [OF assms(1), of ch] ne len assms(2) by simp
      moreover have "ircd_strncmp s ?N (of_nat (length ?N)) = 0"
        using calculation by (simp add: ircd_strncmp_def)
      ultimately show ?thesis using s by simp
    qed
  qed
  then have "ircd_strncmp s ?N (of_nat (length ?N)) = 0 \<and> length ?N = length s \<longleftrightarrow> ?N = map toupper s"
    by (metis length_map)
  with ne show ?thesis
    unfolding findcommandintree_def findcommand_cfind [OF assms(1,2)] Let_def by auto
qed

definition short_name :: "string \<Rightarrow> bool" where
  "short_name n \<longleftrightarrow> cstring n \<and> length n < MAX_COMMAND_LEN"

definition upper_name :: "string \<Rightarrow> string" where
  "upper_name n = map toupper n"

lemma sanitise_short: "short_name n \<Longrightarrow> sanitisecommandname n =
    (if list_all is_letter (upper_name n) then Some (upper_name n) else None)"
  by (simp add: sanitisecommandname_def short_name_def MAX_COMMAND_LEN_def upper_name_def)

lemma addcommandexttotree_ok:
  assumes "cwf [] t" "short_name n"
  shows "\<exists>t'. addcommandexttotree t n lev maxp h ex = Some (list_all is_letter (upper_name n), t') \<and> cwf [] t'
    \<and> cfind t' = (if list_all is_letter (upper_name n)
        then (cfind t)(upper_name n := cfind t (upper_name n) @
          [\<lparr>cname = upper_name n, level = lev, maxparams = maxp, handler = h, ext = ex, calls = 0\<rparr>])
        else cfind t)"
proof (cases "list_all is_letter (upper_name n)")
  case False
  with assms show ?thesis by (simp add: addcommandexttotree_def sanitise_short)
next
  case True
  let ?nc = "\<lparr>cname = upper_name n, level = lev, maxparams = maxp, handler = h, ext = ex, calls = 0\<rparr>"
  have n: "cstring n" "length n < 2 ^ 64" "length n < 100"
    using assms(2) by (simp_all add: short_name_def MAX_COMMAND_LEN_def)
  have f: "findcommandintree t n True = cfind t (upper_name n)"
    unfolding upper_name_def by (rule findcommandintree_strict [OF assms(1) n(1,2)])
  show ?thesis
  proof (cases "cfind t (upper_name n) = []")
    case True
    have "length (upper_name n) + 2 \<le> MAX_COMMAND_LEN + 1"
      using n(3) by (simp add: upper_name_def MAX_COMMAND_LEN_def)
    then obtain t' where t': "insertcommand (MAX_COMMAND_LEN + 1) [?nc] t 0 = Some (0, t')" "cwf [] t'"
        "cfind t' = (cfind t)(upper_name n := [?nc])"
      using insertcommand_ok [OF assms(1), of "[?nc]" "upper_name n" "MAX_COMMAND_LEN + 1"]
        \<open>list_all is_letter (upper_name n)\<close> True by auto
    then have "addcommandexttotree t n lev maxp h ex = Some (True, t')"
      using assms(2) f True \<open>list_all is_letter (upper_name n)\<close>
      unfolding addcommandexttotree_def sanitise_short [OF assms(2)] by simp
    with t' True \<open>list_all is_letter (upper_name n)\<close> show ?thesis by (simp add: fun_upd_def)
  next
    case False
    have "addcommandexttotree t n lev maxp h ex = Some (True, append_chain t n ?nc)"
      using f False \<open>list_all is_letter (upper_name n)\<close>
      unfolding addcommandexttotree_def sanitise_short [OF assms(2)] by simp
    with append_chain_ok [OF assms(1), of n ?nc] False n(1) \<open>list_all is_letter (upper_name n)\<close>
    show ?thesis by (simp add: upper_name_def fun_upd_def)
  qed
qed

lemma deletecommandfromtree_ok:
  assumes "cwf [] t" "short_name n"
  shows "\<exists>t'. deletecommandfromtree t n h
      = (if list_all is_letter (upper_name n) \<and> unlink h (cfind t (upper_name n)) \<noteq> None then 0 else 1, t')
    \<and> cwf [] t'
    \<and> cfind t' = (if list_all is_letter (upper_name n)
        then (case unlink h (cfind t (upper_name n)) of
                None \<Rightarrow> cfind t | Some cs \<Rightarrow> (cfind t)(upper_name n := cs))
        else cfind t)"
proof (cases "list_all is_letter (upper_name n)")
  case False
  then show ?thesis using assms
    by (simp only: deletecommandfromtree_def sanitise_short if_False option.case) simp
next
  case True
  have d: "deletecommandfromtree t n h = deletecommand (upper_name n) t (upper_name n) h"
    using True by (simp add: deletecommandfromtree_def sanitise_short [OF assms(2)])
  show ?thesis
    using deletecommand_ok [OF assms(1) True, of h] True unfolding d
    by (cases "unlink h (cfind t (upper_name n))") (auto simp: assms(1))
qed

section \<open>The command registry\<close>

text \<open>A client adds and removes commands; the abstract registry maps names to chains.\<close>

datatype ('h, 'e) cmd_op =
    AddCommand string int int 'h "'e option"
  | DeleteCommand string 'h

fun apply_cmd :: "('h, 'e) ctree \<Rightarrow> ('h, 'e) cmd_op \<Rightarrow> ('h, 'e) ctree" where
  "apply_cmd t (AddCommand n lev maxp h ex) =
     (case addcommandexttotree t n lev maxp h ex of None \<Rightarrow> t | Some (_, t') \<Rightarrow> t')"
| "apply_cmd t (DeleteCommand n h) = snd (deletecommandfromtree t n h)"

fun spec_cmd :: "(string \<Rightarrow> ('h, 'e) command list) \<Rightarrow> ('h, 'e) cmd_op \<Rightarrow> (string \<Rightarrow> ('h, 'e) command list)" where
  "spec_cmd m (AddCommand n lev maxp h ex) =
     (if list_all is_letter (upper_name n)
      then m(upper_name n := m (upper_name n) @
             [\<lparr>cname = upper_name n, level = lev, maxparams = maxp, handler = h, ext = ex, calls = 0\<rparr>])
      else m)"
| "spec_cmd m (DeleteCommand n h) =
     (if list_all is_letter (upper_name n)
      then (case unlink h (m (upper_name n)) of None \<Rightarrow> m | Some cs \<Rightarrow> m(upper_name n := cs))
      else m)"

fun short_op :: "('h, 'e) cmd_op \<Rightarrow> bool" where
  "short_op (AddCommand n lev maxp h ex) = short_name n"
| "short_op (DeleteCommand n h) = short_name n"

interpretation commands: refinement "cwf []" cfind apply_cmd spec_cmd short_op
proof (unfold_locales, goal_cases)
  case (1 t op)
  then show ?case
  proof (cases op)
    case (AddCommand n lev maxp h ex)
    with addcommandexttotree_ok [OF 1(1), of n lev maxp h ex] 1(2) show ?thesis by auto
  next
    case (DeleteCommand n h)
    with deletecommandfromtree_ok [OF 1(1), of n h] 1(2) show ?thesis by auto
  qed
next
  case (2 t op)
  then show ?case
  proof (cases op)
    case (AddCommand n lev maxp h ex)
    with addcommandexttotree_ok [OF 2(1), of n lev maxp h ex] 2(2) show ?thesis by auto
  next
    case (DeleteCommand n h)
    with deletecommandfromtree_ok [OF 2(1), of n h] 2(2) show ?thesis by auto
  qed
qed

text \<open>
  C5: after any sequence of registrations and removals of commands with names of at most 99
  characters, the strict lookup finds exactly the chain of commands that a map from upper
  case names to lists would hold: new commands go to the end of the chain, removal takes
  the first command with the handler, and no other name is affected.
\<close>

theorem commandtree_refines_map:
  assumes "list_all short_op ops" "cstring s" "length s < 2 ^ 64"
  shows "findcommandintree (foldl apply_cmd newcommandtree ops) s True
    = foldl spec_cmd (\<lambda>_. []) ops (upper_name s)"
  unfolding upper_name_def
    findcommandintree_strict [OF commands.run_inv [OF cwf_new(1) assms(1)] assms(2,3)]
    commands.run_absf [OF cwf_new(1) assms(1)] cfind_new_fun ..

lemma commandtree_refines_map_witness:
  "map handler (findcommandintree
     (foldl apply_cmd (newcommandtree :: (nat, nat) ctree)
       [AddCommand ''help'' 0 1 1 None, AddCommand ''he'' 0 1 2 None, AddCommand ''HELP'' 0 1 3 None,
        DeleteCommand ''Help'' 1]) ''hELP'' True) = [3]"
proof -
  have u: "upper_name ''help'' = ''HELP''" "upper_name ''he'' = ''HE''" "upper_name ''HELP'' = ''HELP''"
    "upper_name ''Help'' = ''HELP''" "upper_name ''hELP'' = ''HELP''" by code_simp+
  show ?thesis
    by (subst commandtree_refines_map)
      (simp_all add: short_name_def MAX_COMMAND_LEN_def u is_letter_def uchar_def)
qed

text \<open>
  C28: registering and removing report what they did. A name of at most 99 characters is
  refused exactly when it has a character that is no letter; the conflict that
  \<open>insertcommand\<close> calls unexpected cannot happen and its recursion is never deeper than the
  name; removal reports success exactly when the chain of the name has the handler.
\<close>

theorem command_results:
  assumes "list_all short_op ops" "short_name n"
  shows "\<exists>t' t''. addcommandexttotree (foldl apply_cmd newcommandtree ops) n lev maxp h ex
        = Some (list_all is_letter (upper_name n), t')
    \<and> deletecommandfromtree (foldl apply_cmd newcommandtree ops) n h
        = (if list_all is_letter (upper_name n)
             \<and> (\<exists>c \<in> set (foldl spec_cmd (\<lambda>_. []) ops (upper_name n)). handler c = h) then 0 else 1, t'')"
proof -
  let ?t = "foldl apply_cmd newcommandtree ops"
  have w: "cwf [] ?t" by (rule commands.run_inv [OF cwf_new(1) assms(1)])
  have f: "cfind ?t = foldl spec_cmd (\<lambda>_. []) ops"
    using commands.run_absf [OF cwf_new(1) assms(1)] unfolding cfind_new_fun .
  have u: "unlink h cs \<noteq> None \<longleftrightarrow> (\<exists>c \<in> set cs. handler c = h)" for cs :: "('a, 'b) command list"
    by (induction h cs rule: unlink.induct) auto
  show ?thesis
    using addcommandexttotree_ok [OF w assms(2), of lev maxp h ex]
      deletecommandfromtree_ok [OF w assms(2), of h]
    unfolding f u by blast
qed

lemma command_results_witness:
  "fst (deletecommandfromtree (foldl apply_cmd (newcommandtree :: (nat, nat) ctree)
       [AddCommand ''help'' 0 1 1 None, AddCommand ''he'' 0 1 2 None]) ''he'' 2) = 0"
proof -
  have u: "upper_name ''help'' = ''HELP''" "upper_name ''he'' = ''HE''" by code_simp+
  let ?ops = "[AddCommand ''help'' 0 1 1 None, AddCommand ''he'' 0 1 2 None] :: (nat, nat) cmd_op list"
  have "list_all short_op ?ops" "short_name ''he''" by (simp_all add: short_name_def MAX_COMMAND_LEN_def)
  from command_results [OF this, of 0 0 2 None] show ?thesis
    by (auto simp: u is_letter_def uchar_def)
qed

section \<open>Listing the commands\<close>

lemma quota_split:
  fixes a b A B :: nat
  assumes "0 \<le> m" "a = min A (nat m + 1)" "b = min B (nat (m - int a + 1))"
  shows "a + b = min (A + B) (nat (m + 1))"
  using assms by linarith

lemma getcommandlist_length:
  fixes t :: "('h, 'e) ctree" and xs :: "('h, 'e) ctree option list"
  shows
  "0 \<le> m \<Longrightarrow> length (getcommandlist t m) = min (countcommandtree t) (nat m + 1)"
  "-1 \<le> m \<Longrightarrow> length (getcommandlists xs m) = min (sum_list (map count_opt xs)) (nat (m + 1))"
proof (induction t m and xs m rule: getcommandlist_getcommandlists.induct)
  case (1 cmd final "next" m)
  then show ?case by (auto simp: count_node min_def nat_add_distrib)
next
  case (3 x xs m)
  show ?case
  proof (cases x)
    case (Some t)
    show ?thesis
    proof (cases "m = -1")
      case True
      have "getcommandlists ys (-1) = []" for ys :: "('h, 'e) ctree option list"
      proof (induction ys)
        case (Cons y ys)
        moreover have "getcommandlist u (-1) = []" for u :: "('h, 'e) ctree" by (cases u) simp
        ultimately show ?case by (auto split: option.splits)
      qed simp
      with True show ?thesis by simp
    next
      case False
      then have m: "0 \<le> m" using 3(4) by simp
      have l: "length (getcommandlist t m) = min (countcommandtree t) (nat m + 1)" using 3(2) [OF Some m] .
      have "length (getcommandlists xs (m - int (length (getcommandlist t m))))
          = min (sum_list (map count_opt xs)) (nat (m - int (length (getcommandlist t m)) + 1))"
        using 3(3) [OF Some refl] l m by simp
      moreover have "getcommandlists (x # xs) m
          = getcommandlist t m @ getcommandlists xs (m - int (length (getcommandlist t m)))"
        using Some by (simp add: Let_def)
      moreover have "sum_list (map count_opt (x # xs)) = countcommandtree t + sum_list (map count_opt xs)"
        using Some by simp
      ultimately show ?thesis using quota_split [OF m l] by (simp only: length_append)
    qed
  qed (use 3 in simp)
qed simp

text \<open>The first command of every chain.\<close>

definition heads :: "('h, 'e) ctree \<Rightarrow> ('h, 'e) command set" where
  "heads t = {hd (cfind t s) | s. cfind t s \<noteq> []}"

definition heads_opt :: "('h, 'e) ctree option \<Rightarrow> ('h, 'e) command set" where
  "heads_opt x = (case x of None \<Rightarrow> {} | Some t \<Rightarrow> heads t)"

lemma heads_node:
  assumes "cwf pre (CNode cmd final next)"
  shows "heads (CNode cmd final next) = (if cmd \<noteq> [] then {hd cmd} else {}) \<union> (\<Union>x \<in> set next. heads_opt x)"
    (is "?L = ?R")
proof
  show "?L \<subseteq> ?R"
  proof
    fix c assume "c \<in> ?L"
    then obtain s where s: "c = hd (cfind (CNode cmd final next) s)" "cfind (CNode cmd final next) s \<noteq> []"
      unfolding heads_def by blast
    show "c \<in> ?R"
    proof (cases "cmd \<noteq> [] \<and> final = s")
      case True
      with s show ?thesis by (cases s) auto
    next
      case False
      with s(2) obtain d r where d: "s = d # r" by (cases s) (auto split: if_splits)
      with False s(2) obtain u where u: "is_letter d" "next ! letter_index d = Some u" "cfind u r \<noteq> []"
          "cfind (CNode cmd final next) s = cfind u r"
        by (cases "is_letter d"; cases "next ! letter_index d") auto
      have "Some u \<in> set next" using u(1,2) cwf_nodeD(1) [OF assms] by (metis letter_facts(3) nth_mem)
      moreover have "c \<in> heads_opt (Some u)" using s(1) u(3,4) by (auto simp: heads_opt_def heads_def)
      ultimately show ?thesis by blast
    qed
  qed
  have "hd cmd \<in> ?L" if "cmd \<noteq> []"
  proof -
    have "cfind (CNode cmd final next) final = cmd" using that by (cases final) auto
    with that show ?thesis unfolding heads_def by (metis (mono_tags, lifting) mem_Collect_eq)
  qed
  moreover have "heads_opt x \<subseteq> ?L" if x: "x \<in> set next" for x
  proof
    fix c assume c: "c \<in> heads_opt x"
    then obtain u where u: "x = Some u" "c \<in> heads u" by (auto simp: heads_opt_def split: option.splits)
    then obtain r where r: "c = hd (cfind u r)" "cfind u r \<noteq> []" unfolding heads_def by blast
    obtain i where i: "i < 26" "next ! i = Some u"
      using x u(1) cwf_nodeD(1) [OF assms] by (metis in_set_conv_nth)
    then have "final = []" using cwf_nodeD(6) [OF assms] by force
    with i have "cfind (CNode cmd final next) (letter i # r) = cfind u r" by simp
    with r show "c \<in> ?L" unfolding heads_def by (metis (mono_tags, lifting) mem_Collect_eq)
  qed
  ultimately show "?R \<subseteq> ?L" by (auto split: if_splits)
qed

lemma cwf_nextD: "cwf pre (CNode cmd final next) \<Longrightarrow> Some u \<in> set next \<Longrightarrow> \<exists>p. cwf p u"
  unfolding cwf_node by (metis in_set_conv_nth)

lemma heads_empty: "cwf pre t \<Longrightarrow> countcommandtree t = 0 \<Longrightarrow> heads t = {}"
  by (simp add: heads_def cfind_empty)

lemma getcommandlist_set:
  fixes t :: "('h, 'e) ctree" and xs :: "('h, 'e) ctree option list"
  shows
  "\<exists>p. cwf p t \<Longrightarrow> int (countcommandtree t) \<le> m + 1 \<Longrightarrow> set (getcommandlist t m) = heads t"
  "\<forall>u. Some u \<in> set xs \<longrightarrow> (\<exists>p. cwf p u) \<Longrightarrow> int (sum_list (map count_opt xs)) \<le> m + 1
    \<Longrightarrow> set (getcommandlists xs m) = (\<Union>x \<in> set xs. heads_opt x)"
proof (induction t m and xs m rule: getcommandlist_getcommandlists.induct)
  case (1 cmd final "next" m)
  then obtain p where p: "cwf p (CNode cmd final next)" by blast
  show ?case
  proof (cases "m < 0")
    case True
    with 1(3) have "countcommandtree (CNode cmd final next) = 0" by simp
    with True heads_empty [OF p] show ?thesis by simp
  next
    case False
    have "set (getcommandlists next (m - (if cmd \<noteq> [] then 1 else 0))) = (\<Union>x \<in> set next. heads_opt x)"
      using 1(1) [OF False] 1(3) cwf_nextD [OF p] by (auto simp: count_node)
    with False heads_node [OF p] show ?thesis by simp
  qed
next
  case (3 x xs m)
  show ?case
  proof (cases x)
    case None
    with 3 show ?thesis by (simp add: heads_opt_def)
  next
    case (Some t)
    have sum: "int (countcommandtree t) + int (sum_list (map count_opt xs)) \<le> m + 1" using 3(5) Some by simp
    have m: "m = -1 \<or> 0 \<le> m" using sum by linarith
    have t: "set (getcommandlist t m) = heads t" using 3(2) [OF Some] 3(4) Some sum by simp
    have l: "length (getcommandlist t m) = countcommandtree t"
    proof (cases "0 \<le> m")
      case True
      then show ?thesis using getcommandlist_length(1) [OF True, of t] sum by linarith
    next
      case False
      with sum have "countcommandtree t = 0" by linarith
      moreover have "getcommandlist t m = []" using False by (cases t) simp
      ultimately show ?thesis by simp
    qed
    have "set (getcommandlists xs (m - int (length (getcommandlist t m)))) = (\<Union>x \<in> set xs. heads_opt x)"
      using 3(3) [OF Some refl] 3(4) sum l by simp
    with t Some show ?thesis by (simp add: heads_opt_def Let_def)
  qed
qed simp

text \<open>
  \<open>getcommandlist\<close> writes one command per name, and all of them when the array has room;
  but it writes up to \<open>maxcommands + 1\<close> of them, one more than the array of the caller holds.
\<close>

lemma getcommandlist_bound:
  assumes "list_all short_op ops" "0 \<le> m"
  shows "length (getcommandlist (foldl apply_cmd newcommandtree ops) m)
      = min (countcommandtree (foldl apply_cmd newcommandtree ops)) (nat m + 1)
    \<and> (int (countcommandtree (foldl apply_cmd newcommandtree ops)) \<le> m + 1 \<longrightarrow>
        set (getcommandlist (foldl apply_cmd newcommandtree ops) m)
          = {hd (foldl spec_cmd (\<lambda>_. []) ops s) | s. foldl spec_cmd (\<lambda>_. []) ops s \<noteq> []})"
proof -
  let ?t = "foldl apply_cmd newcommandtree ops"
  have w: "cwf [] ?t" by (rule commands.run_inv [OF cwf_new(1) assms(1)])
  have f: "cfind ?t = foldl spec_cmd (\<lambda>_. []) ops"
    using commands.run_absf [OF cwf_new(1) assms(1)] unfolding cfind_new_fun .
  show ?thesis
    using getcommandlist_length(1) [OF assms(2)] getcommandlist_set(1) [of ?t m] w
    unfolding heads_def f by blast
qed

lemma getcommandlist_bound_witness:
  "length (getcommandlist (foldl apply_cmd (newcommandtree :: (nat, nat) ctree)
      [AddCommand ''a'' 0 1 1 None, AddCommand ''b'' 0 1 2 None]) 1) = 2"
proof -
  let ?ops = "[AddCommand ''a'' 0 1 1 None, AddCommand ''b'' 0 1 2 None] :: (nat, nat) cmd_op list"
  have ok: "list_all short_op ?ops" by (simp add: short_name_def MAX_COMMAND_LEN_def)
  have "countcommandtree (foldl apply_cmd newcommandtree ?ops) = 2" by code_simp
  with getcommandlist_bound [OF ok, of 1] show ?thesis by simp
qed

text \<open>
  A name of a hundred letters is cut when it is stored but not when it is looked up, so
  registering it a second time ends in the conflict that is called unexpected: the command
  is refused instead of joining the chain.
\<close>

lemma long_name_conflict:
  "(case addcommandexttotree (newcommandtree :: (nat, nat) ctree) (replicate 100 (CHR ''A'')) 0 1 1 None of
      Some (True, t) \<Rightarrow> map_option fst (addcommandexttotree t (replicate 100 (CHR ''A'')) 0 1 2 None)
    | _ \<Rightarrow> None) = Some False"
  by code_simp

end
