(* ===== verification/Hooks.thy ===== *)
theory Hooks
  imports Prelude "HOL-Library.Multiset"
begin

text \<open>
  The hooks of \<open>core/hooks.c\<close>: per hook number a linked list of callbacks in the order of
  their priorities. Deregistration only clears a callback, so that a list can be walked
  while its hooks change; the cleared entries are collected when the outermost trigger ends.
  Shown: the lists stay in order and dead entries are never lost track of, triggering runs
  the registered callbacks in the order of priority and registration, and the hook number
  equal to the array size passes the guard of every function.
\<close>

section \<open>Hooks\<close>

text \<open>\<open>hook_id\<close> is the address of the entry; a callback is \<open>None\<close> when it is NULL.\<close>

record 'cb hook =
  hook_id :: nat
  hook_callback :: "'cb option"
  hook_priority :: int

text \<open>\<open>world\<close> is what the callbacks change besides the hooks.\<close>

record ('cb, 'w) hookst =
  hook_heads :: "int \<Rightarrow> 'cb hook list"
  dirty :: "int \<Rightarrow> bool"
  dirtyhooks :: "int list"
  hookqueuelength :: nat
  next_addr :: nat
  world :: 'w

definition HOOKMAX :: int where
  "HOOKMAX = 5000"

definition HOOK_CORE_ENDOFHOOKSQUEUE :: int where
  "HOOK_CORE_ENDOFHOOKSQUEUE = 3"

definition PRIORITY_DEFAULT :: int where
  "PRIORITY_DEFAULT = 0"

definition inithooks :: "'w \<Rightarrow> ('cb, 'w) hookst" where
  "inithooks w = \<lparr>hook_heads = (\<lambda>_. []), dirty = (\<lambda>_. False), dirtyhooks = [], hookqueuelength = 0,
     next_addr = 0, world = w\<rparr>"

text \<open>Whether \<open>hooks[hooknum]\<close> lies in the array.\<close>

definition in_hooks :: "int \<Rightarrow> bool" where
  "in_hooks hooknum \<longleftrightarrow> 0 \<le> hooknum \<and> hooknum < HOOKMAX"

text \<open>
  The scan of \<open>registerpriorityhook\<close>: \<open>None\<close> when the callback is there already, else the
  number of entries up to the last one that is not of a higher priority.
\<close>

fun register_scan :: "'cb option \<Rightarrow> int \<Rightarrow> 'cb hook list \<Rightarrow> nat \<Rightarrow> nat \<Rightarrow> nat option" where
  "register_scan cb p [] i pred = Some pred"
| "register_scan cb p (h # hs) i pred =
     (if hook_callback h = cb then None
      else register_scan cb p hs (i + 1) (if p \<ge> hook_priority h then i + 1 else pred))"

text \<open>The result is \<open>None\<close> when the array is indexed out of its bounds.\<close>

definition registerpriorityhook :: "int \<Rightarrow> 'cb option \<Rightarrow> int \<Rightarrow> ('cb, 'w) hookst
    \<Rightarrow> (int \<times> ('cb, 'w) hookst) option" where
  "registerpriorityhook hooknum cb p st =
     (if hooknum > HOOKMAX then Some (1, st)
      else if \<not> in_hooks hooknum then None
      else
        let l = hook_heads st hooknum
        in (case register_scan cb p l 0 0 of
              None \<Rightarrow> Some (1, st)
            | Some k \<Rightarrow>
                (let n = \<lparr>hook_id = next_addr st, hook_callback = cb, hook_priority = p\<rparr>
                 in Some (0, st\<lparr>hook_heads := (hook_heads st)(hooknum := take k l @ n # drop k l),
                                next_addr := next_addr st + 1\<rparr>))))"

definition registerhook :: "int \<Rightarrow> 'cb option \<Rightarrow> ('cb, 'w) hookst \<Rightarrow> (int \<times> ('cb, 'w) hookst) option" where
  "registerhook hooknum cb st = registerpriorityhook hooknum cb PRIORITY_DEFAULT st"

definition markdirty :: "int \<Rightarrow> ('cb, 'w) hookst \<Rightarrow> ('cb, 'w) hookst" where
  "markdirty h st =
     (if dirty st h then st
      else st\<lparr>dirty := (dirty st)(h := True), dirtyhooks := dirtyhooks st @ [h]\<rparr>)"

fun clear_first :: "'cb option \<Rightarrow> 'cb hook list \<Rightarrow> 'cb hook list option" where
  "clear_first cb [] = None"
| "clear_first cb (h # hs) =
     (if hook_callback h = cb then Some (h\<lparr>hook_callback := None\<rparr> # hs)
      else map_option (Cons h) (clear_first cb hs))"

definition deregisterhook :: "int \<Rightarrow> 'cb option \<Rightarrow> ('cb, 'w) hookst \<Rightarrow> (int \<times> ('cb, 'w) hookst) option" where
  "deregisterhook hooknum cb st =
     (if hooknum > HOOKMAX then Some (1, st)
      else if \<not> in_hooks hooknum then None
      else (case clear_first cb (hook_heads st hooknum) of
              None \<Rightarrow> Some (1, st)
            | Some l \<Rightarrow>
                (let st1 = markdirty hooknum st
                 in Some (0, st1\<lparr>hook_heads := (hook_heads st1)(hooknum := l)\<rparr>))))"

section \<open>Triggering\<close>

fun next_id :: "nat \<Rightarrow> 'cb hook list \<Rightarrow> nat option" where
  "next_id i [] = None"
| "next_id i (h # hs) =
     (if hook_id h = i then (case hs of [] \<Rightarrow> None | h' # _ \<Rightarrow> Some (hook_id h')) else next_id i hs)"

text \<open>
  The walk over the list. A callback may change everything, the list included, so the entry
  is looked up by its address; \<open>None\<close> is a walk that does not end within the fuel, or an
  entry that was freed under the walk.
\<close>

fun trigger_loop :: "nat \<Rightarrow> ('cb \<Rightarrow> int \<Rightarrow> ('cb, 'w) hookst \<Rightarrow> ('cb, 'w) hookst) \<Rightarrow> int \<Rightarrow> nat option
    \<Rightarrow> ('cb, 'w) hookst \<Rightarrow> ('cb, 'w) hookst option" where
  "trigger_loop fuel call hooknum None st = Some st"
| "trigger_loop 0 call hooknum (Some i) st = None"
| "trigger_loop (Suc fuel) call hooknum (Some i) st =
     (case find (\<lambda>h. hook_id h = i) (hook_heads st hooknum) of
        None \<Rightarrow> None
      | Some h \<Rightarrow>
          (let st' = (case hook_callback h of None \<Rightarrow> st | Some cb \<Rightarrow> call cb hooknum st)
           in trigger_loop fuel call hooknum (next_id i (hook_heads st' hooknum)) st'))"

definition first_id :: "'cb hook list \<Rightarrow> nat option" where
  "first_id l = (case l of [] \<Rightarrow> None | h # _ \<Rightarrow> Some (hook_id h))"

definition trigger_queue :: "nat \<Rightarrow> ('cb \<Rightarrow> int \<Rightarrow> ('cb, 'w) hookst \<Rightarrow> ('cb, 'w) hookst) \<Rightarrow> int
    \<Rightarrow> ('cb, 'w) hookst \<Rightarrow> ('cb, 'w) hookst option" where
  "trigger_queue fuel call hooknum st =
     (let st1 = st\<lparr>hookqueuelength := hookqueuelength st + 1\<rparr>
      in map_option (\<lambda>st2. st2\<lparr>hookqueuelength := hookqueuelength st2 - 1\<rparr>)
           (trigger_loop fuel call hooknum (first_id (hook_heads st1 hooknum)) st1))"

definition collectgarbage :: "int \<Rightarrow> ('cb, 'w) hookst \<Rightarrow> ('cb, 'w) hookst" where
  "collectgarbage h st =
     st\<lparr>hook_heads := (hook_heads st)(h := filter (\<lambda>x. hook_callback x \<noteq> None) (hook_heads st h)),
        dirty := (dirty st)(h := False)\<rparr>"

definition collect_dirty :: "('cb, 'w) hookst \<Rightarrow> ('cb, 'w) hookst" where
  "collect_dirty st = (foldl (\<lambda>s h. collectgarbage h s) st (dirtyhooks st))\<lparr>dirtyhooks := []\<rparr>"

text \<open>The call of \<open>triggerhook\<close> for the end of the queue does only the walk.\<close>

definition triggerhook :: "nat \<Rightarrow> ('cb \<Rightarrow> int \<Rightarrow> ('cb, 'w) hookst \<Rightarrow> ('cb, 'w) hookst) \<Rightarrow> int
    \<Rightarrow> ('cb, 'w) hookst \<Rightarrow> ('cb, 'w) hookst option" where
  "triggerhook fuel call hooknum st =
     (if hooknum > HOOKMAX then Some st
      else if \<not> in_hooks hooknum then None
      else (case trigger_queue fuel call hooknum st of
              None \<Rightarrow> None
            | Some st1 \<Rightarrow>
                (if hookqueuelength st1 = 0 \<and> hooknum \<noteq> HOOK_CORE_ENDOFHOOKSQUEUE
                 then map_option collect_dirty (trigger_queue fuel call HOOK_CORE_ENDOFHOOKSQUEUE st1)
                 else Some st1)))"

section \<open>The queue a list of hooks stands for\<close>

fun live :: "'cb hook list \<Rightarrow> (int \<times> 'cb) list" where
  "live [] = []"
| "live (h # hs) = (case hook_callback h of None \<Rightarrow> live hs | Some cb \<Rightarrow> (hook_priority h, cb) # live hs)"

definition by_priority :: "'cb hook list \<Rightarrow> bool" where
  "by_priority l \<longleftrightarrow> sorted (map hook_priority l)"

definition queue_insert :: "int \<Rightarrow> 'cb \<Rightarrow> (int \<times> 'cb) list \<Rightarrow> (int \<times> 'cb) list" where
  "queue_insert p cb q =
     (if cb \<in> snd ` set q then q
      else takeWhile (\<lambda>x. fst x \<le> p) q @ (p, cb) # dropWhile (\<lambda>x. fst x \<le> p) q)"

lemma live_append [simp]: "live (l @ l') = live l @ live l'"
  by (induction l) (auto split: option.splits)

lemma live_filter [simp]: "live (filter (\<lambda>x. hook_callback x \<noteq> None) l) = live l"
  by (induction l) (auto split: option.splits)

lemma live_callbacks: "cb \<in> snd ` set (live l) \<longleftrightarrow> Some cb \<in> hook_callback ` set l"
  by (induction l) (auto split: option.splits)

lemma live_priorities: "x \<in> set (live l) \<Longrightarrow> fst x \<in> hook_priority ` set l"
  by (induction l) (auto split: option.splits)

lemma by_priority_Cons [simp]:
  "by_priority (h # l) \<longleftrightarrow> (\<forall>x \<in> set l. hook_priority h \<le> hook_priority x) \<and> by_priority l"
  by (simp add: by_priority_def)

lemma takeWhile_none: "\<forall>x \<in> set l. \<not> P x \<Longrightarrow> takeWhile P l = [] \<and> dropWhile P l = l"
  by (cases l) simp_all

lemma live_takeWhile:
  "by_priority l \<Longrightarrow> live (takeWhile (\<lambda>h. hook_priority h \<le> p) l) = takeWhile (\<lambda>x. fst x \<le> p) (live l)
    \<and> live (dropWhile (\<lambda>h. hook_priority h \<le> p) l) = dropWhile (\<lambda>x. fst x \<le> p) (live l)"
proof (induction l)
  case (Cons h l)
  show ?case
  proof (cases "hook_priority h \<le> p")
    case False
    have "\<not> fst x \<le> p" if "x \<in> set (live (h # l))" for x
      using live_priorities [OF that] Cons.prems False by auto
    then show ?thesis using takeWhile_none [of "live (h # l)"] False by auto
  qed (use Cons in \<open>simp split: option.splits\<close>)
qed simp

lemma register_scan_spec:
  "by_priority l \<Longrightarrow> register_scan cb p l i pred =
     (if cb \<in> hook_callback ` set l then None
      else Some (if takeWhile (\<lambda>h. hook_priority h \<le> p) l = [] then pred
                 else i + length (takeWhile (\<lambda>h. hook_priority h \<le> p) l)))"
proof (induction l arbitrary: i pred)
  case (Cons h l)
  show ?case
  proof (cases "hook_priority h \<le> p")
    case False
    then have "\<forall>x \<in> set l. \<not> hook_priority x \<le> p" using Cons.prems by auto
    from takeWhile_none [OF this] show ?thesis using Cons False by auto
  qed (use Cons in auto)
qed simp

lemma by_priority_insert:
  assumes "by_priority l"
  shows "by_priority (takeWhile (\<lambda>h. hook_priority h \<le> hook_priority n) l @ n # dropWhile (\<lambda>h. hook_priority h \<le> hook_priority n) l)"
  using assms
proof (induction l)
  case (Cons h l)
  show ?case using Cons by (auto simp: by_priority_def dest: set_takeWhileD set_dropWhileD)
qed (simp add: by_priority_def)

section \<open>The invariant\<close>

text \<open>
  A list with a cleared entry is marked, and each marked list is noted once; that is what
  bounds the array of marked lists and lets the collection find every cleared entry.
\<close>

definition list_ok :: "nat \<Rightarrow> 'cb hook list \<Rightarrow> bool" where
  "list_ok k l \<longleftrightarrow> by_priority l \<and> distinct (map hook_id l) \<and> (\<forall>h \<in> set l. hook_id h < k)
     \<and> distinct (map snd (live l))"

definition hooks_ok :: "('cb, 'w) hookst \<Rightarrow> bool" where
  "hooks_ok st \<longleftrightarrow> (\<forall>n. list_ok (next_addr st) (hook_heads st n))
     \<and> distinct (dirtyhooks st) \<and> (\<forall>n. n \<in> set (dirtyhooks st) \<longleftrightarrow> dirty st n) \<and> set (dirtyhooks st) \<subseteq> {0..<HOOKMAX}
     \<and> (\<forall>n. None \<in> hook_callback ` set (hook_heads st n) \<longrightarrow> dirty st n)
     \<and> hookqueuelength st = 0"

definition queues :: "('cb, 'w) hookst \<Rightarrow> (int \<Rightarrow> (int \<times> 'cb) list) \<times> 'w" where
  "queues st = ((\<lambda>n. live (hook_heads st n)), world st)"

lemma dirtyhooks_fit: "hooks_ok st \<Longrightarrow> int (length (dirtyhooks st)) \<le> HOOKMAX"
proof -
  assume "hooks_ok st"
  then have d: "distinct (dirtyhooks st)" "set (dirtyhooks st) \<subseteq> {0..<HOOKMAX}" by (simp_all add: hooks_ok_def)
  have "card (set (dirtyhooks st)) \<le> card {0..<HOOKMAX}" by (rule card_mono [OF _ d(2)]) simp
  with distinct_card [OF d(1)] show ?thesis by (simp add: HOOKMAX_def)
qed

lemma live_callback_insert:
  "distinct (map snd q) \<Longrightarrow> distinct (map snd (queue_insert p cb q))"
proof -
  assume d: "distinct (map snd q)"
  have m: "map snd q = map snd (takeWhile P q) @ map snd (dropWhile P q)" for P
    by (metis map_append takeWhile_dropWhile_id)
  show ?thesis
  proof (cases "cb \<in> snd ` set q")
    case False
    have "cb \<notin> set (map snd q)" using False by simp
    then have "distinct (cb # map snd q)" using d by (simp only: distinct.simps) simp
    then show ?thesis using False m [of "\<lambda>x. fst x \<le> p"] by (auto simp: queue_insert_def)
  qed (simp add: queue_insert_def d)
qed

lemma register_ok:
  assumes "hooks_ok st" "in_hooks n"
  shows "\<exists>r st'. registerpriorityhook n (Some cb) p st = Some (r, st') \<and> hooks_ok st' \<and> world st' = world st
    \<and> (\<forall>m. live (hook_heads st' m) = (if m = n then queue_insert p cb (live (hook_heads st n)) else live (hook_heads st m)))
    \<and> (r = 0 \<longleftrightarrow> cb \<notin> snd ` set (live (hook_heads st n)))"
proof -
  let ?l = "hook_heads st n"
  let ?P = "\<lambda>h. hook_priority h \<le> p"
  let ?n = "\<lparr>hook_id = next_addr st, hook_callback = Some cb, hook_priority = p\<rparr>"
  have l: "list_ok (next_addr st) (hook_heads st m)" for m using assms(1) by (simp add: hooks_ok_def)
  have s: "by_priority ?l" using l by (simp add: list_ok_def)
  have guard: "\<not> n > HOOKMAX" using assms(2) by (simp add: in_hooks_def)
  show ?thesis
  proof (cases "Some cb \<in> hook_callback ` set ?l")
    case True
    have "registerpriorityhook n (Some cb) p st = Some (1, st)"
      using True guard assms(2) by (simp add: registerpriorityhook_def register_scan_spec [OF s])
    moreover have "cb \<in> snd ` set (live ?l)" using True by (simp add: live_callbacks)
    ultimately show ?thesis using assms(1) by (auto simp: queue_insert_def)
  next
    case False
    let ?l' = "takeWhile ?P ?l @ ?n # dropWhile ?P ?l"
    let ?st' = "st\<lparr>hook_heads := (hook_heads st)(n := ?l'), next_addr := next_addr st + 1\<rparr>"
    have "register_scan (Some cb) p ?l 0 0 = Some (length (takeWhile ?P ?l))"
      using False by (simp add: register_scan_spec [OF s])
    then have "registerpriorityhook n (Some cb) p st = Some (0, ?st')"
      using guard assms(2) by (simp add: registerpriorityhook_def Let_def takeWhile_eq_take [symmetric] dropWhile_eq_drop [symmetric])
    moreover have new: "cb \<notin> snd ` set (live ?l)" using False by (simp add: live_callbacks)
    moreover have lv: "live ?l' = queue_insert p cb (live ?l)"
      using live_takeWhile [OF s] new by (simp add: queue_insert_def)
    moreover have "hooks_ok ?st'"
    proof -
      have set: "set ?l' = insert ?n (set ?l)"
        by (metis Un_insert_right list.simps(15) set_append takeWhile_dropWhile_id)
      have ids: "mset (map hook_id ?l') = add_mset (next_addr st) (mset (map hook_id ?l))"
        by (metis (no_types, lifting) hook.select_convs(1) list.simps(9) map_append mset.simps(2) mset_append takeWhile_dropWhile_id union_mset_add_mset_right)
      have "distinct (next_addr st # map hook_id ?l)" using l [of n] by (auto simp: list_ok_def)
      then have "distinct (map hook_id ?l')" using ids by (metis mset.simps(2) mset_eq_imp_distinct_iff)
      then have "list_ok (next_addr st + 1) ?l'"
        using l [of n] by_priority_insert [OF s, of ?n] lv live_callback_insert [of "live ?l" p cb] set
        unfolding list_ok_def by auto
      moreover have "list_ok (next_addr st + 1) (hook_heads st m)" for m
        using l [of m] by (auto simp: list_ok_def)
      ultimately show ?thesis using assms(1) set unfolding hooks_ok_def by auto
    qed
    ultimately show ?thesis by auto
  qed
qed

lemma clear_first_None: "clear_first cb l = None \<longleftrightarrow> cb \<notin> hook_callback ` set l"
  by (induction cb l rule: clear_first.induct) auto

lemma clear_first_Some:
  assumes "clear_first (Some cb) l = Some l'" "distinct (map snd (live l))"
  shows "map hook_id l' = map hook_id l \<and> map hook_priority l' = map hook_priority l
    \<and> live l' = filter (\<lambda>x. snd x \<noteq> cb) (live l)"
  using assms
proof (induction "Some cb" l arbitrary: l' rule: clear_first.induct)
  case (2 h hs)
  show ?case
  proof (cases "hook_callback h = Some cb")
    case True
    have "cb \<notin> snd ` set (live hs)" using True 2(3) by auto
    then have "filter (\<lambda>x. snd x \<noteq> cb) (live hs) = live hs" by (auto simp: filter_id_conv)
    with True 2(2) show ?thesis by auto
  next
    case False
    with 2(2) obtain k where k: "clear_first (Some cb) hs = Some k" "l' = h # k" by auto
    have "distinct (map snd (live hs))" using 2(3) by (auto split: option.splits)
    from 2(1) [OF False k(1) this] k(2) False show ?thesis by (auto split: option.splits)
  qed
qed simp

lemma list_ok_cong:
  assumes "list_ok k l" "map hook_id l' = map hook_id l" "map hook_priority l' = map hook_priority l"
    "distinct (map snd (live l'))"
  shows "list_ok k l'"
proof -
  have "hook_id ` set l' = hook_id ` set l" by (metis assms(2) image_set)
  moreover have "\<forall>i \<in> hook_id ` set l. i < k" using assms(1) by (simp add: list_ok_def)
  ultimately have "\<forall>h \<in> set l'. hook_id h < k" by blast
  with assms show ?thesis by (simp add: list_ok_def by_priority_def)
qed

lemma markdirty_facts:
  "hook_heads (markdirty n st) = hook_heads st" "world (markdirty n st) = world st"
  "next_addr (markdirty n st) = next_addr st" "hookqueuelength (markdirty n st) = hookqueuelength st"
  "dirty (markdirty n st) m \<longleftrightarrow> dirty st m \<or> m = n"
  by (auto simp: markdirty_def)

lemma deregister_ok:
  assumes "hooks_ok st" "in_hooks n"
  shows "\<exists>r st'. deregisterhook n (Some cb) st = Some (r, st') \<and> hooks_ok st' \<and> world st' = world st
    \<and> (\<forall>m. live (hook_heads st' m) = (if m = n then filter (\<lambda>x. snd x \<noteq> cb) (live (hook_heads st n)) else live (hook_heads st m)))
    \<and> (r = 0 \<longleftrightarrow> cb \<in> snd ` set (live (hook_heads st n)))"
proof (cases "clear_first (Some cb) (hook_heads st n)")
  case None
  then have no: "cb \<notin> snd ` set (live (hook_heads st n))" by (simp add: clear_first_None live_callbacks)
  then have "filter (\<lambda>x. snd x \<noteq> cb) (live (hook_heads st n)) = live (hook_heads st n)"
    by (auto simp: filter_id_conv)
  moreover have "deregisterhook n (Some cb) st = Some (1, st)"
    using None assms(2) by (simp add: deregisterhook_def in_hooks_def)
  ultimately show ?thesis using assms(1) no by simp
next
  case (Some l)
  let ?st' = "(markdirty n st)\<lparr>hook_heads := (hook_heads st)(n := l)\<rparr>"
  have ok: "list_ok (next_addr st) (hook_heads st m)" for m using assms(1) by (simp add: hooks_ok_def)
  have c: "map hook_id l = map hook_id (hook_heads st n)" "map hook_priority l = map hook_priority (hook_heads st n)"
      "live l = filter (\<lambda>x. snd x \<noteq> cb) (live (hook_heads st n))"
    using clear_first_Some [OF Some] ok [of n] by (auto simp: list_ok_def)
  have "distinct (map snd (live l))" using ok [of n] unfolding c(3) list_ok_def by (simp add: distinct_map_filter)
  then have "list_ok (next_addr st) l" using list_ok_cong [OF ok c(1,2)] by blast
  moreover have "distinct (dirtyhooks (markdirty n st))" "set (dirtyhooks (markdirty n st)) \<subseteq> {0..<HOOKMAX}"
      "m \<in> set (dirtyhooks (markdirty n st)) \<longleftrightarrow> dirty (markdirty n st) m" for m
    using assms by (auto simp: hooks_ok_def markdirty_def in_hooks_def)
  ultimately have "hooks_ok ?st'"
    using assms(1) ok unfolding hooks_ok_def by (auto simp: markdirty_facts)
  moreover have "deregisterhook n (Some cb) st = Some (0, ?st')"
    using Some assms(2) by (simp add: deregisterhook_def in_hooks_def markdirty_facts)
  moreover have "cb \<in> snd ` set (live (hook_heads st n))"
    using Some clear_first_None [of "Some cb" "hook_heads st n"] by (simp add: live_callbacks)
  ultimately show ?thesis using c(3) by (auto simp: markdirty_facts)
qed

section \<open>Walking a list\<close>

text \<open>Callbacks that change only the world.\<close>

definition plain_call :: "('cb \<Rightarrow> int \<Rightarrow> 'w \<Rightarrow> 'w) \<Rightarrow> 'cb \<Rightarrow> int \<Rightarrow> ('cb, 'w) hookst \<Rightarrow> ('cb, 'w) hookst" where
  "plain_call eff cb n st = st\<lparr>world := eff cb n (world st)\<rparr>"

definition run_queue :: "('cb \<Rightarrow> int \<Rightarrow> 'w \<Rightarrow> 'w) \<Rightarrow> int \<Rightarrow> (int \<times> 'cb) list \<Rightarrow> 'w \<Rightarrow> 'w" where
  "run_queue eff n q w = foldl (\<lambda>w x. eff (snd x) n w) w q"

lemma next_id_suffix:
  "distinct (map hook_id (pre @ h # l)) \<Longrightarrow> next_id (hook_id h) (pre @ h # l) = first_id l"
  by (induction pre) (auto simp: first_id_def split: list.splits)

lemma find_suffix:
  "distinct (map hook_id (pre @ h # l)) \<Longrightarrow> find (\<lambda>x. hook_id x = hook_id h) (pre @ h # l) = Some h"
  by (induction pre) auto

lemma trigger_loop_plain:
  assumes "hook_heads st n = pre @ l" "distinct (map hook_id (pre @ l))" "length l \<le> fuel"
  shows "trigger_loop fuel (plain_call eff) n (first_id l) st
    = Some (st\<lparr>world := run_queue eff n (live l) (world st)\<rparr>)"
  using assms
proof (induction l arbitrary: pre st fuel)
  case Nil
  then show ?case by (simp add: first_id_def run_queue_def)
next
  case (Cons h l)
  obtain g where g: "fuel = Suc g" "length l \<le> g" using Cons.prems(3) by (cases fuel) auto
  define st' where "st' = (case hook_callback h of None \<Rightarrow> st | Some cb \<Rightarrow> plain_call eff cb n st)"
  have hd': "hook_heads st' n = (pre @ [h]) @ l"
    using Cons.prems(1) by (simp add: st'_def plain_call_def split: option.split)
  note f = find_suffix [OF Cons.prems(2)] and nx = next_id_suffix [OF Cons.prems(2)]
  have "trigger_loop fuel (plain_call eff) n (first_id (h # l)) st = trigger_loop g (plain_call eff) n (first_id l) st'"
    using f nx Cons.prems(1) hd' by (simp add: g(1) first_id_def [of "h # l"] st'_def [symmetric])
  also have "\<dots> = Some (st'\<lparr>world := run_queue eff n (live l) (world st')\<rparr>)"
    using Cons.IH [OF hd' _ g(2)] Cons.prems(2) by simp
  also have "\<dots> = Some (st\<lparr>world := run_queue eff n (live (h # l)) (world st)\<rparr>)"
    by (simp add: st'_def plain_call_def run_queue_def split: option.split)
  finally show ?case .
qed

lemma trigger_queue_plain:
  assumes "list_ok k (hook_heads st n)" "length (hook_heads st n) \<le> fuel"
  shows "trigger_queue fuel (plain_call eff) n st
    = Some (st\<lparr>world := run_queue eff n (live (hook_heads st n)) (world st)\<rparr>)"
proof -
  have d: "distinct (map hook_id ([] @ hook_heads st n))" using assms(1) by (simp add: list_ok_def)
  have "hook_heads (st\<lparr>hookqueuelength := hookqueuelength st + 1\<rparr>) n = [] @ hook_heads st n" by simp
  from trigger_loop_plain [OF this d assms(2), of eff] show ?thesis
    by (simp add: trigger_queue_def)
qed

lemma collect_fold:
  "hook_heads (foldl (\<lambda>s h. collectgarbage h s) st ds) n
      = (if n \<in> set ds then filter (\<lambda>x. hook_callback x \<noteq> None) (hook_heads st n) else hook_heads st n)"
  "dirty (foldl (\<lambda>s h. collectgarbage h s) st ds) n \<longleftrightarrow> dirty st n \<and> n \<notin> set ds"
  "world (foldl (\<lambda>s h. collectgarbage h s) st ds) = world st"
  "hookqueuelength (foldl (\<lambda>s h. collectgarbage h s) st ds) = hookqueuelength st"
  "next_addr (foldl (\<lambda>s h. collectgarbage h s) st ds) = next_addr st"
  by (induction ds arbitrary: st) (auto simp: collectgarbage_def)

lemma list_ok_filter: "list_ok k l \<Longrightarrow> list_ok k (filter (\<lambda>x. hook_callback x \<noteq> None) l)"
  by (auto simp: list_ok_def by_priority_def distinct_map_filter sorted_filter simp del: live_filter)
     (simp only: live_filter [simplified])

lemma collect_dirty_ok:
  assumes "hooks_ok st"
  shows "hooks_ok (collect_dirty st) \<and> queues (collect_dirty st) = queues st
    \<and> (\<forall>n. None \<notin> hook_callback ` set (hook_heads (collect_dirty st) n)) \<and> dirtyhooks (collect_dirty st) = []"
proof -
  have ok: "list_ok (next_addr st) (hook_heads st n)" for n using assms by (simp add: hooks_ok_def)
  have h: "hook_heads (collect_dirty st) n
      = (if dirty st n then filter (\<lambda>x. hook_callback x \<noteq> None) (hook_heads st n) else hook_heads st n)" for n
    using assms by (simp add: collect_dirty_def collect_fold hooks_ok_def)
  have dead: "None \<notin> hook_callback ` set (hook_heads (collect_dirty st) n)" for n
    using assms unfolding h by (auto simp: hooks_ok_def)
  have "list_ok (next_addr st) (hook_heads (collect_dirty st) n)" for n
    unfolding h using ok list_ok_filter by auto
  then have "hooks_ok (collect_dirty st)"
    using assms dead by (auto simp: hooks_ok_def collect_dirty_def collect_fold)
  moreover have "queues (collect_dirty st) = queues st"
  proof -
    have "live (hook_heads (collect_dirty st) n) = live (hook_heads st n)" for n
      unfolding h using live_filter by (cases "dirty st n") (simp_all del: not_None_eq)
    then show ?thesis by (simp add: queues_def) (simp add: collect_dirty_def collect_fold)
  qed
  ultimately show ?thesis using dead by (simp add: collect_dirty_def)
qed

section \<open>Hooks as priority lists\<close>

datatype 'cb hook_op = Register int 'cb int | Deregister int 'cb | Trigger int

text \<open>
  The operations with callbacks that change only the world; the fuel is the number of
  entries that are walked.
\<close>

fun hook_step :: "('cb \<Rightarrow> int \<Rightarrow> 'w \<Rightarrow> 'w) \<Rightarrow> ('cb, 'w) hookst \<Rightarrow> 'cb hook_op \<Rightarrow> ('cb, 'w) hookst" where
  "hook_step eff st (Register n cb p) =
     (case registerpriorityhook n (Some cb) p st of None \<Rightarrow> st | Some (_, st') \<Rightarrow> st')"
| "hook_step eff st (Deregister n cb) =
     (case deregisterhook n (Some cb) st of None \<Rightarrow> st | Some (_, st') \<Rightarrow> st')"
| "hook_step eff st (Trigger n) =
     (case triggerhook (length (hook_heads st n) + length (hook_heads st HOOK_CORE_ENDOFHOOKSQUEUE))
         (plain_call eff) n st of None \<Rightarrow> st | Some st' \<Rightarrow> st')"

fun queue_step :: "('cb \<Rightarrow> int \<Rightarrow> 'w \<Rightarrow> 'w) \<Rightarrow> (int \<Rightarrow> (int \<times> 'cb) list) \<times> 'w \<Rightarrow> 'cb hook_op
    \<Rightarrow> (int \<Rightarrow> (int \<times> 'cb) list) \<times> 'w" where
  "queue_step eff (q, w) (Register n cb p) = (q(n := queue_insert p cb (q n)), w)"
| "queue_step eff (q, w) (Deregister n cb) = (q(n := filter (\<lambda>x. snd x \<noteq> cb) (q n)), w)"
| "queue_step eff (q, w) (Trigger n) =
     (q, if n = HOOK_CORE_ENDOFHOOKSQUEUE then run_queue eff n (q n) w
         else run_queue eff HOOK_CORE_ENDOFHOOKSQUEUE (q HOOK_CORE_ENDOFHOOKSQUEUE) (run_queue eff n (q n) w))"

fun hook_num :: "'cb hook_op \<Rightarrow> int" where
  "hook_num (Register n _ _) = n" | "hook_num (Deregister n _) = n" | "hook_num (Trigger n) = n"

lemma hooks_ok_world: "hooks_ok st \<Longrightarrow> hooks_ok (st\<lparr>world := w\<rparr>)"
  by (simp add: hooks_ok_def)

lemma trigger_ok:
  assumes "hooks_ok st" "in_hooks n"
    "length (hook_heads st n) + length (hook_heads st HOOK_CORE_ENDOFHOOKSQUEUE) \<le> fuel"
  shows "\<exists>st'. triggerhook fuel (plain_call eff) n st = Some st' \<and> hooks_ok st'
    \<and> queues st' = queue_step eff (queues st) (Trigger n)
    \<and> (n \<noteq> HOOK_CORE_ENDOFHOOKSQUEUE \<longrightarrow> (\<forall>m. None \<notin> hook_callback ` set (hook_heads st' m)))"
proof -
  let ?e = "HOOK_CORE_ENDOFHOOKSQUEUE"
  have ok: "list_ok (next_addr st) (hook_heads st m)" for m using assms(1) by (simp add: hooks_ok_def)
  let ?w1 = "run_queue eff n (live (hook_heads st n)) (world st)"
  let ?st1 = "st\<lparr>world := ?w1\<rparr>"
  have t1: "trigger_queue fuel (plain_call eff) n st = Some ?st1"
    using trigger_queue_plain [OF ok, of n fuel] assms(3) by simp
  have g: "\<not> n > HOOKMAX" "hookqueuelength st = 0" using assms(1,2) by (simp_all add: in_hooks_def hooks_ok_def)
  show ?thesis
  proof (cases "n = ?e")
    case True
    then have "triggerhook fuel (plain_call eff) n st = Some ?st1"
      using t1 g assms(2) by (simp add: triggerhook_def)
    with True hooks_ok_world [OF assms(1)] show ?thesis by (simp add: queues_def)
  next
    case False
    let ?st2 = "st\<lparr>world := run_queue eff ?e (live (hook_heads st ?e)) ?w1\<rparr>"
    have "trigger_queue fuel (plain_call eff) ?e ?st1 = Some ?st2"
      using trigger_queue_plain [of "next_addr st" ?st1 ?e fuel eff] ok assms(3) by simp
    then have "triggerhook fuel (plain_call eff) n st = Some (collect_dirty ?st2)"
      using False t1 g assms(2) by (simp add: triggerhook_def)
    with collect_dirty_ok [OF hooks_ok_world [OF assms(1)]] False show ?thesis
      by (simp add: queues_def)
  qed
qed

interpretation hooks: refinement hooks_ok queues "hook_step eff" "queue_step eff" "\<lambda>op. in_hooks (hook_num op)"
  for eff :: "'cb \<Rightarrow> int \<Rightarrow> 'w \<Rightarrow> 'w"
proof -
  have "hooks_ok (hook_step eff st op) \<and> queues (hook_step eff st op) = queue_step eff (queues st) op"
    if "hooks_ok st" "in_hooks (hook_num op)" for st :: "('cb, 'w) hookst" and op
  proof (cases op)
    case (Register n cb p)
    with register_ok [OF that(1), of n cb p] that(2) show ?thesis by (auto simp: queues_def)
  next
    case (Deregister n cb)
    with deregister_ok [OF that(1), of n cb] that(2) show ?thesis by (auto simp: queues_def)
  next
    case (Trigger n)
    with trigger_ok [OF that(1) _ le_refl, of n eff] that(2) show ?thesis by auto
  qed
  then show "refinement hooks_ok queues (hook_step eff) (queue_step eff) (\<lambda>op. in_hooks (hook_num op))"
    by unfold_locales blast+
qed

lemma inithooks_ok: "hooks_ok (inithooks w)" "queues (inithooks w) = ((\<lambda>_. []), w)"
  by (simp_all add: hooks_ok_def inithooks_def queues_def list_ok_def by_priority_def HOOKMAX_def)

text \<open>
  C9: after any sequence of registrations, deregistrations and triggers on valid hook
  numbers, the hooks are the lists of registered callbacks, each once, in the order of
  priority and among equal priorities of registration, and the callbacks that ran are those
  that were registered at each trigger, in that order, followed by the ones of the end of
  the queue. The array of marked lists never overflows.
\<close>

theorem hooks_refine_queues:
  assumes "list_all (\<lambda>op. in_hooks (hook_num op)) ops"
  shows "queues (foldl (hook_step eff) (inithooks w) ops) = foldl (queue_step eff) ((\<lambda>_. []), w) ops
    \<and> int (length (dirtyhooks (foldl (hook_step eff) (inithooks w) ops))) \<le> HOOKMAX"
  using hooks.run_absf [OF inithooks_ok(1) assms] hooks.run_inv [OF inithooks_ok(1) assms]
    dirtyhooks_fit inithooks_ok(2) by metis

lemma hooks_refine_queues_witness:
  "world (foldl (hook_step (\<lambda>cb n w. w @ [cb])) (inithooks [])
     [Register 7 ''b'' 5, Register 7 ''a'' 1, Register 7 ''c'' 5, Trigger 7, Deregister 7 ''b'', Trigger 7])
   = [''a'', ''b'', ''c'', ''a'', ''c'']"
proof -
  let ?ops = "[Register 7 ''b'' 5, Register 7 ''a'' 1, Register 7 ''c'' 5, Trigger 7, Deregister 7 ''b'', Trigger 7]"
  have "list_all (\<lambda>op. in_hooks (hook_num op)) ?ops" by (simp add: in_hooks_def HOOKMAX_def)
  from conjunct1 [OF hooks_refine_queues [OF this, of "\<lambda>cb n w. w @ [cb]" "[]"]]
  have "world (foldl (hook_step (\<lambda>cb n w. w @ [cb])) (inithooks []) ?ops)
      = snd (foldl (queue_step (\<lambda>cb n w. w @ [cb])) ((\<lambda>_. []), []) ?ops)"
    by (metis queues_def snd_conv)
  then show ?thesis
    by (simp add: queue_insert_def run_queue_def HOOK_CORE_ENDOFHOOKSQUEUE_def)
qed

text \<open>
  The guards of the hook functions let the number 5000 through, which is one past the
  end of the array; every larger number is refused.
\<close>

lemma hooknum_guard_off_by_one:
  "registerhook HOOKMAX cb st = None \<and> registerpriorityhook HOOKMAX cb p st = None
    \<and> deregisterhook HOOKMAX cb st = None \<and> triggerhook fuel call HOOKMAX st = None
    \<and> registerhook (HOOKMAX + 1 + int k) cb st = Some (1, st)
    \<and> deregisterhook (HOOKMAX + 1 + int k) cb st = Some (1, st)
    \<and> triggerhook fuel call (HOOKMAX + 1 + int k) st = Some st"
  by (simp add: registerhook_def registerpriorityhook_def deregisterhook_def triggerhook_def in_hooks_def)

end
