(* ===== verification/Patricia.thy ===== *)
theory Patricia
  imports IrcIpv6 "HOL-Library.Multiset"
begin

text \<open>
  The address trie of \<open>patricia/patricialib.c\<close>. A node is a constructor with its address, so
  that pointers to it are compared by address; the chain of \<open>parent\<close> pointers of a node is
  the path from it to the root, kept as a list of ancestors with the side taken (\<open>trail\<close>).
  \<open>None\<close> is a failed assertion or a NULL dereference. Shown: the trie is a set of prefixes
  that \<open>refnode\<close> and \<open>derefnode\<close> manage by reference counts, searches find the exact and the
  longest match, walks fit their stack, and the user counts are sums over subtries.
\<close>

section \<open>Bits of an address\<close>

text \<open>Byte \<open>k\<close> of the structure, whose parts are stored in network order.\<close>

definition addr_byte :: "irc_in_addr \<Rightarrow> nat \<Rightarrow> 8 word" where
  "addr_byte a k = (let p = in6_16 a ! (k div 2) in if even k then ucast (drop_bit 8 p) else ucast p)"

definition is_bit_set :: "irc_in_addr \<Rightarrow> nat \<Rightarrow> bool" where
  "is_bit_set base nr \<longleftrightarrow> addr_byte base (drop_bit 3 nr) AND drop_bit (nr mod 8) 0x80 \<noteq> 0"

definition comp_with_mask :: "irc_in_addr \<Rightarrow> irc_in_addr \<Rightarrow> nat \<Rightarrow> bool" where
  "comp_with_mask addr dest bits \<longleftrightarrow>
     list_all (\<lambda>i. addr_byte addr i = addr_byte dest i) [0..<bits div 8]
     \<and> (let n = bits div 8; m = push_bit (8 - bits mod 8) (- 1) :: 8 word
        in bits mod 8 = 0 \<or> addr_byte addr n AND m = addr_byte dest n AND m)"

definition PATRICIA_MAXBITS :: nat where
  "PATRICIA_MAXBITS = 128"

function is_normalized_ipmask :: "irc_in_addr \<Rightarrow> nat \<Rightarrow> bool" where
  "is_normalized_ipmask s bitlen =
     (if bitlen < PATRICIA_MAXBITS then (if is_bit_set s bitlen then False else is_normalized_ipmask s (bitlen + 1))
      else True)"
  by pat_completeness auto
termination by (relation "measure (\<lambda>(_, b). PATRICIA_MAXBITS - b)") auto

declare is_normalized_ipmask.simps [simp del]

text \<open>The first different bit below \<open>check_bit\<close>, by bytes from \<open>i\<close> on.\<close>

definition first_set :: "8 word \<Rightarrow> nat" where
  "first_set r = length (takeWhile (\<lambda>j. r AND drop_bit j 0x80 = 0) [0..<8])"

function differ_loop :: "irc_in_addr \<Rightarrow> irc_in_addr \<Rightarrow> nat \<Rightarrow> nat \<Rightarrow> nat \<Rightarrow> nat" where
  "differ_loop addr test_addr check_bit i differ_bit =
     (if i * 8 < check_bit then
        (let r = addr_byte addr i XOR addr_byte test_addr i
         in if r = 0 then differ_loop addr test_addr check_bit (i + 1) ((i + 1) * 8)
            else i * 8 + first_set r)
      else differ_bit)"
  by pat_completeness auto
termination by (relation "measure (\<lambda>(_, _, c, i, _). c - i)") auto

declare differ_loop.simps [simp del]

definition differ :: "irc_in_addr \<Rightarrow> irc_in_addr \<Rightarrow> nat \<Rightarrow> nat" where
  "differ addr test_addr check_bit =
     (let d = differ_loop addr test_addr check_bit 0 0 in if d > check_bit then check_bit else d)"

section \<open>Prefixes and nodes\<close>

record prefix =
  bitlen :: nat
  ref_count :: int
  sin :: irc_in_addr

datatype pnode =
    PNull
  | PNode (paddr: nat) (pbit: nat) (usercount: int) (pprefix: "prefix option") (left: pnode) (right: pnode)

record ptree =
  head :: pnode
  maxbits :: nat
  num_active_node :: int
  next_node :: nat

definition patricia_new_tree :: "nat \<Rightarrow> ptree option" where
  "patricia_new_tree m =
     (if m \<le> PATRICIA_MAXBITS then Some \<lparr>head = PNull, maxbits = m, num_active_node = 0, next_node = 0\<rparr> else None)"

definition patricia_new_prefix :: "irc_in_addr \<Rightarrow> int \<Rightarrow> prefix" where
  "patricia_new_prefix dest n =
     \<lparr>bitlen = (if n \<ge> 0 then nat n mod 2 ^ 16 else 128), ref_count = 1, sin = dest\<rparr>"

text \<open>
  \<open>patricia_ref_prefix\<close>: the prefix to use and what becomes of the one given; for a static
  prefix they are two objects.
\<close>

definition patricia_ref_prefix :: "prefix \<Rightarrow> prefix \<times> prefix" where
  "patricia_ref_prefix p =
     (if ref_count p = 0 then (patricia_new_prefix (sin p) (int (bitlen p)), p)
      else (let q = p\<lparr>ref_count := ref_count p + 1\<rparr> in (q, q)))"

text \<open>\<open>patricia_deref_prefix\<close>: \<open>None\<close> when the assertion fails, \<open>Some None\<close> when it is freed.\<close>

definition patricia_deref_prefix :: "prefix \<Rightarrow> prefix option option" where
  "patricia_deref_prefix p =
     (if \<not> ref_count p > 0 then None
      else (let q = p\<lparr>ref_count := ref_count p - 1\<rparr> in if ref_count q \<le> 0 then Some None else Some (Some q)))"

definition patricia_new_node :: "ptree \<Rightarrow> nat \<Rightarrow> prefix option \<Rightarrow> pnode \<times> ptree" where
  "patricia_new_node t b p =
     (PNode (next_node t) b 0 p PNull PNull,
      t\<lparr>next_node := next_node t + 1, num_active_node := num_active_node t + 1\<rparr>)"

section \<open>Paths\<close>

text \<open>
  The ancestors of a node, the nearest first, each with the side the path takes (\<open>True\<close> is
  right); \<open>plug\<close> puts a node back under them.
\<close>

type_synonym trail = "(bool \<times> pnode) list"

fun set_child :: "bool \<Rightarrow> pnode \<Rightarrow> pnode \<Rightarrow> pnode" where
  "set_child d c PNull = PNull"
| "set_child d c (PNode a b u p l r) = (if d then PNode a b u p l c else PNode a b u p c r)"

definition child :: "bool \<Rightarrow> pnode \<Rightarrow> pnode" where
  "child d n = (if d then right n else left n)"

fun plug :: "trail \<Rightarrow> pnode \<Rightarrow> pnode" where
  "plug [] n = n"
| "plug ((d, f) # ctx) n = plug ctx (set_child d n f)"

fun locate :: "nat \<Rightarrow> trail \<Rightarrow> pnode \<Rightarrow> (trail \<times> pnode) option" where
  "locate i ctx PNull = None"
| "locate i ctx (PNode a b u p l r) =
     (if a = i then Some (ctx, PNode a b u p l r)
      else (case locate i ((False, PNode a b u p l r) # ctx) l of
              Some x \<Rightarrow> Some x
            | None \<Rightarrow> locate i ((True, PNode a b u p l r) # ctx) r))"

section \<open>Searching\<close>

fun exact_walk :: "irc_in_addr \<Rightarrow> nat \<Rightarrow> pnode \<Rightarrow> pnode" where
  "exact_walk addr len PNull = PNull"
| "exact_walk addr len (PNode a b u p l r) =
     (if b < len then (if is_bit_set addr b then exact_walk addr len r else exact_walk addr len l)
      else PNode a b u p l r)"

text \<open>The address of the node found; the outer \<open>None\<close> is the failed assertion.\<close>

definition patricia_search_exact :: "ptree \<Rightarrow> irc_in_addr \<Rightarrow> nat \<Rightarrow> nat option option" where
  "patricia_search_exact t s len =
     (if \<not> len \<le> maxbits t then None
      else (case exact_walk s len (head t) of
              PNull \<Rightarrow> Some None
            | PNode a b u p l r \<Rightarrow>
                (if b > len \<or> p = None then Some None
                 else if b \<noteq> len \<or> b \<noteq> bitlen (the p) then None
                 else if comp_with_mask (sin (the p)) s len then Some (Some a) else Some None)))"

text \<open>The nodes with a prefix that the walk pushes, the last one first, and where it ends.\<close>

fun best_walk :: "irc_in_addr \<Rightarrow> nat \<Rightarrow> (nat \<times> prefix) list \<Rightarrow> pnode \<Rightarrow> (nat \<times> prefix) list \<times> pnode" where
  "best_walk addr len st PNull = (st, PNull)"
| "best_walk addr len st (PNode a b u p l r) =
     (if b < len then
        (let st' = (case p of None \<Rightarrow> st | Some q \<Rightarrow> (a, q) # st)
         in if is_bit_set addr b then best_walk addr len st' r else best_walk addr len st' l)
      else (st, PNode a b u p l r))"

definition patricia_search_best2 :: "ptree \<Rightarrow> irc_in_addr \<Rightarrow> nat \<Rightarrow> bool \<Rightarrow> (nat \<times> prefix) option option" where
  "patricia_search_best2 t s len inclusive =
     (if \<not> len \<le> maxbits t then None
      else
        let (st, n) = best_walk s len [] (head t);
            st' = (case n of
                     PNode a b u (Some q) l r \<Rightarrow> if inclusive then (a, q) # st else st
                   | _ \<Rightarrow> st)
        in Some (find (\<lambda>(a, q). comp_with_mask (sin q) s (bitlen q)) st'))"

definition patricia_search_best :: "ptree \<Rightarrow> irc_in_addr \<Rightarrow> nat \<Rightarrow> (nat \<times> prefix) option option" where
  "patricia_search_best t s len = patricia_search_best2 t s len True"

section \<open>Insertion\<close>

text \<open>The walk of \<open>patricia_lookup\<close>, which stops at a node without the child it wants.\<close>

fun lookup_walk :: "nat \<Rightarrow> irc_in_addr \<Rightarrow> nat \<Rightarrow> trail \<Rightarrow> pnode \<Rightarrow> trail \<times> pnode" where
  "lookup_walk maxb addr len ctx PNull = (ctx, PNull)"
| "lookup_walk maxb addr len ctx (PNode a b u p l r) =
     (if b < len \<or> p = None then
        (if b < maxb \<and> is_bit_set addr b then
           (if r = PNull then (ctx, PNode a b u p l r)
            else lookup_walk maxb addr len ((True, PNode a b u p l r) # ctx) r)
         else
           (if l = PNull then (ctx, PNode a b u p l r)
            else lookup_walk maxb addr len ((False, PNode a b u p l r) # ctx) l))
      else (ctx, PNode a b u p l r))"

text \<open>Up to the last ancestor at or below the bit.\<close>

fun climb :: "nat \<Rightarrow> trail \<Rightarrow> pnode \<Rightarrow> trail \<times> pnode" where
  "climb differ_bit [] node = ([], node)"
| "climb differ_bit ((d, parent) # ctx) node =
     (if pbit parent \<ge> differ_bit then climb differ_bit ctx parent else ((d, parent) # ctx, node))"

text \<open>The node of the prefix, the new trie, and the prefix given as it is left.\<close>

definition patricia_lookup :: "ptree \<Rightarrow> prefix \<Rightarrow> (nat \<times> ptree \<times> prefix) option" where
  "patricia_lookup t pfx =
     (if \<not> bitlen pfx \<le> maxbits t then None
      else
        let (mine, given) = patricia_ref_prefix pfx
        in if head t = PNull then
             (let (node, t1) = patricia_new_node t (bitlen pfx) (Some mine)
              in Some (paddr node, t1\<lparr>head := node\<rparr>, given))
           else
             let addr = sin pfx; len = bitlen pfx; maxb = maxbits t;
                 (ctx, node) = lookup_walk maxb addr len [] (head t)
             in (case pprefix node of
                   None \<Rightarrow> None
                 | Some test \<Rightarrow>
                     let test_addr = sin test;
                         check_bit = (if pbit node < len then pbit node else len);
                         differ_bit = differ addr test_addr check_bit;
                         (ctx, node) = climb differ_bit ctx node
                     in if differ_bit = len \<and> pbit node = len then
                          (case node of
                             PNode a b u None l r \<Rightarrow>
                               Some (a, t\<lparr>head := plug ctx (PNode a b u (Some mine) l r)\<rparr>, given)
                           | _ \<Rightarrow> Some (paddr node, t, pfx))
                        else
                          let (new_node, t1) = patricia_new_node t len (Some mine)
                          in if pbit node = differ_bit then
                               (let d = (pbit node < maxb \<and> is_bit_set addr (pbit node))
                                in if child d node \<noteq> PNull then None
                                   else Some (paddr new_node, t1\<lparr>head := plug ctx (set_child d new_node node)\<rparr>, given))
                             else if len = differ_bit then
                               (let d = (len < maxb \<and> is_bit_set test_addr len);
                                    new1 = (case set_child d node new_node of
                                              PNull \<Rightarrow> PNull
                                            | PNode a b u p l r \<Rightarrow> PNode a b (usercount node) p l r)
                                in Some (paddr new_node, t1\<lparr>head := plug ctx new1\<rparr>, given))
                             else
                               (let (glue, t2) = patricia_new_node t1 differ_bit None;
                                    d = (differ_bit < maxb \<and> is_bit_set addr differ_bit);
                                    glue1 = (case set_child (\<not> d) node (set_child d new_node glue) of
                                               PNull \<Rightarrow> PNull
                                             | PNode a b u p l r \<Rightarrow> PNode a b (usercount node) p l r)
                                in Some (paddr new_node, t2\<lparr>head := plug ctx glue1\<rparr>, given))))"

section \<open>Removal\<close>

definition deref_opt :: "prefix option \<Rightarrow> bool" where
  "deref_opt p = (case p of None \<Rightarrow> True | Some q \<Rightarrow> patricia_deref_prefix q \<noteq> None)"

text \<open>\<open>patricia_remove\<close> of the node with an address. A freed node counts down the active nodes.\<close>

definition patricia_remove :: "ptree \<Rightarrow> nat \<Rightarrow> ptree option" where
  "patricia_remove t i =
     (case locate i [] (head t) of
        Some (ctx, PNode a b u p l r) \<Rightarrow>
          (if \<not> deref_opt p then None
           else if r \<noteq> PNull \<and> l \<noteq> PNull then Some (t\<lparr>head := plug ctx (PNode a b u None l r)\<rparr>)
           else
             let t1 = t\<lparr>num_active_node := num_active_node t - 1\<rparr>
             in if r = PNull \<and> l = PNull then
                  (case ctx of
                     [] \<Rightarrow> Some (t1\<lparr>head := PNull\<rparr>)
                   | (d, parent) # ctx' \<Rightarrow>
                       (if pprefix parent \<noteq> None then
                          Some (t1\<lparr>head := plug ctx' (set_child d PNull parent)\<rparr>)
                        else
                          let other = child (\<not> d) parent
                          in if other = PNull then None
                             else Some (t1\<lparr>head := plug ctx' other,
                                           num_active_node := num_active_node t1 - 1\<rparr>)))
                else
                  let c = (if r \<noteq> PNull then r else l)
                  in Some (t1\<lparr>head := plug ctx c\<rparr>))
      | _ \<Rightarrow> None)"

section \<open>References and users\<close>

fun set_pprefix :: "prefix option \<Rightarrow> pnode \<Rightarrow> pnode" where
  "set_pprefix q PNull = PNull"
| "set_pprefix q (PNode a b u p l r) = PNode a b u q l r"

text \<open>Writing the prefix of the node with an address.\<close>

definition write_prefix :: "ptree \<Rightarrow> nat \<Rightarrow> prefix option \<Rightarrow> ptree" where
  "write_prefix t i q =
     (case locate i [] (head t) of
        None \<Rightarrow> t | Some (ctx, n) \<Rightarrow> t\<lparr>head := plug ctx (set_pprefix q n)\<rparr>)"

definition node_prefix :: "ptree \<Rightarrow> nat \<Rightarrow> prefix option" where
  "node_prefix t i = (case locate i [] (head t) of None \<Rightarrow> None | Some (_, n) \<Rightarrow> pprefix n)"

text \<open>
  \<open>refnode\<close>: a prefix object made for a new node is shared with it, so that releasing it
  counts down the node's prefix; otherwise it is freed.
\<close>

definition refnode :: "ptree \<Rightarrow> irc_in_addr \<Rightarrow> int \<Rightarrow> (nat \<times> ptree) option" where
  "refnode t s len =
     (case patricia_search_exact t s (nat (len mod 256)) of
        None \<Rightarrow> None
      | Some None \<Rightarrow>
          (case patricia_lookup t (patricia_new_prefix s len) of
             None \<Rightarrow> None
           | Some (i, t1, given) \<Rightarrow>
               (case patricia_deref_prefix given of
                  None \<Rightarrow> None
                | Some None \<Rightarrow> Some (i, t1)
                | Some (Some q) \<Rightarrow> Some (i, write_prefix t1 i (Some q))))
      | Some (Some i) \<Rightarrow>
          (case node_prefix t i of
             None \<Rightarrow> Some (i, t)
           | Some p \<Rightarrow> Some (i, write_prefix t i (Some (snd (patricia_ref_prefix p))))))"

definition derefnode :: "ptree \<Rightarrow> nat \<Rightarrow> ptree option" where
  "derefnode t i =
     (case node_prefix t i of
        None \<Rightarrow> Some t
      | Some p \<Rightarrow>
          (if ref_count p = 1 then patricia_remove t i
           else (case patricia_deref_prefix p of None \<Rightarrow> None | Some q \<Rightarrow> Some (write_prefix t i q))))"

fun add_users :: "int \<Rightarrow> pnode \<Rightarrow> pnode" where
  "add_users k PNull = PNull"
| "add_users k (PNode a b u p l r) = PNode a b (u + k) p l r"

definition change_usercount :: "int \<Rightarrow> ptree \<Rightarrow> nat \<Rightarrow> ptree" where
  "change_usercount k t i =
     (case locate i [] (head t) of
        None \<Rightarrow> t
      | Some (ctx, n) \<Rightarrow> t\<lparr>head := plug (map (\<lambda>(d, f). (d, add_users k f)) ctx) (add_users k n)\<rparr>)"

definition node_increment_usercount :: "ptree \<Rightarrow> nat \<Rightarrow> ptree" where
  "node_increment_usercount t i = change_usercount 1 t i"

definition node_decrement_usercount :: "ptree \<Rightarrow> nat \<Rightarrow> ptree" where
  "node_decrement_usercount t i = change_usercount (- 1) t i"

section \<open>Walking\<close>

text \<open>
  The loop of \<open>PATRICIA_WALK_ALL\<close>: the nodes visited, or \<open>None\<close> when a push does not fit the
  stack of \<open>PATRICIA_MAXBITS + 1\<close> entries.
\<close>

function patricia_walk :: "pnode list \<Rightarrow> pnode \<Rightarrow> pnode list option" where
  "patricia_walk stack PNull = Some []"
| "patricia_walk stack (PNode a b u p l r) =
     map_option (Cons (PNode a b u p l r))
       (if l \<noteq> PNull then
          (if r \<noteq> PNull then
             (if length stack \<ge> PATRICIA_MAXBITS + 1 then None else patricia_walk (r # stack) l)
           else patricia_walk stack l)
        else if r \<noteq> PNull then patricia_walk stack r
        else (case stack of [] \<Rightarrow> Some [] | n # stack' \<Rightarrow> patricia_walk stack' n))"
  by pat_completeness auto
termination
  by (relation "measure (\<lambda>(stack, n). sum_list (map size stack) + size n)") auto

text \<open>The prefixes \<open>patricia_process\<close> calls the function with.\<close>

definition patricia_process :: "ptree \<Rightarrow> prefix list option" where
  "patricia_process t = map_option (List.map_filter pprefix) (patricia_walk [] (head t))"

fun patricia_walk_inorder :: "pnode \<Rightarrow> prefix list" where
  "patricia_walk_inorder PNull = []"
| "patricia_walk_inorder (PNode a b u p l r) =
     patricia_walk_inorder l @ (case p of None \<Rightarrow> [] | Some q \<Rightarrow> [q]) @ patricia_walk_inorder r"

text \<open>
  \<open>patricia_clear_tree\<close>: the walk that frees each node after its children are read; the
  trie is left with the head it had, which is dangling, so only the count is kept here.
\<close>

definition patricia_clear_tree :: "ptree \<Rightarrow> int option" where
  "patricia_clear_tree t =
     (case patricia_walk [] (head t) of
        None \<Rightarrow> None
      | Some ns \<Rightarrow>
          (if list_all (\<lambda>n. deref_opt (pprefix n)) ns \<and> num_active_node t - int (length ns) = 0
           then Some (num_active_node t - int (length ns)) else None))"

section \<open>Bits\<close>

definition agree :: "nat \<Rightarrow> irc_in_addr \<Rightarrow> irc_in_addr \<Rightarrow> bool" where
  "agree n a b \<longleftrightarrow> (\<forall>i < n. is_bit_set a i = is_bit_set b i)"

lemma agree_refl [simp]: "agree n a a"
  by (simp add: agree_def)

lemma agree_sym: "agree n a b \<Longrightarrow> agree n b a"
  by (simp add: agree_def)

lemma agree_trans: "agree n a b \<Longrightarrow> agree n b c \<Longrightarrow> agree n a c"
  by (simp add: agree_def)

lemma agree_le: "agree n a b \<Longrightarrow> m \<le> n \<Longrightarrow> agree m a b"
  by (simp add: agree_def)

lemma agree_bit: "agree n a b \<Longrightarrow> i < n \<Longrightarrow> is_bit_set a i = is_bit_set b i"
  by (simp add: agree_def)

lemma drop_bit_0x80: "j < 8 \<Longrightarrow> drop_bit j (0x80 :: 8 word) = 2 ^ (7 - j)"
proof -
  have "list_all (\<lambda>j. drop_bit j (0x80 :: 8 word) = 2 ^ (7 - j)) [0..<8]" by code_simp
  then show "j < 8 \<Longrightarrow> ?thesis" by (simp add: list_all_iff)
qed

lemma is_bit_set_bit: "is_bit_set a n \<longleftrightarrow> bit (addr_byte a (n div 8)) (7 - n mod 8)"
proof -
  have "drop_bit (n mod 8) (0x80 :: 8 word) = 2 ^ (7 - n mod 8)" by (rule drop_bit_0x80) simp
  moreover have "drop_bit 3 n = n div 8" by (simp add: drop_bit_eq_div)
  ultimately show ?thesis unfolding is_bit_set_def by (simp only: and_exp_eq_0_iff_not_bit not_not)
qed

lemma addr_byte_bit: "j < 8 \<Longrightarrow> bit (addr_byte a i) j \<longleftrightarrow> is_bit_set a (i * 8 + (7 - j))"
proof -
  assume "j < 8"
  then have "7 - j < 8" by simp
  then have "(i * 8 + (7 - j)) div 8 = i" "(i * 8 + (7 - j)) mod 8 = 7 - j"
    by (simp_all only: div_mult_self3 mod_mult_self3 div_less mod_less add.right_neutral)
  with \<open>j < 8\<close> show ?thesis unfolding is_bit_set_bit by simp
qed

lemma byte_eq_iff: "addr_byte a i = addr_byte b i \<longleftrightarrow> (\<forall>j < 8. is_bit_set a (i * 8 + j) = is_bit_set b (i * 8 + j))"
proof -
  have "addr_byte a i = addr_byte b i \<longleftrightarrow> (\<forall>j < 8. bit (addr_byte a i) j = bit (addr_byte b i) j)"
    by (auto simp: bit_eq_iff)
  also have "\<dots> \<longleftrightarrow> (\<forall>j < 8. is_bit_set a (i * 8 + (7 - j)) = is_bit_set b (i * 8 + (7 - j)))"
    by (simp add: addr_byte_bit)
  also have "\<dots> \<longleftrightarrow> (\<forall>j < 8. is_bit_set a (i * 8 + j) = is_bit_set b (i * 8 + j))"
  proof (rule iffI; intro allI impI)
    fix j :: nat
    assume *: "\<forall>j < 8. is_bit_set a (i * 8 + (7 - j)) = is_bit_set b (i * 8 + (7 - j))" and "j < 8"
    from *[rule_format, of "7 - j"] \<open>j < 8\<close> show "is_bit_set a (i * 8 + j) = is_bit_set b (i * 8 + j)" by simp
  next
    fix j :: nat
    assume *: "\<forall>j < 8. is_bit_set a (i * 8 + j) = is_bit_set b (i * 8 + j)" and "j < 8"
    then show "is_bit_set a (i * 8 + (7 - j)) = is_bit_set b (i * 8 + (7 - j))"
      using *[rule_format, of "7 - j"] by linarith
  qed
  finally show ?thesis .
qed

lemma masked_eq_iff:
  assumes "k < 8" "0 < k"
  shows "addr_byte a i AND push_bit (8 - k) (- 1) = addr_byte b i AND push_bit (8 - k) (- 1)
    \<longleftrightarrow> (\<forall>j < k. is_bit_set a (i * 8 + j) = is_bit_set b (i * 8 + j))"
proof -
  have "addr_byte a i AND push_bit (8 - k) (- 1) = addr_byte b i AND push_bit (8 - k) (- 1)
    \<longleftrightarrow> (\<forall>j < 8. 8 - k \<le> j \<longrightarrow> bit (addr_byte a i) j = bit (addr_byte b i) j)"
    unfolding bit_eq_iff by (auto simp: bit_and_iff bit_push_bit_iff bit_not_iff bit_mask_iff)
  also have "\<dots> \<longleftrightarrow> (\<forall>j < 8. 8 - k \<le> j \<longrightarrow> is_bit_set a (i * 8 + (7 - j)) = is_bit_set b (i * 8 + (7 - j)))"
    by (simp add: addr_byte_bit)
  also have "\<dots> \<longleftrightarrow> (\<forall>j < k. is_bit_set a (i * 8 + j) = is_bit_set b (i * 8 + j))"
  proof (rule iffI; intro allI impI)
    fix j :: nat
    assume *: "\<forall>j < 8. 8 - k \<le> j \<longrightarrow> is_bit_set a (i * 8 + (7 - j)) = is_bit_set b (i * 8 + (7 - j))" and "j < k"
    from *[rule_format, of "7 - j"] \<open>j < k\<close> assms show "is_bit_set a (i * 8 + j) = is_bit_set b (i * 8 + j)" by simp
  next
    fix j :: nat
    assume *: "\<forall>j < k. is_bit_set a (i * 8 + j) = is_bit_set b (i * 8 + j)" and "j < 8" "8 - k \<le> j"
    from *[rule_format, of "7 - j"] \<open>j < 8\<close> \<open>8 - k \<le> j\<close> assms
    show "is_bit_set a (i * 8 + (7 - j)) = is_bit_set b (i * 8 + (7 - j))" by simp
  qed
  finally show ?thesis .
qed

lemma agree_bytes: "agree (n * 8) a b \<longleftrightarrow> (\<forall>i < n. addr_byte a i = addr_byte b i)"
proof
  assume "agree (n * 8) a b"
  then show "\<forall>i < n. addr_byte a i = addr_byte b i" unfolding agree_def byte_eq_iff by auto
next
  assume *: "\<forall>i < n. addr_byte a i = addr_byte b i"
  show "agree (n * 8) a b" unfolding agree_def
  proof (intro allI impI)
    fix i assume "i < n * 8"
    then have "i div 8 < n" by (simp add: less_mult_imp_div_less)
    with * have "\<forall>j < 8. is_bit_set a (i div 8 * 8 + j) = is_bit_set b (i div 8 * 8 + j)" by (simp add: byte_eq_iff)
    from this[rule_format, of "i mod 8"] show "is_bit_set a i = is_bit_set b i" by simp
  qed
qed

lemma agree_add: "agree (m + k) a b \<longleftrightarrow> agree m a b \<and> (\<forall>j < k. is_bit_set a (m + j) = is_bit_set b (m + j))"
  unfolding agree_def
proof (rule iffI; intro conjI allI impI)
  fix i assume *: "(\<forall>i<m. is_bit_set a i = is_bit_set b i) \<and> (\<forall>j < k. is_bit_set a (m + j) = is_bit_set b (m + j))"
    and "i < m + k"
  then show "is_bit_set a i = is_bit_set b i"
    by (cases "i < m") (auto dest: spec [of _ "i - m"])
qed auto

lemma comp_with_mask_agree: "comp_with_mask a b n \<longleftrightarrow> agree n a b"
proof -
  have "agree n a b \<longleftrightarrow> agree (n div 8 * 8) a b
      \<and> (\<forall>j < n mod 8. is_bit_set a (n div 8 * 8 + j) = is_bit_set b (n div 8 * 8 + j))"
    using agree_add [of "n div 8 * 8" "n mod 8" a b] by simp
  then show ?thesis
    using masked_eq_iff [of "n mod 8" a "n div 8" b]
    by (auto simp: comp_with_mask_def agree_bytes list_all_iff Let_def)
qed

lemma first_set_spec:
  assumes "r \<noteq> 0"
  shows "first_set r < 8" "bit r (7 - first_set r)" "j < first_set r \<Longrightarrow> \<not> bit r (7 - j)"
proof -
  let ?P = "\<lambda>j. r AND drop_bit j 0x80 = 0"
  have P: "?P j \<longleftrightarrow> \<not> bit r (7 - j)" if "j < 8" for j
    using that by (simp add: drop_bit_0x80 and_exp_eq_0_iff_not_bit)
  obtain k where k: "k < 8" "bit r k" using assms by (auto simp: bit_eq_iff)
  show l: "first_set r < 8"
  proof (rule ccontr)
    assume "\<not> first_set r < 8"
    then have "takeWhile ?P [0..<8] = [0..<8]"
      using takeWhile_eq_take [of ?P "[0..<8]"] by (simp add: first_set_def)
    then have "\<forall>j \<in> set [0..<8]. ?P j" by (simp only: takeWhile_eq_all_conv)
    then have "\<forall>j < 8. ?P j" by simp
    then have "r AND drop_bit (7 - k) 0x80 = 0" by simp
    moreover have "7 - (7 - k) = k" "7 - k < 8" using k(1) by simp_all
    ultimately show False using P [of "7 - k"] k(2) by simp
  qed
  have "\<not> ?P ([0..<8] ! first_set r)"
    using nth_length_takeWhile [of ?P "[0..<8]"] l unfolding first_set_def by simp
  with l P show "bit r (7 - first_set r)" by simp
  show "\<not> bit r (7 - j)" if "j < first_set r"
  proof -
    have "takeWhile ?P [0..<8] ! j \<in> set (takeWhile ?P [0..<8])"
      using that unfolding first_set_def by (rule nth_mem)
    from conjunct2 [OF set_takeWhileD [OF this]] have "?P (takeWhile ?P [0..<8] ! j)" .
    moreover have "takeWhile ?P [0..<8] ! j = [0..<8] ! j"
      using that unfolding first_set_def by (rule takeWhile_nth)
    moreover have "[0..<8] ! j = j" using that l by simp
    ultimately have "?P j" by argo
    with P [of j] that l show ?thesis by linarith
  qed
qed

lemma differ_loop_spec:
  assumes "agree (i * 8) a b" "d = i * 8"
  shows "let D = differ_loop a b c i d in agree D a b \<and> (D < c \<longrightarrow> is_bit_set a D \<noteq> is_bit_set b D)"
  using assms
proof (induction a b c i d rule: differ_loop.induct)
  case (1 a b c i d)
  let ?r = "addr_byte a i XOR addr_byte b i"
  show ?case
  proof (cases "i * 8 < c")
    case False
    with 1(2,3) show ?thesis by (subst differ_loop.simps) simp
  next
    case True
    show ?thesis
    proof (cases "?r = 0")
      case r: True
      then have "addr_byte a i = addr_byte b i" by (metis xor.left_neutral xor.right_neutral xor_self_eq bit.xor_left_self)
      then have "agree ((i + 1) * 8) a b"
        using agree_add [of "i * 8" 8 a b] 1(2) by (simp add: byte_eq_iff add.commute)
      from 1(1) [OF True refl r this refl] True r show ?thesis by (subst differ_loop.simps) simp
    next
      case False
      note f = first_set_spec [OF False]
      have "is_bit_set a (i * 8 + j) = is_bit_set b (i * 8 + j) \<longleftrightarrow> \<not> bit ?r (7 - j)" if "j < 8" for j
        using that by (simp add: is_bit_set_bit bit_xor_iff)
      then have "agree (i * 8 + first_set ?r) a b" "is_bit_set a (i * 8 + first_set ?r) \<noteq> is_bit_set b (i * 8 + first_set ?r)"
        using f 1(2) by (auto simp: agree_add)
      with True False show ?thesis by (subst (1) differ_loop.simps) (simp add: Let_def)
    qed
  qed
qed

lemma differ_spec:
  "differ a b c \<le> c" "agree (differ a b c) a b"
  "differ a b c < c \<Longrightarrow> is_bit_set a (differ a b c) \<noteq> is_bit_set b (differ a b c)"
  using differ_loop_spec [of 0 a b 0 c] unfolding differ_def Let_def
  by (auto simp: agree_def split: if_splits)

lemma is_normalized_ipmask_iff:
  "is_normalized_ipmask s n \<longleftrightarrow> (\<forall>i. n \<le> i \<and> i < 128 \<longrightarrow> \<not> is_bit_set s i)"
proof (induction s n rule: is_normalized_ipmask.induct)
  case (1 s n)
  show ?case
  proof (cases "n < 128 \<and> \<not> is_bit_set s n")
    case True
    then have "is_normalized_ipmask s n \<longleftrightarrow> (\<forall>i. n + 1 \<le> i \<and> i < 128 \<longrightarrow> \<not> is_bit_set s i)"
      using 1 by (subst is_normalized_ipmask.simps) (simp add: PATRICIA_MAXBITS_def)
    moreover have "n + 1 \<le> i \<longleftrightarrow> n \<le> i \<and> i \<noteq> n" for i by auto
    ultimately show ?thesis using True by metis
  qed (subst is_normalized_ipmask.simps, auto simp: PATRICIA_MAXBITS_def)
qed

section \<open>The shape of a trie\<close>

fun stored :: "pnode \<Rightarrow> (nat \<times> prefix) set" where
  "stored PNull = {}"
| "stored (PNode a b u p l r) = (case p of None \<Rightarrow> {} | Some q \<Rightarrow> {(a, q)}) \<union> stored l \<union> stored r"

definition sins :: "pnode \<Rightarrow> irc_in_addr set" where
  "sins n = (\<lambda>x. sin (snd x)) ` stored n"

text \<open>
  Below a node of bit \<open>b\<close> all prefixes agree on their first \<open>b\<close> bits, and the side is given by
  bit \<open>b\<close>; the bits grow downwards; a node without a prefix has two children.
\<close>

fun pwf :: "nat \<Rightarrow> pnode \<Rightarrow> bool" where
  "pwf m PNull = True"
| "pwf m (PNode a b u p l r) \<longleftrightarrow> b \<le> m
     \<and> (case p of None \<Rightarrow> l \<noteq> PNull \<and> r \<noteq> PNull | Some q \<Rightarrow> bitlen q = b)
     \<and> (\<forall>x \<in> sins (PNode a b u p l r). \<forall>y \<in> sins (PNode a b u p l r). agree b x y)
     \<and> (\<forall>x \<in> sins l. \<not> is_bit_set x b) \<and> (\<forall>x \<in> sins r. is_bit_set x b)
     \<and> (l \<noteq> PNull \<longrightarrow> b < pbit l) \<and> (r \<noteq> PNull \<longrightarrow> b < pbit r) \<and> pwf m l \<and> pwf m r"

lemma sins_node: "sins (PNode a b u p l r) = (case p of None \<Rightarrow> {} | Some q \<Rightarrow> {sin q}) \<union> sins l \<union> sins r"
  by (auto simp: sins_def split: option.splits)

lemma sins_PNull [simp]: "sins PNull = {}"
  by (simp add: sins_def)

lemma sins_nonempty: "pwf m n \<Longrightarrow> n \<noteq> PNull \<Longrightarrow> sins n \<noteq> {}"
  by (induction n) (auto simp: sins_node split: option.splits)

lemma pwf_bit: "pwf m n \<Longrightarrow> n \<noteq> PNull \<Longrightarrow> pbit n \<le> m"
  by (cases n) simp_all

lemma pwf_agree: "pwf m n \<Longrightarrow> x \<in> sins n \<Longrightarrow> y \<in> sins n \<Longrightarrow> agree (pbit n) x y"
  by (cases n) simp_all

lemma pwf_child_bit: "pwf m n \<Longrightarrow> child d n \<noteq> PNull \<Longrightarrow> n \<noteq> PNull \<Longrightarrow> pbit n < pbit (child d n)"
  by (cases n) (auto simp: child_def)

lemma pwf_child: "pwf m n \<Longrightarrow> n \<noteq> PNull \<Longrightarrow> pwf m (child d n)"
  by (cases n) (auto simp: child_def)

lemma pwf_child_below: "pwf m n \<Longrightarrow> n \<noteq> PNull \<Longrightarrow> child d n \<noteq> PNull \<Longrightarrow> pbit n < m"
  using pwf_child_bit [of m n d] pwf_bit [of m "child d n"] pwf_child [of m n d] by simp

lemma sins_child: "n \<noteq> PNull \<Longrightarrow> sins (child d n) \<subseteq> sins n"
  by (cases n) (auto simp: child_def sins_node)

lemma stored_bits: "pwf m n \<Longrightarrow> (a, q) \<in> stored n \<Longrightarrow> pbit n \<le> bitlen q \<and> bitlen q \<le> m"
proof (induction n)
  case (PNode i b u p l r)
  then show ?case
    by (cases "(a, q) \<in> stored l \<or> (a, q) \<in> stored r") (fastforce split: option.splits)+
qed simp

lemma stored_sins: "(a, q) \<in> stored n \<Longrightarrow> sin q \<in> sins n"
  by (force simp: sins_def)

lemma stored_unique:
  assumes "pwf m n" "(a, q) \<in> stored n" "(a', q') \<in> stored n" "bitlen q = bitlen q'" "agree (bitlen q) (sin q) (sin q')"
  shows "a = a' \<and> q = q'"
  using assms
proof (induction n)
  case (PNode i b u p l r)
  have bl: "b < bitlen x" if "(c, x) \<in> stored l" for c x
    using stored_bits [OF _ that, of m] PNode.prems(1) that by (cases l) auto
  have br: "b < bitlen x" if "(c, x) \<in> stored r" for c x
    using stored_bits [OF _ that, of m] PNode.prems(1) that by (cases r) auto
  have side: "\<not> is_bit_set (sin x) b" if "(c, x) \<in> stored l" for c x
    using PNode.prems(1) stored_sins [OF that] by simp
  have side': "is_bit_set (sin x) b" if "(c, x) \<in> stored r" for c x
    using PNode.prems(1) stored_sins [OF that] by simp
  have own: "bitlen x = b \<and> p = Some x \<and> c = i" if "(c, x) \<in> (case p of None \<Rightarrow> {} | Some q \<Rightarrow> {(i, q)})" for c x
    using PNode.prems(1) that by (auto split: option.splits)
  have cross: False if "(c, x) \<in> stored l" "(c', x') \<in> stored r" "bitlen x = bitlen x'" "agree (bitlen x) (sin x) (sin x')" for c x c' x'
    using agree_bit [OF that(4) bl [OF that(1)]] side [OF that(1)] side' [OF that(2)] by simp
  have w: "pwf m l" "pwf m r" using PNode.prems(1) by simp_all
  from PNode.prems(2,3) consider
    "(a, q) \<in> stored l" "(a', q') \<in> stored l" | "(a, q) \<in> stored r" "(a', q') \<in> stored r"
    | "(a, q) \<in> stored l" "(a', q') \<in> stored r" | "(a, q) \<in> stored r" "(a', q') \<in> stored l"
    | "(a, q) \<in> (case p of None \<Rightarrow> {} | Some q \<Rightarrow> {(i, q)})" | "(a', q') \<in> (case p of None \<Rightarrow> {} | Some q \<Rightarrow> {(i, q)})"
    unfolding stored.simps by blast
  then show ?case
  proof cases
    case 1
    then show ?thesis using PNode.IH(1) [OF w(1)] PNode.prems(4,5) by blast
  next
    case 2
    then show ?thesis using PNode.IH(2) [OF w(2)] PNode.prems(4,5) by blast
  next
    case 3
    then show ?thesis using cross PNode.prems(4,5) by blast
  next
    case 4
    then show ?thesis using cross [of a' q' a q] PNode.prems(4,5) agree_sym by auto
  next
    case 5
    with own [of a q] have "bitlen q' = b" using PNode.prems(4) by simp
    then have "(a', q') \<in> (case p of None \<Rightarrow> {} | Some q \<Rightarrow> {(i, q)})"
      using PNode.prems(3) bl br unfolding stored.simps by fastforce
    with 5 own [of a q] own [of a' q'] show ?thesis by simp
  next
    case 6
    with own [of a' q'] have "bitlen q = b" using PNode.prems(4) by simp
    then have "(a, q) \<in> (case p of None \<Rightarrow> {} | Some q \<Rightarrow> {(i, q)})"
      using PNode.prems(2) bl br unfolding stored.simps by fastforce
    with 6 own [of a q] own [of a' q'] show ?thesis by simp
  qed
qed simp

section \<open>Exact and longest match\<close>

text \<open>A stored prefix that covers an address to at least bit \<open>b\<close> lies on the side of that bit.\<close>

lemma stored_side:
  assumes "pwf m (PNode i b u p l r)" "(a, q) \<in> stored (PNode i b u p l r)" "agree n (sin q) s" "b < n" "n \<le> bitlen q"
  shows "(a, q) \<in> stored (if is_bit_set s b then r else l)"
proof -
  have bit: "is_bit_set (sin q) b = is_bit_set s b" using agree_bit [OF assms(3,4)] .
  have "(a, q) \<in> stored l \<or> (a, q) \<in> stored r"
    using assms(1,2,4,5) by (auto split: option.splits)
  moreover have "(a, q) \<in> stored l \<Longrightarrow> \<not> is_bit_set s b" "(a, q) \<in> stored r \<Longrightarrow> is_bit_set s b"
    using assms(1) stored_sins [of a q] bit by auto
  ultimately show ?thesis by auto
qed

lemma exact_walk_find:
  "pwf m n \<Longrightarrow> (a, q) \<in> stored n \<Longrightarrow> bitlen q = len \<Longrightarrow> agree len (sin q) s
    \<Longrightarrow> \<exists>u l r. exact_walk s len n = PNode a len u (Some q) l r"
proof (induction n)
  case (PNode i b u p l r)
  show ?case
  proof (cases "b < len")
    case True
    have "(a, q) \<in> stored (if is_bit_set s b then r else l)"
      using stored_side [OF PNode.prems(1,2,4) True] PNode.prems(3) by simp
    with True PNode show ?thesis by (auto split: if_splits)
  next
    case False
    have "pbit (PNode i b u p l r) \<le> bitlen q" using stored_bits [OF PNode.prems(1,2)] ..
    with False PNode.prems(3) have "b = len" by simp
    moreover have "(a, q) \<notin> stored l" "(a, q) \<notin> stored r"
      using stored_bits [of m l a q] stored_bits [of m r a q] PNode.prems(1,3) calculation
      by (cases l; cases r; auto)+
    ultimately show ?thesis using PNode.prems(2) by (auto split: option.splits)
  qed
qed simp

lemma exact_walk_stored:
  "exact_walk s len n = PNode a b u (Some q) l r \<Longrightarrow> (a, q) \<in> stored n \<and> len \<le> b"
  by (induction n) (auto split: if_splits)

lemma exact_walk_bit: "pwf m n \<Longrightarrow> exact_walk s len n = PNode a b u (Some q) l r \<Longrightarrow> bitlen q = b"
  by (induction n) (auto split: if_splits)

lemma search_exact_spec:
  assumes "pwf (maxbits t) (head t)" "len \<le> maxbits t"
  shows "\<exists>res. patricia_search_exact t s len = Some res
    \<and> (\<forall>a. res = Some a \<longleftrightarrow> (\<exists>q. (a, q) \<in> stored (head t) \<and> bitlen q = len \<and> agree len (sin q) s))"
proof (cases "exact_walk s len (head t)")
  case PNull
  then show ?thesis
    using exact_walk_find [OF assms(1)] assms(2) by (fastforce simp: patricia_search_exact_def)
next
  case (PNode i b u p l r)
  show ?thesis
  proof (cases p)
    case None
    then show ?thesis
      using exact_walk_find [OF assms(1)] assms(2) PNode by (fastforce simp: patricia_search_exact_def)
  next
    case (Some q)
    note w = exact_walk_stored [OF PNode [unfolded Some]] exact_walk_bit [OF assms(1) PNode [unfolded Some]]
    have uniq: "a = i \<and> q' = q" if "(a, q') \<in> stored (head t)" "bitlen q' = len" "agree len (sin q') s" for a q'
      using exact_walk_find [OF assms(1) that] PNode Some by simp
    have res: "patricia_search_exact t s len = Some (if b = len \<and> agree len (sin q) s then Some i else None)"
      using assms(2) PNode Some w by (simp add: patricia_search_exact_def comp_with_mask_agree)
    have "(b = len \<and> agree len (sin q) s \<and> a = i)
        \<longleftrightarrow> (\<exists>q'. (a, q') \<in> stored (head t) \<and> bitlen q' = len \<and> agree len (sin q') s)" for a
      using w uniq by blast
    from this [symmetric] show ?thesis unfolding res by auto
  qed
qed

definition matches :: "irc_in_addr \<Rightarrow> nat \<times> prefix \<Rightarrow> bool" where
  "matches s x \<longleftrightarrow> agree (bitlen (snd x)) (sin (snd x)) s"

definition longer :: "nat \<times> prefix \<Rightarrow> nat \<times> prefix \<Rightarrow> bool" where
  "longer x y \<longleftrightarrow> bitlen (snd y) < bitlen (snd x)"

lemma best_walk_spec:
  assumes "pwf m n" "best_walk s len st n = (st', n')"
  shows "\<exists>xs. st' = xs @ st \<and> set xs \<subseteq> stored n \<and> sorted_wrt longer xs
    \<and> (\<forall>x \<in> set xs. pbit n \<le> bitlen (snd x) \<and> bitlen (snd x) < len)
    \<and> (\<forall>x \<in> stored n. matches s x \<longrightarrow> bitlen (snd x) < len \<longrightarrow> x \<in> set xs)
    \<and> stored n' \<subseteq> stored n \<and> pwf m n' \<and> (n' \<noteq> PNull \<longrightarrow> len \<le> pbit n')
    \<and> (\<forall>x \<in> stored n. matches s x \<longrightarrow> len \<le> bitlen (snd x) \<longrightarrow> x \<in> stored n')"
  using assms
proof (induction n arbitrary: st)
  case (PNode i b u p l r)
  show ?case
  proof (cases "b < len")
    case False
    then have e: "st' = [] @ st" "n' = PNode i b u p l r" using PNode.prems(2) by auto
    have "b \<le> bitlen (snd x)" if "x \<in> stored (PNode i b u p l r)" for x
      using stored_bits [OF PNode.prems(1), of "fst x" "snd x"] that by simp
    then have "\<not> bitlen (snd x) < len" if "x \<in> stored (PNode i b u p l r)" for x
      using False that by fastforce
    then show ?thesis
      unfolding e(2) using e(1) PNode.prems(1) False by (intro exI [of _ "[]"]) (auto simp del: stored.simps pwf.simps)
  next
    case True
    let ?own = "case p of None \<Rightarrow> [] | Some q \<Rightarrow> [(i, q)]"
    let ?c = "if is_bit_set s b then r else l"
    have w: "pwf m ?c" using PNode.prems(1) by simp
    have bw: "best_walk s len (?own @ st) ?c = (st', n')"
      using PNode.prems(2) True by (auto split: option.splits if_splits)
    obtain xs where xs: "st' = xs @ ?own @ st" "set xs \<subseteq> stored ?c" "sorted_wrt longer xs"
        "\<forall>x \<in> set xs. pbit ?c \<le> bitlen (snd x) \<and> bitlen (snd x) < len"
        "\<forall>x \<in> stored ?c. matches s x \<longrightarrow> bitlen (snd x) < len \<longrightarrow> x \<in> set xs"
        "stored n' \<subseteq> stored ?c" "pwf m n'" "n' \<noteq> PNull \<longrightarrow> len \<le> pbit n'"
        "\<forall>x \<in> stored ?c. matches s x \<longrightarrow> len \<le> bitlen (snd x) \<longrightarrow> x \<in> stored n'"
    proof (cases "is_bit_set s b")
      case True
      with PNode.IH(2) [of "?own @ st"] w bw that show ?thesis unfolding if_P [OF True] by blast
    next
      case False
      with PNode.IH(1) [of "?own @ st"] w bw that show ?thesis unfolding if_not_P [OF False] by blast
    qed
    have own: "set ?own \<subseteq> stored (PNode i b u p l r)" "\<forall>x \<in> set ?own. bitlen (snd x) = b" "sorted_wrt longer ?own"
      using PNode.prems(1) by (auto split: option.splits)
    have sub: "stored ?c \<subseteq> stored (PNode i b u p l r)" by auto
    have gt: "b < bitlen (snd x)" if "x \<in> set xs" for x
    proof -
      have "x \<in> stored ?c" using xs(2) that by blast
      then have "?c \<noteq> PNull" by (cases ?c) auto
      then have "b < pbit ?c" using PNode.prems(1) by (auto split: if_splits)
      with xs(4) that show ?thesis by fastforce
    qed
    have cov: "x \<in> stored ?c \<or> x \<in> set ?own" if x: "x \<in> stored (PNode i b u p l r)" "matches s x" for x
    proof (cases "b < bitlen (snd x)")
      case True
      obtain a q where q: "x = (a, q)" by (cases x)
      have "(a, q) \<in> stored ?c"
        using stored_side [OF PNode.prems(1), of a q "bitlen q" s] x True unfolding q matches_def by simp
      with q show ?thesis by simp
    next
      case False
      obtain a q where q: "x = (a, q)" by (cases x)
      have "(a, q) \<notin> stored l" "(a, q) \<notin> stored r"
        using stored_bits [of m l a q] stored_bits [of m r a q] PNode.prems(1) False q
        by (cases l; cases r; auto)+
      with x q show ?thesis by (auto split: option.splits)
    qed
    have "sorted_wrt longer (xs @ ?own)"
      unfolding sorted_wrt_append using xs(3) own gt by (auto simp: longer_def)
    moreover have "\<forall>x \<in> set (xs @ ?own). b \<le> bitlen (snd x) \<and> bitlen (snd x) < len"
      using gt own(2) xs(4) True by (auto intro: less_imp_le)
    moreover have "\<forall>x \<in> stored (PNode i b u p l r). matches s x \<longrightarrow> bitlen (snd x) < len \<longrightarrow> x \<in> set (xs @ ?own)"
      using cov xs(5) by auto
    moreover have "\<forall>x \<in> stored (PNode i b u p l r). matches s x \<longrightarrow> len \<le> bitlen (snd x) \<longrightarrow> x \<in> stored n'"
      using cov xs(9) own(2) True by fastforce
    moreover have "st' = (xs @ ?own) @ st" "set (xs @ ?own) \<subseteq> stored (PNode i b u p l r)"
        "stored n' \<subseteq> stored (PNode i b u p l r)"
      using xs(1,2,6) own(1) sub unfolding set_append append_assoc by blast+
    ultimately show ?thesis
      using xs(7,8) unfolding pnode.sel by blast
  qed
qed (auto intro: exI [of _ "[]"])


lemma find_sorted:
  assumes "sorted_wrt longer xs" "find P xs = Some x"
  shows "x \<in> set xs \<and> P x \<and> (\<forall>y \<in> set xs. P y \<longrightarrow> bitlen (snd y) \<le> bitlen (snd x))"
  using assms
proof (induction xs)
  case (Cons y ys)
  then show ?case by (cases "P y") (auto simp: longer_def intro: less_imp_le)
qed simp

section \<open>Paths in a trie\<close>

text \<open>\<open>n\<close> is reached by the path.\<close>

fun on_path :: "trail \<Rightarrow> pnode \<Rightarrow> bool" where
  "on_path [] n = True"
| "on_path ((d, f) # ctx) n \<longleftrightarrow> f \<noteq> PNull \<and> child d f = n \<and> on_path ctx f"

text \<open>What is stored beside the path.\<close>

fun own :: "pnode \<Rightarrow> (nat \<times> prefix) set" where
  "own PNull = {}"
| "own (PNode a b u p l r) = (case p of None \<Rightarrow> {} | Some q \<Rightarrow> {(a, q)})"

fun outside :: "trail \<Rightarrow> (nat \<times> prefix) set" where
  "outside [] = {}"
| "outside ((d, f) # ctx) = own f \<union> stored (child (\<not> d) f) \<union> outside ctx"

fun addrs :: "pnode \<Rightarrow> nat list" where
  "addrs PNull = []"
| "addrs (PNode a b u p l r) = a # addrs l @ addrs r"

fun addrs_outside :: "trail \<Rightarrow> nat list" where
  "addrs_outside [] = []"
| "addrs_outside ((d, f) # ctx) = paddr f # addrs (child (\<not> d) f) @ addrs_outside ctx"

definition path_ok :: "trail \<Rightarrow> bool" where
  "path_ok ctx \<longleftrightarrow> (\<forall>(d, f) \<in> set ctx. f \<noteq> PNull)"

lemma path_ok_simps [simp]: "path_ok []" "path_ok ((d, f) # ctx) \<longleftrightarrow> f \<noteq> PNull \<and> path_ok ctx"
  by (simp_all add: path_ok_def)

lemma on_path_ok: "on_path ctx n \<Longrightarrow> path_ok ctx"
  by (induction ctx n rule: on_path.induct) simp_all

lemma stored_plug: "path_ok ctx \<Longrightarrow> stored (plug ctx n) = outside ctx \<union> stored n"
proof (induction ctx n rule: plug.induct)
  case (2 d f ctx n)
  then have "stored (set_child d n f) = own f \<union> stored (child (\<not> d) f) \<union> stored n"
    by (cases f) (auto simp: child_def)
  with 2 show ?case by auto
qed simp

lemma addrs_plug: "path_ok ctx \<Longrightarrow> mset (addrs (plug ctx n)) = mset (addrs_outside ctx) + mset (addrs n)"
proof (induction ctx n rule: plug.induct)
  case (2 d f ctx n)
  then have "mset (addrs (set_child d n f)) = add_mset (paddr f) (mset (addrs (child (\<not> d) f)) + mset (addrs n))"
    by (cases f) (auto simp: child_def ac_simps)
  with 2 show ?case by simp
qed simp

lemma set_child_same: "f \<noteq> PNull \<Longrightarrow> child d f = n \<Longrightarrow> set_child d n f = f"
  by (cases f) (auto simp: child_def)

lemma plug_up: "on_path ((d, f) # ctx) n \<Longrightarrow> plug ((d, f) # ctx) n = plug ctx f"
  by (simp add: set_child_same)

lemma set_child_simps [simp]:
  "f \<noteq> PNull \<Longrightarrow> set_child d n f \<noteq> PNull"
  "f \<noteq> PNull \<Longrightarrow> pbit (set_child d n f) = pbit f"
  "f \<noteq> PNull \<Longrightarrow> pprefix (set_child d n f) = pprefix f"
  "f \<noteq> PNull \<Longrightarrow> child d (set_child d n f) = n"
  "f \<noteq> PNull \<Longrightarrow> child (\<not> d) (set_child d n f) = child (\<not> d) f"
  by (cases f; simp add: child_def)+

lemma plug_not_PNull: "path_ok ctx \<Longrightarrow> n \<noteq> PNull \<Longrightarrow> plug ctx n \<noteq> PNull"
  by (induction ctx n rule: plug.induct) simp_all

text \<open>A node of the trie is the trie again, and below its path.\<close>

lemma pwf_plug: "on_path ctx n \<Longrightarrow> pwf m (plug ctx n) \<Longrightarrow> pwf m n"
proof (induction ctx n rule: on_path.induct)
  case (2 d f ctx n)
  then have "pwf m f" by (simp add: set_child_same)
  with 2 show ?case using pwf_child by auto
qed simp

lemma pwf_unfold:
  assumes "n \<noteq> PNull"
  shows "pwf m n \<longleftrightarrow> pbit n \<le> m
     \<and> (case pprefix n of None \<Rightarrow> (\<forall>d. child d n \<noteq> PNull) | Some q \<Rightarrow> bitlen q = pbit n)
     \<and> (\<forall>x \<in> sins n. \<forall>y \<in> sins n. agree (pbit n) x y)
     \<and> (\<forall>d. \<forall>x \<in> sins (child d n). is_bit_set x (pbit n) = d)
     \<and> (\<forall>d. child d n \<noteq> PNull \<longrightarrow> pbit n < pbit (child d n)) \<and> (\<forall>d. pwf m (child d n))"
  using assms by (cases n) (auto simp: child_def all_bool_eq split: option.splits)

lemma sins_set_child: "f \<noteq> PNull \<Longrightarrow> sins (set_child d n f) \<subseteq> sins f \<union> sins n"
  by (cases f) (auto simp: sins_node)

lemma path_bits:
  "on_path c h \<Longrightarrow> pwf m (plug c h) \<Longrightarrow> (e, g) \<in> set c \<Longrightarrow> h \<noteq> PNull \<Longrightarrow> pbit g < pbit h"
proof (induction c h rule: on_path.induct)
  case (2 e' k c h)
  have k: "k \<noteq> PNull" "child e' k = h" "on_path c k" "pwf m (plug c k)" using 2 by (simp_all add: set_child_same)
  have kh: "pbit k < pbit h" using pwf_child_bit [OF pwf_plug [OF k(3,4)], of e'] k 2(5) by simp
  show ?case
  proof (cases "(e, g) \<in> set c")
    case True
    from 2(1) [OF k(3,4) True k(1)] kh show ?thesis by simp
  next
    case False
    with 2(4) have "g = k" by simp
    with kh show ?thesis by simp
  qed
qed simp

text \<open>
  Replacing a node: the new subtrie may bring one more prefix, if that prefix follows the path.
\<close>

lemma pwf_replace:
  assumes "on_path ctx n" "pwf m (plug ctx n)" "pwf m n'" "n' \<noteq> PNull" "sins n' \<subseteq> sins n \<union> S"
    and "\<forall>(d, f) \<in> set ctx. pbit f < pbit n'
      \<and> (\<forall>s \<in> S. is_bit_set s (pbit f) = d \<and> (\<forall>x \<in> sins f \<union> S. agree (pbit f) s x))"
  shows "pwf m (plug ctx n')"
  using assms
proof (induction ctx n arbitrary: n' rule: on_path.induct)
  case (2 d f ctx n)
  let ?f = "set_child d n' f"
  have f: "f \<noteq> PNull" "child d f = n" "on_path ctx f" using 2(2) by simp_all
  have tree: "pwf m (plug ctx f)" using 2(3) f by (simp add: set_child_same)
  then have wf: "pwf m f" using pwf_plug [OF f(3)] by simp
  note u = wf [unfolded pwf_unfold [OF f(1)]]
  have ss: "sins n \<subseteq> sins f" using sins_child [OF f(1), of d] f(2) by simp
  have sub: "sins ?f \<subseteq> sins f \<union> S" using sins_set_child [OF f(1)] 2(6) ss by blast
  have new: "pbit f < pbit n'" "\<forall>s \<in> S. is_bit_set s (pbit f) = d \<and> (\<forall>x \<in> sins f \<union> S. agree (pbit f) s x)"
    using 2(7) by auto
  have side: "child e ?f = (if e = d then n' else child e f)" for e
      using set_child_simps(4,5) [OF f(1), of d n'] by (cases e; cases d) simp_all
  have "pwf m ?f"
    unfolding pwf_unfold [OF set_child_simps(1) [OF f(1)]]
  proof (intro conjI)
    show "pbit ?f \<le> m" using u f(1) by simp
    show "case pprefix ?f of None \<Rightarrow> \<forall>e. child e ?f \<noteq> PNull | Some q \<Rightarrow> bitlen q = pbit ?f"
    proof (cases "pprefix f")
      case None
      then have "\<forall>e. child e f \<noteq> PNull" using u by simp
      then have "\<forall>e. child e ?f \<noteq> PNull" unfolding side using 2(5) by simp
      with None f(1) show ?thesis by simp
    next
      case (Some q)
      then have "bitlen q = pbit f" using u by simp
      with Some f(1) show ?thesis by simp
    qed
    show "\<forall>x \<in> sins ?f. \<forall>y \<in> sins ?f. agree (pbit ?f) x y"
    proof (intro ballI)
      fix x y assume "x \<in> sins ?f" "y \<in> sins ?f"
      then have "x \<in> sins f \<union> S" "y \<in> sins f \<union> S" using sub by blast+
      with u new(2) f(1) show "agree (pbit ?f) x y" by (auto intro: agree_sym)
    qed
    show "\<forall>e. \<forall>x \<in> sins (child e ?f). is_bit_set x (pbit ?f) = e"
      unfolding side using u f(1,2) new(2) 2(6) by auto
    show "\<forall>e. child e ?f \<noteq> PNull \<longrightarrow> pbit ?f < pbit (child e ?f)"
      unfolding side using u f(1) new(1) by auto
    show "\<forall>e. pwf m (child e ?f)" unfolding side using u 2(4) by auto
  qed
  moreover have "\<forall>(d', g) \<in> set ctx. pbit g < pbit ?f
      \<and> (\<forall>s \<in> S. is_bit_set s (pbit g) = d' \<and> (\<forall>x \<in> sins g \<union> S. agree (pbit g) s x))"
  proof -
    have pb: "pbit g < pbit f" if "(e, g) \<in> set ctx" for e g
      using path_bits [OF f(3) tree that f(1)] .
    show ?thesis
    proof (intro ballI, clarify)
      fix e g assume eg: "(e, g) \<in> set ctx"
      then have "(e, g) \<in> set ((d, f) # ctx)" by simp
      with 2(7) have "\<forall>s \<in> S. is_bit_set s (pbit g) = e \<and> (\<forall>x \<in> sins g \<union> S. agree (pbit g) s x)" by blast
      with pb [OF eg] f(1) show "pbit g < pbit ?f
          \<and> (\<forall>s \<in> S. is_bit_set s (pbit g) = e \<and> (\<forall>x \<in> sins g \<union> S. agree (pbit g) s x))" by simp
    qed
  qed
  ultimately have "pwf m (plug ctx ?f)"
    using 2(1) [OF f(3) tree _ set_child_simps(1) [OF f(1)] sub] by blast
  then show ?case by simp
qed simp

section \<open>Insertion\<close>

definition follows :: "irc_in_addr \<Rightarrow> trail \<Rightarrow> bool" where
  "follows addr ctx \<longleftrightarrow> (\<forall>(d, f) \<in> set ctx. is_bit_set addr (pbit f) = d)"

definition walk_end :: "nat \<Rightarrow> irc_in_addr \<Rightarrow> nat \<Rightarrow> pnode \<Rightarrow> trail \<Rightarrow> pnode \<Rightarrow> bool" where
  "walk_end m addr len t ctx n \<longleftrightarrow> on_path ctx n \<and> plug ctx n = t \<and> n \<noteq> PNull \<and> pprefix n \<noteq> None
    \<and> follows addr ctx \<and> (len \<le> pbit n \<or> child (pbit n < m \<and> is_bit_set addr (pbit n)) n = PNull)"

lemma lookup_walk_spec:
  assumes "lookup_walk m addr len ctx n = (ctx', n')" "n \<noteq> PNull" "pwf m n" "on_path ctx n" "follows addr ctx"
  shows "walk_end m addr len (plug ctx n) ctx' n'"
  using assms
proof (induction n arbitrary: ctx)
  case (PNode a b u p l r)
  let ?n = "PNode a b u p l r"
  have step: "walk_end m addr len (plug ctx ?n) ctx' n'"
    if "child d ?n \<noteq> PNull" "(b < m \<and> is_bit_set addr b) = d"
      and IH: "pwf m (child d ?n) \<Longrightarrow> on_path ((d, ?n) # ctx) (child d ?n) \<Longrightarrow> follows addr ((d, ?n) # ctx)
        \<Longrightarrow> walk_end m addr len (plug ((d, ?n) # ctx) (child d ?n)) ctx' n'" for d
  proof -
    have "b < m" using pwf_child_below [OF PNode.prems(3) PNode.prems(2) that(1)] by simp
    with that(2) have "is_bit_set addr b = d" by simp
    then have "follows addr ((d, ?n) # ctx)" using PNode.prems(5) by (simp add: follows_def)
    moreover have "on_path ((d, ?n) # ctx) (child d ?n)" using PNode.prems(4) by simp
    moreover have "plug ((d, ?n) # ctx) (child d ?n) = plug ctx ?n" by (simp add: child_def)
    ultimately show ?thesis using IH [OF pwf_child [OF PNode.prems(3,2)]] by simp
  qed
  have c: "child True ?n = r" "child False ?n = l" by (simp_all add: child_def)
  show ?case
  proof (cases "b < len \<or> p = None")
    case go: True
    show ?thesis
    proof (cases "b < m \<and> is_bit_set addr b")
      case d: True
      show ?thesis
      proof (cases "r = PNull")
        case False
        then have "lookup_walk m addr len ((True, ?n) # ctx) r = (ctx', n')" using PNode.prems(1) go d by simp
        with step [of True, unfolded c] PNode.IH(2) False d show ?thesis by blast
      next
        case True
        then have e: "ctx' = ctx" "n' = ?n" using PNode.prems(1) go d by simp_all
        have "p \<noteq> None" using True PNode.prems(3) by (cases p) auto
        with e True d c PNode.prems(4,5) show ?thesis by (simp add: walk_end_def)
      qed
    next
      case d: False
      show ?thesis
      proof (cases "l = PNull")
        case False
        then have "lookup_walk m addr len ((False, ?n) # ctx) l = (ctx', n')" using PNode.prems(1) go d by auto
        with step [of False, unfolded c] PNode.IH(1) False d show ?thesis by blast
      next
        case True
        then have e: "ctx' = ctx" "n' = ?n" using PNode.prems(1) go d by auto
        have "p \<noteq> None" using True PNode.prems(3) by (cases p) auto
        moreover have "child (b < m \<and> is_bit_set addr b) ?n = PNull" using True d by (auto simp: child_def)
        ultimately show ?thesis unfolding e walk_end_def using PNode.prems(4,5) by simp
      qed
    qed
  next
    case False
    then have e: "ctx' = ctx" "n' = ?n" using PNode.prems(1) by auto
    then show ?thesis unfolding e walk_end_def using False PNode.prems(4,5) by simp
  qed
qed simp

lemma climb_spec:
  assumes "climb D ctx n = (ctx', n')" "on_path ctx n" "pwf m (plug ctx n)" "n \<noteq> PNull"
  shows "on_path ctx' n' \<and> plug ctx' n' = plug ctx n \<and> n' \<noteq> PNull \<and> set ctx' \<subseteq> set ctx
    \<and> (\<forall>(d, f) \<in> set ctx'. pbit f < D) \<and> (n' = n \<or> (\<exists>d. (d, n') \<in> set ctx \<and> D \<le> pbit n'))"
  using assms
proof (induction D ctx n rule: climb.induct)
  case (2 D d f ctx n)
  have f: "f \<noteq> PNull" "on_path ctx f" "plug ((d, f) # ctx) n = plug ctx f" using 2(3) by (simp_all add: set_child_same)
  show ?case
  proof (cases "D \<le> pbit f")
    case True
    then have "climb D ctx f = (ctx', n')" using 2(2) by simp
    from 2(1) [OF True this f(2) 2(4) [unfolded f(3)] f(1)] f(3) True show ?thesis by auto
  next
    case False
    then have e: "ctx' = (d, f) # ctx" "n' = n" using 2(2) by auto
    have "pbit g < pbit f" if "(e, g) \<in> set ctx" for e g
      using path_bits [OF f(2) 2(4) [unfolded f(3)] that f(1)] .
    then have "\<forall>(e, g) \<in> set ctx'. pbit g < D" unfolding e using False by fastforce
    then show ?thesis using 2 unfolding e by auto
  qed
qed simp

lemma path_frame:
  assumes "on_path ctx n" "pwf m (plug ctx n)" "(d, f) \<in> set ctx"
  shows "f \<noteq> PNull \<and> pwf m f \<and> sins n \<subseteq> sins f"
  using assms
proof (induction ctx n rule: on_path.induct)
  case (2 e g ctx n)
  have g: "g \<noteq> PNull" "on_path ctx g" "pwf m (plug ctx g)" "sins n \<subseteq> sins g"
    using 2(2,3) sins_child [of g e] by (auto simp: set_child_same)
  show ?case
  proof (cases "(d, f) \<in> set ctx")
    case True
    from 2(1) [OF g(2,3) True] g(4) show ?thesis by blast
  next
    case False
    with 2(4) have "f = g" by simp
    with g pwf_plug [OF g(2,3)] show ?thesis by simp
  qed
qed simp

definition leaf :: "nat \<Rightarrow> nat \<Rightarrow> prefix \<Rightarrow> pnode" where
  "leaf k len q = PNode k len 0 (Some q) PNull PNull"

lemma leaf_facts [simp]:
  "leaf k len q \<noteq> PNull" "pbit (leaf k len q) = len" "paddr (leaf k len q) = k" "stored (leaf k len q) = {(k, q)}"
  "sins (leaf k len q) = {sin q}" "addrs (leaf k len q) = [k]" "usercount (leaf k len q) = 0"
  "bitlen q = len \<Longrightarrow> len \<le> m \<Longrightarrow> pwf m (leaf k len q)"
  by (simp_all add: leaf_def sins_node)

text \<open>The three ways a new node comes in.\<close>

lemma pwf_below:
  assumes "pwf m n" "n \<noteq> PNull" "child d n = PNull" "pbit n < len" "len \<le> m" "bitlen q = len"
    "is_bit_set (sin q) (pbit n) = d" "\<forall>x \<in> sins n. agree (pbit n) (sin q) x"
  shows "pwf m (set_child d (leaf k len q) n)"
proof -
  have 1: "on_path [(d, n)] PNull" using assms(2,3) by simp
  have 2: "pwf m (plug [(d, n)] PNull)" using assms(1-3) by (simp add: set_child_same)
  have 3: "pwf m (leaf k len q)" using assms(5,6) by simp
  have 4: "sins (leaf k len q) \<subseteq> sins PNull \<union> {sin q}" by simp
  have 5: "\<forall>(e, f) \<in> set [(d, n)]. pbit f < pbit (leaf k len q)
      \<and> (\<forall>s \<in> {sin q}. is_bit_set s (pbit f) = e \<and> (\<forall>x \<in> sins f \<union> {sin q}. agree (pbit f) s x))"
    using assms(4,7,8) by simp
  from pwf_replace [OF 1 2 3 _ 4 5] show ?thesis by simp
qed

lemma pwf_above:
  assumes "pwf m n" "n \<noteq> PNull" "len < pbit n" "bitlen q = len" "\<tau> \<in> sins n" "agree len (sin q) \<tau>"
  shows "pwf m (PNode k len u (Some q) (if is_bit_set \<tau> len then PNull else n) (if is_bit_set \<tau> len then n else PNull))"
proof -
  have ag: "agree len x \<tau>" "is_bit_set x len = is_bit_set \<tau> len" if "x \<in> sins n" for x
    using pwf_agree [OF assms(1) that assms(5)] assms(3) by (auto simp: agree_def)
  have "agree len x y" if "x = sin q \<or> x \<in> sins n" "y = sin q \<or> y \<in> sins n" for x y
  proof -
    have "agree len x \<tau>" "agree len \<tau> y" using that ag(1) assms(6) by (auto simp: agree_def)
    then show ?thesis by (rule agree_trans)
  qed
  then have A: "\<forall>x \<in> insert (sin q) (sins n). \<forall>y \<in> insert (sin q) (sins n). agree len x y" by blast
  have len: "len \<le> m" using pwf_bit [OF assms(1,2)] assms(3) by simp
  show ?thesis
  proof (cases "is_bit_set \<tau> len")
    case True
    have S: "sins (PNode k len u (Some q) PNull n) = insert (sin q) (sins n)" by (simp add: sins_node)
    show ?thesis unfolding if_P [OF True] pwf.simps S
      by (intro conjI A) (use assms(1-4) ag(2) len True in simp_all)
  next
    case False
    have S: "sins (PNode k len u (Some q) n PNull) = insert (sin q) (sins n)" by (simp add: sins_node)
    show ?thesis unfolding if_not_P [OF False] pwf.simps S
      by (intro conjI A) (use assms(1-4) ag(2) len False in simp_all)
  qed
qed

lemma pwf_glue:
  assumes "pwf m n" "n \<noteq> PNull" "D < pbit n" "D < len" "len \<le> m" "bitlen q = len" "\<tau> \<in> sins n"
    "agree D (sin q) \<tau>" "is_bit_set (sin q) D \<noteq> is_bit_set \<tau> D"
  shows "pwf m (PNode g D u None (if is_bit_set (sin q) D then n else leaf k len q)
    (if is_bit_set (sin q) D then leaf k len q else n))"
proof -
  have ag: "agree D x \<tau>" "is_bit_set x D = is_bit_set \<tau> D" if "x \<in> sins n" for x
    using pwf_agree [OF assms(1) that assms(7)] assms(3) by (auto simp: agree_def)
  have "agree D x y" if "x = sin q \<or> x \<in> sins n" "y = sin q \<or> y \<in> sins n" for x y
  proof -
    have "agree D x \<tau>" "agree D \<tau> y" using that ag(1) assms(8) by (auto simp: agree_def)
    then show ?thesis by (rule agree_trans)
  qed
  then have A: "\<forall>x \<in> insert (sin q) (sins n). \<forall>y \<in> insert (sin q) (sins n). agree D x y" by blast
  have w: "pwf m (leaf k len q)" using assms(5,6) by simp
  show ?thesis
  proof (cases "is_bit_set (sin q) D")
    case True
    have S: "sins (PNode g D u None n (leaf k len q)) = insert (sin q) (sins n)" by (simp add: sins_node)
    show ?thesis unfolding if_P [OF True] pwf.simps S
      by (intro conjI A) (use assms(1-5,9) ag(2) w True in simp_all)
  next
    case False
    have S: "sins (PNode g D u None (leaf k len q) n) = insert (sin q) (sins n)" by (simp add: sins_node)
    show ?thesis unfolding if_not_P [OF False] pwf.simps S
      by (intro conjI A) (use assms(1-5,9) ag(2) w False in simp_all)
  qed
qed


text \<open>The invariant of a trie that \<open>refnode\<close> and \<open>derefnode\<close> work on.\<close>

definition pt_ok :: "ptree \<Rightarrow> bool" where
  "pt_ok t \<longleftrightarrow> pwf (maxbits t) (head t) \<and> distinct (addrs (head t)) \<and> (\<forall>a \<in> set (addrs (head t)). a < next_node t)
     \<and> num_active_node t = int (length (addrs (head t))) \<and> (\<forall>x \<in> stored (head t). ref_count (snd x) > 0)
     \<and> maxbits t \<le> PATRICIA_MAXBITS"

lemma pt_okD:
  assumes "pt_ok t"
  shows "pwf (maxbits t) (head t)" "distinct (addrs (head t))" "a \<in> set (addrs (head t)) \<Longrightarrow> a < next_node t"
    "num_active_node t = int (length (addrs (head t)))" "x \<in> stored (head t) \<Longrightarrow> ref_count (snd x) > 0"
  using assms by (simp_all add: pt_ok_def)

lemma addrs_replace:
  assumes "path_ok ctx" "mset (addrs n') = mset (addrs n) + mset new" "distinct new" "set new \<inter> set (addrs (plug ctx n)) = {}"
    "distinct (addrs (plug ctx n))"
  shows "distinct (addrs (plug ctx n')) \<and> set (addrs (plug ctx n')) = set (addrs (plug ctx n)) \<union> set new
    \<and> length (addrs (plug ctx n')) = length (addrs (plug ctx n)) + length new"
proof -
  have m: "mset (addrs (plug ctx n')) = mset (addrs (plug ctx n) @ new)"
    using assms(2) by (simp add: addrs_plug [OF assms(1)])
  moreover have "distinct (addrs (plug ctx n) @ new)" using assms(3-5) by auto
  ultimately show ?thesis
    using mset_eq_setD [OF m] mset_eq_length [OF m] mset_eq_imp_distinct_iff [OF m] by auto
qed

lemma addrs_set_child: "n \<noteq> PNull \<Longrightarrow> child d n = PNull \<Longrightarrow> mset (addrs (set_child d c n)) = mset (addrs n) + mset (addrs c)"
  by (cases n) (auto simp: child_def)

lemma stored_set_child: "n \<noteq> PNull \<Longrightarrow> child d n = PNull \<Longrightarrow> stored (set_child d c n) = stored n \<union> stored c"
  by (cases n) (auto simp: child_def)

text \<open>
  Where \<open>patricia_lookup\<close> ends: the node below which, above which or in which the prefix
  belongs, in terms of the first bit \<open>D\<close> that differs.
\<close>

lemma lookup_place:
  assumes "pwf m h" "h \<noteq> PNull" "len \<le> m" "lookup_walk m addr len [] h = (ctx0, n0)" "pprefix n0 = Some test"
    "D = differ addr (sin test) (if pbit n0 < len then pbit n0 else len)" "climb D ctx0 n0 = (ctx, n)"
  shows "on_path ctx n \<and> plug ctx n = h \<and> n \<noteq> PNull \<and> D \<le> len \<and> D \<le> pbit n \<and> sin test \<in> sins n
    \<and> agree D addr (sin test)
    \<and> (\<forall>(d, f) \<in> set ctx. pbit f < D \<and> is_bit_set addr (pbit f) = d \<and> (\<forall>x \<in> sins f. agree (pbit f) addr x))
    \<and> (pbit n = D \<and> D < len \<longrightarrow> child (is_bit_set addr D) n = PNull)
    \<and> (D < len \<and> D < pbit n \<longrightarrow> is_bit_set addr D \<noteq> is_bit_set (sin test) D)"
proof -
  note w = lookup_walk_spec [OF assms(4,2,1), simplified follows_def on_path.simps, simplified, unfolded walk_end_def follows_def]
  have wf0: "pwf m (plug ctx0 n0)" using w assms(1) by simp
  have c: "on_path ctx n" "plug ctx n = h" "n \<noteq> PNull" "set ctx \<subseteq> set ctx0" "\<forall>(d, f) \<in> set ctx. pbit f < D"
      "n = n0 \<or> (\<exists>d. (d, n) \<in> set ctx0 \<and> D \<le> pbit n)"
    using climb_spec [OF assms(7) _ wf0] w by auto
  have test0: "sin test \<in> sins n0" using assms(5) w by (cases n0) (auto simp: sins_node)
  note D = differ_spec [of addr "sin test" "if pbit n0 < len then pbit n0 else len", folded assms(6)]
  have D_le: "D \<le> len" "D \<le> pbit n0" using D(1) by (simp_all split: if_splits)
  have D_diff: "D < len \<Longrightarrow> D < pbit n0 \<Longrightarrow> is_bit_set addr D \<noteq> is_bit_set (sin test) D"
    using D(3) by (simp split: if_splits)
  have sub: "f \<noteq> PNull \<and> pwf m f \<and> sins n0 \<subseteq> sins f" if "(d, f) \<in> set ctx0" for d f
    using path_frame [OF _ wf0 that] w by simp
  have below: "pbit f < pbit n0" if "(d, f) \<in> set ctx0" for d f
    using path_bits [OF _ wf0 that] w by simp
  have "D \<le> pbit n" using c(6) D_le(2) by auto
  moreover have testn: "sin test \<in> sins n" using c(6) test0 sub by blast
  moreover have "pbit f < D \<and> is_bit_set addr (pbit f) = d \<and> (\<forall>x \<in> sins f. agree (pbit f) addr x)"
    if "(d, f) \<in> set ctx" for d f
  proof -
    have f: "(d, f) \<in> set ctx0" "pbit f < D" using that c(4,5) by auto
    have "agree (pbit f) addr x" if "x \<in> sins f" for x
    proof (rule agree_trans)
      show "agree (pbit f) addr (sin test)" using D(2) f(2) by (auto intro: agree_le less_imp_le)
      show "agree (pbit f) (sin test) x" using sub [OF f(1)] pwf_agree [of m f "sin test" x] test0 that by auto
    qed
    moreover have "is_bit_set addr (pbit f) = d" using w f(1) by auto
    ultimately show ?thesis using f(2) by simp
  qed
  moreover have "child (is_bit_set addr D) n = PNull" if "pbit n = D" "D < len"
  proof (cases "n = n0")
    case True
    then have "child (pbit n < m \<and> is_bit_set addr (pbit n)) n = PNull" using w that by auto
    with that assms(3) show ?thesis by simp
  next
    case False
    with c(6) obtain d where d: "(d, n) \<in> set ctx0" by blast
    then have "is_bit_set addr D = d" "D < pbit n0" using w that(1) below by auto
    with D_diff [OF that(2)] have "is_bit_set (sin test) D \<noteq> d" by simp
    moreover have "sin test \<in> sins (child d n)"
    proof -
      have "on_path ctx0 n0" using w by simp
      then have "sins n0 \<subseteq> sins (child d n)" using d wf0
      proof (induction ctx0 n0 rule: on_path.induct)
        case (2 e g c k)
        have g: "g \<noteq> PNull" "child e g = k" "on_path c g" "pwf m (plug c g)" using 2(2,4) by (simp_all add: set_child_same)
        show ?case
        proof (cases "(d, n) \<in> set c")
          case True
          have "sins k \<subseteq> sins g" using sins_child [OF g(1), of e] g(2) by simp
          with 2(1) [OF g(3) True g(4)] show ?thesis by blast
        qed (use 2(3) g(2) in simp)
      qed simp
      with test0 show ?thesis by blast
    qed
    then have "is_bit_set (sin test) (pbit n) = d"
      using sub [OF d] pwf_unfold [of n m] by blast
    ultimately show ?thesis using that(1) by simp
  qed
  moreover have "is_bit_set addr D \<noteq> is_bit_set (sin test) D" if "D < len" "D < pbit n"
  proof -
    have "pbit n \<le> pbit n0" using c(6) below by force
    with D_diff that show ?thesis by simp
  qed
  ultimately show ?thesis using c(1-3) D_le(1) D(2) by blast
qed

lemma stored_addrs: "(a, q) \<in> stored n \<Longrightarrow> a \<in> set (addrs n)"
  by (induction n) (auto split: option.splits)

lemma outside_addrs: "path_ok ctx \<Longrightarrow> (a, q) \<in> outside ctx \<Longrightarrow> a \<in> set (addrs_outside ctx)"
proof (induction ctx rule: outside.induct)
  case (2 d f ctx)
  then show ?case by (cases f) (auto dest: stored_addrs split: option.splits)
qed simp

lemma addrs_disjoint:
  assumes "path_ok ctx" "distinct (addrs (plug ctx n))"
  shows "distinct (addrs n) \<and> set (addrs n) \<inter> set (addrs_outside ctx) = {}"
proof -
  have m: "mset (addrs (plug ctx n)) = mset (addrs_outside ctx @ addrs n)"
    by (simp add: addrs_plug [OF assms(1)])
  then have "distinct (addrs_outside ctx @ addrs n)"
    using mset_eq_imp_distinct_iff assms(2) by blast
  then show ?thesis by auto
qed

text \<open>
  User counts: with \<open>D a\<close> users at the node with address \<open>a\<close>, the count of each node is the
  sum over its subtrie; users are only at nodes with a prefix.
\<close>

fun users :: "pnode \<Rightarrow> int" where
  "users PNull = 0"
| "users (PNode a b u p l r) = u"

fun users_ok :: "(nat \<Rightarrow> int) \<Rightarrow> pnode \<Rightarrow> bool" where
  "users_ok D PNull \<longleftrightarrow> True"
| "users_ok D (PNode a b u p l r) \<longleftrightarrow> u = D a + users l + users r \<and> (p = None \<longrightarrow> D a = 0)
     \<and> users_ok D l \<and> users_ok D r"

lemma users_child: "users_ok D n \<Longrightarrow> n \<noteq> PNull \<Longrightarrow> users_ok D (child d n)"
  by (cases n) (simp_all add: child_def)

lemma users_split:
  "users_ok D n \<Longrightarrow> n \<noteq> PNull \<Longrightarrow> users n = D (paddr n) + users (child d n) + users (child (\<not> d) n)"
  by (cases n) (simp_all add: child_def)

lemma users_set_child:
  "users_ok D n \<Longrightarrow> n \<noteq> PNull \<Longrightarrow> users_ok D c \<Longrightarrow> users c = users (child d n)
    \<Longrightarrow> users_ok D (set_child d c n) \<and> users (set_child d c n) = users n"
  by (cases n) (auto simp: child_def split: if_splits)

lemma users_plug:
  "on_path ctx n \<Longrightarrow> users_ok D (plug ctx n) \<Longrightarrow>
    users_ok D n \<and> (users_ok D n' \<longrightarrow> users n' = users n \<longrightarrow> users_ok D (plug ctx n') \<and> users (plug ctx n') = users (plug ctx n))"
proof (induction ctx n arbitrary: n' rule: on_path.induct)
  case (2 d f ctx n)
  have f: "f \<noteq> PNull" "child d f = n" "on_path ctx f" "plug ((d, f) # ctx) n = plug ctx f"
    using 2(2) by (simp_all add: set_child_same)
  have uf: "users_ok D f" using 2(1) [OF f(3)] 2(3) f(4) by simp
  with users_child [OF this f(1), of d] f(2) have un: "users_ok D n" by simp
  show ?case
  proof (intro conjI impI)
    assume n': "users_ok D n'" "users n' = users n"
    then have "users_ok D (set_child d n' f) \<and> users (set_child d n' f) = users f"
      using users_set_child [OF uf f(1)] f(2) by simp
    then show "users_ok D (plug ((d, f) # ctx) n')" "users (plug ((d, f) # ctx) n') = users (plug ((d, f) # ctx) n)"
      using 2(1) [OF f(3), of "set_child d n' f"] 2(3) f(4) by simp_all
  qed (rule un)
qed simp

lemmas users_at = users_plug [THEN conjunct1]

lemma users_replace:
  "on_path ctx n \<Longrightarrow> users_ok D (plug ctx n) \<Longrightarrow> users_ok D n' \<Longrightarrow> users n' = users n \<Longrightarrow> users_ok D (plug ctx n')"
  using users_plug by blast

text \<open>Putting a new subtrie at the place of \<open>lookup_place\<close>.\<close>

lemma install:
  assumes ok: "pt_ok t" and path: "on_path ctx n" "plug ctx n = head t" "n \<noteq> PNull"
    and fr: "\<forall>(d, f) \<in> set ctx. pbit f < D \<and> is_bit_set addr (pbit f) = d \<and> (\<forall>x \<in> sins f. agree (pbit f) addr x)"
    and n': "pwf (maxbits t) n'" "n' \<noteq> PNull" "D \<le> pbit n'" "stored n' = insert (i, q) (stored n)" "sin q = addr"
    and new: "mset (addrs n') = mset (addrs n) + mset new" "distinct new" "\<forall>a \<in> set new. next_node t \<le> a \<and> a < k"
    and rc: "ref_count q > 0" and k: "next_node t \<le> k" and c: "num = num_active_node t + int (length new)"
  shows "pt_ok (t\<lparr>head := plug ctx n', next_node := k, num_active_node := num\<rparr>)
    \<and> stored (plug ctx n') = insert (i, q) (stored (head t))"
proof -
  have po: "path_ok ctx" using on_path_ok [OF path(1)] .
  have wf: "pwf (maxbits t) (plug ctx n)" using ok path(2) by (simp add: pt_ok_def)
  have "sins n' \<subseteq> sins n \<union> {addr}" using n'(4,5) by (auto simp: sins_def)
  moreover have "\<forall>(d, f) \<in> set ctx. pbit f < pbit n'
      \<and> (\<forall>s \<in> {addr}. is_bit_set s (pbit f) = d \<and> (\<forall>x \<in> sins f \<union> {addr}. agree (pbit f) s x))"
    using fr n'(3) by fastforce
  ultimately have pwf: "pwf (maxbits t) (plug ctx n')"
    using pwf_replace [OF path(1) wf n'(1,2)] by blast
  have st: "stored (plug ctx n') = insert (i, q) (stored (head t))"
    using n'(4) by (simp add: stored_plug [OF po] path(2) [symmetric])
  have "set new \<inter> set (addrs (plug ctx n)) = {}" using new(3) pt_okD(3) [OF ok] path(2) by fastforce
  from addrs_replace [OF po new(1,2) this] pt_okD(2) [OF ok] path(2)
  have ad: "distinct (addrs (plug ctx n'))" "set (addrs (plug ctx n')) = set (addrs (head t)) \<union> set new"
      "length (addrs (plug ctx n')) = length (addrs (head t)) + length new" by auto
  have "\<forall>a \<in> set (addrs (plug ctx n')). a < k"
    using ad(2) new(3) pt_okD(3) [OF ok] k by fastforce
  with ok pwf st ad c rc show ?thesis by (simp add: pt_ok_def)
qed

definition covered :: "ptree \<Rightarrow> nat \<Rightarrow> irc_in_addr \<Rightarrow> nat \<times> prefix \<Rightarrow> bool" where
  "covered t len s x \<longleftrightarrow> x \<in> stored (head t) \<and> bitlen (snd x) = len \<and> agree len (sin (snd x)) s"

lemma covered_unique:
  "pt_ok t \<Longrightarrow> covered t len s x \<Longrightarrow> covered t len s y \<Longrightarrow> x = y"
  using stored_unique [OF pt_okD(1), of t "fst x" "snd x" "fst y" "snd y"]
  by (auto simp: covered_def agree_def prod_eq_iff)

lemma outside_frames: "x \<in> outside ctx \<longleftrightarrow> (\<exists>(d, f) \<in> set ctx. x \<in> own f \<or> x \<in> stored (child (\<not> d) f))"
  by (induction ctx rule: outside.induct) auto

lemma pwf_side: "pwf m n \<Longrightarrow> n \<noteq> PNull \<Longrightarrow> x \<in> sins (child d n) \<Longrightarrow> is_bit_set x (pbit n) = d"
  by (cases n) (auto simp: child_def split: if_splits)

lemma outside_no_match:
  assumes "on_path ctx n" "pwf m (plug ctx n)" "\<forall>(d, f) \<in> set ctx. pbit f < len \<and> is_bit_set addr (pbit f) = d"
    "(a, p) \<in> outside ctx" "len \<le> bitlen p" "agree len (sin p) addr"
  shows False
proof -
  obtain d f where f: "(d, f) \<in> set ctx" "(a, p) \<in> own f \<or> (a, p) \<in> stored (child (\<not> d) f)"
    using assms(4) by (auto simp: outside_frames)
  have w: "f \<noteq> PNull" "pwf m f" using path_frame [OF assms(1,2) f(1)] by simp_all
  have b: "pbit f < len" "is_bit_set addr (pbit f) = d" using assms(3) f(1) by auto
  from f(2) show False
  proof
    assume "(a, p) \<in> own f"
    then have "bitlen p = pbit f" using w(2) by (cases f) (auto split: option.splits)
    with b(1) assms(5) show False by simp
  next
    assume "(a, p) \<in> stored (child (\<not> d) f)"
    then have "is_bit_set (sin p) (pbit f) = (\<not> d)"
      using pwf_side [OF w(2,1) stored_sins] by simp
    with agree_bit [OF assms(6) b(1)] b(2) show False by simp
  qed
qed

lemma place_no_match:
  assumes "pwf m n" "n \<noteq> PNull" "D \<le> len" "D \<le> pbit n" "\<tau> \<in> sins n"
    "pbit n = D \<and> D < len \<longrightarrow> child (is_bit_set addr D) n = PNull"
    "D < len \<and> D < pbit n \<longrightarrow> is_bit_set addr D \<noteq> is_bit_set \<tau> D"
    "D < len \<or> D < pbit n" "(a, p) \<in> stored n" "bitlen p = len" "agree len (sin p) addr"
  shows False
proof (cases "D < pbit n")
  case True
  show False
  proof (cases "D < len")
    case l: True
    have "is_bit_set (sin p) D = is_bit_set \<tau> D"
      using agree_bit [OF pwf_agree [OF assms(1) stored_sins [OF assms(9)] assms(5)] True] .
    with agree_bit [OF assms(11) l] assms(7) l True show False by simp
  next
    case False
    with stored_bits [OF assms(1,9)] assms(3,10) True show False by simp
  qed
next
  case False
  then have d: "pbit n = D" "D < len" using assms(4,8) by simp_all
  then have c: "child (is_bit_set addr D) n = PNull" using assms(6) by simp
  obtain i u q l r where n: "n = PNode i D u q l r" using assms(2) d(1) by (cases n) auto
  have "(a, p) \<in> stored (if is_bit_set addr D then r else l)"
    using stored_side [OF assms(1,9) [unfolded n], of len addr] assms(10,11) d(2) by simp
  with c show False unfolding n by (auto simp: child_def split: if_splits)
qed

lemma patricia_lookup_ok:
  assumes ok: "pt_ok t" and len: "bitlen pfx \<le> maxbits t" and rc: "ref_count pfx > 0"
  defines "q \<equiv> pfx\<lparr>ref_count := ref_count pfx + 1\<rparr>"
  shows "\<exists>i t' given. patricia_lookup t pfx = Some (i, t', given)
    \<and> (if \<exists>x. covered t (bitlen pfx) (sin pfx) x
       then t' = t \<and> given = pfx \<and> (\<exists>p. covered t (bitlen pfx) (sin pfx) (i, p))
       else given = q \<and> pt_ok t' \<and> maxbits t' = maxbits t \<and> stored (head t') = insert (i, q) (stored (head t))
         \<and> i \<notin> fst ` stored (head t)
         \<and> (\<forall>D. users_ok D (head t) \<longrightarrow> (\<forall>a \<ge> next_node t. D a = 0) \<longrightarrow> users_ok D (head t')))"
proof -
  let ?m = "maxbits t" and ?k = "next_node t" and ?len = "bitlen pfx" and ?addr = "sin pfx"
  have ref: "patricia_ref_prefix pfx = (q, q)" using rc by (simp add: patricia_ref_prefix_def q_def Let_def)
  have q: "sin q = ?addr" "bitlen q = ?len" "ref_count q > 0" using rc by (simp_all add: q_def)
  have wf: "pwf ?m (head t)" using pt_okD(1) [OF ok] .
  have fresh: "?k \<notin> fst ` stored (head t)"
    using pt_okD(3) [OF ok] stored_addrs by fastforce
  show ?thesis
  proof (cases "head t = PNull")
    case True
    then have "patricia_lookup t pfx = Some (?k, t\<lparr>head := leaf ?k ?len q, next_node := ?k + 1,
        num_active_node := num_active_node t + 1\<rparr>, q)"
      using len ref by (simp add: patricia_lookup_def patricia_new_node_def leaf_def Let_def)
    moreover have "pt_ok (t\<lparr>head := leaf ?k ?len q, next_node := ?k + 1, num_active_node := num_active_node t + 1\<rparr>)"
      using ok True len q by (simp add: pt_ok_def)
    moreover have "users_ok D (leaf ?k ?len q)" if "\<forall>a \<ge> ?k. D a = 0" for D
      using that by (simp add: leaf_def)
    ultimately show ?thesis using True by (simp add: covered_def)
  next
    case False
    obtain ctx0 n0 where w: "lookup_walk ?m ?addr ?len [] (head t) = (ctx0, n0)" by fastforce
    obtain test where test: "pprefix n0 = Some test"
      using lookup_walk_spec [OF w False wf] by (auto simp: follows_def walk_end_def)
    define D where "D = differ ?addr (sin test) (if pbit n0 < ?len then pbit n0 else ?len)"
    obtain ctx n where cl: "climb D ctx0 n0 = (ctx, n)" by fastforce
    note pl = lookup_place [OF wf False len w test D_def cl]
    have path: "on_path ctx n" "plug ctx n = head t" "n \<noteq> PNull" using pl by simp_all
    have D: "D \<le> ?len" "D \<le> pbit n" "sin test \<in> sins n" "agree D ?addr (sin test)" using pl by simp_all
    have fr: "\<forall>(d, f) \<in> set ctx. pbit f < D \<and> is_bit_set ?addr (pbit f) = d \<and> (\<forall>x \<in> sins f. agree (pbit f) ?addr x)"
      using pl by simp
    have wn: "pwf ?m n" using pwf_plug [OF path(1)] wf path(2) by simp
    have agn: "agree D ?addr x" if "x \<in> sins n" for x
      using pwf_agree [OF wn D(3) that] D(2,4) by (auto simp: agree_def)
    note unf = patricia_lookup_def ref prod.case Let_def w test option.case D_def [symmetric] cl
    note inst = install [OF ok path fr _ _ _ _ q(1) _ _ _ q(3)]
    have frl: "\<forall>(d, f) \<in> set ctx. pbit f < ?len \<and> is_bit_set ?addr (pbit f) = d" using fr D(1) by fastforce
    have out: "(a, p) \<notin> outside ctx" if "bitlen p = ?len" "agree ?len (sin p) ?addr" for a p
    proof
      assume "(a, p) \<in> outside ctx"
      then show False
        using outside_no_match [OF path(1) _ frl _ _ that(2)] that(1) wf path(2) by simp
    qed
    have none: "\<not> (\<exists>x. covered t ?len ?addr x)" if "D < ?len \<or> D < pbit n"
    proof
      assume "\<exists>x. covered t ?len ?addr x"
      then obtain a p where x: "(a, p) \<in> stored (head t)" "bitlen p = ?len" "agree ?len (sin p) ?addr"
        by (auto simp: covered_def)
      then have "(a, p) \<in> stored n"
        using x(1) stored_plug [OF on_path_ok [OF path(1)], of n] path(2) out [OF x(2,3)] by simp
      then show False
        using place_no_match [OF wn path(3) D(1-3) _ _ that _ x(2,3)] pl by blast
    qed
    show ?thesis
    proof (cases "D = ?len \<and> pbit n = ?len")
      case True
      obtain a u p l r where n: "n = PNode a ?len u p l r" using path(3) True by (cases n) auto
      show ?thesis
      proof (cases p)
        case (Some x)
        have "patricia_lookup t pfx = Some (a, t, pfx)"
          unfolding unf using len False True Some n by simp
        moreover have "(a, x) \<in> stored (head t)"
          using stored_plug [OF on_path_ok [OF path(1)], of n] path(2) n Some by simp
        moreover have "bitlen x = ?len" "agree ?len (sin x) ?addr"
          using wn n Some agn [of "sin x"] True by (simp_all add: sins_node agree_def)
        ultimately show ?thesis by (auto simp: covered_def)
      next
        case None
        let ?n' = "PNode a ?len u (Some q) l r"
        let ?t' = "t\<lparr>head := plug ctx ?n'\<rparr>"
        have A: "\<forall>x \<in> insert ?addr (sins n). \<forall>y \<in> insert ?addr (sins n). agree ?len x y"
          using agn True pwf_agree [OF wn] by (auto intro: agree_sym)
        have S: "sins ?n' = insert ?addr (sins n)" using n None q(1) by (simp add: sins_node)
        have wn': "pwf ?m ?n'"
          using wn q(2) A unfolding n None pwf.simps S [unfolded n None] by simp
        have c: "patricia_lookup t pfx = Some (a, ?t', q)"
          unfolding unf using len False True None n by simp
        have "?t' = t\<lparr>head := plug ctx ?n', next_node := next_node t, num_active_node := num_active_node t\<rparr>"
          by (cases t) simp
        moreover have "stored ?n' = insert (a, q) (stored n)" using n None by simp
        ultimately have r: "pt_ok ?t' \<and> stored (head ?t') = insert (a, q) (stored (head t))"
          using inst [OF wn', of a "[]" "next_node t" "num_active_node t"] True n None by simp
        have "distinct (addrs n)"
          using addrs_disjoint [OF on_path_ok [OF path(1)], of n] pt_okD(2) [OF ok] path(2) by simp
        then have ai: "a \<notin> fst ` stored (head t)"
        proof -
          have "a \<in> set (addrs n)" using n by simp
          then have "(a, y) \<notin> outside ctx" for y
            using outside_addrs [OF on_path_ok [OF path(1)], of a y] addrs_disjoint [OF on_path_ok [OF path(1)], of n]
              pt_okD(2) [OF ok] path(2) by auto
          moreover have "(a, y) \<notin> stored n" for y
            using stored_addrs [of a y l] stored_addrs [of a y r] \<open>distinct (addrs n)\<close> n None by auto
          ultimately show ?thesis
            using stored_plug [OF on_path_ok [OF path(1)], of n] path(2) by auto
        qed
        have no: "\<not> (\<exists>x. covered t ?len ?addr x)"
        proof
          assume "\<exists>x. covered t ?len ?addr x"
          then obtain c x where x: "(c, x) \<in> stored (head t)" "bitlen x = ?len" "agree ?len (sin x) ?addr"
            by (auto simp: covered_def)
          then have "(c, x) \<in> stored l \<or> (c, x) \<in> stored r"
            using x(1) stored_plug [OF on_path_ok [OF path(1)], of n] path(2) n None out [OF x(2,3)] by simp
          moreover have "?len < bitlen x" if "(c, x) \<in> stored (child d n)" for d
          proof -
            have "child d n \<noteq> PNull" using that by auto
            then have "?len < pbit (child d n)" using pwf_child_bit [OF wn _ path(3), of d] True by simp
            with stored_bits [OF pwf_child [OF wn path(3)] that] show ?thesis by simp
          qed
          from this [of False] this [of True] have "(c, x) \<notin> stored l" "(c, x) \<notin> stored r"
            using x(2) n by (auto simp: child_def)
          ultimately show False by blast
        qed
        have "users_ok D (plug ctx ?n')" if "users_ok D (head t)" for D
        proof (rule users_replace [OF path(1)])
          show "users_ok D (plug ctx n)" using that path(2) by simp
          from users_at [OF path(1) this] show "users_ok D ?n'" "users ?n' = users n" using n None by simp_all
        qed
        then show ?thesis using c r ai no by simp
      qed
    next
      case other: False
      then have "D < ?len \<or> D < pbit n" using D(1,2) by linarith
      then have no: "\<not> (\<exists>x. covered t ?len ?addr x)" by (rule none)
      have "is_bit_set ?addr D = (D < ?m \<and> is_bit_set ?addr D)" if "D < ?len" using that len by simp
      have lf: "pwf ?m (leaf ?k ?len q)" using q(2) len by simp
      have goal: ?thesis
        if "patricia_lookup t pfx
            = Some (?k, t\<lparr>head := plug ctx n', next_node := k, num_active_node := num_active_node t + int (length new)\<rparr>, q)"
          "pwf ?m n'" "n' \<noteq> PNull" "D \<le> pbit n'" "stored n' = insert (?k, q) (stored n)"
          "mset (addrs n') = mset (addrs n) + mset new" "distinct new" "\<forall>a \<in> set new. ?k \<le> a \<and> a < k" "?k \<le> k"
          and us: "\<And>D. users_ok D n \<Longrightarrow> (\<forall>a \<ge> ?k. D a = 0) \<Longrightarrow> users_ok D n' \<and> users n' = users n"
        for n' k new
      proof -
        have "users_ok D (plug ctx n')" if "users_ok D (head t)" "\<forall>a \<ge> ?k. D a = 0" for D
          using users_plug [OF path(1), of D n'] us [of D] that path(2) by simp
        then show ?thesis using inst [OF that(2-8) that(9) refl] that(1) no fresh by simp
      qed
      show ?thesis
      proof (cases "pbit n = D")
        case nD: True
        with other D(1) have Dl: "D < ?len" by auto
        let ?d = "is_bit_set ?addr D"
        have c: "child ?d n = PNull" using pl nD Dl by simp
        have d: "(pbit n < ?m \<and> is_bit_set ?addr (pbit n)) = ?d" using nD Dl len by simp
        show ?thesis
        proof (rule goal [where n' = "set_child ?d (leaf ?k ?len q) n" and k = "?k + 1" and new = "[?k]"])
          show "patricia_lookup t pfx
            = Some (?k, t\<lparr>head := plug ctx (set_child ?d (leaf ?k ?len q) n), next_node := ?k + 1,
                num_active_node := num_active_node t + int (length [?k])\<rparr>, q)"
            unfolding unf patricia_new_node_def d using len False other nD c by (simp add: leaf_def)
          show "pwf ?m (set_child ?d (leaf ?k ?len q) n)"
            using pwf_below [OF wn path(3) c _ len q(2)] nD Dl agn q(1) by simp
          show "users_ok E (set_child ?d (leaf ?k ?len q) n) \<and> users (set_child ?d (leaf ?k ?len q) n) = users n"
            if "users_ok E n" "\<forall>a \<ge> ?k. E a = 0" for E
            using users_set_child [OF that(1) path(3), of "leaf ?k ?len q" ?d] that(2) c by (simp add: leaf_def)
        qed (use path(3) nD c in \<open>simp_all add: stored_set_child addrs_set_child\<close>)
      next
        case nD: False
        then have Dn: "D < pbit n" using D(2) by simp
        show ?thesis
        proof (cases "D = ?len")
          case Dl: True
          let ?d = "is_bit_set (sin test) ?len"
          let ?n' = "PNode ?k ?len (usercount n) (Some q) (if ?d then PNull else n) (if ?d then n else PNull)"
          have d: "(?len < ?m \<and> is_bit_set (sin test) ?len) = ?d" using pwf_bit [OF wn path(3)] Dn Dl by simp
          show ?thesis
          proof (rule goal [where n' = "?n'" and k = "?k + 1" and new = "[?k]"])
            show "patricia_lookup t pfx = Some (?k, t\<lparr>head := plug ctx ?n', next_node := ?k + 1,
                num_active_node := num_active_node t + int (length [?k])\<rparr>, q)"
              unfolding unf patricia_new_node_def d using len False other nD Dl by simp
            show "pwf ?m ?n'"
              by (rule pwf_above [OF wn path(3) Dn [unfolded Dl] q(2) D(3)]) (rule D(4) [unfolded Dl, folded q(1)])
            show "users_ok E ?n' \<and> users ?n' = users n" if "users_ok E n" "\<forall>a \<ge> ?k. E a = 0" for E
              using that path(3) by (cases n) simp_all
          qed (use Dl in simp_all)
        next
          case False
          then have Dl: "D < ?len" using D(1) by simp
          let ?d = "is_bit_set ?addr D"
          let ?n' = "PNode (?k + 1) D (usercount n) None (if ?d then n else leaf ?k ?len q) (if ?d then leaf ?k ?len q else n)"
          have d: "(D < ?m \<and> is_bit_set ?addr D) = ?d" using Dl len by simp
          show ?thesis
          proof (rule goal [where n' = "?n'" and k = "?k + 2" and new = "[?k, ?k + 1]"])
            show "patricia_lookup t pfx = Some (?k, t\<lparr>head := plug ctx ?n', next_node := ?k + 2,
                num_active_node := num_active_node t + int (length [?k, ?k + 1])\<rparr>, q)"
              unfolding unf patricia_new_node_def d using len \<open>head t \<noteq> PNull\<close> other nD False by (simp add: leaf_def)
            show "pwf ?m ?n'"
              using pwf_glue [OF wn path(3) Dn Dl len q(2) D(3), where g = "?k + 1" and u = "usercount n" and k = ?k] D(4) pl Dl Dn
              unfolding q(1) by blast
            show "users_ok E ?n' \<and> users ?n' = users n" if "users_ok E n" "\<forall>a \<ge> ?k. E a = 0" for E
              using that path(3) by (cases n) (simp_all add: leaf_def)
          qed simp_all
        qed
      qed
    qed
  qed
qed

section \<open>Removal\<close>

lemma locate_Some:
  "locate i ctx n = Some (ctx', n') \<Longrightarrow> on_path ctx n
    \<Longrightarrow> on_path ctx' n' \<and> plug ctx' n' = plug ctx n \<and> n' \<noteq> PNull \<and> paddr n' = i"
proof (induction i ctx n rule: locate.induct)
  case (2 i ctx a b u p l r)
  let ?n = "PNode a b u p l r"
  show ?case
  proof (cases "a = i")
    case False
    show ?thesis
    proof (cases "locate i ((False, ?n) # ctx) l")
      case (Some x)
      with 2(1) [OF False] 2(3,4) False show ?thesis by (simp add: child_def)
    next
      case None
      with 2(2) [OF False None] 2(3,4) False show ?thesis by (simp add: child_def)
    qed
  qed (use 2(3,4) in auto)
qed simp

lemma locate_None: "locate i ctx n = None \<Longrightarrow> i \<notin> set (addrs n)"
  by (induction i ctx n rule: locate.induct) (auto split: if_splits option.splits)

lemma path_prefix:
  assumes "on_path ctx n" "n \<noteq> PNull" "distinct (addrs (plug ctx n))"
  shows "(paddr n, q) \<in> stored (plug ctx n) \<longleftrightarrow> pprefix n = Some q"
proof -
  note po = on_path_ok [OF assms(1)]
  obtain a b u p l r where n: "n = PNode a b u p l r" using assms(2) by (cases n) auto
  have "(a, q) \<notin> outside ctx" "(a, q) \<notin> stored l" "(a, q) \<notin> stored r"
    using addrs_disjoint [OF po assms(3)] outside_addrs [OF po, of a q] stored_addrs [of a q] n by auto
  then show ?thesis unfolding stored_plug [OF po] n by (auto split: option.splits)
qed

lemma locate_stored:
  assumes "pt_ok t" "(i, q) \<in> stored (head t)"
  shows "\<exists>ctx b u l r. locate i [] (head t) = Some (ctx, PNode i b u (Some q) l r)
    \<and> on_path ctx (PNode i b u (Some q) l r) \<and> plug ctx (PNode i b u (Some q) l r) = head t"
proof (cases "locate i [] (head t)")
  case None
  with locate_None stored_addrs [OF assms(2)] show ?thesis by blast
next
  case (Some x)
  obtain ctx n where x: "x = (ctx, n)" by (cases x)
  note l = locate_Some [OF Some [unfolded x] on_path.simps(1) [THEN iffD2, OF TrueI], simplified]
  have "pprefix n = Some q"
    using path_prefix [of ctx n q] l pt_okD(2) [OF assms(1)] assms(2) by simp
  with l Some x show ?thesis by (cases n) auto
qed

lemma node_prefix_stored: "pt_ok t \<Longrightarrow> (i, q) \<in> stored (head t) \<Longrightarrow> node_prefix t i = Some q"
  using locate_stored [of t i q] by (auto simp: node_prefix_def)

lemma node_prefix_Some: "pt_ok t \<Longrightarrow> node_prefix t i = Some q \<Longrightarrow> (i, q) \<in> stored (head t)"
proof -
  assume a: "pt_ok t" "node_prefix t i = Some q"
  then obtain ctx n where l: "locate i [] (head t) = Some (ctx, n)" "pprefix n = Some q"
    by (auto simp: node_prefix_def split: option.splits)
  note p = locate_Some [OF l(1) on_path.simps(1) [THEN iffD2, OF TrueI], simplified]
  then show ?thesis using path_prefix [of ctx n q] pt_okD(2) [OF a(1)] l(2) by simp
qed

text \<open>Taking addresses and at most one prefix out of a subtrie.\<close>

lemma shrink:
  assumes ok: "pt_ok t" and path: "on_path ctx n" "plug ctx n = head t" "n \<noteq> PNull"
    and n': "pwf (maxbits t) n'" "n' \<noteq> PNull" "pbit n \<le> pbit n'" "sins n' \<subseteq> sins n"
    and gone: "mset (addrs n) = mset (addrs n') + mset gone"
    and st: "stored n = insert (i, q) (stored n')" "(i, q) \<notin> stored n'" "i \<in> set (addrs n)"
  shows "pt_ok (t\<lparr>head := plug ctx n', num_active_node := num_active_node t - int (length gone)\<rparr>)
    \<and> stored (plug ctx n') = stored (head t) - {(i, q)}"
proof -
  note po = on_path_ok [OF path(1)]
  have wf: "pwf (maxbits t) (plug ctx n)" using ok path(2) by (simp add: pt_ok_def)
  have "\<forall>(d, f) \<in> set ctx. pbit f < pbit n' \<and> (\<forall>s \<in> {}. is_bit_set s (pbit f) = d \<and> (\<forall>x \<in> sins f \<union> {}. agree (pbit f) s x))"
    using path_bits [OF path(1) wf _ path(3)] n'(3) by fastforce
  from pwf_replace [OF path(1) wf n'(1,2) _ this] n'(4) have pw: "pwf (maxbits t) (plug ctx n')" by simp
  have m: "mset (addrs (head t)) = mset (addrs (plug ctx n') @ gone)"
    using gone by (simp add: path(2) [symmetric] addrs_plug [OF po])
  then have "distinct (addrs (plug ctx n') @ gone)"
    using mset_eq_imp_distinct_iff pt_okD(2) [OF ok] by blast
  moreover have "set (addrs (head t)) = set (addrs (plug ctx n')) \<union> set gone"
      "length (addrs (head t)) = length (addrs (plug ctx n')) + length gone"
    using mset_eq_setD [OF m] mset_eq_length [OF m] by simp_all
  moreover have "(i, q) \<notin> outside ctx"
    using outside_addrs [OF po, of i q] addrs_disjoint [OF po, of n] pt_okD(2) [OF ok] path(2) st(3) by auto
  moreover from this have "stored (plug ctx n') = stored (head t) - {(i, q)}"
    using st by (auto simp: path(2) [symmetric] stored_plug [OF po])
  ultimately show ?thesis using ok pw by (auto simp: pt_ok_def)
qed

lemma pwf_drop_child: "pwf m n \<Longrightarrow> n \<noteq> PNull \<Longrightarrow> pprefix n \<noteq> None \<Longrightarrow> pwf m (set_child d PNull n)"
  by (cases n) (auto simp: sins_node)

lemma stored_split: "n \<noteq> PNull \<Longrightarrow> stored n = own n \<union> stored (child d n) \<union> stored (child (\<not> d) n)"
  by (cases n) (auto simp: child_def)

lemma addrs_split: "n \<noteq> PNull \<Longrightarrow> mset (addrs n) = add_mset (paddr n) (mset (addrs (child d n)) + mset (addrs (child (\<not> d) n)))"
  by (cases n) (auto simp: child_def ac_simps)

lemma patricia_remove_ok:
  assumes ok: "pt_ok t" and st: "(i, q) \<in> stored (head t)"
  shows "\<exists>t'. patricia_remove t i = Some t' \<and> pt_ok t' \<and> maxbits t' = maxbits t \<and> stored (head t') = stored (head t) - {(i, q)}
    \<and> (\<forall>D. users_ok D (head t) \<longrightarrow> D i = 0 \<longrightarrow> users_ok D (head t')) \<and> next_node t' = next_node t"
proof -
  obtain ctx b u l r where loc: "locate i [] (head t) = Some (ctx, PNode i b u (Some q) l r)"
      and path: "on_path ctx (PNode i b u (Some q) l r)" "plug ctx (PNode i b u (Some q) l r) = head t"
    using locate_stored [OF ok st] by blast
  let ?n = "PNode i b u (Some q) l r"
  have wf: "pwf (maxbits t) (plug ctx ?n)" using ok path(2) by (simp add: pt_ok_def)
  have wn: "pwf (maxbits t) ?n" by (rule pwf_plug [OF path(1) wf])
  have ref: "\<not> \<not> deref_opt (Some q)" using pt_okD(5) [OF ok st] by (simp add: deref_opt_def patricia_deref_prefix_def Let_def)
  have dist: "i \<notin> set (addrs l)" "i \<notin> set (addrs r)"
    using addrs_disjoint [OF on_path_ok [OF path(1)], of ?n] pt_okD(2) [OF ok] path(2) by auto
  then have ni: "(i, q) \<notin> stored l" "(i, q) \<notin> stored r" using stored_addrs by blast+
  note unf = patricia_remove_def loc option.case prod.case pnode.case if_not_P [OF ref]
  note sh = shrink [OF ok path]
  have upd: "t\<lparr>head := h, num_active_node := num_active_node t\<rparr> = t\<lparr>head := h\<rparr>" for h
    by (cases t) simp
  have com: "t\<lparr>num_active_node := x, head := h\<rparr> = t\<lparr>head := h, num_active_node := x\<rparr>" for x h
    by (cases t) simp
  consider (two) "r \<noteq> PNull" "l \<noteq> PNull" | (leaf) "r = PNull" "l = PNull" | (one) "(r = PNull) \<noteq> (l = PNull)" by blast
  then show ?thesis
  proof cases
    case two
    let ?n' = "PNode i b u None l r"
    have "pwf (maxbits t) ?n'" using wn two by (auto simp: sins_node)
    from sh [OF _ this, where i = i and q = q and gone = "[]"] ni two path(2) upd
    have "pt_ok (t\<lparr>head := plug ctx ?n'\<rparr>) \<and> stored (plug ctx ?n') = stored (head t) - {(i, q)}"
      by (auto simp: sins_node)
    moreover have "patricia_remove t i = Some (t\<lparr>head := plug ctx ?n'\<rparr>)" unfolding unf using two by simp
    moreover have "users_ok D (plug ctx ?n')" if "users_ok D (head t)" "D i = 0" for D
      using users_plug [OF path(1), of D ?n'] that path(2) by simp
    ultimately show ?thesis by simp
  next
    case one
    define d where "d = (r \<noteq> PNull)"
    have c: "(if r \<noteq> PNull then r else l) = child d ?n" "child (\<not> d) ?n = PNull" "child d ?n \<noteq> PNull"
      using one by (auto simp: d_def child_def)
    have w: "pwf (maxbits t) (child d ?n)" "pbit ?n < pbit (child d ?n)"
      using pwf_child [OF wn] pwf_child_bit [OF wn c(3)] by simp_all
    have "stored ?n = insert (i, q) (stored (child d ?n))" "(i, q) \<notin> stored (child d ?n)"
      using stored_split [of ?n d] c(2) ni by (auto simp: child_def)
    then have "pt_ok (t\<lparr>head := plug ctx (child d ?n), num_active_node := num_active_node t - 1\<rparr>)
        \<and> stored (plug ctx (child d ?n)) = stored (head t) - {(i, q)}"
      using sh [OF _ w(1) c(3), where i = i and q = q and gone = "[i]"] w(2) path(2) addrs_split [of ?n d] c(2) sins_child [of ?n d] by simp
    moreover have "patricia_remove t i = Some (t\<lparr>num_active_node := num_active_node t - 1, head := plug ctx (child d ?n)\<rparr>)"
      unfolding unf Let_def c(1) using one by auto
    moreover have "users_ok D (plug ctx (child d ?n))" if D: "users_ok D (head t)" "D i = 0" for D
    proof -
      have u: "users_ok D ?n" using users_plug [OF path(1), of D] D path(2) by simp
      from users_child [OF u, of d] users_split [OF u, of d] c(2) D(2)
      have "users_ok D (child d ?n)" "users (child d ?n) = users ?n" by simp_all
      then show ?thesis using users_replace [OF path(1)] D path(2) by simp
    qed
    ultimately show ?thesis by (simp add: com)
  next
    case leaf
    then have n: "?n = PNode i b u (Some q) PNull PNull" by simp
    show ?thesis
    proof (cases ctx)
      case Nil
      then have h: "head t = ?n" using path(2) by simp
      have "patricia_remove t i = Some (t\<lparr>num_active_node := num_active_node t - 1, head := PNull\<rparr>)"
        unfolding unf using leaf Nil by simp
      moreover have "pt_ok (t\<lparr>num_active_node := num_active_node t - 1, head := PNull\<rparr>)"
        using ok h leaf by (simp add: pt_ok_def)
      ultimately show ?thesis using h leaf by auto
    next
      case (Cons e ctx')
      obtain d f where e: "e = (d, f)" by (cases e)
      have f: "f \<noteq> PNull" "child d f = ?n" "on_path ctx' f" "plug ctx' f = head t"
        using path Cons e by (simp_all add: set_child_same)
      have wff: "pwf (maxbits t) (plug ctx' f)" using wf path(2) f(4) by simp
      have wf': "pwf (maxbits t) f" by (rule pwf_plug [OF f(3) wff])
      have df: "distinct (addrs f)" using addrs_disjoint [OF on_path_ok [OF f(3)], of f] pt_okD(2) [OF ok] f(4) by simp
      have as: "mset (addrs f) = add_mset (paddr f) (add_mset i (mset (addrs (child (\<not> d) f))))"
        using addrs_split [OF f(1), of d] f(2) leaf by simp
      then have "distinct (paddr f # i # addrs (child (\<not> d) f))"
        using df mset_eq_imp_distinct_iff [of "addrs f" "paddr f # i # addrs (child (\<not> d) f)"] by simp
      then have nif: "i \<noteq> paddr f" "i \<notin> set (addrs (child (\<not> d) f))" by auto
      have i_in: "i \<in> set (addrs f)" using as by (metis insertCI set_mset_add_mset_insert set_mset_mset)
      have own: "(i, q) \<notin> own f" using nif(1) f(1) by (cases f) (auto split: option.splits)
      have oth: "(i, q) \<notin> stored (child (\<not> d) f)" using nif(2) stored_addrs by blast
      have stf: "stored f = insert (i, q) (own f \<union> stored (child (\<not> d) f))"
        using stored_split [OF f(1), of d] f(2) leaf by auto
      note sf = shrink [OF ok f(3,4,1)]
      show ?thesis
      proof (cases "pprefix f = None")
        case False
        let ?f' = "set_child d PNull f"
        have sf': "stored ?f' = own f \<union> stored (child (\<not> d) f)"
          using stored_split [OF set_child_simps(1) [OF f(1)], of d PNull d] f(1) by (cases f) (auto simp: child_def)
        have af': "mset (addrs ?f') = add_mset (paddr f) (mset (addrs (child (\<not> d) f)))"
          using f(1) by (cases f) (auto simp: child_def)
        have "sins ?f' \<subseteq> sins f" using stf sf' by (auto simp: sins_def)
        then have "pt_ok (t\<lparr>head := plug ctx' ?f', num_active_node := num_active_node t - 1\<rparr>)
            \<and> stored (plug ctx' ?f') = stored (head t) - {(i, q)}"
          using sf [OF pwf_drop_child [OF wf' f(1) False, of d], where i = i and q = q and gone = "[i]"] f(1) as af' stf sf' own oth i_in by simp
        moreover have "patricia_remove t i = Some (t\<lparr>num_active_node := num_active_node t - 1, head := plug ctx' ?f'\<rparr>)"
          unfolding unf using leaf Cons e False by simp
        moreover have "users_ok D (plug ctx' ?f')" if D: "users_ok D (head t)" "D i = 0" for D
        proof -
          have u: "users_ok D f" using users_plug [OF f(3), of D] D f(4) by simp
          have "users_ok D ?n" using users_child [OF u f(1), of d] f(2) by simp
          then have "users ?n = 0" using D(2) leaf by simp
          then have "users_ok D ?f' \<and> users ?f' = users f"
            using users_set_child [OF u f(1), of PNull d] f(2) by simp
          then show ?thesis using users_plug [OF f(3), of D ?f'] D f(4) by simp
        qed
        ultimately show ?thesis by (simp add: com)
      next
        case True
        let ?o = "child (\<not> d) f"
        have o: "?o \<noteq> PNull" using wf' True unfolding pwf_unfold [OF f(1)] by simp
        have "own f = {}" using True f(1) by (cases f) auto
        then have "pt_ok (t\<lparr>head := plug ctx' ?o, num_active_node := num_active_node t - 2\<rparr>)
            \<and> stored (plug ctx' ?o) = stored (head t) - {(i, q)}"
          using sf [OF pwf_child [OF wf' f(1)] o, where i = i and q = q and gone = "[paddr f, i]"] pwf_child_bit [OF wf' o f(1)]
            sins_child [OF f(1)] as stf oth i_in by simp
        moreover have "patricia_remove t i = Some (t\<lparr>num_active_node := num_active_node t - 1 - 1, head := plug ctx' ?o\<rparr>)"
          unfolding unf using leaf Cons e True o by (simp add: Let_def)
        moreover have "users_ok D (plug ctx' ?o)" if D: "users_ok D (head t)" "D i = 0" for D
        proof -
          have u: "users_ok D f" using users_plug [OF f(3), of D] D f(4) by simp
          have "users_ok D ?n" using users_child [OF u f(1), of d] f(2) by simp
          then have "users ?n = 0" using D(2) leaf by simp
          moreover have "D (paddr f) = 0" using u True f(1) by (cases f) auto
          ultimately have "users_ok D ?o \<and> users ?o = users f"
            using users_split [OF u f(1), of d] users_child [OF u f(1)] f(2) by simp
          then show ?thesis using users_plug [OF f(3), of D ?o] D f(4) by simp
        qed
        ultimately show ?thesis by (simp add: com)
      qed
    qed
  qed
qed

section \<open>Reference counts\<close>

lemma write_prefix_ok:
  assumes ok: "pt_ok t" and st: "(i, p) \<in> stored (head t)"
    and q: "bitlen q = bitlen p" "sin q = sin p" "ref_count q > 0"
  shows "pt_ok (write_prefix t i (Some q)) \<and> maxbits (write_prefix t i (Some q)) = maxbits t
    \<and> stored (head (write_prefix t i (Some q))) = insert (i, q) (stored (head t) - {(i, p)})
    \<and> (\<forall>D. users_ok D (head t) \<longrightarrow> users_ok D (head (write_prefix t i (Some q))))
    \<and> next_node (write_prefix t i (Some q)) = next_node t"
proof -
  obtain ctx b u l r where loc: "locate i [] (head t) = Some (ctx, PNode i b u (Some p) l r)"
      and path: "on_path ctx (PNode i b u (Some p) l r)" "plug ctx (PNode i b u (Some p) l r) = head t"
    using locate_stored [OF ok st] by blast
  let ?n = "PNode i b u (Some p) l r" and ?n' = "PNode i b u (Some q) l r"
  note po = on_path_ok [OF path(1)]
  have wf: "pwf (maxbits t) (plug ctx ?n)" using ok path(2) by (simp add: pt_ok_def)
  have wn: "pwf (maxbits t) ?n" by (rule pwf_plug [OF path(1) wf])
  have S: "sins ?n' = sins ?n" by (simp add: sins_node q)
  have "pwf (maxbits t) ?n'" using wn q(1) unfolding pwf.simps S by simp
  moreover have "\<forall>(d, f) \<in> set ctx. pbit f < pbit ?n' \<and> (\<forall>s \<in> {}. is_bit_set s (pbit f) = d \<and> (\<forall>x \<in> sins f \<union> {}. agree (pbit f) s x))"
    using path_bits [OF path(1) wf] by fastforce
  ultimately have pw: "pwf (maxbits t) (plug ctx ?n')"
    using pwf_replace [OF path(1) wf, of ?n' "{}"] S by simp
  have m: "mset (addrs (plug ctx ?n')) = mset (addrs (head t))"
    by (simp add: path(2) [symmetric] addrs_plug [OF po])
  have no: "(i, p) \<notin> outside ctx" "(i, p) \<notin> stored l" "(i, p) \<notin> stored r"
    using addrs_disjoint [OF po, of ?n] pt_okD(2) [OF ok] path(2) outside_addrs [OF po, of i p] stored_addrs [of i p]
    by auto
  have sth: "stored (head t) = outside ctx \<union> stored ?n" by (simp add: path(2) [symmetric] stored_plug [OF po])
  then have sst: "stored (plug ctx ?n') = insert (i, q) (stored (head t) - {(i, p)})"
    using no by (auto simp: stored_plug [OF po])
  have w: "write_prefix t i (Some q) = t\<lparr>head := plug ctx ?n'\<rparr>" using loc by (simp add: write_prefix_def)
  have "\<forall>x \<in> stored (plug ctx ?n'). ref_count (snd x) > 0" unfolding sst using q(3) pt_okD(5) [OF ok] by auto
  moreover have "set (addrs (plug ctx ?n')) = set (addrs (head t))" "length (addrs (plug ctx ?n')) = length (addrs (head t))"
      "distinct (addrs (plug ctx ?n'))"
    using mset_eq_setD [OF m] mset_eq_length [OF m] mset_eq_imp_distinct_iff [OF m] pt_okD(2) [OF ok] by simp_all
  ultimately have "pt_ok (t\<lparr>head := plug ctx ?n'\<rparr>)" using ok pw by (simp add: pt_ok_def)
  moreover have "users_ok D (plug ctx ?n')" if "users_ok D (head t)" for D
    using users_plug [OF path(1), of D ?n'] that path(2) by simp
  ultimately show ?thesis unfolding w using sst by simp
qed

definition refs :: "ptree \<Rightarrow> nat \<Rightarrow> irc_in_addr \<Rightarrow> int" where
  "refs t len s =
     (case patricia_search_exact t s len of
        Some (Some i) \<Rightarrow> (case node_prefix t i of None \<Rightarrow> 0 | Some q \<Rightarrow> ref_count q)
      | _ \<Rightarrow> 0)"

lemma search_exact_covered:
  assumes "pt_ok t" "len \<le> maxbits t"
  shows "covered t len s (i, q) \<Longrightarrow> patricia_search_exact t s len = Some (Some i)"
    and "\<not> (\<exists>x. covered t len s x) \<Longrightarrow> patricia_search_exact t s len = Some None"
  using search_exact_spec [OF pt_okD(1) [OF assms(1)] assms(2), of s]
  by (auto simp: covered_def) (metis option.exhaust)

lemma refs_covered:
  assumes "pt_ok t"
  shows "covered t len s (i, q) \<Longrightarrow> refs t len s = ref_count q"
    and "\<not> (\<exists>x. covered t len s x) \<Longrightarrow> refs t len s = 0"
proof -
  show "refs t len s = ref_count q" if "covered t len s (i, q)"
  proof -
    have "len \<le> maxbits t" using that stored_bits [OF pt_okD(1) [OF assms], of i q] by (auto simp: covered_def)
    from search_exact_covered(1) [OF assms this that] show ?thesis
      using node_prefix_stored [OF assms, of i q] that by (simp add: refs_def covered_def)
  qed
  show "refs t len s = 0" if "\<not> (\<exists>x. covered t len s x)"
  proof (cases "len \<le> maxbits t")
    case True
    from search_exact_covered(2) [OF assms this that] show ?thesis by (simp add: refs_def)
  next
    case False
    then show ?thesis by (simp add: refs_def patricia_search_exact_def)
  qed
qed

text \<open>Changing the entry of one prefix changes its count only.\<close>

definition same_key :: "nat \<Rightarrow> irc_in_addr \<Rightarrow> nat \<Rightarrow> irc_in_addr \<Rightarrow> bool" where
  "same_key len s n x \<longleftrightarrow> n = len \<and> agree len x s"

lemma refs_change:
  assumes ok: "pt_ok t" "pt_ok t'"
    and st: "stored (head t') - A = stored (head t) - B"
    and A: "\<forall>x \<in> A \<union> B. bitlen (snd x) = len \<and> agree len (sin (snd x)) s"
    and new: "(\<exists>x \<in> A. covered t' len s x \<and> ref_count (snd x) = k) \<or> (stored (head t') \<inter> A = {} \<and> k = 0
      \<and> \<not> (\<exists>x. covered t' len s x))"
  shows "refs t' n x = (if same_key len s n x then k else refs t n x)"
proof (cases "same_key len s n x")
  case True
  then have c: "covered t' n x = covered t' len s"
    by (auto simp: covered_def same_key_def agree_def fun_eq_iff)
  from new show ?thesis
  proof
    assume "\<exists>x \<in> A. covered t' len s x \<and> ref_count (snd x) = k"
    then obtain i q where "covered t' len s (i, q)" "ref_count q = k" by auto
    with refs_covered(1) [OF ok(2), of n x i q] c True show ?thesis by simp
  next
    assume "stored (head t') \<inter> A = {} \<and> k = 0 \<and> \<not> (\<exists>x. covered t' len s x)"
    with refs_covered(2) [OF ok(2), of n x] c True show ?thesis by simp
  qed
next
  case False
  have "y \<notin> A \<union> B" if "covered u n x y" for u y
    using that A False by (auto simp: covered_def same_key_def agree_def)
  moreover have "y \<in> stored (head t') \<longleftrightarrow> y \<in> stored (head t)" if "y \<notin> A \<union> B" for y
  proof -
    have "y \<in> stored (head t') - A \<longleftrightarrow> y \<in> stored (head t) - B" using st by simp
    with that show ?thesis by simp
  qed
  ultimately have "covered t' n x y = covered t n x y" for y
    unfolding covered_def by blast
  then have "covered t' n x = covered t n x" by (rule ext)
  with False show ?thesis
    using refs_covered [OF ok(1), of n x] refs_covered [OF ok(2), of n x] by (metis prod.exhaust)
qed

lemma refnode_ok:
  assumes ok: "pt_ok t" and len: "0 \<le> len" "nat len \<le> maxbits t"
  shows "\<exists>i t' q. refnode t s len = Some (i, t') \<and> pt_ok t' \<and> maxbits t' = maxbits t
    \<and> covered t' (nat len) s (i, q)
    \<and> (\<forall>j n x p. covered t n x (j, p) \<longrightarrow> (\<exists>p. covered t' n x (j, p)))
    \<and> (\<forall>D. users_ok D (head t) \<longrightarrow> (\<forall>a \<ge> next_node t. D a = 0) \<longrightarrow> users_ok D (head t'))
    \<and> (\<forall>n x. refs t' n x = (if same_key (nat len) s n x then refs t (nat len) s + 1 else refs t n x))"
proof -
  have l128: "nat len \<le> 128" using ok len by (simp add: pt_ok_def PATRICIA_MAXBITS_def)
  then have b: "nat (len mod 256) = nat len" using len by simp
  show ?thesis
  proof (cases "\<exists>x. covered t (nat len) s x")
    case True
    then obtain i p where c: "covered t (nat len) s (i, p)" by auto
    let ?q = "p\<lparr>ref_count := ref_count p + 1\<rparr>"
    have st: "(i, p) \<in> stored (head t)" "bitlen p = nat len" "agree (nat len) (sin p) s" using c by (simp_all add: covered_def)
    have rp: "ref_count p > 0" using pt_okD(5) [OF ok st(1)] by simp
    have r: "refnode t s len = Some (i, write_prefix t i (Some ?q))"
      using search_exact_covered(1) [OF ok len(2) c] node_prefix_stored [OF ok st(1)] rp
      by (simp add: refnode_def b patricia_ref_prefix_def Let_def)
    note w = write_prefix_ok [OF ok st(1), of ?q, simplified]
    have cov: "covered (write_prefix t i (Some ?q)) (nat len) s (i, ?q)" using w rp st by (simp add: covered_def)
    have "refs (write_prefix t i (Some ?q)) n x
        = (if same_key (nat len) s n x then refs t (nat len) s + 1 else refs t n x)" for n x
    proof (rule refs_change [where A = "{(i, ?q)}" and B = "{(i, p), (i, ?q)}"])
      show "(\<exists>y \<in> {(i, ?q)}. covered (write_prefix t i (Some ?q)) (nat len) s y \<and> ref_count (snd y) = refs t (nat len) s + 1)
          \<or> stored (head (write_prefix t i (Some ?q))) \<inter> {(i, ?q)} = {} \<and> refs t (nat len) s + 1 = 0
            \<and> \<not> (\<exists>x. covered (write_prefix t i (Some ?q)) (nat len) s x)"
        using cov refs_covered(1) [OF ok c] by simp
      show "stored (head (write_prefix t i (Some ?q))) - {(i, ?q)} = stored (head t) - {(i, p), (i, ?q)}"
        using w rp by auto
      show "\<forall>x \<in> {(i, ?q)} \<union> {(i, p), (i, ?q)}. bitlen (snd x) = nat len \<and> agree (nat len) (sin (snd x)) s"
        using st by simp
    qed (use ok w rp in simp_all)
    moreover have "\<exists>y. covered (write_prefix t i (Some ?q)) n x (j, y)" if "covered t n x (j, y)" for j n x y
      using that w rp by (cases "(j, y) = (i, p)") (auto simp: covered_def)
    ultimately show ?thesis using r cov w rp by auto
  next
    case False
    let ?p = "patricia_new_prefix s len"
    let ?q = "?p\<lparr>ref_count := 2\<rparr>" and ?q1 = "?p\<lparr>ref_count := 1\<rparr>"
    have np: "bitlen ?p = nat len" "sin ?p = s" "ref_count ?p = 1"
      using len l128 by (simp_all add: patricia_new_prefix_def)
    obtain i t1 where lk: "patricia_lookup t ?p = Some (i, t1, ?q)" "pt_ok t1" "maxbits t1 = maxbits t"
        "stored (head t1) = insert (i, ?q) (stored (head t))" "i \<notin> fst ` stored (head t)"
        "\<And>D. users_ok D (head t) \<Longrightarrow> (\<forall>a \<ge> next_node t. D a = 0) \<Longrightarrow> users_ok D (head t1)"
      using patricia_lookup_ok [OF ok, of ?p] np len(2) False by auto
    let ?t' = "write_prefix t1 i (Some ?q1)"
    have r: "refnode t s len = Some (i, ?t')"
      using search_exact_covered(2) [OF ok len(2) False] lk(1)
      by (simp add: refnode_def b patricia_deref_prefix_def Let_def)
    note w = write_prefix_ok [OF lk(2), of i ?q ?q1, simplified]
    have st: "(i, ?q) \<in> stored (head t1)" using lk(4) by simp
    have "(i, ?q) \<notin> stored (head t)" using lk(5) by force
    with w [OF st] lk(4) have st': "stored (head ?t') = insert (i, ?q1) (stored (head t))" by auto
    have cov: "covered ?t' (nat len) s (i, ?q1)" using st' np by (simp add: covered_def)
    have "refs ?t' n x = (if same_key (nat len) s n x then refs t (nat len) s + 1 else refs t n x)" for n x
    proof (rule refs_change [where A = "{(i, ?q1)}" and B = "{(i, ?q1)}"])
      show "(\<exists>y \<in> {(i, ?q1)}. covered ?t' (nat len) s y \<and> ref_count (snd y) = refs t (nat len) s + 1)
          \<or> stored (head ?t') \<inter> {(i, ?q1)} = {} \<and> refs t (nat len) s + 1 = 0 \<and> \<not> (\<exists>x. covered ?t' (nat len) s x)"
        using cov refs_covered(2) [OF ok False] by simp
      show "stored (head ?t') - {(i, ?q1)} = stored (head t) - {(i, ?q1)}" using st' by auto
      show "\<forall>x \<in> {(i, ?q1)} \<union> {(i, ?q1)}. bitlen (snd x) = nat len \<and> agree (nat len) (sin (snd x)) s"
        using np by simp
    qed (use ok w [OF st] in simp_all)
    moreover have "\<exists>y. covered ?t' n x (j, y)" if "covered t n x (j, y)" for j n x y
      using that st' by (auto simp: covered_def)
    moreover have "users_ok D (head ?t')" if "users_ok D (head t)" "\<forall>a \<ge> next_node t. D a = 0" for D
      using w [OF st] lk(6) [OF that] by simp
    ultimately show ?thesis using r cov w [OF st] lk(3) by auto
  qed
qed

lemma derefnode_ok:
  assumes ok: "pt_ok t" and c: "covered t len s (i, q)"
  shows "\<exists>t'. derefnode t i = Some t' \<and> pt_ok t' \<and> maxbits t' = maxbits t
    \<and> (\<forall>j n x p. covered t n x (j, p) \<longrightarrow> j \<noteq> i \<or> ref_count q > 1 \<longrightarrow> (\<exists>p. covered t' n x (j, p)))
    \<and> (\<forall>D. users_ok D (head t) \<longrightarrow> D i = 0 \<or> ref_count q > 1 \<longrightarrow> users_ok D (head t'))
    \<and> (\<forall>n x. refs t' n x = (if same_key len s n x then refs t len s - 1 else refs t n x))"
proof -
  have st: "(i, q) \<in> stored (head t)" "bitlen q = len" "agree len (sin q) s" using c by (simp_all add: covered_def)
  have rq: "ref_count q > 0" using pt_okD(5) [OF ok st(1)] by simp
  note np = node_prefix_stored [OF ok st(1)]
  have rc: "refs t len s = ref_count q" by (rule refs_covered(1) [OF ok c])
  show ?thesis
  proof (cases "ref_count q = 1")
    case True
    obtain t' where t': "patricia_remove t i = Some t'" "pt_ok t'" "maxbits t' = maxbits t"
        "stored (head t') = stored (head t) - {(i, q)}"
        "\<And>D. users_ok D (head t) \<Longrightarrow> D i = 0 \<Longrightarrow> users_ok D (head t')"
      using patricia_remove_ok [OF ok st(1)] by blast
    have no: "\<not> (\<exists>x. covered t' len s x)"
    proof
      assume "\<exists>x. covered t' len s x"
      then obtain x where x: "covered t' len s x" by blast
      then have "covered t len s x" "x \<noteq> (i, q)" using t'(4) by (auto simp: covered_def)
      with covered_unique [OF ok c] show False by blast
    qed
    have "refs t' n x = (if same_key len s n x then 0 else refs t n x)" for n x
    proof (rule refs_change [where A = "{(i, q)}" and B = "{(i, q)}"])
      show "(\<exists>y \<in> {(i, q)}. covered t' len s y \<and> ref_count (snd y) = 0)
          \<or> stored (head t') \<inter> {(i, q)} = {} \<and> (0 :: int) = 0 \<and> \<not> (\<exists>x. covered t' len s x)"
        using no t'(4) by simp
      show "stored (head t') - {(i, q)} = stored (head t) - {(i, q)}" using t'(4) by auto
      show "\<forall>x \<in> {(i, q)} \<union> {(i, q)}. bitlen (snd x) = len \<and> agree len (sin (snd x)) s" using st by simp
    qed (use ok t' in simp_all)
    moreover have "\<exists>y. covered t' n x (j, y)" if "covered t n x (j, y)" "j \<noteq> i" for j n x y
      using that t'(4) by (auto simp: covered_def)
    moreover have "derefnode t i = Some t'" using t'(1) np True by (simp add: derefnode_def)
    ultimately show ?thesis using t'(2,3,5) True rc by auto
  next
    case False
    let ?q = "q\<lparr>ref_count := ref_count q - 1\<rparr>"
    have d: "derefnode t i = Some (write_prefix t i (Some ?q))"
      using np False rq by (simp add: derefnode_def patricia_deref_prefix_def Let_def)
    note w = write_prefix_ok [OF ok st(1), of ?q, simplified]
    have "ref_count q > 1" using False rq by simp
    note w = w [OF this]
    have cov: "covered (write_prefix t i (Some ?q)) len s (i, ?q)" using w st by (simp add: covered_def)
    have "refs (write_prefix t i (Some ?q)) n x = (if same_key len s n x then refs t len s - 1 else refs t n x)" for n x
    proof (rule refs_change [where A = "{(i, ?q)}" and B = "{(i, q), (i, ?q)}"])
      show "(\<exists>y \<in> {(i, ?q)}. covered (write_prefix t i (Some ?q)) len s y \<and> ref_count (snd y) = refs t len s - 1)
          \<or> stored (head (write_prefix t i (Some ?q))) \<inter> {(i, ?q)} = {} \<and> refs t len s - 1 = 0
            \<and> \<not> (\<exists>x. covered (write_prefix t i (Some ?q)) len s x)"
        using cov rc by simp
      show "stored (head (write_prefix t i (Some ?q))) - {(i, ?q)} = stored (head t) - {(i, q), (i, ?q)}"
        using w by auto
      show "\<forall>x \<in> {(i, ?q)} \<union> {(i, q), (i, ?q)}. bitlen (snd x) = len \<and> agree len (sin (snd x)) s"
        using st by simp
    qed (use ok w in simp_all)
    moreover have "\<exists>y. covered (write_prefix t i (Some ?q)) n x (j, y)" if "covered t n x (j, y)" for j n x y
      using that w by (cases "(j, y) = (i, q)") (auto simp: covered_def)
    ultimately show ?thesis using d w by blast
  qed
qed

end
