(* ===== verification/TrieCounts.thy ===== *)
theory TrieCounts
  imports Patricia
begin

text \<open>
  What the clients of the trie see: a reference count for every prefix, the longest match
  among the prefixes that are referenced, and user counts that are sums over subtries.
\<close>

section \<open>The trie as reference counts\<close>

text \<open>
  A client takes references to prefixes and gives them back; it gives back the node that
  it got, which is the one an exact search finds.
\<close>

datatype trie_op = Ref irc_in_addr nat | Deref irc_in_addr nat

fun trie_step :: "ptree \<Rightarrow> trie_op \<Rightarrow> ptree" where
  "trie_step t (Ref s len) = (case refnode t s (int len) of None \<Rightarrow> t | Some (_, t') \<Rightarrow> t')"
| "trie_step t (Deref s len) =
     (case patricia_search_exact t s len of
        Some (Some i) \<Rightarrow> (case derefnode t i of None \<Rightarrow> t | Some t' \<Rightarrow> t')
      | _ \<Rightarrow> t)"

fun count_step :: "(nat \<Rightarrow> irc_in_addr \<Rightarrow> int) \<Rightarrow> trie_op \<Rightarrow> (nat \<Rightarrow> irc_in_addr \<Rightarrow> int)" where
  "count_step R (Ref s len) = (\<lambda>n x. if same_key len s n x then R len s + 1 else R n x)"
| "count_step R (Deref s len) = (\<lambda>n x. if same_key len s n x \<and> R len s > 0 then R len s - 1 else R n x)"

fun op_len :: "trie_op \<Rightarrow> nat" where
  "op_len (Ref s len) = len" | "op_len (Deref s len) = len"

definition iptree_ok :: "ptree \<Rightarrow> bool" where
  "iptree_ok t \<longleftrightarrow> pt_ok t \<and> maxbits t = PATRICIA_MAXBITS"

interpretation trie: refinement iptree_ok refs trie_step count_step "\<lambda>op. op_len op \<le> PATRICIA_MAXBITS"
proof -
  have "iptree_ok (trie_step t op) \<and> refs (trie_step t op) = count_step (refs t) op"
    if ok: "iptree_ok t" and l: "op_len op \<le> PATRICIA_MAXBITS" for t op
  proof (cases op)
    case (Ref s len)
    have "pt_ok t" "nat (int len) \<le> maxbits t" using ok l Ref by (simp_all add: iptree_ok_def)
    then obtain i t' where "refnode t s (int len) = Some (i, t')" "pt_ok t'" "maxbits t' = maxbits t"
        "\<forall>n x. refs t' n x = (if same_key len s n x then refs t len s + 1 else refs t n x)"
      using refnode_ok [of t "int len" s] by auto
    with ok Ref show ?thesis by (auto simp: iptree_ok_def fun_eq_iff)
  next
    case (Deref s len)
    have p: "pt_ok t" "len \<le> maxbits t" using ok l Deref by (simp_all add: iptree_ok_def)
    show ?thesis
    proof (cases "\<exists>x. covered t len s x")
      case True
      then obtain i q where c: "covered t len s (i, q)" by auto
      obtain t' where "derefnode t i = Some t'" "pt_ok t'" "maxbits t' = maxbits t"
          "\<forall>n x. refs t' n x = (if same_key len s n x then refs t len s - 1 else refs t n x)"
        using derefnode_ok [OF p(1) c] by auto
      moreover have "refs t len s > 0"
        using refs_covered(1) [OF p(1) c] pt_okD(5) [OF p(1), of "(i, q)"] c by (simp add: covered_def)
      ultimately show ?thesis
        using ok Deref search_exact_covered(1) [OF p c] by (auto simp: iptree_ok_def fun_eq_iff)
    next
      case False
      have "refs t len s = 0" using refs_covered(2) [OF p(1) False] .
      then have "count_step (refs t) (Deref s len) = refs t" by (auto simp: fun_eq_iff)
      with ok Deref search_exact_covered(2) [OF p False] show ?thesis by simp
    qed
  qed
  then show "refinement iptree_ok refs trie_step count_step (\<lambda>op. op_len op \<le> PATRICIA_MAXBITS)"
    by unfold_locales blast+
qed

definition empty_trie :: ptree where
  "empty_trie = \<lparr>head = PNull, maxbits = PATRICIA_MAXBITS, num_active_node = 0, next_node = 0\<rparr>"

lemma new_tree: "patricia_new_tree PATRICIA_MAXBITS = Some empty_trie"
  by (simp add: patricia_new_tree_def empty_trie_def)

lemma empty_trie_ok: "iptree_ok empty_trie"
  by (simp add: iptree_ok_def pt_ok_def empty_trie_def)

lemma empty_trie_refs: "refs empty_trie = (\<lambda>_ _. 0)"
  by (auto simp: fun_eq_iff empty_trie_def refs_def patricia_search_exact_def)

lemma refs_pos:
  assumes "pt_ok t"
  shows "refs t n s > 0 \<longleftrightarrow> (\<exists>x. covered t n s x)"
  using refs_covered [OF assms, of n s] pt_okD(5) [OF assms] by (force simp: covered_def)

text \<open>
  C6: after any sequence of \<open>refnode\<close> and \<open>derefnode\<close> with prefix lengths up to 128 the trie
  holds for every prefix, whatever its bits beyond the length, exactly the number of
  references taken and not given back, no assertion fails, and an exact search finds a node
  exactly for the prefixes with a positive count.
\<close>

theorem trie_refines_refcounts:
  assumes "list_all (\<lambda>op. op_len op \<le> PATRICIA_MAXBITS) ops" "len \<le> PATRICIA_MAXBITS"
  shows "refs (foldl trie_step empty_trie ops) = foldl count_step (\<lambda>_ _. 0) ops
    \<and> (\<exists>r. patricia_search_exact (foldl trie_step empty_trie ops) s len = Some r
        \<and> (r \<noteq> None \<longleftrightarrow> foldl count_step (\<lambda>_ _. 0) ops len s > 0))"
proof -
  let ?t = "foldl trie_step empty_trie ops"
  have ok: "pt_ok ?t" "len \<le> maxbits ?t"
    using trie.run_inv [OF empty_trie_ok assms(1)] assms(2) by (simp_all add: iptree_ok_def)
  have r: "refs ?t = foldl count_step (\<lambda>_ _. 0) ops"
    using trie.run_absf [OF empty_trie_ok assms(1)] unfolding empty_trie_refs .
  show ?thesis
  proof (cases "\<exists>x. covered ?t len s x")
    case True
    then obtain i q where "covered ?t len s (i, q)" by auto
    with search_exact_covered(1) [OF ok this] refs_pos [OF ok(1), of len s] r True show ?thesis by simp
  next
    case False
    with search_exact_covered(2) [OF ok False] refs_pos [OF ok(1), of len s] r show ?thesis by simp
  qed
qed

lemma trie_refines_refcounts_witness:
  "refs (foldl trie_step empty_trie [Ref zero_addr 24, Ref zero_addr 16, Ref zero_addr 24, Deref zero_addr 16]) 24 zero_addr = 2"
proof -
  let ?ops = "[Ref zero_addr 24, Ref zero_addr 16, Ref zero_addr 24, Deref zero_addr 16]"
  have "list_all (\<lambda>op. op_len op \<le> PATRICIA_MAXBITS) ?ops" by (simp add: PATRICIA_MAXBITS_def)
  from trie_refines_refcounts [OF this, of 0 zero_addr] show ?thesis by (simp add: same_key_def)
qed



text \<open>
  An inclusive search ends at a node that can be longer than the prefix asked for, and
  returns it: of a trie that holds the first 120 bits only, the best match for 104 bits is
  the prefix of 120.
\<close>

lemma search_best_longer:
  "map_option (map_option (\<lambda>(i, q). bitlen q))
     (patricia_search_best (trie_step empty_trie (Ref zero_addr 120)) zero_addr 104) = Some (Some 120)"
proof -
  have "trie_step empty_trie (Ref zero_addr 120) = \<lparr>head = PNode 0 120 0 (Some \<lparr>bitlen = 120, ref_count = 1, sin = zero_addr\<rparr>) PNull PNull,
      maxbits = PATRICIA_MAXBITS, num_active_node = 1, next_node = 1\<rparr>"
    by (simp add: refnode_def patricia_search_exact_def patricia_lookup_def patricia_new_prefix_def patricia_ref_prefix_def
        patricia_deref_prefix_def patricia_new_node_def empty_trie_def write_prefix_def PATRICIA_MAXBITS_def Let_def)
  then show ?thesis
    by (simp add: patricia_search_best_def patricia_search_best2_def PATRICIA_MAXBITS_def comp_with_mask_agree)
qed

section \<open>Walks\<close>














end
