(* ===== verification/TrieUsers.thy ===== *)
theory TrieUsers
  imports TrieCounts
begin

text \<open>
  The users at the nodes of the address trie: \<open>nick/nickhandlers.c\<close> takes a reference and
  counts the user up when a nick appears, \<open>nick/nick.c\<close> counts it down and gives the
  reference back when it leaves, and other modules (trusts, proxyscan, whowas) take and give
  references in between. Shown: no step fails, and the count that a module reads at a node
  is the number of users inside its prefix.
\<close>

section \<open>Users that come and go\<close>

definition user_on :: "irc_in_addr \<Rightarrow> ptree \<Rightarrow> (nat \<times> ptree) option" where
  "user_on s t =
     (case refnode t s (int PATRICIA_MAXBITS) of
        None \<Rightarrow> None | Some (i, t') \<Rightarrow> Some (i, node_increment_usercount t' i))"

definition user_off :: "nat \<Rightarrow> ptree \<Rightarrow> ptree option" where
  "user_off i t = derefnode (node_decrement_usercount t i) i"

definition node_usercount :: "ptree \<Rightarrow> nat \<Rightarrow> int" where
  "node_usercount t i = (case locate i [] (head t) of None \<Rightarrow> 0 | Some (_, n) \<Rightarrow> usercount n)"

text \<open>
  The trie with the users (address and node) and the references of other modules (address,
  length and node); they are given back by their position.
\<close>

record world =
  tree :: ptree
  online :: "(irc_in_addr \<times> nat) list"
  held :: "(irc_in_addr \<times> nat \<times> nat) list"

datatype world_op = On irc_in_addr | Off nat | Hold irc_in_addr nat | Release nat

definition drop_nth :: "nat \<Rightarrow> 'a list \<Rightarrow> 'a list" where
  "drop_nth k xs = take k xs @ drop (Suc k) xs"

fun world_step :: "world \<Rightarrow> world_op \<Rightarrow> world option" where
  "world_step w (On s) =
     map_option (\<lambda>(i, t). w\<lparr>tree := t, online := (s, i) # online w\<rparr>) (user_on s (tree w))"
| "world_step w (Off k) =
     (if k < length (online w)
      then map_option (\<lambda>t. w\<lparr>tree := t, online := drop_nth k (online w)\<rparr>) (user_off (snd (online w ! k)) (tree w))
      else Some w)"
| "world_step w (Hold s len) =
     map_option (\<lambda>(i, t). w\<lparr>tree := t, held := (s, len, i) # held w\<rparr>) (refnode (tree w) s (int len))"
| "world_step w (Release k) =
     (if k < length (held w)
      then map_option (\<lambda>t. w\<lparr>tree := t, held := drop_nth k (held w)\<rparr>) (derefnode (tree w) (snd (snd (held w ! k))))
      else Some w)"

fun world_run :: "world \<Rightarrow> world_op list \<Rightarrow> world option" where
  "world_run w [] = Some w"
| "world_run w (op # ops) = (case world_step w op of None \<Rightarrow> None | Some w' \<Rightarrow> world_run w' ops)"

fun hold_fits :: "world_op \<Rightarrow> bool" where
  "hold_fits (Hold s len) \<longleftrightarrow> len \<le> PATRICIA_MAXBITS"
| "hold_fits op \<longleftrightarrow> True"

definition empty_world :: world where
  "empty_world = \<lparr>tree = empty_trie, online = [], held = []\<rparr>"

section \<open>Counting up and down\<close>

text \<open>A trie without its counts.\<close>

fun strip :: "pnode \<Rightarrow> pnode" where
  "strip PNull = PNull"
| "strip (PNode a b u p l r) = PNode a b 0 p (strip l) (strip r)"

lemma strip_PNull [simp]: "strip n = PNull \<longleftrightarrow> n = PNull" "PNull = strip n \<longleftrightarrow> n = PNull"
  by (cases n; simp)+

lemma strip_stored [simp]: "stored (strip n) = stored n"
  by (induction n) auto

lemma strip_addrs [simp]: "addrs (strip n) = addrs n"
  by (induction n) auto

lemma strip_sins [simp]: "sins (strip n) = sins n"
  by (simp add: sins_def)

lemma strip_pbit [simp]: "n \<noteq> PNull \<Longrightarrow> pbit (strip n) = pbit n"
  by (cases n) auto

lemma strip_pwf [simp]: "pwf m (strip n) = pwf m n"
proof (induction n)
  case (PNode a b u p l r)
  have "sins (PNode a b 0 p (strip l) (strip r)) = sins (PNode a b u p l r)" by (simp add: sins_node)
  with PNode show ?case by (auto split: option.splits)
qed simp

lemma strip_set_child: "strip (set_child d c f) = set_child d (strip c) (strip f)"
  by (cases f) auto

lemma strip_add_users [simp]: "strip (add_users k n) = strip n"
  by (cases n) auto

definition bump :: "int \<Rightarrow> trail \<Rightarrow> trail" where
  "bump k ctx = map (\<lambda>(d, f). (d, add_users k f)) ctx"

lemma strip_bump: "strip n' = strip n \<Longrightarrow> strip (plug (bump k ctx) n') = strip (plug ctx n)"
  by (induction ctx n arbitrary: n' rule: plug.induct) (auto simp: bump_def strip_set_child)

lemma users_cong: "(\<And>a. a \<in> set (addrs n) \<Longrightarrow> D a = E a) \<Longrightarrow> users_ok D n = users_ok E n"
  by (induction n) auto

lemma users_upd: "i \<notin> set (addrs n) \<Longrightarrow> users_ok (D(i := v)) n = users_ok D n"
  by (rule users_cong) auto

lemma users_add [simp]: "n \<noteq> PNull \<Longrightarrow> users (add_users k n) = users n + k"
  by (cases n) auto

lemma users_ok_unfold:
  "n \<noteq> PNull \<Longrightarrow> users_ok D n \<longleftrightarrow> users n = D (paddr n) + users (child d n) + users (child (\<not> d) n)
    \<and> (pprefix n = None \<longrightarrow> D (paddr n) = 0) \<and> users_ok D (child d n) \<and> users_ok D (child (\<not> d) n)"
  by (cases n) (auto simp: child_def)

lemma add_users_simps [simp]:
  "child d (add_users k n) = (if n = PNull then child d PNull else child d n)"
  "n \<noteq> PNull \<Longrightarrow> add_users k n \<noteq> PNull" "n \<noteq> PNull \<Longrightarrow> paddr (add_users k n) = paddr n"
  "n \<noteq> PNull \<Longrightarrow> pprefix (add_users k n) = pprefix n"
  by (cases n; simp add: child_def)+

lemma set_child_users [simp]:
  "f \<noteq> PNull \<Longrightarrow> users (set_child d c f) = users f" "f \<noteq> PNull \<Longrightarrow> paddr (set_child d c f) = paddr f"
  by (cases f; simp)+

lemma users_bump:
  assumes "on_path ctx n" "n \<noteq> PNull" "distinct (addrs (plug ctx n))" "users_ok D (plug ctx n)"
    "i \<in> set (addrs n)" "n' \<noteq> PNull" "users_ok (D(i := D i + k)) n'" "users n' = users n + k"
  shows "users_ok (D(i := D i + k)) (plug (bump k ctx) n')"
  using assms
proof (induction ctx n arbitrary: n' rule: on_path.induct)
  case (2 d f ctx n)
  let ?D = "D(i := D i + k)"
  have f: "f \<noteq> PNull" "child d f = n" "on_path ctx f" "plug ((d, f) # ctx) n = plug ctx f"
    using 2(2) by (simp_all add: set_child_same)
  have df: "distinct (addrs f)" using addrs_disjoint [OF on_path_ok [OF f(3)], of f] 2(4) f(4) by simp
  have m: "mset (addrs f) = mset (paddr f # addrs n @ addrs (child (\<not> d) f))"
    using addrs_split [OF f(1), of d] f(2) by simp
  then have "distinct (paddr f # addrs n @ addrs (child (\<not> d) f))" using df mset_eq_imp_distinct_iff by blast
  then have ni: "paddr f \<noteq> i" "i \<notin> set (addrs (child (\<not> d) f))" using 2(6) by auto
  have i: "i \<in> set (addrs f)" using mset_eq_setD [OF m] 2(6) by simp
  have u: "users_ok D f" using users_at [OF f(3)] 2(5) f(4) by simp
  let ?g = "set_child d n' (add_users k f)"
  have "users_ok ?D (child (\<not> d) f)"
    using users_child [OF u f(1), of "\<not> d"] users_upd [OF ni(2)] by simp
  moreover have "users f = D (paddr f) + users n + users (child (\<not> d) f)" "pprefix f = None \<longrightarrow> D (paddr f) = 0"
    using u f(2) unfolding users_ok_unfold [OF f(1), of D d] by simp_all
  ultimately have g: "?g \<noteq> PNull" "users_ok ?D ?g" "users ?g = users f + k"
    using users_ok_unfold [of ?g ?D d] f(1,2) 2(8,9) ni(1) by simp_all
  have "users_ok ?D (plug (bump k ctx) ?g)"
    by (rule 2(1) [OF f(3,1) _ _ i g]) (use 2(4,5) f(4) in simp_all)
  then show ?case unfolding bump_def list.map prod.case plug.simps .
qed (simp add: bump_def)

section \<open>References with users\<close>

definition holds_ok :: "ptree \<Rightarrow> (nat \<Rightarrow> int) \<Rightarrow> (irc_in_addr \<times> nat \<times> nat) multiset \<Rightarrow> bool" where
  "holds_ok t D H \<longleftrightarrow> iptree_ok t \<and> users_ok D (head t) \<and> (\<forall>a. D a \<noteq> 0 \<longrightarrow> (\<exists>s l. (s, l, a) \<in># H))
     \<and> (\<forall>s l i. (s, l, i) \<in># H \<longrightarrow> (\<exists>q. covered t l s (i, q)))
     \<and> (\<forall>n x. refs t n x = int (size (filter_mset (\<lambda>(s, l, i). same_key l s n x) H)))"

lemma change_usercount_ok:
  assumes ok: "holds_ok t D H" and i: "(s, l, i) \<in># H"
  shows "holds_ok (change_usercount k t i) (D(i := D i + k)) H"
proof -
  let ?D = "D(i := D i + k)"
  obtain q where c: "covered t l s (i, q)" using ok i unfolding holds_ok_def by blast
  have p: "pt_ok t" "users_ok D (head t)" using ok by (simp_all add: holds_ok_def iptree_ok_def)
  have st: "(i, q) \<in> stored (head t)" using c by (simp add: covered_def)
  obtain ctx b u l' r where loc: "locate i [] (head t) = Some (ctx, PNode i b u (Some q) l' r)"
      and path: "on_path ctx (PNode i b u (Some q) l' r)" "plug ctx (PNode i b u (Some q) l' r) = head t"
    using locate_stored [OF p(1) st] by blast
  let ?n = "PNode i b u (Some q) l' r"
  let ?h = "plug (bump k ctx) (add_users k ?n)"
  have t': "change_usercount k t i = t\<lparr>head := ?h\<rparr>" using loc by (simp add: change_usercount_def bump_def)
  have sh: "strip ?h = strip (head t)" using strip_bump [of "add_users k ?n" ?n k ctx] path(2) by simp
  have same: "stored ?h = stored (head t)" "addrs ?h = addrs (head t)" "pwf m ?h = pwf m (head t)" for m
    using arg_cong [OF sh, of stored] arg_cong [OF sh, of addrs] arg_cong [OF sh, of "pwf m"] by simp_all
  have pt: "pt_ok (t\<lparr>head := ?h\<rparr>)" using p(1) same by (simp add: pt_ok_def)
  have cov: "covered (t\<lparr>head := ?h\<rparr>) = covered t" using same by (auto simp: covered_def fun_eq_iff)
  have "refs (t\<lparr>head := ?h\<rparr>) n x = refs t n x" for n x
    using refs_covered [OF pt, of n x] refs_covered [OF p(1), of n x] cov by (metis prod.exhaust)
  moreover have "users_ok ?D ?h"
  proof (rule users_bump [OF path(1)])
    show "distinct (addrs (plug ctx ?n))" "users_ok D (plug ctx ?n)" using p pt_okD(2) path(2) by simp_all
    from users_at [OF path(1) this(2)] have "users_ok D ?n" .
    moreover have "i \<notin> set (addrs l')" "i \<notin> set (addrs r)"
      using addrs_disjoint [OF on_path_ok [OF path(1)], of ?n] pt_okD(2) [OF p(1)] path(2) by auto
    then have "users_ok ?D l' = users_ok D l'" "users_ok ?D r = users_ok D r"
      using users_upd by blast+
    ultimately show "users_ok ?D (add_users k ?n)" by simp
  qed simp_all
  moreover have "\<exists>s l. (s, l, a) \<in># H" if "?D a \<noteq> 0" for a
    using that ok i unfolding holds_ok_def by (cases "a = i") auto
  ultimately show ?thesis
    using ok pt cov unfolding t' holds_ok_def iptree_ok_def by simp
qed

lemma take_ok:
  assumes ok: "holds_ok t D H" and len: "len \<le> PATRICIA_MAXBITS"
  shows "\<exists>i t'. refnode t s (int len) = Some (i, t') \<and> holds_ok t' D (add_mset (s, len, i) H)"
proof -
  have p: "pt_ok t" "maxbits t = PATRICIA_MAXBITS" "users_ok D (head t)" using ok by (simp_all add: holds_ok_def iptree_ok_def)
  have "0 \<le> int len" "nat (int len) \<le> maxbits t" using len p(2) by simp_all
  from refnode_ok [OF p(1) this, of s, unfolded nat_int]
  obtain i t' q where r: "refnode t s (int len) = Some (i, t')" "pt_ok t'" "maxbits t' = maxbits t" "covered t' len s (i, q)"
      "\<And>j n x p. covered t n x (j, p) \<Longrightarrow> \<exists>p. covered t' n x (j, p)"
      "users_ok D (head t) \<Longrightarrow> (\<forall>a \<ge> next_node t. D a = 0) \<Longrightarrow> users_ok D (head t')"
      "\<And>n x. refs t' n x = (if same_key len s n x then refs t len s + 1 else refs t n x)"
    by blast
  have D: "D a = 0" if "next_node t \<le> a" for a
  proof (rule ccontr)
    assume "D a \<noteq> 0"
    then obtain s' l p where "covered t l s' (a, p)" using ok unfolding holds_ok_def by blast
    then have "a < next_node t" using stored_addrs [of a p "head t"] pt_okD(3) [OF p(1)] by (simp add: covered_def)
    with that show False by simp
  qed
  have "refs t len s = refs t n x" if "same_key len s n x" for n x
  proof -
    have "covered t len s = covered t n x" using that by (auto simp: covered_def same_key_def agree_def fun_eq_iff)
    then show ?thesis using refs_covered [OF p(1), of len s] refs_covered [OF p(1), of n x] by (metis prod.exhaust)
  qed
  then have rf: "refs t' n x = refs t n x + (if same_key len s n x then 1 else 0)" for n x using r(7) by simp
  have "holds_ok t' D (add_mset (s, len, i) H)"
    unfolding holds_ok_def
  proof (intro conjI allI impI)
    show "iptree_ok t'" using r(2,3) p(2) by (simp add: iptree_ok_def)
    show "users_ok D (head t')" using r(6) p(3) D by blast
    fix a assume "D a \<noteq> 0"
    then obtain s' l where "(s', l, a) \<in># H" using ok unfolding holds_ok_def by blast
    then show "\<exists>s' l. (s', l, a) \<in># add_mset (s, len, i) H" by auto
  next
    fix s' l j assume "(s', l, j) \<in># add_mset (s, len, i) H"
    then consider "(s', l, j) = (s, len, i)" | "(s', l, j) \<in># H" by auto
    then show "\<exists>q. covered t' l s' (j, q)"
    proof cases
      case 2
      with ok obtain p where "covered t l s' (j, p)" unfolding holds_ok_def by blast
      then show ?thesis by (rule r(5))
    qed (use r(4) in auto)
  next
    fix n x show "refs t' n x = int (size (filter_mset (\<lambda>(s, l, i). same_key l s n x) (add_mset (s, len, i) H)))"
      unfolding rf using ok unfolding holds_ok_def by simp
  qed
  with r(1) show ?thesis by blast
qed

lemma give_ok:
  assumes ok: "holds_ok t D (add_mset (s, len, i) H)" and D: "\<forall>a. D a \<noteq> 0 \<longrightarrow> (\<exists>s l. (s, l, a) \<in># H)"
  shows "\<exists>t'. derefnode t i = Some t' \<and> holds_ok t' D H"
proof -
  let ?H = "add_mset (s, len, i) H"
  have p: "pt_ok t" "maxbits t = PATRICIA_MAXBITS" "users_ok D (head t)" using ok by (simp_all add: holds_ok_def iptree_ok_def)
  have "(s, len, i) \<in># ?H" by simp
  with ok obtain q where c: "covered t len s (i, q)" unfolding holds_ok_def by blast
  have rf: "refs t n x = int (size (filter_mset (\<lambda>(s, l, i). same_key l s n x) ?H))" for n x
    using ok unfolding holds_ok_def by blast
  have two: "ref_count q > 1" if e: "(s', l, i) \<in># H" for s' l
  proof -
    have "(s', l, i) \<in># ?H" using e by simp
    with ok obtain q' where c': "covered t l s' (i, q')" unfolding holds_ok_def by blast
    have "q' = q" using node_prefix_stored [OF p(1), of i q] node_prefix_stored [OF p(1), of i q'] c c' by (simp add: covered_def)
    with c c' have "same_key l s' len s" by (auto simp: covered_def same_key_def agree_def)
    with e have "(s', l, i) \<in># filter_mset (\<lambda>(s', l, i). same_key l s' len s) H" by simp
    then have "filter_mset (\<lambda>(s', l, i). same_key l s' len s) H \<noteq> {#}" by force
    then have "size (filter_mset (\<lambda>(s', l, i). same_key l s' len s) H) > 0" using nonempty_has_size by blast
    moreover have "same_key len s len s" by (simp add: same_key_def)
    ultimately have "refs t len s > 1" unfolding rf by simp
    with refs_covered(1) [OF p(1) c] show ?thesis by simp
  qed
  obtain t' where r: "derefnode t i = Some t'" "pt_ok t'" "maxbits t' = maxbits t"
      "\<And>j n x p. covered t n x (j, p) \<Longrightarrow> j \<noteq> i \<or> ref_count q > 1 \<Longrightarrow> \<exists>p. covered t' n x (j, p)"
      "users_ok D (head t) \<Longrightarrow> D i = 0 \<or> ref_count q > 1 \<Longrightarrow> users_ok D (head t')"
      "\<And>n x. refs t' n x = (if same_key len s n x then refs t len s - 1 else refs t n x)"
    using derefnode_ok [OF p(1) c] by blast
  have "refs t len s = refs t n x" if "same_key len s n x" for n x
  proof -
    have "covered t len s = covered t n x" using that by (auto simp: covered_def same_key_def agree_def fun_eq_iff)
    then show ?thesis using refs_covered [OF p(1), of len s] refs_covered [OF p(1), of n x] by (metis prod.exhaust)
  qed
  then have rf': "refs t' n x = refs t n x - (if same_key len s n x then 1 else 0)" for n x using r(6) by simp
  have "holds_ok t' D H"
    unfolding holds_ok_def
  proof (intro conjI allI impI)
    show "iptree_ok t'" using r(2,3) p(2) by (simp add: iptree_ok_def)
    show "users_ok D (head t')" using r(5) [OF p(3)] D two by blast
  next
    fix s' l j assume e: "(s', l, j) \<in># H"
    then have "(s', l, j) \<in># ?H" by simp
    with ok obtain q' where "covered t l s' (j, q')" unfolding holds_ok_def by blast
    then show "\<exists>q. covered t' l s' (j, q)" using r(4) two e by blast
  next
    fix n x show "refs t' n x = int (size (filter_mset (\<lambda>(s, l, i). same_key l s n x) H))"
      unfolding rf' rf by simp
  qed (use D in blast)
  with r(1) show ?thesis by blast
qed

section \<open>The users of a trie\<close>

definition holds :: "world \<Rightarrow> (irc_in_addr \<times> nat \<times> nat) list" where
  "holds w = map (\<lambda>(s, i). (s, PATRICIA_MAXBITS, i)) (online w) @ held w"

definition users_at_node :: "world \<Rightarrow> nat \<Rightarrow> int" where
  "users_at_node w a = int (size (filter_mset (\<lambda>e. snd e = a) (mset (online w))))"

definition world_ok :: "world \<Rightarrow> bool" where
  "world_ok w \<longleftrightarrow> holds_ok (tree w) (users_at_node w) (mset (holds w))"

lemma mset_drop_nth: "k < length xs \<Longrightarrow> mset xs = add_mset (xs ! k) (mset (drop_nth k xs))"
  using arg_cong [OF id_take_nth_drop [of k xs], of mset] by (simp add: drop_nth_def)

lemma users_at_node_nonzero:
  assumes "users_at_node w a \<noteq> 0"
  shows "\<exists>s l. (s, l, a) \<in># mset (holds w)"
proof -
  have "filter_mset (\<lambda>e. snd e = a) (mset (online w)) \<noteq> {#}" using assms by (auto simp: users_at_node_def)
  then obtain e where "e \<in># filter_mset (\<lambda>e. snd e = a) (mset (online w))" by blast
  then have "(fst e, a) \<in> set (online w)" by auto
  then have "(fst e, PATRICIA_MAXBITS, a) \<in> set (holds w)" by (force simp: holds_def)
  then show ?thesis by auto
qed

lemma empty_world_ok: "world_ok empty_world"
  using empty_trie_ok empty_trie_refs
  by (simp add: world_ok_def holds_ok_def empty_world_def holds_def users_at_node_def) (simp add: empty_trie_def)

lemma world_step_ok:
  assumes ok: "world_ok w" and fits: "hold_fits op"
  shows "\<exists>w'. world_step w op = Some w' \<and> world_ok w'"
proof (cases op)
  case (On s)
  obtain i t' where r: "refnode (tree w) s (int PATRICIA_MAXBITS) = Some (i, t')"
      "holds_ok t' (users_at_node w) (add_mset (s, PATRICIA_MAXBITS, i) (mset (holds w)))"
    using take_ok [OF ok [unfolded world_ok_def], of PATRICIA_MAXBITS s] by auto
  let ?w = "w\<lparr>tree := change_usercount 1 t' i, online := (s, i) # online w\<rparr>"
  have "users_at_node ?w = (users_at_node w)(i := users_at_node w i + 1)"
    by (auto simp: users_at_node_def fun_eq_iff)
  moreover have "mset (holds ?w) = add_mset (s, PATRICIA_MAXBITS, i) (mset (holds w))" by (simp add: holds_def)
  ultimately have "world_ok ?w"
    using change_usercount_ok [OF r(2), of s PATRICIA_MAXBITS i 1] by (simp add: world_ok_def)
  with r(1) On show ?thesis by (simp add: user_on_def node_increment_usercount_def)
next
  case (Hold s len)
  obtain i t' where r: "refnode (tree w) s (int len) = Some (i, t')"
      "holds_ok t' (users_at_node w) (add_mset (s, len, i) (mset (holds w)))"
    using take_ok [OF ok [unfolded world_ok_def], of len s] fits Hold by auto
  let ?w = "w\<lparr>tree := t', held := (s, len, i) # held w\<rparr>"
  have "users_at_node ?w = users_at_node w" "mset (holds ?w) = add_mset (s, len, i) (mset (holds w))"
    by (auto simp: users_at_node_def holds_def)
  with r Hold show ?thesis by (simp add: world_ok_def)
next
  case (Off k)
  show ?thesis
  proof (cases "k < length (online w)")
    case False
    with ok Off show ?thesis by simp
  next
    case True
    obtain s i where e: "online w ! k = (s, i)" by (cases "online w ! k")
    let ?w = "\<lambda>t. w\<lparr>tree := t, online := drop_nth k (online w)\<rparr>"
    let ?t = "change_usercount (- 1) (tree w) i"
    note m = mset_drop_nth [OF True, unfolded e]
    have h: "mset (holds w) = add_mset (s, PATRICIA_MAXBITS, i) (mset (holds (?w t)))" for t
      by (simp add: holds_def m)
    have u: "users_at_node (?w t) = (users_at_node w)(i := users_at_node w i + (- 1))" for t
      by (auto simp: users_at_node_def m fun_eq_iff)
    have "holds_ok ?t (users_at_node (?w ?t)) (add_mset (s, PATRICIA_MAXBITS, i) (mset (holds (?w ?t))))"
      using change_usercount_ok [OF ok [unfolded world_ok_def], of s PATRICIA_MAXBITS i "- 1"] h [of ?t] u [of ?t] by simp
    from give_ok [OF this] users_at_node_nonzero
    obtain t' where t': "derefnode ?t i = Some t'" "holds_ok t' (users_at_node (?w ?t)) (mset (holds (?w ?t)))" by blast
    have "world_ok (?w t')" using t'(2) u unfolding world_ok_def by (simp add: holds_def)
    with t'(1) True e Off show ?thesis by (simp add: user_off_def node_decrement_usercount_def)
  qed
next
  case (Release k)
  show ?thesis
  proof (cases "k < length (held w)")
    case False
    with ok Release show ?thesis by simp
  next
    case True
    obtain s l i where e: "held w ! k = (s, l, i)" by (cases "held w ! k")
    let ?w = "\<lambda>t. w\<lparr>tree := t, held := drop_nth k (held w)\<rparr>"
    have h: "mset (holds w) = add_mset (s, l, i) (mset (holds (?w t)))" for t
      by (simp add: holds_def mset_drop_nth [OF True] e)
    have u: "users_at_node (?w t) = users_at_node w" for t by (simp add: users_at_node_def fun_eq_iff)
    have "holds_ok (tree w) (users_at_node (?w (tree w))) (add_mset (s, l, i) (mset (holds (?w (tree w)))))"
      using ok unfolding world_ok_def h [of "tree w"] u .
    from give_ok [OF this] users_at_node_nonzero
    obtain t' where t': "derefnode (tree w) i = Some t'" "holds_ok t' (users_at_node (?w (tree w))) (mset (holds (?w (tree w))))" by blast
    have "world_ok (?w t')" using t'(2) unfolding world_ok_def u by (simp add: holds_def)
    with t'(1) True e Release show ?thesis by simp
  qed
qed

lemma world_run_ok: "world_ok w \<Longrightarrow> list_all hold_fits ops \<Longrightarrow> \<exists>w'. world_run w ops = Some w' \<and> world_ok w'"
proof (induction ops arbitrary: w)
  case (Cons op ops)
  obtain w1 where "world_step w op = Some w1" "world_ok w1" using world_step_ok [of w op] Cons.prems by auto
  with Cons.IH [of w1] Cons.prems show ?case by simp
qed simp

lemma users_sum: "users_ok D n \<Longrightarrow> users n = sum_list (map D (addrs n))"
  by (induction n) auto

lemma sum_filter_count:
  "distinct as \<Longrightarrow> sum_list (map (\<lambda>a. int (size (filter_mset (\<lambda>e. f e = a) M))) as)
    = int (size (filter_mset (\<lambda>e. f e \<in> set as) M))"
proof (induction as)
  case (Cons a as)
  have "filter_mset (\<lambda>e. f e \<in> set (a # as)) M = filter_mset (\<lambda>e. f e = a) M + filter_mset (\<lambda>e. f e \<in> set as) M"
    using Cons.prems by (auto simp: multiset_eq_iff)
  with Cons show ?case by simp
qed simp

lemma path_side:
  "on_path ctx n \<Longrightarrow> pwf m (plug ctx n) \<Longrightarrow> x \<in> sins n \<Longrightarrow> (d, f) \<in> set ctx \<Longrightarrow> is_bit_set x (pbit f) = d"
proof (induction ctx n rule: on_path.induct)
  case (2 e g ctx n)
  have g: "g \<noteq> PNull" "child e g = n" "on_path ctx g" "pwf m (plug ctx g)" using 2(2,3) by (simp_all add: set_child_same)
  have "is_bit_set x (pbit g) = e" using pwf_side [OF pwf_plug [OF g(3,4)] g(1)] 2(4) g(2) by simp
  moreover have "x \<in> sins g" using sins_child [OF g(1), of e] 2(4) g(2) by auto
  ultimately show ?case using 2(1) [OF g(3,4)] 2(5) by auto
qed simp

lemma in_subtrie:
  assumes ok: "pt_ok t" and path: "on_path ctx n" "plug ctx n = head t" "n \<noteq> PNull"
    and s: "\<sigma> \<in> sins n" "agree (pbit n) \<sigma> s" and x: "(i, q) \<in> stored (head t)" "pbit n \<le> bitlen q"
  shows "i \<in> set (addrs n) \<longleftrightarrow> agree (pbit n) (sin q) s"
proof -
  note po = on_path_ok [OF path(1)]
  have wf: "pwf (maxbits t) (plug ctx n)" using ok path(2) by (simp add: pt_ok_def)
  have wn: "pwf (maxbits t) n" by (rule pwf_plug [OF path(1) wf])
  have sp: "(i, q) \<in> outside ctx \<or> (i, q) \<in> stored n" using x(1) stored_plug [OF po, of n] path(2) by simp
  show ?thesis
  proof
    assume "i \<in> set (addrs n)"
    then have "i \<notin> set (addrs_outside ctx)" using addrs_disjoint [OF po, of n] pt_okD(2) [OF ok] path(2) by auto
    then have "(i, q) \<in> stored n" using sp outside_addrs [OF po] by blast
    from pwf_agree [OF wn stored_sins [OF this] s(1)] s(2) show "agree (pbit n) (sin q) s" by (rule agree_trans)
  next
    assume a: "agree (pbit n) (sin q) s"
    have "\<forall>(d, f) \<in> set ctx. pbit f < pbit n \<and> is_bit_set s (pbit f) = d"
      using path_side [OF path(1) wf s(1)] path_bits [OF path(1) wf _ path(3)] agree_bit [OF s(2)] by fastforce
    from outside_no_match [OF path(1) wf this _ x(2) a] sp have "(i, q) \<in> stored n" by blast
    then show "i \<in> set (addrs n)" by (rule stored_addrs)
  qed
qed

text \<open>
  C18: whatever users come and go and whatever references other modules take and give back in
  between, no step fails, and the user count at the node of a prefix is the number of
  users whose address is inside the prefix.
\<close>

theorem usercount_counts_online:
  assumes "list_all hold_fits ops" "len \<le> PATRICIA_MAXBITS"
  shows "\<exists>w r. world_run empty_world ops = Some w \<and> patricia_search_exact (tree w) s len = Some r
    \<and> (\<forall>i. r = Some i \<longrightarrow>
        node_usercount (tree w) i = int (length (filter (\<lambda>u. agree len u s) (map fst (online w)))))"
proof -
  obtain w where w: "world_run empty_world ops = Some w" "world_ok w"
    using world_run_ok [OF empty_world_ok assms(1)] by blast
  have ok: "holds_ok (tree w) (users_at_node w) (mset (holds w))" using w(2) by (simp add: world_ok_def)
  have p: "pt_ok (tree w)" "len \<le> maxbits (tree w)" "users_ok (users_at_node w) (head (tree w))"
    using ok assms(2) by (simp_all add: holds_ok_def iptree_ok_def)
  obtain r where r: "patricia_search_exact (tree w) s len = Some r"
      "\<And>a. r = Some a \<longleftrightarrow> (\<exists>q. (a, q) \<in> stored (head (tree w)) \<and> bitlen q = len \<and> agree len (sin q) s)"
    using search_exact_spec [OF pt_okD(1) [OF p(1)] p(2), of s] by blast
  have "node_usercount (tree w) i = int (length (filter (\<lambda>u. agree len u s) (map fst (online w))))" if "r = Some i" for i
  proof -
    obtain q where q: "(i, q) \<in> stored (head (tree w))" "bitlen q = len" "agree len (sin q) s" using r(2) \<open>r = Some i\<close> by blast
    obtain ctx b u l' r' where loc: "locate i [] (head (tree w)) = Some (ctx, PNode i b u (Some q) l' r')"
        and path: "on_path ctx (PNode i b u (Some q) l' r')" "plug ctx (PNode i b u (Some q) l' r') = head (tree w)"
      using locate_stored [OF p(1) q(1)] by blast
    let ?n = "PNode i b u (Some q) l' r'"
    have un: "users_ok (users_at_node w) ?n" using users_at [OF path(1)] p(3) path(2) by simp
    have "pwf (maxbits (tree w)) ?n"
      using pwf_plug [OF path(1)] pt_okD(1) [OF p(1)] path(2) by simp
    then have b: "b = len" using q(2) by simp
    have "distinct (addrs ?n)"
      using addrs_disjoint [OF on_path_ok [OF path(1)], of ?n] pt_okD(2) [OF p(1)] path(2) by simp
    from sum_filter_count [OF this, of snd "mset (online w)"]
    have "u = int (size (filter_mset (\<lambda>e. snd e \<in> set (addrs ?n)) (mset (online w))))"
      using users_sum [OF un] unfolding users_at_node_def by simp
    also have "filter_mset (\<lambda>e. snd e \<in> set (addrs ?n)) (mset (online w)) = filter_mset (\<lambda>e. agree len (fst e) s) (mset (online w))"
    proof (rule filter_mset_cong [OF refl])
      fix e assume "e \<in># mset (online w)"
      then have "(fst e, PATRICIA_MAXBITS, snd e) \<in># mset (holds w)" by (force simp: holds_def)
      with ok obtain p' where c: "covered (tree w) PATRICIA_MAXBITS (fst e) (snd e, p')" unfolding holds_ok_def by blast
      have "agree len (sin p') s \<longleftrightarrow> agree len (fst e) s"
        using c assms(2) by (auto simp: covered_def agree_def)
      moreover have "snd e \<in> set (addrs ?n) \<longleftrightarrow> agree (pbit ?n) (sin p') s"
        by (rule in_subtrie [OF p(1) path _ _ _ _ _, of "sin q"]) (use c q b assms(2) in \<open>auto simp: covered_def sins_node\<close>)
      ultimately show "snd e \<in> set (addrs ?n) \<longleftrightarrow> agree len (fst e) s" using b by simp
    qed
    also have "size (filter_mset (\<lambda>e. agree len (fst e) s) (mset (online w)))
        = length (filter (\<lambda>u. agree len u s) (map fst (online w)))"
      by (simp add: mset_filter [symmetric] filter_map comp_def del: mset_filter)
    finally show ?thesis using loc by (simp add: node_usercount_def)
  qed
  with w(1) r(1) show ?thesis by blast
qed

lemma usercount_counts_online_witness:
  "\<exists>w. world_run empty_world [On zero_addr] = Some w
    \<and> patricia_search_exact (tree w) zero_addr 128 = Some (Some 0) \<and> node_usercount (tree w) 0 = 1"
proof -
  let ?p = "\<lparr>bitlen = 128, ref_count = 1, sin = zero_addr\<rparr>"
  let ?w = "\<lparr>tree = \<lparr>head = PNode 0 128 1 (Some ?p) PNull PNull, maxbits = 128, num_active_node = 1, next_node = 1\<rparr>,
      online = [(zero_addr, 0)], held = []\<rparr>"
  have w: "world_run empty_world [On zero_addr] = Some ?w"
    by (simp add: user_on_def refnode_def patricia_search_exact_def patricia_lookup_def patricia_new_prefix_def patricia_ref_prefix_def
        patricia_deref_prefix_def patricia_new_node_def empty_trie_def write_prefix_def PATRICIA_MAXBITS_def Let_def
        empty_world_def node_increment_usercount_def change_usercount_def)
  have s: "patricia_search_exact (tree ?w) zero_addr 128 = Some (Some 0)"
    by (simp add: patricia_search_exact_def comp_with_mask_agree)
  have "list_all hold_fits [On zero_addr]" "128 \<le> PATRICIA_MAXBITS" by (simp_all add: PATRICIA_MAXBITS_def)
  from usercount_counts_online [OF this, of zero_addr] w s have "node_usercount (tree ?w) 0 = 1"
    by (simp only: option.inject simp_thms ex_simps) simp
  with w s show ?thesis by blast
qed

end
