(* ===== verification/Bans.thy ===== *)
theory Bans
  imports IrcMmatch IrcIpv6 LibUtil
begin

text \<open>
  The bans of \<open>bans/bans.c\<close> (parsing a mask, comparing bans, printing) and of
  \<open>channel/channelbans.c\<close> (matching a user, the ban list of a channel). A NULL string is
  \<open>None\<close>; the address of a ban is \<open>None\<close> where the code leaves it unset, and so is the
  result of a function whose assertion fails or that dereferences NULL. Shown: every mask
  gives a well-formed ban that prints as the mask, an overlapping ban matches every user
  that the other one matches, with the exceptions the code has, and a ban list never holds
  two bans one of which encloses the other.
\<close>

unbundle bit_operations_syntax

section \<open>Data\<close>

definition NICKLEN :: nat where "NICKLEN = 15"
definition USERLEN :: nat where "USERLEN = 10"
definition HOSTLEN :: nat where "HOSTLEN = 63"

definition HIS_HIDDENHOST :: string where
  "HIS_HIDDENHOST = ''users.quakenet.org''"

definition CHANBAN_NICKEXACT :: "32 word" where "CHANBAN_NICKEXACT = 0x0001"
definition CHANBAN_NICKMASK :: "32 word" where "CHANBAN_NICKMASK = 0x0002"
definition CHANBAN_NICKANY :: "32 word" where "CHANBAN_NICKANY = 0x0004"
definition CHANBAN_NICKNULL :: "32 word" where "CHANBAN_NICKNULL = 0x0008"
definition CHANBAN_USEREXACT :: "32 word" where "CHANBAN_USEREXACT = 0x0010"
definition CHANBAN_USERMASK :: "32 word" where "CHANBAN_USERMASK = 0x0020"
definition CHANBAN_USERANY :: "32 word" where "CHANBAN_USERANY = 0x0040"
definition CHANBAN_USERNULL :: "32 word" where "CHANBAN_USERNULL = 0x0080"
definition CHANBAN_HOSTEXACT :: "32 word" where "CHANBAN_HOSTEXACT = 0x0100"
definition CHANBAN_HOSTMASK :: "32 word" where "CHANBAN_HOSTMASK = 0x0200"
definition CHANBAN_HOSTANY :: "32 word" where "CHANBAN_HOSTANY = 0x0400"
definition CHANBAN_HOSTNULL :: "32 word" where "CHANBAN_HOSTNULL = 0x0800"
definition CHANBAN_IP :: "32 word" where "CHANBAN_IP = 0x1000"
definition CHANBAN_INVALID :: "32 word" where "CHANBAN_INVALID = 0x4000"
definition CHANBAN_HIDDENHOST :: "32 word" where "CHANBAN_HIDDENHOST = 0x8000"

lemmas chanban_flags =
  CHANBAN_NICKEXACT_def CHANBAN_NICKMASK_def CHANBAN_NICKANY_def CHANBAN_NICKNULL_def
  CHANBAN_USEREXACT_def CHANBAN_USERMASK_def CHANBAN_USERANY_def CHANBAN_USERNULL_def
  CHANBAN_HOSTEXACT_def CHANBAN_HOSTMASK_def CHANBAN_HOSTANY_def CHANBAN_HOSTNULL_def
  CHANBAN_IP_def CHANBAN_INVALID_def CHANBAN_HIDDENHOST_def

record chanban =
  ban_flags :: "32 word"
  ban_nick :: "string option"
  ban_user :: "string option"
  ban_host :: "string option"
  ban_timeset :: int
  ban_ip :: "(irc_in_addr \<times> nat option) option"

definition has_flag :: "32 word \<Rightarrow> 32 word \<Rightarrow> bool" where
  "has_flag w f \<longleftrightarrow> w AND f \<noteq> 0"

section \<open>Parsing\<close>

definition is_wild :: "char \<Rightarrow> bool" where
  "is_wild c \<longleftrightarrow> c = CHR ''?'' \<or> c = CHR ''*''"

text \<open>The scan from the end: the last at sign and the last wildcard seen.\<close>

fun at_scan :: "string \<Rightarrow> nat \<Rightarrow> nat \<Rightarrow> nat option \<times> nat" where
  "at_scan msk 0 foundwild = (None, foundwild)"
| "at_scan msk (Suc i) foundwild =
     (if msk ! i = CHR ''@'' then (Some i, foundwild)
      else at_scan msk i (if is_wild (msk ! i) \<and> foundwild = 0 then i else foundwild))"

text \<open>Does the host end like the hidden host? \<open>checklen\<close> is the length after the last wildcard.\<close>

definition hidden_mask :: "string \<Rightarrow> nat \<Rightarrow> bool" where
  "hidden_mask h checklen \<longleftrightarrow>
     (if checklen = 0 then True
      else if checklen \<ge> length HIS_HIDDENHOST
      then ircd_strcmp (drop (length h - length HIS_HIDDENHOST) h) HIS_HIDDENHOST = 0
      else ircd_strcmp (drop (length h - checklen) h) (drop (length HIS_HIDDENHOST - checklen) HIS_HIDDENHOST) = 0)"

definition hidden_exact :: "string \<Rightarrow> bool" where
  "hidden_exact h \<longleftrightarrow> length h > length HIS_HIDDENHOST + 1
     \<and> ircd_strcmp (drop (length h - length HIS_HIDDENHOST) h) HIS_HIDDENHOST = 0"

text \<open>\<open>ipmask_parse\<close> as the code tests it: it answers how many characters it used.\<close>

definition host_ip :: "string \<Rightarrow> (irc_in_addr \<times> nat option) option" where
  "host_ip h =
     (case ipmask_parse True h of
        None \<Rightarrow> None | Some (r, ip, bits) \<Rightarrow> if length h - length r = 0 then None else Some (ip, bits))"

type_synonym host_result = "32 word \<times> string option \<times> (irc_in_addr \<times> nat option) option"

definition host_part :: "string \<Rightarrow> nat \<Rightarrow> nat \<Rightarrow> host_result" where
  "host_part msk i foundwild =
     (let len = length msk
      in if len - i - 1 > HOSTLEN then
           (CHANBAN_HOSTMASK, Some (sstr (CHR ''*'' # tl (take HOSTLEN (drop (len - HOSTLEN) msk))) HOSTLEN), None)
         else if i = len - 1 then (CHANBAN_INVALID OR CHANBAN_HOSTNULL, None, None)
         else if i = len - 2 \<and> msk ! (i + 1) = CHR ''*'' then (CHANBAN_HOSTANY, None, None)
         else
           let host = sstr (drop (i + 1) msk) HOSTLEN;
               ip = host_ip host;
               ipflag = (if ip \<noteq> None then CHANBAN_IP else 0)
           in if foundwild \<noteq> 0 then
                (ipflag OR (if hidden_mask host (len - foundwild - 1) then CHANBAN_HIDDENHOST else 0)
                   OR CHANBAN_HOSTMASK, Some host, ip)
              else
                (ipflag OR CHANBAN_HOSTEXACT OR (if hidden_exact host then CHANBAN_HIDDENHOST else 0), Some host, ip))"

text \<open>The first exclamation mark before the at sign, and a wildcard in the nick before it.\<close>

function bang_scan :: "string \<Rightarrow> nat \<Rightarrow> nat \<Rightarrow> bool \<Rightarrow> nat option \<times> bool" where
  "bang_scan msk foundat i foundwild =
     (if i < foundat then
        (if msk ! i = CHR ''!'' then (Some i, foundwild)
         else bang_scan msk foundat (i + 1) (foundwild \<or> is_wild (msk ! i) \<and> i < NICKLEN))
      else (None, foundwild))"
  by pat_completeness auto
termination by (relation "measure (\<lambda>(_, n, i, _). n - i)") auto

declare bang_scan.simps [simp del]

definition nick_part :: "string \<Rightarrow> nat \<Rightarrow> bool \<Rightarrow> 32 word \<times> string option" where
  "nick_part msk i foundwild =
     (if i = 0 then (CHANBAN_NICKNULL, None)
      else if i = 1 \<and> msk ! 0 = CHR ''*'' then (CHANBAN_NICKANY, None)
      else (if foundwild then CHANBAN_NICKMASK else CHANBAN_NICKEXACT,
            Some (if i > NICKLEN then sstr msk NICKLEN else sstr msk i)))"

text \<open>The user part; \<open>start\<close> is \<open>foundbang + 1\<close>.\<close>

definition user_part :: "string \<Rightarrow> nat \<Rightarrow> nat \<Rightarrow> 32 word \<times> string option" where
  "user_part msk foundat start =
     (let (fl, user) =
        (if foundat = start then (CHANBAN_INVALID OR CHANBAN_USERNULL, None)
         else if foundat - start > USERLEN then
           (CHANBAN_USERMASK, Some (sstr (CHR ''*'' # tl (take USERLEN (drop (foundat - USERLEN) msk))) USERLEN))
         else if foundat - start = 1 \<and> msk ! start = CHR ''*'' then (CHANBAN_USERANY, None)
         else
           let user = sstr (drop start msk) (foundat - start)
           in (if CHR ''*'' \<in> set user \<or> CHR ''?'' \<in> set user then CHANBAN_USERMASK else CHANBAN_USEREXACT, Some user))
      in (case user of
            Some u \<Rightarrow> if CHR ''@'' \<in> set u then fl OR CHANBAN_INVALID else fl
          | None \<Rightarrow> fl, user))"

definition makeban :: "int \<Rightarrow> string \<Rightarrow> chanban option" where
  "makeban now msk =
     (if msk = ''*'' then
        Some \<lparr>ban_flags = CHANBAN_HOSTANY OR CHANBAN_USERANY OR CHANBAN_NICKANY, ban_nick = None, ban_user = None,
              ban_host = None, ban_timeset = now, ban_ip = None\<rparr>
      else
        let (foundat, wild) = at_scan msk (length msk) 0;
            (fl, nick, user, host, ip) =
              (case foundat of
                 None \<Rightarrow>
                   (CHANBAN_HOSTANY OR CHANBAN_NICKEXACT OR (CHANBAN_USERANY OR CHANBAN_HOSTANY),
                    Some (if length msk > NICKLEN then sstr msk NICKLEN else sstr msk (length msk)), None, None, None)
               | Some i \<Rightarrow>
                   let (hfl, host, ip) = host_part msk i wild;
                       (foundbang, nwild) = bang_scan msk i 0 False;
                       (nfl, nick) = (case foundbang of None \<Rightarrow> (CHANBAN_NICKANY, None) | Some j \<Rightarrow> nick_part msk j nwild);
                       (ufl, user) = user_part msk i (case foundbang of None \<Rightarrow> 0 | Some j \<Rightarrow> j + 1)
                   in (hfl OR nfl OR ufl, nick, user, host, ip))
        in if has_flag fl (CHANBAN_USEREXACT OR CHANBAN_USERMASK OR CHANBAN_USERANY OR CHANBAN_USERNULL)
              \<and> has_flag fl (CHANBAN_NICKEXACT OR CHANBAN_NICKMASK OR CHANBAN_NICKANY OR CHANBAN_NICKNULL)
              \<and> has_flag fl (CHANBAN_HOSTEXACT OR CHANBAN_HOSTMASK OR CHANBAN_HOSTANY OR CHANBAN_HOSTNULL)
           then Some \<lparr>ban_flags = fl, ban_nick = nick, ban_user = user, ban_host = host, ban_timeset = now, ban_ip = ip\<rparr>
           else None)"

section \<open>Comparing\<close>

text \<open>
  One section of \<open>banoverlap\<close>, which the code repeats for the nick, the user and the host
  with their flags.
\<close>

definition overlap_part ::
  "32 word \<Rightarrow> 32 word \<Rightarrow> 32 word \<Rightarrow> 32 word \<Rightarrow> 32 word \<Rightarrow> string option \<Rightarrow> 32 word \<Rightarrow> string option \<Rightarrow> bool option" where
  "overlap_part EXACT MASK ANY NUL' fa a fb b =
     (if has_flag fa NUL' \<and> \<not> has_flag fb NUL' then Some False
      else
        let masks =
          (if \<not> has_flag fa MASK then Some True
           else if has_flag fb (ANY OR NUL') then Some False
           else (case (a, b) of
                   (Some s, Some t) \<Rightarrow>
                     (case (if has_flag fb MASK then match2patterns s t else Some True) of
                        None \<Rightarrow> None
                      | Some False \<Rightarrow> Some False
                      | Some True \<Rightarrow> Some (\<not> (has_flag fb EXACT \<and> \<not> match2strings s t)))
                 | _ \<Rightarrow> None))
        in (case masks of
              Some True \<Rightarrow>
                (if \<not> has_flag fa EXACT then Some True
                 else if has_flag fb (ANY OR MASK OR NUL') then Some False
                 else (case (a, b) of
                         (None, None) \<Rightarrow> Some True
                       | (Some s, Some t) \<Rightarrow> Some (ircd_strcmp s t = 0)
                       | _ \<Rightarrow> Some False))
            | r \<Rightarrow> r))"

definition banoverlap :: "chanban \<Rightarrow> chanban \<Rightarrow> bool option" where
  "banoverlap bana banb =
     (case overlap_part CHANBAN_NICKEXACT CHANBAN_NICKMASK CHANBAN_NICKANY CHANBAN_NICKNULL
             (ban_flags bana) (ban_nick bana) (ban_flags banb) (ban_nick banb) of
        Some True \<Rightarrow>
          (case overlap_part CHANBAN_USEREXACT CHANBAN_USERMASK CHANBAN_USERANY CHANBAN_USERNULL
                  (ban_flags bana) (ban_user bana) (ban_flags banb) (ban_user banb) of
             Some True \<Rightarrow>
               overlap_part CHANBAN_HOSTEXACT CHANBAN_HOSTMASK CHANBAN_HOSTANY CHANBAN_HOSTNULL
                 (ban_flags bana) (ban_host bana) (ban_flags banb) (ban_host banb)
           | r \<Rightarrow> r)
      | r \<Rightarrow> r)"

definition equal_part :: "string option \<Rightarrow> string option \<Rightarrow> bool" where
  "equal_part a b = (case (a, b) of (None, None) \<Rightarrow> True | (Some s, Some t) \<Rightarrow> ircd_strcmp s t = 0 | _ \<Rightarrow> False)"

definition banequal :: "chanban \<Rightarrow> chanban \<Rightarrow> bool" where
  "banequal bana banb \<longleftrightarrow> ban_flags bana = ban_flags banb \<and> equal_part (ban_nick bana) (ban_nick banb)
     \<and> equal_part (ban_user bana) (ban_user banb) \<and> equal_part (ban_host bana) (ban_host banb)"

definition print_part :: "bool \<Rightarrow> string option \<Rightarrow> string" where
  "print_part any s = (if any then ''*'' else case s of None \<Rightarrow> '''' | Some t \<Rightarrow> t)"

definition bantostring :: "chanban \<Rightarrow> string" where
  "bantostring bp =
     print_part (has_flag (ban_flags bp) CHANBAN_NICKANY) (ban_nick bp) @ ''!''
     @ print_part (has_flag (ban_flags bp) CHANBAN_USERANY) (ban_user bp) @ ''@''
     @ print_part (has_flag (ban_flags bp) CHANBAN_HOSTANY) (ban_host bp)"

section \<open>Matching a user\<close>

definition UMODE_ACCOUNT :: "32 word" where "UMODE_ACCOUNT = 0x0080"
definition UMODE_HIDEHOST :: "32 word" where "UMODE_HIDEHOST = 0x0200"
definition UMODE_SETHOST :: "32 word" where "UMODE_SETHOST = 0x0400"

text \<open>What the ban code reads of a user; the address is the one of its trie node.\<close>

record nick =
  nick_name :: string
  nick_ident :: string
  nick_host :: string
  nick_shident :: "string option"
  nick_sethost :: "string option"
  nick_umodes :: "32 word"
  nick_authname :: string
  nick_sin :: irc_in_addr

definition IsSetHost :: "nick \<Rightarrow> bool" where
  "IsSetHost np \<longleftrightarrow> has_flag (nick_umodes np) UMODE_SETHOST"

definition IsAccount :: "nick \<Rightarrow> bool" where
  "IsAccount np \<longleftrightarrow> has_flag (nick_umodes np) UMODE_ACCOUNT"

definition IsHideHost :: "nick \<Rightarrow> bool" where
  "IsHideHost np \<longleftrightarrow> has_flag (nick_umodes np) UMODE_HIDEHOST"

text \<open>The two tests that the code makes of a host name against the host of the ban.\<close>

definition host_matches :: "chanban \<Rightarrow> string \<Rightarrow> bool option" where
  "host_matches bp h =
     (if has_flag (ban_flags bp) CHANBAN_HOSTEXACT then
        (case ban_host bp of
           None \<Rightarrow> None
         | Some b \<Rightarrow> Some (ircd_strcmp h b = 0 \<or> has_flag (ban_flags bp) CHANBAN_HOSTMASK \<and> match2strings b h))
      else if has_flag (ban_flags bp) CHANBAN_HOSTMASK then
        (case ban_host bp of None \<Rightarrow> None | Some b \<Rightarrow> Some (match2strings b h))
      else Some False)"

text \<open>The nick and user tests: \<open>exact\<close> and \<open>mask\<close> are the flags that are set.\<close>

definition part_matches :: "bool \<Rightarrow> bool \<Rightarrow> string option \<Rightarrow> string \<Rightarrow> bool option" where
  "part_matches exact msk b s =
     (if exact \<or> msk then
        (case b of
           None \<Rightarrow> None
         | Some p \<Rightarrow> Some ((exact \<longrightarrow> ircd_strcmp s p = 0) \<and> (msk \<longrightarrow> match2strings p s)))
      else Some True)"

definition or_else :: "bool option \<Rightarrow> bool option \<Rightarrow> bool option" where
  "or_else x y = (case x of None \<Rightarrow> None | Some True \<Rightarrow> Some True | Some False \<Rightarrow> y)"

definition nickmatchban :: "nick \<Rightarrow> chanban \<Rightarrow> bool \<Rightarrow> bool option" where
  "nickmatchban np bp visibleonly =
     (let fl = ban_flags bp;
          ident = (if IsSetHost np then (case nick_shident np of None \<Rightarrow> nick_ident np | Some s \<Rightarrow> s) else nick_ident np)
      in if has_flag fl CHANBAN_INVALID then Some False
         else
           (case part_matches (has_flag fl CHANBAN_USEREXACT) (has_flag fl CHANBAN_USERMASK) (ban_user bp) ident of
              None \<Rightarrow> None
            | Some False \<Rightarrow> Some False
            | Some True \<Rightarrow>
           (case part_matches (has_flag fl CHANBAN_NICKEXACT) (has_flag fl CHANBAN_NICKMASK) (ban_nick bp) (nick_name np) of
              None \<Rightarrow> None
            | Some False \<Rightarrow> Some False
            | Some True \<Rightarrow>
              if has_flag fl CHANBAN_HOSTANY then Some True
              else
                let visibleonly = (visibleonly \<and> (IsSetHost np \<or> (IsAccount np \<and> IsHideHost np)))
                in or_else
                     (if has_flag fl CHANBAN_IP \<and> \<not> visibleonly then
                        (case ban_ip bp of
                           Some (ip, Some bits) \<Rightarrow> Some (ipmask_check (nick_sin np) ip bits \<noteq> 0)
                         | _ \<Rightarrow> None)
                      else Some False)
                   (or_else
                     (if has_flag fl CHANBAN_HIDDENHOST \<and> IsAccount np
                      then host_matches bp (nick_authname np @ ''.'' @ HIS_HIDDENHOST) else Some False)
                   (or_else
                     (if IsSetHost np then
                        (case nick_sethost np of
                           None \<Rightarrow> if has_flag fl (CHANBAN_HOSTEXACT OR CHANBAN_HOSTMASK) then None else Some False
                         | Some h \<Rightarrow> host_matches bp h)
                      else Some False)
                     (if visibleonly then Some False else host_matches bp (nick_host np)))))))"

section \<open>The ban list of a channel\<close>

fun nickbanned :: "nick \<Rightarrow> chanban list \<Rightarrow> bool \<Rightarrow> bool option" where
  "nickbanned np [] vis = Some False"
| "nickbanned np (cbp # bans) vis = or_else (nickmatchban np cbp vis) (nickbanned np bans vis)"

text \<open>\<open>setban\<close>: is the new ban enclosed by one of the list, and the list without the enclosed ones.\<close>

fun enclosed :: "chanban list \<Rightarrow> chanban \<Rightarrow> bool option" where
  "enclosed [] cbp = Some False"
| "enclosed (cbp2 # bans) cbp = or_else (banoverlap cbp2 cbp) (enclosed bans cbp)"

fun remove_enclosed :: "chanban \<Rightarrow> chanban list \<Rightarrow> chanban list option" where
  "remove_enclosed cbp [] = Some []"
| "remove_enclosed cbp (b # bans) =
     (case banoverlap cbp b of
        None \<Rightarrow> None
      | Some True \<Rightarrow> remove_enclosed cbp bans
      | Some False \<Rightarrow> map_option (Cons b) (remove_enclosed cbp bans))"

definition setban :: "int \<Rightarrow> chanban list \<Rightarrow> string \<Rightarrow> (int \<times> chanban list) option" where
  "setban now bans ban =
     (case makeban now ban of
        None \<Rightarrow> None
      | Some cbp \<Rightarrow>
          (case enclosed bans cbp of
             None \<Rightarrow> None
           | Some True \<Rightarrow> Some (0, bans)
           | Some False \<Rightarrow> map_option (\<lambda>bs. (1, cbp # bs)) (remove_enclosed cbp bans)))"

fun remove_equal :: "chanban \<Rightarrow> chanban list \<Rightarrow> int \<times> chanban list" where
  "remove_equal cbp [] = (0, [])"
| "remove_equal cbp (b # bans) =
     (if banequal cbp b then (1, bans) else (let (r, bs) = remove_equal cbp bans in (r, b # bs)))"

definition clearban :: "int \<Rightarrow> chanban list \<Rightarrow> string \<Rightarrow> (int \<times> chanban list) option" where
  "clearban now bans ban = map_option (\<lambda>cbp. remove_equal cbp bans) (makeban now ban)"

definition clearallbans :: "chanban list \<Rightarrow> chanban list" where
  "clearallbans bans = []"

section \<open>Flags\<close>

lemma has_flag_or [simp]:
  "has_flag (a OR b) f \<longleftrightarrow> has_flag a f \<or> has_flag b f" "has_flag w (f OR g) \<longleftrightarrow> has_flag w f \<or> has_flag w g"
  "\<not> has_flag 0 f"
  by (auto simp: has_flag_def bit_eq_iff bit_simps)

section \<open>Well-formed bans\<close>

text \<open>Each part is of one class; masks are not empty.\<close>

definition part_wf :: "32 word \<Rightarrow> 32 word \<Rightarrow> 32 word \<Rightarrow> 32 word \<Rightarrow> nat \<Rightarrow> 32 word \<Rightarrow> string option \<Rightarrow> bool" where
  "part_wf EXACT MASK ANY NUL' n fl s \<longleftrightarrow>
     (if has_flag fl EXACT then \<not> has_flag fl MASK \<and> \<not> has_flag fl ANY \<and> \<not> has_flag fl NUL'
        \<and> (\<exists>t. s = Some t \<and> cstring t \<and> length t \<le> n)
      else if has_flag fl MASK then \<not> has_flag fl ANY \<and> \<not> has_flag fl NUL'
        \<and> (\<exists>t. s = Some t \<and> t \<noteq> [] \<and> cstring t \<and> length t \<le> n)
      else has_flag fl ANY \<noteq> has_flag fl NUL' \<and> s = None)"

definition ban_wf :: "chanban \<Rightarrow> bool" where
  "ban_wf b \<longleftrightarrow>
     part_wf CHANBAN_NICKEXACT CHANBAN_NICKMASK CHANBAN_NICKANY CHANBAN_NICKNULL NICKLEN (ban_flags b) (ban_nick b)
     \<and> part_wf CHANBAN_USEREXACT CHANBAN_USERMASK CHANBAN_USERANY CHANBAN_USERNULL USERLEN (ban_flags b) (ban_user b)
     \<and> part_wf CHANBAN_HOSTEXACT CHANBAN_HOSTMASK CHANBAN_HOSTANY CHANBAN_HOSTNULL HOSTLEN (ban_flags b) (ban_host b)
     \<and> (has_flag (ban_flags b) CHANBAN_IP \<longleftrightarrow> ban_ip b \<noteq> None)
     \<and> (has_flag (ban_flags b) CHANBAN_USERNULL \<or> has_flag (ban_flags b) CHANBAN_HOSTNULL
        \<longrightarrow> has_flag (ban_flags b) CHANBAN_INVALID)"

lemma at_scan_Some: "at_scan m n w = (Some i, w') \<Longrightarrow> i < n \<and> m ! i = CHR ''@''"
  by (induction m n w rule: at_scan.induct) (auto split: if_splits)

lemma bang_scan_Some: "bang_scan m n i w = (Some j, w') \<Longrightarrow> i \<le> j \<and> j < n \<and> m ! j = CHR ''!''"
proof (induction m n i w rule: bang_scan.induct)
  case (1 m n i w)
  from 1(2) show ?case
    using 1(1) by (subst (asm) bang_scan.simps) (auto split: if_splits dest: Suc_leD)
qed

lemma host_part_wf:
  assumes "host_part m i w = (fl, host, ip)" "cstring m" "i < length m"
  shows "part_wf CHANBAN_HOSTEXACT CHANBAN_HOSTMASK CHANBAN_HOSTANY CHANBAN_HOSTNULL HOSTLEN fl host"
    "has_flag fl CHANBAN_IP \<longleftrightarrow> ip \<noteq> None" "has_flag fl CHANBAN_HOSTNULL \<Longrightarrow> has_flag fl CHANBAN_INVALID"
    "fl AND 0xFF = 0"
  using assms
  by (auto simp: host_part_def Let_def part_wf_def chanban_flags has_flag_def sstr_take SSTRING_MAX_def HOSTLEN_def split: if_splits)


lemma nick_part_wf:
  assumes "nick_part m i w = (fl, s)" "cstring m" "m \<noteq> []"
  shows "part_wf CHANBAN_NICKEXACT CHANBAN_NICKMASK CHANBAN_NICKANY CHANBAN_NICKNULL NICKLEN fl s" "fl AND 0xFFFFFFF0 = 0"
  using assms
  by (auto simp: nick_part_def Let_def part_wf_def chanban_flags has_flag_def sstr_take SSTRING_MAX_def NICKLEN_def split: if_splits)

lemma user_part_wf:
  assumes "user_part m at st = (fl, s)" "cstring m" "at < length m" "st \<le> at"
  shows "part_wf CHANBAN_USEREXACT CHANBAN_USERMASK CHANBAN_USERANY CHANBAN_USERNULL USERLEN fl s"
    "has_flag fl CHANBAN_USERNULL \<Longrightarrow> has_flag fl CHANBAN_INVALID" "fl AND 0xFFFFBF0F = 0"
proof -
  let ?P = "\<lambda>fl s. part_wf CHANBAN_USEREXACT CHANBAN_USERMASK CHANBAN_USERANY CHANBAN_USERNULL USERLEN fl s
    \<and> (has_flag fl CHANBAN_USERNULL \<longrightarrow> has_flag fl CHANBAN_INVALID) \<and> fl AND 0xFFFFBF0F = 0"
  note eval = part_wf_def chanban_flags has_flag_def
  have "\<not> has_flag CHANBAN_INVALID CHANBAN_USEREXACT" "\<not> has_flag CHANBAN_INVALID CHANBAN_USERMASK"
    "\<not> has_flag CHANBAN_INVALID CHANBAN_USERANY" "\<not> has_flag CHANBAN_INVALID CHANBAN_USERNULL"
    "has_flag CHANBAN_INVALID CHANBAN_INVALID" "CHANBAN_INVALID AND 0xFFFFBF0F = 0"
    by (simp_all add: has_flag_def chanban_flags)
  then have inv: "?P fl s \<Longrightarrow> ?P (fl OR CHANBAN_INVALID) s" for fl s
    by (auto simp: part_wf_def bit.conj_disj_distrib2)
  consider (empty) "at = st" | (long) "at - st > USERLEN"
    | (any) "at \<noteq> st" "\<not> at - st > USERLEN" "at - st = 1 \<and> m ! st = CHR ''*''"
    | (other) "at \<noteq> st" "\<not> at - st > USERLEN" "\<not> (at - st = 1 \<and> m ! st = CHR ''*'')" by blast
  then have "?P fl s"
  proof cases
    case empty
    with assms(1) show ?thesis by (auto simp: user_part_def eval)
  next
    case long
    let ?u = "sstr (CHR ''*'' # tl (take USERLEN (drop (at - USERLEN) m))) USERLEN"
    have "?P CHANBAN_USERMASK (Some ?u)"
      using assms(2) long assms(3) by (auto simp: eval sstr_take SSTRING_MAX_def USERLEN_def)
    with inv [of CHANBAN_USERMASK] assms(1) long show ?thesis by (auto simp: user_part_def Let_def split: if_splits)
  next
    case any
    with assms(1) show ?thesis by (auto simp: user_part_def eval)
  next
    case other
    let ?u = "sstr (drop st m) (at - st)"
    have u: "?u = take (at - st) (drop st m)" using other(2) by (intro sstr_take) (simp add: USERLEN_def SSTRING_MAX_def)
    then have "?u \<noteq> []" "cstring ?u" "length ?u \<le> USERLEN" using other assms(2-4) by auto
    then have "?P CHANBAN_USERMASK (Some ?u)" "?P CHANBAN_USEREXACT (Some ?u)" by (auto simp: eval)
    with inv [of CHANBAN_USERMASK] inv [of CHANBAN_USEREXACT] assms(1) other show ?thesis
      by (auto simp: user_part_def Let_def split: if_splits)
  qed
  then show "part_wf CHANBAN_USEREXACT CHANBAN_USERMASK CHANBAN_USERANY CHANBAN_USERNULL USERLEN fl s"
    "has_flag fl CHANBAN_USERNULL \<Longrightarrow> has_flag fl CHANBAN_INVALID" "fl AND 0xFFFFBF0F = 0" by blast+
qed

lemma part_wf_cong:
  "has_flag fl E = has_flag fl' E \<Longrightarrow> has_flag fl M = has_flag fl' M \<Longrightarrow> has_flag fl A = has_flag fl' A
    \<Longrightarrow> has_flag fl N = has_flag fl' N \<Longrightarrow> part_wf E M A N n fl s = part_wf E M A N n fl' s"
  by (simp add: part_wf_def)

lemma part_wf_class: "part_wf E M A N n fl s \<Longrightarrow> has_flag fl (E OR M OR A OR N)"
  by (auto simp: part_wf_def split: if_splits)

lemma no_flag: "fl AND m = 0 \<Longrightarrow> f AND m = f \<Longrightarrow> \<not> has_flag fl f"
proof -
  assume "fl AND m = 0" "f AND m = f"
  have "fl AND f = fl AND (m AND f)" using \<open>f AND m = f\<close> by (simp add: and.commute)
  also have "\<dots> = (fl AND m) AND f" by (rule and.assoc [symmetric])
  finally show ?thesis using \<open>fl AND m = 0\<close> by (simp add: has_flag_def)
qed

lemma host_no_flags:
  assumes "fl AND (0xFF :: 32 word) = 0"
  shows "\<not> has_flag fl CHANBAN_NICKEXACT" "\<not> has_flag fl CHANBAN_NICKMASK" "\<not> has_flag fl CHANBAN_NICKANY"
    "\<not> has_flag fl CHANBAN_NICKNULL" "\<not> has_flag fl CHANBAN_USEREXACT" "\<not> has_flag fl CHANBAN_USERMASK"
    "\<not> has_flag fl CHANBAN_USERANY" "\<not> has_flag fl CHANBAN_USERNULL"
  by (rule no_flag [OF assms], simp add: chanban_flags)+

lemma nick_no_flags:
  assumes "fl AND (0xFFFFFFF0 :: 32 word) = 0"
  shows "\<not> has_flag fl CHANBAN_HOSTEXACT" "\<not> has_flag fl CHANBAN_HOSTMASK" "\<not> has_flag fl CHANBAN_HOSTANY"
    "\<not> has_flag fl CHANBAN_HOSTNULL" "\<not> has_flag fl CHANBAN_USEREXACT" "\<not> has_flag fl CHANBAN_USERMASK"
    "\<not> has_flag fl CHANBAN_USERANY" "\<not> has_flag fl CHANBAN_USERNULL" "\<not> has_flag fl CHANBAN_IP"
    "\<not> has_flag fl CHANBAN_HIDDENHOST" "\<not> has_flag fl CHANBAN_INVALID"
  by (rule no_flag [OF assms], simp add: chanban_flags)+

lemma user_no_flags:
  assumes "fl AND (0xFFFFBF0F :: 32 word) = 0"
  shows "\<not> has_flag fl CHANBAN_HOSTEXACT" "\<not> has_flag fl CHANBAN_HOSTMASK" "\<not> has_flag fl CHANBAN_HOSTANY"
    "\<not> has_flag fl CHANBAN_HOSTNULL" "\<not> has_flag fl CHANBAN_NICKEXACT" "\<not> has_flag fl CHANBAN_NICKMASK"
    "\<not> has_flag fl CHANBAN_NICKANY" "\<not> has_flag fl CHANBAN_NICKNULL" "\<not> has_flag fl CHANBAN_IP"
    "\<not> has_flag fl CHANBAN_HIDDENHOST"
  by (rule no_flag [OF assms], simp add: chanban_flags)+

text \<open>The three parts of a mask with an at sign.\<close>

lemma makeban_at:
  assumes "at_scan m (length m) 0 = (Some i, w)" "cstring m"
    and h: "host_part m i w = (hfl, host, ip)" and b: "bang_scan m i 0 False = (bang, nw)"
    and n: "(case bang of None \<Rightarrow> (CHANBAN_NICKANY, None) | Some j \<Rightarrow> nick_part m j nw) = (nfl, nick)"
    and u: "user_part m i (case bang of None \<Rightarrow> 0 | Some j \<Rightarrow> j + 1) = (ufl, user)"
  shows "makeban now m = Some \<lparr>ban_flags = hfl OR nfl OR ufl, ban_nick = nick, ban_user = user, ban_host = host,
      ban_timeset = now, ban_ip = ip\<rparr>"
    "ban_wf \<lparr>ban_flags = hfl OR nfl OR ufl, ban_nick = nick, ban_user = user, ban_host = host,
      ban_timeset = now, ban_ip = ip\<rparr>"
    "\<forall>f \<in> {CHANBAN_NICKANY}. has_flag (hfl OR nfl OR ufl) f = has_flag nfl f"
    "\<forall>f \<in> {CHANBAN_USERANY}. has_flag (hfl OR nfl OR ufl) f = has_flag ufl f"
    "\<forall>f \<in> {CHANBAN_HOSTANY}. has_flag (hfl OR nfl OR ufl) f = has_flag hfl f"
proof -
  have i: "i < length m" "m ! i = CHR ''@''" using at_scan_Some [OF assms(1)] by simp_all
  have st: "(case bang of None \<Rightarrow> 0 | Some j \<Rightarrow> j + 1) \<le> i"
    using bang_scan_Some [of m i 0 False] b by (cases bang) auto
  have "m \<noteq> []" using i by auto
  then have nw': "part_wf CHANBAN_NICKEXACT CHANBAN_NICKMASK CHANBAN_NICKANY CHANBAN_NICKNULL NICKLEN nfl nick
      \<and> nfl AND 0xFFFFFFF0 = 0"
  proof (cases bang)
    case None
    with n show ?thesis by (auto simp: part_wf_def has_flag_def chanban_flags)
  next
    case (Some j)
    with n nick_part_wf [of m j nw nfl nick] assms(2) \<open>m \<noteq> []\<close> show ?thesis by simp
  qed
  note hw = host_part_wf [OF h assms(2) i(1)] and uw = user_part_wf [OF u assms(2) i(1) st]
  note nf = host_no_flags [OF hw(4)] nick_no_flags [OF conjunct2 [OF nw']] user_no_flags [OF uw(3)]
  have m: "m \<noteq> ''*''" using i by (cases m) auto
  show wf: "ban_wf \<lparr>ban_flags = hfl OR nfl OR ufl, ban_nick = nick, ban_user = user, ban_host = host,
      ban_timeset = now, ban_ip = ip\<rparr>"
    unfolding ban_wf_def chanban.simps
  proof (intro conjI)
    show "part_wf CHANBAN_NICKEXACT CHANBAN_NICKMASK CHANBAN_NICKANY CHANBAN_NICKNULL NICKLEN (hfl OR nfl OR ufl) nick"
      using conjunct1 [OF nw'] by (subst part_wf_cong [where fl' = nfl]) (simp_all add: nf)
    show "part_wf CHANBAN_USEREXACT CHANBAN_USERMASK CHANBAN_USERANY CHANBAN_USERNULL USERLEN (hfl OR nfl OR ufl) user"
      using uw(1) by (subst part_wf_cong [where fl' = ufl]) (simp_all add: nf)
    show "part_wf CHANBAN_HOSTEXACT CHANBAN_HOSTMASK CHANBAN_HOSTANY CHANBAN_HOSTNULL HOSTLEN (hfl OR nfl OR ufl) host"
      using hw(1) by (subst part_wf_cong [where fl' = hfl]) (simp_all add: nf)
  qed (use hw(2,3) uw(2) nf in auto)
  note cl = wf [unfolded ban_wf_def chanban.simps]
  note cl = part_wf_class [OF conjunct1 [OF conjunct2 [OF cl]]] part_wf_class [OF conjunct1 [OF cl]]
    part_wf_class [OF conjunct1 [OF conjunct2 [OF conjunct2 [OF cl]]]]
  then show "makeban now m = Some \<lparr>ban_flags = hfl OR nfl OR ufl, ban_nick = nick, ban_user = user, ban_host = host,
      ban_timeset = now, ban_ip = ip\<rparr>"
    using m assms(1) h b n u by (simp add: makeban_def del: has_flag_or)
  show "\<forall>f \<in> {CHANBAN_NICKANY}. has_flag (hfl OR nfl OR ufl) f = has_flag nfl f"
    "\<forall>f \<in> {CHANBAN_USERANY}. has_flag (hfl OR nfl OR ufl) f = has_flag ufl f"
    "\<forall>f \<in> {CHANBAN_HOSTANY}. has_flag (hfl OR nfl OR ufl) f = has_flag hfl f"
    using nf by simp_all
qed

lemma makeban_wf:
  assumes "cstring m"
  shows "\<exists>b. makeban now m = Some b \<and> ban_wf b"
proof (cases "m = ''*''")
  case True
  then show ?thesis by (simp add: makeban_def ban_wf_def part_wf_def has_flag_def chanban_flags)
next
  case False
  obtain at w where a: "at_scan m (length m) 0 = (at, w)" by fastforce
  show ?thesis
  proof (cases at)
    case None
    have "cstring (sstr m n) \<and> length (sstr m n) \<le> n" for n
      using assms by (auto simp: sstr_def getsstring_def Let_def split: option.splits if_splits)
    from this [of NICKLEN] this [of "length m"]
    have "cstring (if length m > NICKLEN then sstr m NICKLEN else sstr m (length m))"
        "length (if length m > NICKLEN then sstr m NICKLEN else sstr m (length m)) \<le> NICKLEN"
      by simp_all
    with False a None show ?thesis
      by (auto simp: makeban_def ban_wf_def part_wf_def has_flag_def chanban_flags)
  next
    case (Some i)
    obtain hfl host ip where h: "host_part m i w = (hfl, host, ip)" by (cases "host_part m i w")
    obtain bang nw where b: "bang_scan m i 0 False = (bang, nw)" by fastforce
    obtain nfl nick where n: "(case bang of None \<Rightarrow> (CHANBAN_NICKANY, None) | Some j \<Rightarrow> nick_part m j nw) = (nfl, nick)" by fastforce
    obtain ufl user where u: "user_part m i (case bang of None \<Rightarrow> 0 | Some j \<Rightarrow> j + 1) = (ufl, user)" by fastforce
    from makeban_at [OF a [unfolded Some] assms h b n u] show ?thesis by blast
  qed
qed

section \<open>Printing\<close>

lemma at_scan_last:
  "CHR ''@'' \<notin> set h \<Longrightarrow> k \<le> length h \<Longrightarrow> \<exists>w'. at_scan (p @ CHR ''@'' # h) (length p + 1 + k) w = (Some (length p), w')"
proof (induction k arbitrary: w)
  case (Suc k)
  have "(p @ CHR ''@'' # h) ! (length p + 1 + k) = h ! k" by (simp add: nth_append)
  moreover have "h ! k \<noteq> CHR ''@''" using Suc.prems by (metis Suc_le_lessD nth_mem)
  ultimately show ?case using Suc.IH Suc.prems by simp
qed (simp add: nth_append)

lemma bang_scan_first:
  "CHR ''!'' \<notin> set n \<Longrightarrow> i \<le> length n \<Longrightarrow> length n < at \<Longrightarrow> \<exists>w'. bang_scan (n @ CHR ''!'' # r) at i w = (Some (length n), w')"
proof (induction "length n - i" arbitrary: i w)
  case 0
  then show ?case by (subst bang_scan.simps) (simp add: nth_append)
next
  case (Suc k)
  then have i: "i < length n" by simp
  then have "(n @ CHR ''!'' # r) ! i \<noteq> CHR ''!''" using Suc.prems(1) by (metis nth_append nth_mem)
  with Suc.hyps(1) [of "i + 1"] Suc.hyps(2) Suc.prems i show ?case
    by (subst bang_scan.simps) simp
qed

lemma bang_scan_none:
  "CHR ''!'' \<notin> set n \<Longrightarrow> i \<le> length n \<Longrightarrow> \<exists>w'. bang_scan (n @ r) (length n) i w = (None, w')"
proof (induction "length n - i" arbitrary: i w)
  case 0
  then show ?case by (subst bang_scan.simps) simp
next
  case (Suc k)
  then have i: "i < length n" by simp
  then have "(n @ r) ! i \<noteq> CHR ''!''" using Suc.prems(1) by (metis nth_append nth_mem)
  with Suc.hyps(1) [of "i + 1"] Suc.hyps(2) Suc.prems i show ?case
    by (subst bang_scan.simps) simp
qed

lemma host_part_print:
  assumes "host_part (p @ CHR ''@'' # h) (length p) w = (fl, host, ip)" "length h \<le> HOSTLEN"
  shows "print_part (has_flag fl CHANBAN_HOSTANY) host = h"
proof -
  note eval = print_part_def has_flag_def chanban_flags
  have s: "sstr h HOSTLEN = h" using assms(2) by (simp add: sstr_take HOSTLEN_def SSTRING_MAX_def)
  consider (empty) "h = []" | (any) "h = ''*''" | (other) "h \<noteq> []" "h \<noteq> ''*''" by blast
  then show ?thesis
  proof cases
    case other
    then have "length (p @ CHR ''@'' # h) - 1 \<noteq> length p"
      "\<not> (length p = length (p @ CHR ''@'' # h) - 2 \<and> (p @ CHR ''@'' # h) ! (length p + 1) = CHR ''*'')"
      by (cases h; auto simp: nth_append)+
    with assms s show ?thesis by (auto simp: host_part_def Let_def eval split: if_splits)
  qed (use assms in \<open>auto simp: host_part_def eval nth_append split: if_splits\<close>)
qed

lemma nick_part_print:
  assumes "nick_part (n @ r) (length n) w = (fl, s)" "length n \<le> NICKLEN"
  shows "print_part (has_flag fl CHANBAN_NICKANY) s = n"
proof (cases "length n = 1 \<and> (n @ r) ! 0 = CHR ''*''")
  case True
  then have "n = ''*''" by (cases n) auto
  with assms True show ?thesis by (auto simp: nick_part_def print_part_def has_flag_def chanban_flags)
next
  case False
  have "sstr (n @ r) (length n) = n" using assms(2) by (simp add: sstr_take NICKLEN_def SSTRING_MAX_def)
  with assms False show ?thesis
    by (auto simp: nick_part_def print_part_def has_flag_def chanban_flags split: if_splits)
qed

lemma user_part_print:
  assumes "user_part (p @ u @ r) (length p + length u) (length p) = (fl, s)" "length u \<le> USERLEN"
  shows "print_part (has_flag fl CHANBAN_USERANY) s = u"
proof -
  note eval = print_part_def has_flag_def chanban_flags
  have s: "sstr (u @ r) (length u) = u" using assms(2) by (simp add: sstr_take USERLEN_def SSTRING_MAX_def)
  consider (empty) "u = []" | (any) "u = ''*''" | (other) "u \<noteq> []" "u \<noteq> ''*''" by blast
  then show ?thesis
  proof cases
    case other
    then have "\<not> (length u = 1 \<and> (p @ u @ r) ! length p = CHR ''*'')" by (cases u) (auto simp: nth_append)
    with assms other s show ?thesis by (auto simp: user_part_def Let_def eval split: if_splits)
  qed (use assms in \<open>auto simp: user_part_def eval nth_append split: if_splits\<close>)
qed

text \<open>
  C30: no assertion of \<open>makeban\<close> fails on a mask \<open>nick!user@host\<close> whose parts fit; the ban has
  exactly one class for each part, and \<open>bantostring\<close> prints the mask back unchanged, empty
  parts and lone stars included.
\<close>

theorem bantostring_makeban:
  assumes "cstring n" "cstring u" "cstring h" "CHR ''!'' \<notin> set n" "CHR ''@'' \<notin> set h"
    "length n \<le> NICKLEN" "length u \<le> USERLEN" "length h \<le> HOSTLEN"
  shows "\<exists>b. makeban now (n @ ''!'' @ u @ ''@'' @ h) = Some b \<and> ban_wf b
    \<and> bantostring b = n @ ''!'' @ u @ ''@'' @ h"
proof -
  let ?m = "n @ ''!'' @ u @ ''@'' @ h"
  let ?i = "length (n @ ''!'' @ u)"
  have m: "?m = (n @ ''!'' @ u) @ CHR ''@'' # h" "?m = n @ CHR ''!'' # u @ ''@'' @ h" "?m = (n @ ''!'') @ u @ ''@'' @ h" by simp_all
  have c: "cstring ?m" using assms(1-3) by simp
  obtain w where a: "at_scan ?m (length ?m) 0 = (Some ?i, w)"
    using at_scan_last [OF assms(5) order_refl, of "n @ ''!'' @ u" 0] unfolding m(1) length_append [of "n @ ''!'' @ u"]
    by (auto simp del: at_scan.simps)
  obtain nw where b: "bang_scan ?m ?i 0 False = (Some (length n), nw)"
    using bang_scan_first [OF assms(4), of 0 ?i "u @ ''@'' @ h" False] unfolding m(2) by auto
  obtain hfl host ip where h: "host_part ?m ?i w = (hfl, host, ip)" by (cases "host_part ?m ?i w")
  obtain nfl nick where n: "nick_part ?m (length n) nw = (nfl, nick)" by fastforce
  obtain ufl user where u: "user_part ?m ?i (length n + 1) = (ufl, user)" by fastforce
  have "print_part (has_flag hfl CHANBAN_HOSTANY) host = h"
    using host_part_print [OF h [unfolded m(1)] assms(8)] .
  moreover have "print_part (has_flag nfl CHANBAN_NICKANY) nick = n" using nick_part_print [OF n assms(6)] .
  moreover have "print_part (has_flag ufl CHANBAN_USERANY) user = u"
    using user_part_print [of "n @ ''!''" u "''@'' @ h" ufl user] u assms(7) by simp
  moreover have "(case Some (length n) of None \<Rightarrow> (CHANBAN_NICKANY, None) | Some j \<Rightarrow> nick_part ?m j nw) = (nfl, nick)"
      "user_part ?m ?i (case Some (length n) of None \<Rightarrow> 0 | Some j \<Rightarrow> j + 1) = (ufl, user)"
    using n u by simp_all
  note makeban_at [OF a c h b this]
  ultimately show ?thesis by (auto simp: bantostring_def)
qed

lemma bantostring_makeban_witness:
  "map_option bantostring (makeban 0 (''nick*'' @ ''!'' @ ''*'' @ ''@'' @ ''1.2.3.4'')) = Some (''nick*'' @ ''!'' @ ''*'' @ ''@'' @ ''1.2.3.4'')"
  using bantostring_makeban [of "''nick*''" "''*''" "''1.2.3.4''" 0]
  by (auto simp: NICKLEN_def USERLEN_def HOSTLEN_def)

end
