(* ===== verification/BanLists.thy ===== *)
theory BanLists
  imports Bans
begin

text \<open>
  What the comparison of bans promises and what the ban list of a channel keeps
  (\<open>banoverlap\<close>, \<open>setban\<close>, \<open>clearban\<close>, \<open>nickbanned\<close>): an enclosing ban matches every user
  that the enclosed one matches, no ban of a list encloses another, and dropping enclosed
  bans does not unban anybody, for bans that match names only; and three places where the
  code does not do what its comments say.
\<close>

section \<open>Enclosing bans\<close>

lemma ToLower_eqI: "map ToLower s = map ToLower t \<Longrightarrow> glob ts s = glob ts t"
proof (induction ts arbitrary: s t)
  case (Cons x ts)
  have l: "length s = length t" using Cons.prems map_eq_imp_length_eq by blast
  show ?case
  proof (cases x)
    case GStar
    have "glob ts (drop k s) = glob ts (drop k t)" for k
      by (rule Cons.IH) (metis Cons.prems drop_map)
    then show ?thesis unfolding GStar glob_star l by (simp only:)
  next
    case GAny
    with l Cons.prems Cons.IH [of "tl s" "tl t"] show ?thesis by (cases s; cases t) simp_all
  next
    case (GLit d)
    with l Cons.prems Cons.IH [of "tl s" "tl t"] show ?thesis by (cases s; cases t) simp_all
  qed
qed auto

lemma part_superset:
  assumes wf: "part_wf E M A N n fa a" "part_wf E M A N n' fb b"
    and ov: "overlap_part E M A N fa a fb b = Some True"
    and s: "cstring s" and b: "part_matches (has_flag fb E) (has_flag fb M) b s = Some True"
  shows "part_matches (has_flag fa E) (has_flag fa M) a s = Some True"
proof -
  have lower: "ircd_strcmp s t = 0 \<longleftrightarrow> map ToLower s = map ToLower t" if "cstring t" for t
    by (rule ircd_strcmp_lower [OF s that])
  consider (exact) x where "has_flag fa E" "\<not> has_flag fa M" "a = Some x" "cstring x"
    | (msk) x where "\<not> has_flag fa E" "has_flag fa M" "a = Some x" "cstring x" "\<not> has_flag fa N"
    | (none) "\<not> has_flag fa E" "\<not> has_flag fa M"
    using wf(1) by (auto simp: part_wf_def split: if_splits)
  then show ?thesis
  proof cases
    case none
    then show ?thesis by (simp add: part_matches_def)
  next
    case exact
    then have "\<not> has_flag fb (A OR M OR N)"
      using ov by (auto simp: overlap_part_def Let_def split: if_splits)
    then have "has_flag fb E" "\<not> has_flag fb M" using wf(2) by (auto simp: part_wf_def split: if_splits)
    moreover then obtain y where y: "b = Some y" "cstring y" using wf(2) by (auto simp: part_wf_def split: if_splits)
    moreover have "ircd_strcmp x y = 0"
      using ov exact y(1) by (auto simp: overlap_part_def Let_def split: if_splits)
    ultimately show ?thesis
      using b lower exact ircd_strcmp_lower [OF exact(4) y(2)] by (simp add: part_matches_def)
  next
    case msk
    then have nb: "\<not> has_flag fb (A OR N)"
      using ov by (auto simp: overlap_part_def Let_def split: if_splits)
    then obtain y where y: "b = Some y" "cstring y" "has_flag fb E \<noteq> has_flag fb M"
      using wf(2) by (auto simp: part_wf_def split: if_splits)
    have "match2strings x s"
    proof (cases "has_flag fb M")
      case True
      then have "match2patterns x y = Some True"
        using ov msk y nb by (auto simp: overlap_part_def Let_def split: if_splits option.splits bool.splits)
      moreover have "match2strings y s" using b True y by (simp add: part_matches_def)
      ultimately show ?thesis using match2patterns_sound msk(4) y(2) s by blast
    next
      case False
      then have "match2strings x y" "ircd_strcmp s y = 0"
        using ov msk y nb b by (auto simp: overlap_part_def part_matches_def Let_def split: if_splits bool.splits)
      then show ?thesis
        using ToLower_eqI lower [OF y(2)] match2strings_glob [OF s] match2strings_glob [OF y(2)] by blast
    qed
    with msk show ?thesis by (simp add: part_matches_def)
  qed
qed

lemma host_matches_part:
  assumes "part_wf CHANBAN_HOSTEXACT CHANBAN_HOSTMASK A N n (ban_flags b) (ban_host b)"
  shows "host_matches b h =
    (if has_flag (ban_flags b) CHANBAN_HOSTEXACT \<or> has_flag (ban_flags b) CHANBAN_HOSTMASK
     then part_matches (has_flag (ban_flags b) CHANBAN_HOSTEXACT) (has_flag (ban_flags b) CHANBAN_HOSTMASK) (ban_host b) h
     else Some False)"
  using assms by (auto simp: host_matches_def part_matches_def part_wf_def split: if_splits)

definition nick_ok :: "nick \<Rightarrow> bool" where
  "nick_ok np \<longleftrightarrow> cstring (nick_name np) \<and> cstring (nick_ident np) \<and> cstring (nick_host np) \<and> cstring (nick_authname np)
     \<and> (\<forall>s. nick_shident np = Some s \<longrightarrow> cstring s) \<and> (\<forall>s. nick_sethost np = Some s \<longrightarrow> cstring s)
     \<and> (IsSetHost np \<longrightarrow> nick_sethost np \<noteq> None)"

text \<open>The hosts of a user that are compared with the host of a ban.\<close>

definition tested_hosts :: "nick \<Rightarrow> bool \<Rightarrow> bool \<Rightarrow> string list" where
  "tested_hosts np hidden vis =
     (if hidden \<and> IsAccount np then [nick_authname np @ ''.'' @ HIS_HIDDENHOST] else [])
     @ (if IsSetHost np then [the (nick_sethost np)] else [])
     @ (if vis \<and> (IsSetHost np \<or> (IsAccount np \<and> IsHideHost np)) then [] else [nick_host np])"

definition ident_of :: "nick \<Rightarrow> string" where
  "ident_of np = (if IsSetHost np then (case nick_shident np of None \<Rightarrow> nick_ident np | Some s \<Rightarrow> s) else nick_ident np)"

text \<open>The addresses that the ban covers.\<close>

definition ip_matches :: "nick \<Rightarrow> chanban \<Rightarrow> bool \<Rightarrow> bool" where
  "ip_matches np b vis \<longleftrightarrow> has_flag (ban_flags b) CHANBAN_IP \<and> \<not> (vis \<and> (IsSetHost np \<or> (IsAccount np \<and> IsHideHost np)))
     \<and> (\<exists>ip bits. ban_ip b = Some (ip, Some bits) \<and> ipmask_check (nick_sin np) ip bits \<noteq> 0)"

lemma or_else_Some [simp]: "or_else (Some x) (Some y) = Some (x \<or> y)"
  by (simp add: or_else_def split: bool.splits)

lemma part_matches_ok: "part_wf E M A N n fl s \<Longrightarrow> \<exists>r. part_matches (has_flag fl E) (has_flag fl M) s t = Some r"
  by (auto simp: part_wf_def part_matches_def split: if_splits)

lemma host_matches_ok:
  "ban_wf b \<Longrightarrow> \<exists>r. host_matches b h = Some r"
  using host_matches_part [of _ _ _ b h] part_matches_ok [of CHANBAN_HOSTEXACT CHANBAN_HOSTMASK CHANBAN_HOSTANY CHANBAN_HOSTNULL HOSTLEN "ban_flags b" "ban_host b" h]
  by (auto simp: ban_wf_def)

text \<open>What \<open>nickmatchban\<close> answers for a well-formed ban whose prefix length is known.\<close>

lemma nickmatchban_iff:
  assumes wf: "ban_wf b" and np: "nick_ok np" and ip: "\<forall>ip. ban_ip b \<noteq> Some (ip, None)"
  shows "\<exists>r. nickmatchban np b vis = Some r
    \<and> (r \<longleftrightarrow> \<not> has_flag (ban_flags b) CHANBAN_INVALID
        \<and> part_matches (has_flag (ban_flags b) CHANBAN_USEREXACT) (has_flag (ban_flags b) CHANBAN_USERMASK) (ban_user b) (ident_of np) = Some True
        \<and> part_matches (has_flag (ban_flags b) CHANBAN_NICKEXACT) (has_flag (ban_flags b) CHANBAN_NICKMASK) (ban_nick b) (nick_name np) = Some True
        \<and> (has_flag (ban_flags b) CHANBAN_HOSTANY \<or> ip_matches np b vis
           \<or> (\<exists>h \<in> set (tested_hosts np (has_flag (ban_flags b) CHANBAN_HIDDENHOST) vis). host_matches b h = Some True)))"
proof -
  let ?fl = "ban_flags b"
  obtain ru where u: "part_matches (has_flag ?fl CHANBAN_USEREXACT) (has_flag ?fl CHANBAN_USERMASK) (ban_user b) (ident_of np) = Some ru"
    using wf part_matches_ok unfolding ban_wf_def by blast
  obtain rn where n: "part_matches (has_flag ?fl CHANBAN_NICKEXACT) (has_flag ?fl CHANBAN_NICKMASK) (ban_nick b) (nick_name np) = Some rn"
    using wf part_matches_ok unfolding ban_wf_def by blast
  define hm where "hm h = (host_matches b h = Some True)" for h
  have hm: "host_matches b h = Some (hm h)" for h
    using host_matches_ok [OF wf, of h] by (auto simp: hm_def)
  have ipf: "(if has_flag ?fl CHANBAN_IP \<and> \<not> (vis \<and> (IsSetHost np \<or> (IsAccount np \<and> IsHideHost np)))
      then (case ban_ip b of Some (ip, Some bits) \<Rightarrow> Some (ipmask_check (nick_sin np) ip bits \<noteq> 0) | _ \<Rightarrow> None)
      else Some False) = Some (ip_matches np b vis)"
    using wf ip by (auto simp: ip_matches_def ban_wf_def split: option.splits prod.splits)
  have "nickmatchban np b vis = Some (\<not> has_flag ?fl CHANBAN_INVALID \<and> ru \<and> rn
      \<and> (has_flag ?fl CHANBAN_HOSTANY \<or> ip_matches np b vis \<or> (\<exists>h \<in> set (tested_hosts np (has_flag ?fl CHANBAN_HIDDENHOST) vis). hm h)))"
    unfolding nickmatchban_def Let_def ident_of_def [symmetric] u n ipf hm
    using np by (auto simp: nick_ok_def tested_hosts_def split: bool.splits)
  with u n show ?thesis by (simp add: hm_def)
qed

definition prefix_known :: "chanban \<Rightarrow> bool" where
  "prefix_known b \<longleftrightarrow> (case ban_ip b of Some (ip, None) \<Rightarrow> False | _ \<Rightarrow> True)"

lemma prefix_knownD: "prefix_known b \<Longrightarrow> \<forall>ip. ban_ip b \<noteq> Some (ip, None)"
  by (auto simp: prefix_known_def)

lemma ban_wfD:
  assumes "ban_wf b"
  shows "part_wf CHANBAN_NICKEXACT CHANBAN_NICKMASK CHANBAN_NICKANY CHANBAN_NICKNULL NICKLEN (ban_flags b) (ban_nick b)"
    "part_wf CHANBAN_USEREXACT CHANBAN_USERMASK CHANBAN_USERANY CHANBAN_USERNULL USERLEN (ban_flags b) (ban_user b)"
    "part_wf CHANBAN_HOSTEXACT CHANBAN_HOSTMASK CHANBAN_HOSTANY CHANBAN_HOSTNULL HOSTLEN (ban_flags b) (ban_host b)"
    "has_flag (ban_flags b) CHANBAN_IP \<longleftrightarrow> ban_ip b \<noteq> None"
    "has_flag (ban_flags b) CHANBAN_HOSTNULL \<Longrightarrow> has_flag (ban_flags b) CHANBAN_INVALID"
  using assms unfolding ban_wf_def by blast+

lemma banoverlap_parts:
  assumes "banoverlap a b = Some True"
  shows "overlap_part CHANBAN_NICKEXACT CHANBAN_NICKMASK CHANBAN_NICKANY CHANBAN_NICKNULL
      (ban_flags a) (ban_nick a) (ban_flags b) (ban_nick b) = Some True"
    "overlap_part CHANBAN_USEREXACT CHANBAN_USERMASK CHANBAN_USERANY CHANBAN_USERNULL
      (ban_flags a) (ban_user a) (ban_flags b) (ban_user b) = Some True"
    "overlap_part CHANBAN_HOSTEXACT CHANBAN_HOSTMASK CHANBAN_HOSTANY CHANBAN_HOSTNULL
      (ban_flags a) (ban_host a) (ban_flags b) (ban_host b) = Some True"
  using assms by (auto simp: banoverlap_def split: option.splits bool.splits)

lemma overlap_host_classes:
  assumes "part_wf E M A N n fa a" "part_wf E M A N n fb b" "overlap_part E M A N fa a fb b = Some True"
    "\<not> has_flag fa A" "\<not> has_flag fa N"
  shows "\<not> has_flag fb A" "has_flag fb E \<or> has_flag fb M" "has_flag fa E \<or> has_flag fa M"
  using assms by (auto simp: part_wf_def overlap_part_def Let_def split: if_splits option.splits bool.splits)

lemma tested_hosts_cstring: "nick_ok np \<Longrightarrow> h \<in> set (tested_hosts np hidden vis) \<Longrightarrow> cstring h"
  by (auto simp: tested_hosts_def nick_ok_def HIS_HIDDENHOST_def split: if_splits)

lemma superset:
  assumes wf: "ban_wf a" "ban_wf b" and np: "nick_ok np" and pk: "prefix_known a" "prefix_known b"
    and ov: "banoverlap a b = Some True" and b: "nickmatchban np b vis = Some True"
    and valid: "\<not> has_flag (ban_flags a) CHANBAN_INVALID"
    and host: "has_flag (ban_flags a) CHANBAN_HOSTANY \<or> \<not> has_flag (ban_flags b) CHANBAN_IP
      \<and> (has_flag (ban_flags b) CHANBAN_HIDDENHOST \<longrightarrow> has_flag (ban_flags a) CHANBAN_HIDDENHOST)"
  shows "nickmatchban np a vis = Some True"
proof -
  note A = nickmatchban_iff [OF wf(1) np prefix_knownD [OF pk(1)], of vis]
    and B = nickmatchban_iff [OF wf(2) np prefix_knownD [OF pk(2)], of vis]
  note Wa = ban_wfD [OF wf(1)] and Wb = ban_wfD [OF wf(2)]
  note ovp = banoverlap_parts [OF ov]
  have cs: "cstring (ident_of np)" "cstring (nick_name np)"
    using np by (auto simp: nick_ok_def ident_of_def split: option.splits)
  have user: "part_matches (has_flag (ban_flags a) CHANBAN_USEREXACT) (has_flag (ban_flags a) CHANBAN_USERMASK) (ban_user a) (ident_of np) = Some True"
    using part_superset [OF Wa(2) Wb(2) ovp(2) cs(1)] B b by auto
  have nck: "part_matches (has_flag (ban_flags a) CHANBAN_NICKEXACT) (has_flag (ban_flags a) CHANBAN_NICKMASK) (ban_nick a) (nick_name np) = Some True"
    using part_superset [OF Wa(1) Wb(1) ovp(1) cs(2)] B b by auto
  have "has_flag (ban_flags a) CHANBAN_HOSTANY
      \<or> (\<exists>h \<in> set (tested_hosts np (has_flag (ban_flags a) CHANBAN_HIDDENHOST) vis). host_matches a h = Some True)"
  proof (cases "has_flag (ban_flags a) CHANBAN_HOSTANY")
    case False
    with host have nip: "\<not> ip_matches np b vis"
        and hid: "has_flag (ban_flags b) CHANBAN_HIDDENHOST \<longrightarrow> has_flag (ban_flags a) CHANBAN_HIDDENHOST"
      by (auto simp: ip_matches_def)
    have "\<not> has_flag (ban_flags a) CHANBAN_HOSTNULL" using valid Wa(5) by blast
    note cl = overlap_host_classes [OF Wa(3) Wb(3) ovp(3) False this]
    obtain h where h: "h \<in> set (tested_hosts np (has_flag (ban_flags b) CHANBAN_HIDDENHOST) vis)" "host_matches b h = Some True"
      using B b nip cl(1) by auto
    have "host_matches a h = Some True"
      using part_superset [OF Wa(3) Wb(3) ovp(3) tested_hosts_cstring [OF np h(1)]] h(2) cl
      unfolding host_matches_part [OF Wa(3)] host_matches_part [OF Wb(3)] by simp
    moreover have "h \<in> set (tested_hosts np (has_flag (ban_flags a) CHANBAN_HIDDENHOST) vis)"
      using h(1) hid by (auto simp: tested_hosts_def split: if_splits)
    ultimately show ?thesis by blast
  qed simp
  with A user nck valid show ?thesis by auto
qed


definition example_nick :: nick where
  "example_nick = \<lparr>nick_name = ''Joe'', nick_ident = ''joe'', nick_host = ''pc.example.org'', nick_shident = None,
     nick_sethost = None, nick_umodes = 0, nick_authname = '''', nick_sin = add_v4 0x01020304\<rparr>"


section \<open>Ban lists\<close>

fun antichain :: "chanban list \<Rightarrow> bool" where
  "antichain [] \<longleftrightarrow> True"
| "antichain (b # bs) \<longleftrightarrow> (\<forall>c \<in> set bs. banoverlap b c = Some False \<and> banoverlap c b = Some False) \<and> antichain bs"

lemma overlap_part_ok:
  assumes "part_wf E M A N n fa a" "part_wf E M A N n fb b"
  shows "overlap_part E M A N fa a fb b \<noteq> None"
proof -
  have "match2patterns s t = None \<Longrightarrow> s \<noteq> [] \<Longrightarrow> cstring s \<Longrightarrow> \<not> cstring t" for s t
    using mmatch_ok(1) [of s t] by (auto simp: match2patterns_def)
  with assms show ?thesis
    by (fastforce simp: part_wf_def overlap_part_def Let_def split: if_splits option.splits bool.splits)
qed

lemma banoverlap_ok: "ban_wf a \<Longrightarrow> ban_wf b \<Longrightarrow> \<exists>r. banoverlap a b = Some r"
  using overlap_part_ok [OF ban_wfD(1) ban_wfD(1), of a b] overlap_part_ok [OF ban_wfD(2) ban_wfD(2), of a b]
    overlap_part_ok [OF ban_wfD(3) ban_wfD(3), of a b]
  by (auto simp: banoverlap_def split: option.splits bool.splits)

lemma enclosed_ok:
  "ban_wf c \<Longrightarrow> \<forall>b \<in> set bs. ban_wf b \<Longrightarrow>
    enclosed bs c = Some (\<exists>b \<in> set bs. banoverlap b c = Some True)"
proof (induction bs)
  case (Cons b bs)
  obtain r where "banoverlap b c = Some r" using banoverlap_ok [of b c] Cons.prems by auto
  with Cons show ?case by auto
qed simp

lemma remove_enclosed_ok:
  "ban_wf c \<Longrightarrow> \<forall>b \<in> set bs. ban_wf b \<Longrightarrow> remove_enclosed c bs = Some (filter (\<lambda>b. banoverlap c b = Some False) bs)"
proof (induction bs)
  case (Cons b bs)
  obtain r where "banoverlap c b = Some r" using banoverlap_ok [of c b] Cons.prems by auto
  with Cons show ?case by (cases r) auto
qed simp

lemma antichain_filter: "antichain bs \<Longrightarrow> antichain (filter P bs)"
  by (induction bs) auto

lemma remove_equal_set: "set (snd (remove_equal c bs)) \<subseteq> set bs"
  by (induction bs) (auto split: prod.splits)

lemma remove_equal_antichain: "antichain bs \<Longrightarrow> antichain (snd (remove_equal c bs))"
proof (induction bs)
  case (Cons b bs)
  with remove_equal_set [of c bs] show ?case by (auto split: prod.splits)
qed simp

lemma setban_ok:
  assumes "\<forall>b \<in> set bs. ban_wf b" "antichain bs" "cstring m"
  shows "\<exists>r bs' c. setban now bs m = Some (r, bs') \<and> (\<forall>b \<in> set bs'. ban_wf b) \<and> antichain bs'
    \<and> makeban now m = Some c \<and> ban_wf c
    \<and> (if \<exists>b \<in> set bs. banoverlap b c = Some True then r = 0 \<and> bs' = bs
       else r = 1 \<and> bs' = c # filter (\<lambda>b. banoverlap c b = Some False) bs)"
proof -
  obtain c where c: "makeban now m = Some c" "ban_wf c" using makeban_wf [OF assms(3)] by blast
  obtain r where r: "enclosed bs c = Some r" "r \<longleftrightarrow> (\<exists>b \<in> set bs. banoverlap b c = Some True)"
    using enclosed_ok [OF c(2) assms(1)] by blast
  show ?thesis
  proof (cases r)
    case True
    with r c assms show ?thesis by (auto simp: setban_def)
  next
    case False
    let ?bs = "filter (\<lambda>b. banoverlap c b = Some False) bs"
    have "banoverlap b c = Some False" if "b \<in> set bs" for b
      using False r(2) banoverlap_ok [of b c] assms(1) c(2) that by (metis (full_types))
    then have "antichain (c # ?bs)" using antichain_filter [OF assms(2)] by auto
    with r c assms False show ?thesis by (auto simp: setban_def remove_enclosed_ok)
  qed
qed

datatype ban_op = SetBan string | ClearBan string | ClearAll

fun ban_step :: "int \<Rightarrow> chanban list \<Rightarrow> ban_op \<Rightarrow> chanban list option" where
  "ban_step now bs (SetBan m) = map_option snd (setban now bs m)"
| "ban_step now bs (ClearBan m) = map_option snd (clearban now bs m)"
| "ban_step now bs ClearAll = Some (clearallbans bs)"

fun ban_run :: "int \<Rightarrow> chanban list \<Rightarrow> ban_op list \<Rightarrow> chanban list option" where
  "ban_run now bs [] = Some bs"
| "ban_run now bs (op # ops) = (case ban_step now bs op of None \<Rightarrow> None | Some bs' \<Rightarrow> ban_run now bs' ops)"

fun ban_text :: "ban_op \<Rightarrow> string" where
  "ban_text (SetBan m) = m"
| "ban_text (ClearBan m) = m"
| "ban_text ClearAll = []"

lemma ban_step_ok:
  assumes "\<forall>b \<in> set bs. ban_wf b" "antichain bs" "cstring (ban_text op)"
  shows "\<exists>bs'. ban_step now bs op = Some bs' \<and> (\<forall>b \<in> set bs'. ban_wf b) \<and> antichain bs'"
proof (cases op)
  case (SetBan m)
  with setban_ok [OF assms(1,2), of m now] assms(3) show ?thesis by auto
next
  case (ClearBan m)
  obtain c where "makeban now m = Some c" using makeban_wf [of m now] assms(3) ClearBan by auto
  with ClearBan assms remove_equal_set [of c bs] remove_equal_antichain [of bs c] show ?thesis
    by (auto simp: clearban_def)
qed (simp add: clearallbans_def)

lemma ban_run_ok:
  "\<forall>b \<in> set bs. ban_wf b \<Longrightarrow> antichain bs \<Longrightarrow> \<forall>op \<in> set ops. cstring (ban_text op)
    \<Longrightarrow> \<exists>bs'. ban_run now bs ops = Some bs' \<and> (\<forall>b \<in> set bs'. ban_wf b) \<and> antichain bs'"
proof (induction ops arbitrary: bs)
  case (Cons op ops)
  obtain bs1 where "ban_step now bs op = Some bs1" "\<forall>b \<in> set bs1. ban_wf b" "antichain bs1"
    using ban_step_ok [of bs op now] Cons.prems by auto
  with Cons.IH [of bs1] Cons.prems show ?case by auto
qed simp


text \<open>A ban that is valid and matches neither addresses nor hidden hosts.\<close>

definition plain_ban :: "chanban \<Rightarrow> bool" where
  "plain_ban b \<longleftrightarrow> \<not> has_flag (ban_flags b) (CHANBAN_INVALID OR (CHANBAN_IP OR CHANBAN_HIDDENHOST))"

lemma plain_known: "ban_wf b \<Longrightarrow> plain_ban b \<Longrightarrow> prefix_known b"
  using ban_wfD(4) [of b] by (cases "ban_ip b") (auto simp: plain_ban_def prefix_known_def)

lemma plain_superset:
  assumes "ban_wf a" "ban_wf b" "plain_ban a" "plain_ban b" "nick_ok np" "banoverlap a b = Some True" "nickmatchban np b vis = Some True"
  shows "nickmatchban np a vis = Some True"
proof (rule superset [OF assms(1,2,5) _ _ assms(6,7)])
  show "prefix_known a" "prefix_known b"
    using plain_known assms(1-4) by blast+
qed (use assms(3,4) in \<open>simp_all add: plain_ban_def\<close>)

lemma nickbanned_iff:
  assumes "nick_ok np"
  shows "\<forall>b \<in> set bs. ban_wf b \<and> plain_ban b
    \<Longrightarrow> nickbanned np bs vis = Some (\<exists>b \<in> set bs. nickmatchban np b vis = Some True)"
proof (induction bs)
  case (Cons b bs)
  have "prefix_known b" using plain_known Cons.prems by simp
  with nickmatchban_iff [of b np vis] Cons.prems assms prefix_knownD
  obtain r where "nickmatchban np b vis = Some r" by auto
  with Cons show ?case by auto
qed simp

lemma setban_matches:
  assumes bs: "\<forall>b \<in> set bs. ban_wf b \<and> plain_ban b" "antichain bs" and m: "cstring m" "makeban now m = Some c" "plain_ban c"
    and np: "nick_ok np"
  shows "\<exists>bs'. ban_step now bs (SetBan m) = Some bs' \<and> (\<forall>b \<in> set bs'. ban_wf b \<and> plain_ban b) \<and> antichain bs'
    \<and> ((\<exists>b \<in> set bs'. nickmatchban np b vis = Some True)
        \<longleftrightarrow> (\<exists>b \<in> set bs. nickmatchban np b vis = Some True) \<or> nickmatchban np c vis = Some True)"
proof -
  obtain r bs' where s: "setban now bs m = Some (r, bs')" "\<forall>b \<in> set bs'. ban_wf b" "antichain bs'" "ban_wf c"
      "if \<exists>b \<in> set bs. banoverlap b c = Some True then r = 0 \<and> bs' = bs
       else r = 1 \<and> bs' = c # filter (\<lambda>b. banoverlap c b = Some False) bs"
    using setban_ok [of bs m now] bs m(1,2) by auto
  show ?thesis
  proof (cases "\<exists>b \<in> set bs. banoverlap b c = Some True")
    case True
    then obtain b where b: "b \<in> set bs" "banoverlap b c = Some True" by blast
    have "\<exists>b \<in> set bs. nickmatchban np b vis = Some True" if "nickmatchban np c vis = Some True"
      using plain_superset [of b c np vis] b bs(1) s(4) m(3) np that by blast
    with True s bs show ?thesis by auto
  next
    case False
    have "nickmatchban np c vis = Some True \<or> banoverlap c b = Some False"
      if "b \<in> set bs" "nickmatchban np b vis = Some True" for b
      using plain_superset [of c b np vis] banoverlap_ok [of c b] that bs(1) s(4) m(3) np by auto
    then have "(\<exists>b \<in> set bs'. nickmatchban np b vis = Some True)
        \<longleftrightarrow> (\<exists>b \<in> set bs. nickmatchban np b vis = Some True) \<or> nickmatchban np c vis = Some True"
      using False s(5) by auto
    with False s bs m(3) show ?thesis by auto
  qed
qed

lemma setbans_match:
  assumes np: "nick_ok np"
  shows "\<forall>b \<in> set bs. ban_wf b \<and> plain_ban b \<Longrightarrow> antichain bs
    \<Longrightarrow> \<forall>m \<in> set ms. cstring m \<and> (\<exists>c. makeban now m = Some c \<and> plain_ban c)
    \<Longrightarrow> \<exists>bs'. ban_run now bs (map SetBan ms) = Some bs' \<and> (\<forall>b \<in> set bs'. ban_wf b \<and> plain_ban b)
      \<and> ((\<exists>b \<in> set bs'. nickmatchban np b vis = Some True)
        \<longleftrightarrow> (\<exists>b \<in> set bs. nickmatchban np b vis = Some True)
          \<or> (\<exists>m \<in> set ms. nickmatchban np (the (makeban now m)) vis = Some True))"
proof (induction ms arbitrary: bs)
  case (Cons m ms)
  obtain c where c: "makeban now m = Some c" "plain_ban c" "cstring m" using Cons.prems(3) by auto
  obtain bs1 where b1: "ban_step now bs (SetBan m) = Some bs1" "\<forall>b \<in> set bs1. ban_wf b \<and> plain_ban b" "antichain bs1"
      "(\<exists>b \<in> set bs1. nickmatchban np b vis = Some True)
        \<longleftrightarrow> (\<exists>b \<in> set bs. nickmatchban np b vis = Some True) \<or> nickmatchban np c vis = Some True"
    using setban_matches [OF Cons.prems(1,2) c(3,1,2) np] by blast
  from Cons.IH [OF b1(2,3)] Cons.prems(3) b1 c(1) show ?case by auto
qed auto

text \<open>
  C14: whatever bans are set and cleared, no operation fails and no ban of the list encloses
  another one; and after setting bans that match neither addresses nor hidden hosts exactly
  the users are banned that one of the masks matches, although enclosed bans are dropped.
\<close>

theorem ban_list_antichain:
  assumes "\<forall>op \<in> set ops. cstring (ban_text op)" "nick_ok np"
    "\<forall>m \<in> set ms. cstring m \<and> (\<exists>c. makeban now m = Some c \<and> plain_ban c)"
  shows "(\<exists>bs. ban_run now [] ops = Some bs \<and> antichain bs)
    \<and> (\<exists>bs. ban_run now [] (map SetBan ms) = Some bs
        \<and> nickbanned np bs vis = Some (\<exists>m \<in> set ms. nickmatchban np (the (makeban now m)) vis = Some True))"
proof
  show "\<exists>bs. ban_run now [] ops = Some bs \<and> antichain bs" using ban_run_ok [of "[]" ops now] assms(1) by auto
  obtain bs where bs: "ban_run now [] (map SetBan ms) = Some bs" "\<forall>b \<in> set bs. ban_wf b \<and> plain_ban b"
      "(\<exists>b \<in> set bs. nickmatchban np b vis = Some True)
        \<longleftrightarrow> (\<exists>m \<in> set ms. nickmatchban np (the (makeban now m)) vis = Some True)"
    using setbans_match [OF assms(2), of "[]" ms now vis] assms(3) by auto
  then show "\<exists>bs. ban_run now [] (map SetBan ms) = Some bs
      \<and> nickbanned np bs vis = Some (\<exists>m \<in> set ms. nickmatchban np (the (makeban now m)) vis = Some True)"
    using nickbanned_iff [OF assms(2) bs(2)] by simp
qed

lemma ban_list_antichain_witness:
  "(\<exists>bs. ban_run 0 [] [SetBan ''*!*@*.example.org''] = Some bs \<and> antichain bs)
    \<and> (\<exists>bs. ban_run 0 [] (map SetBan [''*!*@*.example.org'']) = Some bs
        \<and> nickbanned example_nick bs True
          = Some (\<exists>m \<in> set [''*!*@*.example.org'']. nickmatchban example_nick (the (makeban 0 m)) True = Some True))"
proof (rule ban_list_antichain)
  have "makeban 0 ''*!*@*.example.org'' = Some \<lparr>ban_flags = 0x8244 - 0x8000, ban_nick = None, ban_user = None,
      ban_host = Some ''*.example.org'', ban_timeset = 0, ban_ip = None\<rparr>" by code_simp
  then show "\<forall>m \<in> set [''*!*@*.example.org'']. cstring m \<and> (\<exists>c. makeban 0 m = Some c \<and> plain_ban c)"
    by (simp add: plain_ban_def has_flag_def chanban_flags)
  show "nick_ok example_nick" by (simp add: nick_ok_def example_nick_def IsSetHost_def)
qed simp

section \<open>Where the code differs from what it means\<close>

text \<open>
  A mask without an at sign is a nick, and the loop that would find its wildcards does not
  run: it is an exact nick, stars included.
\<close>

lemma at_scan_absent: "CHR ''@'' \<notin> set m \<Longrightarrow> n \<le> length m \<Longrightarrow> \<exists>w'. at_scan m n w = (None, w')"
proof (induction m n w rule: at_scan.induct)
  case (2 m i w)
  have "m ! i \<noteq> CHR ''@''" using 2(2,3) by (metis Suc_le_lessD nth_mem)
  with 2 show ?case by simp
qed simp

lemma nick_mask_is_exact:
  assumes "CHR ''@'' \<notin> set m" "m \<noteq> ''*''" "cstring m"
  shows "\<exists>b. makeban now m = Some b \<and> has_flag (ban_flags b) CHANBAN_NICKEXACT \<and> ban_nick b = Some (take NICKLEN m)"
proof -
  obtain w where "at_scan m (length m) 0 = (None, w)" using at_scan_absent [OF assms(1) order_refl] by blast
  with assms(2) show ?thesis
    by (auto simp: makeban_def has_flag_def chanban_flags sstr_take NICKLEN_def SSTRING_MAX_def)
qed

text \<open>
  A mask with an empty nick is called invalid in a comment, but it is not marked as such and
  its nick is not tested, so that it matches every nick.
\<close>

lemma empty_nick_matches: "nickmatchban np (the (makeban now ''!*@*'')) vis = Some True"
proof -
  have "at_scan ''!*@*'' (length ''!*@*'') 0 = (Some 2, 3)" "bang_scan ''!*@*'' 2 0 False = (Some 0, False)"
    "user_part ''!*@*'' 2 1 = (0x40, None)" "host_part ''!*@*'' 2 3 = (0x400, None, None)"
    by code_simp+
  then have "makeban now ''!*@*'' = Some \<lparr>ban_flags = 0x448, ban_nick = None, ban_user = None, ban_host = None,
      ban_timeset = now, ban_ip = None\<rparr>"
    by (simp add: makeban_def nick_part_def has_flag_def chanban_flags del: at_scan.simps list.size)
  then show ?thesis
    by (simp add: nickmatchban_def part_matches_def has_flag_def chanban_flags)
qed


end
