(* ===== verification/ChanHash.thy ===== *)
theory ChanHash
  imports Prelude "HOL-Library.Monad_Syntax"
begin

text \<open>
  The hash table of the users of a channel: \<open>channel/chanuserhash.c\<close> and the allocation of
  \<open>channel/channelalloc.c\<close>. A user is its numeric with the channel modes in the two bits
  above it; the marker \<open>nouser\<close> of a free slot, set when the module is loaded, is a
  parameter.
\<close>

unbundle bit_operations_syntax

section \<open>The table\<close>

record chanuserhash =
  hashsize :: nat
  totalusers :: nat
  ucontent :: "nat list"

abbreviation CU_NUMERICMASK :: nat where
  "CU_NUMERICMASK \<equiv> 0x3FFFFFFF"

abbreviation CUHASH_DEPTH :: nat where
  "CUHASH_DEPTH \<equiv> 10"

definition masked :: "nat \<Rightarrow> nat" where
  "masked numeric = numeric AND CU_NUMERICMASK"

text \<open>\<open>hashsize\<close> is an \<open>unsigned short\<close>; the content has the size that was asked for.\<close>

definition newchanuserhash :: "nat \<Rightarrow> nat \<Rightarrow> chanuserhash" where
  "newchanuserhash nouser n =
     \<lparr>hashsize = n mod 2 ^ 16, totalusers = 0, ucontent = replicate n nouser\<rparr>"

text \<open>
  The two probe loops, from their first slot. The result of \<open>add_probe\<close> is whether the table
  is too full, and the table.
\<close>

function add_probe ::
  "nat \<Rightarrow> nat \<Rightarrow> chanuserhash \<Rightarrow> nat \<Rightarrow> nat \<Rightarrow> nat \<Rightarrow> nat \<Rightarrow> bool \<times> chanuserhash" where
  "add_probe nouser numeric cuh hash hash2 i j =
     (if i < CUHASH_DEPTH \<and> (j \<noteq> hash \<or> i = 0) then
        if ucontent cuh ! j = nouser then
          (False, cuh\<lparr>ucontent := (ucontent cuh)[j := numeric],
                      totalusers := (totalusers cuh + 1) mod 2 ^ 16\<rparr>)
        else add_probe nouser numeric cuh hash hash2 (i + 1) ((j + hash2) mod hashsize cuh)
      else (True, cuh))"
  by pat_completeness auto
termination by (relation "measure (\<lambda>(_, _, _, _, _, i, _). CUHASH_DEPTH - i)") auto

function get_probe :: "chanuserhash \<Rightarrow> nat \<Rightarrow> nat \<Rightarrow> nat \<Rightarrow> nat \<Rightarrow> nat \<Rightarrow> nat option" where
  "get_probe cuh numeric hash hash2 i j =
     (if i < CUHASH_DEPTH \<and> (j \<noteq> hash \<or> i = 0) then
        if masked (ucontent cuh ! j) = masked numeric then Some j
        else get_probe cuh numeric hash hash2 (i + 1) ((j + hash2) mod hashsize cuh)
      else None)"
  by pat_completeness auto
termination by (relation "measure (\<lambda>(_, _, _, _, i, _). CUHASH_DEPTH - i)") auto

declare add_probe.simps [simp del] get_probe.simps [simp del]

text \<open>\<open>None\<close> is the division by a zero size.\<close>

definition hash2_of :: "nat \<Rightarrow> nat \<Rightarrow> nat" where
  "hash2_of sz numeric = (let hash2 = (masked numeric div sz) mod sz
                            in if hash2 = 0 then 1 else hash2)"

definition addnumerictochanuserhash ::
  "nat \<Rightarrow> chanuserhash \<Rightarrow> nat \<Rightarrow> (bool \<times> chanuserhash) option" where
  "addnumerictochanuserhash nouser cuh numeric =
     (if hashsize cuh = 0 then None
      else let hash = masked numeric mod hashsize cuh
           in Some (add_probe nouser numeric cuh hash (hash2_of (hashsize cuh) numeric) 0 hash))"

text \<open>The handle is the index of the slot.\<close>

definition getnumerichandlefromchanhash :: "chanuserhash \<Rightarrow> nat \<Rightarrow> nat option option" where
  "getnumerichandlefromchanhash cuh numeric =
     (if hashsize cuh = 0 then None
      else let hash = masked numeric mod hashsize cuh
           in Some (get_probe cuh numeric hash (hash2_of (hashsize cuh) numeric) 0 hash))"

text \<open>
  \<open>rehashchannel\<close>. The comparison \<open>totalusers*1.6 < hashsize\<close> of doubles is that of \<open>8 * total\<close>
  and \<open>5 * size\<close>, the product being rounded to the integer when \<open>5\<close> divides the total. The
  jump back with a larger size may go on for ever; the value is then \<open>None\<close>.
\<close>

definition next_hashsize :: "chanuserhash \<Rightarrow> nat" where
  "next_hashsize cuh =
     (if 8 * totalusers cuh < 5 * hashsize cuh then hashsize cuh + 1
      else let n = (3 * hashsize cuh div 2) OR 1
           in if n \<le> hashsize cuh then n + 1 else n)"

fun rehash_copy :: "nat \<Rightarrow> nat list \<Rightarrow> chanuserhash \<Rightarrow> (bool \<times> chanuserhash) option" where
  "rehash_copy nouser [] newhash = Some (False, newhash)"
| "rehash_copy nouser (x # xs) newhash =
     (if x \<noteq> nouser then do {
        (full, newhash) \<leftarrow> addnumerictochanuserhash nouser newhash x;
        if full then Some (True, newhash) else rehash_copy nouser xs newhash
      }
      else rehash_copy nouser xs newhash)"

partial_function (option) rehash_loop ::
  "nat \<Rightarrow> chanuserhash \<Rightarrow> nat \<Rightarrow> chanuserhash option" where
  "rehash_loop nouser cuh n = do {
     (full, newhash) \<leftarrow> rehash_copy nouser (take (hashsize cuh) (ucontent cuh))
                                          (newchanuserhash nouser n);
     if full then rehash_loop nouser cuh (n + 2) else Some newhash
   }"

definition rehashchannel :: "nat \<Rightarrow> chanuserhash \<Rightarrow> chanuserhash option" where
  "rehashchannel nouser cuh = rehash_loop nouser cuh (next_hashsize cuh)"

text \<open>The loop of \<open>addnicktochannel\<close> that puts a user into the table.\<close>

partial_function (option) add_loop :: "nat \<Rightarrow> nat \<Rightarrow> chanuserhash \<Rightarrow> chanuserhash option" where
  "add_loop nouser numeric cuh = do {
     (full, cuh) \<leftarrow> addnumerictochanuserhash nouser cuh numeric;
     if full then do { cuh \<leftarrow> rehashchannel nouser cuh; add_loop nouser numeric cuh }
     else Some cuh
   }"

text \<open>What \<open>delnickfromchannel\<close> does to the table: \<open>*lp=nouser\<close> and the count.\<close>

definition cuh_clear :: "nat \<Rightarrow> chanuserhash \<Rightarrow> nat \<Rightarrow> chanuserhash" where
  "cuh_clear nouser cuh i =
     cuh\<lparr>ucontent := (ucontent cuh)[i := nouser],
         totalusers := nat ((int (totalusers cuh) - 1) mod 2 ^ 16)\<rparr>"

section \<open>The probe sequence\<close>

text \<open>The slots both loops visit, in order.\<close>

function probe_slots :: "nat \<Rightarrow> nat \<Rightarrow> nat \<Rightarrow> nat \<Rightarrow> nat \<Rightarrow> nat list" where
  "probe_slots sz hash hash2 i j =
     (if i < CUHASH_DEPTH \<and> (j \<noteq> hash \<or> i = 0)
      then j # probe_slots sz hash hash2 (i + 1) ((j + hash2) mod sz) else [])"
  by pat_completeness auto
termination by (relation "measure (\<lambda>(_, _, _, i, _). CUHASH_DEPTH - i)") auto

declare probe_slots.simps [simp del]

definition probes :: "nat \<Rightarrow> nat \<Rightarrow> nat list" where
  "probes sz numeric =
     (let hash = masked numeric mod sz
      in probe_slots sz hash (hash2_of sz numeric) 0 hash)"

definition cuh_put :: "chanuserhash \<Rightarrow> nat \<Rightarrow> nat \<Rightarrow> chanuserhash" where
  "cuh_put cuh j numeric =
     cuh\<lparr>ucontent := (ucontent cuh)[j := numeric],
         totalusers := (totalusers cuh + 1) mod 2 ^ 16\<rparr>"

lemma cuh_put_sel [simp]:
  "hashsize (cuh_put cuh j x) = hashsize cuh"
  "ucontent (cuh_put cuh j x) = (ucontent cuh)[j := x]"
  "totalusers (cuh_put cuh j x) = (totalusers cuh + 1) mod 2 ^ 16"
  by (simp_all add: cuh_put_def)

lemma cuh_clear_sel [simp]:
  "hashsize (cuh_clear nouser cuh j) = hashsize cuh"
  "ucontent (cuh_clear nouser cuh j) = (ucontent cuh)[j := nouser]"
  "totalusers (cuh_clear nouser cuh j) = nat ((int (totalusers cuh) - 1) mod 2 ^ 16)"
  by (simp_all add: cuh_clear_def)

lemma add_probe_find:
  "add_probe nouser numeric cuh hash hash2 i j =
     (case find (\<lambda>j. ucontent cuh ! j = nouser) (probe_slots (hashsize cuh) hash hash2 i j) of
        None \<Rightarrow> (True, cuh) | Some j \<Rightarrow> (False, cuh_put cuh j numeric))"
proof (induction nouser numeric cuh hash hash2 i j rule: add_probe.induct)
  case (1 nouser numeric cuh hash hash2 i j)
  show ?case
    unfolding add_probe.simps [of _ _ _ _ _ i j] probe_slots.simps [of _ _ _ i j]
    using 1 by (auto simp: cuh_put_def)
qed

lemma get_probe_find:
  "get_probe cuh numeric hash hash2 i j =
     find (\<lambda>j. masked (ucontent cuh ! j) = masked numeric) (probe_slots (hashsize cuh) hash hash2 i j)"
proof (induction cuh numeric hash hash2 i j rule: get_probe.induct)
  case (1 cuh numeric hash hash2 i j)
  show ?case
    unfolding get_probe.simps [of _ _ _ _ i j] probe_slots.simps [of _ _ _ i j]
    using 1 by auto
qed

lemma addnumeric_find:
  "0 < hashsize cuh \<Longrightarrow> addnumerictochanuserhash nouser cuh numeric =
     Some (case find (\<lambda>j. ucontent cuh ! j = nouser) (probes (hashsize cuh) numeric) of
        None \<Rightarrow> (True, cuh) | Some j \<Rightarrow> (False, cuh_put cuh j numeric))"
  by (simp add: addnumerictochanuserhash_def probes_def Let_def add_probe_find)

lemma getnumeric_find:
  "0 < hashsize cuh \<Longrightarrow> getnumerichandlefromchanhash cuh numeric =
     Some (find (\<lambda>j. masked (ucontent cuh ! j) = masked numeric) (probes (hashsize cuh) numeric))"
  by (simp add: getnumerichandlefromchanhash_def probes_def Let_def get_probe_find)

lemma masked_mod: "masked n = n mod 2 ^ 30"
proof -
  have "CU_NUMERICMASK = mask 30" by (simp add: mask_eq_exp_minus_1)
  then show ?thesis by (simp only: masked_def take_bit_eq_mask [symmetric] take_bit_eq_mod)
qed

lemma masked_masked [simp]: "masked (masked n) = masked n"
  by (simp add: masked_mod)

lemma masked_less: "masked n < 2 ^ 30"
  by (simp add: masked_mod)

lemma probes_masked: "masked x = masked y \<Longrightarrow> probes sz x = probes sz y"
  by (simp add: probes_def hash2_of_def)

lemma probe_slots_less: "j < sz \<Longrightarrow> k \<in> set (probe_slots sz hash hash2 i j) \<Longrightarrow> k < sz"
proof (induction sz hash hash2 i j rule: probe_slots.induct)
  case (1 sz hash hash2 i j)
  have "(j + hash2) mod sz < sz" using 1(2) by simp
  then show ?case using 1 by (subst (asm) (2) probe_slots.simps) (auto split: if_splits)
qed

lemma probes_less: "0 < sz \<Longrightarrow> k \<in> set (probes sz x) \<Longrightarrow> k < sz"
  unfolding probes_def Let_def by (rule probe_slots_less) auto

section \<open>The users of a table\<close>

definition users :: "nat \<Rightarrow> chanuserhash \<Rightarrow> nat list" where
  "users nouser cuh = filter (\<lambda>x. x \<noteq> nouser) (take (hashsize cuh) (ucontent cuh))"

text \<open>The table as a map from the numerics to the stored words.\<close>

definition user_map :: "nat \<Rightarrow> chanuserhash \<Rightarrow> nat \<rightharpoonup> nat" where
  "user_map nouser cuh = map_of (map (\<lambda>x. (masked x, x)) (users nouser cuh))"

text \<open>Every user is in a slot of its own probe sequence, once, and is counted.\<close>

definition cuh_ok :: "nat \<Rightarrow> chanuserhash \<Rightarrow> bool" where
  "cuh_ok nouser cuh \<longleftrightarrow>
     0 < hashsize cuh \<and> hashsize cuh < 2 ^ 16 \<and> hashsize cuh \<le> length (ucontent cuh)
     \<and> totalusers cuh = length (users nouser cuh)
     \<and> distinct (map masked (users nouser cuh))
     \<and> (\<forall>i < hashsize cuh. ucontent cuh ! i \<noteq> nouser \<longrightarrow>
          masked (ucontent cuh ! i) \<noteq> masked nouser
          \<and> i \<in> set (probes (hashsize cuh) (ucontent cuh ! i)))"

lemma map_of_masked_insert:
  assumes "distinct (map masked (xs @ x # ys))"
  shows "map_of (map (\<lambda>x. (masked x, x)) (xs @ x # ys))
           = (map_of (map (\<lambda>x. (masked x, x)) (xs @ ys)))(masked x \<mapsto> x)"
proof -
  have "map_of (map (\<lambda>x. (masked x, x)) (xs @ x # ys))
          = map_of (map (\<lambda>x. (masked x, x)) (x # xs @ ys))"
    using assms by (subst map_of_inject_set) (auto simp: comp_def)
  then show ?thesis by simp
qed

lemma map_of_masked_delete:
  assumes "distinct (map masked (xs @ x # ys))"
  shows "map_of (map (\<lambda>x. (masked x, x)) (xs @ ys))
           = (map_of (map (\<lambda>x. (masked x, x)) (xs @ x # ys)))(masked x := None)"
proof -
  have "masked x \<notin> fst ` set (map (\<lambda>x. (masked x, x)) (xs @ ys))"
    using assms by force
  then show ?thesis
    by (simp only: map_of_masked_insert [OF assms] fun_upd_upd)
      (simp only: map_of_eq_None_iff [symmetric] fun_upd_idem)
qed

lemma slot_users_split:
  assumes "j < hashsize cuh" "hashsize cuh \<le> length (ucontent cuh)"
  obtains A B where
    "users nouser cuh = A @ (if ucontent cuh ! j = nouser then [] else [ucontent cuh ! j]) @ B"
    "\<And>x. x \<noteq> nouser \<Longrightarrow> users nouser (cuh_put cuh j x) = A @ x # B"
    "users nouser (cuh_clear nouser cuh j) = A @ B"
proof -
  let ?n = "hashsize cuh" and ?P = "\<lambda>x. x \<noteq> nouser"
  let ?ys = "take ?n (ucontent cuh)"
  let ?A = "filter ?P (take j ?ys)" and ?B = "filter ?P (drop (Suc j) ?ys)"
  have len: "j < length ?ys" using assms by simp
  have upd: "take ?n ((ucontent cuh)[j := x]) = take j ?ys @ x # drop (Suc j) ?ys" for x
    using upd_conv_take_nth_drop [OF len, of x] by (simp add: take_update_swap)
  have "?ys = take j ?ys @ ?ys ! j # drop (Suc j) ?ys"
    using len by (rule id_take_nth_drop)
  moreover have "?ys ! j = ucontent cuh ! j" using assms by simp
  ultimately have ys: "?ys = take j ?ys @ ucontent cuh ! j # drop (Suc j) ?ys" by simp
  show thesis
  proof
    show "users nouser cuh = ?A @ (if ucontent cuh ! j = nouser then [] else [ucontent cuh ! j]) @ ?B"
      unfolding users_def by (subst ys) simp
    show "users nouser (cuh_put cuh j x) = ?A @ x # ?B" if "x \<noteq> nouser" for x
      using that by (simp add: users_def cuh_put_def upd del: take_take drop_take)
    show "users nouser (cuh_clear nouser cuh j) = ?A @ ?B"
      by (simp add: users_def cuh_clear_def upd del: take_take drop_take)
  qed
qed

lemma user_map_Some:
  assumes "cuh_ok nouser cuh"
  shows "user_map nouser cuh k = Some x \<longleftrightarrow> x \<in> set (users nouser cuh) \<and> masked x = k"
proof -
  have "distinct (map fst (map (\<lambda>x. (masked x, x)) (users nouser cuh)))"
    using assms by (simp add: cuh_ok_def comp_def)
  then show ?thesis by (auto simp: user_map_def dest: map_of_SomeD intro: map_of_is_SomeI)
qed

lemma in_users:
  "hashsize cuh \<le> length (ucontent cuh) \<Longrightarrow>
   x \<in> set (users nouser cuh) \<longleftrightarrow> x \<noteq> nouser \<and> (\<exists>i < hashsize cuh. ucontent cuh ! i = x)"
  by (auto simp: users_def in_set_conv_nth)

text \<open>The operations on the map.\<close>

lemma find_Some_nth:
  "find P xs = Some x \<Longrightarrow> P x \<and> x \<in> set xs"
  by (induction xs) (auto split: if_splits)

lemma get_user_map:
  assumes ok: "cuh_ok nouser cuh" and num: "masked numeric \<noteq> masked nouser"
  obtains r where "getnumerichandlefromchanhash cuh numeric = Some r"
    "map_option (\<lambda>i. ucontent cuh ! i) r = user_map nouser cuh (masked numeric)"
    "\<And>i. r = Some i \<Longrightarrow> i < hashsize cuh \<and> ucontent cuh ! i \<noteq> nouser"
proof -
  let ?P = "\<lambda>j. masked (ucontent cuh ! j) = masked numeric"
  let ?r = "find ?P (probes (hashsize cuh) numeric)"
  have pos: "0 < hashsize cuh" and len: "hashsize cuh \<le> length (ucontent cuh)"
    using ok by (simp_all add: cuh_ok_def)
  have found: "i < hashsize cuh \<and> ucontent cuh ! i \<noteq> nouser \<and> ?P i" if "?r = Some i" for i
    using find_Some_nth [OF that] probes_less [OF pos] num by auto
  have "map_option (\<lambda>i. ucontent cuh ! i) ?r = user_map nouser cuh (masked numeric)"
  proof (cases ?r)
    case None
    have "masked x \<noteq> masked numeric" if x: "x \<in> set (users nouser cuh)" for x
    proof
      assume eq: "masked x = masked numeric"
      from x obtain i where i: "i < hashsize cuh" "ucontent cuh ! i = x" "x \<noteq> nouser"
        using in_users [OF len] by auto
      then have "i \<in> set (probes (hashsize cuh) x)" using ok by (auto simp: cuh_ok_def)
      then have "i \<in> set (probes (hashsize cuh) numeric)" by (simp add: probes_masked [OF eq])
      then show False using None i eq by (auto simp: find_None_iff)
    qed
    then have "user_map nouser cuh (masked numeric) = None"
      using user_map_Some [OF ok, of "masked numeric"]
      by (cases "user_map nouser cuh (masked numeric)") auto
    then show ?thesis using None by simp
  next
    case (Some i)
    then have "ucontent cuh ! i \<in> set (users nouser cuh)" "?P i"
      using found [OF Some] by (auto simp: in_users [OF len])
    then have "user_map nouser cuh (masked numeric) = Some (ucontent cuh ! i)"
      by (simp add: user_map_Some [OF ok])
    then show ?thesis using Some by simp
  qed
  then show thesis using that getnumeric_find [OF pos] found by blast
qed

lemma put_ok:
  assumes ok: "cuh_ok nouser cuh" and j: "j < hashsize cuh" "ucontent cuh ! j = nouser"
    and x: "masked x \<noteq> masked nouser" "user_map nouser cuh (masked x) = None"
    and probe: "j \<in> set (probes (hashsize cuh) x)"
  shows "cuh_ok nouser (cuh_put cuh j x)"
    "user_map nouser (cuh_put cuh j x) = (user_map nouser cuh)(masked x \<mapsto> x)"
    "length (users nouser (cuh_put cuh j x)) = Suc (length (users nouser cuh))"
proof -
  have len: "hashsize cuh \<le> length (ucontent cuh)" and hs: "hashsize cuh < 2 ^ 16"
    using ok by (simp_all add: cuh_ok_def)
  have xn: "x \<noteq> nouser" using x by auto
  from slot_users_split [OF j(1) len, of nouser] obtain A B where
    "users nouser cuh = A @ (if ucontent cuh ! j = nouser then [] else [ucontent cuh ! j]) @ B"
    "\<And>x. x \<noteq> nouser \<Longrightarrow> users nouser (cuh_put cuh j x) = A @ x # B" by metis
  then have AB: "users nouser cuh = A @ B" "users nouser (cuh_put cuh j x) = A @ x # B"
    using j(2) xn by simp_all
  have "masked y \<noteq> masked x" if "y \<in> set (users nouser cuh)" for y
    using that x(2) user_map_Some [OF ok, of "masked x" y] by auto
  then have fresh: "masked x \<notin> masked ` set (A @ B)" using AB(1) by fastforce
  have dist: "distinct (map masked (A @ x # B))"
    using ok fresh AB(1) by (auto simp: cuh_ok_def)
  show map: "user_map nouser (cuh_put cuh j x) = (user_map nouser cuh)(masked x \<mapsto> x)"
    unfolding user_map_def AB by (rule map_of_masked_insert [OF dist])
  show l: "length (users nouser (cuh_put cuh j x)) = Suc (length (users nouser cuh))"
    by (simp add: AB)
  have "length (users nouser (cuh_put cuh j x)) \<le> hashsize cuh"
    unfolding users_def by (rule order_trans [OF length_filter_le]) simp
  then have "totalusers (cuh_put cuh j x) = length (users nouser (cuh_put cuh j x))"
    using ok hs l by (simp add: cuh_ok_def)
  moreover have "masked ((ucontent cuh)[j := x] ! i) \<noteq> masked nouser
      \<and> i \<in> set (probes (hashsize cuh) ((ucontent cuh)[j := x] ! i))"
    if "i < hashsize cuh" "(ucontent cuh)[j := x] ! i \<noteq> nouser" for i
    using that ok x(1) probe len by (cases "i = j") (auto simp: cuh_ok_def)
  ultimately show "cuh_ok nouser (cuh_put cuh j x)"
    using ok dist len unfolding cuh_ok_def cuh_put_sel by (simp add: AB(2))
qed

lemma clear_ok:
  assumes ok: "cuh_ok nouser cuh" and j: "j < hashsize cuh" "ucontent cuh ! j \<noteq> nouser"
  shows "cuh_ok nouser (cuh_clear nouser cuh j)"
    "user_map nouser (cuh_clear nouser cuh j)
       = (user_map nouser cuh)(masked (ucontent cuh ! j) := None)"
    "Suc (length (users nouser (cuh_clear nouser cuh j))) = length (users nouser cuh)"
proof -
  let ?x = "ucontent cuh ! j"
  have len: "hashsize cuh \<le> length (ucontent cuh)" and hs: "hashsize cuh < 2 ^ 16"
    using ok by (simp_all add: cuh_ok_def)
  from slot_users_split [OF j(1) len, of nouser] obtain A B where
    "users nouser cuh = A @ (if ?x = nouser then [] else [?x]) @ B"
    "users nouser (cuh_clear nouser cuh j) = A @ B" by metis
  then have AB: "users nouser cuh = A @ ?x # B" "users nouser (cuh_clear nouser cuh j) = A @ B"
    using j(2) by simp_all
  have dist: "distinct (map masked (A @ ?x # B))" using ok by (simp add: cuh_ok_def AB(1))
  show "user_map nouser (cuh_clear nouser cuh j)
       = (user_map nouser cuh)(masked ?x := None)"
    unfolding user_map_def AB by (rule map_of_masked_delete [OF dist])
  show l: "Suc (length (users nouser (cuh_clear nouser cuh j))) = length (users nouser cuh)"
    by (simp add: AB)
  have "length (users nouser cuh) \<le> hashsize cuh"
    unfolding users_def by (rule order_trans [OF length_filter_le]) simp
  then have "length (users nouser (cuh_clear nouser cuh j)) < 2 ^ 16" using hs l by simp
  moreover have "int (totalusers cuh) - 1 = int (length (users nouser (cuh_clear nouser cuh j)))"
    using ok l by (simp add: cuh_ok_def)
  ultimately have "totalusers (cuh_clear nouser cuh j) = length (users nouser (cuh_clear nouser cuh j))"
    by (simp only: cuh_clear_sel) (simp add: nat_mod_distrib)
  moreover have "masked ((ucontent cuh)[j := nouser] ! i) \<noteq> masked nouser
      \<and> i \<in> set (probes (hashsize cuh) ((ucontent cuh)[j := nouser] ! i))"
    if "i < hashsize cuh" "(ucontent cuh)[j := nouser] ! i \<noteq> nouser" for i
    using that ok j(1) len by (cases "i = j") (auto simp: cuh_ok_def)
  ultimately show "cuh_ok nouser (cuh_clear nouser cuh j)"
    using ok dist len unfolding cuh_ok_def cuh_clear_sel by (simp add: AB(2))
qed

section \<open>Adding a user\<close>

lemma new_ok:
  assumes "0 < n mod 2 ^ 16"
  shows "cuh_ok nouser (newchanuserhash nouser n)" "users nouser (newchanuserhash nouser n) = []"
    "user_map nouser (newchanuserhash nouser n) = Map.empty"
proof -
  have le: "n mod 2 ^ 16 \<le> n" by (rule mod_less_eq_dividend)
  show users: "users nouser (newchanuserhash nouser n) = []"
    by (simp add: users_def newchanuserhash_def)
  show "user_map nouser (newchanuserhash nouser n) = Map.empty"
    by (simp add: user_map_def users)
  have "replicate n nouser ! i = nouser" if "i < n mod 2 ^ 16" for i
    using that le by (intro nth_replicate) linarith
  then show "cuh_ok nouser (newchanuserhash nouser n)"
    using assms le users by (simp add: cuh_ok_def newchanuserhash_def)
qed

lemma add_cases:
  assumes ok: "cuh_ok nouser cuh" and x: "masked x \<noteq> masked nouser"
    and fresh: "user_map nouser cuh (masked x) = None"
  obtains (full) "addnumerictochanuserhash nouser cuh x = Some (True, cuh)"
      "\<forall>j \<in> set (probes (hashsize cuh) x). ucontent cuh ! j \<noteq> nouser"
  | (fits) cuh' where "addnumerictochanuserhash nouser cuh x = Some (False, cuh')"
      "cuh_ok nouser cuh'" "user_map nouser cuh' = (user_map nouser cuh)(masked x \<mapsto> x)"
      "hashsize cuh' = hashsize cuh" "length (users nouser cuh') = Suc (length (users nouser cuh))"
proof -
  have pos: "0 < hashsize cuh" using ok by (simp add: cuh_ok_def)
  let ?r = "find (\<lambda>j. ucontent cuh ! j = nouser) (probes (hashsize cuh) x)"
  show thesis
  proof (cases ?r)
    case None
    then have "\<forall>j \<in> set (probes (hashsize cuh) x). ucontent cuh ! j \<noteq> nouser"
      by (auto simp: find_None_iff)
    then show thesis by (intro full) (simp_all add: addnumeric_find [OF pos] None)
  next
    case (Some j)
    have j: "ucontent cuh ! j = nouser" "j \<in> set (probes (hashsize cuh) x)"
      using find_Some_nth [OF Some] by simp_all
    have "j < hashsize cuh" by (rule probes_less [OF pos j(2)])
    note put = put_ok [OF ok this j(1) x fresh j(2)]
    show thesis
      by (rule fits [of "cuh_put cuh j x"]) (simp_all add: addnumeric_find [OF pos] Some put)
  qed
qed

lemma user_map_words:
  assumes "cuh_ok nouser cuh"
  shows "user_map nouser cuh = map_of (map (\<lambda>x. (masked x, x)) (users nouser cuh))"
    "distinct (map masked (users nouser cuh))"
    "\<forall>x \<in> set (users nouser cuh). masked x \<noteq> masked nouser"
proof -
  have "hashsize cuh \<le> length (ucontent cuh)" using assms by (simp add: cuh_ok_def)
  then show "\<forall>x \<in> set (users nouser cuh). masked x \<noteq> masked nouser"
    using assms by (auto simp: cuh_ok_def in_users)
qed (use assms in \<open>simp_all add: user_map_def cuh_ok_def\<close>)

text \<open>Copying: all the words of the old table go into the new one, or one does not fit.\<close>

lemma rehash_copy_filter:
  "rehash_copy nouser xs cuh = rehash_copy nouser (filter (\<lambda>x. x \<noteq> nouser) xs) cuh"
  by (induction xs arbitrary: cuh) (auto split: prod.splits Option.bind_splits)

lemma rehash_copy_users:
  "rehash_copy nouser (take (hashsize old) (ucontent old)) cuh = rehash_copy nouser (users nouser old) cuh"
  unfolding users_def by (rule rehash_copy_filter)

lemma rehash_copy_ok:
  assumes "cuh_ok nouser cuh" "nouser \<notin> set xs" "\<forall>x \<in> set xs. masked x \<noteq> masked nouser"
    "distinct (map masked xs)" "\<forall>x \<in> set xs. user_map nouser cuh (masked x) = None"
    "rehash_copy nouser xs cuh = Some (False, cuh')"
  shows "cuh_ok nouser cuh' \<and> hashsize cuh' = hashsize cuh
    \<and> user_map nouser cuh' = user_map nouser cuh ++ map_of (map (\<lambda>x. (masked x, x)) xs)"
  using assms
proof (induction xs arbitrary: cuh)
  case (Cons x xs)
  note c = add_cases [OF Cons.prems(1), of x]
  have x: "x \<noteq> nouser" "masked x \<noteq> masked nouser" "user_map nouser cuh (masked x) = None"
    using Cons.prems by auto
  show ?case
  proof (rule c [OF x(2,3)])
    assume "addnumerictochanuserhash nouser cuh x = Some (True, cuh)"
    then show ?thesis using Cons.prems(6) x(1) by simp
  next
    fix cuh1
    assume 1: "addnumerictochanuserhash nouser cuh x = Some (False, cuh1)" "cuh_ok nouser cuh1"
      "user_map nouser cuh1 = (user_map nouser cuh)(masked x \<mapsto> x)" "hashsize cuh1 = hashsize cuh"
    have "user_map nouser cuh1 (masked y) = None" if "y \<in> set xs" for y
      using Cons.prems(4,5) that 1(3) by (auto simp: image_iff)
    then have IH: "cuh_ok nouser cuh' \<and> hashsize cuh' = hashsize cuh1
        \<and> user_map nouser cuh' = user_map nouser cuh1 ++ map_of (map (\<lambda>x. (masked x, x)) xs)"
      using Cons.IH [OF 1(2)] Cons.prems 1(1) x(1) by simp
    have "masked x \<notin> dom (map_of (map (\<lambda>x. (masked x, x)) xs))"
      using Cons.prems(4) by (auto simp: dom_map_of_conv_image_fst image_comp)
    then show ?thesis
      using IH 1(3,4) by (auto simp: fun_eq_iff map_add_def split: option.splits)
  qed
qed simp

lemma rehash_copy_full:
  assumes "rehash_copy nouser xs cuh = Some (False, cuh')" "xs \<noteq> []" "nouser \<notin> set xs"
  shows "0 < hashsize cuh"
  using assms by (cases xs) (auto simp: addnumerictochanuserhash_def split: if_splits)

lemma rehash_copy_new:
  assumes ok: "cuh_ok nouser cuh" and ne: "users nouser cuh \<noteq> []"
    and c: "rehash_copy nouser (users nouser cuh) (newchanuserhash nouser n) = Some (False, new)"
  shows "cuh_ok nouser new \<and> user_map nouser new = user_map nouser cuh
    \<and> hashsize new = n mod 2 ^ 16"
proof -
  let ?new = "newchanuserhash nouser n"
  have nn: "nouser \<notin> set (users nouser cuh)" by (simp add: users_def)
  have "0 < n mod 2 ^ 16"
    using rehash_copy_full [OF c ne nn] by (simp add: newchanuserhash_def)
  note new = new_ok [OF this, of nouser]
  note words = user_map_words [OF ok]
  have "cuh_ok nouser new \<and> hashsize new = hashsize ?new
    \<and> user_map nouser new = user_map nouser ?new ++ map_of (map (\<lambda>x. (masked x, x)) (users nouser cuh))"
    by (rule rehash_copy_ok [OF new(1) nn words(3,2) _ c]) (simp add: new(3))
  then show ?thesis using words(1) new(3) by (simp add: newchanuserhash_def)
qed

text \<open>Whatever size the loop ends with, the table it makes holds the same users.\<close>

lemma rehash_loop_ok:
  assumes "rehash_loop nouser cuh n = Some cuh'" "cuh_ok nouser cuh" "users nouser cuh \<noteq> []"
  shows "cuh_ok nouser cuh' \<and> user_map nouser cuh' = user_map nouser cuh"
proof -
  let ?P = "\<lambda>nouser cuh (n :: nat) cuh'. cuh_ok nouser cuh \<longrightarrow> users nouser cuh \<noteq> [] \<longrightarrow>
              cuh_ok nouser cuh' \<and> user_map nouser cuh' = user_map nouser cuh"
  have "?P nouser cuh n cuh'"
  proof (rule rehash_loop.raw_induct [where P = ?P, OF _ assms(1)], intro impI)
    fix rec nouser cuh n cuh'
    assume IH: "\<And>nouser cuh n cuh'. rec nouser cuh n = Some cuh' \<Longrightarrow> ?P nouser cuh n cuh'"
      and eq: "do {
        (full, newhash) \<leftarrow> rehash_copy nouser (take (hashsize cuh) (ucontent cuh))
                                             (newchanuserhash nouser n);
        if full then rec nouser cuh (n + 2) else Some newhash } = Some cuh'"
      and ok: "cuh_ok nouser cuh" and ne: "users nouser cuh \<noteq> []"
    obtain full new where
      c: "rehash_copy nouser (users nouser cuh) (newchanuserhash nouser n) = Some (full, new)"
      and r: "(if full then rec nouser cuh (n + 2) else Some new) = Some cuh'"
      using eq by (auto simp: rehash_copy_users split: Option.bind_splits)
    show "cuh_ok nouser cuh' \<and> user_map nouser cuh' = user_map nouser cuh"
    proof (cases full)
      case True
      then show ?thesis using r IH ok ne by simp
    next
      case False
      then show ?thesis using rehash_copy_new [OF ok ne] c r by simp
    qed
  qed
  then show ?thesis using assms(2,3) by blast
qed

lemma hash_in_probes: "masked x mod sz \<in> set (probes sz x)"
  unfolding probes_def Let_def by (subst probe_slots.simps) simp

lemma full_users:
  assumes "cuh_ok nouser cuh" "\<forall>j \<in> set (probes (hashsize cuh) x). ucontent cuh ! j \<noteq> nouser"
  shows "users nouser cuh \<noteq> []"
proof -
  let ?j = "masked x mod hashsize cuh"
  have "ucontent cuh ! ?j \<noteq> nouser" using assms(2) hash_in_probes by blast
  moreover have "?j < hashsize cuh" "hashsize cuh \<le> length (ucontent cuh)"
    using assms(1) by (simp_all add: cuh_ok_def)
  ultimately have "ucontent cuh ! ?j \<in> set (users nouser cuh)" by (auto simp: in_users)
  then show ?thesis by auto
qed

lemma add_loop_ok:
  assumes "add_loop nouser x cuh = Some cuh'" "cuh_ok nouser cuh" "masked x \<noteq> masked nouser"
    "user_map nouser cuh (masked x) = None"
  shows "cuh_ok nouser cuh' \<and> user_map nouser cuh' = (user_map nouser cuh)(masked x \<mapsto> x)"
proof -
  let ?P = "\<lambda>nouser x cuh cuh'. cuh_ok nouser cuh \<longrightarrow> masked x \<noteq> masked nouser \<longrightarrow>
      user_map nouser cuh (masked x) = None \<longrightarrow>
      cuh_ok nouser cuh' \<and> user_map nouser cuh' = (user_map nouser cuh)(masked x \<mapsto> x)"
  have "?P nouser x cuh cuh'"
  proof (rule add_loop.raw_induct [where P = ?P, OF _ assms(1)], intro impI)
    fix rec nouser x cuh cuh'
    assume IH: "\<And>nouser x cuh cuh'. rec nouser x cuh = Some cuh' \<Longrightarrow> ?P nouser x cuh cuh'"
      and eq: "do {
        (full, cuh) \<leftarrow> addnumerictochanuserhash nouser cuh x;
        if full then do { cuh \<leftarrow> rehashchannel nouser cuh; rec nouser x cuh } else Some cuh
      } = Some cuh'"
      and ok: "cuh_ok nouser cuh" and x: "masked x \<noteq> masked nouser"
        "user_map nouser cuh (masked x) = None"
    show "cuh_ok nouser cuh' \<and> user_map nouser cuh' = (user_map nouser cuh)(masked x \<mapsto> x)"
    proof (rule add_cases [OF ok x])
      assume full: "addnumerictochanuserhash nouser cuh x = Some (True, cuh)"
        "\<forall>j \<in> set (probes (hashsize cuh) x). ucontent cuh ! j \<noteq> nouser"
      then obtain cuh1 where h: "rehashchannel nouser cuh = Some cuh1" "rec nouser x cuh1 = Some cuh'"
        using eq by (auto split: Option.bind_splits)
      have "cuh_ok nouser cuh1 \<and> user_map nouser cuh1 = user_map nouser cuh"
        using rehash_loop_ok [OF _ ok full_users [OF ok full(2)]] h(1)
        by (simp add: rehashchannel_def)
      then show ?thesis using IH [OF h(2)] x by simp
    qed (use eq in auto)
  qed
  then show ?thesis using assms(2,3,4) by blast
qed

section \<open>The loops return\<close>

text \<open>
  With fewer users than probes, a table fails only when a probe sequence comes back early. At
  the sizes 65521 and 65522, the largest of each parity below the bound of \<open>hashsize\<close> that
  serve, no sequence comes back within the ten probes, because the step is at most 16387.
\<close>

lemma big_size_step:
  assumes "sz = 65521 \<or> sz = 65522" "0 < d" "d < 10" "0 < k" "k \<le> 16387"
  shows "\<not> sz dvd d * (k::nat)"
proof
  assume "sz dvd d * k"
  then obtain q where q: "d * k = sz * q" by (elim dvdE)
  have "d * k \<le> 9 * 16387" using assms by (intro mult_le_mono) auto
  then have "\<not> 3 \<le> q" using q assms(1) mult_le_mono2 [of 3 q sz] by auto
  moreover have "0 < q" using q assms by (cases q) auto
  ultimately have "q = 1 \<or> q = 2" by linarith
  have "d = 1 \<or> d = 2 \<or> d = 3 \<or> d = 4 \<or> d = 5 \<or> d = 6 \<or> d = 7 \<or> d = 8 \<or> d = 9"
    using assms(2,3) by linarith
  moreover have "d * k = 65521 \<or> d * k = 131042 \<or> d * k = 65522 \<or> d * k = 131044"
    using q assms(1) \<open>q = 1 \<or> q = 2\<close> by auto
  ultimately show False using assms(5) by (elim disjE; hypsubst; presburger)
qed

lemma hash2_bound:
  assumes "sz = 65521 \<or> sz = 65522"
  shows "0 < hash2_of sz x \<and> hash2_of sz x \<le> 16387"
proof -
  have "masked x div sz \<le> (2 ^ 30) div sz"
    using masked_less [of x] by (intro div_le_mono) simp
  also have "\<dots> \<le> 16387" using assms by auto
  finally have "masked x div sz mod sz \<le> 16387"
    using mod_less_eq_dividend order_trans by blast
  then show ?thesis by (simp add: hash2_of_def Let_def)
qed

lemma mod_diff_dvd:
  assumes "(a + i * k) mod m = (a + j * k) mod (m::nat)" "i \<le> j"
  shows "m dvd (j - i) * k"
proof -
  have "m dvd (a + j * k) - (a + i * k)"
    using assms by (intro mod_eq_dvd_iff_nat [THEN iffD1]) auto
  then show ?thesis by (simp add: diff_mult_distrib)
qed

lemma probe_slots_steps:
  assumes "0 < sz" "\<And>d. 0 < d \<Longrightarrow> d < 10 \<Longrightarrow> \<not> sz dvd d * k" "i \<le> 10" "h < sz"
  shows "probe_slots sz h k i ((h + i * k) mod sz) = map (\<lambda>i. (h + i * k) mod sz) [i..<10]"
  using assms(3)
proof (induction "10 - i" arbitrary: i)
  case 0
  then show ?case by (simp add: probe_slots.simps)
next
  case (Suc n)
  then have i: "i < 10" by simp
  have "(h + i * k) mod sz \<noteq> h \<or> i = 0"
  proof (rule disjCI)
    assume "i \<noteq> 0"
    show "(h + i * k) mod sz \<noteq> h"
    proof
      assume "(h + i * k) mod sz = h"
      then have "(h + 0 * k) mod sz = (h + i * k) mod sz" using assms(4) by simp
      from mod_diff_dvd [OF this] show False using assms(2) [of i] i \<open>i \<noteq> 0\<close> by simp
    qed
  qed
  moreover have "((h + i * k) mod sz + k) mod sz = (h + (i + 1) * k) mod sz"
    by (simp add: mod_simps algebra_simps)
  moreover have "probe_slots sz h k (i + 1) ((h + (i + 1) * k) mod sz)
      = map (\<lambda>i. (h + i * k) mod sz) [i + 1..<10]"
    using Suc i by (intro Suc.hyps) auto
  ultimately show ?case using i by (subst probe_slots.simps) (simp add: upt_rec [of i])
qed

lemma probes_distinct:
  assumes "sz = 65521 \<or> sz = 65522"
  shows "distinct (probes sz x)" "length (probes sz x) = 10"
proof -
  let ?k = "hash2_of sz x" and ?h = "masked x mod sz"
  have pos: "0 < sz" using assms by auto
  have step: "\<not> sz dvd d * ?k" if "0 < d" "d < 10" for d
    using big_size_step [OF assms that] hash2_bound [OF assms] by blast
  have p: "probes sz x = map (\<lambda>i. (?h + i * ?k) mod sz) [0..<10]"
    using probe_slots_steps [OF pos step, of 0 ?h] pos by (simp add: probes_def Let_def)
  then show "length (probes sz x) = 10" by simp
  have "(?h + i * ?k) mod sz \<noteq> (?h + j * ?k) mod sz" if "i < j" "j < 10" for i j
    using mod_diff_dvd [of ?h i ?k sz j] step [of "j - i"] that by auto
  then have "inj_on (\<lambda>i. (?h + i * ?k) mod sz) {0..<10}"
    by (intro linorder_inj_onI') auto
  then show "distinct (probes sz x)" by (simp add: p distinct_map)
qed

lemma users_card:
  assumes "cuh_ok nouser cuh"
  shows "length (users nouser cuh) = card (dom (user_map nouser cuh))"
proof -
  have d: "distinct (map masked (users nouser cuh))" using assms by (simp add: cuh_ok_def)
  have "dom (user_map nouser cuh) = set (map masked (users nouser cuh))"
    by (simp add: user_map_def dom_map_of_conv_image_fst image_comp comp_def)
  then show ?thesis using distinct_card [OF d] by simp
qed

lemma big_fits:
  assumes ok: "cuh_ok nouser cuh" and big: "hashsize cuh = 65521 \<or> hashsize cuh = 65522"
    and few: "length (users nouser cuh) < 10"
    and free: "\<forall>j \<in> set (probes (hashsize cuh) x). ucontent cuh ! j \<noteq> nouser"
  shows False
proof -
  let ?ys = "take (hashsize cuh) (ucontent cuh)"
  have len: "hashsize cuh \<le> length (ucontent cuh)" and pos: "0 < hashsize cuh"
    using ok by (simp_all add: cuh_ok_def)
  have "set (probes (hashsize cuh) x) \<subseteq> {i. i < length ?ys \<and> ?ys ! i \<noteq> nouser}"
    using free len probes_less [OF pos] by auto
  then have "card (set (probes (hashsize cuh) x)) \<le> card {i. i < length ?ys \<and> ?ys ! i \<noteq> nouser}"
    by (intro card_mono) simp_all
  moreover have "card (set (probes (hashsize cuh) x)) = 10"
    using distinct_card [OF probes_distinct(1) [OF big]] probes_distinct(2) [OF big] by simp
  ultimately show False using few by (simp add: users_def length_filter_conv_card)
qed

lemma rehash_copy_returns:
  assumes "cuh_ok nouser cuh" "\<forall>x \<in> set xs. masked x \<noteq> masked nouser"
    "distinct (map masked xs)" "\<forall>x \<in> set xs. user_map nouser cuh (masked x) = None"
  obtains full cuh' where "rehash_copy nouser xs cuh = Some (full, cuh')"
    "full \<longrightarrow> \<not> ((hashsize cuh = 65521 \<or> hashsize cuh = 65522)
                    \<and> length (users nouser cuh) + length xs < 10)"
  using assms
proof (induction xs arbitrary: cuh thesis)
  case Nil
  show ?case by (rule Nil(1) [of False cuh]) simp_all
next
  case (Cons x xs)
  have x: "x \<noteq> nouser" "masked x \<noteq> masked nouser" "user_map nouser cuh (masked x) = None"
    using Cons.prems(3,5) by auto
  show ?case
  proof (rule add_cases [OF Cons.prems(2) x(2,3)])
    assume "addnumerictochanuserhash nouser cuh x = Some (True, cuh)"
      "\<forall>j \<in> set (probes (hashsize cuh) x). ucontent cuh ! j \<noteq> nouser"
    then show ?thesis
      using Cons.prems(1) [of True cuh] big_fits [OF Cons.prems(2)] x(1) by fastforce
  next
    fix cuh1
    assume 1: "addnumerictochanuserhash nouser cuh x = Some (False, cuh1)" "cuh_ok nouser cuh1"
      "user_map nouser cuh1 = (user_map nouser cuh)(masked x \<mapsto> x)" "hashsize cuh1 = hashsize cuh"
      "length (users nouser cuh1) = Suc (length (users nouser cuh))"
    have fresh: "user_map nouser cuh1 (masked y) = None" if "y \<in> set xs" for y
      using Cons.prems(4,5) that 1(3) by (auto simp: image_iff)
    obtain full cuh' where "rehash_copy nouser xs cuh1 = Some (full, cuh')"
      "full \<longrightarrow> \<not> ((hashsize cuh1 = 65521 \<or> hashsize cuh1 = 65522)
                    \<and> length (users nouser cuh1) + length xs < 10)"
      using Cons.IH [OF _ 1(2)] Cons.prems(3,4) fresh by (metis distinct.simps(2) list.set_intros(2) list.simps(9))
    then show ?thesis using Cons.prems(1) [of full cuh'] 1 x(1) by simp
  qed
qed

lemma rehash_loop_returns:
  assumes "cuh_ok nouser cuh" "length (users nouser cuh) < 10" "users nouser cuh \<noteq> []"
    "0 < n" "n \<le> 65522"
  shows "\<exists>cuh'. rehash_loop nouser cuh n = Some cuh' \<and> n \<le> hashsize cuh' \<and> hashsize cuh' \<le> 65522"
  using assms(4,5)
proof (induction "65522 - n" arbitrary: n rule: less_induct)
  case less
  let ?new = "newchanuserhash nouser n"
  have hs: "n mod 2 ^ 16 = n" using less.prems by simp
  then have "0 < n mod 2 ^ 16" using less.prems by simp
  note new = new_ok [OF this, of nouser]
  note words = user_map_words [OF assms(1)]
  have fresh: "\<forall>x \<in> set (users nouser cuh). user_map nouser ?new (masked x) = None"
    by (simp add: new(3))
  obtain full cuh' where c: "rehash_copy nouser (users nouser cuh) ?new = Some (full, cuh')"
    "full \<longrightarrow> \<not> ((hashsize ?new = 65521 \<or> hashsize ?new = 65522)
                    \<and> length (users nouser ?new) + length (users nouser cuh) < 10)"
    using rehash_copy_returns [OF new(1) words(3,2) fresh] by blast
  show ?case
  proof (cases full)
    case True
    then have "n \<noteq> 65521 \<and> n \<noteq> 65522" using c(2) new(2) assms(2) hs
      by (simp add: newchanuserhash_def)
    then have "65522 - (n + 2) < 65522 - n" "n + 2 \<le> 65522" using less.prems by auto
    then obtain r where "rehash_loop nouser cuh (n + 2) = Some r" "n + 2 \<le> hashsize r"
        "hashsize r \<le> 65522"
      using less.hyps [of "n + 2"] by auto
    then show ?thesis using c(1) True
      by (subst rehash_loop.simps) (simp add: rehash_copy_users)
  next
    case False
    then have "hashsize cuh' = n"
      using rehash_copy_new [OF assms(1,3)] c(1) hs by simp
    then show ?thesis using c(1) False less.prems
      by (subst rehash_loop.simps) (simp add: rehash_copy_users)
  qed
qed

lemma next_hashsize_bounds:
  assumes "cuh_ok nouser cuh" "length (users nouser cuh) < 10" "hashsize cuh \<le> 65520"
  shows "hashsize cuh < next_hashsize cuh \<and> next_hashsize cuh \<le> 65522"
proof -
  have t: "totalusers cuh < 10" using assms(1,2) by (simp add: cuh_ok_def)
  have "(3 * hashsize cuh div 2) OR 1 \<le> 3 * hashsize cuh div 2 + 1"
    "3 * hashsize cuh div 2 \<le> (3 * hashsize cuh div 2) OR 1" by (simp_all only: or_one_eq) simp_all
  then show ?thesis using t assms(3) by (auto simp: next_hashsize_def Let_def)
qed

lemma add_loop_returns:
  assumes "cuh_ok nouser cuh" "length (users nouser cuh) < 10" "hashsize cuh \<le> 65522"
    "masked x \<noteq> masked nouser" "user_map nouser cuh (masked x) = None"
  shows "\<exists>cuh'. add_loop nouser x cuh = Some cuh' \<and> hashsize cuh' \<le> 65522"
  using assms
proof (induction "65522 - hashsize cuh" arbitrary: cuh rule: less_induct)
  case less
  note ok = less.prems(1)
  show ?case
  proof (rule add_cases [OF ok less.prems(4,5)])
    assume full: "addnumerictochanuserhash nouser cuh x = Some (True, cuh)"
      "\<forall>j \<in> set (probes (hashsize cuh) x). ucontent cuh ! j \<noteq> nouser"
    have "hashsize cuh \<noteq> 65521 \<and> hashsize cuh \<noteq> 65522"
      using big_fits [OF ok _ less.prems(2) full(2)] by blast
    then have hs: "hashsize cuh \<le> 65520" using less.prems(3) by simp
    note ne = full_users [OF ok full(2)]
    note nh = next_hashsize_bounds [OF ok less.prems(2) hs]
    obtain cuh1 where 1: "rehash_loop nouser cuh (next_hashsize cuh) = Some cuh1"
        "next_hashsize cuh \<le> hashsize cuh1" "hashsize cuh1 \<le> 65522"
      using rehash_loop_returns [OF ok less.prems(2) ne _ nh [THEN conjunct2]] nh by auto
    have ok1: "cuh_ok nouser cuh1" and map1: "user_map nouser cuh1 = user_map nouser cuh"
      using rehash_loop_ok [OF 1(1) ok ne] by simp_all
    have "length (users nouser cuh1) = length (users nouser cuh)"
      by (simp add: users_card [OF ok1] users_card [OF ok] map1)
    moreover have "65522 - hashsize cuh1 < 65522 - hashsize cuh" using 1(2) nh hs by linarith
    ultimately obtain cuh' where "add_loop nouser x cuh1 = Some cuh'" "hashsize cuh' \<le> 65522"
      using less.hyps [of cuh1] ok1 map1 1 nh hs less.prems(2,4,5) by auto
    then show ?thesis using full(1) 1(1)
      by (subst add_loop.simps) (simp add: rehashchannel_def)
  next
    fix cuh' assume "addnumerictochanuserhash nouser cuh x = Some (False, cuh')"
      "hashsize cuh' = hashsize cuh"
    then show ?thesis using less.prems(3) by (subst add_loop.simps) simp
  qed
qed

section \<open>The contract of the table\<close>

text \<open>What the channels rely on: the table of a channel is a partial map.\<close>

locale user_table =
  fixes ok :: "'t \<Rightarrow> bool"
    and abs :: "'t \<Rightarrow> 'k \<rightharpoonup> 'v"
    and key :: "'v \<Rightarrow> 'k"
    and valid :: "'v \<Rightarrow> bool"
    and look :: "'t \<Rightarrow> 'v \<Rightarrow> 'h option option"
    and add :: "'v \<Rightarrow> 't \<Rightarrow> 't option"
    and clear :: "'t \<Rightarrow> 'h \<Rightarrow> 't"
    and total :: "'t \<Rightarrow> nat"
  assumes look_law: "ok t \<Longrightarrow> valid x \<Longrightarrow>
      \<exists>r. look t x = Some r \<and> (r = None \<longleftrightarrow> abs t (key x) = None)"
    and add_law: "ok t \<Longrightarrow> valid x \<Longrightarrow> abs t (key x) = None \<Longrightarrow> add x t = Some t' \<Longrightarrow>
      ok t' \<and> abs t' = (abs t)(key x \<mapsto> x)"
    and clear_law: "ok t \<Longrightarrow> valid x \<Longrightarrow> look t x = Some (Some h) \<Longrightarrow>
      ok (clear t h) \<and> abs (clear t h) = (abs t)(key x := None)"
    and total_law: "ok t \<Longrightarrow> finite (dom (abs t)) \<and> total t = card (dom (abs t))"
begin

lemma look_added:
  "ok t \<Longrightarrow> valid x \<Longrightarrow> abs t (key x) = None \<Longrightarrow> add x t = Some t' \<Longrightarrow>
   \<exists>h. look t' x = Some (Some h)"
  using look_law [of t' x] add_law [of t x t'] by auto

lemma look_other:
  assumes "ok t" "valid x" "abs t (key x) = None" "add x t = Some t'" "valid y" "key y \<noteq> key x"
  shows "look t' y = Some None \<longleftrightarrow> look t y = Some None"
  using look_law [of t' y] look_law [of t y] add_law [of t x t'] assms by auto

lemma clear_added:
  assumes "ok t" "valid x" "abs t (key x) = None" "add x t = Some t'" "look t' x = Some (Some h)"
  shows "abs (clear t' h) = abs t"
  using add_law [OF assms(1-4)] clear_law [of t' x h] assms by auto

lemma empty_total: "ok t \<Longrightarrow> total t = 0 \<longleftrightarrow> abs t = Map.empty"
  using total_law [of t] by (auto simp: fun_eq_iff domIff)

end

lemma cuh_look_law:
  assumes "cuh_ok nouser cuh" "masked x \<noteq> masked nouser"
  shows "\<exists>r. getnumerichandlefromchanhash cuh x = Some r
           \<and> (r = None \<longleftrightarrow> user_map nouser cuh (masked x) = None)"
  using get_user_map [OF assms] by (metis option.map_disc_iff)

lemma cuh_clear_law:
  assumes ok: "cuh_ok nouser cuh" and x: "masked x \<noteq> masked nouser"
    and h: "getnumerichandlefromchanhash cuh x = Some (Some h)"
  shows "cuh_ok nouser (cuh_clear nouser cuh h)
    \<and> user_map nouser (cuh_clear nouser cuh h) = (user_map nouser cuh)(masked x := None)"
proof -
  obtain r where "getnumerichandlefromchanhash cuh x = Some r"
    "map_option (\<lambda>i. ucontent cuh ! i) r = user_map nouser cuh (masked x)"
    "\<And>i. r = Some i \<Longrightarrow> i < hashsize cuh \<and> ucontent cuh ! i \<noteq> nouser"
    using get_user_map [OF ok x] by blast
  then have "user_map nouser cuh (masked x) = Some (ucontent cuh ! h)"
    "h < hashsize cuh" "ucontent cuh ! h \<noteq> nouser" using h by auto
  moreover from this have "masked (ucontent cuh ! h) = masked x"
    by (simp add: user_map_Some [OF ok])
  ultimately show ?thesis using clear_ok [OF ok, of h] by simp
qed

interpretation cu: user_table "cuh_ok nouser" "user_map nouser" masked
    "\<lambda>x. masked x \<noteq> masked nouser" getnumerichandlefromchanhash "add_loop nouser"
    "cuh_clear nouser" totalusers for nouser
proof unfold_locales
  fix t assume ok: "cuh_ok nouser t"
  have "finite (dom (user_map nouser t))" by (simp add: user_map_def finite_dom_map_of)
  then show "finite (dom (user_map nouser t)) \<and> totalusers t = card (dom (user_map nouser t))"
    using ok users_card [OF ok] by (simp add: cuh_ok_def)
next
  fix t x h
  assume "cuh_ok nouser t" "masked x \<noteq> masked nouser"
    "getnumerichandlefromchanhash t x = Some (Some h)"
  then show "cuh_ok nouser (cuh_clear nouser t h)
    \<and> user_map nouser (cuh_clear nouser t h) = (user_map nouser t)(masked x := None)"
    by (rule cuh_clear_law)
qed (use cuh_look_law add_loop_ok in auto)

end
