(* ===== verification/ChanIndex.thy ===== *)
theory ChanIndex
  imports IrcString LibUtil "HOL-Library.Monad_Syntax"
begin

text \<open>
  The index of the channel names, \<open>chanindex/chanindex.c\<close>: the hash table of the index
  records, their release when neither a channel nor a module needs them, the registry of the
  extensions and the marker. A record is addressed by a number, chains are lists of such
  addresses, and \<open>None\<close> of an operation is the use of a freed record.
\<close>

section \<open>Records and table\<close>

abbreviation CHANNELHASHSIZE :: nat where
  "CHANNELHASHSIZE \<equiv> 60000"

abbreviation MAXCHANNELEXTS :: nat where
  "MAXCHANNELEXTS \<equiv> 7"

abbreviation CHANNELLEN :: nat where
  "CHANNELLEN \<equiv> 200"

text \<open>
  \<open>cichannel\<close> and the entries of \<open>ciexts\<close> are pointers, \<open>None\<close> being NULL; \<open>next\<close> is the order
  of the chain.
\<close>

record chanindex =
  ciname :: string
  cichannel :: "nat option"
  cimarker :: "32 word"
  ciexts :: "nat option list"

record chantab =
  chantable :: "nat \<Rightarrow> nat list"
  cips :: "nat \<rightharpoonup> chanindex"
  extnames :: "string option list"
  channelmarker :: "32 word"
  nextcip :: nat

definition init_chantab :: chantab where
  "init_chantab = \<lparr>chantable = (\<lambda>_. []), cips = Map.empty,
     extnames = replicate MAXCHANNELEXTS None, channelmarker = 0, nextcip = 0\<rparr>"

definition channelhash :: "string \<Rightarrow> nat" where
  "channelhash x = unat (irc_crc32i x) mod CHANNELHASHSIZE"

fun chain_find :: "(nat \<rightharpoonup> chanindex) \<Rightarrow> string \<Rightarrow> nat list \<Rightarrow> nat option option" where
  "chain_find cs name [] = Some None"
| "chain_find cs name (cip # chain) = do {
     ci \<leftarrow> cs cip;
     if ircd_strcmp (ciname ci) name = 0 then Some (Some cip) else chain_find cs name chain
   }"

definition findchanindex :: "string \<Rightarrow> chantab \<Rightarrow> nat option option" where
  "findchanindex name st = chain_find (cips st) name (chantable st (channelhash name))"

definition findorcreatechanindex :: "string \<Rightarrow> chantab \<Rightarrow> (nat \<times> chantab) option" where
  "findorcreatechanindex name st = do {
     r \<leftarrow> chain_find (cips st) name (chantable st (channelhash name));
     case r of
       Some cip \<Rightarrow> Some (cip, st)
     | None \<Rightarrow>
         (let cip = nextcip st; hash = channelhash name;
              ci = \<lparr>ciname = sstr name CHANNELLEN, cichannel = None, cimarker = 0,
                    ciexts = replicate MAXCHANNELEXTS None\<rparr>
          in Some (cip, st\<lparr>chantable := (chantable st)(hash := cip # chantable st hash),
                           cips := (cips st)(cip \<mapsto> ci), nextcip := cip + 1\<rparr>))
   }"

text \<open>The error of a record that is not in its chain only writes a log line.\<close>

definition releasechanindex :: "nat \<Rightarrow> chantab \<Rightarrow> chantab option" where
  "releasechanindex cip st = do {
     ci \<leftarrow> cips st cip;
     if cichannel ci \<noteq> None then Some st
     else if \<exists>e \<in> set (ciexts ci). e \<noteq> None then Some st
     else (let hash = channelhash (ciname ci)
           in if cip \<in> set (chantable st hash)
              then Some (st\<lparr>chantable := (chantable st)(hash := remove1 cip (chantable st hash)),
                            cips := (cips st)(cip := None)\<rparr>)
              else Some st)
   }"

section \<open>Extensions and markers\<close>

fun ext_find :: "string \<Rightarrow> nat \<Rightarrow> string option list \<Rightarrow> int" where
  "ext_find name i [] = - 1"
| "ext_find name i (e # es) =
     (case e of
        Some x \<Rightarrow> if ircd_strcmp name x = 0 then int i else ext_find name (i + 1) es
      | None \<Rightarrow> ext_find name (i + 1) es)"

definition findchanext :: "string \<Rightarrow> chantab \<Rightarrow> int" where
  "findchanext name st = ext_find name 0 (extnames st)"

fun free_ext :: "nat \<Rightarrow> string option list \<Rightarrow> nat option" where
  "free_ext i [] = None"
| "free_ext i (e # es) = (if e = None then Some i else free_ext (i + 1) es)"

definition registerchanext :: "string \<Rightarrow> chantab \<Rightarrow> int \<times> chantab" where
  "registerchanext name st =
     (if findchanext name st \<noteq> - 1 then (- 1, st)
      else case free_ext 0 (extnames st) of
        Some i \<Rightarrow> (int i, st\<lparr>extnames := (extnames st)[i := Some (sstr name 100)]\<rparr>)
      | None \<Rightarrow> (- 1, st))"

text \<open>The walk keeps the successor before it touches the record.\<close>

fun release_ext_chain :: "nat \<Rightarrow> nat list \<Rightarrow> chantab \<Rightarrow> chantab option" where
  "release_ext_chain index [] st = Some st"
| "release_ext_chain index (cip # chain) st = do {
     ci \<leftarrow> cips st cip;
     if ciexts ci ! index \<noteq> None then do {
       st \<leftarrow> releasechanindex cip
              (st\<lparr>cips := (cips st)(cip \<mapsto> ci\<lparr>ciexts := (ciexts ci)[index := None]\<rparr>)\<rparr>);
       release_ext_chain index chain st
     }
     else release_ext_chain index chain st
   }"

fun release_ext_buckets :: "nat \<Rightarrow> nat list \<Rightarrow> chantab \<Rightarrow> chantab option" where
  "release_ext_buckets index [] st = Some st"
| "release_ext_buckets index (i # is) st = do {
     st \<leftarrow> release_ext_chain index (chantable st i) st;
     release_ext_buckets index is st
   }"

definition releasechanext :: "nat \<Rightarrow> chantab \<Rightarrow> chantab option" where
  "releasechanext index st =
     (if index < MAXCHANNELEXTS
      then release_ext_buckets index [0..<CHANNELHASHSIZE]
             (st\<lparr>extnames := (extnames st)[index := None]\<rparr>)
      else None)"

definition zap_markers :: "chantab \<Rightarrow> chantab" where
  "zap_markers st = st\<lparr>cips := (\<lambda>cip.
     if \<exists>i < CHANNELHASHSIZE. cip \<in> set (chantable st i)
     then map_option (\<lambda>ci. ci\<lparr>cimarker := 0\<rparr>) (cips st cip) else cips st cip)\<rparr>"

definition nextchanmarker :: "chantab \<Rightarrow> 32 word \<times> chantab" where
  "nextchanmarker st =
     (let st = st\<lparr>channelmarker := channelmarker st + 1\<rparr>;
          st = (if channelmarker st = 0
                then let st = zap_markers st in st\<lparr>channelmarker := channelmarker st + 1\<rparr>
                else st)
      in (channelmarker st, st))"

section \<open>The index is a map from names\<close>

abbreviation lower :: "string \<Rightarrow> string" where
  "lower s \<equiv> map ToLower s"

definition name_at :: "chantab \<Rightarrow> nat \<Rightarrow> string option" where
  "name_at st cip = map_option (\<lambda>ci. lower (ciname ci)) (cips st cip)"

definition chantab_ok :: "chantab \<Rightarrow> bool" where
  "chantab_ok st \<longleftrightarrow>
     (\<forall>cip ci. cips st cip = Some ci \<longrightarrow>
        cip < nextcip st \<and> cstring (ciname ci) \<and> length (ciname ci) \<le> CHANNELLEN
        \<and> length (ciexts ci) = MAXCHANNELEXTS
        \<and> (\<forall>b. cip \<in> set (chantable st b) \<longleftrightarrow> b = channelhash (ciname ci)))
     \<and> (\<forall>b. distinct (chantable st b) \<and> set (chantable st b) \<subseteq> dom (cips st))
     \<and> inj_on (name_at st) (dom (cips st))
     \<and> length (extnames st) = MAXCHANNELEXTS"

text \<open>The record of a name in lower case.\<close>

definition by_name :: "chantab \<Rightarrow> string \<Rightarrow> nat option" where
  "by_name st l = find (\<lambda>cip. name_at st cip = Some l) (chantable st (channelhash l))"

lemma channelhash_lower: "lower a = lower b \<Longrightarrow> channelhash a = channelhash b"
  by (simp add: channelhash_def irc_crc32i_def irc_crc32i_loop_lower)

lemma channelhash_less: "channelhash x < CHANNELHASHSIZE"
  by (simp add: channelhash_def)

lemma name_at_Some: "name_at st cip = Some l \<longleftrightarrow> (\<exists>ci. cips st cip = Some ci \<and> lower (ciname ci) = l)"
  by (auto simp: name_at_def)

lemma dom_name_at: "name_at st cip = Some l \<Longrightarrow> cip \<in> dom (cips st)"
  by (auto simp: name_at_def)

lemma chain_live:
  assumes "chantab_ok st" "cip \<in> set (chantable st b)"
  obtains ci where "cips st cip = Some ci" "b = channelhash (ciname ci)" "cstring (ciname ci)"
  using assms unfolding chantab_ok_def by blast

lemma live_chain:
  assumes "chantab_ok st" "cips st cip = Some ci"
  shows "cip \<in> set (chantable st b) \<longleftrightarrow> b = channelhash (ciname ci)" "cip < nextcip st"
    "cstring (ciname ci)" "length (ciname ci) \<le> CHANNELLEN" "length (ciexts ci) = MAXCHANNELEXTS"
  using assms unfolding chantab_ok_def by blast+

lemma find_Some_iff_ex: "find P xs = None \<longleftrightarrow> (\<forall>x \<in> set xs. \<not> P x)"
  by (auto simp: find_None_iff)

lemma by_name_Some:
  assumes ok: "chantab_ok st" and l: "lower l = l"
  shows "by_name st l = Some cip \<longleftrightarrow> name_at st cip = Some l"
proof
  assume "by_name st l = Some cip"
  then show "name_at st cip = Some l"
    unfolding by_name_def by (induction "chantable st (channelhash l)") (auto simp: find_Some_iff)
next
  assume at: "name_at st cip = Some l"
  then obtain ci where ci: "cips st cip = Some ci" "lower (ciname ci) = l"
    by (auto simp: name_at_Some)
  have "channelhash (ciname ci) = channelhash l" by (rule channelhash_lower) (simp add: ci l)
  then have "cip \<in> set (chantable st (channelhash l))"
    using live_chain(1) [OF ok ci(1)] by simp
  then have "by_name st l \<noteq> None" using at by (auto simp: by_name_def find_None_iff)
  then obtain c where c: "by_name st l = Some c" by blast
  then have "name_at st c = Some l"
    unfolding by_name_def by (auto simp: find_Some_iff)
  moreover have "inj_on (name_at st) (dom (cips st))" using ok by (simp add: chantab_ok_def)
  ultimately have "c = cip" using at dom_name_at by (metis inj_onD)
  then show "by_name st l = Some cip" using c by simp
qed

lemma by_name_eqI:
  assumes "chantab_ok st" "lower l = l" "\<And>cip. name_at st cip = Some l \<longleftrightarrow> r = Some cip"
  shows "by_name st l = r"
  using by_name_Some [OF assms(1,2)] assms(3) by (cases r; cases "by_name st l") auto

lemma chain_find_name:
  assumes "\<forall>cip \<in> set chain. \<exists>ci. cs cip = Some ci \<and> cstring (ciname ci)" "cstring name"
  shows "chain_find cs name chain
    = Some (find (\<lambda>cip. map_option (\<lambda>ci. lower (ciname ci)) (cs cip) = Some (lower name)) chain)"
  using assms by (induction chain) (auto simp: ircd_strcmp_lower)

lemma findchanindex_by_name:
  assumes ok: "chantab_ok st" and name: "cstring name"
  shows "findchanindex name st = Some (by_name st (lower name))"
proof -
  have "channelhash (lower name) = channelhash name" by (rule channelhash_lower) simp
  moreover have "\<forall>cip \<in> set (chantable st b). \<exists>ci. cips st cip = Some ci \<and> cstring (ciname ci)" for b
    using chain_live [OF ok] by metis
  ultimately show ?thesis
    using chain_find_name [OF _ name, of "chantable st (channelhash name)" "cips st"]
    by (simp add: findchanindex_def by_name_def name_at_def [abs_def])
qed

lemma init_chantab_ok: "chantab_ok init_chantab"
  by (simp add: chantab_ok_def init_chantab_def)

lemma chain_new_ok:
  assumes ok: "chantab_ok st" and name: "cstring name" "length name \<le> CHANNELLEN"
    and new: "by_name st (lower name) = None"
  shows "chantab_ok (st\<lparr>chantable := (chantable st)(channelhash name := nextcip st # chantable st (channelhash name)),
             cips := (cips st)(nextcip st \<mapsto> \<lparr>ciname = name, cichannel = None, cimarker = 0,
                    ciexts = replicate MAXCHANNELEXTS None\<rparr>), nextcip := nextcip st + 1\<rparr>)"
proof -
  let ?ci = "\<lparr>ciname = name, cichannel = None, cimarker = 0, ciexts = replicate MAXCHANNELEXTS None\<rparr>"
  let ?st = "st\<lparr>chantable := (chantable st)(channelhash name := nextcip st # chantable st (channelhash name)),
             cips := (cips st)(nextcip st \<mapsto> ?ci), nextcip := nextcip st + 1\<rparr>"
  have fresh: "cip < nextcip st" if "cips st cip = Some ci" for cip ci
    using live_chain(2) [OF ok that] .
  then have nd: "nextcip st \<notin> dom (cips st)" by auto
  then have nchain: "nextcip st \<notin> set (chantable st b)" for b
    using ok unfolding chantab_ok_def by blast
  have other: "name_at st cip \<noteq> Some (lower name)" for cip
    using by_name_Some [OF ok, of "lower name"] new by auto
  have at: "name_at ?st cip = (if cip = nextcip st then Some (lower name) else name_at st cip)" for cip
    by (simp add: name_at_def)
  have ij: "inj_on (name_at st) (dom (cips st))" using ok by (simp add: chantab_ok_def)
  have inj: "inj_on (name_at ?st) (dom (cips ?st))"
  proof (rule inj_onI)
    fix x y assume d: "x \<in> dom (cips ?st)" "y \<in> dom (cips ?st)"
      and e: "name_at ?st x = name_at ?st y"
    have "x = nextcip st \<or> x \<in> dom (cips st)" "y = nextcip st \<or> y \<in> dom (cips st)"
      using d by (auto split: if_splits)
    then show "x = y" using e inj_onD [OF ij, of x y] other [of x] other [of y] unfolding at
      by (auto split: if_splits)
  qed
  have "\<forall>cip ci. cips ?st cip = Some ci \<longrightarrow> cip < nextcip ?st \<and> cstring (ciname ci)
      \<and> length (ciname ci) \<le> CHANNELLEN \<and> length (ciexts ci) = MAXCHANNELEXTS
      \<and> (\<forall>b. cip \<in> set (chantable ?st b) \<longleftrightarrow> b = channelhash (ciname ci))"
  proof (intro allI impI)
    fix cip ci assume c: "cips ?st cip = Some ci"
    show "cip < nextcip ?st \<and> cstring (ciname ci)
      \<and> length (ciname ci) \<le> CHANNELLEN \<and> length (ciexts ci) = MAXCHANNELEXTS
      \<and> (\<forall>b. cip \<in> set (chantable ?st b) \<longleftrightarrow> b = channelhash (ciname ci))"
    proof (cases "cip = nextcip st")
      case True
      then show ?thesis using c name nchain by auto
    next
      case False
      then have "cips st cip = Some ci" using c by simp
      from live_chain [OF ok this] False show ?thesis by auto
    qed
  qed
  moreover have "distinct (chantable ?st b) \<and> set (chantable ?st b) \<subseteq> dom (cips ?st)" for b
  proof -
    have "distinct (chantable st b)" "set (chantable st b) \<subseteq> dom (cips st)"
      using ok unfolding chantab_ok_def by blast+
    then show ?thesis using nchain by auto
  qed
  moreover have "length (extnames ?st) = MAXCHANNELEXTS" using ok by (simp add: chantab_ok_def)
  ultimately show ?thesis using inj unfolding chantab_ok_def by blast
qed

lemma findorcreate_ok:
  assumes ok: "chantab_ok st" and name: "cstring name" "length name \<le> CHANNELLEN"
  obtains cip st' where "findorcreatechanindex name st = Some (cip, st')" "chantab_ok st'"
    "by_name st (lower name) \<noteq> None \<Longrightarrow> by_name st (lower name) = Some cip \<and> st' = st"
    "by_name st (lower name) = None \<Longrightarrow> cips st' = (cips st)(cip \<mapsto> \<lparr>ciname = name,
        cichannel = None, cimarker = 0, ciexts = replicate MAXCHANNELEXTS None\<rparr>) \<and> cips st cip = None"
    "name_at st' cip = Some (lower name)" "extnames st' = extnames st"
proof -
  have f: "chain_find (cips st) name (chantable st (channelhash name)) = Some (by_name st (lower name))"
    using findchanindex_by_name [OF ok name(1)] by (simp add: findchanindex_def)
  show thesis
  proof (cases "by_name st (lower name)")
    case (Some cip)
    then have at: "name_at st cip = Some (lower name)" by (simp add: by_name_Some [OF ok])
    have e: "findorcreatechanindex name st = Some (cip, st)"
      using f Some by (simp add: findorcreatechanindex_def)
    show thesis by (rule that [OF e ok _ _ at]) (use Some in simp_all)
  next
    case None
    let ?st = "st\<lparr>chantable := (chantable st)(channelhash name := nextcip st # chantable st (channelhash name)),
             cips := (cips st)(nextcip st \<mapsto> \<lparr>ciname = name, cichannel = None, cimarker = 0,
                    ciexts = replicate MAXCHANNELEXTS None\<rparr>), nextcip := nextcip st + 1\<rparr>"
    have "sstr name CHANNELLEN = name" using name(2) by (simp add: sstr_take SSTRING_MAX_def)
    then have e: "findorcreatechanindex name st = Some (nextcip st, ?st)"
      using f None by (simp add: findorcreatechanindex_def Let_def)
    have "cips st (nextcip st) = None"
      using live_chain(2) [OF ok, of "nextcip st"] by (cases "cips st (nextcip st)") auto
    then show thesis
      using that [OF e chain_new_ok [OF ok name None]] None by (simp add: name_at_def)
  qed
qed


text \<open>Changing a record in place, its name up to case.\<close>

lemma update_ok:
  assumes ok: "chantab_ok st" and c: "cips st cip = Some ci"
    and ci': "lower (ciname ci') = lower (ciname ci)" "cstring (ciname ci')"
      "length (ciexts ci') = MAXCHANNELEXTS"
  shows "chantab_ok (st\<lparr>cips := (cips st)(cip \<mapsto> ci')\<rparr>)"
    "name_at (st\<lparr>cips := (cips st)(cip \<mapsto> ci')\<rparr>) = name_at st"
proof -
  let ?st = "st\<lparr>cips := (cips st)(cip \<mapsto> ci')\<rparr>"
  note l = live_chain [OF ok c]
  have len: "length (ciname ci') = length (ciname ci)"
    using ci'(1) by (metis length_map)
  have hash: "channelhash (ciname ci') = channelhash (ciname ci)"
    by (rule channelhash_lower) (rule ci'(1))
  show at: "name_at ?st = name_at st" using c ci'(1) by (auto simp: name_at_def fun_eq_iff)
  have dom: "dom (cips ?st) = dom (cips st)" using c by auto
  have "inj_on (name_at ?st) (dom (cips ?st))"
    unfolding at dom using ok by (simp add: chantab_ok_def)
  moreover have "cip' < nextcip ?st \<and> cstring (ciname ci1) \<and> length (ciname ci1) \<le> CHANNELLEN
      \<and> length (ciexts ci1) = MAXCHANNELEXTS
      \<and> (\<forall>b. cip' \<in> set (chantable ?st b) \<longleftrightarrow> b = channelhash (ciname ci1))"
    if "cips ?st cip' = Some ci1" for cip' ci1
  proof (cases "cip' = cip")
    case True
    then show ?thesis using that l ci' len hash by simp
  next
    case False
    then have "cips st cip' = Some ci1" using that by simp
    from live_chain [OF ok this] show ?thesis by simp
  qed
  moreover have "distinct (chantable ?st b) \<and> set (chantable ?st b) \<subseteq> dom (cips ?st)" for b
    using ok unfolding dom chantab_ok_def by simp
  moreover have "length (extnames ?st) = MAXCHANNELEXTS" using ok by (simp add: chantab_ok_def)
  ultimately show "chantab_ok ?st" unfolding chantab_ok_def by blast
qed

definition ci_used :: "chanindex \<Rightarrow> bool" where
  "ci_used ci \<longleftrightarrow> cichannel ci \<noteq> None \<or> (\<exists>e \<in> set (ciexts ci). e \<noteq> None)"

lemma release_index_ok:
  assumes ok: "chantab_ok st" and c: "cips st cip = Some ci"
  obtains st' where "releasechanindex cip st = Some st'" "chantab_ok st'"
    "cips st' = (if ci_used ci then cips st else (cips st)(cip := None))"
    "extnames st' = extnames st" "\<And>b. chantable st' b = remove1 cip (chantable st b) \<or> chantable st' b = chantable st b"
proof (cases "ci_used ci")
  case True
  then have "releasechanindex cip st = Some st"
    using c by (auto simp: releasechanindex_def ci_used_def)
  then show thesis by (rule that) (use ok True in simp_all)
next
  case False
  let ?h = "channelhash (ciname ci)"
  let ?st = "st\<lparr>chantable := (chantable st)(?h := remove1 cip (chantable st ?h)),
               cips := (cips st)(cip := None)\<rparr>"
  have e: "releasechanindex cip st = Some ?st"
    using False c live_chain(1) [OF ok c, of ?h] by (simp add: releasechanindex_def ci_used_def Let_def)
  have dist: "distinct (chantable st b)" and sub: "set (chantable st b) \<subseteq> dom (cips st)" for b
    using ok unfolding chantab_ok_def by blast+
  have chain: "set (chantable ?st b) = set (chantable st b) - {cip}" for b
    using live_chain(1) [OF ok c, of b] set_remove1_eq [OF dist] by (cases "b = ?h") auto
  have "cip' < nextcip ?st \<and> cstring (ciname ci1) \<and> length (ciname ci1) \<le> CHANNELLEN
      \<and> length (ciexts ci1) = MAXCHANNELEXTS
      \<and> (\<forall>b. cip' \<in> set (chantable ?st b) \<longleftrightarrow> b = channelhash (ciname ci1))"
    if "cips ?st cip' = Some ci1" for cip' ci1
  proof -
    have "cip' \<noteq> cip" "cips st cip' = Some ci1" using that by (auto split: if_splits)
    then show ?thesis using live_chain [OF ok, of cip' ci1] unfolding chain by simp
  qed
  moreover have "inj_on (name_at ?st) (dom (cips ?st))"
  proof -
    have "inj_on (name_at st) (dom (cips st))" using ok by (simp add: chantab_ok_def)
    then show ?thesis by (auto simp: inj_on_def name_at_def)
  qed
  moreover have "distinct (chantable ?st b) \<and> set (chantable ?st b) \<subseteq> dom (cips ?st)" for b
    using dist sub [of b] unfolding chain by (auto simp: distinct_remove1)
  moreover have "length (extnames ?st) = MAXCHANNELEXTS" using ok by (simp add: chantab_ok_def)
  ultimately have "chantab_ok ?st" unfolding chantab_ok_def by blast
  then show thesis using that [OF e] False by simp
qed

text \<open>The map from names, in terms of the records.\<close>

lemma by_name_insert:
  assumes "chantab_ok st" "chantab_ok st'" "lower l = l" "lower n = n" "by_name st n = None"
    "cips st cip = None" "name_at st' = (name_at st)(cip \<mapsto> n)"
  shows "by_name st' l = ((by_name st)(n \<mapsto> cip)) l"
proof (rule by_name_eqI [OF assms(2,3)])
  fix c
  have "name_at st c \<noteq> Some n" using by_name_Some [OF assms(1,4)] assms(5) by auto
  moreover have "name_at st cip = None" using assms(6) by (simp add: name_at_def)
  ultimately show "name_at st' c = Some l \<longleftrightarrow> ((by_name st)(n \<mapsto> cip)) l = Some c"
    using by_name_Some [OF assms(1,3), of c] assms(7) by auto
qed

lemma by_name_delete:
  assumes "chantab_ok st" "chantab_ok st'" "lower l = l" "name_at st cip = Some n"
    "name_at st' = (name_at st)(cip := None)"
  shows "by_name st' l = ((by_name st)(n := None)) l"
proof (rule by_name_eqI [OF assms(2,3)])
  fix c
  have "inj_on (name_at st) (dom (cips st))" using assms(1) by (simp add: chantab_ok_def)
  then have "c = cip" if "name_at st c = Some n"
    using that assms(4) dom_name_at [of st] by (metis inj_onD)
  then have "name_at st c = Some n \<longleftrightarrow> c = cip" using assms(4) by blast
  moreover have "name_at st' c = (if c = cip then None else name_at st c)" by (simp add: assms(5))
  ultimately show "name_at st' c = Some l \<longleftrightarrow> ((by_name st)(n := None)) l = Some c"
    using by_name_Some [OF assms(1,3), of c] assms(4) by (cases "c = cip"; cases "l = n") simp_all
qed

text \<open>
  C19: \<open>findchanindex\<close> finds the record of a name in whatever spelling;
  \<open>findorcreatechanindex\<close> returns it, or makes a new one and no other; and
  \<open>releasechanindex\<close> takes a record out exactly when neither a channel nor an extension is on
  it. None of them reads a freed record.
\<close>

theorem chanindex_maps_names:
  assumes "chantab_ok st"
  shows "(\<forall>name. cstring name \<longrightarrow> findchanindex name st = Some (by_name st (lower name)))
    \<and> (\<forall>name. cstring name \<and> length name \<le> CHANNELLEN \<longrightarrow>
        (\<exists>cip st'. findorcreatechanindex name st = Some (cip, st') \<and> chantab_ok st'
           \<and> (by_name st (lower name) \<in> {None, Some cip})
           \<and> (\<forall>l. lower l = l \<longrightarrow> by_name st' l = ((by_name st)(lower name \<mapsto> cip)) l)))
    \<and> (\<forall>cip ci. cips st cip = Some ci \<longrightarrow>
        (\<exists>st'. releasechanindex cip st = Some st' \<and> chantab_ok st'
           \<and> (\<forall>l. lower l = l \<longrightarrow> by_name st' l =
                (if ci_used ci then by_name st l else ((by_name st)(lower (ciname ci) := None)) l))))"
proof (intro conjI allI impI)
  fix name assume "cstring name"
  then show "findchanindex name st = Some (by_name st (lower name))"
    by (rule findchanindex_by_name [OF assms])
next
  fix name assume name: "cstring name \<and> length name \<le> CHANNELLEN"
  show "\<exists>cip st'. findorcreatechanindex name st = Some (cip, st') \<and> chantab_ok st'
    \<and> (by_name st (lower name) \<in> {None, Some cip})
    \<and> (\<forall>l. lower l = l \<longrightarrow> by_name st' l = ((by_name st)(lower name \<mapsto> cip)) l)"
  proof (rule findorcreate_ok [OF assms])
    fix cip st'
    assume 1: "findorcreatechanindex name st = Some (cip, st')" "chantab_ok st'"
      "by_name st (lower name) \<noteq> None \<Longrightarrow> by_name st (lower name) = Some cip \<and> st' = st"
      "by_name st (lower name) = None \<Longrightarrow> cips st' = (cips st)(cip \<mapsto> \<lparr>ciname = name,
        cichannel = None, cimarker = 0, ciexts = replicate MAXCHANNELEXTS None\<rparr>) \<and> cips st cip = None"
      "name_at st' cip = Some (lower name)"
    show ?thesis
    proof (cases "by_name st (lower name)")
      case None
      then have "cips st cip = None" "name_at st' = (name_at st)(cip \<mapsto> lower name)"
        using 1(4) by (auto simp: name_at_def fun_eq_iff)
      then show ?thesis
        using 1(1,2) None by_name_insert [OF assms 1(2) _ _ None, of _ cip] by auto
    next
      case (Some c)
      then show ?thesis using 1(1,2,3) by auto
    qed
  qed (use name in auto)
next
  fix cip ci assume c: "cips st cip = Some ci"
  show "\<exists>st'. releasechanindex cip st = Some st' \<and> chantab_ok st'
    \<and> (\<forall>l. lower l = l \<longrightarrow> by_name st' l =
         (if ci_used ci then by_name st l else ((by_name st)(lower (ciname ci) := None)) l))"
  proof (rule release_index_ok [OF assms c])
    fix st'
    assume 1: "releasechanindex cip st = Some st'" "chantab_ok st'"
      "cips st' = (if ci_used ci then cips st else (cips st)(cip := None))"
    have n: "name_at st cip = Some (lower (ciname ci))" using c by (simp add: name_at_def)
    show ?thesis
    proof (cases "ci_used ci")
      case True
      then have "name_at st' = name_at st" using 1(3) by (simp add: name_at_def fun_eq_iff)
      then have "by_name st' l = by_name st l" if "lower l = l" for l
        by (intro by_name_eqI [OF 1(2) that]) (simp add: by_name_Some [OF assms that])
      then show ?thesis using 1(1,2) True by auto
    next
      case False
      then have "name_at st' = (name_at st)(cip := None)" using 1(3) by (auto simp: name_at_def fun_eq_iff)
      then show ?thesis using by_name_delete [OF assms 1(2) _ n] 1(1,2) False by auto
    qed
  qed
qed

lemma chanindex_maps_names_witness:
  "\<exists>cip st. findorcreatechanindex ''#Feds[1]'' init_chantab = Some (cip, st)
     \<and> findchanindex ''#feds{1}'' st = Some (Some cip)"
proof -
  let ?n = "''#Feds[1]''" and ?m = "''#feds{1}''"
  have c: "cstring ?n" "cstring ?m" by (simp_all add: cstring_def)
  have l: "lower ?m = lower ?n" "lower ?n = ?m" by code_simp+
  obtain cip st where 1: "findorcreatechanindex ?n init_chantab = Some (cip, st)" "chantab_ok st"
      "\<forall>l. lower l = l \<longrightarrow> by_name st l = ((by_name init_chantab)(lower ?n \<mapsto> cip)) l"
    using chanindex_maps_names [OF init_chantab_ok, THEN conjunct2, THEN conjunct1, rule_format, of ?n] c(1)
    by (auto simp del: list.map)
  have "by_name st (lower ?m) = Some cip" using 1(3) l by simp
  then show ?thesis
    using chanindex_maps_names [OF 1(2), THEN conjunct1, rule_format, OF c(2)] 1(1) by auto
qed

text \<open>Releasing an extension clears it on every record and drops the records left unused.\<close>

definition ext_on :: "nat \<Rightarrow> chantab \<Rightarrow> nat \<Rightarrow> bool" where
  "ext_on index st cip \<longleftrightarrow> (\<exists>ci. cips st cip = Some ci \<and> ciexts ci ! index \<noteq> None)"

lemma release_ext_chain_ok:
  assumes "chantab_ok st" "set chain \<subseteq> dom (cips st)" "distinct chain" "index < MAXCHANNELEXTS"
  shows "\<exists>st'. release_ext_chain index chain st = Some st' \<and> chantab_ok st'
    \<and> (\<forall>cip. cip \<in> set chain \<longrightarrow> \<not> ext_on index st' cip)
    \<and> (\<forall>cip. cip \<notin> set chain \<longrightarrow> cips st' cip = cips st cip)"
  using assms
proof (induction chain arbitrary: st)
  case (Cons cip chain)
  then obtain ci where ci: "cips st cip = Some ci" by auto
  have step: ?case if 1: "chantab_ok st1" "\<And>c. c \<noteq> cip \<Longrightarrow> cips st1 c = cips st c"
      "\<not> ext_on index st1 cip"
      and r: "release_ext_chain index (cip # chain) st = release_ext_chain index chain st1" for st1
  proof -
    have "set chain \<subseteq> dom (cips st1)" using Cons.prems(2,3) 1(2) by fastforce
    then obtain st' where 2: "release_ext_chain index chain st1 = Some st'" "chantab_ok st'"
        "\<forall>c. c \<in> set chain \<longrightarrow> \<not> ext_on index st' c" "\<forall>c. c \<notin> set chain \<longrightarrow> cips st' c = cips st1 c"
      using Cons.IH [OF 1(1)] Cons.prems(3,4) by auto
    have "\<not> ext_on index st' cip" using 1(3) 2(4) Cons.prems(3) by (simp add: ext_on_def)
    then show ?thesis using 2 1(2) r by auto
  qed
  show ?case
  proof (cases "ciexts ci ! index = None")
    case True
    then show ?thesis using step [of st] Cons.prems(1) ci by (auto simp: ext_on_def)
  next
    case False
    let ?ci = "ci\<lparr>ciexts := (ciexts ci)[index := None]\<rparr>"
    let ?st = "st\<lparr>cips := (cips st)(cip \<mapsto> ?ci)\<rparr>"
    have len: "length (ciexts ci) = MAXCHANNELEXTS" "cstring (ciname ci)"
      using live_chain(3,5) [OF Cons.prems(1) ci] by simp_all
    have ok: "chantab_ok ?st" by (rule update_ok(1) [OF Cons.prems(1) ci]) (use len in simp_all)
    obtain st1 where 1: "releasechanindex cip ?st = Some st1" "chantab_ok st1"
        "cips st1 = (if ci_used ?ci then cips ?st else (cips ?st)(cip := None))"
      using release_index_ok [OF ok, of cip ?ci] by auto
    show ?thesis
      by (rule step [of st1])
        (use 1 ci False len Cons.prems(4) in \<open>auto simp: ext_on_def\<close>)
  qed
qed simp

lemma release_ext_buckets_ok:
  assumes "chantab_ok st" "index < MAXCHANNELEXTS"
    "\<forall>cip ci. cips st cip = Some ci \<and> ext_on index st cip \<longrightarrow> channelhash (ciname ci) \<in> set bs"
  shows "\<exists>st'. release_ext_buckets index bs st = Some st' \<and> chantab_ok st' \<and> (\<forall>cip. \<not> ext_on index st' cip)"
  using assms
proof (induction bs arbitrary: st)
  case Nil
  then show ?case by (auto simp: ext_on_def)
next
  case (Cons b bs)
  have "set (chantable st b) \<subseteq> dom (cips st)" "distinct (chantable st b)"
    using Cons.prems(1) by (auto simp: chantab_ok_def)
  then obtain st1 where 1: "release_ext_chain index (chantable st b) st = Some st1" "chantab_ok st1"
      "\<forall>cip. cip \<in> set (chantable st b) \<longrightarrow> \<not> ext_on index st1 cip"
      "\<forall>cip. cip \<notin> set (chantable st b) \<longrightarrow> cips st1 cip = cips st cip"
    using release_ext_chain_ok [OF Cons.prems(1) _ _ Cons.prems(2)] by blast
  have "channelhash (ciname ci) \<in> set bs" if c: "cips st1 cip = Some ci" "ext_on index st1 cip" for cip ci
  proof -
    have nb: "cip \<notin> set (chantable st b)" using 1(3) c(2) by blast
    then have c': "cips st cip = Some ci" "ext_on index st cip" using 1(4) c by (auto simp: ext_on_def)
    then have "channelhash (ciname ci) \<in> set (b # bs)" using Cons.prems(3) by blast
    then show ?thesis using live_chain(1) [OF Cons.prems(1) c'(1), of b] nb by auto
  qed
  then show ?case using Cons.IH [OF 1(2) Cons.prems(2)] 1(1) by auto
qed

lemma releasechanext_ok:
  assumes "chantab_ok st" "index < MAXCHANNELEXTS"
  obtains st' where "releasechanext index st = Some st'" "chantab_ok st'" "\<And>cip. \<not> ext_on index st' cip"
proof -
  let ?st = "st\<lparr>extnames := (extnames st)[index := None]\<rparr>"
  have at: "name_at ?st = name_at st" by (simp add: name_at_def fun_eq_iff)
  have "chantab_ok ?st" using assms(1) unfolding chantab_ok_def at by simp
  moreover have "channelhash (ciname ci) \<in> set [0..<CHANNELHASHSIZE]" for ci
    using channelhash_less by simp
  ultimately obtain st' where "release_ext_buckets index [0..<CHANNELHASHSIZE] ?st = Some st'"
      "chantab_ok st'" "\<forall>cip. \<not> ext_on index st' cip"
    using release_ext_buckets_ok [OF _ assms(2), of ?st "[0..<CHANNELHASHSIZE]"] by blast
  then show thesis using that assms(2) by (simp add: releasechanext_def)
qed

text \<open>A new marker is on no record, also when the counter wraps.\<close>

definition marks_ok :: "chantab \<Rightarrow> bool" where
  "marks_ok st \<longleftrightarrow> (\<forall>cip ci. cips st cip = Some ci \<longrightarrow> cimarker ci \<le> channelmarker st)"

lemma succ_word_gt: "(m :: 32 word) + 1 \<noteq> 0 \<Longrightarrow> m < m + 1"
  by unat_arith

lemma nextchanmarker_fresh:
  assumes "chantab_ok st" "marks_ok st" "nextchanmarker st = (m, st')"
  shows "marks_ok st' \<and> (\<forall>cip ci. cips st' cip = Some ci \<longrightarrow> cimarker ci \<noteq> m)"
proof (cases "channelmarker st + 1 = 0")
  case True
  then have st': "m = 1" "channelmarker st' = 1" "cips st' = cips (zap_markers st)"
    using assms(3) by (auto simp: nextchanmarker_def Let_def zap_markers_def fun_eq_iff)
  have "cimarker ci = 0" if c: "cips st' cip = Some ci" for cip ci
  proof -
    obtain ci0 where c0: "cips st cip = Some ci0"
      using c st'(3) by (cases "cips st cip") (auto simp: zap_markers_def split: if_splits)
    then have "cip \<in> set (chantable st (channelhash (ciname ci0)))"
      using live_chain(1) [OF assms(1)] by blast
    then have "\<exists>i < CHANNELHASHSIZE. cip \<in> set (chantable st i)" using channelhash_less by blast
    then show ?thesis using c c0 st'(3) by (auto simp: zap_markers_def)
  qed
  then show ?thesis using st'(1,2) by (auto simp: marks_ok_def)
next
  case False
  then have st': "m = channelmarker st + 1" "channelmarker st' = m" "cips st' = cips st"
    using assms(3) by (auto simp: nextchanmarker_def Let_def)
  have "channelmarker st < m" using succ_word_gt [OF False] st'(1) by simp
  then have "cimarker ci < m" if "cips st' cip = Some ci" for cip ci
    using that assms(2) st'(3) unfolding marks_ok_def by (metis order.strict_trans1)
  then show ?thesis using st'(2) unfolding marks_ok_def by (metis less_imp_le less_irrefl)
qed

end
