(* ===== verification/Hosts.thy ===== *)
theory Hosts
  imports IrcString LibUtil "HOL-Library.Monad_Syntax"
begin

text \<open>
  The tables of host and real names, \<open>nick/nickhelpers.c\<close>: records that are shared by the
  users with the same name, counted, and found through a chained hash. The two structures of
  the source differ only in the names of their members, and the two groups of functions only
  in the hash, the comparison and the limit of the length; both are instances of one
  definition here. Records are addressed by numbers.
\<close>

section \<open>Records and tables\<close>

text \<open>\<open>hr_count\<close> is \<open>clonecount\<close> or \<open>usercount\<close>; \<open>hr_nicks\<close> is the chain of the users.\<close>

record namerec =
  hr_name :: string
  hr_count :: int
  hr_marker :: "32 word"
  hr_nicks :: "nat list"

record nametab =
  nt_table :: "nat \<Rightarrow> nat list"
  nt_recs :: "nat \<rightharpoonup> namerec"
  nt_marker :: "32 word"
  nt_next :: nat

definition init_nametab :: nametab where
  "init_nametab = \<lparr>nt_table = (\<lambda>_. []), nt_recs = Map.empty, nt_marker = 0, nt_next = 0\<rparr>"

abbreviation HOSTHASHSIZE :: nat where "HOSTHASHSIZE \<equiv> 40000"
abbreviation REALNAMEHASHSIZE :: nat where "REALNAMEHASHSIZE \<equiv> 40000"
abbreviation HOSTNAME_MAX :: nat where "HOSTNAME_MAX \<equiv> 63"
abbreviation REALNAME_MAX :: nat where "REALNAME_MAX \<equiv> 50"

definition hosthash :: "string \<Rightarrow> nat" where
  "hosthash x = unat (irc_crc32i x) mod HOSTHASHSIZE"

definition realnamehash :: "string \<Rightarrow> nat" where
  "realnamehash x = unat (irc_crc32 x) mod REALNAMEHASHSIZE"

fun name_find ::
  "(string \<Rightarrow> string \<Rightarrow> bool) \<Rightarrow> (nat \<rightharpoonup> namerec) \<Rightarrow> string \<Rightarrow> nat list \<Rightarrow> nat option option" where
  "name_find same recs name [] = Some None"
| "name_find same recs name (hp # chain) = do {
     r \<leftarrow> recs hp;
     if same name (hr_name r) then Some (Some hp) else name_find same recs name chain
   }"

definition find_name ::
  "(string \<Rightarrow> nat) \<Rightarrow> (string \<Rightarrow> string \<Rightarrow> bool) \<Rightarrow> string \<Rightarrow> nametab \<Rightarrow> nat option option" where
  "find_name hash same name st = name_find same (nt_recs st) name (nt_table st (hash name))"

definition findorcreate_name ::
  "(string \<Rightarrow> nat) \<Rightarrow> (string \<Rightarrow> string \<Rightarrow> bool) \<Rightarrow> nat \<Rightarrow> string \<Rightarrow> nametab \<Rightarrow> (nat \<times> nametab) option" where
  "findorcreate_name hash same maxlen name st = do {
     found \<leftarrow> name_find same (nt_recs st) name (nt_table st (hash name));
     case found of
       Some hp \<Rightarrow> do {
         r \<leftarrow> nt_recs st hp;
         Some (hp, st\<lparr>nt_recs := (nt_recs st)(hp \<mapsto> r\<lparr>hr_count := hr_count r + 1\<rparr>)\<rparr>)
       }
     | None \<Rightarrow>
         (let hp = nt_next st;
              r = \<lparr>hr_name = sstr name maxlen, hr_count = 1, hr_marker = 0, hr_nicks = []\<rparr>
          in Some (hp, st\<lparr>nt_table := (nt_table st)(hash name := hp # nt_table st (hash name)),
                          nt_recs := (nt_recs st)(hp \<mapsto> r), nt_next := hp + 1\<rparr>))
   }"

text \<open>A record that is not in its chain is only reported.\<close>

definition release_name :: "(string \<Rightarrow> nat) \<Rightarrow> nat \<Rightarrow> nametab \<Rightarrow> nametab option" where
  "release_name hash hp st = do {
     r \<leftarrow> nt_recs st hp;
     let r = r\<lparr>hr_count := hr_count r - 1\<rparr>;
         st = st\<lparr>nt_recs := (nt_recs st)(hp \<mapsto> r)\<rparr>;
         h = hash (hr_name r)
     in if hr_count r = 0 \<and> hp \<in> set (nt_table st h)
        then Some (st\<lparr>nt_table := (nt_table st)(h := remove1 hp (nt_table st h)),
                      nt_recs := (nt_recs st)(hp := None)\<rparr>)
        else Some st
   }"

definition next_name_marker :: "nat \<Rightarrow> nametab \<Rightarrow> 32 word \<times> nametab" where
  "next_name_marker buckets st =
     (let st = st\<lparr>nt_marker := nt_marker st + 1\<rparr>;
          st = (if nt_marker st = 0
                then st\<lparr>nt_recs := (\<lambda>hp.
                       if \<exists>i < buckets. hp \<in> set (nt_table st i)
                       then map_option (\<lambda>r. r\<lparr>hr_marker := 0\<rparr>) (nt_recs st hp) else nt_recs st hp),
                     nt_marker := nt_marker st + 1\<rparr>
                else st)
      in (nt_marker st, st))"

definition findhost :: "string \<Rightarrow> nametab \<Rightarrow> nat option option" where
  "findhost = find_name hosthash (\<lambda>a b. ircd_strcmp a b = 0)"

definition findorcreatehost :: "string \<Rightarrow> nametab \<Rightarrow> (nat \<times> nametab) option" where
  "findorcreatehost = findorcreate_name hosthash (\<lambda>a b. ircd_strcmp a b = 0) HOSTNAME_MAX"

definition releasehost :: "nat \<Rightarrow> nametab \<Rightarrow> nametab option" where
  "releasehost = release_name hosthash"

definition nexthostmarker :: "nametab \<Rightarrow> 32 word \<times> nametab" where
  "nexthostmarker = next_name_marker HOSTHASHSIZE"

text \<open>\<open>strcmp\<close> compares for equality here.\<close>

definition findrealname :: "string \<Rightarrow> nametab \<Rightarrow> nat option option" where
  "findrealname = find_name realnamehash (=)"

definition findorcreaterealname :: "string \<Rightarrow> nametab \<Rightarrow> (nat \<times> nametab) option" where
  "findorcreaterealname = findorcreate_name realnamehash (=) REALNAME_MAX"

definition releaserealname :: "nat \<Rightarrow> nametab \<Rightarrow> nametab option" where
  "releaserealname = release_name realnamehash"

definition nextrealnamemarker :: "nametab \<Rightarrow> 32 word \<times> nametab" where
  "nextrealnamemarker = next_name_marker REALNAMEHASHSIZE"

section \<open>A table is a multiset of names\<close>

text \<open>
  \<open>norm\<close> stands for a name up to the comparison. The invariant: every record is in the chain
  of its name, once, names differ, and every record is in use.
\<close>

definition nametab_ok :: "(string \<Rightarrow> nat) \<Rightarrow> (string \<Rightarrow> string) \<Rightarrow> nametab \<Rightarrow> bool" where
  "nametab_ok hash norm st \<longleftrightarrow>
     (\<forall>hp r. nt_recs st hp = Some r \<longrightarrow>
        hp < nt_next st \<and> cstring (hr_name r) \<and> 0 < hr_count r
        \<and> (\<forall>b. hp \<in> set (nt_table st b) \<longleftrightarrow> b = hash (hr_name r)))
     \<and> (\<forall>b. distinct (nt_table st b) \<and> set (nt_table st b) \<subseteq> dom (nt_recs st))
     \<and> (\<forall>hp r hp' r'. nt_recs st hp = Some r \<longrightarrow> nt_recs st hp' = Some r' \<longrightarrow>
          norm (hr_name r) = norm (hr_name r') \<longrightarrow> hp = hp')"

definition rec_of :: "(string \<Rightarrow> nat) \<Rightarrow> (string \<Rightarrow> string) \<Rightarrow> nametab \<Rightarrow> string \<Rightarrow> nat option" where
  "rec_of hash norm st name =
     find (\<lambda>hp. \<exists>r. nt_recs st hp = Some r \<and> norm (hr_name r) = norm name) (nt_table st (hash name))"

definition counts :: "(string \<Rightarrow> nat) \<Rightarrow> (string \<Rightarrow> string) \<Rightarrow> nametab \<Rightarrow> string \<Rightarrow> int" where
  "counts hash norm st name =
     (case rec_of hash norm st name of None \<Rightarrow> 0 | Some hp \<Rightarrow> hr_count (the (nt_recs st hp)))"

text \<open>A user with the name comes, or goes.\<close>

datatype name_op = Acquire string | Release string

primrec op_name :: "name_op \<Rightarrow> string" where
  "op_name (Acquire name) = name"
| "op_name (Release name) = name"

definition name_step ::
  "(string \<Rightarrow> nat) \<Rightarrow> (string \<Rightarrow> string \<Rightarrow> bool) \<Rightarrow> nat \<Rightarrow> nametab \<Rightarrow> name_op \<Rightarrow> nametab" where
  "name_step hash same maxlen st op =
     (case op of
        Acquire name \<Rightarrow>
          (case findorcreate_name hash same maxlen name st of Some (hp, st) \<Rightarrow> st | None \<Rightarrow> st)
      | Release name \<Rightarrow>
          (case find_name hash same name st of
             Some (Some hp) \<Rightarrow> (case release_name hash hp st of Some st \<Rightarrow> st | None \<Rightarrow> st)
           | _ \<Rightarrow> st))"

definition count_step :: "(string \<Rightarrow> string) \<Rightarrow> (string \<Rightarrow> int) \<Rightarrow> name_op \<Rightarrow> string \<Rightarrow> int" where
  "count_step norm c op name =
     (if norm name \<noteq> norm (op_name op) then c name
      else case op of Acquire _ \<Rightarrow> c name + 1 | Release _ \<Rightarrow> if c name = 0 then 0 else c name - 1)"

text \<open>The contract of the hash and the comparison, and what follows from it.\<close>

locale counted_names =
  fixes hash :: "string \<Rightarrow> nat" and same :: "string \<Rightarrow> string \<Rightarrow> bool"
    and norm :: "string \<Rightarrow> string" and maxlen :: nat and buckets :: nat
  assumes hash_norm: "norm a = norm b \<Longrightarrow> hash a = hash b"
    and same_norm: "cstring a \<Longrightarrow> cstring b \<Longrightarrow> same a b \<longleftrightarrow> norm a = norm b"
    and maxlen_max: "maxlen \<le> SSTRING_MAX"
    and hash_less: "hash a < buckets"
begin

abbreviation "tab_ok \<equiv> nametab_ok hash norm"
abbreviation "rec \<equiv> rec_of hash norm"

lemma live_rec:
  assumes "tab_ok st" "nt_recs st hp = Some r"
  shows "hp < nt_next st" "cstring (hr_name r)" "0 < hr_count r"
    "hp \<in> set (nt_table st b) \<longleftrightarrow> b = hash (hr_name r)"
  using assms unfolding nametab_ok_def by blast+

lemma rec_Some:
  assumes ok: "tab_ok st"
  shows "rec st name = Some hp \<longleftrightarrow> (\<exists>r. nt_recs st hp = Some r \<and> norm (hr_name r) = norm name)"
proof
  assume "rec st name = Some hp"
  then show "\<exists>r. nt_recs st hp = Some r \<and> norm (hr_name r) = norm name"
    unfolding rec_of_def by (auto simp: find_Some_iff)
next
  assume "\<exists>r. nt_recs st hp = Some r \<and> norm (hr_name r) = norm name"
  then obtain r where r: "nt_recs st hp = Some r" "norm (hr_name r) = norm name" by blast
  have "hp \<in> set (nt_table st (hash name))"
    using live_rec(4) [OF ok r(1)] hash_norm [OF r(2)] by simp
  then have "rec st name \<noteq> None" using r by (auto simp: rec_of_def find_None_iff)
  then obtain hp' where hp': "rec st name = Some hp'" by blast
  then obtain r' where "nt_recs st hp' = Some r'" "norm (hr_name r') = norm name"
    unfolding rec_of_def by (auto simp: find_Some_iff)
  then have "hp' = hp" using ok r unfolding nametab_ok_def by metis
  then show "rec st name = Some hp" using hp' by simp
qed

lemma rec_eqI:
  assumes "tab_ok st"
    "\<And>hp. (\<exists>r. nt_recs st hp = Some r \<and> norm (hr_name r) = norm name) \<longleftrightarrow> x = Some hp"
  shows "rec st name = x"
  using rec_Some [OF assms(1), of name] assms(2) by (cases x; cases "rec st name") auto

lemma name_find_rec:
  assumes ok: "tab_ok st" and name: "cstring name"
  shows "name_find same (nt_recs st) name (nt_table st (hash name)) = Some (rec st name)"
proof -
  have "name_find same (nt_recs st) name chain =
      Some (find (\<lambda>hp. \<exists>r. nt_recs st hp = Some r \<and> norm (hr_name r) = norm name) chain)"
    if "set chain \<subseteq> dom (nt_recs st)" for chain
    using that
  proof (induction chain)
    case (Cons hp chain)
    then obtain r where r: "nt_recs st hp = Some r" by auto
    then have "same name (hr_name r) \<longleftrightarrow> norm (hr_name r) = norm name"
      using same_norm [OF name live_rec(2) [OF ok r]] by auto
    then show ?case using Cons r by auto
  qed simp
  moreover have "set (nt_table st (hash name)) \<subseteq> dom (nt_recs st)"
    using ok unfolding nametab_ok_def by blast
  ultimately show ?thesis by (simp add: rec_of_def)
qed

text \<open>A record that keeps its name may change otherwise, as long as it is in use.\<close>

lemma update_rec:
  assumes ok: "tab_ok st" and r: "nt_recs st hp = Some r" "hr_name r' = hr_name r" "0 < hr_count r'"
  shows "tab_ok (st\<lparr>nt_recs := (nt_recs st)(hp \<mapsto> r')\<rparr>)"
    "rec (st\<lparr>nt_recs := (nt_recs st)(hp \<mapsto> r')\<rparr>) = rec st"
proof -
  let ?st = "st\<lparr>nt_recs := (nt_recs st)(hp \<mapsto> r')\<rparr>"
  have at: "(\<exists>q. nt_recs ?st h = Some q \<and> norm (hr_name q) = n)
      \<longleftrightarrow> (\<exists>q. nt_recs st h = Some q \<and> norm (hr_name q) = n)" for h n
    using r by auto
  have dom: "dom (nt_recs ?st) = dom (nt_recs st)" using r by auto
  have "h < nt_next ?st \<and> cstring (hr_name q) \<and> 0 < hr_count q
      \<and> (\<forall>b. h \<in> set (nt_table ?st b) \<longleftrightarrow> b = hash (hr_name q))" if "nt_recs ?st h = Some q" for h q
    using that live_rec [OF ok r(1)] live_rec [OF ok, of h q] r(2,3) by (cases "h = hp") auto
  moreover have "distinct (nt_table ?st b) \<and> set (nt_table ?st b) \<subseteq> dom (nt_recs ?st)" for b
    using ok unfolding dom nametab_ok_def by simp
  moreover have "h = h'" if "nt_recs ?st h = Some q" "nt_recs ?st h' = Some q'"
      "norm (hr_name q) = norm (hr_name q')" for h q h' q'
  proof -
    have "\<exists>p. nt_recs st h = Some p \<and> norm (hr_name p) = norm (hr_name q)"
      "\<exists>p. nt_recs st h' = Some p \<and> norm (hr_name p) = norm (hr_name q)"
      using that at by auto
    then show ?thesis using ok unfolding nametab_ok_def by metis
  qed
  ultimately show ok': "tab_ok ?st" unfolding nametab_ok_def by blast
  have "rec ?st name = rec st name" for name
    by (rule rec_eqI [OF ok']) (simp only: at rec_Some [OF ok])
  then show "rec ?st = rec st" by (rule ext)
qed

lemma acquire_ok:
  assumes ok: "tab_ok st" and name: "cstring name" "length name \<le> maxlen"
  obtains hp st' where "findorcreate_name hash same maxlen name st = Some (hp, st')" "tab_ok st'"
    "rec st' name = Some hp" "counts hash norm st' = count_step norm (counts hash norm st) (Acquire name)"
    "\<And>r. nt_recs st' hp = Some r \<Longrightarrow> rec st name = None \<Longrightarrow> hr_count r = 1"
proof (cases "rec st name")
  case (Some hp)
  then obtain r where r: "nt_recs st hp = Some r" "norm (hr_name r) = norm name"
    using rec_Some [OF ok] by blast
  let ?r = "r\<lparr>hr_count := hr_count r + 1\<rparr>" and ?st = "st\<lparr>nt_recs := (nt_recs st)(hp \<mapsto> r\<lparr>hr_count := hr_count r + 1\<rparr>)\<rparr>"
  have e: "findorcreate_name hash same maxlen name st = Some (hp, ?st)"
    using name_find_rec [OF ok name(1)] Some r(1) by (simp add: findorcreate_name_def)
  note u = update_rec [OF ok r(1), of ?r]
  have ok': "tab_ok ?st" and rec': "rec ?st = rec st"
    using u live_rec(3) [OF ok r(1)] by simp_all
  have "counts hash norm ?st n = count_step norm (counts hash norm st) (Acquire name) n" for n
  proof (cases "norm n = norm name")
    case True
    then have "rec st n = Some hp" using rec_Some [OF ok] r by auto
    then show ?thesis using True r(1) rec' by (simp add: counts_def count_step_def)
  next
    case False
    then have "rec st n \<noteq> Some hp" using rec_Some [OF ok] r by auto
    then show ?thesis using False rec' by (auto simp: counts_def count_step_def split: option.splits)
  qed
  then have c: "counts hash norm ?st = count_step norm (counts hash norm st) (Acquire name)"
    by (rule ext)
  show thesis by (rule that [OF e ok' _ c]) (use rec' Some in simp_all)
next
  case None
  let ?hp = "nt_next st" and ?h = "hash name"
  let ?r = "\<lparr>hr_name = name, hr_count = 1, hr_marker = 0, hr_nicks = []\<rparr>"
  let ?st = "st\<lparr>nt_table := (nt_table st)(?h := ?hp # nt_table st ?h),
               nt_recs := (nt_recs st)(?hp \<mapsto> ?r), nt_next := ?hp + 1\<rparr>"
  have "sstr name maxlen = name" using name(2) maxlen_max by (simp add: sstr_take)
  then have e: "findorcreate_name hash same maxlen name st = Some (?hp, ?st)"
    using name_find_rec [OF ok name(1)] None by (simp add: findorcreate_name_def Let_def)
  have nd: "nt_recs st ?hp = None"
    using live_rec(1) [OF ok, of ?hp] by (cases "nt_recs st ?hp") auto
  have sub: "set (nt_table st b) \<subseteq> dom (nt_recs st)" "distinct (nt_table st b)" for b
    using ok unfolding nametab_ok_def by blast+
  then have nchain: "?hp \<notin> set (nt_table st b)" for b using nd by blast
  have other: "norm (hr_name q) \<noteq> norm name" if "nt_recs st h = Some q" for h q
    using that None rec_Some [OF ok, of name] by auto
  have "h < nt_next ?st \<and> cstring (hr_name q) \<and> 0 < hr_count q
      \<and> (\<forall>b. h \<in> set (nt_table ?st b) \<longleftrightarrow> b = hash (hr_name q))" if "nt_recs ?st h = Some q" for h q
  proof (cases "h = ?hp")
    case True
    then show ?thesis using that name(1) nchain by auto
  next
    case False
    then have "nt_recs st h = Some q" using that by simp
    from live_rec [OF ok this] False show ?thesis by auto
  qed
  moreover have "distinct (nt_table ?st b) \<and> set (nt_table ?st b) \<subseteq> dom (nt_recs ?st)" for b
    using sub [of b] nchain by auto
  moreover have "h = h'" if "nt_recs ?st h = Some q" "nt_recs ?st h' = Some q'"
      "norm (hr_name q) = norm (hr_name q')" for h q h' q'
    using that other [of h q] other [of h' q'] ok
    unfolding nametab_ok_def by (auto split: if_splits)
  ultimately have ok': "tab_ok ?st" unfolding nametab_ok_def by blast
  have rec': "rec ?st n = (if norm n = norm name then Some ?hp else rec st n)" for n
    by (rule rec_eqI [OF ok']) (use other nd in \<open>auto simp: rec_Some [OF ok]\<close>)
  have "counts hash norm ?st n = count_step norm (counts hash norm st) (Acquire name) n" for n
  proof (cases "norm n = norm name")
    case True
    have "rec st n = None"
      by (rule rec_eqI [OF ok]) (use other True in auto)
    then show ?thesis using True rec' by (simp add: counts_def count_step_def)
  next
    case False
    have "rec st n \<noteq> Some ?hp" using nd by (simp add: rec_Some [OF ok])
    then show ?thesis using False rec' by (auto simp: counts_def count_step_def split: option.splits)
  qed
  then have c: "counts hash norm ?st = count_step norm (counts hash norm st) (Acquire name)"
    by (rule ext)
  show thesis by (rule that [OF e ok' _ c]) (use rec' in simp_all)
qed

text \<open>The last user takes the record out of its chain and frees it.\<close>

lemma release_last:
  assumes ok: "tab_ok st" and r: "nt_recs st hp = Some r"
  defines "st' \<equiv> st\<lparr>nt_table := (nt_table st)(hash (hr_name r) := remove1 hp (nt_table st (hash (hr_name r)))),
               nt_recs := (nt_recs st)(hp := None)\<rparr>"
  shows "tab_ok st'" "rec st' n = (if norm n = norm (hr_name r) then None else rec st n)"
proof -
  have sub: "set (nt_table st b) \<subseteq> dom (nt_recs st)" "distinct (nt_table st b)" for b
    using ok unfolding nametab_ok_def by blast+
  have chain: "set (nt_table st' b) = set (nt_table st b) - {hp}" for b
    using live_rec(4) [OF ok r, of b] set_remove1_eq [OF sub(2)]
    by (cases "b = hash (hr_name r)") (auto simp: st'_def)
  have recs: "nt_recs st' h = Some q \<longleftrightarrow> h \<noteq> hp \<and> nt_recs st h = Some q" for h q
    by (simp add: st'_def)
  have "h < nt_next st' \<and> cstring (hr_name q) \<and> 0 < hr_count q
      \<and> (\<forall>b. h \<in> set (nt_table st' b) \<longleftrightarrow> b = hash (hr_name q))" if "nt_recs st' h = Some q" for h q
    using that live_rec [OF ok, of h q] unfolding chain recs by (simp add: st'_def)
  moreover have "distinct (nt_table st' b) \<and> set (nt_table st' b) \<subseteq> dom (nt_recs st')" for b
    using sub [of b] unfolding chain by (auto simp: st'_def distinct_remove1)
  moreover have "h = h'" if "nt_recs st' h = Some q" "nt_recs st' h' = Some q'"
      "norm (hr_name q) = norm (hr_name q')" for h q h' q'
    using that ok unfolding recs nametab_ok_def by blast
  ultimately show ok': "tab_ok st'" unfolding nametab_ok_def by blast
  have uniq: "h = hp" if "nt_recs st h = Some q" "norm (hr_name q) = norm (hr_name r)" for h q
    using that r ok unfolding nametab_ok_def by blast
  show "rec st' n = (if norm n = norm (hr_name r) then None else rec st n)"
  proof (rule rec_eqI [OF ok'])
    fix h
    show "(\<exists>q. nt_recs st' h = Some q \<and> norm (hr_name q) = norm n)
      \<longleftrightarrow> (if norm n = norm (hr_name r) then None else rec st n) = Some h"
    proof (cases "norm n = norm (hr_name r)")
      case True
      then show ?thesis using uniq [of h] recs [of h] by fastforce
    next
      case False
      then show ?thesis using r recs [of h] rec_Some [OF ok, of n h] by auto
    qed
  qed
qed

lemma release_ok:
  assumes ok: "tab_ok st" and h: "rec st name = Some hp"
  obtains st' where "release_name hash hp st = Some st'" "tab_ok st'"
    "counts hash norm st' = count_step norm (counts hash norm st) (Release name)"
proof -
  obtain r where r: "nt_recs st hp = Some r" "norm (hr_name r) = norm name"
    using h rec_Some [OF ok] by blast
  note l = live_rec [OF ok r(1)]
  have c0: "counts hash norm st n = hr_count r" if "norm n = norm name" for n
  proof -
    have "rec st n = Some hp" using that r by (simp add: rec_Some [OF ok])
    then show ?thesis using r(1) by (simp add: counts_def)
  qed
  show thesis
  proof (cases "hr_count r = 1")
    case True
    let ?st = "st\<lparr>nt_table := (nt_table st)(hash (hr_name r) := remove1 hp (nt_table st (hash (hr_name r)))),
               nt_recs := (nt_recs st)(hp := None)\<rparr>"
    note rl = release_last [OF ok r(1)]
    have e: "release_name hash hp st = Some ?st"
      using r(1) l(4) True by (simp add: release_name_def Let_def)
    have "counts hash norm ?st n = count_step norm (counts hash norm st) (Release name) n" for n
    proof (cases "norm n = norm name")
      case True
      then have "count_step norm (counts hash norm st) (Release name) n = 0"
        using c0 [OF True] \<open>hr_count r = 1\<close> by (simp add: count_step_def)
      then show ?thesis using rl(2) [of n] True r(2) by (simp add: counts_def)
    next
      case False
      then have "rec st n \<noteq> Some hp" using r by (simp add: rec_Some [OF ok])
      then show ?thesis using rl(2) [of n] False r(2)
        by (auto simp: counts_def count_step_def split: option.splits)
    qed
    then show thesis by (intro that [OF e rl(1)] ext)
  next
    case False
    let ?r = "r\<lparr>hr_count := hr_count r - 1\<rparr>"
    let ?st = "st\<lparr>nt_recs := (nt_recs st)(hp \<mapsto> ?r)\<rparr>"
    have e: "release_name hash hp st = Some ?st"
      using r(1) False by (simp add: release_name_def Let_def)
    have pos: "0 < hr_count ?r" using l(3) False by simp
    note u = update_rec [OF ok r(1) _ pos]
    have "counts hash norm ?st n = count_step norm (counts hash norm st) (Release name) n" for n
    proof (cases "norm n = norm name")
      case True
      then have "rec st n = Some hp" using r by (simp add: rec_Some [OF ok])
      then show ?thesis using True u(2) c0 [OF True] l(3) by (simp add: counts_def count_step_def)
    next
      case False
      then have "rec st n \<noteq> Some hp" using r by (simp add: rec_Some [OF ok])
      then show ?thesis using False u(2)
        by (auto simp: counts_def count_step_def split: option.splits)
    qed
    then show thesis by (intro that [OF e u(1)] ext) simp
  qed
qed

lemma counts_rec:
  assumes "tab_ok st"
  shows "counts hash norm st name = 0 \<longleftrightarrow> rec st name = None"
proof (cases "rec st name")
  case (Some hp)
  then obtain r where "nt_recs st hp = Some r" using rec_Some [OF assms] by blast
  then show ?thesis using live_rec(3) [OF assms, of hp r] Some by (simp add: counts_def)
qed (simp add: counts_def)

lemma find_rec: "tab_ok st \<Longrightarrow> cstring name \<Longrightarrow> find_name hash same name st = Some (rec st name)"
  by (simp add: find_name_def name_find_rec)

lemma init_tab_ok: "tab_ok init_nametab" "counts hash norm init_nametab = (\<lambda>_. 0)"
  by (simp_all add: nametab_ok_def init_nametab_def counts_def rec_of_def fun_eq_iff)

lemma name_step_ok:
  assumes "tab_ok st" "cstring (op_name op) \<and> length (op_name op) \<le> maxlen"
  shows "tab_ok (name_step hash same maxlen st op)
    \<and> counts hash norm (name_step hash same maxlen st op) = count_step norm (counts hash norm st) op"
proof (cases op)
  case (Acquire name)
  then have name: "cstring name" "length name \<le> maxlen" using assms(2) by simp_all
  show ?thesis
    by (rule acquire_ok [OF assms(1) name]) (simp add: name_step_def Acquire)
next
  case (Release name)
  note f = find_rec [OF assms(1), of name]
  show ?thesis
  proof (cases "rec st name")
    case None
    have "counts hash norm st n = count_step norm (counts hash norm st) op n" for n
    proof (cases "norm n = norm name")
      case True
      have "rec st n = None"
        by (rule rec_eqI [OF assms(1)]) (use None True rec_Some [OF assms(1), of name] in auto)
      then show ?thesis using Release True by (simp add: counts_def count_step_def)
    qed (simp add: count_step_def Release)
    then show ?thesis using f None assms Release by (auto simp: name_step_def)
  next
    case (Some hp)
    have g: "find_name hash same name st = Some (Some hp)" using f Some assms(2) Release by simp
    show ?thesis by (rule release_ok [OF assms(1) Some]) (simp add: name_step_def Release g)
  qed
qed

end

sublocale counted_names \<subseteq> table: refinement "nametab_ok hash norm" "counts hash norm"
    "name_step hash same maxlen" "count_step norm"
    "\<lambda>op. cstring (op_name op) \<and> length (op_name op) \<le> maxlen"
  by unfold_locales (simp_all add: name_step_ok)

context counted_names
begin

lemma run_counts:
  assumes "list_all (\<lambda>op. cstring (op_name op) \<and> length (op_name op) \<le> maxlen) ops" "cstring name"
  shows "counts hash norm (foldl (name_step hash same maxlen) init_nametab ops)
           = foldl (count_step norm) (\<lambda>_. 0) ops
    \<and> (find_name hash same name (foldl (name_step hash same maxlen) init_nametab ops) = Some None
        \<longleftrightarrow> foldl (count_step norm) (\<lambda>_. 0) ops name = 0)"
proof -
  let ?st = "foldl (name_step hash same maxlen) init_nametab ops"
  have ok: "nametab_ok hash norm ?st" by (rule table.run_inv [OF init_tab_ok(1) assms(1)])
  have c: "counts hash norm ?st = foldl (count_step norm) (\<lambda>_. 0) ops"
    using table.run_absf [OF init_tab_ok(1) assms(1)] init_tab_ok(2) by simp
  show ?thesis using find_rec [OF ok assms(2)] counts_rec [OF ok, of name] by (simp add: c)
qed

text \<open>A new marker is on no record, also when the counter wraps.\<close>

lemma marker_fresh:
  assumes ok: "tab_ok st" and marks: "\<forall>hp r. nt_recs st hp = Some r \<longrightarrow> hr_marker r \<le> nt_marker st"
    and m: "next_name_marker buckets st = (m, st')"
  shows "tab_ok st' \<and> nt_marker st' = m \<and> (\<forall>hp r. nt_recs st' hp = Some r \<longrightarrow> hr_marker r < m)
    \<and> (\<forall>hp. map_option hr_name (nt_recs st' hp) = map_option hr_name (nt_recs st hp))"
proof (cases "nt_marker st + 1 = 0")
  case False
  then have st': "m = nt_marker st + 1" "st' = st\<lparr>nt_marker := m\<rparr>"
    using m by (auto simp: next_name_marker_def Let_def)
  have lt: "nt_marker st < m" using False st'(1) by unat_arith
  have "hr_marker r < m" if "nt_recs st' hp = Some r" for hp r
    using that marks lt st'(2) by (auto intro: order.strict_trans1)
  moreover have "tab_ok st'" using ok st'(2) by (simp add: nametab_ok_def)
  ultimately show ?thesis using st'(2) by auto
next
  case True
  have in_chain: "\<exists>i < buckets. hp \<in> set (nt_table st i)" if "nt_recs st hp = Some r" for hp r
    using live_rec(4) [OF ok that] hash_less by blast
  have "(if \<exists>i < buckets. hp \<in> set (nt_table st i)
      then map_option (\<lambda>r. r\<lparr>hr_marker := 0\<rparr>) (nt_recs st hp) else nt_recs st hp)
    = map_option (\<lambda>r. r\<lparr>hr_marker := 0\<rparr>) (nt_recs st hp)" for hp
    using in_chain [of hp] by (cases "nt_recs st hp") auto
  then have zap: "(\<lambda>hp. if \<exists>i < buckets. hp \<in> set (nt_table st i)
      then map_option (\<lambda>r. r\<lparr>hr_marker := 0\<rparr>) (nt_recs st hp) else nt_recs st hp)
    = (\<lambda>hp. map_option (\<lambda>r. r\<lparr>hr_marker := 0\<rparr>) (nt_recs st hp))" by blast
  have st': "m = 1" "nt_marker st' = 1" "nt_table st' = nt_table st" "nt_next st' = nt_next st"
      "nt_recs st' = (\<lambda>hp. map_option (\<lambda>r. r\<lparr>hr_marker := 0\<rparr>) (nt_recs st hp))"
    using m True zap by (auto simp: next_name_marker_def Let_def cong: if_cong)
  have "tab_ok st'"
    unfolding nametab_ok_def st'
  proof (intro conjI allI impI)
    fix hp r assume "map_option (\<lambda>r. r\<lparr>hr_marker := 0\<rparr>) (nt_recs st hp) = Some r"
    then obtain q where q: "nt_recs st hp = Some q" "r = q\<lparr>hr_marker := 0\<rparr>" by auto
    from live_rec [OF ok q(1)] show "hp < nt_next st" "cstring (hr_name r)" "0 < hr_count r"
      "hp \<in> set (nt_table st b) \<longleftrightarrow> b = hash (hr_name r)" for b by (simp_all add: q(2))
  next
    fix b
    show "distinct (nt_table st b)" "set (nt_table st b) \<subseteq> dom (\<lambda>hp. map_option (\<lambda>r. r\<lparr>hr_marker := 0\<rparr>) (nt_recs st hp))"
      using ok by (auto simp: nametab_ok_def dom_def)
  next
    fix hp r hp' r'
    assume "map_option (\<lambda>r. r\<lparr>hr_marker := 0\<rparr>) (nt_recs st hp) = Some r"
      "map_option (\<lambda>r. r\<lparr>hr_marker := 0\<rparr>) (nt_recs st hp') = Some r'"
      "norm (hr_name r) = norm (hr_name r')"
    then obtain q q' where "nt_recs st hp = Some q" "nt_recs st hp' = Some q'"
      "norm (hr_name q) = norm (hr_name q')" by auto
    then show "hp = hp'" using ok unfolding nametab_ok_def by blast
  qed
  then show ?thesis using st' by (auto simp: option.map_comp comp_def)
qed

end

interpretation host_names: counted_names hosthash "\<lambda>a b. ircd_strcmp a b = 0" "map ToLower" HOSTNAME_MAX HOSTHASHSIZE
proof unfold_locales
  fix a b :: string
  show "map ToLower a = map ToLower b \<Longrightarrow> hosthash a = hosthash b"
    by (simp add: hosthash_def irc_crc32i_def irc_crc32i_loop_lower)
  show "cstring a \<Longrightarrow> cstring b \<Longrightarrow> (ircd_strcmp a b = 0) = (map ToLower a = map ToLower b)"
    by (rule ircd_strcmp_lower)
qed (simp_all add: SSTRING_MAX_def hosthash_def)

interpretation real_names: counted_names realnamehash "(=)" "\<lambda>name. name" REALNAME_MAX REALNAMEHASHSIZE
  by unfold_locales (simp_all add: SSTRING_MAX_def realnamehash_def)

definition host_step :: "nametab \<Rightarrow> name_op \<Rightarrow> nametab" where
  "host_step st op =
     (case op of
        Acquire name \<Rightarrow> (case findorcreatehost name st of Some (hp, st) \<Rightarrow> st | None \<Rightarrow> st)
      | Release name \<Rightarrow>
          (case findhost name st of
             Some (Some hp) \<Rightarrow> (case releasehost hp st of Some st \<Rightarrow> st | None \<Rightarrow> st)
           | _ \<Rightarrow> st))"

lemma host_step_name_step:
  "host_step = name_step hosthash (\<lambda>a b. ircd_strcmp a b = 0) HOSTNAME_MAX"
  by (intro ext)
    (simp add: host_step_def name_step_def findorcreatehost_def findhost_def releasehost_def
       split: name_op.split option.split)

definition valid_host :: "string \<Rightarrow> bool" where
  "valid_host name \<longleftrightarrow> cstring name \<and> length name \<le> HOSTNAME_MAX"

text \<open>
  C20: after any sequence of users that come and go, \<open>findhost\<close> finds a host name, in whatever
  spelling, exactly when the number of users who came with it is larger than the number of
  those who left, and the record counts the difference.
\<close>

theorem hosts_refine_counts:
  assumes "list_all (\<lambda>op. valid_host (op_name op)) ops" "valid_host name"
  shows "(findhost name (foldl host_step init_nametab ops) = Some None
       \<longleftrightarrow> foldl (count_step (map ToLower)) (\<lambda>_. 0) ops name = 0)
    \<and> counts hosthash (map ToLower) (foldl host_step init_nametab ops)
        = foldl (count_step (map ToLower)) (\<lambda>_. 0) ops"
  using host_names.run_counts [of ops name] assms
  by (simp add: host_step_name_step valid_host_def findhost_def)

lemma hosts_refine_counts_witness:
  "findhost ''A.ORG'' (foldl host_step init_nametab [Acquire ''a.org'', Acquire ''A.org'', Release ''a.oRg'']) \<noteq> Some None
   \<and> findhost ''a.org'' (foldl host_step init_nametab [Acquire ''a.org'', Acquire ''A.org'', Release ''a.oRg'', Release ''A.org'']) = Some None"
proof -
  have v: "valid_host ''a.org''" "valid_host ''A.org''" "valid_host ''a.oRg''" "valid_host ''A.ORG''"
    by (simp_all add: valid_host_def cstring_def)
  have l: "map ToLower ''A.org'' = ''a.org''" "map ToLower ''a.oRg'' = ''a.org''"
    "map ToLower ''A.ORG'' = ''a.org''" "map ToLower ''a.org'' = ''a.org''" by code_simp+
  let ?a = "[Acquire ''a.org'', Acquire ''A.org'', Release ''a.oRg'']"
  have "list_all (\<lambda>op. valid_host (op_name op)) ?a" using v by simp
  note a = hosts_refine_counts [OF this v(4), THEN conjunct1]
  let ?b = "[Acquire ''a.org'', Acquire ''A.org'', Release ''a.oRg'', Release ''A.org'']"
  have "list_all (\<lambda>op. valid_host (op_name op)) ?b" using v by simp
  note b = hosts_refine_counts [OF this v(1), THEN conjunct1]
  show ?thesis unfolding a b by (simp add: count_step_def l del: list.map)
qed

end
