(* ===== verification/Channels.thy ===== *)
theory Channels
  imports ChanHash ChanIndex Hosts Bans
begin

text \<open>
  Channels and their users, \<open>channel/channel.c\<close>, on top of the user hash, the channel index
  and the host table, with the lookup of users by numeric of \<open>nick/nick.h\<close>. A channel is
  addressed by a number; a user is the record its slot of \<open>servernicks\<close> points at. The
  handlers of the hooks are other modules: a hook appends to \<open>trace\<close>. \<open>None\<close> is a read of
  freed memory, or a loop that does not return.
\<close>

unbundle bit_operations_syntax

section \<open>State\<close>

record channel =
  ch_index :: nat
  ch_timestamp :: int
  ch_topic :: "string option"
  ch_topictime :: int
  ch_flags :: "32 word"
  ch_key :: "string option"
  ch_limit :: int
  ch_bans :: "chanban list"
  ch_users :: chanuserhash

text \<open>The members of a user that the channels use; \<open>nk_channels\<close> is \<open>None\<close> after \<open>free\<close>.\<close>

record cnick =
  nk_nick :: string
  nk_numeric :: nat
  nk_host :: nat
  nk_channels :: "nat carray option"

record server =
  sv_linkstate :: nat
  sv_maxusernum :: nat

text \<open>
  The hooks with their channel and user, the lines sent to the network, and the log lines of
  level \<open>ERR_ERROR\<close>.
\<close>

datatype chan_event =
  ChannelNewNick nat nat
| ChannelLostNick nat nat
| ChannelNewChannel nat
| ChannelLostChannel nat
| ChannelBurst nat
| ChannelCreate nat nat
| ChannelJoin nat nat
| ChannelPart nat nat
| ChannelKick nat nat "nat option"
| ChannelTopic nat "nat option"
| ChannelModeChange nat "32 word" "32 word"
| ChannelOpped nat nat
| ChannelDeopped nat nat
| ChannelVoiced nat nat
| ChannelDevoiced nat nat
| ChannelBanSet nat
| ChannelBanClear nat
| SendPart nat string
| ChannelError

record chanst =
  serverlist :: "nat \<Rightarrow> server"
  servernicks :: "nat \<Rightarrow> nat \<Rightarrow> cnick option"
  st_index :: chantab
  st_hosts :: nametab
  st_channels :: "nat \<rightharpoonup> channel"
  st_nextchan :: nat
  trace :: "chan_event list"

definition LS_INVALID :: nat where "LS_INVALID = 0"
definition LS_LINKED :: nat where "LS_LINKED = 1"

definition MAGIC_REMOTE_JOIN_TS :: int where "MAGIC_REMOTE_JOIN_TS = 1270080000"

definition emit :: "chan_event \<Rightarrow> chanst \<Rightarrow> chanst" where
  "emit e st = st\<lparr>trace := trace st @ [e]\<rparr>"

section \<open>Users by numeric\<close>

definition homeserver :: "nat \<Rightarrow> nat" where
  "homeserver x = drop_bit 18 x AND (4096 - 1)"

definition nick_slot :: "chanst \<Rightarrow> nat \<Rightarrow> nat" where
  "nick_slot st x = x AND sv_maxusernum (serverlist st (homeserver x))"

definition getnickbynumeric :: "chanst \<Rightarrow> nat \<Rightarrow> cnick option" where
  "getnickbynumeric st x =
     (if sv_linkstate (serverlist st (homeserver x)) = LS_INVALID then None
      else case servernicks st (homeserver x) (nick_slot st x) of
             None \<Rightarrow> None
           | Some np \<Rightarrow> if nk_numeric np = (x AND CU_NUMERICMASK) then Some np else None)"

text \<open>The user changes where its numeric points.\<close>

definition put_nick :: "cnick \<Rightarrow> chanst \<Rightarrow> chanst" where
  "put_nick np st =
     (let x = nk_numeric np; h = homeserver x
      in st\<lparr>servernicks := (servernicks st)(h := (servernicks st h)(nick_slot st x \<mapsto> np))\<rparr>)"

definition clear_nick :: "nat \<Rightarrow> chanst \<Rightarrow> chanst" where
  "clear_nick x st =
     (let h = homeserver x
      in st\<lparr>servernicks := (servernicks st)(h := (servernicks st h)(nick_slot st x := None))\<rparr>)"

section \<open>Operations\<close>

definition delchannel :: "nat \<Rightarrow> chanst \<Rightarrow> chanst option" where
  "delchannel cp st = do {
     c \<leftarrow> st_channels st cp;
     ci \<leftarrow> cips (st_index st) (ch_index c);
     ix \<leftarrow> releasechanindex (ch_index c)
             ((st_index st)\<lparr>cips := (cips (st_index st))(ch_index c \<mapsto> ci\<lparr>cichannel := None\<rparr>)\<rparr>);
     Some (st\<lparr>st_index := ix, st_channels := (st_channels st)(cp := None)\<rparr>)
   }"

definition createchannel :: "nat \<Rightarrow> string \<Rightarrow> chanst \<Rightarrow> (nat \<times> chanst) option" where
  "createchannel nouser name st = do {
     (cip, ix) \<leftarrow> findorcreatechanindex name (st_index st);
     ci \<leftarrow> cips ix cip;
     case cichannel ci of
       Some cp \<Rightarrow> Some (cp, emit ChannelError (st\<lparr>st_index := ix\<rparr>))
     | None \<Rightarrow>
         (let ci = (if ciname ci \<noteq> name then ci\<lparr>ciname := sstr name CHANNELLEN\<rparr> else ci);
              cp = st_nextchan st;
              c = \<lparr>ch_index = cip, ch_timestamp = MAGIC_REMOTE_JOIN_TS, ch_topic = None,
                   ch_topictime = 0, ch_flags = 0, ch_key = None, ch_limit = 0, ch_bans = [],
                   ch_users = newchanuserhash nouser 1\<rparr>
          in Some (cp, st\<lparr>st_index := ix\<lparr>cips := (cips ix)(cip \<mapsto> ci\<lparr>cichannel := Some cp\<rparr>)\<rparr>,
                         st_channels := (st_channels st)(cp \<mapsto> c), st_nextchan := cp + 1\<rparr>))
   }"

definition findchannel :: "string \<Rightarrow> chanst \<Rightarrow> nat option option" where
  "findchannel name st = do {
     r \<leftarrow> findchanindex name (st_index st);
     case r of None \<Rightarrow> Some None
     | Some cip \<Rightarrow> do { ci \<leftarrow> cips (st_index st) cip; Some (cichannel ci) }
   }"

definition put_users :: "nat \<Rightarrow> chanuserhash \<Rightarrow> channel \<Rightarrow> chanst \<Rightarrow> chanst" where
  "put_users cp t c st = st\<lparr>st_channels := (st_channels st)(cp \<mapsto> c\<lparr>ch_users := t\<rparr>)\<rparr>"

text \<open>The result is 1 for a user that does not exist or is on the channel already.\<close>

definition addnicktochannel :: "nat \<Rightarrow> nat \<Rightarrow> nat \<Rightarrow> chanst \<Rightarrow> (int \<times> chanst) option" where
  "addnicktochannel nouser cp numeric st = do {
     c \<leftarrow> st_channels st cp;
     case getnickbynumeric st (numeric AND CU_NUMERICMASK) of
       None \<Rightarrow> Some (1, emit ChannelError st)
     | Some np \<Rightarrow> do {
         found \<leftarrow> getnumerichandlefromchanhash (ch_users c) numeric;
         if found \<noteq> None then Some (1, emit ChannelError st)
         else do {
           a \<leftarrow> nk_channels np;
           let (i, a) = array_getfreeslot a;
               a = a\<lparr>content := (content a)[i := Some cp]\<rparr>;
               st = put_nick (np\<lparr>nk_channels := Some a\<rparr>) st
           in do {
             t \<leftarrow> add_loop nouser numeric (ch_users c);
             Some (0, emit (ChannelNewNick cp (nk_numeric np)) (put_users cp t c st))
           }
         }
       }
   }"

text \<open>The search of \<open>delnickfromchannel\<close> in the array of the user.\<close>

fun chan_slot :: "nat \<Rightarrow> nat \<Rightarrow> nat option list \<Rightarrow> nat option" where
  "chan_slot cp i [] = None"
| "chan_slot cp i (x # xs) = (if x = Some cp then Some i else chan_slot cp (i + 1) xs)"

definition delnickfromchannel :: "nat \<Rightarrow> nat \<Rightarrow> nat \<Rightarrow> bool \<Rightarrow> chanst \<Rightarrow> chanst option" where
  "delnickfromchannel nouser cp numeric updateuser st = do {
     c \<leftarrow> st_channels st cp;
     case getnickbynumeric st (numeric AND CU_NUMERICMASK) of
       None \<Rightarrow> Some (emit ChannelError st)
     | Some np \<Rightarrow> do {
         found \<leftarrow> getnumerichandlefromchanhash (ch_users c) numeric;
         case found of
           None \<Rightarrow> Some st
         | Some lp \<Rightarrow>
             (let st = emit (ChannelLostNick cp (nk_numeric np)) st;
                  t = cuh_clear nouser (ch_users c) lp;
                  st = put_users cp t c st
              in do {
                st \<leftarrow> (if totalusers t = 0 then delchannel cp (emit (ChannelLostChannel cp) st)
                      else Some st);
                if updateuser then do {
                  a \<leftarrow> nk_channels np;
                  case chan_slot cp 0 (items a) of
                    Some i \<Rightarrow> Some (put_nick (np\<lparr>nk_channels := Some (array_delslot a i)\<rparr>) st)
                  | None \<Rightarrow> do { c \<leftarrow> st_channels st cp; Some (emit ChannelError st) }
                }
                else Some st
              })
       }
   }"

text \<open>
  \<open>addordelnick\<close>, the handler of the hooks for a user that appears and one that is lost. The
  array of the lost user does not change while its channels are left.
\<close>

definition nick_added :: "cnick \<Rightarrow> chanst \<Rightarrow> chanst" where
  "nick_added np st =
     put_nick (np\<lparr>nk_channels := Some (array_init\<lparr>allocchunksize := 10, freechunksize := 15\<rparr>)\<rparr>) st"

fun leave_all :: "nat \<Rightarrow> nat \<Rightarrow> nat option list \<Rightarrow> chanst \<Rightarrow> chanst option" where
  "leave_all nouser numeric [] st = Some st"
| "leave_all nouser numeric (x # xs) st = do {
     cp \<leftarrow> x;
     st \<leftarrow> delnickfromchannel nouser cp numeric False st;
     leave_all nouser numeric xs st
   }"

definition nick_lost :: "nat \<Rightarrow> cnick \<Rightarrow> chanst \<Rightarrow> chanst option" where
  "nick_lost nouser np st = do {
     a \<leftarrow> nk_channels np;
     st \<leftarrow> leave_all nouser (nk_numeric np) (items a) st;
     Some (put_nick (np\<lparr>nk_channels := None\<rparr>) st)
   }"

text \<open>\<open>countuniquehosts\<close>; the error for an unknown numeric is a log line.\<close>

fun count_hosts :: "nat \<Rightarrow> 32 word \<Rightarrow> nat list \<Rightarrow> nat \<Rightarrow> chanst \<Rightarrow> (nat \<times> chanst) option" where
  "count_hosts nouser marker [] n st = Some (n, st)"
| "count_hosts nouser marker (x # xs) n st =
     (if x = nouser then count_hosts nouser marker xs n st
      else case getnickbynumeric st x of
        None \<Rightarrow> count_hosts nouser marker xs n (emit ChannelError st)
      | Some np \<Rightarrow> do {
          r \<leftarrow> nt_recs (st_hosts st) (nk_host np);
          if hr_marker r = marker then count_hosts nouser marker xs n st
          else count_hosts nouser marker xs (n + 1)
                 (st\<lparr>st_hosts := (st_hosts st)
                    \<lparr>nt_recs := (nt_recs (st_hosts st))(nk_host np \<mapsto> r\<lparr>hr_marker := marker\<rparr>)\<rparr>\<rparr>)
        })"

definition countuniquehosts :: "nat \<Rightarrow> nat \<Rightarrow> chanst \<Rightarrow> (nat \<times> chanst) option" where
  "countuniquehosts nouser cp st =
     (let (marker, ht) = nexthostmarker (st_hosts st); st = st\<lparr>st_hosts := ht\<rparr>
      in do {
        c \<leftarrow> st_channels st cp;
        count_hosts nouser marker (take (hashsize (ch_users c)) (ucontent (ch_users c))) 0 st
      })"

text \<open>
  \<open>clean_key\<close> cuts a key at the first character that is not above a space or is a colon or a
  comma.
\<close>

fun clean_key :: "string \<Rightarrow> string" where
  "clean_key [] = []"
| "clean_key (c # s) =
     (if schar c \<le> 32 \<or> c = CHR '':'' \<or> c = CHR '','' then [] else c # clean_key s)"

section \<open>Users by numeric\<close>

definition servers_ok :: "chanst \<Rightarrow> bool" where
  "servers_ok st \<longleftrightarrow> (\<forall>i. sv_maxusernum (serverlist st i) < 2 ^ 18)"

lemma homeserver_masked [simp]: "homeserver (masked x) = homeserver x"
proof -
  have "(4096 - 1 :: nat) = mask 12" "CU_NUMERICMASK = mask 30"
    by (simp_all add: mask_eq_exp_minus_1)
  then show ?thesis
    by (simp only: homeserver_def masked_def take_bit_eq_mask [symmetric] drop_bit_take_bit) simp
qed

lemma nick_slot_masked [simp]:
  assumes "servers_ok st"
  shows "nick_slot st (masked x) = nick_slot st x"
proof -
  let ?m = "sv_maxusernum (serverlist st (homeserver x))"
  have "?m < 2 ^ 18" using assms by (simp add: servers_ok_def)
  then have "take_bit 30 ?m = ?m" by (simp add: take_bit_nat_eq_self)
  moreover have "CU_NUMERICMASK = mask 30" by (simp add: mask_eq_exp_minus_1)
  ultimately have "CU_NUMERICMASK AND ?m = ?m"
    by (simp only: take_bit_eq_mask and.commute [of _ ?m])
  then show ?thesis by (simp only: nick_slot_def homeserver_masked) (simp only: masked_def and.assoc)
qed

lemma getnick_alt:
  "getnickbynumeric st x =
     (if sv_linkstate (serverlist st (homeserver x)) = LS_INVALID then None
      else case servernicks st (homeserver x) (nick_slot st x) of
             None \<Rightarrow> None
           | Some np \<Rightarrow> if nk_numeric np = masked x then Some np else None)"
  unfolding getnickbynumeric_def masked_def by (rule refl)

lemma getnick_masked: "servers_ok st \<Longrightarrow> getnickbynumeric st (masked x) = getnickbynumeric st x"
  unfolding getnick_alt by (simp only: homeserver_masked nick_slot_masked masked_masked)

lemma getnick_numeric: "getnickbynumeric st x = Some np \<Longrightarrow> nk_numeric np = masked x"
  by (auto simp: getnick_alt split: if_splits option.splits)

text \<open>Writing the slot of a numeric that is free or holds the user with the numeric.\<close>

lemma getnick_slot_write:
  assumes ok: "servers_ok st"
    and slot: "\<And>np0. servernicks st (homeserver x) (nick_slot st x) = Some np0 \<Longrightarrow> nk_numeric np0 = masked x"
    and v: "\<And>np. v = Some np \<Longrightarrow> nk_numeric np = masked x"
    and link: "sv_linkstate (serverlist st (homeserver x)) \<noteq> LS_INVALID"
    and st': "servernicks st' = (servernicks st)(homeserver x := (servernicks st (homeserver x))(nick_slot st x := v))"
      "serverlist st' = serverlist st"
  shows "getnickbynumeric st' y = (if masked y = masked x then v else getnickbynumeric st y)"
proof -
  let ?h = "homeserver x" and ?s = "nick_slot st x"
  have put: "servernicks st' h s = (if h = ?h \<and> s = ?s then v else servernicks st h s)" for h s
    by (simp add: st'(1))
  have at: "nick_slot st' y = nick_slot st y" by (simp add: nick_slot_def st'(2))
  show ?thesis
  proof (cases "masked y = masked x")
    case True
    then have "homeserver y = ?h" using homeserver_masked by metis
    moreover have "nick_slot st y = ?s" using True nick_slot_masked [OF ok] by metis
    ultimately show ?thesis using True link v by (auto simp: getnick_alt at put st'(2) split: option.split)
  next
    case False
    then show ?thesis
      using slot v unfolding getnick_alt at put st'(2) by (auto split: option.split)
  qed
qed

lemma getnick_at:
  assumes "getnickbynumeric st x = Some np0"
  shows "servernicks st (homeserver x) (nick_slot st x) = Some np0" "nk_numeric np0 = masked x"
    "sv_linkstate (serverlist st (homeserver x)) \<noteq> LS_INVALID"
  using assms by (auto simp: getnick_alt split: if_splits option.splits)

lemma put_nick_slot:
  assumes "servers_ok st" "nk_numeric np = masked x"
  shows "servernicks (put_nick np st)
    = (servernicks st)(homeserver x := (servernicks st (homeserver x))(nick_slot st x := Some np))"
    "serverlist (put_nick np st) = serverlist st"
  using assms by (simp_all add: put_nick_def Let_def)

lemma getnick_put:
  assumes ok: "servers_ok st" and np: "getnickbynumeric st x = Some np0" "nk_numeric np = masked x"
  shows "getnickbynumeric (put_nick np st) y
    = (if masked y = masked x then Some np else getnickbynumeric st y)"
  by (rule getnick_slot_write [OF ok _ _ getnick_at(3) [OF np(1)] put_nick_slot [OF ok np(2)]])
    (use getnick_at [OF np(1)] np(2) in simp_all)

lemma getnick_new:
  assumes ok: "servers_ok st" and np: "nk_numeric np = masked x"
    and free: "servernicks st (homeserver x) (nick_slot st x) = None"
    and link: "sv_linkstate (serverlist st (homeserver x)) \<noteq> LS_INVALID"
  shows "getnickbynumeric (put_nick np st) y
    = (if masked y = masked x then Some np else getnickbynumeric st y)"
  by (rule getnick_slot_write [OF ok _ _ link put_nick_slot [OF ok np]]) (use free np in simp_all)

lemma getnick_clear:
  assumes ok: "servers_ok st" and np: "getnickbynumeric st x = Some np0"
  shows "getnickbynumeric (clear_nick x st) y
    = (if masked y = masked x then None else getnickbynumeric st y)"
  by (rule getnick_slot_write [OF ok _ _ getnick_at(3) [OF np]])
    (use getnick_at [OF np] in \<open>simp_all add: clear_nick_def Let_def\<close>)

lemma getnick_same:
  "serverlist st' = serverlist st \<Longrightarrow> servernicks st' = servernicks st \<Longrightarrow>
   getnickbynumeric st' = getnickbynumeric st"
  by (simp add: fun_eq_iff getnickbynumeric_def nick_slot_def)

section \<open>The invariant\<close>

text \<open>The channels a user is on, by the tables of the channels and by its own array.\<close>

definition on_channels :: "nat \<Rightarrow> chanst \<Rightarrow> nat \<Rightarrow> nat set" where
  "on_channels nouser st k =
     {cp. \<exists>c. st_channels st cp = Some c \<and> user_map nouser (ch_users c) (masked k) \<noteq> None}"

definition own_channels :: "chanst \<Rightarrow> nat \<Rightarrow> nat set" where
  "own_channels st k =
     {cp. \<exists>np a. getnickbynumeric st k = Some np \<and> nk_channels np = Some a \<and> Some cp \<in> set (items a)}"

text \<open>Channels and index records point at each other, and the tables are well formed.\<close>

definition base_inv :: "nat \<Rightarrow> chanst \<Rightarrow> bool" where
  "base_inv nouser st \<longleftrightarrow>
     servers_ok st \<and> chantab_ok (st_index st)
     \<and> (\<forall>cp c. st_channels st cp = Some c \<longrightarrow>
          cp < st_nextchan st \<and> cuh_ok nouser (ch_users c)
          \<and> (\<exists>ci. cips (st_index st) (ch_index c) = Some ci \<and> cichannel ci = Some cp))
     \<and> (\<forall>cip ci cp. cips (st_index st) cip = Some ci \<longrightarrow> cichannel ci = Some cp \<longrightarrow>
          (\<exists>c. st_channels st cp = Some c \<and> ch_index c = cip))"

definition nick_ok :: "nat \<Rightarrow> cnick \<Rightarrow> bool" where
  "nick_ok nouser np \<longleftrightarrow> nk_numeric np \<noteq> masked nouser
     \<and> (\<exists>a. nk_channels np = Some a \<and> array_ok a \<and> distinct (items a) \<and> None \<notin> set (items a))"

definition chan_inv :: "nat \<Rightarrow> chanst \<Rightarrow> bool" where
  "chan_inv nouser st \<longleftrightarrow>
     base_inv nouser st
     \<and> (\<forall>k np. getnickbynumeric st k = Some np \<longrightarrow> nick_ok nouser np)
     \<and> (\<forall>k. on_channels nouser st k = own_channels st k)"

lemma base_channel:
  assumes "base_inv nouser st" "st_channels st cp = Some c"
  shows "cp < st_nextchan st" "cuh_ok nouser (ch_users c)"
    "\<exists>ci. cips (st_index st) (ch_index c) = Some ci \<and> cichannel ci = Some cp"
  using assms unfolding base_inv_def by blast+

lemma base_index:
  assumes "base_inv nouser st" "cips (st_index st) cip = Some ci" "cichannel ci = Some cp"
  shows "\<exists>c. st_channels st cp = Some c \<and> ch_index c = cip"
  using assms unfolding base_inv_def by blast

lemma base_parts:
  assumes "base_inv nouser st"
  shows "servers_ok st" "chantab_ok (st_index st)"
  using assms unfolding base_inv_def by blast+

lemma emit_simps [simp]:
  "base_inv nouser (emit e st) = base_inv nouser st"
  "on_channels nouser (emit e st) = on_channels nouser st"
  "own_channels (emit e st) = own_channels st"
  "getnickbynumeric (emit e st) = getnickbynumeric st"
  "chan_inv nouser (emit e st) = chan_inv nouser st"
  "st_channels (emit e st) = st_channels st" "st_index (emit e st) = st_index st"
  "servernicks (emit e st) = servernicks st" "serverlist (emit e st) = serverlist st"
  "st_hosts (emit e st) = st_hosts st"
proof -
  show g: "getnickbynumeric (emit e st) = getnickbynumeric st"
    by (rule getnick_same) (simp_all add: emit_def)
  show b: "base_inv nouser (emit e st) = base_inv nouser st"
    by (simp add: emit_def base_inv_def servers_ok_def)
  show o: "on_channels nouser (emit e st) = on_channels nouser st"
    by (simp add: emit_def on_channels_def fun_eq_iff)
  show w: "own_channels (emit e st) = own_channels st"
    by (simp add: own_channels_def g fun_eq_iff)
  show "chan_inv nouser (emit e st) = chan_inv nouser st"
    by (simp add: chan_inv_def b g o w)
qed (simp_all add: emit_def)

lemma put_users_simps [simp]:
  "servernicks (put_users cp t c st) = servernicks st" "serverlist (put_users cp t c st) = serverlist st"
  "st_index (put_users cp t c st) = st_index st" "st_hosts (put_users cp t c st) = st_hosts st"
  "st_channels (put_users cp t c st) = (st_channels st)(cp \<mapsto> c\<lparr>ch_users := t\<rparr>)"
  "st_nextchan (put_users cp t c st) = st_nextchan st"
  "getnickbynumeric (put_users cp t c st) = getnickbynumeric st"
proof -
  show "getnickbynumeric (put_users cp t c st) = getnickbynumeric st"
    by (rule getnick_same) (simp_all add: put_users_def)
qed (simp_all add: put_users_def)

lemma put_users_base:
  assumes "base_inv nouser st" "st_channels st cp = Some c" "cuh_ok nouser t"
  shows "base_inv nouser (put_users cp t c st)"
proof -
  note b = base_channel [OF assms(1,2)]
  have "ch_index c = cip" if "cips (st_index st) cip = Some ci" "cichannel ci = Some cp" for cip ci
    using base_index [OF assms(1) that] assms(2) by auto
  then show ?thesis
    using assms b unfolding base_inv_def
    by (auto simp: servers_ok_def split: if_splits)
qed

lemma put_users_on:
  assumes "st_channels st cp = Some c"
    "user_map nouser t = (user_map nouser (ch_users c))(masked x := v)"
  shows "on_channels nouser (put_users cp t c st) k =
    (if masked k = masked x then (if v = None then on_channels nouser st k - {cp}
                                  else insert cp (on_channels nouser st k))
     else on_channels nouser st k)"
  using assms by (auto simp: on_channels_def)

text \<open>Changing the array of a user.\<close>

lemma put_nick_simps [simp]:
  "st_index (put_nick np st) = st_index st" "st_hosts (put_nick np st) = st_hosts st"
  "st_channels (put_nick np st) = st_channels st" "serverlist (put_nick np st) = serverlist st"
  "base_inv nouser (put_nick np st) = base_inv nouser st"
  "on_channels nouser (put_nick np st) = on_channels nouser st"
  by (simp_all add: put_nick_def Let_def base_inv_def servers_ok_def on_channels_def fun_eq_iff)

lemma put_nick_own:
  assumes "servers_ok st" "getnickbynumeric st x = Some np" "nk_channels np' = Some a"
    "nk_numeric np' = nk_numeric np"
  shows "own_channels (put_nick np' st) k =
    (if masked k = masked x then {cp. Some cp \<in> set (items a)} else own_channels st k)"
  using getnick_put [OF assms(1,2), of np' k] getnick_numeric [OF assms(2)] assms(3,4)
  by (auto simp: own_channels_def)

lemma array_push:
  assumes "array_ok a" "array_getfreeslot a = (i, a')"
  shows "array_ok (a'\<lparr>content := (content a')[i := x]\<rparr>)"
    "items (a'\<lparr>content := (content a')[i := x]\<rparr>) = items a @ [x]"
proof -
  note g = array_getfreeslot_ok [OF assms]
  have i: "i = cursi a" "cursi a' = Suc (cursi a)"
    using assms(2) by (auto simp: array_getfreeslot_def Let_def split: if_splits)
  show "array_ok (a'\<lparr>content := (content a')[i := x]\<rparr>)"
    using g by (simp add: array_ok_def)
  have "length (items a') = Suc i" using g i by (simp add: items_def array_ok_def)
  then obtain y where "items a' = items a @ [y]" "length (items a) = i"
    using g by (metis append_butlast_last_id diff_Suc_1 length_butlast list.size(3) nat.distinct(1))
  then have push: "(items a')[i := x] = items a @ [x]" by auto
  have "items (a'\<lparr>content := (content a')[i := x]\<rparr>) = (items a')[i := x]"
    using i by (simp add: items_def take_update_swap)
  then show "items (a'\<lparr>content := (content a')[i := x]\<rparr>) = items a @ [x]"
    using g push by simp
qed

section \<open>Joining\<close>

lemma addnick_inv:
  assumes inv: "chan_inv nouser st" and r: "addnicktochannel nouser cp numeric st = Some (res, st')"
  shows "chan_inv nouser st'
    \<and> (res = 0 \<longrightarrow> (\<forall>k. on_channels nouser st' k = (if masked k = masked numeric
           then insert cp (on_channels nouser st k) else on_channels nouser st k)))
    \<and> (res \<noteq> 0 \<longrightarrow> on_channels nouser st' = on_channels nouser st)"
proof -
  have base: "base_inv nouser st" using inv by (simp add: chan_inv_def)
  note sv = base_parts(1) [OF base]
  obtain c where c: "st_channels st cp = Some c"
    using r by (auto simp: addnicktochannel_def split: Option.bind_splits)
  note ok = base_channel(2) [OF base c]
  show ?thesis
  proof (cases "getnickbynumeric st numeric")
    case None
    then show ?thesis
      using r c inv by (auto simp: addnicktochannel_def masked_def [symmetric] getnick_masked [OF sv])
  next
    case (Some np)
    then have nk: "nick_ok nouser np" using inv by (auto simp: chan_inv_def)
    have num: "nk_numeric np = masked numeric" by (rule getnick_numeric [OF Some])
    then have valid: "masked numeric \<noteq> masked nouser" using nk by (simp add: nick_ok_def)
    obtain a where a: "nk_channels np = Some a" "array_ok a" "distinct (items a)" "None \<notin> set (items a)"
      using nk by (auto simp: nick_ok_def)
    from cu.look_law [OF ok valid] obtain f where
      look: "getnumerichandlefromchanhash (ch_users c) numeric = Some f
         \<and> (f = None \<longleftrightarrow> user_map nouser (ch_users c) (masked numeric) = None)" by (rule exE)
    note f = look [THEN conjunct1] look [THEN conjunct2]
    show ?thesis
    proof (cases f)
      case (Some lp)
      then show ?thesis
        using r c f \<open>getnickbynumeric st numeric = Some np\<close> inv
        by (auto simp: addnicktochannel_def masked_def [symmetric] getnick_masked [OF sv])
    next
      case None
      obtain i a1 where g: "array_getfreeslot a = (i, a1)" by fastforce
      let ?a = "a1\<lparr>content := (content a1)[i := Some cp]\<rparr>"
      note push = array_push [OF a(2) g, of "Some cp"]
      let ?np = "np\<lparr>nk_channels := Some ?a\<rparr>"
      obtain t where t: "add_loop nouser numeric (ch_users c) = Some t"
        and st': "res = 0" "st' = emit (ChannelNewNick cp (nk_numeric np)) (put_users cp t c (put_nick ?np st))"
        using r c f None \<open>getnickbynumeric st numeric = Some np\<close> a(1) g
        by (auto simp: addnicktochannel_def masked_def [symmetric] getnick_masked [OF sv] Let_def
            split: Option.bind_splits)
      have tl: "cuh_ok nouser t"
          "user_map nouser t = (user_map nouser (ch_users c))(masked numeric \<mapsto> numeric)"
        using cu.add_law [OF ok valid _ t] f(2) None by simp_all
      have c': "st_channels (put_nick ?np st) cp = Some c" using c by simp
      have base': "base_inv nouser st'"
        using put_users_base [OF _ c' tl(1)] base st'(2) by simp
      have on: "on_channels nouser st' k = (if masked k = masked numeric
           then insert cp (on_channels nouser st k) else on_channels nouser st k)" for k
        using put_users_on [OF c' tl(2)] st'(2) by simp
      have own: "own_channels st' k = (if masked k = masked numeric
           then insert cp (own_channels st k) else own_channels st k)" for k
      proof -
        have "own_channels st' k = own_channels (put_nick ?np st) k"
          using st'(2) by (simp add: own_channels_def)
        also have "\<dots> = (if masked k = masked numeric then {cp. Some cp \<in> set (items ?a)} else own_channels st k)"
          by (rule put_nick_own [OF sv \<open>getnickbynumeric st numeric = Some np\<close>]) simp_all
        finally have 1: "own_channels st' k =
          (if masked k = masked numeric then insert cp {cp. Some cp \<in> set (items a)} else own_channels st k)"
          unfolding push(2) by auto
        have "own_channels st k = {cp. Some cp \<in> set (items a)}" if "masked k = masked numeric"
        proof -
          have "getnickbynumeric st k = Some np"
            using \<open>getnickbynumeric st numeric = Some np\<close> that getnick_masked [OF sv] by metis
          then show ?thesis using a(1) by (simp add: own_channels_def)
        qed
        then show ?thesis using 1 by simp
      qed
      have "cp \<notin> on_channels nouser st numeric" using c f(2) None by (simp add: on_channels_def)
      then have "cp \<notin> own_channels st numeric" using inv by (simp add: chan_inv_def)
      then have "Some cp \<notin> set (items a)"
        using \<open>getnickbynumeric st numeric = Some np\<close> a(1) by (simp add: own_channels_def)
      then have nk': "nick_ok nouser ?np"
        using a push num valid by (simp add: nick_ok_def)
      have "nick_ok nouser q" if "getnickbynumeric st' k = Some q" for k q
      proof -
        have "getnickbynumeric (put_nick ?np st) k = Some q" using that st'(2) by simp
        then show ?thesis
          using getnick_put [OF sv \<open>getnickbynumeric st numeric = Some np\<close>, of ?np k] num nk' inv
          by (auto simp: chan_inv_def split: if_splits)
      qed
      then have "chan_inv nouser st'"
        using base' on own inv by (simp add: chan_inv_def)
      then show ?thesis using on st'(1) by simp
    qed
  qed
qed

section \<open>Leaving\<close>

lemma delchannel_base:
  assumes base: "base_inv nouser st" and c: "st_channels st cp = Some c"
  obtains st' where "delchannel cp st = Some st'" "base_inv nouser st'"
    "st_channels st' = (st_channels st)(cp := None)" "servernicks st' = servernicks st"
    "serverlist st' = serverlist st" "st_hosts st' = st_hosts st"
proof -
  note ch = base_channel [OF base c] and parts = base_parts [OF base]
  obtain ci where ci: "cips (st_index st) (ch_index c) = Some ci" "cichannel ci = Some cp"
    using ch(3) by blast
  let ?ci = "ci\<lparr>cichannel := None\<rparr>"
  let ?ix = "(st_index st)\<lparr>cips := (cips (st_index st))(ch_index c \<mapsto> ?ci)\<rparr>"
  note l = live_chain [OF parts(2) ci(1)]
  have ok: "chantab_ok ?ix" by (rule update_ok(1) [OF parts(2) ci(1)]) (use l in simp_all)
  obtain ix where ix: "releasechanindex (ch_index c) ?ix = Some ix" "chantab_ok ix"
      "cips ix = (if ci_used ?ci then cips ?ix else (cips ?ix)(ch_index c := None))"
    using release_index_ok [OF ok, of "ch_index c" ?ci] by auto
  let ?st = "st\<lparr>st_index := ix, st_channels := (st_channels st)(cp := None)\<rparr>"
  have e: "delchannel cp st = Some ?st" by (simp add: delchannel_def c ci(1) ix(1))
  have other: "cips ix cip = cips (st_index st) cip" if "cip \<noteq> ch_index c" for cip
    using that ix(3) by simp
  have gone: "cips ix (ch_index c) = Some ci1 \<Longrightarrow> cichannel ci1 = None" for ci1
    using ix(3) by (auto split: if_splits)
  have "cp' < st_nextchan ?st \<and> cuh_ok nouser (ch_users c')
      \<and> (\<exists>ci. cips (st_index ?st) (ch_index c') = Some ci \<and> cichannel ci = Some cp')"
    if "st_channels ?st cp' = Some c'" for cp' c'
  proof -
    have ne: "cp' \<noteq> cp" and c': "st_channels st cp' = Some c'" using that by (auto split: if_splits)
    note b = base_channel [OF base c']
    have "ch_index c' \<noteq> ch_index c" using b(3) ci ne by auto
    then show ?thesis using b other by simp
  qed
  moreover have "\<exists>c. st_channels ?st cp' = Some c \<and> ch_index c = cip"
    if d: "cips (st_index ?st) cip = Some ci'" "cichannel ci' = Some cp'" for cip ci' cp'
  proof -
    have "cip \<noteq> ch_index c" using d gone [of ci'] by auto
    then have "cips (st_index st) cip = Some ci'" using d(1) other by simp
    then obtain c' where c': "st_channels st cp' = Some c'" "ch_index c' = cip"
      using base_index [OF base _ d(2)] by blast
    then have "cp' \<noteq> cp" using c \<open>cip \<noteq> ch_index c\<close> by auto
    then show ?thesis using c' by simp
  qed
  moreover have "servers_ok ?st" using parts(1) by (simp add: servers_ok_def)
  ultimately have "base_inv nouser ?st" using ix(2) unfolding base_inv_def by auto
  then show thesis using that [OF e] by simp
qed

text \<open>The part of \<open>delnickfromchannel\<close> before the array of the user.\<close>

definition leave_table :: "nat \<Rightarrow> nat \<Rightarrow> channel \<Rightarrow> nat \<Rightarrow> chanst \<Rightarrow> chanst option" where
  "leave_table nouser cp c lp st =
     (let t = cuh_clear nouser (ch_users c) lp; st = put_users cp t c st
      in if totalusers t = 0 then delchannel cp (emit (ChannelLostChannel cp) st) else Some st)"

lemma leave_table_ok:
  assumes base: "base_inv nouser st" and c: "st_channels st cp = Some c"
    and x: "masked x \<noteq> masked nouser"
    and lp: "getnumerichandlefromchanhash (ch_users c) x = Some (Some lp)"
  obtains st' where "leave_table nouser cp c lp st = Some st'" "base_inv nouser st'"
    "servernicks st' = servernicks st" "serverlist st' = serverlist st" "st_hosts st' = st_hosts st"
    "\<And>k. on_channels nouser st' k = (if masked k = masked x then on_channels nouser st k - {cp}
                                      else on_channels nouser st k)"
    "\<And>cp'. cp' \<noteq> cp \<Longrightarrow> st_channels st' cp' = st_channels st cp'"
proof -
  let ?t = "cuh_clear nouser (ch_users c) lp"
  let ?st = "put_users cp ?t c st"
  note ok = base_channel(2) [OF base c]
  have t: "cuh_ok nouser ?t" "user_map nouser ?t = (user_map nouser (ch_users c))(masked x := None)"
    using cu.clear_law [OF ok x lp] by simp_all
  have base': "base_inv nouser ?st" by (rule put_users_base [OF base c t(1)])
  have on: "on_channels nouser ?st k = (if masked k = masked x then on_channels nouser st k - {cp}
                                      else on_channels nouser st k)" for k
    using put_users_on [OF c t(2)] by simp
  show thesis
  proof (cases "totalusers ?t = 0")
    case False
    then show thesis using that [of ?st] base' on by (simp add: leave_table_def Let_def)
  next
    case True
    then have empty: "user_map nouser ?t = Map.empty" using cu.empty_total [OF t(1)] by simp
    let ?st1 = "emit (ChannelLostChannel cp) ?st"
    have "base_inv nouser ?st1" "st_channels ?st1 cp = Some (c\<lparr>ch_users := ?t\<rparr>)"
      using base' by simp_all
    then obtain st' where st': "delchannel cp ?st1 = Some st'" "base_inv nouser st'"
        "st_channels st' = (st_channels ?st1)(cp := None)" "servernicks st' = servernicks ?st1"
        "serverlist st' = serverlist ?st1" "st_hosts st' = st_hosts ?st1"
      using delchannel_base by blast
    have "on_channels nouser st' k = on_channels nouser ?st k" for k
      unfolding on_channels_def st'(3) using empty by auto
    then show thesis
      using that [of st'] st' on True by (simp add: leave_table_def Let_def)
  qed
qed

lemma chan_slot_Some:
  "chan_slot cp i xs = Some j \<Longrightarrow> i \<le> j \<and> j < i + length xs \<and> xs ! (j - i) = Some cp"
  by (induction cp i xs rule: chan_slot.induct) (force simp: nth_Cons' split: if_splits)+

lemma chan_slot_None: "chan_slot cp i xs = None \<longleftrightarrow> Some cp \<notin> set xs"
  by (induction cp i xs rule: chan_slot.induct) auto

lemma delslot_distinct:
  assumes "array_ok a" "distinct (items a)" "i < cursi a"
  shows "array_ok (array_delslot a i)" "distinct (items (array_delslot a i))"
    "set (items (array_delslot a i)) = set (items a) - {items a ! i}"
proof -
  have len: "i < length (items a)" using assms by (simp add: items_def array_ok_def)
  have m: "mset (items (array_delslot a i)) = mset (items a) - {#items a ! i#}"
    using array_delslot_items(2) [OF assms(1,3)] swap_remove_mset [OF len] by simp
  show "array_ok (array_delslot a i)" by (rule array_delslot_items(1) [OF assms(1,3)])
  have perm: "mset (items (array_delslot a i)) = mset (remove1 (items a ! i) (items a))"
    using m by simp
  then show "distinct (items (array_delslot a i))"
    using assms(2) by (metis distinct_remove1 mset_eq_imp_distinct_iff)
  show "set (items (array_delslot a i)) = set (items a) - {items a ! i}"
    using mset_eq_setD [OF perm] assms(2) by (simp add: set_remove1_eq)
qed

lemma delnick_unfold:
  assumes "servers_ok st" "st_channels st cp = Some c"
  shows "delnickfromchannel nouser cp x upd st =
    (case getnickbynumeric st x of
       None \<Rightarrow> Some (emit ChannelError st)
     | Some np \<Rightarrow> (case getnumerichandlefromchanhash (ch_users c) x of
         None \<Rightarrow> None
       | Some None \<Rightarrow> Some st
       | Some (Some lp) \<Rightarrow> do {
           st \<leftarrow> leave_table nouser cp c lp (emit (ChannelLostNick cp (nk_numeric np)) st);
           if upd then do {
             a \<leftarrow> nk_channels np;
             case chan_slot cp 0 (items a) of
               Some i \<Rightarrow> Some (put_nick (np\<lparr>nk_channels := Some (array_delslot a i)\<rparr>) st)
             | None \<Rightarrow> do { c \<leftarrow> st_channels st cp; Some (emit ChannelError st) }
           }
           else Some st
         }))"
  using assms
  by (auto simp: delnickfromchannel_def masked_def [symmetric] getnick_masked leave_table_def Let_def
      split: option.split)

lemma own_items:
  assumes "getnickbynumeric st k = Some np" "nk_channels np = Some a"
  shows "own_channels st k = {cp. Some cp \<in> set (items a)}"
  using assms by (simp add: own_channels_def)

lemma delnick_inv:
  assumes inv: "chan_inv nouser st" and cp: "st_channels st cp \<noteq> None"
  obtains st' where "delnickfromchannel nouser cp x True st = Some st'" "chan_inv nouser st'"
    "\<And>k. on_channels nouser st' k = (if masked k = masked x then on_channels nouser st k - {cp}
                                      else on_channels nouser st k)"
proof -
  have base: "base_inv nouser st" using inv by (simp add: chan_inv_def)
  note sv = base_parts(1) [OF base]
  obtain c where c: "st_channels st cp = Some c" using cp by blast
  note ok = base_channel(2) [OF base c] and unf = delnick_unfold [OF sv c, of nouser x True]
  have same: "on_channels nouser st k = on_channels nouser st x" if "masked k = masked x" for k
    using that by (simp add: on_channels_def)
  show thesis
  proof (cases "getnickbynumeric st x")
    case None
    then have "on_channels nouser st x = {}" using inv by (simp add: chan_inv_def own_channels_def)
    then have "on_channels nouser st k = {}" if "masked k = masked x" for k
      using same [OF that] by simp
    then show thesis
      by (intro that [of "emit ChannelError st"]) (use unf None inv in simp_all)
  next
    case (Some np)
    have num: "nk_numeric np = masked x" by (rule getnick_numeric [OF Some])
    have nk: "nick_ok nouser np" using inv Some by (auto simp: chan_inv_def)
    then obtain a where a: "nk_channels np = Some a" "array_ok a" "distinct (items a)" "None \<notin> set (items a)"
      by (auto simp: nick_ok_def)
    have valid: "masked x \<noteq> masked nouser" using nk num by (simp add: nick_ok_def)
    obtain f where f: "getnumerichandlefromchanhash (ch_users c) x = Some f
        \<and> (f = None \<longleftrightarrow> user_map nouser (ch_users c) (masked x) = None)"
      using cu.look_law [OF ok valid] by (rule exE)
    have own: "own_channels st x = {cp. Some cp \<in> set (items a)}" by (rule own_items [OF Some a(1)])
    show thesis
    proof (cases f)
      case None
      then have "cp \<notin> on_channels nouser st x" using f c by (simp add: on_channels_def)
      then have "cp \<notin> on_channels nouser st k" if "masked k = masked x" for k
        using same [OF that] by simp
      then show thesis
        by (intro that [of st]) (use unf Some f None inv in simp_all)
    next
      case (Some lp)
      then have lp: "getnumerichandlefromchanhash (ch_users c) x = Some (Some lp)" using f by simp
      let ?st = "emit (ChannelLostNick cp (nk_numeric np)) st"
      have base1: "base_inv nouser ?st" and c1: "st_channels ?st cp = Some c" using base c by simp_all
      show thesis
      proof (rule leave_table_ok [OF base1 c1 valid lp])
        fix st1
        assume 1: "leave_table nouser cp c lp ?st = Some st1" "base_inv nouser st1"
          "servernicks st1 = servernicks ?st" "serverlist st1 = serverlist ?st" "st_hosts st1 = st_hosts ?st"
          "\<And>k. on_channels nouser st1 k = (if masked k = masked x then on_channels nouser ?st k - {cp}
                                            else on_channels nouser ?st k)"
        have g1: "getnickbynumeric st1 = getnickbynumeric st"
          using getnick_same [of st1 st] 1(3,4) by simp
        have "cp \<in> on_channels nouser st x" using c f Some by (auto simp: on_channels_def)
        then have "Some cp \<in> set (items a)" using inv own by (simp add: chan_inv_def)
        then obtain i where i: "chan_slot cp 0 (items a) = Some i"
          using chan_slot_None [of cp 0 "items a"] by blast
        then have i': "i < cursi a" "items a ! i = Some cp"
          using chan_slot_Some [OF i] a(2) by (auto simp: items_def array_ok_def)
        let ?np = "np\<lparr>nk_channels := Some (array_delslot a i)\<rparr>"
        let ?st' = "put_nick ?np st1"
        note del = delslot_distinct [OF a(2,3) i'(1)]
        have e: "delnickfromchannel nouser cp x True st = Some ?st'"
          using unf \<open>getnickbynumeric st x = Some np\<close> lp 1(1) a(1) i by simp
        have on: "on_channels nouser ?st' k = (if masked k = masked x then on_channels nouser st k - {cp}
                                        else on_channels nouser st k)" for k
          using 1(6) by simp
        note sv1 = base_parts(1) [OF 1(2)]
        have at1: "getnickbynumeric st1 x = Some np" using g1 \<open>getnickbynumeric st x = Some np\<close> by simp
        have own': "own_channels ?st' k = (if masked k = masked x then own_channels st x - {cp} else own_channels st k)" for k
          using put_nick_own [OF sv1 at1, of ?np "array_delslot a i" k] del(3) i'(2) own g1
          by (auto simp: own_channels_def)
        have "nick_ok nouser ?np" using nk del a(4) by (auto simp: nick_ok_def)
        then have nicks: "nick_ok nouser q" if "getnickbynumeric ?st' k = Some q" for k q
          using that getnick_put [OF sv1 at1, of ?np k] num g1 inv
          by (auto simp: chan_inv_def split: if_splits)
        have "on_channels nouser ?st' k = own_channels ?st' k" for k
          using on [of k] own' [of k] inv same [of k] by (auto simp: chan_inv_def)
        then have "chan_inv nouser ?st'" using 1(2) nicks by (simp add: chan_inv_def)
        then show thesis by (intro that [OF e _ on])
      qed
    qed
  qed
qed

section \<open>Creating channels\<close>

lemma index_base:
  assumes base: "base_inv nouser st" and ok: "chantab_ok ix"
    and old: "\<And>c ci. cips (st_index st) c = Some ci \<Longrightarrow> cips ix c = Some ci"
    and new: "\<And>c ci. cips ix c = Some ci \<Longrightarrow> cips (st_index st) c = Some ci \<or> cichannel ci = None"
  shows "base_inv nouser (st\<lparr>st_index := ix\<rparr>)"
proof -
  have "\<exists>ci. cips ix (ch_index c) = Some ci \<and> cichannel ci = Some cp" if "st_channels st cp = Some c" for cp c
    using base_channel(3) [OF base that] old by blast
  moreover have "\<exists>c. st_channels st cp = Some c \<and> ch_index c = cip"
    if d: "cips ix cip = Some ci" "cichannel ci = Some cp" for cip ci cp
    using new [OF d(1)] d(2) base_index [OF base _ d(2)] by auto
  moreover have "servers_ok (st\<lparr>st_index := ix\<rparr>)" using base_parts(1) [OF base] by (simp add: servers_ok_def)
  ultimately show ?thesis using ok base_channel(1,2) [OF base] unfolding base_inv_def by simp
qed

lemma newchannel_base:
  assumes base: "base_inv nouser st" and ci: "cips (st_index st) cip = Some ci" "cichannel ci = None"
    and name: "lower (ciname ci') = lower (ciname ci)" "cstring (ciname ci')"
      "ciexts ci' = ciexts ci" "cichannel ci' = Some (st_nextchan st)"
    and c: "ch_index c = cip" "cuh_ok nouser (ch_users c)"
  shows "base_inv nouser (st\<lparr>st_index := (st_index st)\<lparr>cips := (cips (st_index st))(cip \<mapsto> ci')\<rparr>,
           st_channels := (st_channels st)(st_nextchan st \<mapsto> c), st_nextchan := st_nextchan st + 1\<rparr>)"
    (is "base_inv nouser ?st")
proof -
  note parts = base_parts [OF base]
  have ok: "chantab_ok (st_index ?st)"
    using update_ok(1) [OF parts(2) ci(1) name(1,2)] live_chain(5) [OF parts(2) ci(1)] name(3) by simp
  have ne: "cp \<noteq> st_nextchan st" if "st_channels st cp = Some c'" for cp c'
    using base_channel(1) [OF base that] by simp
  have idx: "ch_index c' \<noteq> cip" if "st_channels st cp = Some c'" for cp c'
    using base_channel(3) [OF base that] ci by auto
  have "cp < st_nextchan ?st \<and> cuh_ok nouser (ch_users c')
      \<and> (\<exists>q. cips (st_index ?st) (ch_index c') = Some q \<and> cichannel q = Some cp)"
    if d: "st_channels ?st cp = Some c'" for cp c'
  proof (cases "cp = st_nextchan st")
    case True
    then show ?thesis using d c name(4) by simp
  next
    case False
    then have "st_channels st cp = Some c'" using d by simp
    from base_channel [OF base this] idx [OF this] show ?thesis by simp
  qed
  moreover have "\<exists>c'. st_channels ?st cp = Some c' \<and> ch_index c' = k"
    if d: "cips (st_index ?st) k = Some q" "cichannel q = Some cp" for k q cp
  proof (cases "k = cip")
    case True
    then show ?thesis using d name(4) c(1) by auto
  next
    case False
    then have "cips (st_index st) k = Some q" using d(1) by simp
    from base_index [OF base this d(2)] ne show ?thesis by auto
  qed
  moreover have "servers_ok ?st" using parts(1) by (simp add: servers_ok_def)
  ultimately show ?thesis using ok unfolding base_inv_def by blast
qed

lemma createchannel_inv:
  assumes inv: "chan_inv nouser st" and name: "cstring name" "length name \<le> CHANNELLEN"
  obtains cp st' where "createchannel nouser name st = Some (cp, st')" "chan_inv nouser st'"
    "st_channels st' cp \<noteq> None" "on_channels nouser st' = on_channels nouser st"
proof -
  have base: "base_inv nouser st" using inv by (simp add: chan_inv_def)
  note parts = base_parts [OF base]
  obtain cip ix where ix: "findorcreatechanindex name (st_index st) = Some (cip, ix)" "chantab_ok ix"
      "name_at ix cip = Some (lower name)"
      and cases: "ix = st_index st \<or> cips ix = (cips (st_index st))(cip \<mapsto> \<lparr>ciname = name,
        cichannel = None, cimarker = 0, ciexts = replicate MAXCHANNELEXTS None\<rparr>) \<and> cips (st_index st) cip = None"
    by (rule findorcreate_ok [OF parts(2) name]) blast
  let ?st = "st\<lparr>st_index := ix\<rparr>"
  have base1: "base_inv nouser ?st"
    by (rule index_base [OF base ix(2)]) (use cases in \<open>auto split: if_splits\<close>)
  obtain ci where ci: "cips ix cip = Some ci" "lower (ciname ci) = lower name"
    using ix(3) by (auto simp: name_at_Some)
  have inv': "chan_inv nouser s" if "base_inv nouser s" "serverlist s = serverlist st"
      "servernicks s = servernicks st" "on_channels nouser s = on_channels nouser st" for s
  proof -
    have "getnickbynumeric s = getnickbynumeric st" by (rule getnick_same) (use that in simp_all)
    then show ?thesis using inv that by (simp add: chan_inv_def own_channels_def)
  qed
  show thesis
  proof (cases "cichannel ci")
    case (Some cp)
    then have "createchannel nouser name st = Some (cp, emit ChannelError ?st)"
      using ix(1) ci(1) by (simp add: createchannel_def)
    moreover have "st_channels ?st cp \<noteq> None" using base_index [OF base1 _ Some] ci(1) by auto
    moreover have on: "on_channels nouser ?st = on_channels nouser st" by (simp add: on_channels_def fun_eq_iff)
    moreover have "chan_inv nouser ?st" by (rule inv' [OF base1 _ _ on]) simp_all
    ultimately show thesis using that [of cp "emit ChannelError ?st"] by simp
  next
    case None
    let ?ci = "(if ciname ci \<noteq> name then ci\<lparr>ciname := sstr name CHANNELLEN\<rparr> else ci)"
    let ?cp = "st_nextchan st"
    let ?c = "\<lparr>ch_index = cip, ch_timestamp = MAGIC_REMOTE_JOIN_TS, ch_topic = None,
                   ch_topictime = 0, ch_flags = 0, ch_key = None, ch_limit = 0, ch_bans = [],
                   ch_users = newchanuserhash nouser 1\<rparr>"
    let ?st' = "st\<lparr>st_index := ix\<lparr>cips := (cips ix)(cip \<mapsto> ?ci\<lparr>cichannel := Some ?cp\<rparr>)\<rparr>,
                   st_channels := (st_channels st)(?cp \<mapsto> ?c), st_nextchan := ?cp + 1\<rparr>"
    have e: "createchannel nouser name st = Some (?cp, ?st')"
      using ix(1) ci(1) None by (simp add: createchannel_def Let_def)
    have s: "sstr name CHANNELLEN = name" using name(2) by (simp add: sstr_take SSTRING_MAX_def)
    have n: "ciname ?ci = name" "ciexts ?ci = ciexts ci" using s by auto
    have new: "cuh_ok nouser (newchanuserhash nouser 1)" "user_map nouser (newchanuserhash nouser 1) = Map.empty"
      by (simp_all add: new_ok)
    have base': "base_inv nouser ?st'"
      using newchannel_base [OF base1, of cip ci "?ci\<lparr>cichannel := Some ?cp\<rparr>" ?c] ci None n name new by simp
    have "st_channels st ?cp = None"
      using base_channel(1) [OF base, of ?cp] by (cases "st_channels st ?cp") auto
    then have on: "on_channels nouser ?st' = on_channels nouser st"
      using new(2) by (auto simp: on_channels_def fun_eq_iff)
    have "chan_inv nouser ?st'" by (rule inv' [OF base' _ _ on]) simp_all
    then show thesis using that [OF e _ _ on] by simp
  qed
qed

section \<open>Users that appear and go\<close>

lemma nick_added_inv:
  assumes inv: "chan_inv nouser st" and np: "nk_numeric np = masked x" "masked x \<noteq> masked nouser"
    and free: "servernicks st (homeserver x) (nick_slot st x) = None"
    and link: "sv_linkstate (serverlist st (homeserver x)) \<noteq> LS_INVALID"
  shows "chan_inv nouser (nick_added np st)" "on_channels nouser (nick_added np st) = on_channels nouser st"
proof -
  let ?a = "array_init\<lparr>allocchunksize := 10, freechunksize := 15\<rparr> :: nat carray"
  let ?np = "np\<lparr>nk_channels := Some ?a\<rparr>"
  have base: "base_inv nouser st" using inv by (simp add: chan_inv_def)
  note sv = base_parts(1) [OF base]
  have st': "nick_added np st = put_nick ?np st" by (simp add: nick_added_def)
  have num: "nk_numeric ?np = masked x" using np by simp
  note g = getnick_new [OF sv num free link]
  have items: "items ?a = []" by (simp add: items_def array_init_def)
  have "nick_ok nouser ?np" using np by (simp add: nick_ok_def array_ok_def array_init_def items_def)
  then have nicks: "nick_ok nouser q" if "getnickbynumeric (put_nick ?np st) k = Some q" for k q
    using that inv unfolding g by (auto simp: chan_inv_def split: if_splits)
  have "getnickbynumeric st x = None" using free by (simp add: getnick_alt)
  then have none: "getnickbynumeric st k = None" if "masked k = masked x" for k
    using that getnick_masked [OF sv] by metis
  have "own_channels (put_nick ?np st) k = own_channels st k" for k
    using none [of k] items by (auto simp: own_channels_def g)
  then show "chan_inv nouser (nick_added np st)" using inv nicks by (simp add: chan_inv_def st')
  show "on_channels nouser (nick_added np st) = on_channels nouser st" by (simp add: st')
qed

lemma leave_one:
  assumes base: "base_inv nouser st" and np: "getnickbynumeric st x = Some np"
    and valid: "masked x \<noteq> masked nouser" and on: "cp \<in> on_channels nouser st x"
  shows "\<exists>st'. delnickfromchannel nouser cp x False st = Some st' \<and> base_inv nouser st'
    \<and> servernicks st' = servernicks st \<and> serverlist st' = serverlist st
    \<and> (\<forall>k. on_channels nouser st' k = (if masked k = masked x
          then on_channels nouser st k - {cp} else on_channels nouser st k))"
proof -
  note sv = base_parts(1) [OF base]
  obtain c where c: "st_channels st cp = Some c" "user_map nouser (ch_users c) (masked x) \<noteq> None"
    using on by (auto simp: on_channels_def)
  note ok = base_channel(2) [OF base c(1)]
  from cu.look_law [OF ok valid] obtain f where
    "getnumerichandlefromchanhash (ch_users c) x = Some f
      \<and> (f = None \<longleftrightarrow> user_map nouser (ch_users c) (masked x) = None)" by (rule exE)
  then obtain lp where lp: "getnumerichandlefromchanhash (ch_users c) x = Some (Some lp)"
    using c(2) by auto
  let ?st = "emit (ChannelLostNick cp (nk_numeric np)) st"
  have base1: "base_inv nouser ?st" and c1: "st_channels ?st cp = Some c" using base c by simp_all
  show ?thesis
  proof (rule leave_table_ok [OF base1 c1 valid lp])
    fix st1
    assume 1: "leave_table nouser cp c lp ?st = Some st1" "base_inv nouser st1"
      "servernicks st1 = servernicks ?st" "serverlist st1 = serverlist ?st" "st_hosts st1 = st_hosts ?st"
      "\<And>k. on_channels nouser st1 k = (if masked k = masked x then on_channels nouser ?st k - {cp}
                                        else on_channels nouser ?st k)"
    have "delnickfromchannel nouser cp x False st = Some st1"
      using delnick_unfold [OF sv c(1), of nouser x False] np lp 1(1) by simp
    then show ?thesis using 1 by auto
  qed
qed

lemma leave_all_ok:
  assumes "base_inv nouser st" "getnickbynumeric st x = Some np" "masked x \<noteq> masked nouser"
    "distinct xs" "None \<notin> set xs" "\<forall>cp. Some cp \<in> set xs \<longrightarrow> cp \<in> on_channels nouser st x"
  shows "\<exists>st'. leave_all nouser x xs st = Some st' \<and> base_inv nouser st'
    \<and> servernicks st' = servernicks st \<and> serverlist st' = serverlist st
    \<and> (\<forall>k. on_channels nouser st' k = (if masked k = masked x
          then on_channels nouser st k - {cp. Some cp \<in> set xs} else on_channels nouser st k))"
  using assms
proof (induction xs arbitrary: st)
  case (Cons y xs)
  then obtain cp where y: "y = Some cp" by (cases y) auto
  have "cp \<in> on_channels nouser st x" using Cons.prems(6) y by auto
  then obtain st1 where 1: "delnickfromchannel nouser cp x False st = Some st1" "base_inv nouser st1"
      "servernicks st1 = servernicks st" "serverlist st1 = serverlist st"
      "\<forall>k. on_channels nouser st1 k = (if masked k = masked x
          then on_channels nouser st k - {cp} else on_channels nouser st k)"
    using leave_one [OF Cons.prems(1-3)] by blast
  have g: "getnickbynumeric st1 x = Some np" using getnick_same [of st1 st] 1(3,4) Cons.prems(2) by simp
  have "\<forall>q. Some q \<in> set xs \<longrightarrow> q \<in> on_channels nouser st1 x"
    using Cons.prems(4,6) y 1(5) by auto
  then obtain st' where "leave_all nouser x xs st1 = Some st'" "base_inv nouser st'"
      "servernicks st' = servernicks st1" "serverlist st' = serverlist st1"
      "\<forall>k. on_channels nouser st' k = (if masked k = masked x
          then on_channels nouser st1 k - {cp. Some cp \<in> set xs} else on_channels nouser st1 k)"
    using Cons.IH [OF 1(2) g Cons.prems(3)] Cons.prems(4,5) by auto
  then show ?case using y 1 by auto
qed simp

text \<open>The loss of a user, up to the slot that \<open>deletenick\<close> clears at the end.\<close>

definition nick_gone :: "nat \<Rightarrow> cnick \<Rightarrow> chanst \<Rightarrow> chanst option" where
  "nick_gone nouser np st = do {
     st \<leftarrow> nick_lost nouser np st;
     Some (clear_nick (nk_numeric np) st)
   }"

lemma nick_gone_inv:
  assumes inv: "chan_inv nouser st" and np: "getnickbynumeric st x = Some np"
  obtains st' where "nick_gone nouser np st = Some st'" "chan_inv nouser st'"
    "\<And>k. on_channels nouser st' k = (if masked k = masked x then {} else on_channels nouser st k)"
proof -
  have base: "base_inv nouser st" using inv by (simp add: chan_inv_def)
  note sv = base_parts(1) [OF base]
  have num: "nk_numeric np = masked x" by (rule getnick_numeric [OF np])
  have nk: "nick_ok nouser np" using inv np by (auto simp: chan_inv_def)
  then obtain a where a: "nk_channels np = Some a" "array_ok a" "distinct (items a)" "None \<notin> set (items a)"
    by (auto simp: nick_ok_def)
  have valid: "masked (masked x) \<noteq> masked nouser" using nk num by (simp add: nick_ok_def)
  have own: "own_channels st k = {cp. Some cp \<in> set (items a)}" if "masked k = masked x" for k
  proof -
    have "getnickbynumeric st k = Some np" using that np getnick_masked [OF sv] by metis
    then show ?thesis by (rule own_items [OF _ a(1)])
  qed
  have npm: "getnickbynumeric st (masked x) = Some np" using np by (simp add: getnick_masked [OF sv])
  have "\<forall>cp. Some cp \<in> set (items a) \<longrightarrow> cp \<in> on_channels nouser st (masked x)"
    using own [of "masked x"] inv by (simp add: chan_inv_def)
  then obtain st1 where 1: "leave_all nouser (masked x) (items a) st = Some st1" "base_inv nouser st1"
      "servernicks st1 = servernicks st" "serverlist st1 = serverlist st"
      "\<forall>k. on_channels nouser st1 k = (if masked k = masked (masked x)
          then on_channels nouser st k - {cp. Some cp \<in> set (items a)} else on_channels nouser st k)"
    using leave_all_ok [OF base npm valid a(3,4)] by blast
  let ?np = "np\<lparr>nk_channels := None\<rparr>"
  let ?st2 = "put_nick ?np st1"
  let ?st3 = "clear_nick (masked x) ?st2"
  have e: "nick_gone nouser np st = Some ?st3"
    using 1(1) a(1) num by (simp add: nick_gone_def nick_lost_def)
  note sv1 = base_parts(1) [OF 1(2)]
  have g1: "getnickbynumeric st1 = getnickbynumeric st" by (rule getnick_same) (use 1 in simp_all)
  have at1: "getnickbynumeric st1 x = Some np" using g1 np by simp
  have g2: "getnickbynumeric ?st2 y = (if masked y = masked x then Some ?np else getnickbynumeric st y)" for y
    using getnick_put [OF sv1 at1, of ?np y] num g1 by simp
  have sv2: "servers_ok ?st2" using sv1 by (simp add: servers_ok_def)
  have g3: "getnickbynumeric ?st3 y = (if masked y = masked x then None else getnickbynumeric st y)" for y
    using getnick_clear [OF sv2, of "masked x" ?np y] g2 by simp
  have clear: "base_inv nouser ?st3 = base_inv nouser ?st2" "on_channels nouser ?st3 = on_channels nouser ?st2"
    by (simp_all add: clear_nick_def Let_def base_inv_def servers_ok_def on_channels_def fun_eq_iff)
  have on: "on_channels nouser ?st3 k = (if masked k = masked x then {} else on_channels nouser st k)" for k
    using 1(5) own [of k] inv by (auto simp: clear chan_inv_def)
  have "own_channels ?st3 k = (if masked k = masked x then {} else own_channels st k)" for k
    by (simp add: own_channels_def g3)
  then have "on_channels nouser ?st3 k = own_channels ?st3 k" for k using on inv by (simp add: chan_inv_def)
  moreover have "nick_ok nouser q" if "getnickbynumeric ?st3 k = Some q" for k q
    using that inv unfolding g3 by (auto simp: chan_inv_def split: if_splits)
  ultimately have "chan_inv nouser ?st3" using 1(2) clear(1) by (simp add: chan_inv_def)
  then show thesis by (rule that [OF e _ on])
qed

end
