(* ===== verification/ChanHandlers.thy ===== *)
theory ChanHandlers
  imports Channels Numerics
begin

text \<open>
  The handlers of the messages about channels, \<open>channel/channelhandlers.c\<close>. The parameters
  of a message are a list of strings, the index of the current one a number; \<open>None\<close> is a read
  out of bounds or of freed memory, or a table that never fits. Log lines below \<open>ERR_ERROR\<close>
  are left out; every handler answers \<open>CMD_OK\<close>.
\<close>

unbundle bit_operations_syntax

section \<open>Modes\<close>

definition CUMODE_OP :: nat where "CUMODE_OP = 0x80000000"
definition CUMODE_VOICE :: nat where "CUMODE_VOICE = 0x40000000"

definition CHANMODE_NOEXTMSG :: "32 word" where "CHANMODE_NOEXTMSG = 0x0001"
definition CHANMODE_TOPICLIMIT :: "32 word" where "CHANMODE_TOPICLIMIT = 0x0002"
definition CHANMODE_SECRET :: "32 word" where "CHANMODE_SECRET = 0x0004"
definition CHANMODE_PRIVATE :: "32 word" where "CHANMODE_PRIVATE = 0x0008"
definition CHANMODE_INVITEONLY :: "32 word" where "CHANMODE_INVITEONLY = 0x0010"
definition CHANMODE_LIMIT :: "32 word" where "CHANMODE_LIMIT = 0x0020"
definition CHANMODE_KEY :: "32 word" where "CHANMODE_KEY = 0x0040"
definition CHANMODE_MODERATE :: "32 word" where "CHANMODE_MODERATE = 0x0080"
definition CHANMODE_NOCOLOUR :: "32 word" where "CHANMODE_NOCOLOUR = 0x0100"
definition CHANMODE_NOCTCP :: "32 word" where "CHANMODE_NOCTCP = 0x0200"
definition CHANMODE_REGONLY :: "32 word" where "CHANMODE_REGONLY = 0x0400"
definition CHANMODE_DELJOINS :: "32 word" where "CHANMODE_DELJOINS = 0x0800"
definition CHANMODE_NOQUITMSG :: "32 word" where "CHANMODE_NOQUITMSG = 0x1000"
definition CHANMODE_NONOTICE :: "32 word" where "CHANMODE_NONOTICE = 0x2000"
definition CHANMODE_MODNOAUTH :: "32 word" where "CHANMODE_MODNOAUTH = 0x4000"
definition CHANMODE_SINGLETARG :: "32 word" where "CHANMODE_SINGLETARG = 0x8000"
definition CHANMODE_ALL :: "32 word" where "CHANMODE_ALL = 0xFFFF"

definition MODECHANGE_MODES :: "32 word" where "MODECHANGE_MODES = 1"
definition MODECHANGE_USERS :: "32 word" where "MODECHANGE_USERS = 2"
definition MODECHANGE_BANS :: "32 word" where "MODECHANGE_BANS = 4"

definition KEYLEN :: nat where "KEYLEN = 23"
definition TOPICLEN :: nat where "TOPICLEN = 250"

definition cmodeflags :: "flag list" where
  "cmodeflags =
    [\<lparr>flagchar = CHR ''n'', flagbit = CHANMODE_NOEXTMSG\<rparr>,
     \<lparr>flagchar = CHR ''t'', flagbit = CHANMODE_TOPICLIMIT\<rparr>,
     \<lparr>flagchar = CHR ''s'', flagbit = CHANMODE_SECRET\<rparr>,
     \<lparr>flagchar = CHR ''p'', flagbit = CHANMODE_PRIVATE\<rparr>,
     \<lparr>flagchar = CHR ''i'', flagbit = CHANMODE_INVITEONLY\<rparr>,
     \<lparr>flagchar = CHR ''l'', flagbit = CHANMODE_LIMIT\<rparr>,
     \<lparr>flagchar = CHR ''k'', flagbit = CHANMODE_KEY\<rparr>,
     \<lparr>flagchar = CHR ''m'', flagbit = CHANMODE_MODERATE\<rparr>,
     \<lparr>flagchar = CHR ''c'', flagbit = CHANMODE_NOCOLOUR\<rparr>,
     \<lparr>flagchar = CHR ''C'', flagbit = CHANMODE_NOCTCP\<rparr>,
     \<lparr>flagchar = CHR ''r'', flagbit = CHANMODE_REGONLY\<rparr>,
     \<lparr>flagchar = CHR ''D'', flagbit = CHANMODE_DELJOINS\<rparr>,
     \<lparr>flagchar = CHR ''u'', flagbit = CHANMODE_NOQUITMSG\<rparr>,
     \<lparr>flagchar = CHR ''N'', flagbit = CHANMODE_NONOTICE\<rparr>,
     \<lparr>flagchar = CHR ''M'', flagbit = CHANMODE_MODNOAUTH\<rparr>,
     \<lparr>flagchar = CHR ''T'', flagbit = CHANMODE_SINGLETARG\<rparr>,
     \<lparr>flagchar = NUL, flagbit = 0\<rparr>]"

definition IsLimit :: "32 word \<Rightarrow> bool" where "IsLimit f \<longleftrightarrow> f AND CHANMODE_LIMIT \<noteq> 0"
definition IsKey :: "32 word \<Rightarrow> bool" where "IsKey f \<longleftrightarrow> f AND CHANMODE_KEY \<noteq> 0"

text \<open>The world the handlers run in: the marker of a free slot, the time and our own server.\<close>

record env =
  env_nouser :: nat
  env_time :: int
  env_numeric :: nat

definition getnickbynumericstr :: "chanst \<Rightarrow> string \<Rightarrow> cnick option option" where
  "getnickbynumericstr st s = do {
     n \<leftarrow> numerictolong s 5;
     Some (getnickbynumeric st (nat n))
   }"

text \<open>The sender of a mode change: none for a server, whose numeric has two characters.\<close>

definition mode_source :: "chanst \<Rightarrow> string \<Rightarrow> cnick option option" where
  "mode_source st source =
     (if length source < 2 then None
      else if deref (drop 2 source) = NUL then Some None
      else getnickbynumericstr st source)"

definition set_chan :: "nat \<Rightarrow> channel \<Rightarrow> chanst \<Rightarrow> chanst" where
  "set_chan cp c st = st\<lparr>st_channels := (st_channels st)(cp \<mapsto> c)\<rparr>"

text \<open>The names of a list with commas, as the loops of join, create and part cut them.\<close>

function comma_names :: "string \<Rightarrow> string list" where
  "comma_names s =
     (if s = [] then []
      else let name = takeWhile (\<lambda>c. c \<noteq> CHR '','') s
           in name # comma_names (drop (length name + 1) s))"
  by pat_completeness auto
termination by (relation "measure length") (auto simp: Let_def)

declare comma_names.simps [simp del]

section \<open>Burst\<close>

text \<open>An older timestamp takes everything off the channel.\<close>

definition strip_users :: "nat \<Rightarrow> nat \<Rightarrow> chanuserhash \<Rightarrow> chanuserhash" where
  "strip_users nouser msk cuh =
     cuh\<lparr>ucontent := map (\<lambda>x. if x \<noteq> nouser then x AND msk else x) (take (hashsize cuh) (ucontent cuh))
                       @ drop (hashsize cuh) (ucontent cuh)\<rparr>"

definition burst_reset :: "nat \<Rightarrow> int \<Rightarrow> channel \<Rightarrow> channel" where
  "burst_reset nouser ts c =
     c\<lparr>ch_timestamp := ts, ch_topic := None, ch_topictime := 0, ch_key := None, ch_limit := 0,
       ch_flags := 0, ch_bans := clearallbans (ch_bans c),
       ch_users := strip_users nouser CU_NUMERICMASK (ch_users c)\<rparr>"

text \<open>
  A mode string with the parameters that follow it. The result is whether the loop over the
  parameters stops, the index of the last parameter used, and the channel.
\<close>

definition burst_limit :: "bool \<Rightarrow> int \<Rightarrow> channel \<Rightarrow> channel" where
  "burst_limit waslimit newlimit c =
     (if ch_limit c > 0 \<and> waslimit then
        if newlimit < ch_limit c then c\<lparr>ch_limit := newlimit\<rparr> else c
      else c\<lparr>ch_limit := newlimit\<rparr>)"

definition burst_key :: "bool \<Rightarrow> string \<Rightarrow> channel \<Rightarrow> channel option" where
  "burst_key waskeyed newkey c =
     (if waskeyed then do {
        key \<leftarrow> ch_key c;
        Some (if ircd_strcmp newkey key < 0 then c\<lparr>ch_key := Some (sstr newkey KEYLEN)\<rparr> else c)
      }
      else Some (c\<lparr>ch_key := Some (sstr newkey KEYLEN)\<rparr>))"

definition burst_modes :: "string list \<Rightarrow> nat \<Rightarrow> channel \<Rightarrow> (bool \<times> nat \<times> channel) option" where
  "burst_modes cargv arg c =
     (let waslimit = IsLimit (ch_flags c); waskeyed = IsKey (ch_flags c);
          flags = ch_flags c AND NOT CHANMODE_LIMIT AND NOT CHANMODE_KEY;
          c = c\<lparr>ch_flags := snd (setflags flags CHANMODE_ALL (cargv ! arg) cmodeflags False False)\<rparr>;
          (stop, arg, c) =
            (if IsLimit (ch_flags c) then
               if arg + 1 \<ge> length cargv then (True, arg + 1, c)
               else (False, arg + 1, burst_limit waslimit (c_int (fst (strtol10 (cargv ! (arg + 1))))) c)
             else if waslimit then (False, arg, c\<lparr>ch_flags := ch_flags c OR CHANMODE_LIMIT\<rparr>)
             else (False, arg, c))
      in if stop then Some (True, arg, c)
         else if IsKey (ch_flags c) then
           if arg + 1 \<ge> length cargv then Some (True, arg + 1, c)
           else do { c \<leftarrow> burst_key waskeyed (cargv ! (arg + 1)) c; Some (False, arg + 1, c) }
         else if waskeyed then Some (False, arg, c\<lparr>ch_flags := ch_flags c OR CHANMODE_KEY\<rparr>)
         else Some (False, arg, c))"

text \<open>The bans of a parameter, between spaces.\<close>

function burst_bans :: "int \<Rightarrow> string \<Rightarrow> chanban list \<Rightarrow> chanban list option" where
  "burst_bans now s bans =
     (if s = [] then Some bans
      else let ban = takeWhile (\<lambda>c. c \<noteq> CHR '' '') s
           in do {
             (r, bans) \<leftarrow> setban now bans ban;
             burst_bans now (drop (length ban + 1) s) bans
           })"
  by pat_completeness auto
termination by (relation "measure (\<lambda>(_, s, _). length s)") (auto simp: Let_def)

declare burst_bans.simps [simp del]

text \<open>The modes after a colon, and what follows them.\<close>

fun burst_usermodes :: "nat \<Rightarrow> string \<Rightarrow> nat \<times> string" where
  "burst_usermodes mode [] = (mode, [])"
| "burst_usermodes mode (c # s) =
     (if c = CHR ''v'' then burst_usermodes (mode OR CUMODE_VOICE) s
      else if c = CHR ''o'' then burst_usermodes (mode OR CUMODE_OP) s
      else if c = CHR '','' then (mode, s)
      else burst_usermodes mode s)"

lemma burst_usermodes_length: "length (snd (burst_usermodes mode s)) \<le> length s"
  by (induction mode s rule: burst_usermodes.induct) auto

text \<open>What follows a numeric: the mode it joins with and the start of the next one.\<close>

definition burst_after :: "bool \<Rightarrow> nat \<Rightarrow> string \<Rightarrow> nat \<times> string" where
  "burst_after wipeout mode s =
     (if deref s = CHR '','' then (mode, tl s)
      else if deref s = CHR '':'' then
        (let (mode, rest) = burst_usermodes 0 (tl s) in (if wipeout then 0 else mode, rest))
      else (mode, s))"

lemma burst_after_length: "length (snd (burst_after wipeout mode s)) \<le> length s"
  using burst_usermodes_length [of 0 "tl s"]
  by (cases s) (auto simp: burst_after_def split: prod.split)

function burst_users :: "nat \<Rightarrow> bool \<Rightarrow> nat \<Rightarrow> string \<Rightarrow> nat \<Rightarrow> chanst \<Rightarrow> chanst option" where
  "burst_users nouser wipeout cp s mode st =
     (if length s < 5 then Some st
      else case burst_after wipeout mode (drop 5 s) of
        (mode, rest) \<Rightarrow> do {
          n \<leftarrow> numerictolong s 5;
          (r, st) \<leftarrow> addnicktochannel nouser cp (nat n OR mode) st;
          burst_users nouser wipeout cp rest mode st
        })"
  by pat_completeness auto
termination
proof (relation "measure (\<lambda>(_, _, _, s, _, _). length s)", goal_cases)
  case (2 nouser wipeout cp s mode st mode' rest)
  then have "rest = snd (burst_after wipeout mode (drop 5 s))" by (metis snd_conv)
  then show ?case using 2(1) burst_after_length [of wipeout mode "drop 5 s"] by simp
qed simp

declare burst_users.simps [simp del]

text \<open>The loop over the parameters.\<close>

function burst_args :: "env \<Rightarrow> string list \<Rightarrow> bool \<Rightarrow> nat \<Rightarrow> nat \<Rightarrow> chanst \<Rightarrow> chanst option" where
  "burst_args env cargv wipeout arg cp st =
     (if arg \<ge> length cargv then Some st
      else let a = cargv ! arg
           in if deref a = CHR ''+'' then
                if wipeout then
                  burst_args env cargv wipeout
                    (arg + length (filter (\<lambda>c. c = CHR ''k'' \<or> c = CHR ''l'') a) + 1) cp st
                else do {
                  c \<leftarrow> st_channels st cp;
                  (stop, used, c) \<leftarrow> burst_modes cargv arg c;
                  if stop then Some (set_chan cp c st)
                  else burst_args env cargv wipeout (max arg used + 1) cp (set_chan cp c st)
                }
              else if deref a = CHR ''%'' then do {
                c \<leftarrow> st_channels st cp;
                bans \<leftarrow> burst_bans (env_time env) (tl a) (ch_bans c);
                burst_args env cargv wipeout (arg + 1) cp (set_chan cp (c\<lparr>ch_bans := bans\<rparr>) st)
              }
              else do {
                st \<leftarrow> burst_users (env_nouser env) wipeout cp a 0 st;
                burst_args env cargv wipeout (arg + 1) cp st
              })"
  by pat_completeness auto
termination by (relation "measure (\<lambda>(_, cargv, _, arg, _, _). length cargv - arg)") auto

declare burst_args.simps [simp del]

text \<open>The channel of a burst, with whether it is new and whether the modes are ignored.\<close>

definition burst_open :: "env \<Rightarrow> string \<Rightarrow> int \<Rightarrow> chanst \<Rightarrow> (nat \<times> bool \<times> bool \<times> chanst) option" where
  "burst_open env name timestamp st = do {
     found \<leftarrow> findchannel name st;
     case found of
       None \<Rightarrow> do {
         (cp, st) \<leftarrow> createchannel (env_nouser env) name st;
         c \<leftarrow> st_channels st cp;
         Some (cp, True, False, set_chan cp (c\<lparr>ch_timestamp := timestamp\<rparr>) st)
       }
     | Some cp \<Rightarrow> do {
         c \<leftarrow> st_channels st cp;
         if timestamp < ch_timestamp c
         then Some (cp, False, False, set_chan cp (burst_reset (env_nouser env) timestamp c) st)
         else Some (cp, False, timestamp > ch_timestamp c, st)
       }
   }"

definition burst_close :: "nat \<Rightarrow> bool \<Rightarrow> chanst \<Rightarrow> chanst option" where
  "burst_close cp isnewchan st = do {
     c \<leftarrow> st_channels st cp;
     if totalusers (ch_users c) = 0
     then delchannel cp (if isnewchan then st else emit (ChannelLostChannel cp) st)
     else Some (emit (ChannelBurst cp) (if isnewchan then emit (ChannelNewChannel cp) st else st))
   }"

definition handleburstmsg :: "env \<Rightarrow> string list \<Rightarrow> chanst \<Rightarrow> chanst option" where
  "handleburstmsg env cargv st =
     (if length cargv < 2 then Some st
      else do {
        (cp, isnewchan, wipeout, st) \<leftarrow> burst_open env (cargv ! 0) (fst (strtol10 (cargv ! 1))) st;
        st \<leftarrow> burst_args env cargv wipeout 2 cp st;
        burst_close cp isnewchan st
      })"

section \<open>Join, create and part\<close>

text \<open>\<open>JOIN 0\<close>: the hook and the removal for each channel, then a new array.\<close>

fun part_all :: "nat \<Rightarrow> nat \<Rightarrow> nat option list \<Rightarrow> chanst \<Rightarrow> chanst option" where
  "part_all nouser numeric [] st = Some st"
| "part_all nouser numeric (x # xs) st = do {
     cp \<leftarrow> x;
     st \<leftarrow> delnickfromchannel nouser cp numeric False (emit (ChannelPart cp numeric) st);
     part_all nouser numeric xs st
   }"

definition leave_channels :: "nat \<Rightarrow> nat \<Rightarrow> chanst \<Rightarrow> chanst option" where
  "leave_channels nouser numeric st = do {
     np \<leftarrow> getnickbynumeric st numeric;
     a \<leftarrow> nk_channels np;
     st \<leftarrow> part_all nouser numeric (items a) st;
     Some (put_nick (np\<lparr>nk_channels := Some array_init\<rparr>) st)
   }"

text \<open>The channel of a name, made when there is none; with whether it was made.\<close>

definition obtain_channel :: "nat \<Rightarrow> string \<Rightarrow> chanst \<Rightarrow> (nat \<times> bool \<times> chanst) option" where
  "obtain_channel nouser name st = do {
     found \<leftarrow> findchannel name st;
     case found of
       Some cp \<Rightarrow> Some (cp, False, st)
     | None \<Rightarrow> do { (cp, st) \<leftarrow> createchannel nouser name st; Some (cp, True, st) }
   }"

text \<open>After \<open>addnicktochannel\<close>: a channel that was made for nothing goes again.\<close>

definition after_add :: "chan_event \<Rightarrow> nat \<Rightarrow> bool \<Rightarrow> int \<times> chanst \<Rightarrow> chanst option" where
  "after_add event cp newchan rst =
     (case rst of (r, st) \<Rightarrow>
        if r \<noteq> 0 then (if newchan then delchannel cp st else Some st)
        else do {
          c \<leftarrow> st_channels st cp;
          let st = (if newchan then emit (ChannelNewChannel cp) st else st) in do {
          ci \<leftarrow> cips (st_index st) (ch_index c);
          Some (if cichannel ci = Some cp then emit event st else st)
        }})"

definition join_one :: "nat \<Rightarrow> int \<Rightarrow> nat \<Rightarrow> string \<Rightarrow> chanst \<Rightarrow> chanst option" where
  "join_one nouser timestamp numeric name st =
     (if name = ''0'' then leave_channels nouser numeric st
      else do {
        (cp, newchan, st) \<leftarrow> obtain_channel nouser name st;
        c \<leftarrow> st_channels st cp;
        let st = (if ch_timestamp c = MAGIC_REMOTE_JOIN_TS \<and> timestamp \<noteq> 0
                  then set_chan cp (c\<lparr>ch_timestamp := timestamp\<rparr>) st else st) in do {
        r \<leftarrow> addnicktochannel nouser cp numeric st;
        after_add (ChannelJoin cp numeric) cp newchan r
      }})"

definition create_one :: "nat \<Rightarrow> int \<Rightarrow> nat \<Rightarrow> string \<Rightarrow> chanst \<Rightarrow> chanst option" where
  "create_one nouser timestamp numeric name st = do {
     (cp, newchan, st) \<leftarrow> obtain_channel nouser name st;
     c \<leftarrow> st_channels st cp;
     let st = (if newchan \<or> (ch_timestamp c = MAGIC_REMOTE_JOIN_TS \<and> timestamp \<noteq> 0)
               then set_chan cp (c\<lparr>ch_timestamp := timestamp\<rparr>) st else st) in do {
     r \<leftarrow> addnicktochannel nouser cp (numeric OR CUMODE_OP) st;
     after_add (ChannelCreate cp numeric) cp newchan r
   }}"

definition part_one :: "nat \<Rightarrow> nat \<Rightarrow> string \<Rightarrow> chanst \<Rightarrow> chanst option" where
  "part_one nouser numeric name st = do {
     found \<leftarrow> findchannel name st;
     case found of
       None \<Rightarrow> Some st
     | Some cp \<Rightarrow> do {
         c \<leftarrow> st_channels st cp;
         lp \<leftarrow> getnumerichandlefromchanhash (ch_users c) numeric;
         if lp \<noteq> None
         then delnickfromchannel nouser cp numeric True (emit (ChannelPart cp numeric) st)
         else Some st
       }
   }"

fun each_name :: "(string \<Rightarrow> chanst \<Rightarrow> chanst option) \<Rightarrow> string list \<Rightarrow> chanst \<Rightarrow> chanst option" where
  "each_name f [] st = Some st"
| "each_name f (name # names) st = do { st \<leftarrow> f name st; each_name f names st }"

definition handlejoinmsg :: "env \<Rightarrow> string \<Rightarrow> string list \<Rightarrow> chanst \<Rightarrow> chanst option" where
  "handlejoinmsg env source cargv st =
     (if length cargv < 1 then Some st
      else let timestamp = (if length cargv > 1 then fst (strtol10 (cargv ! 1)) else 0) in do {
        np \<leftarrow> getnickbynumericstr st source;
        case np of
          None \<Rightarrow> Some st
        | Some np \<Rightarrow>
            each_name (join_one (env_nouser env) timestamp (nk_numeric np)) (comma_names (cargv ! 0)) st
      })"

definition handlecreatemsg :: "env \<Rightarrow> string \<Rightarrow> string list \<Rightarrow> chanst \<Rightarrow> chanst option" where
  "handlecreatemsg env source cargv st =
     (if length cargv < 2 then Some st
      else let timestamp = fst (strtol10 (cargv ! 1)) in do {
        np \<leftarrow> getnickbynumericstr st source;
        case np of
          None \<Rightarrow> Some st
        | Some np \<Rightarrow>
            each_name (create_one (env_nouser env) timestamp (nk_numeric np)) (comma_names (cargv ! 0)) st
      })"

definition handlepartmsg :: "env \<Rightarrow> string \<Rightarrow> string list \<Rightarrow> chanst \<Rightarrow> chanst option" where
  "handlepartmsg env source cargv st =
     (if length cargv < 1 then Some st
      else do {
        np \<leftarrow> getnickbynumericstr st source;
        case np of
          None \<Rightarrow> Some st
        | Some np \<Rightarrow>
            each_name (part_one (env_nouser env) (nk_numeric np)) (comma_names (cargv ! 0)) st
      })"

section \<open>Kick and topic\<close>

definition handlekickmsg :: "env \<Rightarrow> string \<Rightarrow> string list \<Rightarrow> chanst \<Rightarrow> chanst option" where
  "handlekickmsg env source cargv st =
     (if length cargv < 3 then Some st
      else do {
        np \<leftarrow> getnickbynumericstr st (cargv ! 1);
        case np of
          None \<Rightarrow> Some st
        | Some np \<Rightarrow> do {
            kicker \<leftarrow> mode_source st source;
            found \<leftarrow> findchannel (cargv ! 0) st;
            case found of
              None \<Rightarrow> Some st
            | Some cp \<Rightarrow> do {
                c \<leftarrow> st_channels st cp;
                ci \<leftarrow> cips (st_index st) (ch_index c);
                let numeric = nk_numeric np;
                    st = (if homeserver numeric = env_numeric env
                          then emit (SendPart numeric (ciname ci)) st else st);
                    st = emit (ChannelKick cp numeric (map_option nk_numeric kicker)) st
                in delnickfromchannel (env_nouser env) cp numeric True st
              }
          }
      })"

definition handletopicmsg :: "env \<Rightarrow> string \<Rightarrow> string list \<Rightarrow> chanst \<Rightarrow> chanst option" where
  "handletopicmsg env source cargv st =
     (let cargc = length cargv in
      if cargc < 2 then Some st
      else let topictime = (if cargc > 2 then fst (strtol10 (cargv ! (cargc - 2))) else 0);
               timestamp = (if cargc > 3 then fst (strtol10 (cargv ! (cargc - 3))) else 0);
               topic = cargv ! (cargc - 1) in do {
        np \<leftarrow> getnickbynumericstr st source;
        found \<leftarrow> findchannel (cargv ! 0) st;
        case found of
          None \<Rightarrow> Some st
        | Some cp \<Rightarrow> do {
            c \<leftarrow> st_channels st cp;
            if timestamp \<noteq> 0 \<and> ch_timestamp c < timestamp then Some st
            else if topictime \<noteq> 0 \<and> ch_topictime c > topictime then Some st
            else let c = (if topic = [] then c\<lparr>ch_topic := None, ch_topictime := 0\<rparr>
                          else c\<lparr>ch_topic := Some (sstr topic TOPICLEN),
                                 ch_topictime := (if topictime \<noteq> 0 then topictime else env_time env)\<rparr>)
                 in Some (emit (ChannelTopic cp (map_option nk_numeric np)) (set_chan cp c st))
          }
      })"

section \<open>Mode changes\<close>

text \<open>The bit of a mode without parameter, and the bit that setting it clears.\<close>

definition simple_mode :: "char \<Rightarrow> (32 word \<times> 32 word) option" where
  "simple_mode m =
     (if m = CHR ''n'' then Some (CHANMODE_NOEXTMSG, 0)
      else if m = CHR ''t'' then Some (CHANMODE_TOPICLIMIT, 0)
      else if m = CHR ''s'' then Some (CHANMODE_SECRET, CHANMODE_PRIVATE)
      else if m = CHR ''p'' then Some (CHANMODE_PRIVATE, CHANMODE_SECRET)
      else if m = CHR ''i'' then Some (CHANMODE_INVITEONLY, 0)
      else if m = CHR ''m'' then Some (CHANMODE_MODERATE, 0)
      else if m = CHR ''c'' then Some (CHANMODE_NOCOLOUR, 0)
      else if m = CHR ''C'' then Some (CHANMODE_NOCTCP, 0)
      else if m = CHR ''r'' then Some (CHANMODE_REGONLY, 0)
      else if m = CHR ''D'' then Some (CHANMODE_DELJOINS, 0)
      else if m = CHR ''u'' then Some (CHANMODE_NOQUITMSG, 0)
      else if m = CHR ''N'' then Some (CHANMODE_NONOTICE, 0)
      else if m = CHR ''M'' then Some (CHANMODE_MODNOAUTH, 0)
      else if m = CHR ''T'' then Some (CHANMODE_SINGLETARG, 0)
      else None)"

text \<open>Op and voice: the word of a user on the channel.\<close>

definition mode_bit :: "char \<Rightarrow> nat" where
  "mode_bit m = (if m = CHR ''o'' then CUMODE_OP else CUMODE_VOICE)"

definition mode_event :: "char \<Rightarrow> bool \<Rightarrow> nat \<Rightarrow> nat \<Rightarrow> chan_event" where
  "mode_event m dir cp numeric =
     (if m = CHR ''o'' then (if dir then ChannelOpped cp numeric else ChannelDeopped cp numeric)
      else (if dir then ChannelVoiced cp numeric else ChannelDevoiced cp numeric))"

definition mode_user :: "nat \<Rightarrow> char \<Rightarrow> bool \<Rightarrow> string \<Rightarrow> chanst \<Rightarrow> chanst option" where
  "mode_user cp m dir user st = do {
     c \<leftarrow> st_channels st cp;
     n \<leftarrow> numerictolong user 5;
     found \<leftarrow> getnumerichandlefromchanhash (ch_users c) (nat n);
     case found of
       None \<Rightarrow> Some st
     | Some lp \<Rightarrow>
         (let t = ch_users c; w = ucontent t ! lp
          in case getnickbynumeric st w of
               None \<Rightarrow> Some (emit ChannelError st)
             | Some target \<Rightarrow>
                 (let w = (if dir then w OR mode_bit m else w AND (mask 32 XOR mode_bit m))
                  in Some (emit (mode_event m dir cp (nk_numeric target))
                       (set_chan cp (c\<lparr>ch_users := t\<lparr>ucontent := (ucontent t)[lp := w]\<rparr>\<rparr>) st))))
   }"

text \<open>A mode with a parameter, and one character of the mode string: direction, next parameter,
  kinds of change, state.\<close>

definition mode_par ::
  "env \<Rightarrow> string list \<Rightarrow> nat \<Rightarrow> char \<Rightarrow> bool \<Rightarrow> nat \<Rightarrow> 32 word \<Rightarrow> channel \<Rightarrow> chanst
     \<Rightarrow> (bool \<times> nat \<times> 32 word \<times> chanst) option" where
  "mode_par env cargv cp m dir arg changes c st =
     (if m = CHR ''l'' then
        let changes = changes OR MODECHANGE_MODES in
        if dir then
          if arg < length cargv then
            Some (dir, arg + 1, changes,
              set_chan cp (c\<lparr>ch_limit := c_int (fst (strtol10 (cargv ! arg))),
                             ch_flags := ch_flags c OR CHANMODE_LIMIT\<rparr>) st)
          else Some (dir, arg, changes, st)
        else Some (dir, arg, changes,
               set_chan cp (c\<lparr>ch_flags := ch_flags c AND (NOT CHANMODE_LIMIT), ch_limit := 0\<rparr>) st)
      else if m = CHR ''k'' then
        let changes = changes OR MODECHANGE_MODES in
        if dir then
          if arg < length cargv then
            Some (dir, arg + 1, changes,
              set_chan cp (c\<lparr>ch_key := Some (sstr (cargv ! arg) KEYLEN),
                             ch_flags := ch_flags c OR CHANMODE_KEY\<rparr>) st)
          else Some (dir, arg, changes, st)
        else Some (dir, arg + 1, changes,
               set_chan cp (c\<lparr>ch_key := None, ch_flags := ch_flags c AND (NOT CHANMODE_KEY)\<rparr>) st)
      else if m = CHR ''o'' \<or> m = CHR ''v'' then
        let changes = changes OR MODECHANGE_USERS in
        if arg < length cargv then do {
          st \<leftarrow> mode_user cp m dir (cargv ! arg) st;
          Some (dir, arg + 1, changes, st)
        }
        else Some (dir, arg, changes, st)
      else if m = CHR ''b'' then
        let changes = changes OR MODECHANGE_BANS in
        if arg < length cargv then
          if dir then do {
            (r, bans) \<leftarrow> setban (env_time env) (ch_bans c) (cargv ! arg);
            Some (dir, arg + 1, changes, emit (ChannelBanSet cp) (set_chan cp (c\<lparr>ch_bans := bans\<rparr>) st))
          }
          else do {
            (r, bans) \<leftarrow> clearban (env_time env) (ch_bans c) (cargv ! arg);
            Some (dir, arg + 1, changes, emit (ChannelBanClear cp) (set_chan cp (c\<lparr>ch_bans := bans\<rparr>) st))
          }
        else Some (dir, arg, changes, st)
      else Some (dir, arg, changes, st))"

definition mode_char ::
  "env \<Rightarrow> string list \<Rightarrow> nat \<Rightarrow> char \<Rightarrow> bool \<times> nat \<times> 32 word \<times> chanst \<Rightarrow> (bool \<times> nat \<times> 32 word \<times> chanst) option" where
  "mode_char env cargv cp m s =
     (case s of (dir, arg, changes, st) \<Rightarrow> do {
        c \<leftarrow> st_channels st cp;
        if m = CHR ''+'' then Some (True, arg, changes, st)
        else if m = CHR ''-'' then Some (False, arg, changes, st)
        else case simple_mode m of
          Some (b, clears) \<Rightarrow>
            (let f = (if dir then (ch_flags c OR b) AND (NOT clears) else ch_flags c AND (NOT b))
             in Some (dir, arg, changes OR MODECHANGE_MODES, set_chan cp (c\<lparr>ch_flags := f\<rparr>) st))
        | None \<Rightarrow> mode_par env cargv cp m dir arg changes c st
      })"

fun mode_chars ::
  "env \<Rightarrow> string list \<Rightarrow> nat \<Rightarrow> string \<Rightarrow> bool \<times> nat \<times> 32 word \<times> chanst \<Rightarrow> (bool \<times> nat \<times> 32 word \<times> chanst) option" where
  "mode_chars env cargv cp [] s = Some s"
| "mode_chars env cargv cp (m # ms) s = do { s \<leftarrow> mode_char env cargv cp m s; mode_chars env cargv cp ms s }"

definition handlemodemsg :: "env \<Rightarrow> string \<Rightarrow> string list \<Rightarrow> chanst \<Rightarrow> chanst option" where
  "handlemodemsg env source cargv st =
     (if length cargv < 2 then Some st
      else if deref (cargv ! 0) \<noteq> CHR ''#'' \<and> deref (cargv ! 0) \<noteq> CHR ''+'' then Some st
      else do {
        found \<leftarrow> findchannel (cargv ! 0) st;
        case found of
          None \<Rightarrow> Some st
        | Some cp \<Rightarrow> do {
            np \<leftarrow> mode_source st source;
            c \<leftarrow> st_channels st cp;
            (dir, arg, changes, st) \<leftarrow> mode_chars env cargv cp (cargv ! 1) (True, 2, 0, st);
            Some (emit (ChannelModeChange cp changes (ch_flags c)) st)
          }
      })"

text \<open>\<open>CLEARMODE\<close>: the bits to take off the users, the kinds of change and the channel.\<close>

definition clear_char :: "char \<Rightarrow> nat \<times> 32 word \<times> channel \<Rightarrow> nat \<times> 32 word \<times> channel" where
  "clear_char m s =
     (case s of (usermask, changes, c) \<Rightarrow>
        if m = CHR ''o'' then (usermask OR CUMODE_OP, changes OR MODECHANGE_USERS, c)
        else if m = CHR ''v'' then (usermask OR CUMODE_VOICE, changes OR MODECHANGE_USERS, c)
        else if m = CHR ''b'' then (usermask, changes OR MODECHANGE_BANS, c\<lparr>ch_bans := clearallbans (ch_bans c)\<rparr>)
        else if m = CHR ''k'' then (usermask, changes OR MODECHANGE_MODES,
               c\<lparr>ch_key := None, ch_flags := ch_flags c AND (NOT CHANMODE_KEY)\<rparr>)
        else if m = CHR ''l'' then (usermask, changes OR MODECHANGE_MODES,
               c\<lparr>ch_limit := 0, ch_flags := ch_flags c AND (NOT CHANMODE_LIMIT)\<rparr>)
        else case simple_mode m of
          Some (b, clears) \<Rightarrow> (usermask, changes OR MODECHANGE_MODES, c\<lparr>ch_flags := ch_flags c AND (NOT b)\<rparr>)
        | None \<Rightarrow> (usermask, changes, c))"

text \<open>The loop over the slots, with the hooks of a user.\<close>

definition clear_hooks :: "nat \<Rightarrow> nat \<Rightarrow> nat \<Rightarrow> cnick \<Rightarrow> chanst \<Rightarrow> chanst" where
  "clear_hooks usermask cp w target st =
     (let st = (if w AND usermask AND CUMODE_OP \<noteq> 0
                then emit (ChannelDeopped cp (nk_numeric target)) st else st)
      in if w AND usermask AND CUMODE_VOICE \<noteq> 0
         then emit (ChannelDevoiced cp (nk_numeric target)) st else st)"

function clear_users :: "nat \<Rightarrow> nat \<Rightarrow> nat \<Rightarrow> nat \<Rightarrow> channel \<Rightarrow> chanst \<Rightarrow> channel \<times> chanst" where
  "clear_users nouser usermask cp i c st =
     (let t = ch_users c in
      if i \<ge> hashsize t then (c, st)
      else let w = ucontent t ! i in
        if w \<noteq> nouser \<and> w AND usermask \<noteq> 0 then
          (case getnickbynumeric st w of
             None \<Rightarrow> clear_users nouser usermask cp (i + 1) c (emit ChannelError st)
           | Some target \<Rightarrow>
               (let st = clear_hooks usermask cp w target st;
                    t = t\<lparr>ucontent := (ucontent t)[i := w AND (mask 64 XOR usermask)]\<rparr>
                in clear_users nouser usermask cp (i + 1) (c\<lparr>ch_users := t\<rparr>) st))
        else clear_users nouser usermask cp (i + 1) c st)"
  by pat_completeness auto
termination
  by (relation "measure (\<lambda>(_, _, _, i, c, _). hashsize (ch_users c) - i)") auto

declare clear_users.simps [simp del]

definition handleclearmodemsg :: "env \<Rightarrow> string \<Rightarrow> string list \<Rightarrow> chanst \<Rightarrow> chanst option" where
  "handleclearmodemsg env source cargv st =
     (if length cargv < 2 then Some st
      else do {
        found \<leftarrow> findchannel (cargv ! 0) st;
        case found of
          None \<Rightarrow> Some st
        | Some cp \<Rightarrow> do {
            np \<leftarrow> mode_source st source;
            c \<leftarrow> st_channels st cp;
            let oldflags = ch_flags c;
                (usermask, changes, c) = fold clear_char (cargv ! 1) (0, 0, c);
                (c, st) = (if usermask \<noteq> 0 then clear_users (env_nouser env) usermask cp 0 c st else (c, st))
            in Some (emit (ChannelModeChange cp changes oldflags) (set_chan cp c st))
          }
      })"

text \<open>The handler that is registered for a command.\<close>

definition channel_handler :: "env \<Rightarrow> string \<Rightarrow> string \<Rightarrow> string list \<Rightarrow> chanst \<Rightarrow> chanst option" where
  "channel_handler env command source cargv =
     (if command = ''B'' then handleburstmsg env cargv
      else if command = ''J'' then handlejoinmsg env source cargv
      else if command = ''C'' then handlecreatemsg env source cargv
      else if command = ''L'' then handlepartmsg env source cargv
      else if command = ''K'' then handlekickmsg env source cargv
      else if command = ''T'' then handletopicmsg env source cargv
      else if command = ''M'' \<or> command = ''OM'' then handlemodemsg env source cargv
      else if command = ''CM'' then handleclearmodemsg env source cargv
      else Some)"

end
