(* ===== verification/ChanHandlersOk.thy ===== *)
theory ChanHandlersOk
  imports ChanHandlers
begin

text \<open>
  Bursts keep the invariant of the channels, and what a burst does to the users that are on a
  channel. With the lemmas for this and the other messages: changes of the modes of a user
  in place, changes of a channel, finding and making channels, adding users.
\<close>

unbundle bit_operations_syntax

section \<open>Changing the modes of users\<close>

text \<open>Two words of the same user, and two tables that differ in the modes only.\<close>

definition same_user :: "nat \<Rightarrow> nat \<Rightarrow> nat \<Rightarrow> bool" where
  "same_user nouser x y \<longleftrightarrow> (x = nouser \<longleftrightarrow> y = nouser) \<and> masked x = masked y"

definition same_users :: "nat \<Rightarrow> chanuserhash \<Rightarrow> chanuserhash \<Rightarrow> bool" where
  "same_users nouser t t' \<longleftrightarrow>
     hashsize t' = hashsize t \<and> totalusers t' = totalusers t \<and> hashsize t \<le> length (ucontent t')
     \<and> (\<forall>i < hashsize t. same_user nouser (ucontent t ! i) (ucontent t' ! i))"

lemma same_users_refl: "hashsize t \<le> length (ucontent t) \<Longrightarrow> same_users nouser t t"
  by (simp add: same_users_def same_user_def)

lemma same_users_trans:
  "same_users nouser t t' \<Longrightarrow> same_users nouser t' t'' \<Longrightarrow> same_users nouser t t''"
  by (auto simp: same_users_def same_user_def)

lemma same_user_filter:
  "list_all2 (same_user nouser) xs ys \<Longrightarrow>
   map masked (filter (\<lambda>x. x \<noteq> nouser) xs) = map masked (filter (\<lambda>x. x \<noteq> nouser) ys)"
  by (induction rule: list_all2_induct) (auto simp: same_user_def)

lemma same_users_masked:
  assumes "same_users nouser t t'" "hashsize t \<le> length (ucontent t)"
  shows "map masked (users nouser t') = map masked (users nouser t)"
proof -
  have "list_all2 (same_user nouser) (take (hashsize t) (ucontent t)) (take (hashsize t) (ucontent t'))"
    using assms by (simp add: list_all2_conv_all_nth same_users_def)
  from same_user_filter [OF this] show ?thesis using assms(1) by (simp add: users_def same_users_def)
qed

lemma user_map_None: "user_map nouser t k = None \<longleftrightarrow> k \<notin> set (map masked (users nouser t))"
  by (force simp: user_map_def map_of_eq_None_iff)

lemma same_users_ok:
  assumes ok: "cuh_ok nouser t" and same: "same_users nouser t t'"
  shows "cuh_ok nouser t'" "user_map nouser t' k = None \<longleftrightarrow> user_map nouser t k = None"
proof -
  have len: "hashsize t \<le> length (ucontent t)" using ok by (simp add: cuh_ok_def)
  note m = same_users_masked [OF same len]
  show "user_map nouser t' k = None \<longleftrightarrow> user_map nouser t k = None"
    unfolding user_map_None m ..
  have n: "length (users nouser t') = length (users nouser t)" using arg_cong [OF m, of length] by simp
  have "masked (ucontent t' ! i) \<noteq> masked nouser \<and> i \<in> set (probes (hashsize t) (ucontent t' ! i))"
    if "i < hashsize t" "ucontent t' ! i \<noteq> nouser" for i
  proof -
    have s: "ucontent t ! i \<noteq> nouser" "masked (ucontent t ! i) = masked (ucontent t' ! i)"
      using same that by (auto simp: same_users_def same_user_def)
    then show ?thesis using ok that(1) probes_masked [OF s(2)] by (auto simp: cuh_ok_def)
  qed
  then show "cuh_ok nouser t'"
    using ok same n m by (simp add: cuh_ok_def same_users_def)
qed

lemma same_users_write:
  assumes ok: "cuh_ok nouser t" and i: "i < hashsize t" "ucontent t ! i \<noteq> nouser"
    and w: "masked w = masked (ucontent t ! i)"
  shows "same_users nouser t (t\<lparr>ucontent := (ucontent t)[i := w]\<rparr>)"
proof -
  have "masked (ucontent t ! i) \<noteq> masked nouser" using ok i by (simp add: cuh_ok_def)
  then have "w \<noteq> nouser" using w by auto
  then show ?thesis
    using ok i w by (auto simp: same_users_def same_user_def cuh_ok_def nth_list_update)
qed

section \<open>Changing a channel in place\<close>

lemma set_chan_simps [simp]:
  "servernicks (set_chan cp c st) = servernicks st" "serverlist (set_chan cp c st) = serverlist st"
  "st_index (set_chan cp c st) = st_index st" "st_hosts (set_chan cp c st) = st_hosts st"
  "st_channels (set_chan cp c st) = (st_channels st)(cp \<mapsto> c)"
  "st_nextchan (set_chan cp c st) = st_nextchan st"
  "getnickbynumeric (set_chan cp c st) = getnickbynumeric st"
proof -
  show "getnickbynumeric (set_chan cp c st) = getnickbynumeric st"
    by (rule getnick_same) (simp_all add: set_chan_def)
qed (simp_all add: set_chan_def)

definition chan_edit :: "nat \<Rightarrow> channel \<Rightarrow> channel \<Rightarrow> bool" where
  "chan_edit nouser c c' \<longleftrightarrow> ch_index c' = ch_index c \<and> same_users nouser (ch_users c) (ch_users c')"

lemma chan_edit_refl: "cuh_ok nouser (ch_users c) \<Longrightarrow> chan_edit nouser c c"
  by (simp add: chan_edit_def same_users_refl cuh_ok_def)

lemma chan_edit_other:
  "cuh_ok nouser (ch_users c) \<Longrightarrow> ch_index c' = ch_index c \<Longrightarrow> ch_users c' = ch_users c \<Longrightarrow>
   chan_edit nouser c c'"
  by (simp add: chan_edit_def same_users_refl cuh_ok_def)

lemma set_chan_inv:
  assumes inv: "chan_inv nouser st" and c: "st_channels st cp = Some c" and e: "chan_edit nouser c c'"
  shows "chan_inv nouser (set_chan cp c' st)" "on_channels nouser (set_chan cp c' st) = on_channels nouser st"
proof -
  have base: "base_inv nouser st" using inv by (simp add: chan_inv_def)
  note b = base_channel [OF base c]
  have same: "same_users nouser (ch_users c) (ch_users c')" and idx: "ch_index c' = ch_index c"
    using e by (simp_all add: chan_edit_def)
  note ok = same_users_ok [OF b(2) same]
  have "ch_index c = cip" if "cips (st_index st) cip = Some ci" "cichannel ci = Some cp" for cip ci
    using base_index [OF base that] c by auto
  then have base': "base_inv nouser (set_chan cp c' st)"
    using base b ok(1) idx unfolding base_inv_def by (auto simp: servers_ok_def split: if_splits)
  show on: "on_channels nouser (set_chan cp c' st) = on_channels nouser st"
    using c by (auto simp: on_channels_def fun_eq_iff ok(2) simp del: not_None_eq)
  show "chan_inv nouser (set_chan cp c' st)"
    using inv base' on by (simp add: chan_inv_def own_channels_def)
qed

lemma chan_inv_cuh:
  "chan_inv nouser st \<Longrightarrow> st_channels st cp = Some c \<Longrightarrow> cuh_ok nouser (ch_users c)"
  using base_channel(2) by (auto simp: chan_inv_def)

section \<open>Finding and making channels\<close>

lemma findchannel_live:
  assumes "chan_inv nouser st" "findchannel name st = Some (Some cp)"
  shows "st_channels st cp \<noteq> None"
  using assms base_index [of nouser st]
  by (force simp: findchannel_def chan_inv_def split: Option.bind_splits option.splits)

lemma fun_upd_same_eq: "f(x := y) = f(x := z) \<longleftrightarrow> y = z"
  by (metis fun_upd_same)

lemma createchannel_new:
  assumes "createchannel nouser name st = Some (cp, st')" "findchannel name st = Some None"
  shows "cp = st_nextchan st" "\<exists>c. st_channels st' = (st_channels st)(cp \<mapsto> c)
    \<and> ch_users c = newchanuserhash nouser 1 \<and> ch_timestamp c = MAGIC_REMOTE_JOIN_TS"
proof -
  have "cp = st_nextchan st \<and> (\<exists>c. st_channels st' = (st_channels st)(cp \<mapsto> c)
    \<and> ch_users c = newchanuserhash nouser 1 \<and> ch_timestamp c = MAGIC_REMOTE_JOIN_TS)"
    using assms
    by (auto simp: createchannel_def findchannel_def findchanindex_def findorcreatechanindex_def Let_def
        fun_upd_same_eq split: Option.bind_splits option.splits)
  then show "cp = st_nextchan st" "\<exists>c. st_channels st' = (st_channels st)(cp \<mapsto> c)
    \<and> ch_users c = newchanuserhash nouser 1 \<and> ch_timestamp c = MAGIC_REMOTE_JOIN_TS" by auto
qed

text \<open>An empty channel goes without anybody noticing.\<close>

lemma delchannel_empty:
  assumes inv: "chan_inv nouser st" and c: "st_channels st cp = Some c"
    and none: "user_map nouser (ch_users c) = Map.empty"
  obtains st' where "delchannel cp st = Some st'" "chan_inv nouser st'"
    "on_channels nouser st' = on_channels nouser st" "st_channels st' = (st_channels st)(cp := None)"
proof -
  have base: "base_inv nouser st" using inv by (simp add: chan_inv_def)
  show thesis
  proof (rule delchannel_base [OF base c])
    fix st' assume st': "delchannel cp st = Some st'" "base_inv nouser st'"
      "st_channels st' = (st_channels st)(cp := None)" "servernicks st' = servernicks st"
      "serverlist st' = serverlist st"
    have g: "getnickbynumeric st' = getnickbynumeric st" by (rule getnick_same) (use st' in simp_all)
    have on: "on_channels nouser st' = on_channels nouser st"
      using c none unfolding on_channels_def st'(3) by (auto simp: fun_eq_iff)
    have "chan_inv nouser st'" using inv st'(2) on by (simp add: chan_inv_def own_channels_def g)
    then show thesis using that [OF st'(1) _ on st'(3)] by simp
  qed
qed

section \<open>Adding a user\<close>

lemma addnick_result:
  assumes r: "addnicktochannel nouser cp numeric st = Some (res, st')" and c: "st_channels st cp = Some c"
    and ok: "cuh_ok nouser (ch_users c)" "servers_ok st" "\<And>np. getnickbynumeric st numeric = Some np \<Longrightarrow> nick_ok nouser np"
  shows "res \<noteq> 0 \<and> st' = emit ChannelError st
    \<or> res = 0 \<and> (\<exists>t. st_channels st' = (st_channels st)(cp \<mapsto> c\<lparr>ch_users := t\<rparr>)
         \<and> user_map nouser (ch_users c) (masked numeric) = None
         \<and> user_map nouser t = (user_map nouser (ch_users c))(masked numeric \<mapsto> numeric)) \<and> st_index st' = st_index st"
proof (cases "getnickbynumeric st numeric")
  case None
  then show ?thesis using r c by (auto simp: addnicktochannel_def masked_def [symmetric] getnick_masked [OF ok(2)])
next
  case (Some np)
  then have valid: "masked numeric \<noteq> masked nouser"
    using ok(3) [OF Some] getnick_numeric [OF Some] by (simp add: nick_ok_def)
  from cu.look_law [OF ok(1) valid] obtain f where
    f: "getnumerichandlefromchanhash (ch_users c) numeric = Some f
       \<and> (f = None \<longleftrightarrow> user_map nouser (ch_users c) (masked numeric) = None)" by (rule exE)
  show ?thesis
  proof (cases "f = None")
    case True
    then obtain t where "add_loop nouser numeric (ch_users c) = Some t" "res = 0"
        "st_channels st' = (st_channels st)(cp \<mapsto> c\<lparr>ch_users := t\<rparr>)" "st_index st' = st_index st"
      using r c f Some by (auto simp: addnicktochannel_def masked_def [symmetric] getnick_masked [OF ok(2)] Let_def
          split: Option.bind_splits prod.splits)
    then show ?thesis using cu.add_law [OF ok(1) valid] True f by auto
  next
    case False
    then show ?thesis
      using r c f Some by (auto simp: addnicktochannel_def masked_def [symmetric] getnick_masked [OF ok(2)])
  qed
qed

lemma addnick_cases:
  assumes inv: "chan_inv nouser st" and r: "addnicktochannel nouser cp numeric st = Some (res, st')"
    and c: "st_channels st cp = Some c"
  obtains (refused) "res \<noteq> 0" "st' = emit ChannelError st"
  | (added) t where "res = 0" "st_channels st' = (st_channels st)(cp \<mapsto> c\<lparr>ch_users := t\<rparr>)"
      "user_map nouser (ch_users c) (masked numeric) = None"
      "user_map nouser t = (user_map nouser (ch_users c))(masked numeric \<mapsto> numeric)"
      "st_index st' = st_index st"
proof -
  have "servers_ok st" "\<And>np. getnickbynumeric st numeric = Some np \<Longrightarrow> nick_ok nouser np"
    using inv base_parts(1) by (auto simp: chan_inv_def)
  from addnick_result [OF r c chan_inv_cuh [OF inv c] this] show thesis using that by blast
qed

section \<open>Burst\<close>

text \<open>
  What a burst may do to a channel it does not reset: nobody leaves; \<open>plain\<close> when it changes no
  mode of the channel, \<open>wipeout\<close> when nobody joins with a mode.
\<close>

definition burst_rel :: "nat \<Rightarrow> bool \<Rightarrow> bool \<Rightarrow> channel \<Rightarrow> channel \<Rightarrow> bool" where
  "burst_rel nouser plain wipeout c c' \<longleftrightarrow>
     ch_index c' = ch_index c \<and> ch_timestamp c' = ch_timestamp c \<and> ch_topic c' = ch_topic c
     \<and> user_map nouser (ch_users c) \<subseteq>\<^sub>m user_map nouser (ch_users c')
     \<and> (plain \<longrightarrow> ch_flags c' = ch_flags c \<and> ch_key c' = ch_key c \<and> ch_limit c' = ch_limit c)
     \<and> (wipeout \<longrightarrow> (\<forall>k w. user_map nouser (ch_users c') k = Some w \<longrightarrow>
               user_map nouser (ch_users c) k = Some w \<or> masked w = w))"

lemma burst_rel_refl: "burst_rel nouser plain wipeout c c"
  by (simp add: burst_rel_def)

lemma burst_rel_trans:
  "burst_rel nouser plain wipeout c c' \<Longrightarrow> burst_rel nouser plain wipeout c' c'' \<Longrightarrow>
   burst_rel nouser plain wipeout c c''"
  unfolding burst_rel_def by (auto intro: map_le_trans)

lemma burst_rel_plain: "burst_rel nouser True wipeout c c' \<Longrightarrow> burst_rel nouser plain wipeout c c'"
  by (simp add: burst_rel_def)

lemma numerictolong_masked:
  assumes "numerictolong s 5 = Some n"
  shows "masked (nat n) = nat n"
proof -
  have "0 \<le> n \<and> n < 64 ^ (0 + 5)"
    using assms by (intro numerictolong_loop_bound [of 0 s 5]) (simp_all add: numerictolong_def)
  then show ?thesis unfolding masked_mod by (intro mod_less) (simp add: nat_less_iff)
qed

lemma burst_after_wipeout: "burst_after True 0 s = (mode, rest) \<Longrightarrow> mode = 0"
  by (auto simp: burst_after_def split: if_splits prod.splits)

lemma burst_users_ok:
  assumes "burst_users nouser wipeout cp s mode st = Some st'" "chan_inv nouser st"
    "st_channels st cp = Some c" "wipeout \<Longrightarrow> mode = 0"
  shows "chan_inv nouser st' \<and> (\<exists>c'. st_channels st' cp = Some c' \<and> burst_rel nouser True wipeout c c')"
  using assms
proof (induction nouser wipeout cp s mode st arbitrary: c rule: burst_users.induct)
  case (1 nouser wipeout cp s mode st)
  show ?case
  proof (cases "length s < 5")
    case True
    then show ?thesis using "1.prems" burst_rel_refl by (auto simp: burst_users.simps)
  next
    case False
    obtain mode' rest where ar: "burst_after wipeout mode (drop 5 s) = (mode', rest)" by fastforce
    obtain n r st1 where n: "numerictolong s 5 = Some n"
      and a: "addnicktochannel nouser cp (nat n OR mode') st = Some (r, st1)"
      and rec: "burst_users nouser wipeout cp rest mode' st1 = Some st'"
      using "1.prems"(1) False ar by (subst (asm) burst_users.simps) (auto split: Option.bind_splits)
    note IH = "1.IH" [OF False ar [symmetric] n a refl rec]
    have wipe: "wipeout \<Longrightarrow> mode' = 0" using ar "1.prems"(4) burst_after_wipeout by auto
    have inv1: "chan_inv nouser st1" using addnick_inv [OF "1.prems"(2) a] by blast
    show ?thesis using "1.prems"(2) a "1.prems"(3)
    proof (cases rule: addnick_cases)
      case refused
      then show ?thesis using IH [OF inv1 _ wipe, of c] "1.prems"(3) by simp
    next
      case (added t)
      have "burst_rel nouser True wipeout c (c\<lparr>ch_users := t\<rparr>)"
        using added(3,4) wipe numerictolong_masked [OF n] by (auto simp: burst_rel_def map_le_def)
      then show ?thesis using IH [OF inv1 _ wipe, of "c\<lparr>ch_users := t\<rparr>"] added(2) burst_rel_trans by fastforce
    qed
  qed
qed

lemma burst_modes_edit:
  assumes "burst_modes cargv arg c = Some (stop, used, c')"
  shows "ch_index c' = ch_index c" "ch_timestamp c' = ch_timestamp c" "ch_topic c' = ch_topic c"
    "ch_users c' = ch_users c"
  using assms
  by (auto simp: burst_modes_def burst_limit_def burst_key_def Let_def split: if_splits Option.bind_splits prod.splits)

text \<open>Nothing changes the modes of the channel when they are ignored or not given.\<close>

definition burst_plain :: "bool \<Rightarrow> string list \<Rightarrow> bool" where
  "burst_plain wipeout args \<longleftrightarrow> wipeout \<or> (\<forall>a \<in> set args. deref a \<noteq> CHR ''+'')"

lemma burst_plain_args: "burst_plain False (drop arg cargv) \<Longrightarrow> arg < length cargv \<Longrightarrow> deref (cargv ! arg) \<noteq> CHR ''+''"
  by (auto simp: burst_plain_def Cons_nth_drop_Suc [symmetric])

lemma burst_plain_mono:
  "burst_plain wipeout (drop i cargv) \<Longrightarrow> i \<le> j \<Longrightarrow> burst_plain wipeout (drop j cargv)"
  unfolding burst_plain_def using set_drop_subset_set_drop [of i j cargv] by blast

lemma burst_args_ok:
  assumes "burst_args env cargv wipeout arg cp st = Some st'" "chan_inv (env_nouser env) st"
    "st_channels st cp = Some c" "plain \<Longrightarrow> burst_plain wipeout (drop arg cargv)"
  shows "chan_inv (env_nouser env) st'
    \<and> (\<exists>c'. st_channels st' cp = Some c' \<and> burst_rel (env_nouser env) plain wipeout c c')"
  using assms
proof (induction env cargv wipeout arg cp st arbitrary: c rule: burst_args.induct)
  case (1 env cargv wipeout arg cp st)
  note cuh = chan_inv_cuh [OF "1.prems"(2,3)]
  have step: "chan_inv (env_nouser env) (set_chan cp c1 st)
      \<and> st_channels (set_chan cp c1 st) cp = Some c1 \<and> burst_rel (env_nouser env) plain wipeout c c1"
    if "ch_index c1 = ch_index c" "ch_timestamp c1 = ch_timestamp c" "ch_topic c1 = ch_topic c"
      "ch_users c1 = ch_users c"
      "plain \<Longrightarrow> ch_flags c1 = ch_flags c \<and> ch_key c1 = ch_key c \<and> ch_limit c1 = ch_limit c" for c1
    using set_chan_inv(1) [OF "1.prems"(2,3) chan_edit_other [OF cuh that(1,4)]] that
    by (auto simp: burst_rel_def)
  have next_plain: "plain \<Longrightarrow> burst_plain wipeout (drop j cargv)" if "arg \<le> j" for j
    using burst_plain_mono [OF _ that] "1.prems"(4) by blast
  consider (finished) "arg \<ge> length cargv" | (modes) "\<not> arg \<ge> length cargv" "deref (cargv ! arg) = CHR ''+''"
    | (bans) "\<not> arg \<ge> length cargv" "deref (cargv ! arg) \<noteq> CHR ''+''" "deref (cargv ! arg) = CHR ''%''"
    | (users) "\<not> arg \<ge> length cargv" "deref (cargv ! arg) \<noteq> CHR ''+''" "deref (cargv ! arg) \<noteq> CHR ''%''"
    by blast
  then show ?case
  proof cases
    case finished
    then show ?thesis using "1.prems" burst_rel_refl by (auto simp: burst_args.simps)
  next
    case modes
    show ?thesis
    proof (cases wipeout)
      case True
      then show ?thesis
        using "1.IH"(1) [OF modes(1) refl modes(2) True _ "1.prems"(2,3)] "1.prems"(1) modes next_plain
        by (subst (asm) burst_args.simps) (simp add: Let_def)
    next
      case False
      obtain stop used c1 where m: "burst_modes cargv arg c = Some (stop, used, c1)"
        using "1.prems" modes False by (subst (asm) burst_args.simps) (auto simp: Let_def split: Option.bind_splits)
      have "\<not> plain" using "1.prems"(4) burst_plain_args modes False by auto
      then have s: "chan_inv (env_nouser env) (set_chan cp c1 st) \<and> st_channels (set_chan cp c1 st) cp = Some c1
          \<and> burst_rel (env_nouser env) plain wipeout c c1"
        by (intro step [of c1, OF burst_modes_edit [OF m]]) blast
      show ?thesis
      proof (cases stop)
        case True
        then show ?thesis
          using "1.prems" modes False m s by (subst (asm) burst_args.simps) (auto simp: Let_def)
      next
        case ns: False
        have rec: "burst_args env cargv wipeout (max arg used + 1) cp (set_chan cp c1 st) = Some st'"
          using "1.prems" modes False m ns by (subst (asm) burst_args.simps) (auto simp: Let_def)
        then show ?thesis
          using "1.IH"(2) [OF modes(1) refl modes(2) False "1.prems"(3) m refl refl ns rec _ _ next_plain] s burst_rel_trans by fastforce
      qed
    qed
  next
    case bans
    obtain bs where b: "burst_bans (env_time env) (tl (cargv ! arg)) (ch_bans c) = Some bs"
      "burst_args env cargv wipeout (arg + 1) cp (set_chan cp (c\<lparr>ch_bans := bs\<rparr>) st) = Some st'"
      using "1.prems" bans by (subst (asm) burst_args.simps) (auto simp: Let_def split: Option.bind_splits)
    note s = step [of "c\<lparr>ch_bans := bs\<rparr>"]
    show ?thesis
      using "1.IH"(3) [OF bans(1) refl bans(2,3) "1.prems"(3) b(1) b(2) _ _ next_plain] s burst_rel_trans by fastforce
  next
    case users
    obtain st1 where u: "burst_users (env_nouser env) wipeout cp (cargv ! arg) 0 st = Some st1"
      "burst_args env cargv wipeout (arg + 1) cp st1 = Some st'"
      using "1.prems" users by (subst (asm) burst_args.simps) (auto simp: Let_def split: Option.bind_splits)
    obtain c1 where c1: "chan_inv (env_nouser env) st1" "st_channels st1 cp = Some c1"
      "burst_rel (env_nouser env) plain wipeout c c1"
      using burst_users_ok [OF u(1) "1.prems"(2,3)] burst_rel_plain by blast
    have "chan_inv (env_nouser env) st'
      \<and> (\<exists>c'. st_channels st' cp = Some c' \<and> burst_rel (env_nouser env) plain wipeout c1 c')"
      by (rule "1.IH"(4) [OF users(1) refl users(2,3) u(1) u(2) c1(1,2)]) (rule next_plain, simp_all)
    then show ?thesis using burst_rel_trans [OF c1(3)] by blast
  qed
qed

lemma strip_same:
  assumes ok: "cuh_ok nouser t"
  shows "same_users nouser t (strip_users nouser CU_NUMERICMASK t)"
    "user_map nouser (strip_users nouser CU_NUMERICMASK t) k = map_option masked (user_map nouser t k)"
proof -
  let ?f = "\<lambda>x. if x \<noteq> nouser then x AND CU_NUMERICMASK else x" and ?t = "strip_users nouser CU_NUMERICMASK t"
  have len: "hashsize t \<le> length (ucontent t)" using ok by (simp add: cuh_ok_def)
  have at: "ucontent ?t ! i = ?f (ucontent t ! i)" if "i < hashsize t" for i
    using that len by (simp add: strip_users_def nth_append)
  have valid: "masked (ucontent t ! i) \<noteq> masked nouser" if "i < hashsize t" "ucontent t ! i \<noteq> nouser" for i
    using ok that by (simp add: cuh_ok_def)
  show same: "same_users nouser t ?t"
    unfolding same_users_def same_user_def
  proof (intro conjI allI impI)
    fix i assume i: "i < hashsize t"
    then show "(ucontent t ! i = nouser) = (ucontent ?t ! i = nouser)"
      unfolding at [OF i] using valid [OF i] by (auto simp: masked_def [symmetric])
    show "masked (ucontent t ! i) = masked (ucontent ?t ! i)"
      unfolding at [OF i] by (auto simp: masked_def [symmetric])
  qed (use len in \<open>simp_all add: strip_users_def\<close>)
  note ok' = same_users_ok [OF ok same]
  have size': "hashsize ?t = hashsize t" by (simp add: strip_users_def)
  have len': "hashsize ?t \<le> length (ucontent ?t)" using ok'(1) by (simp add: cuh_ok_def)
  have "user_map nouser ?t k = Some k" if u: "user_map nouser t k = Some w" for w
  proof -
    obtain x where x: "user_map nouser ?t k = Some x"
      using ok'(2) [of k] u by (cases "user_map nouser ?t k") auto
    then have "x \<in> set (users nouser ?t)" "masked x = k" by (simp_all add: user_map_Some [OF ok'(1)])
    then obtain i where "i < hashsize t" "ucontent ?t ! i = x" "x \<noteq> nouser"
      by (auto simp: in_users [OF len'] size')
    then have "x = masked (ucontent t ! i)" using at [of i] by (auto simp: masked_def split: if_splits)
    then show ?thesis using x \<open>masked x = k\<close> by simp
  qed
  moreover have "masked w = k" if "user_map nouser t k = Some w" for w
    using that by (simp add: user_map_Some [OF ok])
  ultimately show "user_map nouser ?t k = map_option masked (user_map nouser t k)"
    using ok'(2) [of k] by (cases "user_map nouser t k") auto
qed

lemma burst_reset_edit:
  assumes "cuh_ok nouser (ch_users c)"
  shows "chan_edit nouser c (burst_reset nouser ts c)"
  using strip_same(1) [OF assms] by (simp add: chan_edit_def burst_reset_def)

text \<open>A burst starts from a fresh channel, a stripped one, or the channel as it is.\<close>

definition burst_start :: "nat \<Rightarrow> int \<Rightarrow> channel \<Rightarrow> bool \<Rightarrow> channel \<Rightarrow> bool" where
  "burst_start nouser ts c wipeout c0 \<longleftrightarrow>
     (if ts < ch_timestamp c then \<not> wipeout \<and> c0 = burst_reset nouser ts c
      else wipeout = (ch_timestamp c < ts) \<and> c0 = c)"

lemma burst_open_ok:
  assumes inv: "chan_inv (env_nouser env) st" and name: "cstring name" "length name \<le> CHANNELLEN"
    and r: "burst_open env name ts st = Some (cp, isnewchan, wipeout, st')"
  shows "chan_inv (env_nouser env) st' \<and> (\<exists>c0. st_channels st' cp = Some c0
    \<and> (\<forall>cp0 c. findchannel name st = Some (Some cp0) \<longrightarrow> st_channels st cp0 = Some c \<longrightarrow>
         cp = cp0 \<and> burst_start (env_nouser env) ts c wipeout c0))"
proof -
  obtain found where found: "findchannel name st = Some found"
    using r by (auto simp: burst_open_def split: Option.bind_splits)
  show ?thesis
  proof (cases found)
    case None
    obtain s c where s: "createchannel (env_nouser env) name st = Some (cp, s)" "st_channels s cp = Some c"
      "st' = set_chan cp (c\<lparr>ch_timestamp := ts\<rparr>) s"
      using r found None by (auto simp: burst_open_def split: Option.bind_splits)
    have inv1: "chan_inv (env_nouser env) s" using createchannel_inv [OF inv name] s(1) by fastforce
    have "chan_edit (env_nouser env) c (c\<lparr>ch_timestamp := ts\<rparr>)"
      using chan_edit_other [OF chan_inv_cuh [OF inv1 s(2)]] by simp
    from set_chan_inv(1) [OF inv1 s(2) this] show ?thesis using s(3) found None by simp
  next
    case (Some cp1)
    obtain c where c: "st_channels st cp1 = Some c"
      using findchannel_live [OF inv] found Some by blast
    have "chan_inv (env_nouser env) (set_chan cp1 (burst_reset (env_nouser env) ts c) st)"
      by (rule set_chan_inv(1) [OF inv c burst_reset_edit [OF chan_inv_cuh [OF inv c]]])
    then show ?thesis
      using r found Some c inv by (auto simp: burst_open_def burst_start_def split: if_splits)
  qed
qed

text \<open>The end of a burst: the channel goes when it is empty.\<close>

lemma burst_close_ok:
  assumes inv: "chan_inv nouser st" and c: "st_channels st cp = Some c"
    and r: "burst_close cp isnewchan st = Some st'"
  shows "chan_inv nouser st'
    \<and> st_channels st' cp = (if user_map nouser (ch_users c) = Map.empty then None else Some c)"
proof -
  note e = cu.empty_total [OF chan_inv_cuh [OF inv c]]
  show ?thesis
  proof (cases "totalusers (ch_users c) = 0")
    case True
    let ?s = "if isnewchan then st else emit (ChannelLostChannel cp) st"
    have "chan_inv nouser ?s" "st_channels ?s cp = Some c" using inv c by simp_all
    then obtain st1 where "delchannel cp ?s = Some st1" "chan_inv nouser st1"
      "st_channels st1 = (st_channels ?s)(cp := None)"
      using e True by (auto elim: delchannel_empty)
    then show ?thesis using r True e c by (simp add: burst_close_def)
  next
    case False
    then show ?thesis using r inv c e by (auto simp: burst_close_def)
  qed
qed

lemma handleburst_ok:
  assumes r: "handleburstmsg env cargv st = Some st'" and inv: "chan_inv (env_nouser env) st"
    and name: "cstring (cargv ! 0)" "length (cargv ! 0) \<le> CHANNELLEN" and args: "2 \<le> length cargv"
  obtains cp c0 wipeout c1 where "chan_inv (env_nouser env) st'" "burst_rel (env_nouser env) (burst_plain wipeout (drop 2 cargv)) wipeout c0 c1"
    "st_channels st' cp = (if user_map (env_nouser env) (ch_users c1) = Map.empty then None else Some c1)"
    "\<And>cp0 c. findchannel (cargv ! 0) st = Some (Some cp0) \<Longrightarrow> st_channels st cp0 = Some c \<Longrightarrow>
       cp = cp0 \<and> burst_start (env_nouser env) (fst (strtol10 (cargv ! 1))) c wipeout c0"
proof -
  let ?n = "env_nouser env"
  obtain cp isnewchan wipeout s s2 where s: "burst_open env (cargv ! 0) (fst (strtol10 (cargv ! 1))) st
        = Some (cp, isnewchan, wipeout, s)"
      "burst_args env cargv wipeout 2 cp s = Some s2" "burst_close cp isnewchan s2 = Some st'"
    using r args by (auto simp: handleburstmsg_def split: Option.bind_splits)
  obtain c0 where c0: "chan_inv ?n s" "st_channels s cp = Some c0"
      "\<forall>cp0 c. findchannel (cargv ! 0) st = Some (Some cp0) \<longrightarrow> st_channels st cp0 = Some c \<longrightarrow>
         cp = cp0 \<and> burst_start ?n (fst (strtol10 (cargv ! 1))) c wipeout c0"
    using burst_open_ok [OF inv name s(1)] by blast
  obtain c1 where c1: "chan_inv ?n s2" "st_channels s2 cp = Some c1" "burst_rel ?n (burst_plain wipeout (drop 2 cargv)) wipeout c0 c1"
    using burst_args_ok [OF s(2) c0(1,2)] by blast
  from burst_close_ok [OF c1(1,2) s(3)] show thesis
    by (intro that [OF _ c1(3), of cp]) (use c0(3) in auto)
qed


end
