(* ===== verification/ChanMessages.thy ===== *)
theory ChanMessages
  imports ChanHandlersOk
begin

text \<open>
  Every handler of a message about channels keeps the invariant of the channels: joins, parts,
  kicks, topics, mode changes and \<open>CLEARMODE\<close>, whose effect on the modes of the users is stated
  in full.
\<close>

unbundle bit_operations_syntax

section \<open>Join, create and part\<close>

lemma part_all_ok:
  assumes "base_inv nouser st" "getnickbynumeric st x = Some np" "masked x \<noteq> masked nouser"
    "distinct xs" "None \<notin> set xs" "\<forall>cp. Some cp \<in> set xs \<longrightarrow> cp \<in> on_channels nouser st x"
  shows "\<exists>st'. part_all nouser x xs st = Some st' \<and> base_inv nouser st'
    \<and> servernicks st' = servernicks st \<and> serverlist st' = serverlist st
    \<and> (\<forall>k. on_channels nouser st' k = (if masked k = masked x
          then on_channels nouser st k - {cp. Some cp \<in> set xs} else on_channels nouser st k))"
  using assms
proof (induction xs arbitrary: st)
  case (Cons y xs)
  then obtain cp where y: "y = Some cp" by (cases y) auto
  let ?st = "emit (ChannelPart cp x) st"
  have "base_inv nouser ?st" "getnickbynumeric ?st x = Some np" "cp \<in> on_channels nouser ?st x"
    using Cons.prems y by auto
  then obtain st1 where 1: "delnickfromchannel nouser cp x False ?st = Some st1" "base_inv nouser st1"
      "servernicks st1 = servernicks st" "serverlist st1 = serverlist st"
      "\<forall>k. on_channels nouser st1 k = (if masked k = masked x
          then on_channels nouser st k - {cp} else on_channels nouser st k)"
    using leave_one [of nouser ?st x np cp] Cons.prems(3) by auto
  have g: "getnickbynumeric st1 x = Some np" using getnick_same [of st1 st] 1(3,4) Cons.prems(2) by simp
  have "\<forall>q. Some q \<in> set xs \<longrightarrow> q \<in> on_channels nouser st1 x"
    using Cons.prems(4,6) y 1(5) by auto
  then obtain st' where "part_all nouser x xs st1 = Some st'" "base_inv nouser st'"
      "servernicks st' = servernicks st1" "serverlist st' = serverlist st1"
      "\<forall>k. on_channels nouser st' k = (if masked k = masked x
          then on_channels nouser st1 k - {cp. Some cp \<in> set xs} else on_channels nouser st1 k)"
    using Cons.IH [OF 1(2) g Cons.prems(3)] Cons.prems(4,5) by auto
  then show ?case using y 1 by auto
qed simp

lemma leave_channels_inv:
  assumes inv: "chan_inv nouser st" and np: "getnickbynumeric st x = Some np"
  obtains st' where "leave_channels nouser (masked x) st = Some st'" "chan_inv nouser st'"
    "\<And>k. on_channels nouser st' k = (if masked k = masked x then {} else on_channels nouser st k)"
proof -
  have base: "base_inv nouser st" using inv by (simp add: chan_inv_def)
  note sv = base_parts(1) [OF base]
  have num: "nk_numeric np = masked x" by (rule getnick_numeric [OF np])
  have nk: "nick_ok nouser np" using inv np by (auto simp: chan_inv_def)
  then obtain a where a: "nk_channels np = Some a" "array_ok a" "distinct (items a)" "None \<notin> set (items a)"
    by (auto simp: nick_ok_def)
  have valid: "masked (masked x) \<noteq> masked nouser" using nk num by (simp add: nick_ok_def)
  have npm: "getnickbynumeric st (masked x) = Some np" using np by (simp add: getnick_masked [OF sv])
  have own: "own_channels st k = {cp. Some cp \<in> set (items a)}" if "masked k = masked x" for k
  proof -
    have "getnickbynumeric st k = Some np" using that np getnick_masked [OF sv] by metis
    then show ?thesis by (rule own_items [OF _ a(1)])
  qed
  have "\<forall>cp. Some cp \<in> set (items a) \<longrightarrow> cp \<in> on_channels nouser st (masked x)"
    using own [of "masked x"] inv by (simp add: chan_inv_def)
  then obtain st1 where 1: "part_all nouser (masked x) (items a) st = Some st1" "base_inv nouser st1"
      "servernicks st1 = servernicks st" "serverlist st1 = serverlist st"
      "\<forall>k. on_channels nouser st1 k = (if masked k = masked (masked x)
          then on_channels nouser st k - {cp. Some cp \<in> set (items a)} else on_channels nouser st k)"
    using part_all_ok [OF base npm valid a(3,4)] by blast
  let ?np = "np\<lparr>nk_channels := Some array_init\<rparr>"
  let ?st2 = "put_nick ?np st1"
  have e: "leave_channels nouser (masked x) st = Some ?st2"
    using npm a(1) 1(1) by (simp add: leave_channels_def)
  note sv1 = base_parts(1) [OF 1(2)]
  have g1: "getnickbynumeric st1 = getnickbynumeric st" by (rule getnick_same) (use 1 in simp_all)
  have at1: "getnickbynumeric st1 x = Some np" using g1 np by simp
  have g2: "getnickbynumeric ?st2 y = (if masked y = masked x then Some ?np else getnickbynumeric st y)" for y
    using getnick_put [OF sv1 at1, of ?np y] num g1 by simp
  have items: "items (array_init :: nat carray) = []" by (simp add: items_def array_init_def)
  have on: "on_channels nouser ?st2 k = (if masked k = masked x then {} else on_channels nouser st k)" for k
    using 1(5) own [of k] inv by (auto simp: chan_inv_def)
  have own2: "own_channels ?st2 k = (if masked k = masked x then {} else own_channels st k)" for k
    by (simp add: own_channels_def g2 items)
  have "nick_ok nouser ?np" using nk by (simp add: nick_ok_def items) (simp add: array_ok_def array_init_def)
  then have "nick_ok nouser q" if "getnickbynumeric ?st2 k = Some q" for k q
    using that inv unfolding g2 by (auto simp: chan_inv_def split: if_splits)
  moreover have "on_channels nouser ?st2 k = own_channels ?st2 k" for k
    using on own2 inv by (simp add: chan_inv_def)
  ultimately have "chan_inv nouser ?st2" using 1(2) by (simp add: chan_inv_def)
  then show thesis by (rule that [OF e _ on])
qed

lemma obtain_channel_ok:
  assumes r: "obtain_channel nouser name st = Some (cp, newchan, st')"
    and inv: "chan_inv nouser st" and name: "cstring name" "length name \<le> CHANNELLEN"
  shows "\<exists>c. chan_inv nouser st' \<and> st_channels st' cp = Some c
    \<and> (newchan \<longrightarrow> user_map nouser (ch_users c) = Map.empty)
    \<and> on_channels nouser st' = on_channels nouser st"
proof (cases newchan)
  case False
  then have "findchannel name st = Some (Some cp)" "st' = st"
    using r by (auto simp: obtain_channel_def split: Option.bind_splits option.splits)
  then show ?thesis using findchannel_live [OF inv] inv False by blast
next
  case True
  then have f: "findchannel name st = Some None" "createchannel nouser name st = Some (cp, st')"
    using r by (auto simp: obtain_channel_def split: Option.bind_splits option.splits)
  obtain cp1 st1 where 1: "createchannel nouser name st = Some (cp1, st1)" "chan_inv nouser st1"
    "on_channels nouser st1 = on_channels nouser st"
    using createchannel_inv [OF inv name] by metis
  have "user_map nouser (newchanuserhash nouser 1) = Map.empty" by (simp add: new_ok)
  then show ?thesis using 1 f(2) createchannel_new(2) [OF f(2,1)] by fastforce
qed

lemma after_add_inv:
  assumes r: "after_add event cp newchan (res, st') = Some st''" and inv: "chan_inv nouser st"
    and a: "addnicktochannel nouser cp numeric st = Some (res, st')" and c: "st_channels st cp = Some c"
    and new: "newchan \<Longrightarrow> user_map nouser (ch_users c) = Map.empty"
  shows "chan_inv nouser st''"
proof -
  have inv': "chan_inv nouser st'" using addnick_inv [OF inv a] by blast
  show ?thesis
  proof (cases "res \<noteq> 0 \<and> newchan")
    case True
    show ?thesis using inv a c
    proof (cases rule: addnick_cases)
      case refused
      then have "st_channels st' cp = Some c" using c by simp
      then obtain s where "delchannel cp st' = Some s" "chan_inv nouser s"
        using delchannel_empty [OF inv'] new True by metis
      then show ?thesis using r True by (auto simp: after_add_def)
    qed (use True in simp)
  next
    case False
    then show ?thesis
      using r inv' by (auto simp: after_add_def Let_def split: if_splits Option.bind_splits)
  qed
qed

lemma stamp_ok:
  assumes "chan_inv nouser st" "st_channels st cp = Some c"
  shows "chan_inv nouser (if b then set_chan cp (c\<lparr>ch_timestamp := ts\<rparr>) st else st)"
    "\<exists>d. st_channels (if b then set_chan cp (c\<lparr>ch_timestamp := ts\<rparr>) st else st) cp = Some d
       \<and> ch_users d = ch_users c"
  using assms set_chan_inv(1) [OF assms chan_edit_other [OF chan_inv_cuh [OF assms]],
      of "c\<lparr>ch_timestamp := ts\<rparr>"] by simp_all

lemma join_one_inv:
  assumes r: "join_one nouser ts numeric name st = Some st'" and inv: "chan_inv nouser st"
    and name: "cstring name" "length name \<le> CHANNELLEN" and num: "masked numeric = numeric"
  shows "chan_inv nouser st'"
proof (cases "name = ''0''")
  case True
  then have l: "leave_channels nouser (masked numeric) st = Some st'" using r num by (simp add: join_one_def)
  then obtain np where "getnickbynumeric st numeric = Some np"
    using num by (auto simp: leave_channels_def split: Option.bind_splits)
  from leave_channels_inv [OF inv this] show ?thesis using l by auto
next
  case False
  then obtain cp newchan s c where s: "obtain_channel nouser name st = Some (cp, newchan, s)"
      "st_channels s cp = Some c"
    and rest: "(let st = (if ch_timestamp c = MAGIC_REMOTE_JOIN_TS \<and> ts \<noteq> 0
                  then set_chan cp (c\<lparr>ch_timestamp := ts\<rparr>) s else s) in do {
        r \<leftarrow> addnicktochannel nouser cp numeric st;
        after_add (ChannelJoin cp numeric) cp newchan r }) = Some st'"
    using r by (auto simp: join_one_def split: Option.bind_splits)
  have c': "chan_inv nouser s" "newchan \<Longrightarrow> user_map nouser (ch_users c) = Map.empty"
    using obtain_channel_ok [OF s(1) inv name] s(2) by auto
  let ?s = "if ch_timestamp c = MAGIC_REMOTE_JOIN_TS \<and> ts \<noteq> 0
                  then set_chan cp (c\<lparr>ch_timestamp := ts\<rparr>) s else s"
  have inv': "chan_inv nouser ?s" by (rule stamp_ok(1) [OF c'(1) s(2)])
  obtain d where d: "st_channels ?s cp = Some d" "ch_users d = ch_users c"
    using stamp_ok(2) [OF c'(1) s(2)] by blast
  obtain r s2 where a: "addnicktochannel nouser cp numeric ?s = Some (r, s2)"
      "after_add (ChannelJoin cp numeric) cp newchan (r, s2) = Some st'"
    using rest by (auto simp: Let_def split: Option.bind_splits)
  show ?thesis
    by (rule after_add_inv [OF a(2) inv' a(1) d(1)]) (use d(2) c'(2) in simp)
qed

lemma create_one_inv:
  assumes r: "create_one nouser ts numeric name st = Some st'" and inv: "chan_inv nouser st"
    and name: "cstring name" "length name \<le> CHANNELLEN"
  shows "chan_inv nouser st'"
proof -
  obtain cp newchan s c where s: "obtain_channel nouser name st = Some (cp, newchan, s)"
      "st_channels s cp = Some c"
    and rest: "(let st = (if newchan \<or> (ch_timestamp c = MAGIC_REMOTE_JOIN_TS \<and> ts \<noteq> 0)
                  then set_chan cp (c\<lparr>ch_timestamp := ts\<rparr>) s else s) in do {
        r \<leftarrow> addnicktochannel nouser cp (numeric OR CUMODE_OP) st;
        after_add (ChannelCreate cp numeric) cp newchan r }) = Some st'"
    using r by (auto simp: create_one_def split: Option.bind_splits)
  have c': "chan_inv nouser s" "newchan \<Longrightarrow> user_map nouser (ch_users c) = Map.empty"
    using obtain_channel_ok [OF s(1) inv name] s(2) by auto
  let ?s = "if newchan \<or> (ch_timestamp c = MAGIC_REMOTE_JOIN_TS \<and> ts \<noteq> 0)
                  then set_chan cp (c\<lparr>ch_timestamp := ts\<rparr>) s else s"
  have inv': "chan_inv nouser ?s" by (rule stamp_ok(1) [OF c'(1) s(2)])
  obtain d where d: "st_channels ?s cp = Some d" "ch_users d = ch_users c"
    using stamp_ok(2) [OF c'(1) s(2)] by blast
  obtain r s2 where a: "addnicktochannel nouser cp (numeric OR CUMODE_OP) ?s = Some (r, s2)"
      "after_add (ChannelCreate cp numeric) cp newchan (r, s2) = Some st'"
    using rest by (auto simp: Let_def split: Option.bind_splits)
  show ?thesis
    by (rule after_add_inv [OF a(2) inv' a(1) d(1)]) (use d(2) c'(2) in simp)
qed

lemma part_one_inv:
  assumes r: "part_one nouser numeric name st = Some st'" and inv: "chan_inv nouser st"
  shows "chan_inv nouser st'"
proof -
  have "st' = st \<or> (\<exists>cp. st_channels st cp \<noteq> None
    \<and> delnickfromchannel nouser cp numeric True (emit (ChannelPart cp numeric) st) = Some st')"
    using r by (auto simp: part_one_def split: Option.bind_splits option.splits if_splits)
  then show ?thesis
  proof (elim disjE exE conjE)
    fix cp assume cp: "st_channels st cp \<noteq> None"
      "delnickfromchannel nouser cp numeric True (emit (ChannelPart cp numeric) st) = Some st'"
    have "chan_inv nouser (emit (ChannelPart cp numeric) st)"
      "st_channels (emit (ChannelPart cp numeric) st) cp \<noteq> None" using inv cp(1) by simp_all
    from delnick_inv [OF this, of numeric] show ?thesis using cp(2) by auto
  qed (use inv in simp)
qed

lemma each_name_inv:
  assumes "each_name f names st = Some st'" "chan_inv nouser st"
    "\<And>name s s'. name \<in> set names \<Longrightarrow> f name s = Some s' \<Longrightarrow> chan_inv nouser s \<Longrightarrow> chan_inv nouser s'"
  shows "chan_inv nouser st'"
  using assms by (induction f names st rule: each_name.induct) (auto split: Option.bind_splits)

text \<open>The names a message may hold: NUL-terminated, each piece between commas not too long.\<close>

definition names_ok :: "string \<Rightarrow> bool" where
  "names_ok s \<longleftrightarrow> (\<forall>name \<in> set (comma_names s). cstring name \<and> length name \<le> CHANNELLEN)"

lemma getnickbynumericstr_Some:
  "getnickbynumericstr st s = Some (Some np) \<Longrightarrow> \<exists>n. getnickbynumeric st n = Some np"
  by (auto simp: getnickbynumericstr_def split: Option.bind_splits)

lemma handlejoin_inv:
  assumes r: "handlejoinmsg env source cargv st = Some st'" and inv: "chan_inv (env_nouser env) st"
    and names: "cargv \<noteq> [] \<Longrightarrow> names_ok (cargv ! 0)"
  shows "chan_inv (env_nouser env) st'"
proof -
  have "chan_inv (env_nouser env) s"
    if a: "each_name (join_one (env_nouser env) ts (nk_numeric np)) (comma_names (cargv ! 0)) st = Some s"
      "getnickbynumericstr st source = Some (Some np)" "cargv \<noteq> []" for s ts np
  proof -
    obtain n where "getnickbynumeric st n = Some np" using getnickbynumericstr_Some [OF a(2)] by blast
    then have "masked (nk_numeric np) = nk_numeric np" using getnick_numeric by fastforce
    then show ?thesis
      by (intro each_name_inv [OF a(1) inv]) (use names [OF a(3)] join_one_inv in \<open>auto simp: names_ok_def\<close>)
  qed
  then show ?thesis
    using r inv by (auto simp: handlejoinmsg_def Let_def split: if_splits Option.bind_splits option.splits)
qed

lemma handlecreate_inv:
  assumes r: "handlecreatemsg env source cargv st = Some st'" and inv: "chan_inv (env_nouser env) st"
    and names: "cargv \<noteq> [] \<Longrightarrow> names_ok (cargv ! 0)"
  shows "chan_inv (env_nouser env) st'"
proof -
  have "chan_inv (env_nouser env) s"
    if a: "each_name (create_one (env_nouser env) ts numeric) (comma_names (cargv ! 0)) st = Some s"
      "\<not> length cargv < 2" for s ts numeric
  proof -
    have "cargv \<noteq> []" using a(2) by auto
    then show ?thesis
      by (intro each_name_inv [OF a(1) inv]) (use names create_one_inv in \<open>auto simp: names_ok_def\<close>)
  qed
  then show ?thesis
    using r inv by (auto simp: handlecreatemsg_def Let_def split: if_splits Option.bind_splits option.splits)
qed

lemma handlepart_inv:
  assumes r: "handlepartmsg env source cargv st = Some st'" and inv: "chan_inv (env_nouser env) st"
  shows "chan_inv (env_nouser env) st'"
proof -
  have "chan_inv (env_nouser env) s"
    if a: "each_name (part_one (env_nouser env) numeric) (comma_names (cargv ! 0)) st = Some s" for s numeric
    by (rule each_name_inv [OF a inv part_one_inv])
  then show ?thesis
    using r inv by (auto simp: handlepartmsg_def split: if_splits Option.bind_splits option.splits)
qed

section \<open>Kick and topic\<close>

lemma handlekick_inv:
  assumes r: "handlekickmsg env source cargv st = Some st'" and inv: "chan_inv (env_nouser env) st"
  shows "chan_inv (env_nouser env) st'"
proof -
  have "chan_inv (env_nouser env) s2"
    if a: "delnickfromchannel (env_nouser env) cp numeric True (emit e s) = Some s2"
      "st_channels st cp = Some c" "s = (if b then emit e' st else st)" for cp numeric e s s2 c e' b
  proof -
    have "chan_inv (env_nouser env) (emit e s)" "st_channels (emit e s) cp \<noteq> None"
      using inv a(2,3) by simp_all
    from delnick_inv [OF this, of numeric] show ?thesis using a(1) by auto
  qed
  note other = this [OF _ _ refl]
  show ?thesis
    using r inv unfolding handlekickmsg_def Let_def
    by (simp split: if_split_asm Option.bind_split_asm option.split_asm add: other)
qed

lemma handletopic_inv:
  assumes r: "handletopicmsg env source cargv st = Some st'" and inv: "chan_inv (env_nouser env) st"
  shows "chan_inv (env_nouser env) st'"
proof -
  have other: "chan_inv (env_nouser env) (emit e (set_chan cp c' st))"
    if c: "st_channels st cp = Some c" "ch_users c' = ch_users c" "ch_index c' = ch_index c" for cp c c' e
    using set_chan_inv(1) [OF inv c(1) chan_edit_other [OF chan_inv_cuh [OF inv c(1)] c(3,2)]] by simp
  show ?thesis
    using r inv unfolding handletopicmsg_def Let_def
    by (auto intro!: other split: if_splits Option.bind_splits option.splits)
qed

section \<open>Mode changes\<close>

lemma masked_take: "masked x = take_bit 30 x"
  by (simp add: masked_mod take_bit_eq_mod)

lemma mode_bit_masked: "masked (mode_bit m) = 0" "mode_bit m < 2 ^ 32"
  by (simp_all add: mode_bit_def masked_mod CUMODE_OP_def CUMODE_VOICE_def)

lemma masked_set: "masked m = 0 \<Longrightarrow> masked (w OR m) = masked w"
  by (simp add: masked_take take_bit_or)

lemma masked_strip: "masked m = 0 \<Longrightarrow> 30 \<le> n \<Longrightarrow> masked (w AND (mask n XOR m)) = masked w"
  by (simp add: masked_take take_bit_and take_bit_xor take_bit_of_mask min_def)
    (simp add: take_bit_eq_mask ac_simps)

lemma look_slot:
  assumes ok: "cuh_ok nouser t" and l: "getnumerichandlefromchanhash t x = Some (Some lp)"
  shows "lp < hashsize t" "masked (ucontent t ! lp) = masked x"
proof -
  have pos: "0 < hashsize t" using ok by (simp add: cuh_ok_def)
  have "find (\<lambda>j. masked (ucontent t ! j) = masked x) (probes (hashsize t) x) = Some lp"
    using l getnumeric_find [OF pos, of x] by simp
  from find_Some_nth [OF this] show "lp < hashsize t" "masked (ucontent t ! lp) = masked x"
    using probes_less [OF pos] by auto
qed

lemma mode_user_inv:
  assumes r: "mode_user cp m dir user st = Some st'" and inv: "chan_inv nouser st"
  shows "chan_inv nouser st'"
proof -
  obtain c n found where c: "st_channels st cp = Some c" "numerictolong user 5 = Some n"
      "getnumerichandlefromchanhash (ch_users c) (nat n) = Some found"
    using r by (auto simp: mode_user_def split: Option.bind_splits)
  note ok = chan_inv_cuh [OF inv c(1)]
  show ?thesis
  proof (cases found)
    case None
    then show ?thesis using r c inv by (auto simp: mode_user_def)
  next
    case (Some lp)
    let ?t = "ch_users c" and ?w = "ucontent (ch_users c) ! lp"
    let ?w' = "if dir then ?w OR mode_bit m else ?w AND (mask 32 XOR mode_bit m)"
    note at = look_slot [OF ok, of "nat n" lp]
    show ?thesis
    proof (cases "getnickbynumeric st ?w")
      case None
      then show ?thesis using r c Some inv by (auto simp: mode_user_def Let_def)
    next
      case (Some target)
      have "masked ?w \<noteq> masked nouser"
        using Some inv getnick_numeric [OF Some] by (auto simp: chan_inv_def nick_ok_def)
      then have "same_users nouser ?t (?t\<lparr>ucontent := (ucontent ?t)[lp := ?w']\<rparr>)"
        using at c(3) \<open>found = Some lp\<close> mode_bit_masked
        by (intro same_users_write [OF ok]) (auto simp: masked_set masked_strip)
      then have "chan_edit nouser c (c\<lparr>ch_users := ?t\<lparr>ucontent := (ucontent ?t)[lp := ?w']\<rparr>\<rparr>)"
        by (simp add: chan_edit_def)
      from set_chan_inv(1) [OF inv c(1) this] show ?thesis
        using r c \<open>found = Some lp\<close> Some by (auto simp: mode_user_def Let_def)
    qed
  qed
qed

lemma mode_char_inv:
  assumes r: "mode_char env cargv cp m (dir, arg, changes, st) = Some (dir', arg', changes', st')"
    and inv: "chan_inv (env_nouser env) st"
  shows "chan_inv (env_nouser env) st'"
proof -
  obtain c where c: "st_channels st cp = Some c"
    using r by (auto simp: mode_char_def split: Option.bind_splits)
  have other: "chan_inv (env_nouser env) (set_chan cp c' st)"
    if "ch_users c' = ch_users c" "ch_index c' = ch_index c" for c'
    by (rule set_chan_inv(1) [OF inv c chan_edit_other [OF chan_inv_cuh [OF inv c]]]) (use that in simp_all)
  consider (sign) "m = CHR ''+'' \<or> m = CHR ''-''"
    | (simple) b clears where "m \<noteq> CHR ''+''" "m \<noteq> CHR ''-''" "simple_mode m = Some (b, clears)"
    | (par) "m \<noteq> CHR ''+''" "m \<noteq> CHR ''-''" "simple_mode m = None" by fastforce
  then show ?thesis
  proof cases
    case sign
    then show ?thesis using r inv by (auto simp: mode_char_def c split: if_splits)
  next
    case simple
    then have "\<exists>f. st' = set_chan cp (c\<lparr>ch_flags := f\<rparr>) st" using r by (auto simp: mode_char_def c Let_def)
    then show ?thesis using other by auto
  next
    case par
    have r': "mode_par env cargv cp m dir arg changes c st = Some (dir', arg', changes', st')"
      using r par by (simp add: mode_char_def c)
    show ?thesis
    proof (cases "m = CHR ''o'' \<or> m = CHR ''v''")
      case True
      then show ?thesis using r' inv mode_user_inv
        by (auto simp: mode_par_def Let_def split: if_split_asm Option.bind_split_asm)
    next
      case False
      then show ?thesis
        using r' inv other unfolding mode_par_def Let_def
        by (cases "m = CHR ''l''"; cases "m = CHR ''k''"; cases "m = CHR ''b''")
          (auto split: if_split_asm Option.bind_split_asm)
    qed
  qed
qed

lemma mode_chars_inv:
  "mode_chars env cargv cp ms (dir, arg, changes, st) = Some (dir', arg', changes', st') \<Longrightarrow>
   chan_inv (env_nouser env) st \<Longrightarrow> chan_inv (env_nouser env) st'"
proof (induction ms arbitrary: dir arg changes st)
  case (Cons m ms)
  then obtain s where "mode_char env cargv cp m (dir, arg, changes, st) = Some s"
    "mode_chars env cargv cp ms s = Some (dir', arg', changes', st')"
    by (auto split: Option.bind_splits)
  then show ?case using Cons mode_char_inv by (cases s) blast
qed simp

lemma handlemode_inv:
  assumes r: "handlemodemsg env source cargv st = Some st'" and inv: "chan_inv (env_nouser env) st"
  shows "chan_inv (env_nouser env) st'"
proof -
  have "chan_inv (env_nouser env) s2"
    if "mode_chars env cargv cp ms (True, 2, 0, st) = Some (dir, arg, changes, s2)"
    for cp ms dir arg changes s2
    by (rule mode_chars_inv [OF that inv])
  then show ?thesis
    using r inv unfolding handlemodemsg_def
    by (auto split: if_split_asm Option.bind_split_asm option.split_asm prod.split_asm)
qed

text \<open>What \<open>CLEARMODE\<close> makes of a word.\<close>

definition cleared :: "nat \<Rightarrow> nat \<Rightarrow> nat \<Rightarrow> nat" where
  "cleared nouser um w = (if w \<noteq> nouser \<and> w AND um \<noteq> 0 then w AND (mask 64 XOR um) else w)"

lemma fold_emit_simps [simp]:
  "getnickbynumeric (fold emit es st) = getnickbynumeric st"
  "chan_inv nouser (fold emit es st) = chan_inv nouser st"
  "st_channels (fold emit es st) = st_channels st"
  by (induction es arbitrary: st) simp_all

lemma clear_hooks_emit: "\<exists>es. clear_hooks um cp w target st = fold emit es st"
proof -
  let ?a = "w AND um AND CUMODE_OP \<noteq> 0" and ?b = "w AND um AND CUMODE_VOICE \<noteq> 0"
  have "clear_hooks um cp w target st
    = fold emit ((if ?a then [ChannelDeopped cp (nk_numeric target)] else [])
        @ (if ?b then [ChannelDevoiced cp (nk_numeric target)] else [])) st"
    by (simp add: clear_hooks_def Let_def)
  then show ?thesis by blast
qed

lemma clear_users_ok:
  assumes "clear_users nouser um cp i c st = (c', st')" "cuh_ok nouser (ch_users c)" "masked um = 0"
    "\<And>j. i \<le> j \<Longrightarrow> j < hashsize (ch_users c) \<Longrightarrow> ucontent (ch_users c) ! j \<noteq> nouser \<Longrightarrow>
       getnickbynumeric st (ucontent (ch_users c) ! j) \<noteq> None"
  shows "\<exists>t es. c' = c\<lparr>ch_users := t\<rparr> \<and> st' = fold emit es st \<and> same_users nouser (ch_users c) t
    \<and> (\<forall>j < hashsize t. ucontent t ! j =
         (if i \<le> j then cleared nouser um (ucontent (ch_users c) ! j) else ucontent (ch_users c) ! j))"
  using assms
proof (induction nouser um cp i c st rule: clear_users.induct)
  case (1 nouser um cp i c st)
  let ?t = "ch_users c" and ?w = "ucontent (ch_users c) ! i"
  have len: "hashsize ?t \<le> length (ucontent ?t)" using "1.prems"(2) by (simp add: cuh_ok_def)
  show ?case
  proof (cases "i \<ge> hashsize ?t")
    case True
    then have "c' = c\<lparr>ch_users := ?t\<rparr>" "st' = fold emit [] st"
      using "1.prems"(1) by (simp_all add: clear_users.simps [of _ _ _ i] Let_def)
    then show ?thesis using True same_users_refl [OF len] by (intro exI [of _ ?t] exI [of _ "[]"]) auto
  next
    case False
    show ?thesis
    proof (cases "?w \<noteq> nouser \<and> ?w AND um \<noteq> 0")
      case w: True
      then obtain target where tg: "getnickbynumeric st ?w = Some target"
        using "1.prems"(4) [of i] False by auto
      let ?st = "clear_hooks um cp ?w target st"
      obtain es1 where st: "?st = fold emit es1 st" using clear_hooks_emit by blast
      let ?t1 = "?t\<lparr>ucontent := (ucontent ?t)[i := ?w AND (mask 64 XOR um)]\<rparr>"
      have eq: "clear_users nouser um cp (i + 1) (c\<lparr>ch_users := ?t1\<rparr>) ?st = (c', st')"
        using "1.prems"(1) False w tg by (simp add: clear_users.simps [of _ _ _ i] Let_def)
      have same: "same_users nouser ?t ?t1"
        by (rule same_users_write [OF "1.prems"(2)]) (use False w masked_strip "1.prems"(3) in auto)
      have g: "getnickbynumeric ?st = getnickbynumeric st" unfolding st by simp
      have "\<exists>t es. c' = c\<lparr>ch_users := t\<rparr> \<and> st' = fold emit es ?st \<and> same_users nouser ?t1 t
        \<and> (\<forall>j < hashsize t. ucontent t ! j =
             (if i + 1 \<le> j then cleared nouser um (ucontent ?t1 ! j) else ucontent ?t1 ! j))"
      proof -
        have nx: "getnickbynumeric ?st (ucontent ?t1 ! j) \<noteq> None"
          if "i + 1 \<le> j" "j < hashsize ?t1" "ucontent ?t1 ! j \<noteq> nouser" for j
          using that "1.prems"(4) [of j] unfolding g by simp
        from "1.IH"(2) [OF refl False refl w tg refl refl] show ?thesis
          using eq same_users_ok(1) [OF "1.prems"(2) same] "1.prems"(3) nx by (simp cong: if_cong)
      qed
      then obtain t es where t: "c' = c\<lparr>ch_users := t\<rparr>" "st' = fold emit es ?st" "same_users nouser ?t1 t"
        "\<forall>j < hashsize t. ucontent t ! j =
             (if i + 1 \<le> j then cleared nouser um (ucontent ?t1 ! j) else ucontent ?t1 ! j)" by blast
      have "st' = fold emit (es1 @ es) st" using t(2) st by simp
      moreover have "ucontent t ! j = (if i \<le> j then cleared nouser um (ucontent ?t ! j) else ucontent ?t ! j)"
        if "j < hashsize t" for j
        using that t(4) w False len by (cases "j = i") (auto simp: cleared_def nth_list_update)
      ultimately show ?thesis using t(1) same_users_trans [OF same t(3)] by blast
    next
      case w: False
      have eq: "clear_users nouser um cp (i + 1) c st = (c', st')"
        using "1.prems"(1) False w by (auto simp: clear_users.simps [of _ _ _ i] Let_def)
      have "\<exists>t es. c' = c\<lparr>ch_users := t\<rparr> \<and> st' = fold emit es st \<and> same_users nouser ?t t
        \<and> (\<forall>j < hashsize t. ucontent t ! j =
             (if i + 1 \<le> j then cleared nouser um (ucontent ?t ! j) else ucontent ?t ! j))"
        using "1.IH"(3) [OF refl False refl w eq "1.prems"(2,3)] "1.prems"(4) by simp
      then obtain t es where t: "c' = c\<lparr>ch_users := t\<rparr>" "st' = fold emit es st" "same_users nouser ?t t"
        "\<forall>j < hashsize t. ucontent t ! j =
             (if i + 1 \<le> j then cleared nouser um (ucontent ?t ! j) else ucontent ?t ! j)" by blast
      have "ucontent t ! j = (if i \<le> j then cleared nouser um (ucontent ?t ! j) else ucontent ?t ! j)"
        if "j < hashsize t" for j
        using that t(4) w by (cases "j = i") (auto simp: cleared_def)
      then show ?thesis using t(1-3) by blast
    qed
  qed
qed

text \<open>The bits that a mode string clears on the users.\<close>

definition clear_mask :: "string \<Rightarrow> nat" where
  "clear_mask s = (if CHR ''o'' \<in> set s then CUMODE_OP else 0) OR (if CHR ''v'' \<in> set s then CUMODE_VOICE else 0)"

lemma clear_char_keeps:
  assumes "clear_char m (um, changes, c) = (um', changes', c')"
  shows "ch_users c' = ch_users c" "ch_index c' = ch_index c"
    "um' = um OR clear_mask [m]"
  using assms
  by (auto simp: clear_char_def clear_mask_def split: if_splits option.splits)

lemma clear_mask_Cons: "clear_mask (m # s) = clear_mask [m] OR clear_mask s"
proof -
  have 1: "CHR ''o'' \<noteq> CHR ''v''" by simp
  have idem: "x OR (x OR y) = x OR y" "x OR (y OR x) = x OR y" for x y :: nat
    by (simp_all add: or.assoc [symmetric]) (simp add: ac_simps)
  show ?thesis using 1 by (auto simp: clear_mask_def ac_simps idem)
qed

lemma clear_chars_keep:
  "fold clear_char s (um, changes, c) = (um', changes', c') \<Longrightarrow>
   ch_users c' = ch_users c \<and> ch_index c' = ch_index c \<and> um' = um OR clear_mask s"
proof (induction s arbitrary: um changes c)
  case Nil
  then show ?case by (auto simp: clear_mask_def)
next
  case (Cons m s)
  obtain um1 changes1 c1 where 1: "clear_char m (um, changes, c) = (um1, changes1, c1)"
    by (metis prod_cases3)
  have "ch_users c' = ch_users c1 \<and> ch_index c' = ch_index c1 \<and> um' = um1 OR clear_mask s"
    using Cons.prems 1 by (intro Cons.IH) simp
  then show ?case
    using clear_char_keeps [OF 1] clear_mask_Cons [of m s] by (simp add: or.assoc)
qed

lemma mode_powers: "CUMODE_OP = 2 ^ 31" "CUMODE_VOICE = 2 ^ 30"
  by (simp_all add: CUMODE_OP_def CUMODE_VOICE_def)

lemma mode_bits: "bit CUMODE_OP n \<longleftrightarrow> n = 31" "bit CUMODE_VOICE n \<longleftrightarrow> n = 30"
  unfolding mode_powers bit_exp_iff by auto

lemma clear_mask_bits:
  "bit (clear_mask s) n \<longleftrightarrow> n = 31 \<and> CHR ''o'' \<in> set s \<or> n = 30 \<and> CHR ''v'' \<in> set s"
  by (auto simp: clear_mask_def bit_or_iff mode_bits)

lemma op_voice_bits: "w AND CUMODE_OP = 0 \<longleftrightarrow> \<not> bit w 31" "w AND CUMODE_VOICE = 0 \<longleftrightarrow> \<not> bit w 30"
  unfolding mode_powers and_exp_eq_0_iff_not_bit by (rule refl)+

lemma masked_no_modes: "masked w = w \<Longrightarrow> w AND CUMODE_OP = 0 \<and> w AND CUMODE_VOICE = 0"
  by (metis masked_take bit_take_bit_iff op_voice_bits less_irrefl numeral_less_iff semiring_norm(78) semiring_norm(81))

lemma clear_mask_masked: "masked (clear_mask s) = 0"
  by (rule bit_eqI) (auto simp: masked_take bit_take_bit_iff clear_mask_bits)

lemma cleared_bits:
  assumes "w \<noteq> nouser" "n < 64"
  shows "bit (cleared nouser um w) n \<longleftrightarrow> bit w n \<and> \<not> bit um n"
proof (cases "w AND um = 0")
  case True
  have "\<not> (bit w n \<and> bit um n)" using arg_cong [OF True, of "\<lambda>x. bit x n"] by (simp add: bit_and_iff)
  then show ?thesis using True by (auto simp: cleared_def bit_and_iff)
next
  case False
  then show ?thesis using assms by (auto simp: cleared_def bit_and_iff bit_xor_iff bit_mask_iff)
qed

text \<open>A table whose words have been cleared.\<close>

lemma cleared_user_map:
  assumes ok: "cuh_ok nouser t" and same: "same_users nouser t t'"
    and w: "\<forall>j < hashsize t'. ucontent t' ! j = cleared nouser um (ucontent t ! j)"
  shows "user_map nouser t' k = map_option (cleared nouser um) (user_map nouser t k)"
proof -
  note ok' = same_users_ok [OF ok same]
  have len: "hashsize t \<le> length (ucontent t)" "hashsize t' \<le> length (ucontent t')" "hashsize t' = hashsize t"
    using ok ok'(1) same by (simp_all add: cuh_ok_def same_users_def)
  have "user_map nouser t' k = Some (cleared nouser um x)" if x: "user_map nouser t k = Some x" for x
  proof -
    have "x \<in> set (users nouser t)" "masked x = k" using x by (simp_all add: user_map_Some [OF ok])
    then obtain i where i: "i < hashsize t" "ucontent t ! i = x" "x \<noteq> nouser" by (auto simp: in_users [OF len(1)])
    have s: "same_user nouser (ucontent t ! i) (ucontent t' ! i)" using same i(1) by (simp add: same_users_def)
    have at: "ucontent t' ! i = cleared nouser um x" using w i len(3) by simp
    have "cleared nouser um x \<noteq> nouser" "masked (cleared nouser um x) = k"
      using s i \<open>masked x = k\<close> unfolding at by (auto simp: same_user_def)
    then show ?thesis using i(1) at len(3) by (auto simp: user_map_Some [OF ok'(1)] in_users [OF len(2)])
  qed
  then show ?thesis using ok'(2) [of k] by (cases "user_map nouser t k") auto
qed

lemma users_live:
  assumes inv: "chan_inv nouser st" and c: "st_channels st cp = Some c"
    and j: "j < hashsize (ch_users c)" "ucontent (ch_users c) ! j \<noteq> nouser"
  shows "getnickbynumeric st (ucontent (ch_users c) ! j) \<noteq> None"
proof -
  let ?w = "ucontent (ch_users c) ! j"
  note ok = chan_inv_cuh [OF inv c]
  have "hashsize (ch_users c) \<le> length (ucontent (ch_users c))" using ok by (simp add: cuh_ok_def)
  then have "user_map nouser (ch_users c) (masked ?w) = Some ?w"
    using j by (auto simp: user_map_Some [OF ok] in_users)
  then have "cp \<in> on_channels nouser st ?w" using c by (auto simp: on_channels_def)
  then show ?thesis using inv by (auto simp: chan_inv_def own_channels_def)
qed

lemma handleclear_ok:
  assumes inv: "chan_inv (env_nouser env) st" and args: "2 \<le> length cargv"
    and f: "findchannel (cargv ! 0) st = Some (Some cp)" and c: "st_channels st cp = Some c"
    and src: "mode_source st source \<noteq> None"
  shows "\<exists>st' c'. handleclearmodemsg env source cargv st = Some st' \<and> chan_inv (env_nouser env) st'
    \<and> on_channels (env_nouser env) st' = on_channels (env_nouser env) st
    \<and> st_channels st' = (st_channels st)(cp \<mapsto> c')
    \<and> (\<forall>k. user_map (env_nouser env) (ch_users c') k
         = map_option (cleared (env_nouser env) (clear_mask (cargv ! 1))) (user_map (env_nouser env) (ch_users c) k))"
proof -
  let ?n = "env_nouser env"
  note ok = chan_inv_cuh [OF inv c]
  have len: "hashsize (ch_users c) \<le> length (ucontent (ch_users c))" using ok by (simp add: cuh_ok_def)
  obtain um changes c1 where 1: "fold clear_char (cargv ! 1) (0, 0, c) = (um, changes, c1)" by (metis prod_cases3)
  have keep: "ch_users c1 = ch_users c" "ch_index c1 = ch_index c" "um = clear_mask (cargv ! 1)"
    using clear_chars_keep [OF 1] by simp_all
  obtain c2 st2 where 2: "(if um \<noteq> 0 then clear_users ?n um cp 0 c1 st else (c1, st)) = (c2, st2)" by fastforce
  have "\<exists>t es. c2 = c1\<lparr>ch_users := t\<rparr> \<and> st2 = fold emit es st \<and> same_users ?n (ch_users c) t
      \<and> (\<forall>j < hashsize t. ucontent t ! j = cleared ?n um (ucontent (ch_users c) ! j))"
  proof (cases "um = 0")
    case True
    then have "c2 = c1\<lparr>ch_users := ch_users c\<rparr>" "st2 = fold emit [] st" using 2 keep(1) by simp_all
    then show ?thesis using same_users_refl [OF len] True
      by (intro exI [of _ "ch_users c"] exI [of _ "[]"]) (auto simp: cleared_def)
  next
    case False
    then have "clear_users ?n um cp 0 c1 st = (c2, st2)" using 2 by simp
    from clear_users_ok [OF this] show ?thesis
      using ok keep clear_mask_masked users_live [OF inv c] by simp
  qed
  then obtain t es where t: "c2 = c1\<lparr>ch_users := t\<rparr>" "st2 = fold emit es st" "same_users ?n (ch_users c) t"
      "\<forall>j < hashsize t. ucontent t ! j = cleared ?n um (ucontent (ch_users c) ! j)" by blast
  let ?st' = "emit (ChannelModeChange cp changes (ch_flags c)) (set_chan cp c2 st2)"
  have e: "handleclearmodemsg env source cargv st = Some ?st'"
    using args f c src 1 2 by (auto simp: handleclearmodemsg_def Let_def)
  have inv2: "chan_inv ?n st2" "st_channels st2 cp = Some c" using inv c t(2) by simp_all
  have "chan_edit ?n c c2" using t(1,3) keep by (simp add: chan_edit_def)
  note set = set_chan_inv [OF inv2 this]
  have "on_channels ?n st2 = on_channels ?n st" unfolding t(2) by (induction es arbitrary: st) simp_all
  then show ?thesis
    using e set cleared_user_map [OF ok t(3,4)] t(1,2) keep(3)
    by (intro exI [of _ ?st'] exI [of _ c2]) simp
qed

lemma handleclear_inv:
  assumes r: "handleclearmodemsg env source cargv st = Some st'" and inv: "chan_inv (env_nouser env) st"
  shows "chan_inv (env_nouser env) st'"
proof (cases "length cargv < 2 \<or> findchannel (cargv ! 0) st = Some None")
  case True
  then show ?thesis using r inv by (simp add: handleclearmodemsg_def split: if_splits)
next
  case False
  then obtain cp where cp: "findchannel (cargv ! 0) st = Some (Some cp)"
    using r by (auto simp: handleclearmodemsg_def split: Option.bind_splits)
  then obtain c where "st_channels st cp = Some c" using findchannel_live [OF inv] by blast
  moreover have "mode_source st source \<noteq> None"
    using r False cp by (auto simp: handleclearmodemsg_def split: Option.bind_splits)
  ultimately show ?thesis using handleclear_ok [OF inv _ cp] r False by force
qed

section \<open>All messages\<close>

definition message_ok :: "string \<Rightarrow> string list \<Rightarrow> bool" where
  "message_ok command cargv \<longleftrightarrow> (cargv = []
     \<or> (if command = ''J'' \<or> command = ''C'' then names_ok (cargv ! 0)
        else cstring (cargv ! 0) \<and> length (cargv ! 0) \<le> CHANNELLEN))"

lemma channel_handler_inv:
  assumes r: "channel_handler env command source cargv st = Some st'"
    and inv: "chan_inv (env_nouser env) st" and ok: "message_ok command cargv"
  shows "chan_inv (env_nouser env) st'"
proof -
  have burst: "chan_inv (env_nouser env) st'" if b: "handleburstmsg env cargv st = Some st'" "command = ''B''"
  proof (cases "2 \<le> length cargv")
    case True
    then have "cstring (cargv ! 0) \<and> length (cargv ! 0) \<le> CHANNELLEN"
      using ok b(2) by (auto simp: message_ok_def)
    then show ?thesis using handleburst_ok [OF b(1) inv] True by metis
  next
    case False
    then show ?thesis using b inv by (simp add: handleburstmsg_def)
  qed
  have names: "cargv \<noteq> [] \<Longrightarrow> names_ok (cargv ! 0)" if "command = ''J'' \<or> command = ''C''"
    using ok that by (auto simp: message_ok_def)
  show ?thesis
    using r inv burst handlejoin_inv [OF _ inv names] handlecreate_inv [OF _ inv names] handlepart_inv [OF _ inv]
      handlekick_inv [OF _ inv] handletopic_inv [OF _ inv] handlemode_inv [OF _ inv] handleclear_inv [OF _ inv]
    unfolding channel_handler_def by (auto split: if_split_asm)
qed

end
