(* ===== verification/ChanReach.thy ===== *)
theory ChanReach
  imports ChanMessages
begin

text \<open>
  The reachable states of the channels, as a step relation over servers, users and channels
  that come and go; what holds in all of them; and the count of the hosts on a channel.
\<close>

section \<open>Reachable states\<close>

definition init_chanst :: chanst where
  "init_chanst = \<lparr>serverlist = (\<lambda>_. \<lparr>sv_linkstate = LS_INVALID, sv_maxusernum = 0\<rparr>),
     servernicks = (\<lambda>_ _. None), st_index = init_chantab, st_hosts = init_nametab,
     st_channels = Map.empty, st_nextchan = 0, trace = []\<rparr>"

text \<open>
  What happens to the channels: servers link, with a fresh table of users, and go when it is
  empty; users appear in a free slot and are lost; channels are created; users join and part;
  a message about channels arrives and is handled.
\<close>

inductive chan_step :: "nat \<Rightarrow> chanst \<Rightarrow> chanst \<Rightarrow> bool" for nouser where
  server_linked: "sv_linkstate (serverlist st i) = LS_INVALID \<Longrightarrow> m < 2 ^ 18 \<Longrightarrow>
    chan_step nouser st (st\<lparr>serverlist := (serverlist st)(i := \<lparr>sv_linkstate = l, sv_maxusernum = m\<rparr>),
                            servernicks := (servernicks st)(i := (\<lambda>_. None))\<rparr>)"
| server_gone: "\<forall>s. servernicks st i s = None \<Longrightarrow>
    chan_step nouser st (st\<lparr>serverlist := (serverlist st)(i := \<lparr>sv_linkstate = LS_INVALID, sv_maxusernum = 0\<rparr>)\<rparr>)"
| nick_arrives: "nk_numeric np = masked x \<Longrightarrow> masked x \<noteq> masked nouser \<Longrightarrow>
    servernicks st (homeserver x) (nick_slot st x) = None \<Longrightarrow>
    sv_linkstate (serverlist st (homeserver x)) \<noteq> LS_INVALID \<Longrightarrow>
    chan_step nouser st (nick_added np st)"
| nick_quits: "getnickbynumeric st x = Some np \<Longrightarrow> nick_gone nouser np st = Some st' \<Longrightarrow>
    chan_step nouser st st'"
| channel_created: "cstring name \<Longrightarrow> length name \<le> CHANNELLEN \<Longrightarrow>
    createchannel nouser name st = Some (cp, st') \<Longrightarrow> chan_step nouser st st'"
| nick_joins: "addnicktochannel nouser cp x st = Some (res, st') \<Longrightarrow> chan_step nouser st st'"
| nick_parts: "delnickfromchannel nouser cp x True st = Some st' \<Longrightarrow> chan_step nouser st st'"
| message_handled: "env_nouser env = nouser \<Longrightarrow> message_ok command cargv \<Longrightarrow>
    channel_handler env command source cargv st = Some st' \<Longrightarrow> chan_step nouser st st'"

lemma init_chan_inv: "chan_inv nouser init_chanst"
proof -
  have "getnickbynumeric init_chanst k = None" for k
    by (simp add: getnickbynumeric_def init_chanst_def)
  then show ?thesis
    using init_chantab_ok
    by (simp add: chan_inv_def base_inv_def servers_ok_def on_channels_def own_channels_def)
      (simp add: init_chanst_def init_chantab_def)
qed

text \<open>Servers come and go without a user noticing.\<close>

lemma server_inv:
  assumes inv: "chan_inv nouser st" and st': "st' = st\<lparr>serverlist := sl, servernicks := sn\<rparr>"
    and sv: "servers_ok st'" and g: "getnickbynumeric st' = getnickbynumeric st"
  shows "chan_inv nouser st'"
proof -
  have "base_inv nouser st' = base_inv nouser st"
    using inv sv by (simp add: st' base_inv_def chan_inv_def)
  moreover have "on_channels nouser st' = on_channels nouser st"
    by (simp add: st' on_channels_def fun_eq_iff)
  ultimately show ?thesis using inv by (simp add: chan_inv_def own_channels_def g)
qed

lemma chan_step_inv:
  assumes "chan_step nouser st st'" "chan_inv nouser st"
  shows "chan_inv nouser st'"
  using assms
proof cases
  case (server_linked i m l)
  have g: "getnickbynumeric st' = getnickbynumeric st"
    using server_linked(2) unfolding server_linked(1)
    by (auto simp: fun_eq_iff getnickbynumeric_def nick_slot_def split: option.split)
  show ?thesis
    by (rule server_inv [OF assms(2) _ _ g])
      (use assms(2) server_linked in \<open>auto simp: chan_inv_def base_inv_def servers_ok_def\<close>)
next
  case (server_gone i)
  have g: "getnickbynumeric st' = getnickbynumeric st"
    using server_gone(2) unfolding server_gone(1)
    by (auto simp: fun_eq_iff getnickbynumeric_def nick_slot_def split: option.split)
  show ?thesis
    by (rule server_inv [OF assms(2) _ _ g, where sn = "servernicks st"])
      (use assms(2) server_gone in \<open>auto simp: chan_inv_def base_inv_def servers_ok_def\<close>)
next
  case (nick_arrives np x)
  then show ?thesis using nick_added_inv(1) [OF assms(2)] by simp
next
  case (nick_quits x np)
  then show ?thesis using nick_gone_inv [OF assms(2) nick_quits(1)] by auto
next
  case (channel_created name cp)
  then show ?thesis using createchannel_inv [OF assms(2) channel_created(1,2)] by auto
next
  case (nick_joins cp x res)
  then show ?thesis using addnick_inv [OF assms(2)] by blast
next
  case (nick_parts cp x)
  then have "st_channels st cp \<noteq> None" by (auto simp: delnickfromchannel_def split: Option.bind_splits)
  then show ?thesis using delnick_inv [OF assms(2), of cp x] nick_parts by auto
next
  case (message_handled env command cargv source)
  then show ?thesis using channel_handler_inv assms(2) by blast
qed

lemma reachable_inv: "(chan_step nouser)\<^sup>*\<^sup>* init_chanst st \<Longrightarrow> chan_inv nouser st"
  by (induction rule: rtranclp_induct) (auto intro: init_chan_inv chan_step_inv)

lemma dom_user_map:
  assumes "base_inv nouser st" "st_channels st cp = Some c"
  shows "dom (user_map nouser (ch_users c)) = {k. k < 2 ^ 30 \<and> cp \<in> on_channels nouser st k}"
proof -
  have ok: "cuh_ok nouser (ch_users c)" by (rule base_channel(2) [OF assms])
  have "masked k = k \<and> k < 2 ^ 30" if "user_map nouser (ch_users c) k = Some x" for k x
  proof -
    have "masked x = k" using that user_map_Some [OF ok] by blast
    then show ?thesis using masked_less [of x] masked_masked [of x] by simp
  qed
  moreover have "masked k = k" if "k < 2 ^ 30" for k using that by (simp add: masked_mod)
  ultimately show ?thesis using assms(2) by (auto simp: on_channels_def dom_def)
qed

lemma addnick_returns:
  assumes inv: "chan_inv nouser st" and few: "st_channels st cp = Some c"
    "totalusers (ch_users c) < 10" "hashsize (ch_users c) \<le> 65522"
  shows "\<exists>res st'. addnicktochannel nouser cp x st = Some (res, st')
    \<and> (getnickbynumeric st x \<noteq> None \<longrightarrow> cp \<in> on_channels nouser st' x)
    \<and> (\<exists>c'. st_channels st' cp = Some c' \<and> hashsize (ch_users c') \<le> 65522)"
proof -
  have base: "base_inv nouser st" using inv by (simp add: chan_inv_def)
  note sv = base_parts(1) [OF base] and ok = base_channel(2) [OF base assms(2)]
  show ?thesis
  proof (cases "getnickbynumeric st x")
    case None
    then show ?thesis
      using assms(2,4) by (simp add: addnicktochannel_def masked_def [symmetric] getnick_masked [OF sv])
  next
    case (Some np)
    have nk: "nick_ok nouser np" using inv Some by (auto simp: chan_inv_def)
    then have valid: "masked x \<noteq> masked nouser" using getnick_numeric [OF Some] by (simp add: nick_ok_def)
    obtain a where a: "nk_channels np = Some a" using nk by (auto simp: nick_ok_def)
    from cu.look_law [OF ok valid] obtain f where
      f: "getnumerichandlefromchanhash (ch_users c) x = Some f
        \<and> (f = None \<longleftrightarrow> user_map nouser (ch_users c) (masked x) = None)" by (rule exE)
    have len: "length (users nouser (ch_users c)) < 10" using assms(3) ok by (simp add: cuh_ok_def)
    show ?thesis
    proof (cases f)
      case None
      then have "user_map nouser (ch_users c) (masked x) = None" using f by simp
      then obtain t where t: "add_loop nouser x (ch_users c) = Some t" "hashsize t \<le> 65522"
        using add_loop_returns [OF ok len assms(4) valid] by blast
      obtain i a1 where "array_getfreeslot a = (i, a1)" by fastforce
      then obtain st' where st': "addnicktochannel nouser cp x st = Some (0, st')"
          "st_channels st' cp = Some (c\<lparr>ch_users := t\<rparr>)"
        using assms(2) Some a f None t(1)
        by (simp add: addnicktochannel_def masked_def [symmetric] getnick_masked [OF sv] Let_def)
      then show ?thesis using addnick_inv [OF inv st'(1)] t(2) by auto
    next
      case (Some lp)
      then have "cp \<in> on_channels nouser st x" using f assms(2) by (auto simp: on_channels_def)
      then show ?thesis
        using assms(2,4) \<open>getnickbynumeric st x = Some np\<close> f Some
        by (simp add: addnicktochannel_def masked_def [symmetric] getnick_masked [OF sv])
    qed
  qed
qed

text \<open>
  C1: in every reachable state the user hash of a channel and the channel arrays of the users
  agree, no array holds a channel that is gone, the count of a channel is the number of users
  whose array holds it, and losing a user or parting one returns without touching freed
  memory; a lost user is on no channel.
\<close>

theorem channel_membership:
  assumes "(chan_step nouser)\<^sup>*\<^sup>* init_chanst st"
  shows "(\<forall>k. on_channels nouser st k = own_channels st k)
    \<and> (\<forall>k cp. cp \<in> own_channels st k \<longrightarrow> st_channels st cp \<noteq> None)
    \<and> (\<forall>cp c. st_channels st cp = Some c \<longrightarrow>
         totalusers (ch_users c) = card {k. k < 2 ^ 30 \<and> cp \<in> own_channels st k})
    \<and> (\<forall>x np. getnickbynumeric st x = Some np \<longrightarrow>
         (\<exists>st'. nick_gone nouser np st = Some st' \<and> on_channels nouser st' x = {}))
    \<and> (\<forall>x cp. st_channels st cp \<noteq> None \<longrightarrow>
         (\<exists>st'. delnickfromchannel nouser cp x True st = Some st' \<and> cp \<notin> on_channels nouser st' x))"
proof -
  have inv: "chan_inv nouser st" by (rule reachable_inv [OF assms])
  then have base: "base_inv nouser st" and same: "\<forall>k. on_channels nouser st k = own_channels st k"
    by (simp_all add: chan_inv_def)
  have "totalusers (ch_users c) = card {k. k < 2 ^ 30 \<and> cp \<in> own_channels st k}"
    if c: "st_channels st cp = Some c" for cp c
    using cu.total_law [OF base_channel(2) [OF base c]] dom_user_map [OF base c] same by simp
  moreover have "st_channels st cp \<noteq> None" if "cp \<in> own_channels st k" for k cp
    using that same by (auto simp: on_channels_def)
  moreover have "\<exists>st'. nick_gone nouser np st = Some st' \<and> on_channels nouser st' x = {}"
    if "getnickbynumeric st x = Some np" for x np
    by (rule nick_gone_inv [OF inv that]) auto
  moreover have "\<exists>st'. delnickfromchannel nouser cp x True st = Some st' \<and> cp \<notin> on_channels nouser st' x"
    if "st_channels st cp \<noteq> None" for x cp
    by (rule delnick_inv [OF inv that, of x]) auto
  ultimately show ?thesis using same by blast
qed

text \<open>
  C21: a user joins a channel of fewer than ten others in any reachable state: the search for a
  larger table ends, whatever the numerics, as long as the table is not above the last two
  sizes below the bound of \<open>hashsize\<close>.
\<close>

theorem join_returns:
  assumes "(chan_step nouser)\<^sup>*\<^sup>* init_chanst st" "st_channels st cp = Some c"
    "totalusers (ch_users c) < 10" "hashsize (ch_users c) \<le> 65522"
  shows "\<exists>res st'. addnicktochannel nouser cp x st = Some (res, st')
    \<and> (getnickbynumeric st x \<noteq> None \<longrightarrow> cp \<in> on_channels nouser st' x)
    \<and> (\<exists>c'. st_channels st' cp = Some c' \<and> hashsize (ch_users c') \<le> 65522)"
  by (rule addnick_returns [OF reachable_inv [OF assms(1)] assms(2-4)])

text \<open>A small network: one server, one user, one channel.\<close>

definition demo_nick :: cnick where
  "demo_nick = \<lparr>nk_nick = ''a'', nk_numeric = 262144, nk_host = 0, nk_channels = None\<rparr>"

lemma demo_reachable:
  obtains st c where "(chan_step 262143)\<^sup>*\<^sup>* init_chanst st" "st_channels st 0 = Some c"
    "totalusers (ch_users c) < 10" "hashsize (ch_users c) \<le> 65522"
    "getnickbynumeric st 262144 \<noteq> None"
    "\<And>k np. getnickbynumeric st k = Some np \<Longrightarrow> nk_host np = 0"
    "st_hosts st = init_nametab"
    "findchannel ''#a'' st = Some (Some 0)" "ch_timestamp c = MAGIC_REMOTE_JOIN_TS"
    "user_map 262143 (ch_users c) = Map.empty"
proof -
  let ?s1 = "init_chanst\<lparr>serverlist := (serverlist init_chanst)(1 := \<lparr>sv_linkstate = LS_LINKED, sv_maxusernum = 262143\<rparr>),
      servernicks := (servernicks init_chanst)(1 := (\<lambda>_. None))\<rparr>"
  have 1: "chan_step 262143 init_chanst ?s1"
    by (rule chan_step.server_linked) (simp_all add: init_chanst_def)
  have h: "homeserver 262144 = 1" by (simp add: homeserver_def)
  have m: "masked 262144 = 262144" "masked 262143 = 262143" by (simp_all add: masked_mod)
  let ?s2 = "nick_added demo_nick ?s1"
  have free: "servernicks ?s1 (homeserver 262144) (nick_slot ?s1 262144) = None"
    and link: "sv_linkstate (serverlist ?s1 (homeserver 262144)) \<noteq> LS_INVALID"
    by (simp_all add: h LS_LINKED_def LS_INVALID_def)
  have 2: "chan_step 262143 ?s1 ?s2"
    by (rule chan_step.nick_arrives [OF _ _ free link]) (simp_all add: demo_nick_def m)
  have r2: "(chan_step 262143)\<^sup>*\<^sup>* init_chanst ?s2" using 1 2 by simp
  have sv: "servers_ok ?s1"
    by (simp add: servers_ok_def init_chanst_def)
  have g2: "getnickbynumeric ?s2 k = (if masked k = 262144
      then Some (demo_nick\<lparr>nk_channels := Some (array_init\<lparr>allocchunksize := 10, freechunksize := 15\<rparr>)\<rparr>)
      else getnickbynumeric ?s1 k)" for k
    unfolding nick_added_def using getnick_new [OF sv _ free link] m by (simp add: demo_nick_def)
  have g1: "getnickbynumeric ?s1 k = None" for k
    by (simp add: getnickbynumeric_def init_chanst_def)
  have host: "nk_host np = 0" if "getnickbynumeric ?s2 k = Some np" for k np
    using that unfolding g2 g1 by (auto simp: demo_nick_def split: if_splits)
  obtain s3 c where s3: "createchannel 262143 ''#a'' ?s2 = Some (0, s3)" "st_channels s3 0 = Some c"
      "ch_users c = newchanuserhash 262143 1" "servernicks s3 = servernicks ?s2"
      "serverlist s3 = serverlist ?s2" "st_hosts s3 = st_hosts ?s2"
      "findchannel ''#a'' s3 = Some (Some 0)" "ch_timestamp c = MAGIC_REMOTE_JOIN_TS"
    by (simp add: createchannel_def findorcreatechanindex_def nick_added_def Let_def
        init_chanst_def init_chantab_def put_nick_def findchannel_def findchanindex_def
        ircd_strcmp_lower cstring_def sstr_take SSTRING_MAX_def)
  have 3: "chan_step 262143 ?s2 s3"
    by (rule chan_step.channel_created [OF _ _ s3(1)]) (simp_all add: cstring_def)
  have g3: "getnickbynumeric s3 = getnickbynumeric ?s2" by (rule getnick_same) (use s3 in simp_all)
  show thesis
  proof (rule that)
    show "(chan_step 262143)\<^sup>*\<^sup>* init_chanst s3" using r2 3 by simp
    show "nk_host np = 0" if "getnickbynumeric s3 k = Some np" for k np
      using that unfolding g3 by (rule host)
    show "st_channels s3 0 = Some c" by (rule s3(2))
    show "totalusers (ch_users c) < 10" "hashsize (ch_users c) \<le> 65522"
      unfolding s3(3) newchanuserhash_def by simp_all
    show "getnickbynumeric s3 262144 \<noteq> None" unfolding g3 g2 m by simp
    show "st_hosts s3 = init_nametab" unfolding s3(6) by (simp add: nick_added_def init_chanst_def)
    show "findchannel ''#a'' s3 = Some (Some 0)" "ch_timestamp c = MAGIC_REMOTE_JOIN_TS" by (rule s3(7,8))+
    show "user_map 262143 (ch_users c) = Map.empty" unfolding s3(3) by (simp add: new_ok)
  qed
qed

lemma channel_membership_witness:
  "\<exists>st cp. (chan_step 262143)\<^sup>*\<^sup>* init_chanst st \<and> cp \<in> own_channels st 262144
    \<and> (\<exists>st'. delnickfromchannel 262143 cp 262144 True st = Some st' \<and> cp \<notin> on_channels 262143 st' 262144)"
proof (rule demo_reachable)
  fix st c
  assume 1: "(chan_step 262143)\<^sup>*\<^sup>* init_chanst st" "st_channels st 0 = Some c"
    "totalusers (ch_users c) < 10" "hashsize (ch_users c) \<le> 65522" "getnickbynumeric st 262144 \<noteq> None"
  obtain res st' where 2: "addnicktochannel 262143 0 262144 st = Some (res, st')"
      "0 \<in> on_channels 262143 st' 262144" "st_channels st' 0 \<noteq> None"
    using addnick_returns [OF reachable_inv [OF 1(1)] 1(2-4), of 262144] 1(5) by auto
  have "(chan_step 262143)\<^sup>*\<^sup>* init_chanst st'" using 1(1) chan_step.nick_joins [OF 2(1)] by simp
  from channel_membership [OF this] this 2 show ?thesis by blast
qed

lemma join_returns_witness:
  "\<exists>st res st'. (chan_step 262143)\<^sup>*\<^sup>* init_chanst st \<and> addnicktochannel 262143 0 262144 st = Some (res, st')
     \<and> 0 \<in> on_channels 262143 st' 262144"
proof (rule demo_reachable)
  fix st c
  assume 1: "(chan_step 262143)\<^sup>*\<^sup>* init_chanst st" "st_channels st 0 = Some c"
    "totalusers (ch_users c) < 10" "hashsize (ch_users c) \<le> 65522" "getnickbynumeric st 262144 \<noteq> None"
  from join_returns [OF 1(1-4), of 262144] 1(1,5) show ?thesis by blast
qed

section \<open>Counting hosts\<close>

definition hosts_inv :: "chanst \<Rightarrow> bool" where
  "hosts_inv st \<longleftrightarrow> nametab_ok hosthash lower (st_hosts st)
     \<and> (\<forall>hp r. nt_recs (st_hosts st) hp = Some r \<longrightarrow> hr_marker r \<le> nt_marker (st_hosts st))
     \<and> (\<forall>k np. getnickbynumeric st k = Some np \<longrightarrow> nt_recs (st_hosts st) (nk_host np) \<noteq> None)"

lemma set_hosts_simps [simp]:
  "getnickbynumeric (st\<lparr>st_hosts := ht\<rparr>) = getnickbynumeric st"
  "on_channels nouser (st\<lparr>st_hosts := ht\<rparr>) = on_channels nouser st"
  "chan_inv nouser (st\<lparr>st_hosts := ht\<rparr>) = chan_inv nouser st"
proof -
  show g: "getnickbynumeric (st\<lparr>st_hosts := ht\<rparr>) = getnickbynumeric st"
    by (rule getnick_same) simp_all
  show on: "on_channels nouser (st\<lparr>st_hosts := ht\<rparr>) = on_channels nouser st"
    by (simp add: on_channels_def fun_eq_iff)
  show "chan_inv nouser (st\<lparr>st_hosts := ht\<rparr>) = chan_inv nouser st"
    by (simp add: chan_inv_def own_channels_def g on base_inv_def servers_ok_def)
qed

definition marked :: "32 word \<Rightarrow> chanst \<Rightarrow> nat set" where
  "marked m st = {hp. \<exists>r. nt_recs (st_hosts st) hp = Some r \<and> hr_marker r = m}"

definition word_hosts :: "nat \<Rightarrow> chanst \<Rightarrow> nat list \<Rightarrow> nat set" where
  "word_hosts nouser st xs =
     {nk_host np |x np. x \<in> set xs \<and> x \<noteq> nouser \<and> getnickbynumeric st x = Some np}"

lemma count_hosts_ok:
  assumes "hosts_inv st" "m = nt_marker (st_hosts st)"
    "\<forall>x \<in> set xs. x \<noteq> nouser \<longrightarrow> getnickbynumeric st x \<noteq> None"
  shows "\<exists>st'. count_hosts nouser m xs n st = Some (n + card (word_hosts nouser st xs - marked m st), st')
    \<and> hosts_inv st' \<and> getnickbynumeric st' = getnickbynumeric st"
  using assms
proof (induction xs arbitrary: n st)
  case Nil
  then show ?case by (simp add: word_hosts_def)
next
  case (Cons x xs)
  have fin: "finite (word_hosts nouser st ys)" for ys
  proof -
    have "word_hosts nouser st ys \<subseteq> (\<lambda>x. nk_host (the (getnickbynumeric st x))) ` set ys"
      by (force simp: word_hosts_def)
    then show ?thesis by (rule finite_subset) simp
  qed
  show ?case
  proof (cases "x = nouser")
    case True
    then have "word_hosts nouser st (x # xs) = word_hosts nouser st xs" by (auto simp: word_hosts_def)
    then show ?thesis using Cons True by simp
  next
    case False
    then obtain np where np: "getnickbynumeric st x = Some np" using Cons.prems(3) by auto
    have "nt_recs (st_hosts st) (nk_host np) \<noteq> None"
      using Cons.prems(1) np unfolding hosts_inv_def by blast
    then obtain r where r: "nt_recs (st_hosts st) (nk_host np) = Some r" by blast
    have hosts: "word_hosts nouser st (x # xs) = insert (nk_host np) (word_hosts nouser st xs)"
      using False np by (auto simp: word_hosts_def)
    show ?thesis
    proof (cases "hr_marker r = m")
      case True
      then have "nk_host np \<in> marked m st" using r by (simp add: marked_def)
      then have "word_hosts nouser st (x # xs) - marked m st = word_hosts nouser st xs - marked m st"
        unfolding hosts by auto
      then show ?thesis using Cons.IH [OF Cons.prems(1,2)] Cons.prems(3) False np r True by simp
    next
      case mark: False
      let ?r = "r\<lparr>hr_marker := m\<rparr>"
      let ?st = "st\<lparr>st_hosts := (st_hosts st)\<lparr>nt_recs := (nt_recs (st_hosts st))(nk_host np \<mapsto> ?r)\<rparr>\<rparr>"
      have g: "getnickbynumeric ?st = getnickbynumeric st" by (rule getnick_same) simp_all
      have tab: "nametab_ok hosthash lower (st_hosts st)" using Cons.prems(1) by (simp add: hosts_inv_def)
      have "nametab_ok hosthash lower (st_hosts ?st)"
        using host_names.update_rec(1) [OF tab r, of ?r] host_names.live_rec(3) [OF tab r] by simp
      then have inv: "hosts_inv ?st"
        using Cons.prems(1,2) unfolding hosts_inv_def g by simp
      have "marked m ?st = insert (nk_host np) (marked m st)" by (auto simp: marked_def)
      moreover have "word_hosts nouser ?st xs = word_hosts nouser st xs" by (simp add: word_hosts_def g)
      moreover have "nk_host np \<notin> marked m st" using r mark by (simp add: marked_def)
      ultimately have "word_hosts nouser st (x # xs) - marked m st
          = insert (nk_host np) (word_hosts nouser ?st xs - marked m ?st)
        \<and> nk_host np \<notin> word_hosts nouser ?st xs - marked m ?st
        \<and> finite (word_hosts nouser ?st xs - marked m ?st)"
        unfolding hosts using fin by auto
      then have "card (word_hosts nouser st (x # xs) - marked m st)
          = Suc (card (word_hosts nouser ?st xs - marked m ?st))"
        by (metis card_insert_disjoint)
      moreover obtain st' where "count_hosts nouser m xs (n + 1) ?st
            = Some (n + 1 + card (word_hosts nouser ?st xs - marked m ?st), st')"
          "hosts_inv st'" "getnickbynumeric st' = getnickbynumeric ?st"
        using Cons.IH [OF inv, of "n + 1"] Cons.prems(2,3) g by auto
      ultimately show ?thesis using False np r mark g by simp
    qed
  qed
qed

text \<open>
  C32: \<open>countuniquehosts\<close> counts the different hosts of the users of a channel, each once, also
  when the marker wraps, and leaves the host table in order for the next count.
\<close>

theorem countuniquehosts_counts:
  assumes "chan_inv nouser st" "hosts_inv st" "st_channels st cp = Some c"
  shows "\<exists>st'. countuniquehosts nouser cp st
      = Some (card {nk_host np |k np. cp \<in> on_channels nouser st k \<and> getnickbynumeric st k = Some np}, st')
    \<and> hosts_inv st'"
proof -
  obtain m ht where m: "nexthostmarker (st_hosts st) = (m, ht)" by fastforce
  have tab: "nametab_ok hosthash lower (st_hosts st)"
    and marks: "\<forall>hp r. nt_recs (st_hosts st) hp = Some r \<longrightarrow> hr_marker r \<le> nt_marker (st_hosts st)"
    using assms(2) by (simp_all add: hosts_inv_def)
  note f = host_names.marker_fresh [OF tab marks m [unfolded nexthostmarker_def]]
  let ?st = "st\<lparr>st_hosts := ht\<rparr>" and ?xs = "take (hashsize (ch_users c)) (ucontent (ch_users c))"
  have g: "getnickbynumeric ?st = getnickbynumeric st" by (rule getnick_same) simp_all
  have recs: "nt_recs ht hp \<noteq> None \<longleftrightarrow> nt_recs (st_hosts st) hp \<noteq> None" for hp
    using f by (metis option.map_disc_iff)
  have inv: "hosts_inv ?st"
    using f assms(2) recs unfolding hosts_inv_def g by (auto intro: less_imp_le)
  have "hr_marker r \<noteq> m" if "nt_recs ht hp = Some r" for hp r
    using f that by (metis less_irrefl)
  then have none: "marked m ?st = {}" by (auto simp: marked_def)
  have base: "base_inv nouser st" using assms(1) by (simp add: chan_inv_def)
  have ok: "cuh_ok nouser (ch_users c)" by (rule base_channel(2) [OF base assms(3)])
  have us: "set (users nouser (ch_users c)) = {x \<in> set ?xs. x \<noteq> nouser}" by (auto simp: users_def)
  have on: "cp \<in> on_channels nouser st x" if "x \<in> set ?xs" "x \<noteq> nouser" for x
  proof -
    have "user_map nouser (ch_users c) (masked x) = Some x"
      using that us by (auto simp: user_map_Some [OF ok])
    then show ?thesis using assms(3) by (auto simp: on_channels_def)
  qed
  have live: "getnickbynumeric st x \<noteq> None" if "x \<in> set ?xs" "x \<noteq> nouser" for x
    using on [OF that] assms(1) by (auto simp: chan_inv_def own_channels_def)
  have "word_hosts nouser ?st ?xs = {nk_host np |k np. cp \<in> on_channels nouser st k \<and> getnickbynumeric st k = Some np}"
  proof (intro equalityI subsetI)
    fix h assume "h \<in> word_hosts nouser ?st ?xs"
    then show "h \<in> {nk_host np |k np. cp \<in> on_channels nouser st k \<and> getnickbynumeric st k = Some np}"
      using on unfolding word_hosts_def g by blast
  next
    fix h assume "h \<in> {nk_host np |k np. cp \<in> on_channels nouser st k \<and> getnickbynumeric st k = Some np}"
    then obtain k np where k: "h = nk_host np" "cp \<in> on_channels nouser st k" "getnickbynumeric st k = Some np"
      by blast
    then obtain x where "user_map nouser (ch_users c) (masked k) = Some x"
      using assms(3) by (auto simp: on_channels_def)
    then have x: "x \<in> set (users nouser (ch_users c))" "masked x = masked k"
      by (simp_all add: user_map_Some [OF ok])
    then have "getnickbynumeric st x = Some np"
      using k(3) getnick_masked [OF base_parts(1) [OF base]] by metis
    then show "h \<in> word_hosts nouser ?st ?xs" using x(1) us k(1) unfolding word_hosts_def g by blast
  qed
  moreover obtain st' where "count_hosts nouser m ?xs 0 ?st
      = Some (0 + card (word_hosts nouser ?st ?xs - marked m ?st), st')" "hosts_inv st'"
    using count_hosts_ok [OF inv, of m ?xs nouser 0] f live g by auto
  ultimately show ?thesis
    using m assms(3) none by (simp add: countuniquehosts_def)
qed

lemma addnick_keeps_hosts:
  assumes sv: "servers_ok st" and r: "addnicktochannel nouser cp x st = Some (res, st')"
    and k: "getnickbynumeric st' k = Some np"
  shows "\<exists>np0. getnickbynumeric st k = Some np0 \<and> nk_host np0 = nk_host np"
proof (cases "getnickbynumeric st x")
  case None
  then have "getnickbynumeric st' = getnickbynumeric st"
    using r by (auto simp: addnicktochannel_def masked_def [symmetric] getnick_masked [OF sv]
        split: Option.bind_splits)
  then show ?thesis using k by auto
next
  case (Some np1)
  have num: "nk_numeric np1 = masked x" by (rule getnick_numeric [OF Some])
  have "getnickbynumeric st' = getnickbynumeric st
    \<or> (\<exists>v. getnickbynumeric st' = getnickbynumeric (put_nick (np1\<lparr>nk_channels := v\<rparr>) st))"
    using r Some
    by (auto simp: addnicktochannel_def masked_def [symmetric] getnick_masked [OF sv] Let_def
        split: Option.bind_splits if_splits prod.splits)
  then show ?thesis
  proof (elim disjE exE)
    fix v assume "getnickbynumeric st' = getnickbynumeric (put_nick (np1\<lparr>nk_channels := v\<rparr>) st)"
    moreover have "getnickbynumeric st k = Some np1" if "masked k = masked x"
      using that getnick_masked [OF sv] Some by metis
    ultimately show ?thesis
      using k getnick_put [OF sv Some, of "np1\<lparr>nk_channels := v\<rparr>" k] num
      by (auto split: if_splits)
  qed (use k in auto)
qed

lemma countuniquehosts_counts_witness:
  "\<exists>st st'. countuniquehosts 262143 0 st = Some (1, st')"
proof (rule demo_reachable)
  fix st c
  assume 1: "(chan_step 262143)\<^sup>*\<^sup>* init_chanst st" "st_channels st 0 = Some c"
    "totalusers (ch_users c) < 10" "hashsize (ch_users c) \<le> 65522" "getnickbynumeric st 262144 \<noteq> None"
    "\<And>k np. getnickbynumeric st k = Some np \<Longrightarrow> nk_host np = 0" "st_hosts st = init_nametab"
  note inv = reachable_inv [OF 1(1)]
  have sv: "servers_ok st" using inv by (simp add: chan_inv_def base_inv_def)
  obtain res st1 where 2: "addnicktochannel 262143 0 262144 st = Some (res, st1)"
      "0 \<in> on_channels 262143 st1 262144" "st_channels st1 0 \<noteq> None"
    using addnick_returns [OF inv 1(2-4), of 262144] 1(5) by auto
  have inv1: "chan_inv 262143 st1" using addnick_inv [OF inv 2(1)] by blast
  have host: "nk_host np = 0" if "getnickbynumeric st1 k = Some np" for k np
    using addnick_keeps_hosts [OF sv 2(1) that] 1(6) by auto
  let ?ht = "init_nametab\<lparr>nt_table := (\<lambda>_. [])(hosthash ''h'' := [0]),
      nt_recs := [0 \<mapsto> \<lparr>hr_name = ''h'', hr_count = 1, hr_marker = 0, hr_nicks = []\<rparr>], nt_next := 1\<rparr>"
  let ?st = "st1\<lparr>st_hosts := ?ht\<rparr>"
  note g = set_hosts_simps(1) [of ?ht st1] and on = set_hosts_simps(2) [of 262143 ?ht st1]
  have "chan_inv 262143 ?st" using inv1 by (simp only: set_hosts_simps)
  moreover have "hosts_inv ?st"
    unfolding hosts_inv_def g using host
    by (auto simp: nametab_ok_def init_nametab_def cstring_def)
  moreover obtain c1 where "st_channels ?st 0 = Some c1" using 2(3) by auto
  ultimately obtain st' where st': "countuniquehosts 262143 0 ?st
      = Some (card {nk_host np |k np. 0 \<in> on_channels 262143 ?st k \<and> getnickbynumeric ?st k = Some np}, st')"
    using countuniquehosts_counts by blast
  have "getnickbynumeric st1 262144 \<noteq> None"
    using 2(2) inv1 by (auto simp: chan_inv_def own_channels_def)
  then obtain np1 where "getnickbynumeric st1 262144 = Some np1" by blast
  moreover from this have "nk_host np1 = 0" by (rule host)
  ultimately have "{nk_host np |k np. 0 \<in> on_channels 262143 ?st k \<and> getnickbynumeric ?st k = Some np} = {0}"
    using host 2(2) unfolding on g by (auto intro: exI [of _ 262144] exI [of _ np1])
  then show ?thesis using st' by auto
qed

end
