(* ===== verification/ChanBurst.thy ===== *)
theory ChanBurst
  imports ChanReach
begin

text \<open>
  What bursts and \<open>CLEARMODE\<close> do in every reachable state: a burst with a newer timestamp
  brings no modes, one with an older timestamp takes all of ours, and \<open>CLEARMODE\<close> takes exactly
  the modes it names from exactly the users that have them.
\<close>

unbundle bit_operations_syntax

section \<open>Timestamps\<close>

lemma burst_channel:
  assumes r: "handleburstmsg env cargv st = Some st'" and inv: "chan_inv (env_nouser env) st"
    and ok: "message_ok ''B'' cargv" "2 \<le> length cargv"
    and f: "findchannel (cargv ! 0) st = Some (Some cp)" and c: "st_channels st cp = Some c"
  obtains c0 wipeout c1 where "burst_start (env_nouser env) (fst (strtol10 (cargv ! 1))) c wipeout c0"
    "burst_rel (env_nouser env) (burst_plain wipeout (drop 2 cargv)) wipeout c0 c1"
    "st_channels st' cp = (if user_map (env_nouser env) (ch_users c1) = Map.empty then None else Some c1)"
proof -
  have name: "cstring (cargv ! 0)" "length (cargv ! 0) \<le> CHANNELLEN"
    using ok by (auto simp: message_ok_def)
  show thesis
    by (rule handleburst_ok [OF r inv name ok(2)]) (use f c that in blast)
qed

text \<open>
  C10: a burst with a newer timestamp than the channel's: the timestamp, the topic, the flags,
  the key and the limit of the channel stay, nobody who was on the channel leaves it or changes
  modes, and whoever it brings has neither op nor voice, whatever the message says.
\<close>

theorem burst_newer_no_modes:
  assumes "(chan_step nouser)\<^sup>*\<^sup>* init_chanst st" "env_nouser env = nouser"
    "message_ok ''B'' cargv" "2 \<le> length cargv"
    "findchannel (cargv ! 0) st = Some (Some cp)" "st_channels st cp = Some c"
    "ch_timestamp c < fst (strtol10 (cargv ! 1))"
    "handleburstmsg env cargv st = Some st'" "st_channels st' cp = Some c'"
  shows "ch_timestamp c' = ch_timestamp c \<and> ch_topic c' = ch_topic c \<and> ch_flags c' = ch_flags c
    \<and> ch_key c' = ch_key c \<and> ch_limit c' = ch_limit c
    \<and> (\<forall>k w. user_map nouser (ch_users c) k = Some w \<longrightarrow> user_map nouser (ch_users c') k = Some w)
    \<and> (\<forall>k w. user_map nouser (ch_users c') k = Some w \<longrightarrow> user_map nouser (ch_users c) k = None \<longrightarrow>
         w AND CUMODE_OP = 0 \<and> w AND CUMODE_VOICE = 0)"
proof -
  have inv: "chan_inv (env_nouser env) st" using reachable_inv [OF assms(1)] assms(2) by simp
  obtain c0 wipeout c1 where b: "burst_start (env_nouser env) (fst (strtol10 (cargv ! 1))) c wipeout c0"
      "burst_rel (env_nouser env) (burst_plain wipeout (drop 2 cargv)) wipeout c0 c1"
      "st_channels st' cp = (if user_map (env_nouser env) (ch_users c1) = Map.empty then None else Some c1)"
    by (rule burst_channel [OF assms(8) inv assms(3-6)])
  have 1: "wipeout" "c0 = c" "c1 = c'" using b(1,3) assms(7,9) by (auto simp: burst_start_def split: if_splits)
  then have rel: "burst_rel nouser True True c c'" using b(2) assms(2) by (simp add: burst_plain_def)
  have "w AND CUMODE_OP = 0 \<and> w AND CUMODE_VOICE = 0"
    if "user_map nouser (ch_users c') k = Some w" "user_map nouser (ch_users c) k = None" for k w
  proof -
    have "masked w = w" using rel that by (fastforce simp: burst_rel_def)
    then show ?thesis by (rule masked_no_modes)
  qed
  then show ?thesis using rel by (auto simp: burst_rel_def map_le_def dom_def)
qed

text \<open>
  C16: a burst with an older timestamp: the channel takes the timestamp and loses its topic, and
  everybody who was on it stays, without op and voice; when the message gives no channel modes,
  the channel has no flags, no key and no limit.
\<close>

theorem burst_older_resets:
  assumes "(chan_step nouser)\<^sup>*\<^sup>* init_chanst st" "env_nouser env = nouser"
    "message_ok ''B'' cargv" "2 \<le> length cargv"
    "findchannel (cargv ! 0) st = Some (Some cp)" "st_channels st cp = Some c"
    "fst (strtol10 (cargv ! 1)) < ch_timestamp c"
    "handleburstmsg env cargv st = Some st'" "st_channels st' cp = Some c'"
  shows "ch_timestamp c' = fst (strtol10 (cargv ! 1)) \<and> ch_topic c' = None
    \<and> (\<forall>k. user_map nouser (ch_users c) k \<noteq> None \<longrightarrow> user_map nouser (ch_users c') k = Some k
         \<and> k AND CUMODE_OP = 0 \<and> k AND CUMODE_VOICE = 0)
    \<and> ((\<forall>a \<in> set (drop 2 cargv). deref a \<noteq> CHR ''+'') \<longrightarrow>
         ch_flags c' = 0 \<and> ch_key c' = None \<and> ch_limit c' = 0)"
proof -
  have inv: "chan_inv (env_nouser env) st" using reachable_inv [OF assms(1)] assms(2) by simp
  note ok = chan_inv_cuh [OF inv assms(6)]
  obtain c0 wipeout c1 where b: "burst_start (env_nouser env) (fst (strtol10 (cargv ! 1))) c wipeout c0"
      "burst_rel (env_nouser env) (burst_plain wipeout (drop 2 cargv)) wipeout c0 c1"
      "st_channels st' cp = (if user_map (env_nouser env) (ch_users c1) = Map.empty then None else Some c1)"
    by (rule burst_channel [OF assms(8) inv assms(3-6)])
  let ?c0 = "burst_reset nouser (fst (strtol10 (cargv ! 1))) c"
  have 1: "\<not> wipeout" "c0 = ?c0" "c1 = c'"
    using b(1,3) assms(2,7,9) by (auto simp: burst_start_def split: if_splits)
  then have rel: "burst_rel nouser (\<forall>a \<in> set (drop 2 cargv). deref a \<noteq> CHR ''+'') False ?c0 c'"
    using b(2) assms(2) by (simp add: burst_plain_def)
  have "user_map nouser (ch_users c') k = Some k \<and> k AND CUMODE_OP = 0 \<and> k AND CUMODE_VOICE = 0"
    if "user_map nouser (ch_users c) k = Some w" for k w
  proof -
    have m: "masked w = k" using that ok assms(2) by (simp add: user_map_Some)
    have "user_map nouser (ch_users ?c0) k = Some k"
      using strip_same(2) [of nouser "ch_users c" k] ok assms(2) that m by (simp add: burst_reset_def)
    then have "user_map nouser (ch_users c') k = Some k"
      using rel by (auto simp: burst_rel_def map_le_def dom_def)
    then show ?thesis using masked_no_modes [of k] m masked_masked [of w] by simp
  qed
  then show ?thesis using rel by (auto simp: burst_rel_def burst_reset_def)
qed

section \<open>\<open>CLEARMODE\<close>\<close>

text \<open>
  C17: \<open>CLEARMODE\<close> on a channel returns, everybody stays, and each user keeps its op unless the
  modes name \<open>o\<close> and its voice unless they name \<open>v\<close>, and nothing else of its word changes.
\<close>

theorem clearmode_takes_modes:
  assumes "(chan_step nouser)\<^sup>*\<^sup>* init_chanst st" "env_nouser env = nouser" "2 \<le> length cargv"
    "findchannel (cargv ! 0) st = Some (Some cp)" "mode_source st source \<noteq> None"
  shows "\<exists>st' c c'. channel_handler env ''CM'' source cargv st = Some st'
    \<and> st_channels st cp = Some c \<and> st_channels st' cp = Some c'
    \<and> (\<forall>k. on_channels nouser st' k = on_channels nouser st k)
    \<and> (\<forall>k w. user_map nouser (ch_users c) k = Some w \<longrightarrow>
         (\<exists>w'. user_map nouser (ch_users c') k = Some w'
            \<and> (\<forall>n < 64. bit w' n \<longleftrightarrow> bit w n \<and> \<not> (n = 31 \<and> CHR ''o'' \<in> set (cargv ! 1))
                                          \<and> \<not> (n = 30 \<and> CHR ''v'' \<in> set (cargv ! 1)))))"
proof -
  have inv: "chan_inv (env_nouser env) st" using reachable_inv [OF assms(1)] assms(2) by simp
  obtain c where c: "st_channels st cp = Some c" using findchannel_live [OF inv assms(4)] by blast
  obtain st' c' where r: "handleclearmodemsg env source cargv st = Some st'"
      "on_channels nouser st' = on_channels nouser st" "st_channels st' = (st_channels st)(cp \<mapsto> c')"
      "\<forall>k. user_map nouser (ch_users c') k
         = map_option (cleared nouser (clear_mask (cargv ! 1))) (user_map nouser (ch_users c) k)"
    using handleclear_ok [OF inv assms(3,4) c assms(5)] assms(2) by blast
  have "w \<noteq> nouser" if "user_map nouser (ch_users c) k = Some w" for k w
    using that user_map_Some [OF chan_inv_cuh [OF inv c]] assms(2) by (auto simp: users_def)
  then show ?thesis
    using r c cleared_bits [of _ nouser _ "clear_mask (cargv ! 1)"]
    by (intro exI [of _ st'] exI [of _ c] exI [of _ c'])
      (auto simp: channel_handler_def clear_mask_bits)
qed


section \<open>A channel with a user\<close>

text \<open>One user, on one channel that has no timestamp yet.\<close>

lemma demo_member:
  obtains st c where "(chan_step 262143)\<^sup>*\<^sup>* init_chanst st" "findchannel ''#a'' st = Some (Some 0)"
    "st_channels st 0 = Some c" "ch_timestamp c = 1270080000" "user_map 262143 (ch_users c) 262144 = Some 262144"
proof (rule demo_reachable)
  fix st c
  assume 1: "(chan_step 262143)\<^sup>*\<^sup>* init_chanst st" "st_channels st 0 = Some c"
    "totalusers (ch_users c) < 10" "hashsize (ch_users c) \<le> 65522" "getnickbynumeric st 262144 \<noteq> None"
    "findchannel ''#a'' st = Some (Some 0)" "ch_timestamp c = MAGIC_REMOTE_JOIN_TS"
    "user_map 262143 (ch_users c) = Map.empty"
  note inv = reachable_inv [OF 1(1)]
  obtain res st' where 2: "addnicktochannel 262143 0 262144 st = Some (res, st')"
      "0 \<in> on_channels 262143 st' 262144"
    using addnick_returns [OF inv 1(2-4), of 262144] 1(5) by auto
  have 3: "(chan_step 262143)\<^sup>*\<^sup>* init_chanst st'" using 1(1) chan_step.nick_joins [OF 2(1)] by simp
  have m: "masked 262144 = 262144" by (simp add: masked_mod)
  show thesis using inv 2(1) 1(2)
  proof (cases rule: addnick_cases)
    case refused
    then show thesis using 2(2) 1(2,8) by (simp add: on_channels_def)
  next
    case (added t)
    have "findchannel ''#a'' st' = Some (Some 0)" using 1(6) by (simp only: findchannel_def added(5))
    then show thesis using that [OF 3, of "c\<lparr>ch_users := t\<rparr>"] added(2,4) 1(7) m
      by (simp add: MAGIC_REMOTE_JOIN_TS_def)
  qed
qed

lemma burst_newer_no_modes_witness:
  "\<exists>st st' c. (chan_step 262143)\<^sup>*\<^sup>* init_chanst st
    \<and> handleburstmsg \<lparr>env_nouser = 262143, env_time = 0, env_numeric = 0\<rparr> [''#a'', ''2000000000'', ''+s''] st = Some st'
    \<and> st_channels st' 0 = Some c \<and> ch_timestamp c = 1270080000"
proof (rule demo_member)
  fix st c
  assume 1: "(chan_step 262143)\<^sup>*\<^sup>* init_chanst st" "findchannel ''#a'' st = Some (Some 0)"
    "st_channels st 0 = Some c" "ch_timestamp c = 1270080000" "user_map 262143 (ch_users c) 262144 = Some 262144"
  let ?env = "\<lparr>env_nouser = 262143, env_time = 0, env_numeric = 0\<rparr>"
  let ?args = "[''#a'', ''2000000000'', ''+s'']"
  have ts: "fst (strtol10 ''2000000000'') = 2000000000" by (simp add: strtol10_def Let_def isspace_def is_digit_def uchar_def digits_val_def digit_val_def LONG_MAX_def LONG_MIN_def)
  have n: "totalusers (ch_users c) \<noteq> 0"
    using cu.empty_total [OF chan_inv_cuh [OF reachable_inv [OF 1(1)] 1(3)]] 1(5) by auto
  let ?st' = "emit (ChannelBurst 0) st"
  have r: "handleburstmsg ?env ?args st = Some ?st'"
    using 1(2-4) n by (simp add: handleburstmsg_def burst_open_def burst_close_def ts burst_args.simps)
  have c: "st_channels ?st' 0 = Some c" using 1(3) by simp
  have ok: "message_ok ''B'' ?args" by (simp add: message_ok_def cstring_def)
  have "ch_timestamp c < fst (strtol10 (?args ! 1))" using 1(4) by (simp add: ts)
  from burst_newer_no_modes [OF 1(1) _ ok _ _ 1(3) this r c] 1(1,2,4) r c show ?thesis by auto
qed

lemma burst_older_resets_witness:
  "\<exists>st st' c. (chan_step 262143)\<^sup>*\<^sup>* init_chanst st
    \<and> handleburstmsg \<lparr>env_nouser = 262143, env_time = 0, env_numeric = 0\<rparr> [''#a'', ''1000000000'', ''+s''] st = Some st'
    \<and> st_channels st' 0 = Some c \<and> ch_timestamp c = 1000000000 \<and> user_map 262143 (ch_users c) 262144 = Some 262144"
proof (rule demo_member)
  fix st c
  assume 1: "(chan_step 262143)\<^sup>*\<^sup>* init_chanst st" "findchannel ''#a'' st = Some (Some 0)"
    "st_channels st 0 = Some c" "ch_timestamp c = 1270080000" "user_map 262143 (ch_users c) 262144 = Some 262144"
  let ?env = "\<lparr>env_nouser = 262143, env_time = 0, env_numeric = 0\<rparr>"
  let ?args = "[''#a'', ''1000000000'', ''+s'']"
  have ts: "fst (strtol10 ''1000000000'') = 1000000000" by (simp add: strtol10_def Let_def isspace_def is_digit_def uchar_def digits_val_def digit_val_def LONG_MAX_def LONG_MIN_def)
  have n: "totalusers (ch_users c) \<noteq> 0"
    using cu.empty_total [OF chan_inv_cuh [OF reachable_inv [OF 1(1)] 1(3)]] 1(5) by auto
  let ?c0 = "burst_reset 262143 1000000000 c"
  have sf: "setflags 0 CHANMODE_ALL ''+s'' cmodeflags False False = (REJECT_NONE, CHANMODE_SECRET)"
    by (simp add: setflags_def cmodeflags_def schar_uchar uchar_def CHANMODE_SECRET_def CHANMODE_ALL_def)
  have np: "\<not> IsLimit 0" "\<not> IsKey 0" "\<not> IsLimit CHANMODE_SECRET" "\<not> IsKey CHANMODE_SECRET"
    by (simp_all add: IsLimit_def IsKey_def CHANMODE_SECRET_def CHANMODE_LIMIT_def CHANMODE_KEY_def)
  let ?c1 = "?c0\<lparr>ch_flags := CHANMODE_SECRET\<rparr>"
  have m: "burst_modes ?args 2 ?c0 = Some (False, 2, ?c1)"
    by (simp add: burst_modes_def burst_reset_def sf np Let_def)
  have t: "totalusers (ch_users ?c0) \<noteq> 0" using n by (simp add: burst_reset_def strip_users_def)
  let ?st' = "emit (ChannelBurst 0) (set_chan 0 ?c1 (set_chan 0 ?c0 st))"
  have r: "handleburstmsg ?env ?args st = Some ?st'"
    using 1(2-4) m t by (simp add: handleburstmsg_def burst_open_def burst_close_def ts burst_args.simps)
  have c: "st_channels ?st' 0 = Some ?c1" by simp
  have ok: "message_ok ''B'' ?args" by (simp add: message_ok_def cstring_def)
  have "fst (strtol10 (?args ! 1)) < ch_timestamp c" using 1(4) by (simp add: ts)
  from burst_older_resets [OF 1(1) _ ok _ _ 1(3) this r c] 1(1,2,5) r c ts show ?thesis by auto
qed

lemma clearmode_takes_modes_witness:
  "\<exists>st st' c w. (chan_step 262143)\<^sup>*\<^sup>* init_chanst st
    \<and> channel_handler \<lparr>env_nouser = 262143, env_time = 0, env_numeric = 0\<rparr> ''CM'' ''AB'' [''#a'', ''o''] st = Some st'
    \<and> st_channels st' 0 = Some c \<and> user_map 262143 (ch_users c) 262144 = Some w \<and> \<not> bit w 31"
proof (rule demo_member)
  fix st c
  assume 1: "(chan_step 262143)\<^sup>*\<^sup>* init_chanst st" "findchannel ''#a'' st = Some (Some 0)"
    "st_channels st 0 = Some c" "ch_timestamp c = 1270080000" "user_map 262143 (ch_users c) 262144 = Some 262144"
  have src: "mode_source st ''AB'' \<noteq> None" by (simp add: mode_source_def)
  let ?env = "\<lparr>env_nouser = 262143, env_time = 0, env_numeric = 0\<rparr>" and ?args = "[''#a'', ''o'']"
  obtain st' c0 c' where r: "channel_handler ?env ''CM'' ''AB'' ?args st = Some st'"
      "st_channels st 0 = Some c0" "st_channels st' 0 = Some c'"
      "\<forall>k w. user_map 262143 (ch_users c0) k = Some w \<longrightarrow> (\<exists>w'. user_map 262143 (ch_users c') k = Some w'
         \<and> (\<forall>n < 64. bit w' n \<longleftrightarrow> bit w n \<and> \<not> (n = 31 \<and> CHR ''o'' \<in> set (?args ! 1))
             \<and> \<not> (n = 30 \<and> CHR ''v'' \<in> set (?args ! 1))))"
    using clearmode_takes_modes [OF 1(1), of ?env ?args 0 "''AB''"] src 1(2) by auto
  have "c0 = c" using r(2) 1(3) by simp
  then obtain w' where w: "user_map 262143 (ch_users c') 262144 = Some w'"
      "\<forall>n < 64. bit w' n \<longleftrightarrow> bit (262144::nat) n \<and> \<not> (n = 31 \<and> CHR ''o'' \<in> set (?args ! 1))
             \<and> \<not> (n = 30 \<and> CHR ''v'' \<in> set (?args ! 1))"
    using r(4) 1(5) by blast
  have "\<not> bit w' 31" using w(2) [rule_format, of 31] by simp
  then show ?thesis using 1(1) r(1,3) w(1) by blast
qed

end
