(* ===== verification/Servers.thy ===== *)
theory Servers
  imports Channels Numerics
begin

text \<open>
  The tree of the servers, \<open>server/server.c\<close>: a server is a slot of \<open>serverlist\<close>, in use when
  it has a name, with the slot of the server that introduced it. The handlers of the hooks are
  other modules: a hook appends to the trace. \<open>None\<close> is a read out of bounds or a recursion
  that does not return. Shown: the servers form a tree with our own server at the root, and a
  split removes the servers behind it, each once and after everything behind it.
\<close>

unbundle bit_operations_syntax

section \<open>State\<close>

abbreviation MAXSERVERS :: nat where "MAXSERVERS \<equiv> 4096"

definition LS_LINKING :: nat where "LS_LINKING = 2"
definition LS_PLINKING :: nat where "LS_PLINKING = 3"
definition LS_SQUIT :: nat where "LS_SQUIT = 4"

definition SMODE_HUB :: "32 word" where "SMODE_HUB = 0x0001"
definition SMODE_IPV6 :: "32 word" where "SMODE_IPV6 = 0x0002"
definition SMODE_SERVICE :: "32 word" where "SMODE_SERVICE = 0x0004"
definition SMODE_OPERNAME :: "32 word" where "SMODE_OPERNAME = 0x0008"
definition SMODE_ALL :: "32 word" where "SMODE_ALL = 0x000F"

definition smodeflags :: "flag list" where
  "smodeflags =
    [\<lparr>flagchar = CHR ''h'', flagbit = SMODE_HUB\<rparr>, \<lparr>flagchar = CHR ''6'', flagbit = SMODE_IPV6\<rparr>,
     \<lparr>flagchar = CHR ''s'', flagbit = SMODE_SERVICE\<rparr>, \<lparr>flagchar = CHR ''n'', flagbit = SMODE_OPERNAME\<rparr>,
     \<lparr>flagchar = NUL, flagbit = 0\<rparr>]"

record servrec =
  s_name :: "string option"
  s_description :: "string option"
  s_parent :: int
  s_linkstate :: nat
  s_maxusernum :: int
  s_ts :: int
  s_flags :: "32 word"
  s_marker :: "32 word"

datatype server_event =
  ServerNew nat
| ServerPreLost nat
| ServerLost nat
| ServerLinked nat
| ServerEndOfBurst
| SendBurst
| SendEB
| SendEA
| IrcConnected
| IrcDisconnected

record servst =
  slist :: "nat \<Rightarrow> servrec"
  myhub :: int
  connected :: bool
  servermarker :: "32 word"
  s_trace :: "server_event list"

definition no_server :: servrec where
  "no_server = \<lparr>s_name = None, s_description = None, s_parent = 0, s_linkstate = 0,
     s_maxusernum = 0, s_ts = 0, s_flags = 0, s_marker = 0\<rparr>"

definition set_server :: "nat \<Rightarrow> servrec \<Rightarrow> servst \<Rightarrow> servst" where
  "set_server n s st = st\<lparr>slist := (slist st)(n := s)\<rparr>"

definition signal :: "server_event list \<Rightarrow> servst \<Rightarrow> servst" where
  "signal es st = st\<lparr>s_trace := s_trace st @ es\<rparr>"

text \<open>The start of the module, with the number, the name, the description and the time.\<close>

definition MAXLOCALUSER :: int where "MAXLOCALUSER = 65535"
definition SNAME_MAX :: nat where "SNAME_MAX = 63"
definition SDESC_MAX :: nat where "SDESC_MAX = 50"

definition server_init :: "nat \<Rightarrow> string \<Rightarrow> string \<Rightarrow> int \<Rightarrow> servst" where
  "server_init me name description now =
     \<lparr>slist = (\<lambda>_. no_server)(me := \<lparr>s_name = Some (sstr name SNAME_MAX),
        s_description = Some description, s_parent = -1, s_linkstate = LS_LINKED,
        s_maxusernum = MAXLOCALUSER, s_ts = now,
        s_flags = SMODE_SERVICE OR SMODE_IPV6 OR SMODE_HUB OR SMODE_OPERNAME, s_marker = 0\<rparr>),
      myhub = -1, connected = False, servermarker = 0, s_trace = []\<rparr>"

section \<open>Operations\<close>

text \<open>\<open>strncmp\<close> up to the length of the stored name: any extension of a name is found.\<close>

definition findserver :: "string \<Rightarrow> servst \<Rightarrow> nat option" where
  "findserver name st =
     find (\<lambda>i. case s_name (slist st i) of None \<Rightarrow> False
               | Some stored \<Rightarrow> take (length stored) name = stored) [0..<MAXSERVERS]"

text \<open>The end of \<open>deleteserver\<close>, after the children.\<close>

definition drop_server :: "nat \<Rightarrow> servst \<Rightarrow> servst" where
  "drop_server n st =
     (let st = set_server n ((slist st n)\<lparr>s_linkstate := LS_SQUIT\<rparr>) st;
          st = signal [ServerPreLost n, ServerLost n] st
      in set_server n no_server st)"

text \<open>The loop over the children, from slot \<open>i\<close>, with the recursive call.\<close>

partial_function (option) delete_children :: "nat \<Rightarrow> nat \<Rightarrow> servst \<Rightarrow> servst option" where
  "delete_children n i st =
     (if i \<ge> MAXSERVERS then Some st
      else if s_parent (slist st i) = int n \<and> s_name (slist st i) \<noteq> None then do {
        st \<leftarrow> delete_children i 0 st;
        delete_children n (i + 1) (drop_server i st)
      }
      else delete_children n (i + 1) st)"

definition deleteserver :: "nat \<Rightarrow> servst \<Rightarrow> servst option" where
  "deleteserver n st =
     (if s_name (slist st n) = None then Some st
      else do { st \<leftarrow> delete_children n 0 st; Some (drop_server n st) })"

definition linked :: "nat \<Rightarrow> servst \<Rightarrow> servst" where
  "linked n st = signal [ServerLinked n] (set_server n ((slist st n)\<lparr>s_linkstate := LS_LINKED\<rparr>) st)"

text \<open>A child that is not in use is a warning in the recursive call.\<close>

partial_function (option) complete_children :: "nat \<Rightarrow> nat \<Rightarrow> servst \<Rightarrow> servst option" where
  "complete_children n i st =
     (if i \<ge> MAXSERVERS then Some st
      else if s_parent (slist st i) = int n \<and> s_linkstate (slist st i) = LS_PLINKING
        \<and> s_name (slist st i) \<noteq> None then do {
        st \<leftarrow> complete_children i 0 st;
        complete_children n (i + 1) (linked i st)
      }
      else complete_children n (i + 1) st)"

definition completelink :: "nat \<Rightarrow> servst \<Rightarrow> servst option" where
  "completelink n st =
     (if s_name (slist st n) = None then Some st
      else do { st \<leftarrow> complete_children n 0 st; Some (linked n st) })"

definition handledisconnect :: "servst \<Rightarrow> servst option" where
  "handledisconnect st =
     (if myhub st \<ge> 0 then do { st \<leftarrow> deleteserver (nat (myhub st)) st; Some (st\<lparr>myhub := -1\<rparr>) }
      else Some st)"

text \<open>\<open>irc_disconnected(0)\<close> of \<open>irc/irc.c\<close>, as far as the servers see it.\<close>

definition irc_disconnected :: "servst \<Rightarrow> servst option" where
  "irc_disconnected st =
     (if connected st then handledisconnect (signal [IrcDisconnected] (st\<lparr>connected := False\<rparr>))
      else Some st)"

text \<open>The messages; \<open>me\<close> is our own number.\<close>

definition new_server :: "string list \<Rightarrow> int \<Rightarrow> int \<Rightarrow> servrec \<Rightarrow> servrec" where
  "new_server cargv maxn parent s =
     s\<lparr>s_name := Some (sstr (cargv ! 0) SNAME_MAX),
       s_description := Some (sstr (last cargv) SDESC_MAX),
       s_maxusernum := maxn, s_ts := c_long (int (fst (strtoul10 (cargv ! 3)))), s_marker := 0,
       s_flags := snd (setflags (s_flags s) SMODE_ALL (cargv ! 6) smodeflags False False),
       s_parent := parent,
       s_linkstate := (if deref (cargv ! 4) = CHR ''J'' then LS_LINKING else LS_PLINKING)\<rparr>"

definition handleservermsg :: "nat \<Rightarrow> string \<Rightarrow> string list \<Rightarrow> servst \<Rightarrow> servst option" where
  "handleservermsg me source cargv st =
     (if length cargv < 6 then None
      else do {
        sn \<leftarrow> numerictolong (cargv ! 5) 2;
        let n = nat sn in
        if s_name (slist st n) \<noteq> None then Some st
        else if length cargv < 7 \<or> length (cargv ! 5) < 2 then None
        else do {
          maxn \<leftarrow> numerictolong (drop 2 (cargv ! 5)) 3;
          parent \<leftarrow> (if take 4 source = ''INIT'' then Some (int me) else numerictolong source 2);
          let s = new_server cargv maxn parent (slist st n);
              st = (if take 4 source = ''INIT''
                    then signal [SendBurst, SendEB, IrcConnected] (st\<lparr>myhub := int n\<rparr>) else st)
          in Some (signal [ServerNew n] (set_server n s st))
        }
      })"

definition handleeobmsg :: "string \<Rightarrow> servst \<Rightarrow> servst option" where
  "handleeobmsg source st = do {
     sn \<leftarrow> numerictolong source 2;
     st \<leftarrow> completelink (nat sn) st;
     Some (if sn = myhub st then signal [SendEA, ServerEndOfBurst] st else st)
   }"

definition handlesquitmsg :: "string list \<Rightarrow> servst \<Rightarrow> servst option" where
  "handlesquitmsg cargv st =
     (if cargv = [] then None
      else case findserver (cargv ! 0) st of
        None \<Rightarrow> Some st
      | Some n \<Rightarrow> if int n = myhub st then irc_disconnected st else deleteserver n st)"

definition nextservermarker :: "servst \<Rightarrow> 32 word \<times> servst" where
  "nextservermarker st =
     (let m = servermarker st + 1
      in if m = 0 then (1, st\<lparr>servermarker := 1,
             slist := (\<lambda>i. if i < MAXSERVERS then (slist st i)\<lparr>s_marker := 0\<rparr> else slist st i)\<rparr>)
         else (m, st\<lparr>servermarker := m\<rparr>))"

section \<open>The tree\<close>

definition in_use :: "servst \<Rightarrow> nat \<Rightarrow> bool" where
  "in_use st n \<longleftrightarrow> n < MAXSERVERS \<and> s_name (slist st n) \<noteq> None"

text \<open>From a server to the one that introduced it, and what is behind a server.\<close>

definition uplink :: "servst \<Rightarrow> (nat \<times> nat) set" where
  "uplink st = {(i, p). in_use st i \<and> in_use st p \<and> s_parent (slist st i) = int p}"

definition behind :: "servst \<Rightarrow> nat \<Rightarrow> nat set" where
  "behind st n = {j. (j, n) \<in> (uplink st)\<^sup>*}"

lemma uplink_single: "single_valued (uplink st)"
  by (auto simp: single_valued_def uplink_def)

lemma uplink_finite: "finite (uplink st)"
  by (rule finite_subset [of _ "{..<MAXSERVERS} \<times> {..<MAXSERVERS}"]) (auto simp: uplink_def in_use_def)

text \<open>A set of servers with everything behind them is cut off.\<close>

definition closed_down :: "servst \<Rightarrow> nat set \<Rightarrow> bool" where
  "closed_down st S \<longleftrightarrow> (\<forall>(i, p) \<in> uplink st. p \<in> S \<longrightarrow> i \<in> S)"

lemma behind_closed: "closed_down st (behind st n)"
  by (auto simp: closed_down_def behind_def intro: converse_rtrancl_into_rtrancl)

lemma closed_Un: "closed_down st S \<Longrightarrow> closed_down st T \<Longrightarrow> closed_down st (S \<union> T)"
  by (auto simp: closed_down_def)

lemma path_outside:
  assumes "(j, a) \<in> (uplink st)\<^sup>*" "closed_down st S" "j \<notin> S"
  shows "a \<notin> S \<and> (j, a) \<in> (uplink st \<inter> (- S) \<times> (- S))\<^sup>*"
  using assms(1)
proof (induction rule: rtrancl_induct)
  case (step a b)
  then have "b \<notin> S" using assms(2) by (auto simp: closed_down_def)
  then have "(a, b) \<in> uplink st \<inter> (- S) \<times> (- S)" using step by simp
  then show ?case using step \<open>b \<notin> S\<close> by (meson rtrancl.rtrancl_into_rtrancl)
qed (simp add: assms(3))

section \<open>Removing servers\<close>

abbreviation drop_all :: "nat list \<Rightarrow> servst \<Rightarrow> servst" where
  "drop_all L st \<equiv> fold drop_server L st"

lemma drop_server_slist: "slist (drop_server n st) = (slist st)(n := no_server)"
  by (simp add: drop_server_def set_server_def signal_def Let_def)

lemma drop_all_slist: "slist (drop_all L st) i = (if i \<in> set L then no_server else slist st i)"
  by (induction L arbitrary: st) (auto simp: drop_server_slist)

lemma drop_all_trace:
  "s_trace (drop_all L st) = s_trace st @ concat (map (\<lambda>n. [ServerPreLost n, ServerLost n]) L)"
  by (induction L arbitrary: st) (simp_all add: drop_server_def set_server_def signal_def Let_def)

lemma drop_all_other:
  "myhub (drop_all L st) = myhub st" "connected (drop_all L st) = connected st"
  by (induction L arbitrary: st) (simp_all add: drop_server_def set_server_def signal_def Let_def)

lemma drop_all_in_use: "in_use (drop_all L st) n \<longleftrightarrow> in_use st n \<and> n \<notin> set L"
  by (auto simp: in_use_def drop_all_slist no_server_def)

lemma drop_all_uplink: "uplink (drop_all L st) = uplink st \<inter> (- set L) \<times> (- set L)"
  by (auto simp: uplink_def drop_all_in_use drop_all_slist)

lemma drop_all_behind:
  assumes "closed_down st (set L)" "n \<notin> set L"
  shows "behind (drop_all L st) n = behind st n - set L"
proof (intro equalityI subsetI)
  fix j assume "j \<in> behind (drop_all L st) n"
  then have p: "(j, n) \<in> (uplink st \<inter> (- set L) \<times> (- set L))\<^sup>*" by (simp add: behind_def drop_all_uplink)
  then have "(j, n) \<in> (uplink st)\<^sup>*" by (rule rtrancl_mono [THEN subsetD, rotated]) blast
  moreover have "j \<notin> set L" using p assms(2) by (cases rule: converse_rtranclE) auto
  ultimately show "j \<in> behind st n - set L" by (simp add: behind_def)
next
  fix j assume "j \<in> behind st n - set L"
  then show "j \<in> behind (drop_all L st) n"
    using path_outside [OF _ assms(1)] by (auto simp: behind_def drop_all_uplink)
qed

text \<open>No server after a server of the list is behind it.\<close>

definition leaves_first :: "servst \<Rightarrow> nat list \<Rightarrow> bool" where
  "leaves_first st L \<longleftrightarrow> sorted_wrt (\<lambda>a b. b \<notin> behind st a) L"

lemma leaves_first_distinct: "leaves_first st L \<Longrightarrow> distinct L"
  by (induction L) (auto simp: leaves_first_def behind_def)

lemma leaves_first_append:
  assumes A: "leaves_first st A" "closed_down st (set A)" and B: "leaves_first (drop_all A st) B"
    and out: "set B \<inter> set A = {}"
  shows "leaves_first st (A @ B)"
proof -
  have "sorted_wrt (\<lambda>a b. b \<notin> behind st a) B"
    using B unfolding leaves_first_def
  proof (rule sorted_wrt_mono_rel [rotated])
    fix a b assume ab: "a \<in> set B" "b \<in> set B" "b \<notin> behind (drop_all A st) a"
    then show "b \<notin> behind st a" using drop_all_behind [OF A(2), of a] out by auto
  qed
  moreover have "b \<notin> behind st a" if "a \<in> set A" "b \<in> set B" for a b
  proof
    assume "b \<in> behind st a"
    then have "a \<notin> set A" using path_outside [OF _ A(2)] that(2) out by (auto simp: behind_def)
    then show False using that(1) by simp
  qed
  ultimately show ?thesis using A(1) by (simp add: leaves_first_def sorted_wrt_append)
qed

definition children :: "servst \<Rightarrow> nat \<Rightarrow> nat \<Rightarrow> nat set" where
  "children st n i = {c. i \<le> c \<and> (c, n) \<in> uplink st}"

lemma behind_children: "behind st n = insert n (\<Union>c \<in> children st n 0. behind st c)"
proof (intro equalityI subsetI)
  fix j assume "j \<in> behind st n"
  then have "(j, n) \<in> (uplink st)\<^sup>*" by (simp add: behind_def)
  then show "j \<in> insert n (\<Union>c \<in> children st n 0. behind st c)"
    by (cases rule: rtrancl.cases) (auto simp: behind_def children_def)
qed (auto simp: behind_def children_def intro: rtrancl_into_rtrancl)

lemma no_cycle:
  assumes "acyclic (uplink st)" "(i, n) \<in> uplink st" "(n, i) \<in> (uplink st)\<^sup>*"
  shows False
  using assms unfolding acyclic_def by (meson rtrancl_into_trancl2)

lemma siblings_apart:
  assumes ac: "acyclic (uplink st)" and c: "(c, n) \<in> uplink st" "(d, n) \<in> uplink st" "c \<noteq> d"
  shows "behind st c \<inter> behind st d = {}"
proof -
  have above: "(x, y) \<notin> (uplink st)\<^sup>*" if t: "(x, n) \<in> uplink st" "(y, n) \<in> uplink st" "x \<noteq> y" for x y
  proof
    assume "(x, y) \<in> (uplink st)\<^sup>*"
    then obtain z where "(x, z) \<in> uplink st" "(z, y) \<in> (uplink st)\<^sup>*"
      using t(3) by (auto elim: converse_rtranclE)
    moreover from this have "z = n" using uplink_single t(1) by (auto simp: single_valued_def)
    ultimately show False using no_cycle [OF ac t(2)] by simp
  qed
  have "False" if "j \<in> behind st c" "j \<in> behind st d" for j
  proof -
    have "(j, c) \<in> (uplink st)\<^sup>*" "(j, d) \<in> (uplink st)\<^sup>*" using that by (simp_all add: behind_def)
    from single_valued_confluent [OF uplink_single this] show False
      using above [OF c(1,2,3)] above [OF c(2,1)] c(3) by auto
  qed
  then show ?thesis by blast
qed

lemma not_behind_child:
  assumes ac: "acyclic (uplink st)" and S: "S = (\<Union>c \<in> children st n 0. behind st c)" and a: "a \<in> S"
  shows "n \<notin> behind st a"
proof
  assume n: "n \<in> behind st a"
  obtain c where c: "c \<in> children st n 0" "a \<in> behind st c" using S a by blast
  then have "(c, n) \<in> uplink st" "(n, c) \<in> (uplink st)\<^sup>*"
    using n by (auto simp: children_def behind_def)
  then show False by (rule no_cycle [OF ac])
qed

lemma delete_children_ok:
  assumes "acyclic (uplink st0)" "uplink st \<subseteq> uplink st0" "in_use st n"
  shows "\<exists>L. delete_children n i st = Some (drop_all L st) \<and> leaves_first st L
    \<and> set L = (\<Union>c \<in> children st n i. behind st c)"
proof -
  have "wf (uplink st0)" by (rule finite_acyclic_wf [OF uplink_finite assms(1)])
  then show ?thesis
    using assms(2,3)
  proof (induction n arbitrary: st i rule: wf_induct_rule)
    case (less n)
    show ?case
      using less.prems
    proof (induction "MAXSERVERS - i" arbitrary: i st)
      case 0
      then have "children st n i = {}" by (auto simp: children_def uplink_def in_use_def)
      then show ?case using 0 by (intro exI [of _ "[]"]) (simp add: delete_children.simps leaves_first_def)
    next
      case (Suc k)
      have i: "i < MAXSERVERS" "k = MAXSERVERS - (i + 1)" using Suc.hyps(2) by simp_all
      note inner = Suc.hyps(1) [OF i(2)]
      have ac: "acyclic (uplink st)" using assms(1) Suc.prems(1) by (rule acyclic_subset)
      show ?case
      proof (cases "s_parent (slist st i) = int n \<and> s_name (slist st i) \<noteq> None")
        case False
        then have "i \<notin> children st n i" by (auto simp: children_def uplink_def in_use_def)
        then have "children st n i = children st n (i + 1)" by (auto simp: children_def Suc_le_eq le_less)
        moreover have "delete_children n i st = delete_children n (i + 1) st"
          using False i(1) by (subst delete_children.simps) auto
        ultimately show ?thesis using inner [OF Suc.prems] by simp
      next
        case True
        then have up: "(i, n) \<in> uplink st" "in_use st i" using i(1) Suc.prems(2) by (auto simp: uplink_def in_use_def)
        obtain A where A: "delete_children i 0 st = Some (drop_all A st)" "leaves_first st A"
            "set A = (\<Union>c \<in> children st i 0. behind st c)"
          using less.IH [of i st 0] up Suc.prems(1) by blast
        let ?A = "A @ [i]" and ?st = "drop_all (A @ [i]) st"
        have set: "set ?A = behind st i" using A(3) behind_children [of st i] by auto
        have "i \<notin> behind st a" if "a \<in> set A" for a by (rule not_behind_child [OF ac A(3) that])
        then have first: "leaves_first st ?A" using A(2) by (simp add: leaves_first_def sorted_wrt_append)
        have n: "n \<notin> set ?A" unfolding set using no_cycle [OF ac up(1)] by (auto simp: behind_def)
        have "uplink ?st \<subseteq> uplink st0" "in_use ?st n"
          using Suc.prems n unfolding drop_all_uplink drop_all_in_use by auto
        from inner [OF this] obtain B where B: "delete_children n (i + 1) ?st = Some (drop_all B ?st)"
            "leaves_first ?st B" "set B = (\<Union>c \<in> children ?st n (i + 1). behind ?st c)" by blast
        have cl: "closed_down st (set ?A)" unfolding set by (rule behind_closed)
        have apart: "behind st c \<inter> set ?A = {}" if "c \<in> children st n (i + 1)" for c
          unfolding set using siblings_apart [OF ac _ up(1)] that by (auto simp: children_def)
        have own: "c \<in> behind st c" for c by (simp add: behind_def)
        have ch: "children ?st n (i + 1) = children st n (i + 1)"
          using n apart own unfolding children_def drop_all_uplink by fast
        have "behind ?st c = behind st c" if "c \<in> children st n (i + 1)" for c
          using drop_all_behind [OF cl, of c] apart [OF that] own [of c] by auto
        then have B': "set B = (\<Union>c \<in> children st n (i + 1). behind st c)" using B(3) ch by auto
        have "leaves_first st (?A @ B)"
          by (rule leaves_first_append [OF first cl B(2)]) (use B' apart in auto)
        moreover have "children st n i = insert i (children st n (i + 1))"
          using up(1) by (auto simp: children_def Suc_le_eq le_less)
        then have "set (?A @ B) = (\<Union>c \<in> children st n i. behind st c)"
          using set B' by auto
        moreover have "delete_children n i st = Some (drop_all (?A @ B) st)"
          using True i(1) A(1) B(1) by (subst delete_children.simps) simp
        ultimately show ?thesis by blast
      qed
    qed
  qed
qed

lemma deleteserver_ok:
  assumes "acyclic (uplink st)" "in_use st n"
  shows "\<exists>L. deleteserver n st = Some (drop_all L st) \<and> leaves_first st L \<and> set L = behind st n"
proof -
  obtain L where L: "delete_children n 0 st = Some (drop_all L st)" "leaves_first st L"
      "set L = (\<Union>c \<in> children st n 0. behind st c)"
    using delete_children_ok [OF assms(1) subset_refl assms(2)] by blast
  have "n \<notin> behind st a" if "a \<in> set L" for a by (rule not_behind_child [OF assms(1) L(3) that])
  then have "leaves_first st (L @ [n])" using L(2) by (simp add: leaves_first_def sorted_wrt_append)
  moreover have "set (L @ [n]) = behind st n" using L(3) behind_children [of st n] by auto
  moreover have "deleteserver n st = Some (drop_all (L @ [n]) st)"
    using L(1) assms(2) by (auto simp: deleteserver_def in_use_def)
  ultimately show ?thesis by blast
qed

section \<open>Completing links\<close>

text \<open>What waits for a server: behind it, through servers that wait for the end of its burst.\<close>

definition plink :: "servst \<Rightarrow> (nat \<times> nat) set" where
  "plink st = {(i, p) \<in> uplink st. s_linkstate (slist st i) = LS_PLINKING}"

definition waiting :: "servst \<Rightarrow> nat \<Rightarrow> nat set" where
  "waiting st n = {j. (j, n) \<in> (plink st)\<^sup>*}"

abbreviation link_all :: "nat list \<Rightarrow> servst \<Rightarrow> servst" where
  "link_all L st \<equiv> fold linked L st"

lemma linked_slist: "slist (linked n st) i = (if i = n then (slist st n)\<lparr>s_linkstate := LS_LINKED\<rparr> else slist st i)"
  by (simp add: linked_def set_server_def signal_def)

lemma link_all_slist:
  "slist (link_all L st) i = (if i \<in> set L then (slist st i)\<lparr>s_linkstate := LS_LINKED\<rparr> else slist st i)"
  by (induction L arbitrary: st) (auto simp: linked_slist)

lemma link_all_uplink: "uplink (link_all L st) = uplink st" "in_use (link_all L st) = in_use st"
  by (auto simp: uplink_def in_use_def link_all_slist fun_eq_iff)

lemma link_all_other: "myhub (link_all L st) = myhub st"
  by (induction L arbitrary: st) (simp_all add: linked_def set_server_def signal_def)

lemma link_all_plink: "plink (link_all L st) = {(i, p) \<in> plink st. i \<notin> set L}"
  by (auto simp: plink_def link_all_uplink link_all_slist LS_LINKED_def LS_PLINKING_def split: if_splits)

lemma waiting_behind: "waiting st n \<subseteq> behind st n"
proof -
  have "plink st \<subseteq> uplink st" by (auto simp: plink_def)
  then show ?thesis using rtrancl_mono by (auto simp: waiting_def behind_def)
qed

lemma waiting_other:
  assumes "waiting st c \<inter> set L = {}"
  shows "waiting (link_all L st) c = waiting st c"
proof (intro equalityI subsetI)
  fix j assume "j \<in> waiting (link_all L st) c"
  then have "(j, c) \<in> {(i, p) \<in> plink st. i \<notin> set L}\<^sup>*" by (simp add: waiting_def link_all_plink)
  then have "(j, c) \<in> (plink st)\<^sup>*" by (rule rtrancl_mono [THEN subsetD, rotated]) blast
  then show "j \<in> waiting st c" by (simp add: waiting_def)
next
  fix j assume "j \<in> waiting st c"
  then have "(j, c) \<in> (plink st)\<^sup>*" by (simp add: waiting_def)
  then have "(j, c) \<in> {(i, p) \<in> plink st. i \<notin> set L}\<^sup>*"
  proof (induction rule: converse_rtrancl_induct)
    case (step y z)
    then have "y \<in> waiting st c" by (auto simp: waiting_def intro: converse_rtrancl_into_rtrancl)
    then have "(y, z) \<in> {(i, p) \<in> plink st. i \<notin> set L}" using step(1) assms by auto
    then show ?case using step(3) by (rule converse_rtrancl_into_rtrancl)
  qed simp
  then show "j \<in> waiting (link_all L st) c" by (simp add: waiting_def link_all_plink)
qed

definition pchildren :: "servst \<Rightarrow> nat \<Rightarrow> nat \<Rightarrow> nat set" where
  "pchildren st n i = {c. i \<le> c \<and> (c, n) \<in> plink st}"

lemma waiting_children: "waiting st n = insert n (\<Union>c \<in> pchildren st n 0. waiting st c)"
proof (intro equalityI subsetI)
  fix j assume "j \<in> waiting st n"
  then have "(j, n) \<in> (plink st)\<^sup>*" by (simp add: waiting_def)
  then show "j \<in> insert n (\<Union>c \<in> pchildren st n 0. waiting st c)"
    by (cases rule: rtrancl.cases) (auto simp: waiting_def pchildren_def)
qed (auto simp: waiting_def pchildren_def intro: rtrancl_into_rtrancl)

lemma complete_children_ok:
  assumes "acyclic (uplink st0)" "uplink st = uplink st0" "in_use st n"
  shows "\<exists>L. complete_children n i st = Some (link_all L st)
    \<and> set L = (\<Union>c \<in> pchildren st n i. waiting st c)"
proof -
  have "wf (uplink st0)" by (rule finite_acyclic_wf [OF uplink_finite assms(1)])
  then show ?thesis
    using assms(2,3)
  proof (induction n arbitrary: st i rule: wf_induct_rule)
    case (less n)
    show ?case
      using less.prems
    proof (induction "MAXSERVERS - i" arbitrary: i st)
      case 0
      then have "pchildren st n i = {}" by (auto simp: pchildren_def plink_def uplink_def in_use_def)
      then show ?case using 0 by (intro exI [of _ "[]"]) (simp add: complete_children.simps)
    next
      case (Suc k)
      have i: "i < MAXSERVERS" "k = MAXSERVERS - (i + 1)" using Suc.hyps(2) by simp_all
      note inner = Suc.hyps(1) [OF i(2)]
      have ac: "acyclic (uplink st)" using assms(1) Suc.prems(1) by simp
      show ?case
      proof (cases "s_parent (slist st i) = int n \<and> s_linkstate (slist st i) = LS_PLINKING
          \<and> s_name (slist st i) \<noteq> None")
        case False
        then have "i \<notin> pchildren st n i" by (auto simp: pchildren_def plink_def uplink_def in_use_def)
        then have "pchildren st n i = pchildren st n (i + 1)" by (auto simp: pchildren_def Suc_le_eq le_less)
        moreover have "complete_children n i st = complete_children n (i + 1) st"
          using False i(1) by (subst complete_children.simps) auto
        ultimately show ?thesis using inner [OF Suc.prems] by simp
      next
        case True
        then have up: "(i, n) \<in> plink st" "(i, n) \<in> uplink st" "in_use st i"
          using i(1) Suc.prems(2) by (auto simp: plink_def uplink_def in_use_def)
        obtain A where A: "complete_children i 0 st = Some (link_all A st)"
            "set A = (\<Union>c \<in> pchildren st i 0. waiting st c)"
          using less.IH [of i st 0] up Suc.prems(1) by blast
        let ?A = "A @ [i]" and ?st = "link_all (A @ [i]) st"
        have set: "set ?A = waiting st i" using A(2) waiting_children [of st i] by auto
        have "uplink ?st = uplink st0" "in_use ?st n" using Suc.prems by (simp_all only: link_all_uplink)
        from inner [OF this] obtain B where B: "complete_children n (i + 1) ?st = Some (link_all B ?st)"
            "set B = (\<Union>c \<in> pchildren ?st n (i + 1). waiting ?st c)" by blast
        have apart: "waiting st c \<inter> set ?A = {}" if "c \<in> pchildren st n (i + 1)" for c
        proof -
          have "(c, n) \<in> uplink st" "c \<noteq> i" using that by (auto simp: pchildren_def plink_def)
          from siblings_apart [OF ac this(1) up(2) this(2)] show ?thesis
            using set waiting_behind [of st c] waiting_behind [of st i] by blast
        qed
        have own: "c \<in> waiting st c" for c by (simp add: waiting_def)
        have ch: "pchildren ?st n (i + 1) = pchildren st n (i + 1)"
          using apart own unfolding pchildren_def link_all_plink by fast
        have "waiting ?st c = waiting st c" if "c \<in> pchildren st n (i + 1)" for c
          by (rule waiting_other [OF apart [OF that]])
        then have B': "set B = (\<Union>c \<in> pchildren st n (i + 1). waiting st c)" using B(2) ch by auto
        have "pchildren st n i = insert i (pchildren st n (i + 1))"
          using up(1) by (auto simp: pchildren_def Suc_le_eq le_less)
        then have "set (?A @ B) = (\<Union>c \<in> pchildren st n i. waiting st c)" using set B' by auto
        moreover have "complete_children n i st = Some (link_all (?A @ B) st)"
          using True i(1) A(1) B(1) by (subst complete_children.simps) simp
        ultimately show ?thesis by blast
      qed
    qed
  qed
qed

lemma completelink_ok:
  assumes "acyclic (uplink st)" "in_use st n"
  shows "\<exists>L. completelink n st = Some (link_all L st) \<and> set L = waiting st n"
proof -
  obtain L where L: "complete_children n 0 st = Some (link_all L st)"
      "set L = (\<Union>c \<in> pchildren st n 0. waiting st c)"
    using complete_children_ok [OF assms(1) refl assms(2)] by blast
  have "completelink n st = Some (link_all (L @ [n]) st)"
    using L(1) assms(2) by (auto simp: completelink_def in_use_def)
  moreover have "set (L @ [n]) = waiting st n" using L(2) waiting_children [of st n] by auto
  ultimately show ?thesis by blast
qed

section \<open>The servers form a tree\<close>

definition tree_ok :: "nat \<Rightarrow> servst \<Rightarrow> bool" where
  "tree_ok me st \<longleftrightarrow> (\<forall>i. in_use st i \<longrightarrow> (i, me) \<in> (uplink st)\<^sup>*)
     \<and> (in_use st me \<longrightarrow> s_parent (slist st me) = - 1)"

lemma tree_root: "tree_ok me st \<Longrightarrow> (me, p) \<notin> uplink st"
  by (auto simp: tree_ok_def uplink_def)

lemma tree_me: "tree_ok me st \<Longrightarrow> in_use st i \<Longrightarrow> in_use st me"
  unfolding tree_ok_def by (metis (no_types, lifting) uplink_def mem_Collect_eq case_prodD rtrancl.cases)

lemma tree_parent:
  assumes "tree_ok me st" "in_use st i" "i \<noteq> me"
  shows "\<exists>p. (i, p) \<in> uplink st"
proof -
  have "(i, me) \<in> (uplink st)\<^sup>*" using assms(1,2) by (simp add: tree_ok_def)
  then show ?thesis using assms(3) by (cases rule: converse_rtranclE) auto
qed

lemma no_cycle_to_root:
  assumes "(x, me) \<in> r\<^sup>*" "single_valued r" "\<And>p. (me, p) \<notin> r"
  shows "(x, x) \<notin> r\<^sup>+"
  using assms(1)
proof (induction rule: converse_rtrancl_induct)
  case base
  show ?case using assms(3) by (auto dest: tranclD)
next
  case (step x y)
  show ?case
  proof
    assume "(x, x) \<in> r\<^sup>+"
    then obtain z where z: "(x, z) \<in> r" "(z, x) \<in> r\<^sup>*" by (auto dest: tranclD)
    have "z = y" using assms(2) z(1) step(1) by (auto simp: single_valued_def)
    then have "(y, y) \<in> r\<^sup>+" using z(2) step(1) by (simp add: rtrancl_into_trancl1)
    then show False using step(3) by simp
  qed
qed

lemma tree_acyclic:
  assumes "tree_ok me st"
  shows "acyclic (uplink st)"
proof -
  have "(x, x) \<notin> (uplink st)\<^sup>+" for x
  proof
    assume c: "(x, x) \<in> (uplink st)\<^sup>+"
    then have "in_use st x" by (auto simp: uplink_def dest: tranclD)
    then have "(x, me) \<in> (uplink st)\<^sup>*" using assms by (simp add: tree_ok_def)
    from no_cycle_to_root [OF this uplink_single tree_root [OF assms]] c show False by simp
  qed
  then show ?thesis by (simp add: acyclic_def)
qed

text \<open>A state with the same servers and parents.\<close>

lemma tree_same:
  assumes "tree_ok me st"
    "\<And>i. s_name (slist st' i) = None \<longleftrightarrow> s_name (slist st i) = None"
    "\<And>i. s_parent (slist st' i) = s_parent (slist st i)"
  shows "tree_ok me st'"
proof -
  have "in_use st' = in_use st" using assms(2) by (auto simp: in_use_def)
  moreover from this have "uplink st' = uplink st" using assms(3) by (simp add: uplink_def)
  ultimately show ?thesis using assms(1,3) by (simp add: tree_ok_def)
qed

lemma tree_slist: "tree_ok me st \<Longrightarrow> slist st' = slist st \<Longrightarrow> tree_ok me st'"
  by (erule tree_same) simp_all

lemma tree_link_all: "tree_ok me st \<Longrightarrow> tree_ok me (link_all L st)"
  by (erule tree_same) (simp_all add: link_all_slist)

lemma tree_drop_all:
  assumes "tree_ok me st" "closed_down st (set L)"
  shows "tree_ok me (drop_all L st)"
proof -
  have "(i, me) \<in> (uplink (drop_all L st))\<^sup>*" if "in_use (drop_all L st) i" for i
  proof -
    have "(i, me) \<in> (uplink st)\<^sup>*" "i \<notin> set L"
      using assms(1) that by (auto simp: tree_ok_def drop_all_in_use)
    then show ?thesis using path_outside [OF _ assms(2)] by (simp add: drop_all_uplink)
  qed
  then show ?thesis using assms(1) by (simp add: tree_ok_def drop_all_in_use drop_all_slist)
qed

lemma deleteserver_tree:
  assumes "tree_ok me st" "deleteserver n st = Some st'" "n < MAXSERVERS"
  shows "tree_ok me st' \<and> myhub st' = myhub st"
proof (cases "in_use st n")
  case True
  from deleteserver_ok [OF tree_acyclic [OF assms(1)] this]
  obtain L where "st' = drop_all L st" "set L = behind st n" using assms(2) by auto
  then show ?thesis using tree_drop_all [OF assms(1), of L] behind_closed [of st n] by (simp add: drop_all_other)
next
  case False
  then show ?thesis using assms by (simp add: deleteserver_def in_use_def)
qed

text \<open>A new server behind a server in use.\<close>

lemma tree_new:
  assumes t: "tree_ok me st" and n: "n < MAXSERVERS" "s_name (slist st n) = None"
    and p: "in_use st p" and s: "s_name s \<noteq> None" "s_parent s = int p"
  shows "tree_ok me (set_server n s st)" (is "tree_ok me ?st")
proof -
  have "\<not> in_use st n" using n by (simp add: in_use_def)
  then have ne: "n \<noteq> me" "n \<noteq> p" using tree_me [OF t p] p by auto
  have use: "in_use ?st i \<longleftrightarrow> in_use st i \<or> i = n" for i
    using n s(1) by (auto simp: in_use_def set_server_def)
  have "s_parent (slist st i) \<noteq> int n" if "in_use st i" for i
  proof (cases "i = me")
    case True
    then show ?thesis using t that by (auto simp: tree_ok_def)
  next
    case False
    then show ?thesis using tree_parent [OF t that] \<open>\<not> in_use st n\<close> by (auto simp: uplink_def)
  qed
  then have up: "uplink ?st = insert (n, p) (uplink st)"
    using p s(2) ne \<open>\<not> in_use st n\<close> unfolding uplink_def use by (auto simp: set_server_def split: if_splits)
  have old: "(i, me) \<in> (uplink ?st)\<^sup>*" if "in_use st i" for i
    using t that rtrancl_mono [of "uplink st" "uplink ?st"] by (auto simp: tree_ok_def up)
  moreover have "(n, me) \<in> (uplink ?st)\<^sup>*"
    using old [OF p] by (rule converse_rtrancl_into_rtrancl [rotated]) (simp add: up)
  ultimately show ?thesis
    using t ne unfolding tree_ok_def use by (auto simp: set_server_def)
qed


text \<open>The rest of the state of the handlers.\<close>

lemma completelink_tree:
  assumes "tree_ok me st" "completelink n st = Some st'" "n < MAXSERVERS"
  shows "tree_ok me st' \<and> myhub st' = myhub st"
proof (cases "in_use st n")
  case True
  from completelink_ok [OF tree_acyclic [OF assms(1)] this]
  obtain L where "st' = link_all L st" using assms(2) by auto
  then show ?thesis using tree_link_all [OF assms(1), of L] by (simp add: link_all_other)
next
  case False
  then show ?thesis using assms by (simp add: completelink_def in_use_def)
qed

lemma numeric2_bound: "numerictolong s 2 = Some r \<Longrightarrow> 0 \<le> r \<and> r < 4096"
  using numerictolong_loop_bound [of 0 s 2 r 0] by (simp add: numerictolong_def)

lemma findserver_in_use:
  assumes "findserver name st = Some n"
  shows "in_use st n \<and> (\<exists>stored. s_name (slist st n) = Some stored \<and> take (length stored) name = stored)"
  using assms unfolding findserver_def find_Some_iff
  by (auto simp: in_use_def split: option.splits simp del: upt.simps upt_rec)

section \<open>Runs of the module\<close>

text \<open>
  The messages of the link and its loss. A message comes from a server that is in use, as the
  protocol promises, or from the login of our own connection.
\<close>

definition from_server :: "nat \<Rightarrow> string \<Rightarrow> servst \<Rightarrow> bool" where
  "from_server me source st \<longleftrightarrow>
     (if take 4 source = ''INIT'' then in_use st me
      else case numerictolong source 2 of None \<Rightarrow> False | Some p \<Rightarrow> in_use st (nat p))"

inductive server_step :: "nat \<Rightarrow> servst \<Rightarrow> servst \<Rightarrow> bool" for me :: nat where
  introduced: "from_server me source st \<Longrightarrow> handleservermsg me source cargv st = Some st'
    \<Longrightarrow> server_step me st st'"
| burst_ended: "handleeobmsg source st = Some st' \<Longrightarrow> server_step me st st'"
| split_off: "handlesquitmsg cargv st = Some st' \<Longrightarrow> server_step me st st'"
| link_lost: "irc_disconnected st = Some st' \<Longrightarrow> server_step me st st'"
| link_up: "server_step me st (st\<lparr>connected := True\<rparr>)"
| marked: "nextservermarker st = (m, st') \<Longrightarrow> server_step me st st'"

inductive server_reach :: "nat \<Rightarrow> string \<Rightarrow> string \<Rightarrow> int \<Rightarrow> servst \<Rightarrow> bool"
  for me :: nat and name :: string and description :: string and now :: int where
  started: "me < MAXSERVERS \<Longrightarrow> server_reach me name description now (server_init me name description now)"
| stepped: "server_reach me name description now st \<Longrightarrow> server_step me st st'
    \<Longrightarrow> server_reach me name description now st'"

definition server_inv :: "nat \<Rightarrow> servst \<Rightarrow> bool" where
  "server_inv me st \<longleftrightarrow> tree_ok me st \<and> myhub st < int MAXSERVERS"

lemma init_inv: "me < MAXSERVERS \<Longrightarrow> server_inv me (server_init me name description now)"
  by (auto simp: server_inv_def tree_ok_def server_init_def in_use_def no_server_def)

lemma new_server_fields: "s_name (new_server cargv maxn parent s) \<noteq> None"
  "s_parent (new_server cargv maxn parent s) = parent"
  by (simp_all add: new_server_def)

lemma handleservermsg_inv:
  assumes "server_inv me st" "from_server me source st" "handleservermsg me source cargv st = Some st'"
  shows "server_inv me st'"
proof -
  obtain sn where sn: "numerictolong (cargv ! 5) 2 = Some sn"
    using assms(3) by (auto simp: handleservermsg_def bind_eq_Some_conv split: if_splits)
  have n: "nat sn < MAXSERVERS" using numeric2_bound [OF sn] by linarith
  have t: "tree_ok me st" "myhub st < int MAXSERVERS" using assms(1) by (simp_all add: server_inv_def)
  show ?thesis
  proof (cases "s_name (slist st (nat sn)) = None")
    case False
    then show ?thesis using assms(1,3) sn by (auto simp: handleservermsg_def split: if_splits)
  next
    case True
    obtain s p h es1 es2 where st': "st' = signal es1 (set_server (nat sn) s (signal es2 (st\<lparr>myhub := h\<rparr>)))"
      and s: "s_name s \<noteq> None" "s_parent s = int p" and p: "in_use st p" and h: "h < int MAXSERVERS"
    proof (cases "take 4 source = ''INIT''")
      case init: True
      then have "in_use st me" using assms(2) by (simp add: from_server_def)
      moreover have "int (nat sn) < int MAXSERVERS" using n by (simp only: of_nat_less_iff)
      ultimately show ?thesis
        using assms(3) sn True init that [of "[ServerNew (nat sn)]" _ "[SendBurst, SendEB, IrcConnected]" "int (nat sn)" me]
          new_server_fields
        by (auto simp: handleservermsg_def bind_eq_Some_conv Let_def split: if_splits)
    next
      case other: False
      then obtain p where p: "numerictolong source 2 = Some p" "in_use st (nat p)"
        using assms(2) by (auto simp: from_server_def split: option.splits)
      moreover have "int (nat p) = p" using numeric2_bound [OF p(1)] by simp
      moreover have "signal [] (st\<lparr>myhub := myhub st\<rparr>) = st" by (simp add: signal_def)
      ultimately show ?thesis
        using assms(3) sn True other t(2) that [of "[ServerNew (nat sn)]" _ "[]" "myhub st" "nat p"]
          new_server_fields
        by (auto simp: handleservermsg_def bind_eq_Some_conv Let_def split: if_splits)
    qed
    have "tree_ok me (signal es2 (st\<lparr>myhub := h\<rparr>))" using t(1) by (rule tree_slist) (simp add: signal_def)
    then have "tree_ok me (set_server (nat sn) s (signal es2 (st\<lparr>myhub := h\<rparr>)))"
      by (rule tree_new [OF _ n _ _ s]) (use True p in \<open>simp_all add: signal_def in_use_def\<close>)
    then have "tree_ok me st'" unfolding st' by (rule tree_slist) (simp add: signal_def)
    then show ?thesis using h by (simp add: server_inv_def st' signal_def set_server_def)
  qed
qed

lemma handledisconnect_inv:
  assumes "server_inv me st" "handledisconnect st = Some st'"
  shows "server_inv me st'"
proof (cases "myhub st \<ge> 0")
  case True
  then obtain st1 where st1: "deleteserver (nat (myhub st)) st = Some st1" "st' = st1\<lparr>myhub := -1\<rparr>"
    using assms(2) by (auto simp: handledisconnect_def bind_eq_Some_conv)
  have "nat (myhub st) < MAXSERVERS" using assms(1) True by (auto simp: server_inv_def)
  then have "tree_ok me st1" using deleteserver_tree [OF _ st1(1)] assms(1) by (simp add: server_inv_def)
  then show ?thesis using st1(2) by (simp add: server_inv_def tree_slist [of me st1])
next
  case False
  then show ?thesis using assms by (simp add: handledisconnect_def)
qed

lemma irc_disconnected_inv:
  assumes "server_inv me st" "irc_disconnected st = Some st'"
  shows "server_inv me st'"
proof -
  have inv: "server_inv me (signal es (st\<lparr>connected := b\<rparr>))" for es b
    using assms(1) by (auto simp: server_inv_def signal_def intro: tree_slist)
  show ?thesis
  proof (cases "connected st")
    case True
    then show ?thesis using assms(2) handledisconnect_inv [OF inv] by (simp add: irc_disconnected_def)
  next
    case False
    then show ?thesis using assms by (simp add: irc_disconnected_def)
  qed
qed

lemma server_step_inv:
  assumes "server_step me st st'" "server_inv me st"
  shows "server_inv me st'"
  using assms(1)
proof cases
  case introduced
  then show ?thesis using handleservermsg_inv assms(2) by blast
next
  case (burst_ended source)
  then obtain sn st1 where "numerictolong source 2 = Some sn" "completelink (nat sn) st = Some st1"
      and st': "slist st' = slist st1" "myhub st' = myhub st1"
    by (auto simp: handleeobmsg_def bind_eq_Some_conv signal_def)
  then have "tree_ok me st1 \<and> myhub st1 = myhub st"
    using completelink_tree numeric2_bound assms(2) by (fastforce simp: server_inv_def)
  then show ?thesis using assms(2) st' by (auto simp: server_inv_def intro: tree_slist)
next
  case (split_off cargv)
  show ?thesis
  proof (cases "findserver (cargv ! 0) st")
    case None
    then show ?thesis using split_off assms(2) by (auto simp: handlesquitmsg_def split: if_splits)
  next
    case (Some n)
    then have n: "n < MAXSERVERS" using findserver_in_use by (simp add: in_use_def)
    show ?thesis
    proof (cases "int n = myhub st")
      case True
      then have "irc_disconnected st = Some st'"
        using split_off Some by (simp add: handlesquitmsg_def split: if_splits)
      then show ?thesis by (rule irc_disconnected_inv [OF assms(2)])
    next
      case False
      then have "deleteserver n st = Some st'"
        using split_off Some by (simp add: handlesquitmsg_def split: if_splits)
      from deleteserver_tree [OF _ this n] show ?thesis using assms(2) by (auto simp: server_inv_def)
    qed
  qed
next
  case link_lost
  then show ?thesis using irc_disconnected_inv assms(2) by blast
next
  case link_up
  then show ?thesis using assms(2) by (auto simp: server_inv_def intro: tree_slist)
next
  case (marked m)
  then show ?thesis
    using assms(2) by (auto simp: server_inv_def nextservermarker_def Let_def split: if_splits intro: tree_same)
qed

lemma server_reach_inv: "server_reach me name description now st \<Longrightarrow> server_inv me st"
  by (induction rule: server_reach.induct) (auto intro: init_inv server_step_inv)


section \<open>What the module guarantees\<close>

text \<open>
  C3: in every state the module reaches, as long as the servers that introduce others are known,
  every server in use has a path to our own server. Removing a server returns, and removes just
  that server and what is behind it, no slot else being touched, with the two hooks of each
  once, a server after everything behind it. The end of a burst returns, and links just that
  server and the ones that wait for it.
\<close>
theorem server_tree:
  assumes "server_reach me name description now st"
  shows "(\<forall>i. in_use st i \<longrightarrow> (i, me) \<in> (uplink st)\<^sup>*)
    \<and> (\<forall>n. in_use st n \<longrightarrow> (\<exists>L st'. deleteserver n st = Some st' \<and> set L = behind st n \<and> leaves_first st L \<and> distinct L
          \<and> slist st' = (\<lambda>i. if i \<in> behind st n then no_server else slist st i)
          \<and> s_trace st' = s_trace st @ concat (map (\<lambda>m. [ServerPreLost m, ServerLost m]) L)))
    \<and> (\<forall>n. in_use st n \<longrightarrow> (\<exists>st'. completelink n st = Some st'
          \<and> slist st' = (\<lambda>i. if i \<in> waiting st n then (slist st i)\<lparr>s_linkstate := LS_LINKED\<rparr> else slist st i)))"
proof -
  have t: "tree_ok me st" using server_reach_inv [OF assms] by (simp add: server_inv_def)
  have del: "\<exists>L st'. deleteserver n st = Some st' \<and> set L = behind st n \<and> leaves_first st L \<and> distinct L
      \<and> slist st' = (\<lambda>i. if i \<in> behind st n then no_server else slist st i)
      \<and> s_trace st' = s_trace st @ concat (map (\<lambda>m. [ServerPreLost m, ServerLost m]) L)"
    if n: "in_use st n" for n
  proof -
    obtain L where L: "deleteserver n st = Some (drop_all L st)" "leaves_first st L" "set L = behind st n"
      using deleteserver_ok [OF tree_acyclic [OF t] n] by blast
    then show ?thesis
      by (intro exI [of _ L] exI [of _ "drop_all L st"])
        (simp add: drop_all_slist drop_all_trace fun_eq_iff leaves_first_distinct)
  qed
  have link: "\<exists>st'. completelink n st = Some st'
      \<and> slist st' = (\<lambda>i. if i \<in> waiting st n then (slist st i)\<lparr>s_linkstate := LS_LINKED\<rparr> else slist st i)"
    if "in_use st n" for n
    using completelink_ok [OF tree_acyclic [OF t] that] by (auto simp: link_all_slist fun_eq_iff)
  show ?thesis using t del link by (simp add: tree_ok_def)
qed


text \<open>A hub and a server behind it.\<close>

definition hub_message :: "string list" where
  "hub_message = [''hub'', ''1'', ''0'', ''100'', ''J10'', ''ACAAA'', ''+h6'', ''A hub'']"
definition leaf_message :: "string list" where
  "leaf_message = [''leaf'', ''2'', ''0'', ''100'', ''P10'', ''ADAAA'', ''+'', ''A leaf'']"

lemma demo_servers:
  "\<exists>st. server_reach 1 ''me'' ''own'' 7 st \<and> in_use st 3 \<and> (3, 2) \<in> uplink st \<and> (2, 1) \<in> uplink st"
proof -
  let ?s0 = "server_init 1 ''me'' ''own'' 7"
  have num: "numerictolong ''ACAAA'' 2 = Some 2" "numerictolong ''ADAAA'' 2 = Some 3"
    "numerictolong ''AAA'' 3 = Some 0" "numerictolong ''AC'' 2 = Some 2" by code_simp+
  obtain s1 where s1: "handleservermsg 1 ''INIT'' hub_message ?s0 = Some s1"
    "in_use s1 1" "in_use s1 2" "s_parent (slist s1 2) = 1" "slist s1 3 = no_server"
    by (simp add: handleservermsg_def hub_message_def num server_init_def no_server_def set_server_def
      signal_def in_use_def new_server_fields del: not_None_eq)
  obtain s2 where s2: "handleservermsg 1 ''AC'' leaf_message s1 = Some s2"
    "in_use s2 1" "in_use s2 2" "in_use s2 3" "s_parent (slist s2 2) = 1" "s_parent (slist s2 3) = 2"
    using s1(2-5)
    by (simp add: handleservermsg_def leaf_message_def num no_server_def set_server_def signal_def in_use_def
      new_server_fields del: not_None_eq)
  have "server_step 1 ?s0 s1"
    by (rule server_step.introduced [OF _ s1(1)]) (simp add: from_server_def in_use_def server_init_def)
  moreover have "server_reach 1 ''me'' ''own'' 7 ?s0" by (rule server_reach.started) simp
  ultimately have "server_reach 1 ''me'' ''own'' 7 s1" by (rule server_reach.stepped [rotated])
  moreover have "server_step 1 s1 s2"
    by (rule server_step.introduced [OF _ s2(1)]) (use s1(3) in \<open>simp add: from_server_def num\<close>)
  ultimately have "server_reach 1 ''me'' ''own'' 7 s2" by (rule server_reach.stepped)
  then show ?thesis using s2(2-6) by (auto simp: uplink_def)
qed

theorem server_tree_witness:
  "\<exists>st. server_reach 1 ''me'' ''own'' 7 st \<and> 3 \<in> behind st 2
    \<and> (\<exists>L st'. deleteserver 2 st = Some st' \<and> set L = behind st 2 \<and> leaves_first st L \<and> slist st' 3 = no_server)"
proof -
  obtain st where st: "server_reach 1 ''me'' ''own'' 7 st" "(3, 2) \<in> uplink st" "(2, 1) \<in> uplink st"
    using demo_servers by blast
  then have "in_use st 2" "3 \<in> behind st 2" by (auto simp: uplink_def behind_def)
  then show ?thesis using server_tree [OF st(1)] st(1) by fastforce
qed

end
