(* ===== verification/Chains.thy ===== *)
theory Chains
  imports Prelude "HOL-Library.Monad_Syntax"
begin

text \<open>
  Chained hash tables of records that are addressed by numbers: a bucket is the list of the
  addresses in the order of the chain. Used for the accounts and the users, whose records are
  in several chains at once.
\<close>

text \<open>The walk along a chain to the first record with a property; \<open>None\<close> is a freed record.\<close>

fun chain_search :: "(nat \<rightharpoonup> 'r) \<Rightarrow> ('r \<Rightarrow> bool) \<Rightarrow> nat list \<Rightarrow> nat option option" where
  "chain_search recs P [] = Some None"
| "chain_search recs P (a # chain) = do {
     r \<leftarrow> recs a;
     if P r then Some (Some a) else chain_search recs P chain
   }"

text \<open>Every address is, once, in the chain of its bucket and in no other.\<close>

definition chains :: "('b \<Rightarrow> nat list) \<Rightarrow> (nat \<Rightarrow> 'b option) \<Rightarrow> bool" where
  "chains tab bucket \<longleftrightarrow> (\<forall>b. distinct (tab b)) \<and> (\<forall>a b. a \<in> set (tab b) \<longleftrightarrow> bucket a = Some b)"


lemma chains_in: "chains tab bucket \<Longrightarrow> a \<in> set (tab b) \<longleftrightarrow> bucket a = Some b"
  by (simp add: chains_def)

lemma chains_distinct: "chains tab bucket \<Longrightarrow> distinct (tab b)"
  by (simp add: chains_def)

lemma chains_empty: "chains (\<lambda>_. []) (\<lambda>_. None)"
  by (simp add: chains_def)

lemma chains_insert:
  assumes "chains tab bucket" "bucket a = None"
  shows "chains (tab(b := a # tab b)) (bucket(a \<mapsto> b))"
  using assms by (auto simp: chains_def)

lemma chains_remove:
  assumes "chains tab bucket" "bucket a = Some b"
  shows "chains (tab(b := remove1 a (tab b))) (bucket(a := None))"
  using assms by (auto simp: chains_def set_remove1_eq)

lemma chains_same: "chains tab bucket \<Longrightarrow> (\<And>a. bucket' a = bucket a) \<Longrightarrow> chains tab bucket'"
  by (simp add: chains_def)

text \<open>The value of a chain search on a chain of live records.\<close>

lemma chain_search_find:
  "set chain \<subseteq> dom recs \<Longrightarrow>
   chain_search recs P chain = Some (find (\<lambda>a. \<exists>r. recs a = Some r \<and> P r) chain)"
  by (induction chain) auto

text \<open>Under a condition that determines the bucket and the record, the search is a lookup.\<close>

lemma chain_search_key:
  assumes c: "chains tab (\<lambda>a. map_option hash (recs a))"
    and b: "\<And>r. r \<in> ran recs \<Longrightarrow> P r \<Longrightarrow> hash r = b"
    and uniq: "\<And>a a' r r'. recs a = Some r \<Longrightarrow> recs a' = Some r' \<Longrightarrow> P r \<Longrightarrow> P r' \<Longrightarrow> a = a'"
  obtains x where "chain_search recs P (tab b) = Some x"
    "\<And>a. x = Some a \<longleftrightarrow> (\<exists>r. recs a = Some r \<and> P r)"
proof -
  let ?x = "find (\<lambda>a. \<exists>r. recs a = Some r \<and> P r) (tab b)"
  have "set (tab b) \<subseteq> dom recs" using chains_in [OF c] by auto
  then have e: "chain_search recs P (tab b) = Some ?x" by (rule chain_search_find)
  have "?x = Some a \<longleftrightarrow> (\<exists>r. recs a = Some r \<and> P r)" for a
  proof
    assume "?x = Some a"
    then show "\<exists>r. recs a = Some r \<and> P r" by (auto simp: find_Some_iff)
  next
    assume "\<exists>r. recs a = Some r \<and> P r"
    then obtain r where r: "recs a = Some r" "P r" by blast
    then have "hash r = b" using b by (auto simp: ran_def)
    then have "a \<in> set (tab b)" using chains_in [OF c] r(1) by simp
    then have "?x \<noteq> None" using r by (auto simp: find_None_iff)
    then obtain a' where a': "?x = Some a'" by blast
    then obtain r' where "recs a' = Some r'" "P r'" by (auto simp: find_Some_iff)
    then show "?x = Some a" using uniq [OF r(1) _ r(2)] a' by simp
  qed
  then show thesis using that e by blast
qed

end
