(* ===== verification/Auths.thy ===== *)
theory Auths
  imports ChanIndex Chains
begin

text \<open>
  The accounts of the users, \<open>authext/authext.c\<close>: one record for every account id that is in
  use, in a hash table by id and in one by name, counted and with the chain of its users. A
  user is a number here. The handlers of the hook for a lost account are other modules;
  \<open>au_lost\<close> is the trace of it. \<open>None\<close> is the use of a freed record, or the stop of the daemon
  when the tables are inconsistent.
\<close>

section \<open>Records and tables\<close>

abbreviation AUTHNAMEHASHSIZE :: nat where "AUTHNAMEHASHSIZE \<equiv> 60000"
abbreviation MAXAUTHNAMEEXTS :: nat where "MAXAUTHNAMEEXTS \<equiv> 5"
abbreviation ACCOUNTLEN :: nat where "ACCOUNTLEN \<equiv> 15"

record authname =
  an_userid :: nat
  an_usercount :: int
  an_marker :: "32 word"
  an_nicks :: "nat list"
  an_namebucket :: nat
  an_flags :: "64 word"
  an_name :: string
  an_exts :: "nat option list"

record authtab =
  au_byid :: "nat \<Rightarrow> nat list"
  au_byname :: "nat \<Rightarrow> nat list"
  au_recs :: "nat \<rightharpoonup> authname"
  au_extnames :: "string option list"
  au_persistent :: "bool list"
  au_marker :: "32 word"
  au_next :: nat
  au_lost :: "nat list"

definition init_authtab :: authtab where
  "init_authtab = \<lparr>au_byid = (\<lambda>_. []), au_byname = (\<lambda>_. []), au_recs = Map.empty,
     au_extnames = replicate MAXAUTHNAMEEXTS None, au_persistent = replicate MAXAUTHNAMEEXTS False,
     au_marker = 0, au_next = 0, au_lost = []\<rparr>"

definition authnamehash :: "nat \<Rightarrow> nat" where
  "authnamehash x = x mod AUTHNAMEHASHSIZE"

definition authnamehashbyname :: "string \<Rightarrow> nat" where
  "authnamehashbyname x = unat (irc_crc32i x) mod AUTHNAMEHASHSIZE"

section \<open>Operations\<close>

definition findauthname :: "nat \<Rightarrow> authtab \<Rightarrow> nat option option" where
  "findauthname userid st =
     (if userid = 0 then Some None
      else chain_search (au_recs st) (\<lambda>r. userid = an_userid r) (au_byid st (authnamehash userid)))"

definition findauthnamebyname :: "string \<Rightarrow> authtab \<Rightarrow> nat option option" where
  "findauthnamebyname name st =
     chain_search (au_recs st) (\<lambda>r. ircd_strcmp (an_name r) name = 0) (au_byname st (authnamehashbyname name))"

text \<open>\<open>strlcpy\<close> cuts the name; the bucket is that of the whole name.\<close>

definition findorcreateauthname :: "nat \<Rightarrow> string \<Rightarrow> authtab \<Rightarrow> (nat option \<times> authtab) option" where
  "findorcreateauthname userid name st =
     (let thehash = authnamehash userid; secondhash = authnamehashbyname name
      in if userid = 0 then Some (None, st)
         else do {
           found \<leftarrow> chain_search (au_recs st) (\<lambda>r. userid = an_userid r) (au_byid st thehash);
           case found of
             Some anp \<Rightarrow> Some (Some anp, st)
           | None \<Rightarrow>
               (let anp = au_next st;
                    r = \<lparr>an_userid = userid, an_usercount = 0, an_marker = 0, an_nicks = [],
                         an_namebucket = secondhash, an_flags = 0, an_name = take ACCOUNTLEN name,
                         an_exts = replicate MAXAUTHNAMEEXTS None\<rparr>
                in Some (Some anp,
                     st\<lparr>au_byid := (au_byid st)(thehash := anp # au_byid st thehash),
                        au_byname := (au_byname st)(secondhash := anp # au_byname st secondhash),
                        au_recs := (au_recs st)(anp \<mapsto> r), au_next := anp + 1\<rparr>))
         })"

definition kept :: "bool list \<Rightarrow> authname \<Rightarrow> bool" where
  "kept persistent r \<longleftrightarrow> (\<exists>i < MAXAUTHNAMEEXTS. persistent ! i \<and> an_exts r ! i \<noteq> None)"

text \<open>A record that is not in the table by id is only reported.\<close>

definition releaseauthname :: "nat \<Rightarrow> authtab \<Rightarrow> authtab option" where
  "releaseauthname anp st = do {
     r \<leftarrow> au_recs st anp;
     if an_usercount r \<noteq> 0 then Some st
     else let st = st\<lparr>au_recs := (au_recs st)(anp \<mapsto> r\<lparr>an_nicks := []\<rparr>)\<rparr>
       in if kept (au_persistent st) r then Some st
          else let st = st\<lparr>au_lost := au_lost st @ [an_userid r]\<rparr>;
                   h = authnamehash (an_userid r); h2 = an_namebucket r
            in if anp \<notin> set (au_byid st h) then Some st
               else let st = st\<lparr>au_byid := (au_byid st)(h := remove1 anp (au_byid st h))\<rparr>
                 in if anp \<notin> set (au_byname st h2) then None
                    else Some (st\<lparr>au_byname := (au_byname st)(h2 := remove1 anp (au_byname st h2)),
                                  au_recs := (au_recs st)(anp := None)\<rparr>)
   }"

definition getauthbyname :: "string \<Rightarrow> authtab \<Rightarrow> nat option option" where
  "getauthbyname name st = do {
     a \<leftarrow> findauthnamebyname name st;
     case a of None \<Rightarrow> Some None
     | Some anp \<Rightarrow> do { r \<leftarrow> au_recs st anp; Some (if an_nicks r = [] then None else Some anp) }
   }"

text \<open>A user logs in to the account (\<open>handlenickmsg\<close>, \<open>handleaccountmsg\<close>) and leaves (\<open>deletenick\<close>).\<close>

definition auth_join :: "nat \<Rightarrow> nat \<Rightarrow> authtab \<Rightarrow> authtab option" where
  "auth_join anp np st = do {
     r \<leftarrow> au_recs st anp;
     Some (st\<lparr>au_recs := (au_recs st)(anp \<mapsto>
       r\<lparr>an_usercount := an_usercount r + 1, an_nicks := np # an_nicks r\<rparr>)\<rparr>)
   }"

definition auth_part :: "nat \<Rightarrow> nat \<Rightarrow> authtab \<Rightarrow> authtab option" where
  "auth_part anp np st = do {
     r \<leftarrow> au_recs st anp;
     releaseauthname anp (st\<lparr>au_recs := (au_recs st)(anp \<mapsto>
       r\<lparr>an_usercount := an_usercount r - 1, an_nicks := remove1 np (an_nicks r)\<rparr>)\<rparr>)
   }"

text \<open>The extensions. A released slot keeps its mark of persistence until it is taken again.\<close>

definition findauthnameext :: "string \<Rightarrow> authtab \<Rightarrow> int" where
  "findauthnameext name st = ext_find name 0 (au_extnames st)"

definition registerauthnameext :: "string \<Rightarrow> bool \<Rightarrow> authtab \<Rightarrow> int \<times> authtab" where
  "registerauthnameext name persistent st =
     (if findauthnameext name st \<noteq> - 1 then (- 1, st)
      else case free_ext 0 (au_extnames st) of
        Some i \<Rightarrow> (int i, st\<lparr>au_extnames := (au_extnames st)[i := Some (sstr name 100)],
                             au_persistent := (au_persistent st)[i := persistent]\<rparr>)
      | None \<Rightarrow> (- 1, st))"

definition releaseauthnameext :: "nat \<Rightarrow> authtab \<Rightarrow> authtab option" where
  "releaseauthnameext index st =
     (if index < MAXAUTHNAMEEXTS
      then Some (st\<lparr>au_extnames := (au_extnames st)[index := None],
                    au_recs := (\<lambda>anp.
                      if \<exists>i < AUTHNAMEHASHSIZE. anp \<in> set (au_byid st i)
                      then map_option (\<lambda>r. r\<lparr>an_exts := (an_exts r)[index := None]\<rparr>) (au_recs st anp)
                      else au_recs st anp)\<rparr>)
      else None)"

definition nextauthnamemarker :: "authtab \<Rightarrow> 32 word \<times> authtab" where
  "nextauthnamemarker st =
     (let st = st\<lparr>au_marker := au_marker st + 1\<rparr>;
          st = (if au_marker st = 0
                then st\<lparr>au_recs := (\<lambda>anp.
                       if \<exists>i < AUTHNAMEHASHSIZE. anp \<in> set (au_byid st i)
                       then map_option (\<lambda>r. r\<lparr>an_marker := 0\<rparr>) (au_recs st anp) else au_recs st anp),
                     au_marker := au_marker st + 1\<rparr>
                else st)
      in (au_marker st, st))"

section \<open>The tables hold one record for every account\<close>

definition auth_wf :: "authname \<Rightarrow> bool" where
  "auth_wf r \<longleftrightarrow> an_userid r \<noteq> 0 \<and> cstring (an_name r) \<and> length (an_exts r) = MAXAUTHNAMEEXTS"

definition auth_ok :: "authtab \<Rightarrow> bool" where
  "auth_ok st \<longleftrightarrow>
     chains (au_byid st) (\<lambda>a. map_option (authnamehash \<circ> an_userid) (au_recs st a))
     \<and> chains (au_byname st) (\<lambda>a. map_option an_namebucket (au_recs st a))
     \<and> (\<forall>a r. au_recs st a = Some r \<longrightarrow> a < au_next st \<and> auth_wf r)
     \<and> (\<forall>a b r s. au_recs st a = Some r \<longrightarrow> au_recs st b = Some s \<longrightarrow> an_userid r = an_userid s \<longrightarrow> a = b)
     \<and> length (au_extnames st) = MAXAUTHNAMEEXTS \<and> length (au_persistent st) = MAXAUTHNAMEEXTS"

text \<open>The record of an account id.\<close>

definition auth_of :: "authtab \<Rightarrow> nat \<Rightarrow> nat option" where
  "auth_of st u = find (\<lambda>a. \<exists>r. au_recs st a = Some r \<and> an_userid r = u) (au_byid st (authnamehash u))"

lemma init_authtab_ok: "auth_ok init_authtab"
  by (simp add: auth_ok_def init_authtab_def chains_empty)

lemma auth_parts:
  assumes "auth_ok st"
  shows "chains (au_byid st) (\<lambda>a. map_option (authnamehash \<circ> an_userid) (au_recs st a))"
    "chains (au_byname st) (\<lambda>a. map_option an_namebucket (au_recs st a))"
    "au_recs st a = Some r \<Longrightarrow> a < au_next st" "au_recs st a = Some r \<Longrightarrow> auth_wf r"
    "au_recs st a = Some r \<Longrightarrow> au_recs st b = Some s \<Longrightarrow> an_userid r = an_userid s \<Longrightarrow> a = b"
    "length (au_extnames st) = MAXAUTHNAMEEXTS" "length (au_persistent st) = MAXAUTHNAMEEXTS"
  using assms unfolding auth_ok_def by blast+

lemma search_byid:
  assumes ok: "auth_ok st"
  shows "chain_search (au_recs st) (\<lambda>r. u = an_userid r) (au_byid st (authnamehash u)) = Some (auth_of st u)"
    "auth_of st u = Some a \<longleftrightarrow> (\<exists>r. au_recs st a = Some r \<and> an_userid r = u)"
proof -
  have "set (au_byid st (authnamehash u)) \<subseteq> dom (au_recs st)"
    using chains_in [OF auth_parts(1) [OF ok]] by auto
  from chain_search_find [OF this, of "\<lambda>r. u = an_userid r"]
  show e: "chain_search (au_recs st) (\<lambda>r. u = an_userid r) (au_byid st (authnamehash u)) = Some (auth_of st u)"
    by (simp add: auth_of_def eq_commute [of u])
  obtain x where x: "chain_search (au_recs st) (\<lambda>r. u = an_userid r) (au_byid st (authnamehash u)) = Some x"
      "\<And>a. x = Some a \<longleftrightarrow> (\<exists>r. au_recs st a = Some r \<and> u = an_userid r)"
    by (rule chain_search_key [OF auth_parts(1) [OF ok], of "\<lambda>r. u = an_userid r" "authnamehash u"])
      (use auth_parts(5) [OF ok] in auto)
  show "auth_of st u = Some a \<longleftrightarrow> (\<exists>r. au_recs st a = Some r \<and> an_userid r = u)"
    using x e by auto
qed

lemma auth_of_eqI:
  assumes "auth_ok st" "\<And>a. (\<exists>r. au_recs st a = Some r \<and> an_userid r = u) \<longleftrightarrow> x = Some a"
  shows "auth_of st u = x"
  using search_byid(2) [OF assms(1), of u] assms(2) by (cases x; cases "auth_of st u") auto

lemma auth_of_live: "auth_ok st \<Longrightarrow> au_recs st a = Some r \<Longrightarrow> auth_of st (an_userid r) = Some a"
  using search_byid(2) by blast

lemma auth_okI:
  assumes "chains (au_byid st) (\<lambda>a. map_option (authnamehash \<circ> an_userid) (au_recs st a))"
    "chains (au_byname st) (\<lambda>a. map_option an_namebucket (au_recs st a))"
    "\<And>a r. au_recs st a = Some r \<Longrightarrow> a < au_next st \<and> auth_wf r"
    "\<And>a b r s. au_recs st a = Some r \<Longrightarrow> au_recs st b = Some s \<Longrightarrow> an_userid r = an_userid s \<Longrightarrow> a = b"
    "length (au_extnames st) = MAXAUTHNAMEEXTS \<and> length (au_persistent st) = MAXAUTHNAMEEXTS"
  shows "auth_ok st"
  unfolding auth_ok_def using assms by blast

text \<open>A record that keeps its id may change otherwise.\<close>

lemma auth_update:
  assumes ok: "auth_ok st" and r: "au_recs st a = Some r" and r': "an_userid r' = an_userid r"
      "an_namebucket r' = an_namebucket r" "auth_wf r'"
  shows "auth_ok (st\<lparr>au_recs := (au_recs st)(a \<mapsto> r')\<rparr>)"
    "auth_of (st\<lparr>au_recs := (au_recs st)(a \<mapsto> r')\<rparr>) = auth_of st"
proof -
  let ?st = "st\<lparr>au_recs := (au_recs st)(a \<mapsto> r')\<rparr>"
  have c1: "chains (au_byid ?st) (\<lambda>a. map_option (authnamehash \<circ> an_userid) (au_recs ?st a))"
    using r r' chains_same [OF auth_parts(1) [OF ok]] by (auto intro: chains_same [OF auth_parts(1) [OF ok]])
  have c2: "chains (au_byname ?st) (\<lambda>a. map_option an_namebucket (au_recs ?st a))"
    using r r' by (auto intro: chains_same [OF auth_parts(2) [OF ok]])
  have c3: "b < au_next ?st \<and> auth_wf s" if "au_recs ?st b = Some s" for b s
    using that auth_parts(3,4) [OF ok, of b] auth_parts(3) [OF ok r] r' by (auto split: if_splits)
  have c4: "b = c" if "au_recs ?st b = Some s" "au_recs ?st c = Some q" "an_userid s = an_userid q" for b c s q
  proof -
    have "\<exists>x y. au_recs st b = Some x \<and> au_recs st c = Some y \<and> an_userid x = an_userid y"
      using that r r'(1) by (auto split: if_splits)
    then show ?thesis using auth_parts(5) [OF ok] by blast
  qed
  show ok': "auth_ok ?st" using auth_parts(6,7) [OF ok] by - (rule auth_okI, rule c1, rule c2, erule c3, erule (2) c4, simp)
  show "auth_of ?st = auth_of st"
  proof (rule ext)
    fix u
    show "auth_of ?st u = auth_of st u"
      by (rule auth_of_eqI [OF ok']) (use r r' search_byid(2) [OF ok, of u] in auto)
  qed
qed

lemma auth_create:
  assumes ok: "auth_ok st" and u: "userid \<noteq> 0" and name: "cstring name"
  obtains a st' where "findorcreateauthname userid name st = Some (Some a, st')" "auth_ok st'"
    "auth_of st' = (auth_of st)(userid \<mapsto> a)"
    "auth_of st userid = Some a \<and> st' = st
     \<or> auth_of st userid = None \<and> au_recs st a = None \<and> au_persistent st' = au_persistent st \<and>
       au_recs st' = (au_recs st)(a \<mapsto> \<lparr>an_userid = userid, an_usercount = 0, an_marker = 0, an_nicks = [],
         an_namebucket = authnamehashbyname name, an_flags = 0, an_name = take ACCOUNTLEN name,
         an_exts = replicate MAXAUTHNAMEEXTS None\<rparr>)"
proof (cases "auth_of st userid")
  case (Some a)
  then have "findorcreateauthname userid name st = Some (Some a, st)"
    using u search_byid(1) [OF ok, of userid] by (simp add: findorcreateauthname_def Let_def)
  then show thesis by (rule that) (use ok Some in auto)
next
  case None
  let ?a = "au_next st" and ?h = "authnamehash userid" and ?h2 = "authnamehashbyname name"
  let ?r = "\<lparr>an_userid = userid, an_usercount = 0, an_marker = 0, an_nicks = [], an_namebucket = ?h2,
    an_flags = 0, an_name = take ACCOUNTLEN name, an_exts = replicate MAXAUTHNAMEEXTS None\<rparr>"
  let ?st = "st\<lparr>au_byid := (au_byid st)(?h := ?a # au_byid st ?h),
    au_byname := (au_byname st)(?h2 := ?a # au_byname st ?h2),
    au_recs := (au_recs st)(?a \<mapsto> ?r), au_next := ?a + 1\<rparr>"
  have e: "findorcreateauthname userid name st = Some (Some ?a, ?st)"
    using u None search_byid(1) [OF ok, of userid] by (simp add: findorcreateauthname_def Let_def)
  have nd: "au_recs st ?a = None"
    using auth_parts(3) [OF ok, of ?a] by (cases "au_recs st ?a") auto
  have other: "an_userid s \<noteq> userid" if "au_recs st b = Some s" for b s
    using that None search_byid(2) [OF ok, of userid] by (cases "auth_of st userid") auto
  have wf: "auth_wf ?r" using u name by (auto simp: auth_wf_def cstring_def dest: in_set_takeD)
  have c1: "chains (au_byid ?st) (\<lambda>a. map_option (authnamehash \<circ> an_userid) (au_recs ?st a))"
    using chains_insert [OF auth_parts(1) [OF ok], of ?a ?h] nd by (auto elim!: chains_same)
  have c2: "chains (au_byname ?st) (\<lambda>a. map_option an_namebucket (au_recs ?st a))"
    using chains_insert [OF auth_parts(2) [OF ok], of ?a ?h2] nd by (auto elim!: chains_same)
  have c3: "b < au_next ?st \<and> auth_wf s" if "au_recs ?st b = Some s" for b s
    using that auth_parts(3,4) [OF ok, of b] wf by (auto split: if_splits simp: less_SucI)
  have c4: "b = c" if "au_recs ?st b = Some s" "au_recs ?st c = Some q" "an_userid s = an_userid q" for b c s q
    using that auth_parts(5) [OF ok, of b s c q] other [of b s] other [of c q] by (auto split: if_splits)
  have ok': "auth_ok ?st" using auth_parts(6,7) [OF ok] by - (rule auth_okI, rule c1, rule c2, erule c3, erule (2) c4, simp)
  have "auth_of ?st u = ((auth_of st)(userid \<mapsto> ?a)) u" for u
    by (rule auth_of_eqI [OF ok']) (use other nd search_byid(2) [OF ok, of u] in auto)
  then have "auth_of ?st = (auth_of st)(userid \<mapsto> ?a)" by (rule ext)
  with e ok' show thesis by (rule that) (use None nd in simp)
qed

lemma auth_release:
  assumes ok: "auth_ok st" and r: "au_recs st a = Some r"
  obtains st' where "releaseauthname a st = Some st'" "auth_ok st'"
    "au_recs st' = (if an_usercount r \<noteq> 0 then au_recs st
       else if kept (au_persistent st) r then (au_recs st)(a \<mapsto> r\<lparr>an_nicks := []\<rparr>)
       else (au_recs st)(a := None))"
    "auth_of st' = (if an_usercount r = 0 \<and> \<not> kept (au_persistent st) r
       then (auth_of st)(an_userid r := None) else auth_of st)"
    "au_persistent st' = au_persistent st"
proof (cases "an_usercount r = 0")
  case False
  then have "releaseauthname a st = Some st" using r by (simp add: releaseauthname_def)
  then show thesis by (rule that) (use ok False in simp_all)
next
  case zero: True
  let ?r = "r\<lparr>an_nicks := []\<rparr>"
  let ?st = "st\<lparr>au_recs := (au_recs st)(a \<mapsto> ?r)\<rparr>"
  have wf: "auth_wf ?r" using auth_parts(4) [OF ok r] by (simp add: auth_wf_def)
  note u = auth_update [OF ok r, of ?r, simplified, OF wf]
  show thesis
  proof (cases "kept (au_persistent st) r")
    case True
    then have "releaseauthname a st = Some ?st" using r zero by (simp add: releaseauthname_def)
    then show thesis by (rule that) (use u zero True in simp_all)
  next
    case False
    let ?h = "authnamehash (an_userid r)" and ?h2 = "an_namebucket r"
    let ?st' = "st\<lparr>au_byid := (au_byid st)(?h := remove1 a (au_byid st ?h)),
      au_byname := (au_byname st)(?h2 := remove1 a (au_byname st ?h2)),
      au_recs := (au_recs st)(a := None), au_lost := au_lost st @ [an_userid r]\<rparr>"
    have "a \<in> set (au_byid st ?h)" "a \<in> set (au_byname st ?h2)"
      using chains_in [OF auth_parts(1) [OF ok]] chains_in [OF auth_parts(2) [OF ok]] r by auto
    then have e: "releaseauthname a st = Some ?st'"
      using r zero False by (simp add: releaseauthname_def Let_def)
    have c1: "chains (au_byid ?st') (\<lambda>a. map_option (authnamehash \<circ> an_userid) (au_recs ?st' a))"
      using chains_remove [OF auth_parts(1) [OF ok], of a ?h] r by (auto elim!: chains_same)
    have c2: "chains (au_byname ?st') (\<lambda>a. map_option an_namebucket (au_recs ?st' a))"
      using chains_remove [OF auth_parts(2) [OF ok], of a ?h2] r by (auto elim!: chains_same)
    have c3: "b < au_next ?st' \<and> auth_wf s" if "au_recs ?st' b = Some s" for b s
      using that auth_parts(3,4) [OF ok, of b] by (auto split: if_splits)
    have c4: "b = c" if "au_recs ?st' b = Some s" "au_recs ?st' c = Some q" "an_userid s = an_userid q" for b c s q
      using that auth_parts(5) [OF ok, of b s c q] by (simp split: if_splits)
    have ok': "auth_ok ?st'" using auth_parts(6,7) [OF ok] by - (rule auth_okI, rule c1, rule c2, erule c3, erule (2) c4, simp)
    have only: "b = a" if "au_recs st b = Some s" "an_userid s = an_userid r" for b s
      using that auth_parts(5) [OF ok _ r] by blast
    have "auth_of ?st' v = ((auth_of st)(an_userid r := None)) v" for v
    proof (rule auth_of_eqI [OF ok'])
      fix b
      show "(\<exists>s. au_recs ?st' b = Some s \<and> an_userid s = v) \<longleftrightarrow> ((auth_of st)(an_userid r := None)) v = Some b"
      proof (cases "b = a")
        case True
        then show ?thesis using search_byid(2) [OF ok, of v a] r by auto
      next
        case False
        then have "auth_of st (an_userid r) \<noteq> Some b" using only search_byid(2) [OF ok] by blast
        then show ?thesis using False search_byid(2) [OF ok, of v b] by auto
      qed
    qed
    then have "auth_of ?st' = (auth_of st)(an_userid r := None)" by (rule ext)
    then show thesis by (intro that [OF e ok']) (use zero False in simp_all)
  qed
qed

text \<open>Users of an account.\<close>

lemma auth_join_ok:
  assumes ok: "auth_ok st" and r: "au_recs st a = Some r"
  obtains st' where "auth_join a np st = Some st'" "auth_ok st'" "auth_of st' = auth_of st"
    "au_recs st' = (au_recs st)(a \<mapsto> r\<lparr>an_usercount := an_usercount r + 1, an_nicks := np # an_nicks r\<rparr>)"
    "au_persistent st' = au_persistent st"
proof -
  let ?r = "r\<lparr>an_usercount := an_usercount r + 1, an_nicks := np # an_nicks r\<rparr>"
  have "auth_wf ?r" using auth_parts(4) [OF ok r] by (simp add: auth_wf_def)
  note u = auth_update [OF ok r, of ?r, simplified, OF this]
  have "auth_join a np st = Some (st\<lparr>au_recs := (au_recs st)(a \<mapsto> ?r)\<rparr>)" using r by (simp add: auth_join_def)
  then show thesis by (rule that) (use u in simp_all)
qed

lemma auth_part_ok:
  fixes np :: nat
  assumes ok: "auth_ok st" and r: "au_recs st a = Some r"
  defines "r' \<equiv> r\<lparr>an_usercount := an_usercount r - 1, an_nicks := remove1 np (an_nicks r)\<rparr>"
  obtains st' where "auth_part a np st = Some st'" "auth_ok st'"
    "au_recs st' = (if an_usercount r \<noteq> 1 then (au_recs st)(a \<mapsto> r')
       else if kept (au_persistent st) r then (au_recs st)(a \<mapsto> r'\<lparr>an_nicks := []\<rparr>)
       else (au_recs st)(a := None))"
    "au_persistent st' = au_persistent st"
proof -
  have wf: "auth_wf r'" using auth_parts(4) [OF ok r] by (simp add: auth_wf_def r'_def)
  let ?st = "st\<lparr>au_recs := (au_recs st)(a \<mapsto> r')\<rparr>"
  have ok1: "auth_ok ?st" by (rule auth_update(1) [OF ok r _ _ wf]) (simp_all add: r'_def)
  have r1: "au_recs ?st a = Some r'" by simp
  obtain st' where st': "releaseauthname a ?st = Some st'" "auth_ok st'"
    "au_recs st' = (if an_usercount r' \<noteq> 0 then au_recs ?st
       else if kept (au_persistent ?st) r' then (au_recs ?st)(a \<mapsto> r'\<lparr>an_nicks := []\<rparr>)
       else (au_recs ?st)(a := None))" "au_persistent st' = au_persistent ?st"
    by (rule auth_release [OF ok1 r1])
  have "auth_part a np st = Some st'" using r st'(1) by (simp add: auth_part_def r'_def)
  moreover have "kept (au_persistent st) r' = kept (au_persistent st) r" "an_usercount r' = 0 \<longleftrightarrow> an_usercount r = 1"
    by (simp_all add: kept_def r'_def)
  then have "au_recs st' = (if an_usercount r \<noteq> 1 then (au_recs st)(a \<mapsto> r')
       else if kept (au_persistent st) r then (au_recs st)(a \<mapsto> r'\<lparr>an_nicks := []\<rparr>)
       else (au_recs st)(a := None))" "au_persistent st' = au_persistent st"
    using st'(3,4) by simp_all
  ultimately show thesis using that st'(2) by blast
qed

lemma auth_part_view:
  assumes ok: "auth_ok st" and r: "au_recs st a = Some r"
  shows "\<exists>st'. auth_part a np st = Some st' \<and> auth_ok st'
    \<and> auth_of st' = (if an_usercount r = 1 \<and> \<not> kept (au_persistent st) r
         then (auth_of st)(an_userid r := None) else auth_of st)"
proof -
  let ?r = "r\<lparr>an_usercount := an_usercount r - 1, an_nicks := remove1 np (an_nicks r)\<rparr>"
  obtain st' where st': "auth_part a np st = Some st'" "auth_ok st'"
    "au_recs st' = (if an_usercount r \<noteq> 1 then (au_recs st)(a \<mapsto> ?r)
       else if kept (au_persistent st) r then (au_recs st)(a \<mapsto> ?r\<lparr>an_nicks := []\<rparr>)
       else (au_recs st)(a := None))"
    by (rule auth_part_ok [OF ok r])
  have "auth_of st' u = (if an_usercount r = 1 \<and> \<not> kept (au_persistent st) r
      then (auth_of st)(an_userid r := None) else auth_of st) u" for u
  proof (rule auth_of_eqI [OF st'(2)])
    fix b
    have "b = a" if "au_recs st b = Some s" "an_userid s = an_userid r" for s
      using that auth_parts(5) [OF ok _ r] by blast
    then show "(\<exists>s. au_recs st' b = Some s \<and> an_userid s = u) \<longleftrightarrow>
        (if an_usercount r = 1 \<and> \<not> kept (au_persistent st) r
         then (auth_of st)(an_userid r := None) else auth_of st) u = Some b"
      using r st'(3) search_byid(2) [OF ok, of u b] by (cases "b = a") auto
  qed
  then show ?thesis using st'(1,2) by (intro exI [of _ st']) (simp add: fun_eq_iff)
qed

section \<open>Extensions and markers\<close>

lemma live_in_bucket:
  assumes "auth_ok st" "au_recs st a = Some r"
  shows "\<exists>i < AUTHNAMEHASHSIZE. a \<in> set (au_byid st i)"
  by (rule exI [of _ "authnamehash (an_userid r)"])
    (use assms chains_in [OF auth_parts(1) [OF assms(1)]] in \<open>simp add: authnamehash_def\<close>)

text \<open>A walk over all buckets changes every record.\<close>

lemma auth_walk:
  assumes "auth_ok st"
  shows "(\<lambda>a. if \<exists>i < AUTHNAMEHASHSIZE. a \<in> set (au_byid st i) then map_option f (au_recs st a) else au_recs st a)
    = (\<lambda>a. map_option f (au_recs st a))"
proof
  fix a show "(if \<exists>i < AUTHNAMEHASHSIZE. a \<in> set (au_byid st i) then map_option f (au_recs st a) else au_recs st a)
    = map_option f (au_recs st a)"
    using live_in_bucket [OF assms, of a] by (cases "au_recs st a") auto
qed

lemma auth_map_ok:
  assumes ok: "auth_ok st" and f: "\<And>r. an_userid (f r) = an_userid r" "\<And>r. an_namebucket (f r) = an_namebucket r"
      "\<And>r. auth_wf r \<Longrightarrow> auth_wf (f r)"
    and st': "au_recs st' = (\<lambda>a. map_option f (au_recs st a))" "au_byid st' = au_byid st" "au_byname st' = au_byname st"
      "au_next st' = au_next st" "length (au_extnames st') = MAXAUTHNAMEEXTS" "length (au_persistent st') = MAXAUTHNAMEEXTS"
  shows "auth_ok st'"
proof (rule auth_okI)
  show "chains (au_byid st') (\<lambda>a. map_option (authnamehash \<circ> an_userid) (au_recs st' a))"
    using auth_parts(1) [OF ok] f(1) by (simp add: st' option.map_comp comp_def)
  show "chains (au_byname st') (\<lambda>a. map_option an_namebucket (au_recs st' a))"
    using auth_parts(2) [OF ok] f(2) by (simp add: st' option.map_comp comp_def)
  fix a r assume "au_recs st' a = Some r"
  then show "a < au_next st' \<and> auth_wf r" using auth_parts(3,4) [OF ok] f(3) by (auto simp: st')
next
  fix a b r s assume "au_recs st' a = Some r" "au_recs st' b = Some s" "an_userid r = an_userid s"
  then show "a = b" using auth_parts(5) [OF ok] f(1) by (auto simp: st')
qed (simp add: st')

lemma releaseauthnameext_ok:
  assumes ok: "auth_ok st" and i: "index < MAXAUTHNAMEEXTS"
  obtains st' where "releaseauthnameext index st = Some st'" "auth_ok st'"
    "\<And>a r. au_recs st' a = Some r \<Longrightarrow> an_exts r ! index = None"
proof -
  let ?f = "\<lambda>r. r\<lparr>an_exts := (an_exts r)[index := None]\<rparr>"
  let ?st = "st\<lparr>au_extnames := (au_extnames st)[index := None], au_recs := (\<lambda>a. map_option ?f (au_recs st a))\<rparr>"
  have e: "releaseauthnameext index st = Some ?st" unfolding releaseauthnameext_def auth_walk [OF ok] using i by simp
  have "auth_ok ?st"
    by (rule auth_map_ok [OF ok, of ?f]) (use auth_parts(6,7) [OF ok] in \<open>simp_all add: auth_wf_def\<close>)
  moreover have "an_exts r ! index = None" if "au_recs ?st a = Some r" for a r
    using that auth_parts(4) [OF ok, of a] i by (auto simp: auth_wf_def)
  ultimately show thesis using that e by blast
qed

text \<open>A new marker is on no record, also when the counter wraps.\<close>

definition auth_marks_ok :: "authtab \<Rightarrow> bool" where
  "auth_marks_ok st \<longleftrightarrow> (\<forall>a r. au_recs st a = Some r \<longrightarrow> an_marker r \<le> au_marker st)"

lemma nextauthnamemarker_fresh:
  assumes ok: "auth_ok st" "auth_marks_ok st" and m: "nextauthnamemarker st = (m, st')"
  shows "auth_marks_ok st' \<and> (\<forall>a r. au_recs st' a = Some r \<longrightarrow> an_marker r \<noteq> m)"
proof (cases "au_marker st + 1 = 0")
  case True
  then have st': "m = 1" "au_marker st' = 1" "au_recs st' = (\<lambda>a. map_option (\<lambda>r. r\<lparr>an_marker := 0\<rparr>) (au_recs st a))"
    using m auth_walk [OF ok(1), of "\<lambda>r. r\<lparr>an_marker := 0\<rparr>"] by (auto simp: nextauthnamemarker_def Let_def cong: if_cong)
  then show ?thesis by (auto simp: auth_marks_ok_def)
next
  case False
  then have st': "m = au_marker st + 1" "au_marker st' = m" "au_recs st' = au_recs st"
    using m by (auto simp: nextauthnamemarker_def Let_def)
  have "au_marker st < m" using succ_word_gt [OF False] st'(1) by simp
  then have "an_marker r < m" if "au_recs st' a = Some r" for a r
    using that ok(2) st'(3) unfolding auth_marks_ok_def by (metis order.strict_trans1)
  then show ?thesis using st'(2) unfolding auth_marks_ok_def by (metis less_imp_le less_irrefl)
qed

section \<open>What the table promises\<close>

text \<open>The bucket by name is that of the stored name, if the name was not cut.\<close>

definition names_ok :: "authtab \<Rightarrow> bool" where
  "names_ok st \<longleftrightarrow> (\<forall>a r. au_recs st a = Some r \<longrightarrow> an_namebucket r = authnamehashbyname (an_name r))"

lemma authnamehashbyname_lower: "lower a = lower b \<Longrightarrow> authnamehashbyname a = authnamehashbyname b"
  by (simp add: authnamehashbyname_def irc_crc32i_def irc_crc32i_loop_lower)

lemma findauthnamebyname_ok:
  assumes ok: "auth_ok st" "names_ok st" and name: "cstring name"
  obtains x where "findauthnamebyname name st = Some x"
    "x = None \<Longrightarrow> au_recs st a = Some r \<Longrightarrow> lower (an_name r) \<noteq> lower name"
    "x = Some a \<Longrightarrow> \<exists>r. au_recs st a = Some r \<and> lower (an_name r) = lower name"
proof -
  let ?P = "\<lambda>a. \<exists>r. au_recs st a = Some r \<and> ircd_strcmp (an_name r) name = 0"
  let ?x = "find ?P (au_byname st (authnamehashbyname name))"
  have same: "ircd_strcmp (an_name r) name = 0 \<longleftrightarrow> lower (an_name r) = lower name"
    if "au_recs st a = Some r" for a r
    using auth_parts(4) [OF ok(1) that] name by (simp add: auth_wf_def ircd_strcmp_lower)
  have "set (au_byname st (authnamehashbyname name)) \<subseteq> dom (au_recs st)"
    using chains_in [OF auth_parts(2) [OF ok(1)]] by auto
  then have e: "findauthnamebyname name st = Some ?x"
    by (simp add: findauthnamebyname_def chain_search_find)
  have "lower (an_name r) \<noteq> lower name" if "?x = None" "au_recs st a = Some r" for a r
  proof
    assume l: "lower (an_name r) = lower name"
    have "an_namebucket r = authnamehashbyname (an_name r)" using ok(2) that(2) by (simp add: names_ok_def)
    then have "an_namebucket r = authnamehashbyname name" using authnamehashbyname_lower [OF l] by simp
    then have "a \<in> set (au_byname st (authnamehashbyname name))"
      using chains_in [OF auth_parts(2) [OF ok(1)]] that(2) by simp
    then show False using that l same by (auto simp: find_None_iff)
  qed
  moreover have "\<exists>r. au_recs st a = Some r \<and> lower (an_name r) = lower name" if "?x = Some a" for a
    using that same by (auto simp: find_Some_iff)
  ultimately show thesis using that e by blast
qed

text \<open>
  C13: the accounts are a map from ids to records. \<open>findauthname\<close> finds the record of an id, the
  id 0 having none; \<open>findorcreateauthname\<close> returns it or makes one, and keeps the old name of an
  account that was renamed; a user that leaves takes the record out exactly when it was the last
  and no persistent extension holds the record. No record is read after it is freed, and the
  stop of the daemon for tables that disagree cannot happen.
\<close>
theorem accounts_refine_map:
  assumes "auth_ok st"
  shows "(\<forall>u. findauthname u st = Some (if u = 0 then None else auth_of st u))
    \<and> (\<forall>u name. u \<noteq> (0 :: nat) \<and> cstring name \<longrightarrow> (\<exists>a st'. findorcreateauthname u name st = Some (Some a, st')
          \<and> auth_ok st' \<and> auth_of st' = (auth_of st)(u \<mapsto> a) \<and> (auth_of st u \<noteq> None \<longrightarrow> st' = st)))
    \<and> (\<forall>a r np. au_recs st a = Some r \<longrightarrow> (\<exists>st'. auth_join a np st = Some st' \<and> auth_ok st' \<and> auth_of st' = auth_of st))
    \<and> (\<forall>a r np. au_recs st a = Some r \<longrightarrow> (\<exists>st'. auth_part a np st = Some st' \<and> auth_ok st'
          \<and> auth_of st' = (if an_usercount r = 1 \<and> \<not> kept (au_persistent st) r
               then (auth_of st)(an_userid r := None) else auth_of st)))"
proof (intro conjI allI impI)
  fix u show "findauthname u st = Some (if u = 0 then None else auth_of st u)"
    using search_byid(1) [OF assms, of u] by (simp add: findauthname_def)
next
  fix u :: nat and name assume "u \<noteq> 0 \<and> cstring name"
  then show "\<exists>a st'. findorcreateauthname u name st = Some (Some a, st')
      \<and> auth_ok st' \<and> auth_of st' = (auth_of st)(u \<mapsto> a) \<and> (auth_of st u \<noteq> None \<longrightarrow> st' = st)"
    using auth_create [OF assms, of u name] by (metis option.distinct(1))
next
  fix a r np assume "au_recs st a = Some r"
  then show "\<exists>st'. auth_join a np st = Some st' \<and> auth_ok st' \<and> auth_of st' = auth_of st"
    using auth_join_ok [OF assms] by metis
next
  fix a r np assume "au_recs st a = Some r"
  then show "\<exists>st'. auth_part a np st = Some st' \<and> auth_ok st'
      \<and> auth_of st' = (if an_usercount r = 1 \<and> \<not> kept (au_persistent st) r
           then (auth_of st)(an_userid r := None) else auth_of st)"
    by (rule auth_part_view [OF assms])
qed

theorem accounts_refine_map_witness:
  "\<exists>a st st'. findorcreateauthname 7 ''Bob'' init_authtab = Some (Some a, st)
     \<and> findauthname 7 st = Some (Some a) \<and> findauthname 8 st = Some None
     \<and> findorcreateauthname 7 ''Robert'' st = Some (Some a, st)"
proof -
  have c: "cstring ''Bob''" "cstring ''Robert''" by (simp_all add: cstring_def)
  note t = accounts_refine_map [OF init_authtab_ok]
  have "auth_of init_authtab = Map.empty" by (simp add: auth_of_def init_authtab_def fun_eq_iff)
  then obtain a st where st: "findorcreateauthname 7 ''Bob'' init_authtab = Some (Some a, st)" "auth_ok st"
      "auth_of st = [7 \<mapsto> a]"
    using t [THEN conjunct2, THEN conjunct1, rule_format, of 7 "''Bob''"] c(1) by auto
  note s = accounts_refine_map [OF st(2)]
  have "findauthname 7 st = Some (Some a)" "findauthname 8 st = Some None"
    using s [THEN conjunct1, rule_format, of 7] s [THEN conjunct1, rule_format, of 8] st(3) by simp_all
  moreover obtain b where "findorcreateauthname 7 ''Robert'' st = Some (Some b, st)" "auth_of st = (auth_of st)(7 \<mapsto> b)"
    using s [THEN conjunct2, THEN conjunct1, rule_format, of 7 "''Robert''"] c(2) st(3) by auto
  moreover from this have "b = a" using st(3) by (metis fun_upd_same option.inject)
  ultimately show ?thesis using st(1) by blast
qed

end
