(* ===== verification/Nicks.thy ===== *)
theory Nicks
  imports Servers Auths TrieUsers IrcMatch
begin

text \<open>
  The users of the network, \<open>nick/nick.c\<close> and \<open>nick/nickhandlers.c\<close>: the hash table of the
  nicks, the tables of the users of each server, and for every user its host, its real name, its
  account, its node in the address trie and its cloak. A user is addressed by a number. The
  handlers of the hooks are other modules: a hook appends to \<open>n_trace\<close>. \<open>None\<close> is a read of freed
  memory or outside of an array. The return codes of the handlers and the statistics are left out.
\<close>

unbundle bit_operations_syntax

section \<open>State\<close>

abbreviation NICKHASHSIZE :: nat where "NICKHASHSIZE \<equiv> 60000"
abbreviation MAXNICKEXTS :: nat where "MAXNICKEXTS \<equiv> 10"
definition AWAYLEN :: nat where "AWAYLEN = 160"

definition UMODE_INV :: "32 word" where "UMODE_INV = 0x0001"
definition UMODE_WALLOPS :: "32 word" where "UMODE_WALLOPS = 0x0002"
definition UMODE_DEBUG :: "32 word" where "UMODE_DEBUG = 0x0004"
definition UMODE_OPER :: "32 word" where "UMODE_OPER = 0x0008"
definition UMODE_SERVICE :: "32 word" where "UMODE_SERVICE = 0x0010"
definition UMODE_XOPER :: "32 word" where "UMODE_XOPER = 0x0020"
definition UMODE_DEAF :: "32 word" where "UMODE_DEAF = 0x0040"
definition UMODE_HIDECHAN :: "32 word" where "UMODE_HIDECHAN = 0x0100"
definition UMODE_REGPRIV :: "32 word" where "UMODE_REGPRIV = 0x0800"
definition UMODE_HIDEIDLE :: "32 word" where "UMODE_HIDEIDLE = 0x1000"
definition UMODE_PARANOID :: "32 word" where "UMODE_PARANOID = 0x2000"
definition UMODE_CLOAKED :: "32 word" where "UMODE_CLOAKED = 0x4000"
definition UMODE_COMCHANS :: "32 word" where "UMODE_COMCHANS = 0x8000"
definition UMODE_COMCHANSRESTR :: "32 word" where "UMODE_COMCHANSRESTR = 0x10000"
definition UMODE_ALL :: "32 word" where "UMODE_ALL = 0x1FFFF"

definition umodeflags :: "flag list" where
  "umodeflags = map (\<lambda>(c, b). \<lparr>flagchar = c, flagbit = b\<rparr>)
    [(CHR ''i'', UMODE_INV), (CHR ''w'', UMODE_WALLOPS), (CHR ''g'', UMODE_DEBUG), (CHR ''o'', UMODE_OPER),
     (CHR ''k'', UMODE_SERVICE), (CHR ''X'', UMODE_XOPER), (CHR ''d'', UMODE_DEAF), (CHR ''r'', UMODE_ACCOUNT),
     (CHR ''n'', UMODE_HIDECHAN), (CHR ''x'', UMODE_HIDEHOST), (CHR ''h'', UMODE_SETHOST),
     (CHR ''R'', UMODE_REGPRIV), (CHR ''I'', UMODE_HIDEIDLE), (CHR ''P'', UMODE_PARANOID),
     (CHR ''q'', UMODE_COMCHANS), (CHR ''Q'', UMODE_COMCHANSRESTR), (CHR ''C'', UMODE_CLOAKED), (NUL, 0)]"

record nickrec =
  np_nick :: string
  np_numeric :: nat
  np_ident :: string
  np_host :: nat
  np_realname :: nat
  np_shident :: "string option"
  np_sethost :: "string option"
  np_opername :: "string option"
  np_umodes :: "32 word"
  np_authname :: string
  np_auth :: "nat option"
  np_timestamp :: int
  np_accountts :: int
  np_away :: "string option"
  np_ipaddress :: irc_in_addr
  np_ipnode :: nat
  np_cloak_count :: "32 word"
  np_cloak_extra :: "nat option"
  np_marker :: "32 word"
  np_exts :: "nat option list"

datatype nick_event =
  NickNew nat
| NickPreLost nat
| NickLost nat
| NickRename nat string
| NickQuit nat string
| NickKill nat string
| NickMode nat "32 word"
| NickOper nat
| NickSetHost nat
| NickAccount nat
| AuthFlagsUpdated nat "64 word"
| NickMaskPrivmsg "nat option" string string

text \<open>A table of \<open>n_servernicks\<close> is \<open>None\<close> when it is not allocated.\<close>

record nickst =
  n_serv :: servst
  n_servernicks :: "nat \<Rightarrow> (nat \<Rightarrow> nat option) option"
  n_nicktable :: "nat \<Rightarrow> nat list"
  n_recs :: "nat \<rightharpoonup> nickrec"
  n_next :: nat
  n_hosts :: nametab
  n_reals :: nametab
  n_auths :: authtab
  n_iptree :: ptree
  n_extnames :: "string option list"
  n_marker :: "32 word"
  n_trace :: "nick_event list"

definition trigger :: "nick_event list \<Rightarrow> nickst \<Rightarrow> nickst" where
  "trigger es st = st\<lparr>n_trace := n_trace st @ es\<rparr>"

definition put_rec :: "nat \<Rightarrow> nickrec \<Rightarrow> nickst \<Rightarrow> nickst" where
  "put_rec r np st = st\<lparr>n_recs := (n_recs st)(r \<mapsto> np)\<rparr>"

definition has_umode :: "nickrec \<Rightarrow> 32 word \<Rightarrow> bool" where
  "has_umode np m \<longleftrightarrow> has_flag (np_umodes np) m"

section \<open>Lookup\<close>

definition nickhash :: "string \<Rightarrow> nat" where
  "nickhash x = unat (irc_crc32i x) mod NICKHASHSIZE"

definition addnicktohash :: "nat \<Rightarrow> nickst \<Rightarrow> nickst option" where
  "addnicktohash r st = do {
     np \<leftarrow> n_recs st r;
     let h = nickhash (np_nick np)
     in Some (st\<lparr>n_nicktable := (n_nicktable st)(h := r # n_nicktable st h)\<rparr>)
   }"

definition removenickfromhash :: "nat \<Rightarrow> nickst \<Rightarrow> nickst option" where
  "removenickfromhash r st = do {
     np \<leftarrow> n_recs st r;
     let h = nickhash (np_nick np)
     in Some (st\<lparr>n_nicktable := (n_nicktable st)(h := remove1 r (n_nicktable st h))\<rparr>)
   }"

definition getnickbynick :: "string \<Rightarrow> nickst \<Rightarrow> nat option option" where
  "getnickbynick name st =
     chain_search (n_recs st) (\<lambda>np. ircd_strcmp (np_nick np) name = 0) (n_nicktable st (nickhash name))"

text \<open>The slot of a numeric in the table of its server, and what the slot holds.\<close>

definition handle_slot :: "nickst \<Rightarrow> nat \<Rightarrow> nat" where
  "handle_slot st x = x AND nat (s_maxusernum (slist (n_serv st) (homeserver x)))"

definition no_handle :: "nickst \<Rightarrow> nat \<Rightarrow> bool" where
  "no_handle st x \<longleftrightarrow> s_linkstate (slist (n_serv st) (homeserver x)) = LS_INVALID"

definition handle_value :: "nickst \<Rightarrow> nat \<Rightarrow> nat option option" where
  "handle_value st x = do { t \<leftarrow> n_servernicks st (homeserver x); Some (t (handle_slot st x)) }"

definition set_handle :: "nat \<Rightarrow> nat option \<Rightarrow> nickst \<Rightarrow> nickst option" where
  "set_handle x v st = do {
     t \<leftarrow> n_servernicks st (homeserver x);
     Some (st\<lparr>n_servernicks := (n_servernicks st)(homeserver x \<mapsto> t(handle_slot st x := v))\<rparr>)
   }"

definition nickbynumeric :: "nat \<Rightarrow> nickst \<Rightarrow> nat option option" where
  "nickbynumeric x st =
     (if no_handle st x then Some None
      else do {
        v \<leftarrow> handle_value st x;
        case v of None \<Rightarrow> Some None
        | Some r \<Rightarrow> do { np \<leftarrow> n_recs st r; Some (if np_numeric np = x AND CU_NUMERICMASK then Some r else None) }
      })"

definition getnickbynumericstr :: "string \<Rightarrow> nickst \<Rightarrow> nat option option" where
  "getnickbynumericstr s st = do { x \<leftarrow> numerictolong s 5; nickbynumeric (nat x) st }"

section \<open>Cloaks\<close>

definition removecloaktarget :: "nat \<Rightarrow> nickst \<Rightarrow> nickst option" where
  "removecloaktarget target st = do {
     tp \<leftarrow> n_recs st target;
     case np_cloak_extra tp of
       None \<Rightarrow> Some st
     | Some c \<Rightarrow> do {
         cp \<leftarrow> n_recs st c;
         let st = put_rec c (cp\<lparr>np_cloak_count := np_cloak_count cp - 1\<rparr>) st
         in do { tp \<leftarrow> n_recs st target; Some (put_rec target (tp\<lparr>np_cloak_extra := None\<rparr>) st) }
       }
   }"

definition addcloaktarget :: "nat \<Rightarrow> nat \<Rightarrow> nickst \<Rightarrow> nickst option" where
  "addcloaktarget cloaked target st = do {
     st \<leftarrow> removecloaktarget target st;
     tp \<leftarrow> n_recs st target;
     let st = put_rec target (tp\<lparr>np_cloak_extra := Some cloaked\<rparr>) st
     in do { cp \<leftarrow> n_recs st cloaked; Some (put_rec cloaked (cp\<lparr>np_cloak_count := np_cloak_count cp + 1\<rparr>) st) }
   }"

definition clearcloaktargets :: "nat \<Rightarrow> nickst \<Rightarrow> nickst option" where
  "clearcloaktargets cloaked st = do {
     cp \<leftarrow> n_recs st cloaked;
     if np_cloak_count cp = 0 then Some st
     else let st = st\<lparr>n_recs := (\<lambda>r.
                  if \<exists>j < NICKHASHSIZE. r \<in> set (n_nicktable st j)
                  then map_option (\<lambda>tp. if np_cloak_extra tp = Some cloaked then tp\<lparr>np_cloak_extra := None\<rparr> else tp)
                         (n_recs st r)
                  else n_recs st r)\<rparr>
       in do { cp \<leftarrow> n_recs st cloaked; Some (put_rec cloaked (cp\<lparr>np_cloak_count := 0\<rparr>) st) }
   }"

definition canseeuser :: "nickst \<Rightarrow> nat \<Rightarrow> nat \<Rightarrow> bool option" where
  "canseeuser st r cloaked =
     (if r = cloaked then Some True
      else do {
        cp \<leftarrow> n_recs st cloaked;
        if \<not> has_umode cp UMODE_CLOAKED then Some True
        else do { np \<leftarrow> n_recs st r; Some (np_cloak_extra np = Some cloaked) }
      })"

section \<open>Removal\<close>

text \<open>The chain of the users of a host or of a real name.\<close>

definition unlink_name :: "nat \<Rightarrow> nat \<Rightarrow> nametab \<Rightarrow> nametab option" where
  "unlink_name r hp tab = do {
     h \<leftarrow> nt_recs tab hp;
     Some (tab\<lparr>nt_recs := (nt_recs tab)(hp \<mapsto> h\<lparr>hr_nicks := remove1 r (hr_nicks h)\<rparr>)\<rparr>)
   }"

definition link_name :: "nat \<Rightarrow> nat \<Rightarrow> nametab \<Rightarrow> nametab option" where
  "link_name r hp tab = do {
     h \<leftarrow> nt_recs tab hp;
     Some (tab\<lparr>nt_recs := (nt_recs tab)(hp \<mapsto> h\<lparr>hr_nicks := r # hr_nicks h\<rparr>)\<rparr>)
   }"

definition release_account :: "nat \<Rightarrow> nickrec \<Rightarrow> authtab \<Rightarrow> authtab option" where
  "release_account r np auths =
     (if has_umode np UMODE_ACCOUNT
      then case np_auth np of None \<Rightarrow> Some auths | Some a \<Rightarrow> auth_part a r auths
      else Some auths)"

definition deletenick :: "nat \<Rightarrow> nickst \<Rightarrow> nickst option" where
  "deletenick r st = do {
     np \<leftarrow> n_recs st r;
     let st = trigger [NickPreLost r, NickLost r] st
     in do {
       reals \<leftarrow> unlink_name r (np_realname np) (n_reals st);
       hosts \<leftarrow> unlink_name r (np_host np) (n_hosts st);
       reals \<leftarrow> releaserealname (np_realname np) reals;
       hosts \<leftarrow> releasehost (np_host np) hosts;
       auths \<leftarrow> release_account r np (n_auths st);
       tree \<leftarrow> user_off (np_ipnode np) (n_iptree st);
       st \<leftarrow> removecloaktarget r (st\<lparr>n_reals := reals, n_hosts := hosts, n_auths := auths, n_iptree := tree\<rparr>);
       st \<leftarrow> clearcloaktargets r st;
       st \<leftarrow> set_handle (np_numeric np) None st;
       st \<leftarrow> removenickfromhash r st;
       Some (st\<lparr>n_recs := (n_recs st)(r := None)\<rparr>)
     }
   }"

text \<open>\<open>handleserverchange\<close> for the two hooks.\<close>

fun delete_slots :: "nat \<Rightarrow> nat list \<Rightarrow> nickst \<Rightarrow> nickst option" where
  "delete_slots n [] st = Some st"
| "delete_slots n (i # is) st = do {
     t \<leftarrow> n_servernicks st n;
     st \<leftarrow> (case t i of None \<Rightarrow> Some st | Some r \<Rightarrow> deletenick r st);
     delete_slots n is st
   }"

definition server_added :: "nat \<Rightarrow> nickst \<Rightarrow> nickst" where
  "server_added n st = st\<lparr>n_servernicks := (n_servernicks st)(n \<mapsto> (\<lambda>_. None))\<rparr>"

definition server_lost :: "nat \<Rightarrow> nickst \<Rightarrow> nickst option" where
  "server_lost n st = do {
     st \<leftarrow> delete_slots n [0..<Suc (nat (s_maxusernum (slist (n_serv st) n)))] st;
     Some (st\<lparr>n_servernicks := (n_servernicks st)(n := None)\<rparr>)
   }"
section \<open>New users and new nicks\<close>

text \<open>
  A rename that collides with another user: does the renamed user survive? It is the younger
  one of two different \<open>user@host\<close> that goes, and the older one of two equal ones.
\<close>

definition rename_collision :: "nat \<Rightarrow> nat \<Rightarrow> int \<Rightarrow> nickst \<Rightarrow> (bool \<times> nickst) option" where
  "rename_collision r r2 timestamp st = do {
     np \<leftarrow> n_recs st r;
     np2 \<leftarrow> n_recs st r2;
     if ircd_strcmp (np_ident np) (np_ident np2) \<noteq> 0 \<or> np_host np \<noteq> np_host np2
     then if np_timestamp np2 < timestamp
          then map_option (Pair False) (deletenick r st) else map_option (Pair True) (deletenick r2 st)
     else if np_timestamp np2 < timestamp
          then map_option (Pair True) (deletenick r2 st) else map_option (Pair False) (deletenick r st)
   }"

definition change_nick :: "nat \<Rightarrow> string \<Rightarrow> int \<Rightarrow> nickst \<Rightarrow> nickst option" where
  "change_nick r name timestamp st = do {
     np \<leftarrow> n_recs st r;
     st \<leftarrow> removenickfromhash r (put_rec r (np\<lparr>np_timestamp := timestamp\<rparr>) st);
     addnicktohash r (put_rec r (np\<lparr>np_timestamp := timestamp, np_nick := take NICKLEN name\<rparr>) st)
   }"

definition handle_rename :: "string \<Rightarrow> string list \<Rightarrow> nickst \<Rightarrow> nickst option" where
  "handle_rename sender cargv st =
     (let timestamp = fst (strtol10 (cargv ! 1)); name = cargv ! 0
      in do {
        found \<leftarrow> getnickbynumericstr sender st;
        case found of
          None \<Rightarrow> Some st
        | Some r \<Rightarrow> do {
            np \<leftarrow> n_recs st r;
            found2 \<leftarrow> getnickbynick name st;
            if found2 = Some r
            then Some (trigger [NickRename r (np_nick np)]
                   (put_rec r (np\<lparr>np_timestamp := timestamp, np_nick := take NICKLEN name\<rparr>) st))
            else do {
              (survives, st) \<leftarrow> (case found2 of None \<Rightarrow> Some (True, st) | Some r2 \<Rightarrow> rename_collision r r2 timestamp st);
              if survives
              then do { st \<leftarrow> change_nick r name timestamp st; Some (trigger [NickRename r (np_nick np)] st) }
              else Some st
            }
          }
      })"

text \<open>A new user that collides: is the message to be followed?\<close>

definition new_collision :: "string list \<Rightarrow> int \<Rightarrow> nickst \<Rightarrow> (bool \<times> nickst) option" where
  "new_collision cargv timestamp st = do {
     found \<leftarrow> getnickbynick (cargv ! 0) st;
     case found of
       None \<Rightarrow> Some (True, st)
     | Some r \<Rightarrow> do {
         np \<leftarrow> n_recs st r;
         h \<leftarrow> nt_recs (n_hosts st) (np_host np);
         if ircd_strcmp (np_ident np) (cargv ! 3) \<noteq> 0 \<or> ircd_strcmp (hr_name h) (cargv ! 4) \<noteq> 0
         then if timestamp > np_timestamp np then Some (False, st) else map_option (Pair True) (deletenick r st)
         else if timestamp > np_timestamp np then map_option (Pair True) (deletenick r st) else Some (False, st)
       }
   }"

text \<open>
  The account of a new user, \<open>name:timestamp:id:flags\<close>. A part that is missing is read behind
  the end of the argument: \<open>mem\<close> is what the memory holds there, up to the next two
  terminators.
\<close>

definition account_fields :: "string \<times> string \<Rightarrow> string \<Rightarrow> (string \<times> int \<times> nat \<times> 64 word) option" where
  "account_fields mem arg =
     (if CHR '':'' \<notin> set arg then None
      else let name = takeWhile (\<lambda>c. c \<noteq> CHR '':'') arg;
               (ts, r1) = strtoul10 (tl (dropWhile (\<lambda>c. c \<noteq> CHR '':'') arg));
               (s1, s2) = (if r1 = [] then mem else (tl r1, fst mem));
               (userid, r2) = strtoul10 s1;
               flags = fst (strtoul10 (if r2 = [] then s2 else tl r2))
           in Some (name, c_long (int ts), userid, of_nat flags))"

text \<open>The user \<open>r\<close> logs in to the account with an id; the result is the name and the record.\<close>

definition login :: "nat \<Rightarrow> nat \<Rightarrow> string \<Rightarrow> 64 word option \<Rightarrow> authtab \<Rightarrow> (nat \<times> string \<times> authtab) option" where
  "login r userid name flags auths = do {
     (found, auths) \<leftarrow> findorcreateauthname userid name auths;
     a \<leftarrow> found;
     auths \<leftarrow> auth_join a r auths;
     ar \<leftarrow> au_recs auths a;
     Some (a, an_name ar,
       case flags of None \<Rightarrow> auths
       | Some f \<Rightarrow> auths\<lparr>au_recs := (au_recs auths)(a \<mapsto> ar\<lparr>an_flags := f\<rparr>)\<rparr>)
   }"

definition new_account ::
  "nat \<Rightarrow> string \<times> string \<Rightarrow> string \<Rightarrow> nickrec \<Rightarrow> authtab \<Rightarrow> (nickrec \<times> authtab) option" where
  "new_account r mem arg np auths =
     (case account_fields mem arg of
        None \<Rightarrow> Some (np, auths)
      | Some (name, ts, userid, flags) \<Rightarrow>
          if userid = 0 then Some (np\<lparr>np_accountts := ts, np_authname := name\<rparr>, auths)
          else do {
            (a, authname, auths) \<leftarrow> login r userid name (Some flags) auths;
            Some (np\<lparr>np_accountts := ts, np_auth := Some a, np_authname := authname\<rparr>, auths)
          })"

text \<open>\<open>user@host\<close> of a set host.\<close>

definition set_host :: "string \<Rightarrow> nickrec \<Rightarrow> nickrec" where
  "set_host arg np =
     np\<lparr>np_shident := Some (sstr (takeWhile (\<lambda>c. c \<noteq> CHR ''@'') arg) USERLEN),
        np_sethost := Some (sstr (tl (dropWhile (\<lambda>c. c \<noteq> CHR ''@'') arg)) HOSTLEN)\<rparr>"

definition hub_opernames :: "nickst \<Rightarrow> bool option" where
  "hub_opernames st =
     (if myhub (n_serv st) < 0 then None
      else Some (has_flag (s_flags (slist (n_serv st) (nat (myhub (n_serv st))))) SMODE_OPERNAME))"

definition new_modes ::
  "nat \<Rightarrow> string \<times> string \<Rightarrow> string list \<Rightarrow> nickst \<Rightarrow> nickrec \<Rightarrow> (nickrec \<times> authtab) option" where
  "new_modes r mem cargv st np =
     (let np = np\<lparr>np_umodes := snd (setflags (np_umodes np) UMODE_ALL (cargv ! 5) umodeflags False False)\<rparr>
      in do {
        oper \<leftarrow> (if has_umode np UMODE_OPER then hub_opernames st else Some False);
        let accountarg = (if oper then 7 else 6);
            sethostarg = accountarg + (if has_umode np UMODE_ACCOUNT then 1 else 0);
            np = (if oper then np\<lparr>np_opername := Some (sstr (cargv ! 6) ACCOUNTLEN)\<rparr> else np)
        in do {
          (np, auths) \<leftarrow> (if has_umode np UMODE_ACCOUNT then new_account r mem (cargv ! accountarg) np (n_auths st)
                          else Some (np, n_auths st));
          Some (if has_umode np UMODE_SETHOST \<and> CHR ''@'' \<in> set (cargv ! sethostarg)
                then set_host (cargv ! sethostarg) np else np, auths)
        }
      })"

definition fresh_nick :: "string list \<Rightarrow> nat \<Rightarrow> int \<Rightarrow> irc_in_addr \<Rightarrow> nat \<Rightarrow> nat \<Rightarrow> nat \<Rightarrow> nickrec" where
  "fresh_nick cargv numeric timestamp ip hp rp node =
     \<lparr>np_nick = take NICKLEN (cargv ! 0), np_numeric = numeric, np_ident = take USERLEN (cargv ! 3),
      np_host = hp, np_realname = rp, np_shident = None, np_sethost = None, np_opername = None,
      np_umodes = 0, np_authname = [], np_auth = None, np_timestamp = timestamp, np_accountts = 0,
      np_away = None, np_ipaddress = ip, np_ipnode = node, np_cloak_count = 0, np_cloak_extra = None,
      np_marker = 0, np_exts = replicate MAXNICKEXTS None\<rparr>"

definition place_nick :: "nat \<Rightarrow> nickrec \<Rightarrow> nickst \<Rightarrow> nickst option" where
  "place_nick r np st = do {
     old \<leftarrow> handle_value st (np_numeric np);
     st \<leftarrow> (case old of None \<Rightarrow> Some st | Some r2 \<Rightarrow> deletenick r2 st);
     st \<leftarrow> set_handle (np_numeric np) (Some r) (put_rec r np st);
     st \<leftarrow> addnicktohash r (st\<lparr>n_next := r + 1\<rparr>);
     Some (trigger [NickNew r] st)
   }"

definition handle_newnick :: "string \<times> string \<Rightarrow> string list \<Rightarrow> nickst \<Rightarrow> nickst option" where
  "handle_newnick mem cargv st =
     (let cargc = length cargv; timestamp = fst (strtol10 (cargv ! 2))
      in do {
        (proceed, st) \<leftarrow> new_collision cargv timestamp st;
        if \<not> proceed then Some st
        else do {
          x \<leftarrow> numerictolong (cargv ! (cargc - 2)) 5;
          if no_handle st (nat x) then Some st
          else do {
            ip \<leftarrow> base64toip (cargv ! (cargc - 3));
            let r = n_next st
            in do {
              (hp, hosts) \<leftarrow> findorcreatehost (cargv ! 4) (n_hosts st);
              (rp, reals) \<leftarrow> findorcreaterealname (cargv ! (cargc - 1)) (n_reals st);
              hosts \<leftarrow> link_name r hp hosts;
              reals \<leftarrow> link_name r rp reals;
              (node, tree) \<leftarrow> user_on (ip_canonicalize_tunnel ip) (n_iptree st);
              let np = fresh_nick cargv (nat x) timestamp ip hp rp node;
                  st = st\<lparr>n_hosts := hosts, n_reals := reals, n_iptree := tree\<rparr>
              in do {
                (np, auths) \<leftarrow> (if cargc \<ge> 9 then new_modes r mem cargv st np else Some (np, n_auths st));
                place_nick r np (st\<lparr>n_auths := auths\<rparr>)
              }
            }
          }
        }
      })"

definition handlenickmsg :: "string \<times> string \<Rightarrow> string \<Rightarrow> string list \<Rightarrow> nickst \<Rightarrow> nickst option" where
  "handlenickmsg mem source cargv st =
     (if length cargv = 2 then handle_rename source cargv st
      else if length cargv \<ge> 8 then handle_newnick mem cargv st
      else Some st)"

section \<open>The other messages\<close>

definition handlequitmsg :: "string \<Rightarrow> string list \<Rightarrow> nickst \<Rightarrow> nickst option" where
  "handlequitmsg source cargv st = do {
     found \<leftarrow> getnickbynumericstr source st;
     case found of None \<Rightarrow> Some st
     | Some r \<Rightarrow> deletenick r (trigger [NickQuit r (if cargv = [] then [] else cargv ! 0)] st)
   }"

definition handlekillmsg :: "string list \<Rightarrow> nickst \<Rightarrow> nickst option" where
  "handlekillmsg cargv st =
     (if cargv = [] then Some st
      else do {
        found \<leftarrow> getnickbynumericstr (cargv ! 0) st;
        case found of None \<Rightarrow> Some st
        | Some r \<Rightarrow> deletenick r (trigger [NickKill r (if length cargv > 1 then cargv ! 1 else [])] st)
      })"

text \<open>A mode change with \<open>o\<close> or \<open>h\<close>; a missing argument of \<open>o\<close> is a read behind the array.\<close>

definition mode_oper :: "string list \<Rightarrow> bool \<Rightarrow> nickrec \<Rightarrow> nickrec option" where
  "mode_oper cargv opernames np =
     (if \<not> opernames then Some np
      else if \<not> has_umode np UMODE_OPER then Some (np\<lparr>np_opername := None\<rparr>)
      else if length cargv > 2 then Some (np\<lparr>np_opername := Some (sstr (cargv ! 2) ACCOUNTLEN)\<rparr>)
      else None)"

definition mode_host :: "string list \<Rightarrow> nickrec \<Rightarrow> nickrec" where
  "mode_host cargv np =
     (let np = np\<lparr>np_shident := None, np_sethost := None\<rparr>
      in if has_umode np UMODE_SETHOST \<and> length cargv > 2
         then if CHR ''@'' \<in> set (cargv ! 2) then set_host (cargv ! 2) np
              else np\<lparr>np_sethost := Some (sstr (cargv ! 2) HOSTLEN)\<rparr>
         else np)"

definition handleusermodemsg :: "string \<Rightarrow> string list \<Rightarrow> nickst \<Rightarrow> nickst option" where
  "handleusermodemsg source cargv st =
     (if length cargv < 2 then Some st
      else if deref (cargv ! 0) = CHR ''#'' then Some st
      else do {
        found \<leftarrow> getnickbynumericstr source st;
        case found of None \<Rightarrow> Some st
        | Some r \<Rightarrow> do {
            np \<leftarrow> n_recs st r;
            if ircd_strcmp (cargv ! 0) (np_nick np) \<noteq> 0 then Some st
            else let oldflags = np_umodes np;
                     np = np\<lparr>np_umodes := snd (setflags oldflags UMODE_ALL (cargv ! 1) umodeflags False False)\<rparr>;
                     st = trigger [NickMode r oldflags] st
              in do {
                (np, st) \<leftarrow> (if CHR ''o'' \<in> set (cargv ! 1)
                  then do {
                    opernames \<leftarrow> hub_opernames st;
                    np \<leftarrow> mode_oper cargv opernames np;
                    Some (np, if (np_umodes np XOR oldflags) AND UMODE_OPER \<noteq> 0 then trigger [NickOper r] st else st)
                  }
                  else Some (np, st));
                Some (if CHR ''h'' \<in> set (cargv ! 1)
                      then trigger [NickSetHost r] (put_rec r (mode_host cargv np) st) else put_rec r np st)
              }
          }
      })"

definition handleaccountmsg :: "string list \<Rightarrow> nickst \<Rightarrow> nickst option" where
  "handleaccountmsg cargv st =
     (if length cargv < 4 then Some st
      else do {
        found \<leftarrow> getnickbynumericstr (cargv ! 0) st;
        case found of None \<Rightarrow> Some st
        | Some r \<Rightarrow>
            (let accountts = c_long (int (fst (strtoul10 (cargv ! 2)))); userid = fst (strtoul10 (cargv ! 3));
                 flags = (if length cargv \<ge> 5 then Some (of_nat (fst (strtoul10 (cargv ! 4))) :: 64 word) else None)
             in do {
               np \<leftarrow> n_recs st r;
               if has_umode np UMODE_ACCOUNT
               then case np_auth np of None \<Rightarrow> Some st
                 | Some a \<Rightarrow> do {
                     ar \<leftarrow> au_recs (n_auths st) a;
                     if an_name ar \<noteq> cargv ! 1 \<or> an_userid ar \<noteq> userid \<or> np_accountts np \<noteq> accountts then Some st
                     else Some (trigger [AuthFlagsUpdated a (an_flags ar)]
                       (case flags of None \<Rightarrow> st
                        | Some f \<Rightarrow> st\<lparr>n_auths := (n_auths st)\<lparr>au_recs :=
                            (au_recs (n_auths st))(a \<mapsto> ar\<lparr>an_flags := f\<rparr>)\<rparr>\<rparr>))
                   }
               else let np = np\<lparr>np_umodes := np_umodes np OR UMODE_ACCOUNT, np_accountts := accountts\<rparr>
                 in do {
                   (np, auths) \<leftarrow> (if userid = 0 then Some (np\<lparr>np_auth := None, np_authname := cargv ! 1\<rparr>, n_auths st)
                     else do {
                       (a, authname, auths) \<leftarrow> login r userid (cargv ! 1) flags (n_auths st);
                       Some (np\<lparr>np_auth := Some a, np_authname := authname\<rparr>, auths)
                     });
                   Some (trigger [NickAccount r] (put_rec r np (st\<lparr>n_auths := auths\<rparr>)))
                 }
             })
      })"

text \<open>A message to all users of the servers with a mask; \<open>myserver\<close> is the name of our own.\<close>

definition handleprivmsg :: "string \<Rightarrow> string \<Rightarrow> string list \<Rightarrow> nickst \<Rightarrow> nickst option" where
  "handleprivmsg myserver source cargv st =
     (if length cargv < 2 \<or> deref (cargv ! 0) \<noteq> CHR ''$'' then Some st
      else do {
        sender \<leftarrow> getnickbynumericstr source st;
        Some (if match2strings (tl (cargv ! 0)) myserver
              then trigger [NickMaskPrivmsg sender (cargv ! 0) (cargv ! 1)] st else st)
      })"

definition handleawaymsg :: "string \<Rightarrow> string list \<Rightarrow> nickst \<Rightarrow> nickst option" where
  "handleawaymsg source cargv st = do {
     found \<leftarrow> getnickbynumericstr source st;
     case found of None \<Rightarrow> Some st
     | Some r \<Rightarrow> do {
         np \<leftarrow> n_recs st r;
         Some (put_rec r (np\<lparr>np_away :=
           (if cargv \<noteq> [] \<and> cargv ! 0 \<noteq> [] then Some (sstr (cargv ! 0) AWAYLEN) else None)\<rparr>) st)
       }
   }"

definition handleaddcloak :: "string \<Rightarrow> string list \<Rightarrow> nickst \<Rightarrow> nickst option" where
  "handleaddcloak source cargv st = do {
     found \<leftarrow> getnickbynumericstr source st;
     case found of None \<Rightarrow> Some st
     | Some r \<Rightarrow>
         if cargv = [] then Some st
         else do {
           target \<leftarrow> getnickbynumericstr (cargv ! 0) st;
           case target of None \<Rightarrow> Some st | Some t \<Rightarrow> addcloaktarget r t st
         }
   }"

definition handleclearcloak :: "string \<Rightarrow> nickst \<Rightarrow> nickst option" where
  "handleclearcloak source st = do {
     found \<leftarrow> getnickbynumericstr source st;
     case found of None \<Rightarrow> Some st | Some r \<Rightarrow> clearcloaktargets r st
   }"

text \<open>The mask that the users of the network see.\<close>

definition visibleuserhost :: "nickrec \<Rightarrow> string \<Rightarrow> string" where
  "visibleuserhost np host =
     (let (ident, host) =
        (if has_umode np UMODE_SETHOST
         then (case np_shident np of None \<Rightarrow> np_ident np | Some s \<Rightarrow> s, case np_sethost np of None \<Rightarrow> host | Some s \<Rightarrow> s)
         else if has_umode np UMODE_ACCOUNT \<and> has_umode np UMODE_HIDEHOST
         then (np_ident np, np_authname np @ ''.'' @ HIS_HIDDENHOST)
         else (np_ident np, host))
      in ident @ ''@'' @ host)"

definition visiblehostmask :: "nickrec \<Rightarrow> string \<Rightarrow> string" where
  "visiblehostmask np host = np_nick np @ ''!'' @ visibleuserhost np host"

text \<open>Extensions of the users.\<close>

definition findnickext :: "string \<Rightarrow> nickst \<Rightarrow> int" where
  "findnickext name st = ext_find name 0 (n_extnames st)"

definition registernickext :: "string \<Rightarrow> nickst \<Rightarrow> int \<times> nickst" where
  "registernickext name st =
     (if findnickext name st \<noteq> - 1 then (- 1, st)
      else case free_ext 0 (n_extnames st) of
        Some i \<Rightarrow> (int i, st\<lparr>n_extnames := (n_extnames st)[i := Some (sstr name 100)]\<rparr>)
      | None \<Rightarrow> (- 1, st))"

definition releasenickext :: "nat \<Rightarrow> nickst \<Rightarrow> nickst option" where
  "releasenickext index st =
     (if index < MAXNICKEXTS
      then Some (st\<lparr>n_extnames := (n_extnames st)[index := None],
                    n_recs := (\<lambda>r. if \<exists>i < NICKHASHSIZE. r \<in> set (n_nicktable st i)
                      then map_option (\<lambda>np. np\<lparr>np_exts := (np_exts np)[index := None]\<rparr>) (n_recs st r)
                      else n_recs st r)\<rparr>)
      else None)"

text \<open>\<open>nextnickmarker\<close> of \<open>nick/nickhelpers.c\<close>.\<close>

definition nextnickmarker :: "nickst \<Rightarrow> 32 word \<times> nickst" where
  "nextnickmarker st =
     (let m = n_marker st + 1
      in if m \<noteq> 0 then (m, st\<lparr>n_marker := m\<rparr>)
         else (1, st\<lparr>n_marker := 1,
                     n_recs := (\<lambda>r. if \<exists>i < NICKHASHSIZE. r \<in> set (n_nicktable st i)
                       then map_option (\<lambda>np. np\<lparr>np_marker := 0\<rparr>) (n_recs st r)
                       else n_recs st r)\<rparr>))"

end
