(* ===== verification/NicksOk.thy ===== *)
theory NicksOk
  imports Nicks
begin

text \<open>
  The invariant of the users: every user is in the chain of its nick, in the slot of its
  numeric, in the chains of its host, its real name and its account, counted in each of them
  and at the node of its address, and the cloaks point at live users and are counted. It is
  stated for each table on the map from the users to what the table is keyed by, so that a user
  can be in some of the tables and not yet in others.
\<close>

section \<open>Users of a host, of a real name, of an account\<close>

definition name_chain :: "nametab \<Rightarrow> nat \<Rightarrow> nat list" where
  "name_chain tab hp = (case nt_recs tab hp of None \<Rightarrow> [] | Some h \<Rightarrow> hr_nicks h)"

definition name_users :: "(string \<Rightarrow> nat) \<Rightarrow> (string \<Rightarrow> string) \<Rightarrow> nametab \<Rightarrow> (nat \<Rightarrow> nat option) \<Rightarrow> bool" where
  "name_users hash norm tab K \<longleftrightarrow> nametab_ok hash norm tab \<and> chains (name_chain tab) K
     \<and> (\<forall>hp h. nt_recs tab hp = Some h \<longrightarrow> hr_count h = int (length (hr_nicks h)))"

lemma length_remove1_in: "r \<in> set xs \<Longrightarrow> length xs = Suc (length (remove1 r xs))"
  by (induction xs) auto

lemma name_chain_upd: "name_chain (tab\<lparr>nt_recs := (nt_recs tab)(hp \<mapsto> h)\<rparr>) = (name_chain tab)(hp := hr_nicks h)"
  by (simp add: name_chain_def fun_eq_iff)

lemma findorcreate_recs:
  assumes "findorcreate_name hash same maxlen name tab = Some (hp, tab')"
  shows "(\<exists>h. nt_recs tab hp = Some h \<and> tab' = tab\<lparr>nt_recs := (nt_recs tab)(hp \<mapsto> h\<lparr>hr_count := hr_count h + 1\<rparr>)\<rparr>)
    \<or> hp = nt_next tab \<and> (\<exists>nm. nt_recs tab' = (nt_recs tab)(hp \<mapsto>
        \<lparr>hr_name = nm, hr_count = 1, hr_marker = 0, hr_nicks = []\<rparr>))"
  using assms unfolding findorcreate_name_def
  by (auto simp: bind_eq_Some_conv Let_def split: option.splits)

context counted_names
begin

lemma enter_ok:
  assumes u: "name_users hash norm tab K" and r: "K r = None" and name: "cstring name" "length name \<le> maxlen"
  obtains hp tab1 tab2 where "findorcreate_name hash same maxlen name tab = Some (hp, tab1)"
    "link_name r hp tab1 = Some tab2" "name_users hash norm tab2 (K(r \<mapsto> hp))"
proof -
  have ok: "tab_ok tab" and c: "chains (name_chain tab) K"
    and n: "\<And>hp h. nt_recs tab hp = Some h \<Longrightarrow> hr_count h = int (length (hr_nicks h))"
    using u by (auto simp: name_users_def)
  obtain hp tab1 where e: "findorcreate_name hash same maxlen name tab = Some (hp, tab1)" "tab_ok tab1"
    by (rule acquire_ok [OF ok name])
  have fresh: "nt_recs tab (nt_next tab) = None"
    using live_rec(1) [OF ok, of "nt_next tab"] by (cases "nt_recs tab (nt_next tab)") auto
  have "\<exists>h. nt_recs tab1 hp = Some h \<and> hr_nicks h = name_chain tab hp \<and> hr_count h = int (length (hr_nicks h)) + 1
      \<and> (\<forall>q. q \<noteq> hp \<longrightarrow> nt_recs tab1 q = nt_recs tab q)"
    using findorcreate_recs [OF e(1)] n fresh by (auto simp: name_chain_def)
  then obtain h where h: "nt_recs tab1 hp = Some h" "hr_nicks h = name_chain tab hp"
      "hr_count h = int (length (hr_nicks h)) + 1" "\<And>q. q \<noteq> hp \<Longrightarrow> nt_recs tab1 q = nt_recs tab q"
    by blast
  let ?h = "h\<lparr>hr_nicks := r # hr_nicks h\<rparr>" and ?tab = "tab1\<lparr>nt_recs := (nt_recs tab1)(hp \<mapsto> h\<lparr>hr_nicks := r # hr_nicks h\<rparr>)\<rparr>"
  have l: "link_name r hp tab1 = Some ?tab" using h(1) by (simp add: link_name_def)
  have "tab_ok ?tab" by (rule update_rec(1) [OF e(2) h(1)]) (use live_rec(3) [OF e(2) h(1)] in simp_all)
  moreover have "name_chain ?tab = (name_chain tab)(hp := r # name_chain tab hp)"
    using h(2,4) by (auto simp: name_chain_def fun_eq_iff)
  then have "chains (name_chain ?tab) (K(r \<mapsto> hp))" using chains_insert [OF c r] by simp
  moreover have "hr_count q = int (length (hr_nicks q))" if "nt_recs ?tab p = Some q" for p q
    using that h(3,4) n by (cases "p = hp") auto
  ultimately have "name_users hash norm ?tab (K(r \<mapsto> hp))" by (simp add: name_users_def)
  then show thesis using that e(1) l by blast
qed

lemma leave_ok:
  assumes u: "name_users hash norm tab K" and r: "K r = Some hp"
  obtains tab1 tab2 where "unlink_name r hp tab = Some tab1" "release_name hash hp tab1 = Some tab2"
    "name_users hash norm tab2 (K(r := None))"
proof -
  have ok: "tab_ok tab" and c: "chains (name_chain tab) K"
    and n: "\<And>hp h. nt_recs tab hp = Some h \<Longrightarrow> hr_count h = int (length (hr_nicks h))"
    using u by (auto simp: name_users_def)
  have "r \<in> set (name_chain tab hp)" using chains_in [OF c] r by simp
  then obtain h where h: "nt_recs tab hp = Some h" "r \<in> set (hr_nicks h)"
    by (cases "nt_recs tab hp") (auto simp: name_chain_def)
  note l = live_rec [OF ok h(1)]
  let ?h = "h\<lparr>hr_nicks := remove1 r (hr_nicks h)\<rparr>"
  let ?tab = "tab\<lparr>nt_recs := (nt_recs tab)(hp \<mapsto> ?h)\<rparr>"
  have un: "unlink_name r hp tab = Some ?tab" using h(1) by (simp add: unlink_name_def)
  have ok1: "tab_ok ?tab" by (rule update_rec(1) [OF ok h(1)]) (use l(3) in simp_all)
  have cnt: "hr_count h = int (length (remove1 r (hr_nicks h))) + 1"
    using n [OF h(1)] length_remove1_in [OF h(2)] by simp
  have K: "chains ((name_chain tab)(hp := remove1 r (name_chain tab hp))) (K(r := None))"
    by (rule chains_remove [OF c r])
  show thesis
  proof (cases "hr_count h = 1")
    case True
    let ?tab2 = "?tab\<lparr>nt_table := (nt_table ?tab)(hash (hr_name ?h) := remove1 hp (nt_table ?tab (hash (hr_name ?h)))),
      nt_recs := (nt_recs ?tab)(hp := None)\<rparr>"
    have rel: "release_name hash hp ?tab = Some ?tab2"
      using True l(4) by (simp add: release_name_def Let_def)
    have "tab_ok ?tab2" by (rule release_last(1) [OF ok1]) simp
    moreover have "remove1 r (hr_nicks h) = []" using cnt True by simp
    then have "name_chain ?tab2 = (name_chain tab)(hp := remove1 r (name_chain tab hp))"
      using h(1) by (auto simp: name_chain_def fun_eq_iff)
    then have "chains (name_chain ?tab2) (K(r := None))" using K by (simp only:)
    moreover have "hr_count q = int (length (hr_nicks q))" if "nt_recs ?tab2 p = Some q" for p q
      using that n by (auto split: if_splits)
    ultimately have "name_users hash norm ?tab2 (K(r := None))" unfolding name_users_def by blast
    then show thesis using that un rel by blast
  next
    case False
    let ?h2 = "?h\<lparr>hr_count := hr_count h - 1\<rparr>"
    let ?tab2 = "?tab\<lparr>nt_recs := (nt_recs ?tab)(hp \<mapsto> ?h2)\<rparr>"
    have rel: "release_name hash hp ?tab = Some ?tab2" using False by (simp add: release_name_def Let_def)
    have "tab_ok ?tab2" by (rule update_rec(1) [OF ok1, of hp ?h]) (use l(3) False in simp_all)
    moreover have "name_chain ?tab2 = (name_chain tab)(hp := remove1 r (name_chain tab hp))"
      using h(1) by (auto simp: name_chain_def fun_eq_iff)
    then have "chains (name_chain ?tab2) (K(r := None))" using K by (simp only:)
    moreover have "hr_count q = int (length (hr_nicks q))" if "nt_recs ?tab2 p = Some q" for p q
    proof (cases "p = hp")
      case True
      then have "q = ?h2" using that by simp
      then show ?thesis using cnt by simp
    next
      case False
      then show ?thesis using that n [of p q] by simp
    qed
    ultimately have "name_users hash norm ?tab2 (K(r := None))" unfolding name_users_def by blast
    then show thesis using that un rel by blast
  qed
qed

end

definition account_chain :: "authtab \<Rightarrow> nat \<Rightarrow> nat list" where
  "account_chain tab a = (case au_recs tab a of None \<Rightarrow> [] | Some r \<Rightarrow> an_nicks r)"

definition account_users :: "authtab \<Rightarrow> (nat \<Rightarrow> nat option) \<Rightarrow> bool" where
  "account_users tab K \<longleftrightarrow> auth_ok tab \<and> chains (account_chain tab) K
     \<and> (\<forall>a ar. au_recs tab a = Some ar \<longrightarrow> an_usercount ar = int (length (an_nicks ar)))"

lemma account_usersD:
  assumes "account_users tab K"
  shows "auth_ok tab" "chains (account_chain tab) K"
    "au_recs tab a = Some ar \<Longrightarrow> an_usercount ar = int (length (an_nicks ar))"
  using assms by (auto simp: account_users_def)

text \<open>A change of a record that keeps its users, and its id.\<close>

lemma account_update:
  assumes u: "account_users tab K" and a: "au_recs tab a = Some ar" and ar': "an_userid ar' = an_userid ar"
      "an_namebucket ar' = an_namebucket ar" "auth_wf ar'" "an_nicks ar' = an_nicks ar" "an_usercount ar' = an_usercount ar"
  shows "account_users (tab\<lparr>au_recs := (au_recs tab)(a \<mapsto> ar')\<rparr>) K"
proof -
  have "account_chain (tab\<lparr>au_recs := (au_recs tab)(a \<mapsto> ar')\<rparr>) = account_chain tab"
    using a ar'(4) by (auto simp: account_chain_def fun_eq_iff)
  then show ?thesis
    using auth_update(1) [OF account_usersD(1) [OF u] a ar'(1-3)] account_usersD(2,3) [OF u] a ar'(4,5)
    by (auto simp: account_users_def)
qed

lemma login_ok:
  assumes u: "account_users tab K" and r: "K r = None" and id: "userid \<noteq> 0" "cstring name"
  obtains a nm tab' ar where "login r userid name flags tab = Some (a, nm, tab')" "account_users tab' (K(r \<mapsto> a))"
    "au_recs tab' a = Some ar" "an_userid ar = userid" "an_name ar = nm"
proof -
  obtain a tab1 where c: "findorcreateauthname userid name tab = Some (Some a, tab1)" "auth_ok tab1"
    "auth_of tab1 = (auth_of tab)(userid \<mapsto> a)"
    "auth_of tab userid = Some a \<and> tab1 = tab
     \<or> auth_of tab userid = None \<and> au_recs tab a = None \<and> au_persistent tab1 = au_persistent tab \<and>
       au_recs tab1 = (au_recs tab)(a \<mapsto> \<lparr>an_userid = userid, an_usercount = 0, an_marker = 0, an_nicks = [],
         an_namebucket = authnamehashbyname name, an_flags = 0, an_name = take ACCOUNTLEN name,
         an_exts = replicate MAXAUTHNAMEEXTS None\<rparr>)"
    by (rule auth_create [OF account_usersD(1) [OF u] id])
  have ch: "account_chain tab1 = account_chain tab" using c(4) by (auto simp: account_chain_def fun_eq_iff)
  have n1: "an_usercount ar = int (length (an_nicks ar))" if "au_recs tab1 b = Some ar" for b ar
    using c(4) that account_usersD(3) [OF u] by (auto split: if_splits)
  obtain ar where ar: "au_recs tab1 a = Some ar" "an_userid ar = userid"
    using search_byid(2) [OF c(2), of userid a] c(3) by auto
  obtain tab2 where j: "auth_join a r tab1 = Some tab2" "auth_ok tab2"
    "au_recs tab2 = (au_recs tab1)(a \<mapsto> ar\<lparr>an_usercount := an_usercount ar + 1, an_nicks := r # an_nicks ar\<rparr>)"
    by (rule auth_join_ok [OF c(2) ar(1), of r])
  let ?ar = "ar\<lparr>an_usercount := an_usercount ar + 1, an_nicks := r # an_nicks ar\<rparr>"
  have "account_chain tab2 = (account_chain tab)(a := r # account_chain tab a)"
    unfolding ch [symmetric] using ar(1) by (auto simp: account_chain_def fun_eq_iff j(3))
  then have u2: "account_users tab2 (K(r \<mapsto> a))"
    using j(2,3) n1 ar(1) chains_insert [OF account_usersD(2) [OF u] r, of a] by (auto simp: account_users_def)
  have a2: "au_recs tab2 a = Some ?ar" by (simp add: j(3))
  show thesis
  proof (cases flags)
    case None
    then have "login r userid name flags tab = Some (a, an_name ar, tab2)" using c(1) j(1) a2 by (simp add: login_def)
    then show thesis by (rule that [OF _ u2 a2]) (use ar(2) in simp_all)
  next
    case (Some f)
    let ?tab = "tab2\<lparr>au_recs := (au_recs tab2)(a \<mapsto> ?ar\<lparr>an_flags := f\<rparr>)\<rparr>"
    have "login r userid name flags tab = Some (a, an_name ar, ?tab)" using Some c(1) j(1) a2 by (simp add: login_def)
    moreover have "auth_wf (?ar\<lparr>an_flags := f\<rparr>)" using auth_parts(4) [OF j(2) a2] by (simp add: auth_wf_def)
    then have "account_users ?tab (K(r \<mapsto> a))" by (intro account_update [OF u2 a2]) simp_all
    moreover have "au_recs ?tab a = Some (?ar\<lparr>an_flags := f\<rparr>)" by simp
    ultimately show thesis by (rule that) (use ar(2) in simp_all)
  qed
qed

lemma logout_ok:
  assumes u: "account_users tab K" and r: "K r = Some a"
  obtains tab' where "auth_part a r tab = Some tab'" "account_users tab' (K(r := None))"
proof -
  have "r \<in> set (account_chain tab a)" using chains_in [OF account_usersD(2) [OF u]] r by simp
  then obtain ar where ar: "au_recs tab a = Some ar" "r \<in> set (an_nicks ar)"
    by (cases "au_recs tab a") (auto simp: account_chain_def)
  let ?ar = "ar\<lparr>an_usercount := an_usercount ar - 1, an_nicks := remove1 r (an_nicks ar)\<rparr>"
  obtain tab' where p: "auth_part a r tab = Some tab'" "auth_ok tab'"
    "au_recs tab' = (if an_usercount ar \<noteq> 1 then (au_recs tab)(a \<mapsto> ?ar)
       else if kept (au_persistent tab) ar then (au_recs tab)(a \<mapsto> ?ar\<lparr>an_nicks := []\<rparr>)
       else (au_recs tab)(a := None))"
    by (rule auth_part_ok [OF account_usersD(1) [OF u] ar(1)])
  have cnt: "an_usercount ar = int (length (remove1 r (an_nicks ar))) + 1"
    using account_usersD(3) [OF u ar(1)] length_remove1_in [OF ar(2)] by simp
  then have e: "remove1 r (an_nicks ar) = []" if "an_usercount ar = 1" using that by simp
  have "account_chain tab' = (account_chain tab)(a := remove1 r (account_chain tab a))"
    using ar(1) e by (auto simp: account_chain_def fun_eq_iff p(3))
  then have "chains (account_chain tab') (K(r := None))" using chains_remove [OF account_usersD(2) [OF u] r] by simp
  moreover have "an_usercount q = int (length (an_nicks q))" if "au_recs tab' b = Some q" for b q
  proof (cases "b = a")
    case True
    then have "q = ?ar \<or> an_usercount ar = 1 \<and> q = ?ar\<lparr>an_nicks := []\<rparr>"
      using that by (auto simp: p(3) split: if_splits)
    then show ?thesis using cnt by auto
  next
    case False
    then show ?thesis using that account_usersD(3) [OF u, of b q] by (simp add: p(3) split: if_splits)
  qed
  ultimately show thesis using that p(1,2) by (auto simp: account_users_def)
qed

section \<open>Users at the nodes of their addresses\<close>

definition user_holds :: "(nat \<Rightarrow> (irc_in_addr \<times> nat) option) \<Rightarrow> (irc_in_addr \<times> nat \<times> nat) multiset" where
  "user_holds K = image_mset (\<lambda>r. case the (K r) of (s, i) \<Rightarrow> (s, PATRICIA_MAXBITS, i)) (mset_set (dom K))"

definition users_on :: "(nat \<Rightarrow> (irc_in_addr \<times> nat) option) \<Rightarrow> nat \<Rightarrow> int" where
  "users_on K i = int (card {r. \<exists>s. K r = Some (s, i)})"

text \<open>\<open>H\<close> are the references of the other modules.\<close>

definition trie_users ::
  "ptree \<Rightarrow> (nat \<Rightarrow> (irc_in_addr \<times> nat) option) \<Rightarrow> (irc_in_addr \<times> nat \<times> nat) multiset \<Rightarrow> bool" where
  "trie_users t K H \<longleftrightarrow> finite (dom K) \<and> holds_ok t (users_on K) (user_holds K + H)"

lemma user_holds_upd:
  assumes "finite (dom K)" "K r = None"
  shows "user_holds (K(r \<mapsto> (s, i))) = add_mset (s, PATRICIA_MAXBITS, i) (user_holds K)"
proof -
  have "mset_set (dom (K(r \<mapsto> (s, i)))) = add_mset r (mset_set (dom K))"
    using assms by (simp add: domIff)
  moreover have "image_mset (\<lambda>q. case the ((K(r \<mapsto> (s, i))) q) of (s, i) \<Rightarrow> (s, PATRICIA_MAXBITS, i)) (mset_set (dom K))
      = user_holds K"
    unfolding user_holds_def by (rule image_mset_cong) (use assms in auto)
  ultimately show ?thesis by (simp add: user_holds_def)
qed

lemma users_on_upd:
  assumes "finite (dom K)" "K r = None"
  shows "users_on (K(r \<mapsto> (s, i))) = (users_on K)(i := users_on K i + 1)"
proof
  fix j
  have fin: "finite {q. \<exists>s. K q = Some (s, j)}" by (rule finite_subset [OF _ assms(1)]) auto
  have "{q. \<exists>s'. (K(r \<mapsto> (s, i))) q = Some (s', j)} =
      (if j = i then insert r {q. \<exists>s. K q = Some (s, j)} else {q. \<exists>s. K q = Some (s, j)})"
    using assms(2) by auto
  then show "users_on (K(r \<mapsto> (s, i))) j = ((users_on K)(i := users_on K i + 1)) j"
    using fin assms(2) by (auto simp: users_on_def)
qed

lemma users_on_holds: "finite (dom K) \<Longrightarrow> users_on K a \<noteq> 0 \<Longrightarrow> \<exists>s l. (s, l, a) \<in># user_holds K + H"
proof -
  assume fin: "finite (dom K)" and n: "users_on K a \<noteq> 0"
  then have "{r. \<exists>s. K r = Some (s, a)} \<noteq> {}" unfolding users_on_def by (intro notI) simp
  then obtain r s where "K r = Some (s, a)" by blast
  then have "(s, PATRICIA_MAXBITS, a) \<in># user_holds K" using fin by (force simp: user_holds_def)
  then show ?thesis by auto
qed

lemma user_on_ok:
  assumes u: "trie_users t K H" and r: "K r = None"
  obtains i t' where "user_on s t = Some (i, t')" "trie_users t' (K(r \<mapsto> (s, i))) H"
proof -
  have fin: "finite (dom K)" and h: "holds_ok t (users_on K) (user_holds K + H)" using u by (simp_all add: trie_users_def)
  obtain i t1 where t1: "refnode t s (int PATRICIA_MAXBITS) = Some (i, t1)"
      "holds_ok t1 (users_on K) (add_mset (s, PATRICIA_MAXBITS, i) (user_holds K + H))"
    using take_ok [OF h order_refl, of s] by blast
  have "holds_ok (change_usercount 1 t1 i) ((users_on K)(i := users_on K i + 1))
      (add_mset (s, PATRICIA_MAXBITS, i) (user_holds K + H))"
    by (rule change_usercount_ok [OF t1(2), of s PATRICIA_MAXBITS]) simp
  then have "trie_users (change_usercount 1 t1 i) (K(r \<mapsto> (s, i))) H"
    using fin by (simp add: trie_users_def user_holds_upd [OF fin r] users_on_upd [OF fin r])
  moreover have "user_on s t = Some (i, change_usercount 1 t1 i)"
    using t1(1) by (simp add: user_on_def node_increment_usercount_def)
  ultimately show thesis using that by blast
qed

lemma user_off_ok:
  assumes u: "trie_users t K H" and r: "K r = Some (s, i)"
  obtains t' where "user_off i t = Some t'" "trie_users t' (K(r := None)) H"
proof -
  let ?K = "K(r := None)"
  have fin: "finite (dom ?K)" and h: "holds_ok t (users_on K) (user_holds K + H)" using u by (simp_all add: trie_users_def)
  have K: "K = ?K(r \<mapsto> (s, i))" using r by auto
  have hold: "user_holds K = add_mset (s, PATRICIA_MAXBITS, i) (user_holds ?K)"
    by (subst K) (rule user_holds_upd [OF fin], simp)
  have on: "users_on K = (users_on ?K)(i := users_on ?K i + 1)"
    by (subst K) (rule users_on_upd [OF fin], simp)
  have "holds_ok (change_usercount (- 1) t i) ((users_on K)(i := users_on K i - 1)) (user_holds K + H)"
    using change_usercount_ok [OF h, of s PATRICIA_MAXBITS i "- 1"] by (simp add: hold)
  then have "holds_ok (change_usercount (- 1) t i) (users_on ?K) (add_mset (s, PATRICIA_MAXBITS, i) (user_holds ?K + H))"
    by (simp add: hold on)
  from give_ok [OF this] users_on_holds [OF fin]
  obtain t' where "derefnode (change_usercount (- 1) t i) i = Some t'" "holds_ok t' (users_on ?K) (user_holds ?K + H)"
    by blast
  then show thesis
    using that fin by (simp add: user_off_def node_decrement_usercount_def trie_users_def)
qed

section \<open>The table of the nicks\<close>

definition table_users :: "nickst \<Rightarrow> bool" where
  "table_users st \<longleftrightarrow>
     chains (n_nicktable st) (\<lambda>r. map_option (nickhash \<circ> np_nick) (n_recs st r))
     \<and> (\<forall>r np. n_recs st r = Some np \<longrightarrow> r < n_next st \<and> cstring (np_nick np))
     \<and> (\<forall>r q np nq. n_recs st r = Some np \<longrightarrow> n_recs st q = Some nq \<longrightarrow> lower (np_nick np) = lower (np_nick nq) \<longrightarrow> r = q)"

lemma table_usersD:
  assumes "table_users st"
  shows "chains (n_nicktable st) (\<lambda>r. map_option (nickhash \<circ> np_nick) (n_recs st r))"
    "n_recs st r = Some np \<Longrightarrow> r < n_next st" "n_recs st r = Some np \<Longrightarrow> cstring (np_nick np)"
    "n_recs st r = Some np \<Longrightarrow> n_recs st q = Some nq \<Longrightarrow> lower (np_nick np) = lower (np_nick nq) \<Longrightarrow> r = q"
  using assms unfolding table_users_def by blast+

lemma nickhash_lower: "lower a = lower b \<Longrightarrow> nickhash a = nickhash b"
  by (simp add: nickhash_def irc_crc32i_def irc_crc32i_loop_lower)

lemma getnickbynick_ok:
  assumes t: "table_users st" and name: "cstring name"
  obtains x where "getnickbynick name st = Some x"
    "\<And>r. x = Some r \<longleftrightarrow> (\<exists>np. n_recs st r = Some np \<and> lower (np_nick np) = lower name)"
proof -
  have same: "ircd_strcmp (np_nick np) name = 0 \<longleftrightarrow> lower (np_nick np) = lower name" if "n_recs st r = Some np" for r np
    using ircd_strcmp_lower [OF table_usersD(3) [OF t that] name] .
  let ?P = "\<lambda>np. ircd_strcmp (np_nick np) name = 0"
  have b: "(nickhash \<circ> np_nick) np = nickhash name" if "np \<in> ran (n_recs st)" "?P np" for np
    using that same by (auto simp: ran_def intro: nickhash_lower)
  have u: "r = q" if "n_recs st r = Some np" "n_recs st q = Some nq" "?P np" "?P nq" for r q np nq
    using that table_usersD(4) [OF t] same by metis
  obtain x where "chain_search (n_recs st) ?P (n_nicktable st (nickhash name)) = Some x"
      "\<And>r. x = Some r \<longleftrightarrow> (\<exists>np. n_recs st r = Some np \<and> ?P np)"
    by (rule chain_search_key [where P = ?P and b = "nickhash name", OF table_usersD(1) [OF t]])
      (erule (1) b, erule (3) u, rule that)
  moreover have "(\<exists>np. n_recs st r = Some np \<and> ?P np)
      \<longleftrightarrow> (\<exists>np. n_recs st r = Some np \<and> lower (np_nick np) = lower name)" for r
    using same by auto
  ultimately show thesis using that [of x] by (simp add: getnickbynick_def)
qed

section \<open>The slots of the numerics\<close>

definition slot_user :: "nickst \<Rightarrow> nat \<Rightarrow> nat \<Rightarrow> nat option" where
  "slot_user st n i = (case n_servernicks st n of None \<Rightarrow> None | Some t \<Rightarrow> t i)"

definition slot_users :: "nickst \<Rightarrow> bool" where
  "slot_users st \<longleftrightarrow>
     (\<forall>n < MAXSERVERS. n_servernicks st n = None \<longleftrightarrow> s_linkstate (slist (n_serv st) n) = LS_INVALID)
     \<and> (\<forall>n i r. slot_user st n i = Some r \<longleftrightarrow>
          (\<exists>np. n_recs st r = Some np \<and> homeserver (np_numeric np) = n \<and> handle_slot st (np_numeric np) = i))
     \<and> (\<forall>r np. n_recs st r = Some np \<longrightarrow> np_numeric np < 2 ^ 30)"

lemma slot_usersD:
  assumes "slot_users st"
  shows "n < MAXSERVERS \<Longrightarrow> n_servernicks st n = None \<longleftrightarrow> s_linkstate (slist (n_serv st) n) = LS_INVALID"
    "slot_user st n i = Some r \<longleftrightarrow>
      (\<exists>np. n_recs st r = Some np \<and> homeserver (np_numeric np) = n \<and> handle_slot st (np_numeric np) = i)"
    "n_recs st r = Some np \<Longrightarrow> np_numeric np < 2 ^ 30"
  using assms unfolding slot_users_def by blast+

lemma homeserver_less: "homeserver x < MAXSERVERS"
proof -
  have "(4096 - 1 :: nat) = mask 12" by (simp add: mask_eq_exp_minus_1)
  then have "homeserver x = take_bit 12 (drop_bit 18 x)" by (simp only: homeserver_def take_bit_eq_mask)
  then show ?thesis using take_bit_nat_less_exp [of 12 "drop_bit 18 x"] by simp
qed

lemma masked_small: "x < 2 ^ 30 \<Longrightarrow> x AND CU_NUMERICMASK = x"
proof -
  have "CU_NUMERICMASK = mask 30" by (simp add: mask_eq_exp_minus_1)
  then show "x < 2 ^ 30 \<Longrightarrow> x AND CU_NUMERICMASK = x"
    by (simp only: take_bit_eq_mask [symmetric]) (simp add: take_bit_nat_eq_self)
qed

text \<open>The user of a slot, and of a numeric.\<close>

lemma handle_value_slot:
  assumes "slot_users st" "\<not> no_handle st x"
  shows "handle_value st x = Some (slot_user st (homeserver x) (handle_slot st x))"
  using slot_usersD(1) [OF assms(1) homeserver_less [of x]] assms(2)
  by (auto simp: handle_value_def no_handle_def slot_user_def split: option.splits)

lemma live_handle:
  assumes "slot_users st" "n_recs st r = Some np"
  shows "slot_user st (homeserver (np_numeric np)) (handle_slot st (np_numeric np)) = Some r"
    "\<not> no_handle st (np_numeric np)"
proof -
  show s: "slot_user st (homeserver (np_numeric np)) (handle_slot st (np_numeric np)) = Some r"
    using slot_usersD(2) [OF assms(1)] assms(2) by blast
  then have "n_servernicks st (homeserver (np_numeric np)) \<noteq> None" by (simp add: slot_user_def split: option.splits)
  then show "\<not> no_handle st (np_numeric np)"
    using slot_usersD(1) [OF assms(1) homeserver_less] by (auto simp: no_handle_def)
qed

lemma numeric_unique:
  assumes "slot_users st" "n_recs st r = Some np" "n_recs st q = Some nq" "np_numeric np = np_numeric nq"
  shows "r = q"
  using live_handle(1) [OF assms(1,2)] live_handle(1) [OF assms(1,3)] assms(4) by simp

lemma nickbynumeric_ok:
  assumes s: "slot_users st" and x: "x < 2 ^ 30"
  obtains y where "nickbynumeric x st = Some y"
    "\<And>r. y = Some r \<longleftrightarrow> (\<exists>np. n_recs st r = Some np \<and> np_numeric np = x)"
proof (cases "no_handle st x")
  case True
  then have "nickbynumeric x st = Some None" by (simp add: nickbynumeric_def)
  moreover have "np_numeric np \<noteq> x" if "n_recs st r = Some np" for r np
    using live_handle(2) [OF s that] True by auto
  ultimately show thesis using that [of None] by auto
next
  case False
  let ?v = "slot_user st (homeserver x) (handle_slot st x)"
  show thesis
  proof (cases ?v)
    case None
    then have "nickbynumeric x st = Some None" using False handle_value_slot [OF s False] by (simp add: nickbynumeric_def)
    moreover have "np_numeric np \<noteq> x" if "n_recs st r = Some np" for r np
      using live_handle(1) [OF s that] None by auto
    ultimately show thesis using that [of None] by auto
  next
    case (Some q)
    then obtain nq where q: "n_recs st q = Some nq" using slot_usersD(2) [OF s] by blast
    have e: "nickbynumeric x st = Some (if np_numeric nq = x then Some q else None)"
      using False handle_value_slot [OF s False] Some q masked_small [OF x] by (simp add: nickbynumeric_def)
    have only: "r = q" if "n_recs st r = Some np" "np_numeric np = x" for r np
      using live_handle(1) [OF s that(1)] that(2) Some by simp
    show thesis
    proof (rule that [OF e])
      fix r show "(if np_numeric nq = x then Some q else None) = Some r
          \<longleftrightarrow> (\<exists>np. n_recs st r = Some np \<and> np_numeric np = x)"
        using q only [of r] by (cases "r = q") auto
    qed
  qed
qed

lemma numeric5_bound: "numerictolong s 5 = Some x \<Longrightarrow> 0 \<le> x \<and> nat x < 2 ^ 30"
  using numerictolong_loop_bound [of 0 s 5 x 0] by (auto simp: numerictolong_def nat_less_iff)

text \<open>At most as many users as numerics.\<close>

lemma card_users:
  assumes "slot_users st"
  shows "finite (dom (n_recs st))" "card (dom (n_recs st)) \<le> 2 ^ 30"
proof -
  let ?f = "\<lambda>r. np_numeric (the (n_recs st r))"
  have inj: "inj_on ?f (dom (n_recs st))"
  proof (rule inj_onI)
    fix r q assume "r \<in> dom (n_recs st)" "q \<in> dom (n_recs st)" and e: "?f r = ?f q"
    then obtain np nq where "n_recs st r = Some np" "n_recs st q = Some nq" by blast
    then show "r = q" using numeric_unique [OF assms] e by simp
  qed
  have sub: "?f ` dom (n_recs st) \<subseteq> {..<2 ^ 30}" using slot_usersD(3) [OF assms] by auto
  show "finite (dom (n_recs st))" by (rule inj_on_finite [OF inj sub]) simp
  show "card (dom (n_recs st)) \<le> 2 ^ 30" using card_inj_on_le [OF inj sub] by simp
qed

section \<open>Cloaks\<close>

definition cloak_of :: "(nat \<rightharpoonup> nickrec) \<Rightarrow> nat \<Rightarrow> nat option" where
  "cloak_of recs r = Option.bind (recs r) np_cloak_extra"

definition cloak_count :: "(nat \<rightharpoonup> nickrec) \<Rightarrow> nat \<Rightarrow> 32 word option" where
  "cloak_count recs r = map_option np_cloak_count (recs r)"

definition cloaks_ok :: "(nat \<rightharpoonup> nickrec) \<Rightarrow> bool" where
  "cloaks_ok recs \<longleftrightarrow> (\<forall>r c. cloak_of recs r = Some c \<longrightarrow> recs c \<noteq> None)
     \<and> (\<forall>c n. cloak_count recs c = Some n \<longrightarrow> n = of_nat (card {r. cloak_of recs r = Some c}))"

text \<open>Records up to their cloaks.\<close>

definition uncloaked :: "nickrec \<Rightarrow> nickrec" where
  "uncloaked np = np\<lparr>np_cloak_count := 0, np_cloak_extra := None\<rparr>"

definition same_nicks :: "(nat \<rightharpoonup> nickrec) \<Rightarrow> (nat \<rightharpoonup> nickrec) \<Rightarrow> bool" where
  "same_nicks recs recs' \<longleftrightarrow> (\<forall>r. map_option uncloaked (recs' r) = map_option uncloaked (recs r))"

lemma same_nicks_refl [simp]: "same_nicks recs recs"
  by (simp add: same_nicks_def)

lemma same_nicks_trans: "same_nicks a b \<Longrightarrow> same_nicks b c \<Longrightarrow> same_nicks a c"
  by (simp add: same_nicks_def)

lemma same_nicks_put: "recs r = Some np \<Longrightarrow> uncloaked np' = uncloaked np \<Longrightarrow> same_nicks recs (recs(r \<mapsto> np'))"
  by (simp add: same_nicks_def)

lemma uncloaked_fields:
  assumes "uncloaked np' = uncloaked np"
  shows "np_nick np' = np_nick np" "np_numeric np' = np_numeric np" "np_host np' = np_host np"
    "np_realname np' = np_realname np" "np_auth np' = np_auth np" "np_umodes np' = np_umodes np"
    "np_ipaddress np' = np_ipaddress np" "np_ipnode np' = np_ipnode np" "np_ident np' = np_ident np"
    "np_timestamp np' = np_timestamp np"
  using assms by (cases np; cases np'; simp add: uncloaked_def)+

lemma same_nicks_live:
  assumes "same_nicks recs recs'" "recs r = Some np"
  obtains np' where "recs' r = Some np'" "uncloaked np' = uncloaked np"
  using assms unfolding same_nicks_def by (metis map_option_eq_Some)

lemma same_nicks_sym: "same_nicks recs recs' \<Longrightarrow> same_nicks recs' recs"
  by (simp add: same_nicks_def)

lemma same_nicks_map:
  assumes "same_nicks recs recs'" "\<And>np np'. uncloaked np' = uncloaked np \<Longrightarrow> f np' = f np"
  shows "map_option f (recs' r) = map_option f (recs r)"
proof (cases "recs r")
  case None
  then show ?thesis using assms(1) [unfolded same_nicks_def, rule_format, of r] by simp
next
  case (Some np)
  then obtain np' where "recs' r = Some np'" "uncloaked np' = uncloaked np"
    using same_nicks_live [OF assms(1)] by blast
  then show ?thesis using assms(2) [of np' np] Some by simp
qed

lemma same_nicks_dom: "same_nicks recs recs' \<Longrightarrow> dom recs' = dom recs"
  unfolding same_nicks_def by (metis (no_types, lifting) domIff map_option_is_None subsetI subset_antisym)

lemma card_without:
  assumes "finite A" "t \<in> A"
  shows "(of_nat (card (A - {t})) :: 32 word) = of_nat (card A) - 1"
  using card_Suc_Diff1 [OF assms] by (metis add_diff_cancel_left' of_nat_Suc)

lemma cloak_target_finite: "finite (dom recs) \<Longrightarrow> finite {r. cloak_of recs r = Some c}"
  by (rule finite_subset [of _ "dom recs"]) (auto simp: cloak_of_def bind_eq_Some_conv)

lemma cloaksD:
  assumes "cloaks_ok recs"
  shows "cloak_of recs r = Some c \<Longrightarrow> recs c \<noteq> None"
    "recs c = Some cp \<Longrightarrow> np_cloak_count cp = of_nat (card {r. cloak_of recs r = Some c})"
  using assms by (auto simp: cloaks_ok_def cloak_count_def)

lemma cloaksI:
  assumes "\<And>r c. cloak_of recs r = Some c \<Longrightarrow> recs c \<noteq> None"
    "\<And>c cp. recs c = Some cp \<Longrightarrow> np_cloak_count cp = of_nat (card {r. cloak_of recs r = Some c})"
  shows "cloaks_ok recs"
  using assms by (auto simp: cloaks_ok_def cloak_count_def)

lemma removecloaktarget_ok:
  assumes ok: "cloaks_ok (n_recs st)" and fin: "finite (dom (n_recs st))" and t: "n_recs st t = Some tp"
  obtains recs where "removecloaktarget t st = Some (st\<lparr>n_recs := recs\<rparr>)" "same_nicks (n_recs st) recs"
    "cloaks_ok recs" "cloak_of recs = (cloak_of (n_recs st))(t := None)"
proof (cases "np_cloak_extra tp")
  case None
  then have "cloak_of (n_recs st) = (cloak_of (n_recs st))(t := None)" using t by (auto simp: cloak_of_def fun_eq_iff)
  moreover have "removecloaktarget t st = Some (st\<lparr>n_recs := n_recs st\<rparr>)" using None t by (simp add: removecloaktarget_def)
  ultimately show thesis using that ok same_nicks_refl by blast
next
  case (Some c)
  then have ct: "cloak_of (n_recs st) t = Some c" using t by (simp add: cloak_of_def)
  then obtain cp where c: "n_recs st c = Some cp" using cloaksD(1) [OF ok ct] by auto
  let ?r1 = "(n_recs st)(c \<mapsto> cp\<lparr>np_cloak_count := np_cloak_count cp - 1\<rparr>)"
  obtain tp1 where t1: "?r1 t = Some tp1" "uncloaked tp1 = uncloaked tp"
    by (rule that [of "if t = c then cp\<lparr>np_cloak_count := np_cloak_count cp - 1\<rparr> else tp"])
      (use t c in \<open>auto simp: uncloaked_def\<close>)
  let ?r2 = "?r1(t \<mapsto> tp1\<lparr>np_cloak_extra := None\<rparr>)"
  have e: "removecloaktarget t st = Some (st\<lparr>n_recs := ?r2\<rparr>)"
    using Some t c t1(1) by (simp add: removecloaktarget_def put_rec_def del: fun_upd_apply)
  have same: "same_nicks (n_recs st) ?r2"
  proof (rule same_nicks_trans)
    show "same_nicks (n_recs st) ?r1" by (rule same_nicks_put) (use c in \<open>simp_all add: uncloaked_def\<close>)
    show "same_nicks ?r1 ?r2" by (rule same_nicks_put, rule t1(1)) (simp add: uncloaked_def)
  qed
  have of2: "cloak_of ?r2 = (cloak_of (n_recs st))(t := None)"
    using c t1(1) by (auto simp: cloak_of_def fun_eq_iff)
  have count: "np_cloak_count dp = np_cloak_count d0 - (if d = c then 1 else 0)"
    if "?r2 d = Some dp" "n_recs st d = Some d0" for d dp d0
    using that c t t1(1) by (auto split: if_splits)
  have "cloaks_ok ?r2"
  proof (rule cloaksI)
    fix r d assume "cloak_of ?r2 r = Some d"
    then have "n_recs st d \<noteq> None" unfolding of2 using cloaksD(1) [OF ok] by (auto split: if_splits)
    then show "?r2 d \<noteq> None" by auto
  next
    fix d dp assume d: "?r2 d = Some dp"
    then obtain d0 where d0: "n_recs st d = Some d0" using c t by (auto split: if_splits)
    let ?A = "{r. cloak_of (n_recs st) r = Some d}"
    have A: "{r. cloak_of ?r2 r = Some d} = ?A - {t}" unfolding of2 by auto
    have "t \<in> ?A \<longleftrightarrow> d = c" using ct by auto
    then have "(of_nat (card (?A - {t})) :: 32 word) = of_nat (card ?A) - (if d = c then 1 else 0)"
      using card_without [OF cloak_target_finite [OF fin], of t d] by auto
    then show "np_cloak_count dp = of_nat (card {r. cloak_of ?r2 r = Some d})"
      unfolding A using count [OF d d0] cloaksD(2) [OF ok d0] by simp
  qed
  then show thesis using that e same of2 by blast
qed

lemma addcloaktarget_ok:
  assumes ok: "cloaks_ok (n_recs st)" and fin: "finite (dom (n_recs st))"
    and t: "n_recs st t = Some tp" and c: "n_recs st c = Some cp"
  obtains recs where "addcloaktarget c t st = Some (st\<lparr>n_recs := recs\<rparr>)" "same_nicks (n_recs st) recs"
    "cloaks_ok recs" "cloak_of recs = (cloak_of (n_recs st))(t := Some c)"
proof -
  obtain recs1 where r1: "removecloaktarget t st = Some (st\<lparr>n_recs := recs1\<rparr>)" "same_nicks (n_recs st) recs1"
    "cloaks_ok recs1" "cloak_of recs1 = (cloak_of (n_recs st))(t := None)"
    by (rule removecloaktarget_ok [OF ok fin t])
  obtain tp1 where t1: "recs1 t = Some tp1" using same_nicks_live [OF r1(2) t] by blast
  let ?r2 = "recs1(t \<mapsto> tp1\<lparr>np_cloak_extra := Some c\<rparr>)"
  obtain cp1 where c1: "recs1 c = Some cp1" using same_nicks_live [OF r1(2) c] by blast
  obtain cp2 where c2: "?r2 c = Some cp2" "np_cloak_count cp2 = np_cloak_count cp1"
    by (rule that [of "if c = t then tp1\<lparr>np_cloak_extra := Some c\<rparr> else cp1"]) (use c1 t1 in auto)
  let ?r3 = "?r2(c \<mapsto> cp2\<lparr>np_cloak_count := np_cloak_count cp2 + 1\<rparr>)"
  have e: "addcloaktarget c t st = Some (st\<lparr>n_recs := ?r3\<rparr>)"
    using r1(1) t1 c2(1) by (simp add: addcloaktarget_def put_rec_def del: fun_upd_apply)
  have same: "same_nicks (n_recs st) ?r3"
  proof (rule same_nicks_trans [OF r1(2)], rule same_nicks_trans)
    show "same_nicks recs1 ?r2" by (rule same_nicks_put, rule t1) (simp add: uncloaked_def)
    show "same_nicks ?r2 ?r3" by (rule same_nicks_put, rule c2(1)) (simp add: uncloaked_def)
  qed
  have of3: "cloak_of ?r3 = (cloak_of (n_recs st))(t := Some c)"
  proof -
    have "cloak_of ?r3 = cloak_of ?r2" using c2(1) by (auto simp: cloak_of_def fun_eq_iff)
    moreover have "cloak_of ?r2 = (cloak_of recs1)(t := Some c)" by (auto simp: cloak_of_def fun_eq_iff)
    ultimately show ?thesis by (simp add: r1(4))
  qed
  have count: "np_cloak_count dp = np_cloak_count d0 + (if d = c then 1 else 0)"
    if "?r3 d = Some dp" "recs1 d = Some d0" for d dp d0
    using that c1 c2 t1 by (auto split: if_splits)
  have fin1: "finite (dom recs1)" using same_nicks_dom [OF r1(2)] fin by simp
  have "cloaks_ok ?r3"
  proof (rule cloaksI)
    fix r d assume "cloak_of ?r3 r = Some d"
    then have "n_recs st d \<noteq> None" unfolding of3 using cloaksD(1) [OF ok] c by (auto split: if_splits)
    then have "recs1 d \<noteq> None" using same_nicks_dom [OF r1(2)] by (auto simp: dom_def set_eq_iff)
    then show "?r3 d \<noteq> None" by auto
  next
    fix d dp assume d: "?r3 d = Some dp"
    then obtain d0 where d0: "recs1 d = Some d0" using c1 t1 by (auto split: if_splits)
    let ?A = "{r. cloak_of recs1 r = Some d}"
    have "t \<notin> ?A" using r1(4) by simp
    moreover have "{r. cloak_of ?r3 r = Some d} = (if d = c then insert t ?A else ?A)"
      unfolding of3 r1(4) by auto
    ultimately show "np_cloak_count dp = of_nat (card {r. cloak_of ?r3 r = Some d})"
      using count [OF d d0] cloaksD(2) [OF r1(3) d0] cloak_target_finite [OF fin1, of d]
      by (cases "d = c") auto
  qed
  then show thesis using that e same of3 by blast
qed

lemma small_of_nat: "(of_nat n :: 32 word) = 0 \<Longrightarrow> n < 2 ^ 32 \<Longrightarrow> n = 0"
  using unat_of_nat [of n, where 'a = 32] by simp

lemma clearcloaktargets_ok:
  assumes ok: "cloaks_ok (n_recs st)" and t: "table_users st" and fin: "finite (dom (n_recs st))"
    and few: "card (dom (n_recs st)) < 2 ^ 32" and c: "n_recs st c = Some cp"
  obtains recs where "clearcloaktargets c st = Some (st\<lparr>n_recs := recs\<rparr>)" "same_nicks (n_recs st) recs"
    "cloaks_ok recs" "cloak_of recs = (\<lambda>r. if cloak_of (n_recs st) r = Some c then None else cloak_of (n_recs st) r)"
proof (cases "np_cloak_count cp = 0")
  case True
  let ?A = "{r. cloak_of (n_recs st) r = Some c}"
  have "card ?A \<le> card (dom (n_recs st))"
    by (rule card_mono [OF fin]) (auto simp: cloak_of_def bind_eq_Some_conv)
  then have "card ?A = 0" using small_of_nat [of "card ?A"] few cloaksD(2) [OF ok c] True by simp
  then have "?A = {}" using cloak_target_finite [OF fin] by simp
  then have "cloak_of (n_recs st) = (\<lambda>r. if cloak_of (n_recs st) r = Some c then None else cloak_of (n_recs st) r)"
    by (auto simp: fun_eq_iff)
  moreover have "clearcloaktargets c st = Some (st\<lparr>n_recs := n_recs st\<rparr>)" using True c by (simp add: clearcloaktargets_def)
  ultimately show thesis using that ok same_nicks_refl by blast
next
  case False
  let ?f = "\<lambda>tp. if np_cloak_extra tp = Some c then tp\<lparr>np_cloak_extra := None\<rparr> else tp"
  let ?r1 = "\<lambda>r. map_option ?f (n_recs st r)"
  have walk: "(if \<exists>j < NICKHASHSIZE. r \<in> set (n_nicktable st j) then map_option ?f (n_recs st r) else n_recs st r) = ?r1 r" for r
  proof (cases "n_recs st r")
    case (Some np)
    then have "r \<in> set (n_nicktable st (nickhash (np_nick np)))" "nickhash (np_nick np) < NICKHASHSIZE"
      using chains_in [OF table_usersD(1) [OF t]] by (simp_all add: nickhash_def)
    then show ?thesis by auto
  qed simp
  let ?r2 = "?r1(c \<mapsto> (?f cp)\<lparr>np_cloak_count := 0\<rparr>)"
  have e: "clearcloaktargets c st = Some (st\<lparr>n_recs := ?r2\<rparr>)"
    using False c unfolding clearcloaktargets_def walk by (simp add: put_rec_def Let_def)
  have same: "same_nicks (n_recs st) ?r2"
    unfolding same_nicks_def
  proof
    fix r show "map_option uncloaked (?r2 r) = map_option uncloaked (n_recs st r)"
      using c by (cases "n_recs st r") (auto simp: uncloaked_def)
  qed
  have of2: "cloak_of ?r2 = (\<lambda>r. if cloak_of (n_recs st) r = Some c then None else cloak_of (n_recs st) r)"
  proof
    fix r show "cloak_of ?r2 r = (if cloak_of (n_recs st) r = Some c then None else cloak_of (n_recs st) r)"
      using c by (cases "n_recs st r") (auto simp: cloak_of_def)
  qed
  have "cloaks_ok ?r2"
  proof (rule cloaksI)
    fix r d assume "cloak_of ?r2 r = Some d"
    then have "n_recs st d \<noteq> None" unfolding of2 using cloaksD(1) [OF ok] by (auto split: if_splits)
    then show "?r2 d \<noteq> None" by auto
  next
    fix d dp assume d: "?r2 d = Some dp"
    show "np_cloak_count dp = of_nat (card {r. cloak_of ?r2 r = Some d})"
    proof (cases "d = c")
      case True
      then have "{r. cloak_of ?r2 r = Some d} = {}" unfolding of2 by auto
      moreover have "np_cloak_count dp = 0" using d True by auto
      ultimately show ?thesis by simp
    next
      case False
      then have "{r. cloak_of ?r2 r = Some d} = {r. cloak_of (n_recs st) r = Some d}" unfolding of2 by auto
      moreover obtain d0 where "n_recs st d = Some d0" "np_cloak_count dp = np_cloak_count d0"
        using d False by (auto split: if_splits)
      ultimately show ?thesis using cloaksD(2) [OF ok] by simp
    qed
  qed
  then show thesis using that e same of2 by blast
qed

section \<open>Removing a user\<close>

definition node_key :: "nickrec \<Rightarrow> irc_in_addr \<times> nat" where
  "node_key np = (ip_canonicalize_tunnel (np_ipaddress np), np_ipnode np)"

lemma uncloaked_node_key: "uncloaked np' = uncloaked np \<Longrightarrow> node_key np' = node_key np"
  unfolding node_key_def using uncloaked_fields(7,8) [of np' np] by metis

text \<open>The users \<open>U\<close> are the ones in the tables of hosts, real names, accounts and addresses.\<close>

definition user_links :: "(irc_in_addr \<times> nat \<times> nat) multiset \<Rightarrow> nickst \<Rightarrow> (nat \<rightharpoonup> nickrec) \<Rightarrow> bool" where
  "user_links H st U \<longleftrightarrow>
     name_users hosthash (map ToLower) (n_hosts st) (\<lambda>r. map_option np_host (U r))
     \<and> name_users realnamehash (\<lambda>n. n) (n_reals st) (\<lambda>r. map_option np_realname (U r))
     \<and> account_users (n_auths st) (\<lambda>r. Option.bind (U r) np_auth)
     \<and> trie_users (n_iptree st) (\<lambda>r. map_option node_key (U r)) H"

lemma user_links_same:
  assumes "same_nicks U U'"
  shows "user_links H st U' = user_links H st U"
proof -
  have "map_option np_host (U' r) = map_option np_host (U r)"
    "map_option np_realname (U' r) = map_option np_realname (U r)"
    "map_option node_key (U' r) = map_option node_key (U r)" for r
    by (rule same_nicks_map [OF assms], erule uncloaked_fields(3) uncloaked_fields(4) uncloaked_node_key)+
  moreover have "Option.bind (U' r) np_auth = Option.bind (U r) np_auth" for r
  proof (cases "U r")
    case None
    then show ?thesis using assms [unfolded same_nicks_def, rule_format, of r] by simp
  next
    case (Some np)
    obtain np' where "U' r = Some np'" "uncloaked np' = uncloaked np" by (rule same_nicks_live [OF assms Some])
    then show ?thesis using uncloaked_fields(5) [of np' np] Some by simp
  qed
  ultimately show ?thesis by (simp add: user_links_def)
qed

lemma user_links_tables:
  "n_hosts st' = n_hosts st \<Longrightarrow> n_reals st' = n_reals st \<Longrightarrow> n_auths st' = n_auths st \<Longrightarrow>
   n_iptree st' = n_iptree st \<Longrightarrow> user_links H st' U = user_links H st U"
  by (simp add: user_links_def)

text \<open>The first two invariants depend on the records up to the cloaks.\<close>

lemma table_users_same:
  assumes t: "table_users st" and s: "same_nicks (n_recs st) (n_recs st')"
    and st': "n_nicktable st' = n_nicktable st" "n_next st' = n_next st"
  shows "table_users st'"
proof -
  have live: "\<exists>np. n_recs st r = Some np \<and> np_nick np = np_nick np'" if "n_recs st' r = Some np'" for r np'
    using same_nicks_live [OF same_nicks_sym [OF s] that] uncloaked_fields(1) by metis
  have "map_option (nickhash \<circ> np_nick) (n_recs st' r) = map_option (nickhash \<circ> np_nick) (n_recs st r)" for r
    by (rule same_nicks_map [OF s], drule uncloaked_fields(1)) (simp only: comp_apply)
  then have "chains (n_nicktable st') (\<lambda>r. map_option (nickhash \<circ> np_nick) (n_recs st' r))"
    using table_usersD(1) [OF t] st' by simp
  moreover have "r < n_next st' \<and> cstring (np_nick np)" if "n_recs st' r = Some np" for r np
    using live [OF that] table_usersD(2,3) [OF t] st' by metis
  moreover have "r = q" if "n_recs st' r = Some np" "n_recs st' q = Some nq" "lower (np_nick np) = lower (np_nick nq)" for r q np nq
    using live [OF that(1)] live [OF that(2)] that(3) table_usersD(4) [OF t] by metis
  ultimately show ?thesis unfolding table_users_def by blast
qed

lemma slot_users_same:
  assumes t: "slot_users st" and s: "same_nicks (n_recs st) (n_recs st')"
    and st': "n_servernicks st' = n_servernicks st" "n_serv st' = n_serv st"
  shows "slot_users st'"
proof -
  have num: "map_option np_numeric (n_recs st' r) = map_option np_numeric (n_recs st r)" for r
    by (rule same_nicks_map [OF s]) (erule uncloaked_fields(2))
  have "(\<exists>np. n_recs st' r = Some np \<and> homeserver (np_numeric np) = n \<and> handle_slot st (np_numeric np) = i)
      \<longleftrightarrow> (\<exists>np. n_recs st r = Some np \<and> homeserver (np_numeric np) = n \<and> handle_slot st (np_numeric np) = i)" for r n i
    using num [of r] by (cases "n_recs st r"; cases "n_recs st' r") auto
  moreover have "np_numeric np < 2 ^ 30" if "n_recs st' r = Some np" for r np
    using num [of r] that slot_usersD(3) [OF t, of r] by (cases "n_recs st r") auto
  moreover have "slot_user st' = slot_user st" "handle_slot st' = handle_slot st"
    by (simp_all add: slot_user_def handle_slot_def st' fun_eq_iff)
  ultimately show ?thesis
    using t st' unfolding slot_users_def by simp
qed

text \<open>A user out of its slot and its chain.\<close>

lemma table_users_remove:
  assumes t: "table_users st" and r: "n_recs st r = Some np"
    and st': "n_recs st' = (n_recs st)(r := None)" "n_next st' = n_next st"
      "n_nicktable st' = (n_nicktable st)(nickhash (np_nick np) := remove1 r (n_nicktable st (nickhash (np_nick np))))"
  shows "table_users st'"
proof -
  have "chains (n_nicktable st') (\<lambda>q. map_option (nickhash \<circ> np_nick) (n_recs st' q))"
    using chains_remove [OF table_usersD(1) [OF t], of r "nickhash (np_nick np)"] r
    by (auto simp: st' elim!: chains_same)
  moreover have "q < n_next st' \<and> cstring (np_nick nq)" if "n_recs st' q = Some nq" for q nq
    using that table_usersD(2,3) [OF t, of q] by (simp add: st' split: if_splits)
  moreover have "p = q" if "n_recs st' p = Some np'" "n_recs st' q = Some nq" "lower (np_nick np') = lower (np_nick nq)" for p q np' nq
    using that table_usersD(4) [OF t, of p _ q] by (simp add: st' split: if_splits)
  ultimately show ?thesis unfolding table_users_def by blast
qed

lemma slot_users_remove:
  assumes t: "slot_users st" and r: "n_recs st r = Some np"
    and st': "n_recs st' = (n_recs st)(r := None)" "n_serv st' = n_serv st"
      "n_servernicks st (homeserver (np_numeric np)) = Some tab"
      "n_servernicks st' = (n_servernicks st)(homeserver (np_numeric np) \<mapsto> tab(handle_slot st (np_numeric np) := None))"
  shows "slot_users st'"
proof -
  have h: "handle_slot st' = handle_slot st" by (simp add: handle_slot_def st' fun_eq_iff)
  have own: "slot_user st (homeserver (np_numeric np)) (handle_slot st (np_numeric np)) = Some r"
    by (rule live_handle(1) [OF t r])
  have s: "slot_user st' n i = (if n = homeserver (np_numeric np) \<and> i = handle_slot st (np_numeric np) then None
      else slot_user st n i)" for n i
    using st'(3) by (auto simp: slot_user_def st'(4))
  have "slot_user st' n i = Some q \<longleftrightarrow>
      (\<exists>nq. n_recs st' q = Some nq \<and> homeserver (np_numeric nq) = n \<and> handle_slot st' (np_numeric nq) = i)" for n i q
  proof (cases "q = r")
    case True
    have "slot_user st' n i \<noteq> Some r"
    proof
      assume a: "slot_user st' n i = Some r"
      then have "slot_user st n i = Some r" by (simp add: s split: if_splits)
      then have "homeserver (np_numeric np) = n" "handle_slot st (np_numeric np) = i"
        using slot_usersD(2) [OF t] r by auto
      then show False using a by (simp add: s)
    qed
    then show ?thesis using True by (simp add: st'(1))
  next
    case False
    have "slot_user st' n i = Some q \<longleftrightarrow> slot_user st n i = Some q" using own False by (auto simp: s)
    then show ?thesis using slot_usersD(2) [OF t] False by (simp add: st'(1) h)
  qed
  moreover have "n_servernicks st' n = None \<longleftrightarrow> n_servernicks st n = None" for n using st'(3) by (simp add: st'(4))
  moreover have "np_numeric nq < 2 ^ 30" if "n_recs st' q = Some nq" for q nq
    using that slot_usersD(3) [OF t] by (simp add: st'(1) split: if_splits)
  ultimately show ?thesis using slot_usersD(1) [OF t] unfolding slot_users_def by (simp add: st'(2))
qed

lemma user_links_leave:
  assumes u: "user_links H st U" and r: "U r = Some np" and acc: "np_auth np \<noteq> None \<longrightarrow> has_umode np UMODE_ACCOUNT"
  obtains hosts1 hosts2 reals1 reals2 auths tree where
    "unlink_name r (np_host np) (n_hosts st) = Some hosts1" "releasehost (np_host np) hosts1 = Some hosts2"
    "unlink_name r (np_realname np) (n_reals st) = Some reals1" "releaserealname (np_realname np) reals1 = Some reals2"
    "release_account r np (n_auths st) = Some auths" "user_off (np_ipnode np) (n_iptree st) = Some tree"
    "\<forall>st'. n_hosts st' = hosts2 \<longrightarrow> n_reals st' = reals2 \<longrightarrow> n_auths st' = auths \<longrightarrow> n_iptree st' = tree \<longrightarrow>
       user_links H st' (U(r := None))"
proof -
  have upd: "(\<lambda>q. map_option f ((U(r := None)) q)) = (\<lambda>q. map_option f (U q))(r := None)" for f
    by (simp add: fun_eq_iff)
  have updb: "(\<lambda>q. Option.bind ((U(r := None)) q) np_auth) = (\<lambda>q. Option.bind (U q) np_auth)(r := None)"
    by (simp add: fun_eq_iff)
  obtain hosts1 hosts2 where h: "unlink_name r (np_host np) (n_hosts st) = Some hosts1"
      "release_name hosthash (np_host np) hosts1 = Some hosts2"
      "name_users hosthash (map ToLower) hosts2 ((\<lambda>q. map_option np_host (U q))(r := None))"
    by (rule host_names.leave_ok [of "n_hosts st" "\<lambda>q. map_option np_host (U q)" r "np_host np"])
      (use u r in \<open>auto simp: user_links_def\<close>)
  obtain reals1 reals2 where n: "unlink_name r (np_realname np) (n_reals st) = Some reals1"
      "release_name realnamehash (np_realname np) reals1 = Some reals2"
      "name_users realnamehash (\<lambda>n. n) reals2 ((\<lambda>q. map_option np_realname (U q))(r := None))"
    by (rule real_names.leave_ok [of "n_reals st" "\<lambda>q. map_option np_realname (U q)" r "np_realname np"])
      (use u r in \<open>auto simp: user_links_def\<close>)
  have ua: "account_users (n_auths st) (\<lambda>q. Option.bind (U q) np_auth)" using u by (simp add: user_links_def)
  obtain auths where a: "release_account r np (n_auths st) = Some auths"
      "account_users auths ((\<lambda>q. Option.bind (U q) np_auth)(r := None))"
  proof (cases "np_auth np")
    case None
    then have "(\<lambda>q. Option.bind (U q) np_auth)(r := None) = (\<lambda>q. Option.bind (U q) np_auth)"
      using r by (auto simp: fun_eq_iff)
    then show thesis using that [of "n_auths st"] None ua by (simp add: release_account_def)
  next
    case (Some a)
    then have "Option.bind (U r) np_auth = Some a" using r by simp
    from logout_ok [OF ua this] show thesis using that Some acc by (auto simp: release_account_def)
  qed
  obtain tree where t: "user_off (np_ipnode np) (n_iptree st) = Some tree"
      "trie_users tree ((\<lambda>q. map_option node_key (U q))(r := None)) H"
    by (rule user_off_ok [of "n_iptree st" "\<lambda>q. map_option node_key (U q)" H r "ip_canonicalize_tunnel (np_ipaddress np)" "np_ipnode np"])
      (use u r in \<open>auto simp: user_links_def node_key_def\<close>)
  have "user_links H st' (U(r := None))"
    if "n_hosts st' = hosts2" "n_reals st' = reals2" "n_auths st' = auths" "n_iptree st' = tree" for st'
    unfolding user_links_def upd updb that using h(3) n(3) a(2) t(2) by blast
  then show thesis
    using that h n a t unfolding releasehost_def releaserealname_def by blast
qed

lemma deletenick_ok:
  assumes t: "table_users st" and s: "slot_users st" and c: "cloaks_ok (n_recs st)" and u: "user_links H st U"
    and r: "n_recs st r = Some np" "U r = Some np" and acc: "np_auth np \<noteq> None \<longrightarrow> has_umode np UMODE_ACCOUNT"
  obtains st' where "deletenick r st = Some st'" "table_users st'" "slot_users st'" "cloaks_ok (n_recs st')"
    "user_links H st' (U(r := None))" "same_nicks ((n_recs st)(r := None)) (n_recs st')"
    "n_serv st' = n_serv st" "n_next st' = n_next st"
    "\<forall>n. n_servernicks st' n = None \<longleftrightarrow> n_servernicks st n = None"
    "n_trace st' = n_trace st @ [NickPreLost r, NickLost r]"
proof -
  obtain hosts1 hosts2 reals1 reals2 auths tree where l:
    "unlink_name r (np_host np) (n_hosts st) = Some hosts1" "releasehost (np_host np) hosts1 = Some hosts2"
    "unlink_name r (np_realname np) (n_reals st) = Some reals1" "releaserealname (np_realname np) reals1 = Some reals2"
    "release_account r np (n_auths st) = Some auths" "user_off (np_ipnode np) (n_iptree st) = Some tree"
    "\<forall>st'. n_hosts st' = hosts2 \<longrightarrow> n_reals st' = reals2 \<longrightarrow> n_auths st' = auths \<longrightarrow> n_iptree st' = tree \<longrightarrow>
       user_links H st' (U(r := None))"
    by (rule user_links_leave [OF u r(2) acc])
  define st1 where "st1 = (trigger [NickPreLost r, NickLost r] st)
    \<lparr>n_reals := reals2, n_hosts := hosts2, n_auths := auths, n_iptree := tree\<rparr>"
  have st1: "n_recs st1 = n_recs st" "n_nicktable st1 = n_nicktable st" "n_next st1 = n_next st"
    "n_servernicks st1 = n_servernicks st" "n_serv st1 = n_serv st"
    "n_trace st1 = n_trace st @ [NickPreLost r, NickLost r]"
    by (simp_all add: st1_def trigger_def)
  have fin: "finite (dom (n_recs st))" "card (dom (n_recs st)) < 2 ^ 32"
    using card_users [OF s] by simp_all
  obtain recs2 where r2: "removecloaktarget r st1 = Some (st1\<lparr>n_recs := recs2\<rparr>)" "same_nicks (n_recs st) recs2"
      "cloaks_ok recs2" "cloak_of recs2 = (cloak_of (n_recs st))(r := None)"
    by (rule removecloaktarget_ok [of st1 r np]) (use st1(1) c fin r(1) in simp_all)
  let ?st2 = "st1\<lparr>n_recs := recs2\<rparr>"
  have t2: "table_users ?st2" by (rule table_users_same [OF t]) (use r2(2) st1 in simp_all)
  obtain np2 where np2: "recs2 r = Some np2" "uncloaked np2 = uncloaked np" by (rule same_nicks_live [OF r2(2) r(1)])
  have dom2: "dom recs2 = dom (n_recs st)" by (rule same_nicks_dom [OF r2(2)])
  obtain recs3 where r3: "clearcloaktargets r ?st2 = Some (?st2\<lparr>n_recs := recs3\<rparr>)" "same_nicks recs2 recs3"
      "cloaks_ok recs3" "cloak_of recs3 = (\<lambda>q. if cloak_of recs2 q = Some r then None else cloak_of recs2 q)"
    by (rule clearcloaktargets_ok [of ?st2 r np2]) (use r2(3) t2 fin dom2 np2(1) in \<open>simp_all cong: if_cong\<close>)
  have same3: "same_nicks (n_recs st) recs3" by (rule same_nicks_trans [OF r2(2) r3(2)])
  obtain np3 where np3: "recs3 r = Some np3" "uncloaked np3 = uncloaked np" by (rule same_nicks_live [OF same3 r(1)])
  have nick3: "np_nick np3 = np_nick np" by (rule uncloaked_fields(1) [OF np3(2)])
  define st3 where "st3 = st1\<lparr>n_recs := recs3\<rparr>"
  have st3: "n_recs st3 = recs3" "n_nicktable st3 = n_nicktable st" "n_next st3 = n_next st"
    "n_servernicks st3 = n_servernicks st" "n_serv st3 = n_serv st"
    by (simp_all add: st3_def st1)
  have t3: "table_users st3" by (rule table_users_same [OF t]) (use same3 st3 in simp_all)
  have s3: "slot_users st3" by (rule slot_users_same [OF s]) (use same3 st3 in simp_all)
  let ?x = "np_numeric np" and ?h = "nickhash (np_nick np)"
  have x3: "np_numeric np3 = ?x" by (rule uncloaked_fields(2) [OF np3(2)])
  obtain tab where tab: "n_servernicks st (homeserver ?x) = Some tab"
    using live_handle(1) [OF s r(1)] by (auto simp: slot_user_def split: option.splits)
  define st' where "st' = st3\<lparr>n_servernicks := (n_servernicks st)(homeserver ?x \<mapsto> tab(handle_slot st3 ?x := None)),
    n_nicktable := (n_nicktable st)(?h := remove1 r (n_nicktable st ?h)), n_recs := recs3(r := None)\<rparr>"
  have e: "deletenick r st = Some st'"
    using r(1) l(1-6) r2(1) r3(1) tab np3(1) nick3
    by (simp add: deletenick_def st'_def st3_def st1_def trigger_def set_handle_def removenickfromhash_def Let_def
        handle_slot_def)
  have t': "table_users st'"
    by (rule table_users_remove [OF t3, of r np3]) (use np3(1) nick3 st3 in \<open>simp_all add: st'_def\<close>)
  have s': "slot_users st'"
    by (rule slot_users_remove [OF s3, of r np3 _ tab]) (use np3(1) x3 st3 tab in \<open>simp_all add: st'_def\<close>)
  have none: "cloak_of recs3 r = None" "cloak_of recs3 q \<noteq> Some r" for q
    by (simp_all add: r3(4) r2(4))
  have c': "cloaks_ok (n_recs st')"
  proof (rule cloaksI)
    fix q d assume "cloak_of (n_recs st') q = Some d"
    then have "cloak_of recs3 q = Some d" by (simp add: st'_def cloak_of_def split: if_splits)
    then show "n_recs st' d \<noteq> None" using cloaksD(1) [OF r3(3)] none(2) by (auto simp: st'_def)
  next
    fix d dp assume d: "n_recs st' d = Some dp"
    have "cloak_of (n_recs st') q = cloak_of recs3 q" for q
      using none(1) by (simp add: st'_def cloak_of_def)
    then show "np_cloak_count dp = of_nat (card {q. cloak_of (n_recs st') q = Some d})"
      using cloaksD(2) [OF r3(3), of d dp] d by (simp add: st'_def split: if_splits)
  qed
  have "same_nicks ((n_recs st)(r := None)) (n_recs st')" using same3 by (simp add: same_nicks_def st'_def)
  moreover have "user_links H st' (U(r := None))" using l(7) by (simp add: st'_def st3_def st1_def)
  ultimately show thesis
    using that [OF e t' s' c'] tab by (simp add: st'_def st3 st3_def st1)
qed

end
