(* ===== verification/NickMsgs.thy ===== *)
theory NickMsgs
  imports NicksOk
begin

text \<open>
  Every message about users keeps the invariant of the users and returns: new users and renames
  with their collisions, quits, kills, modes, accounts, away messages and cloaks. Also what a
  collision decides.
\<close>

section \<open>The invariant\<close>

definition flagged :: "nickrec \<Rightarrow> bool" where
  "flagged np \<longleftrightarrow> (np_auth np \<noteq> None \<longrightarrow> has_umode np UMODE_ACCOUNT)"

definition nick_inv :: "(irc_in_addr \<times> nat \<times> nat) multiset \<Rightarrow> nickst \<Rightarrow> bool" where
  "nick_inv H st \<longleftrightarrow> table_users st \<and> slot_users st \<and> cloaks_ok (n_recs st) \<and> user_links H st (n_recs st)
     \<and> (\<forall>r np. n_recs st r = Some np \<longrightarrow> flagged np)"

lemma nick_invD:
  assumes "nick_inv H st"
  shows "table_users st" "slot_users st" "cloaks_ok (n_recs st)" "user_links H st (n_recs st)"
    "n_recs st r = Some np \<Longrightarrow> flagged np"
  using assms unfolding nick_inv_def by blast+

lemma flagged_same:
  assumes "same_nicks recs recs'" "\<forall>r np. recs r = Some np \<longrightarrow> flagged np" "recs' r = Some np'"
  shows "flagged np'"
proof -
  obtain np where "recs r = Some np" "uncloaked np = uncloaked np'"
    by (rule same_nicks_live [OF same_nicks_sym [OF assms(1)] assms(3)])
  then have "flagged np" "np_auth np = np_auth np'" "np_umodes np = np_umodes np'"
    using assms(2) uncloaked_fields(5,6) [of np np'] by blast+
  then show ?thesis by (simp add: flagged_def has_umode_def)
qed

lemma nick_inv_tables:
  assumes "nick_inv H st" "n_recs st' = n_recs st" "n_nicktable st' = n_nicktable st" "n_next st' = n_next st"
    "n_servernicks st' = n_servernicks st" "n_serv st' = n_serv st" "n_hosts st' = n_hosts st"
    "n_reals st' = n_reals st" "n_auths st' = n_auths st" "n_iptree st' = n_iptree st"
  shows "nick_inv H st'"
proof -
  have "table_users st'" by (rule table_users_same [OF nick_invD(1) [OF assms(1)]]) (simp_all add: assms)
  moreover have "slot_users st'" by (rule slot_users_same [OF nick_invD(2) [OF assms(1)]]) (simp_all add: assms)
  moreover have "user_links H st' (n_recs st)"
    using nick_invD(4) [OF assms(1)] by (simp add: user_links_tables [of st' st] assms)
  ultimately show ?thesis using assms(1,2) by (simp add: nick_inv_def)
qed

lemma nick_inv_trigger: "nick_inv H st \<Longrightarrow> nick_inv H (trigger es st)"
  by (rule nick_inv_tables [of H st]) (simp_all add: trigger_def)

lemma delete_inv:
  assumes inv: "nick_inv H st" and r: "n_recs st r = Some np"
  obtains st' where "deletenick r st = Some st'" "nick_inv H st'" "same_nicks ((n_recs st)(r := None)) (n_recs st')"
    "n_serv st' = n_serv st" "n_next st' = n_next st"
    "\<forall>n. n_servernicks st' n = None \<longleftrightarrow> n_servernicks st n = None"
    "n_trace st' = n_trace st @ [NickPreLost r, NickLost r]"
proof -
  obtain st' where st': "deletenick r st = Some st'" "table_users st'" "slot_users st'" "cloaks_ok (n_recs st')"
    "user_links H st' ((n_recs st)(r := None))" "same_nicks ((n_recs st)(r := None)) (n_recs st')"
    "n_serv st' = n_serv st" "n_next st' = n_next st"
    "\<forall>n. n_servernicks st' n = None \<longleftrightarrow> n_servernicks st n = None"
    "n_trace st' = n_trace st @ [NickPreLost r, NickLost r]"
    by (rule deletenick_ok [OF nick_invD(1-4) [OF inv] r r]) (use nick_invD(5) [OF inv r] in \<open>simp add: flagged_def\<close>)
  have "user_links H st' (n_recs st')" using st'(5) user_links_same [OF st'(6)] by simp
  moreover have "\<forall>q nq. ((n_recs st)(r := None)) q = Some nq \<longrightarrow> flagged nq" using nick_invD(5) [OF inv] by simp
  then have "\<forall>q nq. n_recs st' q = Some nq \<longrightarrow> flagged nq" using flagged_same [OF st'(6)] by blast
  ultimately have "nick_inv H st'" using st'(2-4) by (simp add: nick_inv_def)
  then show thesis using that st' by blast
qed

text \<open>A record that keeps what the tables are keyed by.\<close>

definition same_keys :: "nickrec \<Rightarrow> nickrec \<Rightarrow> bool" where
  "same_keys np' np \<longleftrightarrow> np_numeric np' = np_numeric np \<and> np_host np' = np_host np
     \<and> np_realname np' = np_realname np \<and> np_ipaddress np' = np_ipaddress np \<and> np_ipnode np' = np_ipnode np
     \<and> np_cloak_count np' = np_cloak_count np \<and> np_cloak_extra np' = np_cloak_extra np"

lemma table_users_put:
  assumes t: "table_users st" and r: "n_recs st r = Some np" and l: "lower (np_nick np') = lower (np_nick np)" "cstring (np_nick np')"
  shows "table_users (put_rec r np' st)"
proof -
  let ?st = "put_rec r np' st"
  have "map_option (nickhash \<circ> np_nick) (n_recs ?st q) = map_option (nickhash \<circ> np_nick) (n_recs st q)" for q
    using r nickhash_lower [OF l(1)] by (simp add: put_rec_def)
  then have "chains (n_nicktable ?st) (\<lambda>q. map_option (nickhash \<circ> np_nick) (n_recs ?st q))"
    using table_usersD(1) [OF t] by (simp add: put_rec_def)
  moreover have "q < n_next ?st \<and> cstring (np_nick nq)" if "n_recs ?st q = Some nq" for q nq
    using that table_usersD(2,3) [OF t, of q] table_usersD(2) [OF t r] l(2) by (auto simp: put_rec_def split: if_splits)
  moreover have "p = q" if "n_recs ?st p = Some n1" "n_recs ?st q = Some n2" "lower (np_nick n1) = lower (np_nick n2)" for p q n1 n2
  proof -
    have "\<exists>m. n_recs st k = Some m \<and> lower (np_nick m) = lower (np_nick nk)" if "n_recs ?st k = Some nk" for k nk
      using that r l(1) by (auto simp: put_rec_def split: if_splits)
    then show ?thesis using that table_usersD(4) [OF t] by metis
  qed
  ultimately show ?thesis unfolding table_users_def by blast
qed

lemma slot_users_put:
  assumes t: "slot_users st" and r: "n_recs st r = Some np" "np_numeric np' = np_numeric np"
  shows "slot_users (put_rec r np' st)"
proof -
  let ?st = "put_rec r np' st"
  have "(\<exists>nq. n_recs ?st q = Some nq \<and> homeserver (np_numeric nq) = n \<and> handle_slot st (np_numeric nq) = i)
      \<longleftrightarrow> (\<exists>nq. n_recs st q = Some nq \<and> homeserver (np_numeric nq) = n \<and> handle_slot st (np_numeric nq) = i)" for q n i
    using r by (auto simp: put_rec_def)
  moreover have "slot_user ?st = slot_user st" "handle_slot ?st = handle_slot st" "n_servernicks ?st = n_servernicks st"
    "n_serv ?st = n_serv st"
    by (simp_all add: slot_user_def handle_slot_def put_rec_def fun_eq_iff)
  moreover have "np_numeric nq < 2 ^ 30" if "n_recs ?st q = Some nq" for q nq
    using that slot_usersD(3) [OF t] r by (auto simp: put_rec_def split: if_splits)
  ultimately show ?thesis using t unfolding slot_users_def by simp
qed

lemma cloaks_put:
  assumes c: "cloaks_ok recs" and r: "recs r = Some np" and np': "np_cloak_count np' = np_cloak_count np" "np_cloak_extra np' = np_cloak_extra np"
  shows "cloaks_ok (recs(r \<mapsto> np'))"
proof -
  have "cloak_of (recs(r \<mapsto> np')) = cloak_of recs" "cloak_count (recs(r \<mapsto> np')) = cloak_count recs"
    using r np' by (auto simp: cloak_of_def cloak_count_def fun_eq_iff)
  then show ?thesis using c by (auto simp: cloaks_ok_def)
qed

lemma user_links_put:
  assumes u: "user_links H st U" and r: "U r = Some np" and k: "same_keys np' np" "np_auth np' = np_auth np"
  shows "user_links H st (U(r \<mapsto> np'))"
proof -
  have "(\<lambda>q. map_option np_host ((U(r \<mapsto> np')) q)) = (\<lambda>q. map_option np_host (U q))"
    "(\<lambda>q. map_option np_realname ((U(r \<mapsto> np')) q)) = (\<lambda>q. map_option np_realname (U q))"
    "(\<lambda>q. Option.bind ((U(r \<mapsto> np')) q) np_auth) = (\<lambda>q. Option.bind (U q) np_auth)"
    "(\<lambda>q. map_option node_key ((U(r \<mapsto> np')) q)) = (\<lambda>q. map_option node_key (U q))"
    using r k by (auto simp: same_keys_def node_key_def fun_eq_iff)
  then show ?thesis using u by (simp add: user_links_def)
qed

lemma put_inv:
  assumes inv: "nick_inv H st" and r: "n_recs st r = Some np" and k: "same_keys np' np" "np_auth np' = np_auth np"
    and n: "lower (np_nick np') = lower (np_nick np)" "cstring (np_nick np')" and f: "flagged np'"
  shows "nick_inv H (put_rec r np' st)"
proof -
  have "table_users (put_rec r np' st)" by (rule table_users_put [OF nick_invD(1) [OF inv] r n])
  moreover have "slot_users (put_rec r np' st)"
    by (rule slot_users_put [OF nick_invD(2) [OF inv] r]) (use k in \<open>simp add: same_keys_def\<close>)
  moreover have "cloaks_ok (n_recs (put_rec r np' st))"
    unfolding put_rec_def using cloaks_put [OF nick_invD(3) [OF inv] r] k by (simp add: same_keys_def)
  moreover have "user_links H (put_rec r np' st) (n_recs (put_rec r np' st))"
    using user_links_put [OF nick_invD(4) [OF inv] r k] user_links_tables [of "put_rec r np' st" st]
    by (simp add: put_rec_def)
  moreover have "\<forall>q nq. n_recs (put_rec r np' st) q = Some nq \<longrightarrow> flagged nq"
    using nick_invD(5) [OF inv] f by (simp add: put_rec_def)
  ultimately show ?thesis by (simp add: nick_inv_def)
qed

section \<open>Lookups\<close>

definition numeric_str :: "string \<Rightarrow> bool" where
  "numeric_str s \<longleftrightarrow> numerictolong s 5 \<noteq> None"

lemma getnickbynumericstr_ok:
  assumes s: "slot_users st" and x: "numeric_str s"
  obtains y where "getnickbynumericstr s st = Some y"
    "\<And>r. y = Some r \<Longrightarrow> \<exists>np. n_recs st r = Some np \<and> numerictolong s 5 = Some (int (np_numeric np))"
    "y = None \<Longrightarrow> \<forall>r np. n_recs st r = Some np \<longrightarrow> numerictolong s 5 \<noteq> Some (int (np_numeric np))"
proof -
  obtain x where x: "numerictolong s 5 = Some x" using x by (auto simp: numeric_str_def)
  have b: "0 \<le> x" "nat x < 2 ^ 30" using numeric5_bound [OF x] by simp_all
  obtain y where y: "nickbynumeric (nat x) st = Some y"
      "\<And>r. y = Some r \<longleftrightarrow> (\<exists>np. n_recs st r = Some np \<and> np_numeric np = nat x)"
    by (rule nickbynumeric_ok [OF s b(2)]) (rule that)
  have e: "getnickbynumericstr s st = Some y" using x y(1) by (simp add: getnickbynumericstr_def)
  have eq: "Some x = Some (int n) \<longleftrightarrow> n = nat x" for n using b(1) by auto
  show thesis
  proof (rule that [OF e])
    show "\<exists>np. n_recs st r = Some np \<and> numerictolong s 5 = Some (int (np_numeric np))" if "y = Some r" for r
      using y(2) [of r] that unfolding x eq by blast
    show "\<forall>r np. n_recs st r = Some np \<longrightarrow> numerictolong s 5 \<noteq> Some (int (np_numeric np))" if "y = None"
      using y(2) that unfolding x eq by auto
  qed
qed

section \<open>Quits, kills, away messages, cloaks\<close>

text \<open>A handler returns, and keeps the invariant and the servers.\<close>

definition handled :: "(irc_in_addr \<times> nat \<times> nat) multiset \<Rightarrow> nickst \<Rightarrow> nickst option \<Rightarrow> bool" where
  "handled H st x \<longleftrightarrow> (\<exists>st'. x = Some st' \<and> nick_inv H st' \<and> n_serv st' = n_serv st)"

lemma handledI: "x = Some st' \<Longrightarrow> nick_inv H st' \<Longrightarrow> n_serv st' = n_serv st \<Longrightarrow> handled H st x"
  by (simp add: handled_def)

lemma handled_same [simp]: "nick_inv H st \<Longrightarrow> handled H st (Some st)"
  by (simp add: handled_def)

lemma trigger_simps [simp]: "n_serv (trigger es st) = n_serv st" "n_recs (trigger es st) = n_recs st"
  "n_servernicks (trigger es st) = n_servernicks st" "n_next (trigger es st) = n_next st"
  "n_auths (trigger es st) = n_auths st" "n_hosts (trigger es st) = n_hosts st"
  "n_nicktable (trigger es st) = n_nicktable st"
  by (simp_all add: trigger_def)

lemma delete_handled:
  assumes "nick_inv H st" "n_recs st r = Some np"
  shows "handled H st (deletenick r (trigger es st))"
proof -
  have "nick_inv H (trigger es st)" "n_recs (trigger es st) r = Some np" using assms nick_inv_trigger by simp_all
  then obtain st' where "deletenick r (trigger es st) = Some st'" "nick_inv H st'" "n_serv st' = n_serv (trigger es st)"
    by (rule delete_inv)
  then show ?thesis by (simp add: handled_def)
qed

lemma quit_handled:
  assumes inv: "nick_inv H st" and s: "numeric_str source"
  shows "handled H st (handlequitmsg source cargv st)"
proof -
  obtain y where "getnickbynumericstr source st = Some y" "\<And>r. y = Some r \<Longrightarrow> \<exists>np. n_recs st r = Some np"
    using getnickbynumericstr_ok [OF nick_invD(2) [OF inv] s] by metis
  then show ?thesis
    using delete_handled [OF inv] inv by (cases y) (fastforce simp: handlequitmsg_def)+
qed

lemma kill_handled:
  assumes inv: "nick_inv H st" and s: "cargv = [] \<or> numeric_str (cargv ! 0)"
  shows "handled H st (handlekillmsg cargv st)"
proof (cases "cargv = []")
  case False
  then obtain y where "getnickbynumericstr (cargv ! 0) st = Some y" "\<And>r. y = Some r \<Longrightarrow> \<exists>np. n_recs st r = Some np"
    using getnickbynumericstr_ok [OF nick_invD(2) [OF inv], of "cargv ! 0"] s by metis
  then show ?thesis
    using False delete_handled [OF inv] inv by (cases y) (fastforce simp: handlekillmsg_def)+
qed (use inv in \<open>simp add: handlekillmsg_def\<close>)

lemma priv_handled:
  assumes inv: "nick_inv H st" and s: "length cargv < 2 \<or> deref (cargv ! 0) \<noteq> CHR ''$'' \<or> numeric_str source"
  shows "handled H st (handleprivmsg myserver source cargv st)"
proof (cases "length cargv < 2 \<or> deref (cargv ! 0) \<noteq> CHR ''$''")
  case False
  then obtain y where "getnickbynumericstr source st = Some y"
    using getnickbynumericstr_ok [OF nick_invD(2) [OF inv], of source] s by metis
  then show ?thesis using False inv nick_inv_trigger by (simp add: handleprivmsg_def handled_def)
qed (use inv in \<open>auto simp: handleprivmsg_def\<close>)

lemma put_handled:
  assumes "nick_inv H st" "n_recs st r = Some np" "same_keys np' np" "np_auth np' = np_auth np"
    "np_nick np' = np_nick np" "flagged np'"
  shows "nick_inv H (put_rec r np' st)" "n_serv (put_rec r np' st) = n_serv st"
  using put_inv [OF assms(1-4) _ _ assms(6)] table_usersD(3) [OF nick_invD(1) [OF assms(1)] assms(2)] assms(5)
  by (simp_all add: put_rec_def)

lemma away_handled:
  assumes inv: "nick_inv H st" and s: "numeric_str source"
  shows "handled H st (handleawaymsg source cargv st)"
proof -
  obtain y where y: "getnickbynumericstr source st = Some y" "\<And>r. y = Some r \<Longrightarrow> \<exists>np. n_recs st r = Some np"
    using getnickbynumericstr_ok [OF nick_invD(2) [OF inv] s] by metis
  show ?thesis
  proof (cases y)
    case (Some r)
    then obtain np where r: "n_recs st r = Some np" using y(2) by blast
    let ?np = "np\<lparr>np_away := (if cargv \<noteq> [] \<and> cargv ! 0 \<noteq> [] then Some (sstr (cargv ! 0) AWAYLEN) else None)\<rparr>"
    have "nick_inv H (put_rec r ?np st)" "n_serv (put_rec r ?np st) = n_serv st"
      by (rule put_handled [OF inv r]; use nick_invD(5) [OF inv r] in \<open>simp add: same_keys_def flagged_def has_umode_def\<close>)+
    moreover have "handleawaymsg source cargv st = Some (put_rec r ?np st)" using y(1) Some r by (simp add: handleawaymsg_def)
    ultimately show ?thesis by (simp only: handled_def) blast
  qed (use y(1) inv in \<open>simp add: handleawaymsg_def\<close>)
qed

lemma recs_inv:
  assumes inv: "nick_inv H st" and s: "same_nicks (n_recs st) recs" and c: "cloaks_ok recs"
  shows "handled H st (Some (st\<lparr>n_recs := recs\<rparr>))"
proof (rule handledI)
  let ?st = "st\<lparr>n_recs := recs\<rparr>"
  have "table_users ?st" by (rule table_users_same [OF nick_invD(1) [OF inv]]) (simp_all add: s)
  moreover have "slot_users ?st" by (rule slot_users_same [OF nick_invD(2) [OF inv]]) (simp_all add: s)
  moreover have "user_links H ?st recs"
    using nick_invD(4) [OF inv] user_links_same [OF s, of H st] user_links_tables [of ?st st] by simp
  moreover have "\<forall>r np. recs r = Some np \<longrightarrow> flagged np" using flagged_same [OF s] nick_invD(5) [OF inv] by blast
  ultimately show "nick_inv H ?st" using c by (simp add: nick_inv_def)
qed simp_all

lemma addcloak_handled:
  assumes inv: "nick_inv H st" and s: "numeric_str source" "cargv = [] \<or> numeric_str (cargv ! 0)"
  shows "handled H st (handleaddcloak source cargv st)"
proof -
  obtain y where y: "getnickbynumericstr source st = Some y" "\<And>r. y = Some r \<Longrightarrow> \<exists>np. n_recs st r = Some np"
    using getnickbynumericstr_ok [OF nick_invD(2) [OF inv] s(1)] by metis
  show ?thesis
  proof (cases "y = None \<or> cargv = []")
    case True
    then show ?thesis using y(1) inv by (auto simp: handleaddcloak_def split: option.splits)
  next
    case False
    then obtain r np where r: "y = Some r" "n_recs st r = Some np" using y(2) by auto
    obtain z where z: "getnickbynumericstr (cargv ! 0) st = Some z" "\<And>t. z = Some t \<Longrightarrow> \<exists>np. n_recs st t = Some np"
      using getnickbynumericstr_ok [OF nick_invD(2) [OF inv], of "cargv ! 0"] s(2) False by metis
    show ?thesis
    proof (cases z)
      case None
      then show ?thesis using y(1) z(1) r(1) False inv by (simp add: handleaddcloak_def)
    next
      case (Some t)
      then obtain tp where t: "n_recs st t = Some tp" using z(2) by blast
      obtain recs where recs: "addcloaktarget r t st = Some (st\<lparr>n_recs := recs\<rparr>)" "same_nicks (n_recs st) recs" "cloaks_ok recs"
        by (rule addcloaktarget_ok [OF nick_invD(3) [OF inv] card_users(1) [OF nick_invD(2) [OF inv]] t r(2)])
      have "handleaddcloak source cargv st = Some (st\<lparr>n_recs := recs\<rparr>)"
        using y(1) z(1) r(1) False Some recs(1) by (simp add: handleaddcloak_def)
      then show ?thesis using recs_inv [OF inv recs(2,3)] by simp
    qed
  qed
qed

lemma clearcloak_handled:
  assumes inv: "nick_inv H st" and s: "numeric_str source"
  shows "handled H st (handleclearcloak source st)"
proof -
  obtain y where y: "getnickbynumericstr source st = Some y" "\<And>r. y = Some r \<Longrightarrow> \<exists>np. n_recs st r = Some np"
    using getnickbynumericstr_ok [OF nick_invD(2) [OF inv] s] by metis
  show ?thesis
  proof (cases y)
    case (Some r)
    then obtain np where r: "n_recs st r = Some np" using y(2) by blast
    have few: "card (dom (n_recs st)) < 2 ^ 32" using card_users(2) [OF nick_invD(2) [OF inv]] by simp
    obtain recs where recs: "clearcloaktargets r st = Some (st\<lparr>n_recs := recs\<rparr>)" "same_nicks (n_recs st) recs" "cloaks_ok recs"
      by (rule clearcloaktargets_ok [OF nick_invD(3) [OF inv] nick_invD(1) [OF inv] card_users(1) [OF nick_invD(2) [OF inv]] few r])
    then show ?thesis using recs_inv [OF inv recs(2,3)] y(1) Some by (simp add: handleclearcloak_def)
  qed (use y(1) inv in \<open>simp add: handleclearcloak_def\<close>)
qed

section \<open>Modes and accounts\<close>

lemma find_flag_char:
  "find_flag ch fl = Some f \<Longrightarrow> f \<in> set fl \<and> schar ch = int (uchar (flagchar f))"
  by (induction fl) (auto split: if_splits)

lemma word_keeps:
  "f AND b = 0 \<Longrightarrow> (v OR f) AND b = v AND b" "f AND b = 0 \<Longrightarrow> (v AND NOT f) AND b = v AND b" for f b v :: "32 word"
  by (auto simp: bit_eq_iff bit_simps)

lemma setflags_loop_keeps:
  assumes "\<forall>ch \<in> set s. \<forall>f. find_flag ch fl = Some f \<longrightarrow> flagbit f AND b = 0"
  shows "snd (setflags_loop v dir m s fl False False) AND b = v AND b"
  using assms by (induction s arbitrary: v dir) (auto simp: word_keeps split: option.split)

lemma setflags_loop_none: "fst (setflags_loop v dir m s fl False False) = REJECT_NONE"
  by (induction s arbitrary: v dir) (auto split: option.split)

lemma setflags_keeps:
  assumes "\<forall>ch \<in> set s. \<forall>f. find_flag ch fl = Some f \<longrightarrow> flagbit f AND b = 0"
  shows "snd (setflags v m s fl False False) AND b = v AND b"
  using setflags_loop_keeps [OF assms, of v True m] setflags_loop_none [of v True m s fl]
  by (simp add: setflags_def split_beta)

text \<open>Only \<open>r\<close> changes the account flag.\<close>

lemma account_flag_kept:
  assumes "CHR ''r'' \<notin> set s"
  shows "has_flag (snd (setflags v m s umodeflags False False)) UMODE_ACCOUNT = has_flag v UMODE_ACCOUNT"
proof -
  have only: "\<forall>f \<in> set umodeflags. flagbit f AND UMODE_ACCOUNT = 0 \<or> flagchar f = CHR ''r''"
    by code_simp
  have "flagbit f AND UMODE_ACCOUNT = 0" if "ch \<in> set s" "find_flag ch umodeflags = Some f" for ch f
  proof (rule ccontr)
    assume "flagbit f AND UMODE_ACCOUNT \<noteq> 0"
    then have "flagchar f = CHR ''r''" using only find_flag_char [OF that(2)] by blast
    then have "schar ch = schar (CHR ''r'')" using find_flag_char [OF that(2)] by (simp add: schar_uchar uchar_def)
    then show False using that(1) assms by simp
  qed
  then show ?thesis using setflags_keeps [of s umodeflags UMODE_ACCOUNT v m] by (simp add: has_flag_def)
qed

text \<open>What a mode message must bring.\<close>

definition mode_args_ok :: "string \<Rightarrow> string list \<Rightarrow> nickst \<Rightarrow> bool" where
  "mode_args_ok source cargv st \<longleftrightarrow> CHR ''r'' \<notin> set (cargv ! 1)
     \<and> (CHR ''o'' \<in> set (cargv ! 1) \<longrightarrow> 0 \<le> myhub (n_serv st)
         \<and> (\<forall>r np. n_recs st r = Some np \<longrightarrow> numerictolong source 5 = Some (int (np_numeric np)) \<longrightarrow>
              has_flag (snd (setflags (np_umodes np) UMODE_ALL (cargv ! 1) umodeflags False False)) UMODE_OPER \<longrightarrow>
              length cargv > 2))"

lemma mode_handled:
  assumes inv: "nick_inv H st" and s: "numeric_str source" and a: "mode_args_ok source cargv st"
  shows "handled H st (handleusermodemsg source cargv st)"
proof (cases "length cargv < 2 \<or> deref (cargv ! 0) = CHR ''#''")
  case False
  obtain y where y: "getnickbynumericstr source st = Some y"
    "\<And>r. y = Some r \<Longrightarrow> \<exists>np. n_recs st r = Some np \<and> numerictolong source 5 = Some (int (np_numeric np))"
    using getnickbynumericstr_ok [OF nick_invD(2) [OF inv] s] by metis
  show ?thesis
  proof (cases y)
    case (Some r)
    then obtain np where r: "n_recs st r = Some np" "numerictolong source 5 = Some (int (np_numeric np))" using y(2) by blast
    show ?thesis
    proof (cases "ircd_strcmp (cargv ! 0) (np_nick np) = 0")
      case True
      let ?np1 = "np\<lparr>np_umodes := snd (setflags (np_umodes np) UMODE_ALL (cargv ! 1) umodeflags False False)\<rparr>"
      let ?st1 = "trigger [NickMode r (np_umodes np)] st"
      have f1: "flagged ?np1"
        using nick_invD(5) [OF inv r(1)] account_flag_kept [of "cargv ! 1" "np_umodes np" UMODE_ALL] a
        by (simp add: flagged_def has_umode_def mode_args_ok_def)
      let ?like = "\<lambda>np'. same_keys np' np \<and> np_auth np' = np_auth np \<and> np_nick np' = np_nick np \<and> flagged np'"
      have like1: "?like ?np1" using f1 by (simp add: same_keys_def)
      obtain np2 es where np2: "(if CHR ''o'' \<in> set (cargv ! 1)
          then do {
            opernames \<leftarrow> hub_opernames ?st1;
            np' \<leftarrow> mode_oper cargv opernames ?np1;
            Some (np', if (np_umodes np' XOR np_umodes np) AND UMODE_OPER \<noteq> 0 then trigger [NickOper r] ?st1 else ?st1)
          }
          else Some (?np1, ?st1)) = Some (np2, trigger es ?st1)" "?like np2"
      proof (cases "CHR ''o'' \<in> set (cargv ! 1)")
        case o: True
        then have "0 \<le> myhub (n_serv st)" and len: "has_umode ?np1 UMODE_OPER \<longrightarrow> length cargv > 2"
          using a r by (auto simp: mode_args_ok_def has_umode_def)
        then obtain b where b: "hub_opernames ?st1 = Some b" by (simp add: hub_opernames_def)
        obtain np' where np': "mode_oper cargv b ?np1 = Some np'" "?like np'"
        proof -
          have "\<exists>v. mode_oper cargv b ?np1 = Some (?np1\<lparr>np_opername := v\<rparr>)"
          proof (cases "\<not> b")
            case True
            then show ?thesis by (intro exI [of _ "np_opername ?np1"]) (simp add: mode_oper_def)
          next
            case False
            then show ?thesis using len by (auto simp: mode_oper_def)
          qed
          moreover have "?like (?np1\<lparr>np_opername := v\<rparr>)" for v
            using like1 by (simp add: same_keys_def flagged_def has_umode_def)
          ultimately show thesis using that by blast
        qed
        have "trigger [] ?st1 = ?st1" by (simp add: trigger_def)
        then show thesis
          using that [of np' "if (np_umodes np' XOR np_umodes np) AND UMODE_OPER \<noteq> 0 then [NickOper r] else []"] o b np'
          by (cases "(np_umodes np' XOR np_umodes np) AND UMODE_OPER \<noteq> 0") simp_all
      next
        case False
        have "trigger [] ?st1 = ?st1" by (simp add: trigger_def)
        then show thesis using that [of ?np1 "[]"] False like1 by simp
      qed
      have like3: "?like (mode_host cargv np2)"
        using np2(2) by (simp add: mode_host_def set_host_def Let_def same_keys_def flagged_def has_umode_def)
      have st2: "nick_inv H (trigger es ?st1)" "n_recs (trigger es ?st1) r = Some np"
        using nick_inv_trigger inv r(1) by simp_all
      have "nick_inv H (put_rec r np' (trigger es ?st1)) \<and> n_serv (put_rec r np' (trigger es ?st1)) = n_serv st"
        if "?like np'" for np'
        using put_handled [OF st2, of np'] that by simp
      then have "handled H st (Some (if CHR ''h'' \<in> set (cargv ! 1)
          then trigger [NickSetHost r] (put_rec r (mode_host cargv np2) (trigger es ?st1))
          else put_rec r np2 (trigger es ?st1)))"
        using np2(2) like3 nick_inv_trigger by (simp add: handled_def)
      moreover have "handleusermodemsg source cargv st = Some (if CHR ''h'' \<in> set (cargv ! 1)
          then trigger [NickSetHost r] (put_rec r (mode_host cargv np2) (trigger es ?st1))
          else put_rec r np2 (trigger es ?st1))"
        using False True y(1) Some r(1) np2(1) by (simp add: handleusermodemsg_def Let_def cong: if_cong)
      ultimately show ?thesis by (simp only:)
    qed (use False y(1) Some r(1) inv in \<open>simp add: handleusermodemsg_def\<close>)
  qed (use False y(1) inv in \<open>simp add: handleusermodemsg_def\<close>)
qed (use inv in \<open>auto simp: handleusermodemsg_def\<close>)

lemma user_links_login:
  assumes u: "user_links H st U" and r: "U r = Some np" and k: "same_keys np' np" "np_auth np' = Some a"
    and au: "account_users auths ((\<lambda>q. Option.bind (U q) np_auth)(r \<mapsto> a))"
  shows "user_links H (st\<lparr>n_auths := auths\<rparr>) (U(r \<mapsto> np'))"
proof -
  have "(\<lambda>q. map_option np_host ((U(r \<mapsto> np')) q)) = (\<lambda>q. map_option np_host (U q))"
    "(\<lambda>q. map_option np_realname ((U(r \<mapsto> np')) q)) = (\<lambda>q. map_option np_realname (U q))"
    "(\<lambda>q. Option.bind ((U(r \<mapsto> np')) q) np_auth) = (\<lambda>q. Option.bind (U q) np_auth)(r \<mapsto> a)"
    "(\<lambda>q. map_option node_key ((U(r \<mapsto> np')) q)) = (\<lambda>q. map_option node_key (U q))"
    using r k by (auto simp: same_keys_def node_key_def fun_eq_iff)
  then show ?thesis using u au by (simp add: user_links_def)
qed

text \<open>A user that is not logged in has no account record.\<close>

lemma login_inv:
  assumes inv: "nick_inv H st" and r: "n_recs st r = Some np" "\<not> has_umode np UMODE_ACCOUNT"
    and id: "userid \<noteq> 0" "cstring name"
  obtains a nm auths where "login r userid name flags (n_auths st) = Some (a, nm, auths)"
    "\<And>np'. same_keys np' np \<Longrightarrow> np_auth np' = Some a \<Longrightarrow> np_nick np' = np_nick np \<Longrightarrow> has_umode np' UMODE_ACCOUNT
      \<Longrightarrow> nick_inv H (put_rec r np' (st\<lparr>n_auths := auths\<rparr>))"
proof -
  have none: "np_auth np = None" using nick_invD(5) [OF inv r(1)] r(2) by (simp add: flagged_def)
  let ?K = "\<lambda>q. Option.bind (n_recs st q) np_auth"
  have K: "account_users (n_auths st) ?K" "?K r = None"
    using nick_invD(4) [OF inv] r(1) none by (simp_all add: user_links_def)
  obtain a nm auths where l: "login r userid name flags (n_auths st) = Some (a, nm, auths)"
      "account_users auths (?K(r \<mapsto> a))"
    by (rule login_ok [OF K id])
  have "nick_inv H (put_rec r np' (st\<lparr>n_auths := auths\<rparr>))"
    if k: "same_keys np' np" "np_auth np' = Some a" "np_nick np' = np_nick np" "has_umode np' UMODE_ACCOUNT" for np'
  proof -
    let ?st = "st\<lparr>n_auths := auths\<rparr>"
    have "table_users ?st" by (rule table_users_same [OF nick_invD(1) [OF inv]]) simp_all
    then have "table_users (put_rec r np' ?st)"
      by (rule table_users_put) (use r(1) k(3) table_usersD(3) [OF nick_invD(1) [OF inv] r(1)] in simp_all)
    moreover have "slot_users ?st" by (rule slot_users_same [OF nick_invD(2) [OF inv]]) simp_all
    then have "slot_users (put_rec r np' ?st)" by (rule slot_users_put) (use r(1) k(1) in \<open>simp_all add: same_keys_def\<close>)
    moreover have "cloaks_ok (n_recs (put_rec r np' ?st))"
      using cloaks_put [OF nick_invD(3) [OF inv] r(1)] k(1) by (simp add: put_rec_def same_keys_def)
    moreover have "user_links H (put_rec r np' ?st) (n_recs (put_rec r np' ?st))"
      using user_links_login [OF nick_invD(4) [OF inv] r(1) k(1,2) l(2)] user_links_tables [of "put_rec r np' ?st" ?st]
      by (simp add: put_rec_def)
    moreover have "\<forall>q nq. n_recs (put_rec r np' ?st) q = Some nq \<longrightarrow> flagged nq"
      using nick_invD(5) [OF inv] k(4) by (simp add: put_rec_def flagged_def)
    ultimately show ?thesis by (simp add: nick_inv_def)
  qed
  then show thesis using that l(1) by blast
qed

lemma auth_flags_inv:
  assumes inv: "nick_inv H st" and a: "au_recs (n_auths st) a = Some ar"
  shows "nick_inv H (st\<lparr>n_auths := (n_auths st)\<lparr>au_recs := (au_recs (n_auths st))(a \<mapsto> ar\<lparr>an_flags := f\<rparr>)\<rparr>\<rparr>)"
proof -
  let ?auths = "(n_auths st)\<lparr>au_recs := (au_recs (n_auths st))(a \<mapsto> ar\<lparr>an_flags := f\<rparr>)\<rparr>"
  have K: "account_users (n_auths st) (\<lambda>q. Option.bind (n_recs st q) np_auth)"
    using nick_invD(4) [OF inv] by (simp add: user_links_def)
  have "auth_wf (ar\<lparr>an_flags := f\<rparr>)" using auth_parts(4) [OF account_usersD(1) [OF K] a] by (simp add: auth_wf_def)
  then have "account_users ?auths (\<lambda>q. Option.bind (n_recs st q) np_auth)" by (intro account_update [OF K a]) simp_all
  then have "user_links H (st\<lparr>n_auths := ?auths\<rparr>) (n_recs st)" using nick_invD(4) [OF inv] by (simp add: user_links_def)
  moreover have "table_users (st\<lparr>n_auths := ?auths\<rparr>)" by (rule table_users_same [OF nick_invD(1) [OF inv]]) simp_all
  moreover have "slot_users (st\<lparr>n_auths := ?auths\<rparr>)" by (rule slot_users_same [OF nick_invD(2) [OF inv]]) simp_all
  ultimately show ?thesis using inv by (simp add: nick_inv_def)
qed

lemma account_live:
  assumes inv: "nick_inv H st" and r: "n_recs st r = Some np" "np_auth np = Some a"
  shows "\<exists>ar. au_recs (n_auths st) a = Some ar \<and> r \<in> set (an_nicks ar)"
proof -
  have K: "account_users (n_auths st) (\<lambda>q. Option.bind (n_recs st q) np_auth)"
    using nick_invD(4) [OF inv] by (simp add: user_links_def)
  have "r \<in> set (account_chain (n_auths st) a)" using chains_in [OF account_usersD(2) [OF K]] r by simp
  then show ?thesis by (cases "au_recs (n_auths st) a") (auto simp: account_chain_def)
qed

lemma account_handled:
  assumes inv: "nick_inv H st" and s: "length cargv < 4 \<or> numeric_str (cargv ! 0) \<and> cstring (cargv ! 1)"
  shows "handled H st (handleaccountmsg cargv st)"
proof (cases "length cargv < 4")
  case False
  obtain y where y: "getnickbynumericstr (cargv ! 0) st = Some y" "\<And>r. y = Some r \<Longrightarrow> \<exists>np. n_recs st r = Some np"
    using getnickbynumericstr_ok [OF nick_invD(2) [OF inv], of "cargv ! 0"] s False by metis
  show ?thesis
  proof (cases y)
    case (Some r)
    then obtain np where r: "n_recs st r = Some np" using y(2) by blast
    let ?ts = "c_long (int (fst (strtoul10 (cargv ! 2))))" and ?id = "fst (strtoul10 (cargv ! 3))"
    let ?flags = "if length cargv \<ge> 5 then Some (of_nat (fst (strtoul10 (cargv ! 4))) :: 64 word) else None"
    show ?thesis
    proof (cases "has_umode np UMODE_ACCOUNT")
      case acc: True
      show ?thesis
      proof (cases "np_auth np")
        case None
        then show ?thesis using False y(1) Some r acc inv by (simp add: handleaccountmsg_def)
      next
        case (Some a)
        obtain ar where ar: "au_recs (n_auths st) a = Some ar" using account_live [OF inv r Some] by blast
        show ?thesis
        proof (cases "an_name ar \<noteq> cargv ! 1 \<or> an_userid ar \<noteq> ?id \<or> np_accountts np \<noteq> ?ts")
          case True
          then have "handleaccountmsg cargv st = Some st"
            using False y(1) \<open>y = Some r\<close> r acc Some ar by (simp add: handleaccountmsg_def Let_def)
          then show ?thesis using inv by simp
        next
          case same: False
          define st1 where "st1 = (case ?flags of None \<Rightarrow> st
            | Some f \<Rightarrow> st\<lparr>n_auths := (n_auths st)\<lparr>au_recs := (au_recs (n_auths st))(a \<mapsto> ar\<lparr>an_flags := f\<rparr>)\<rparr>\<rparr>)"
          have "nick_inv H st1 \<and> n_serv st1 = n_serv st"
            using auth_flags_inv [OF inv ar] inv by (simp add: st1_def)
          moreover have "handleaccountmsg cargv st = Some (trigger [AuthFlagsUpdated a (an_flags ar)] st1)"
            using False y(1) \<open>y = Some r\<close> r acc Some ar same by (simp add: handleaccountmsg_def Let_def st1_def)
          ultimately show ?thesis using nick_inv_trigger by (simp add: handled_def)
        qed
      qed
    next
      case acc: False
      let ?np = "np\<lparr>np_umodes := np_umodes np OR UMODE_ACCOUNT, np_accountts := ?ts\<rparr>"
      have has: "has_umode ?np UMODE_ACCOUNT"
        by (simp add: has_umode_def has_flag_def bit.conj_disj_distrib2 UMODE_ACCOUNT_def word_ao_dist)
      show ?thesis
      proof (cases "?id = 0")
        case True
        let ?np2 = "?np\<lparr>np_auth := None, np_authname := cargv ! 1\<rparr>"
        have "np_auth np = None" using nick_invD(5) [OF inv r] acc by (simp add: flagged_def)
        then have "nick_inv H (put_rec r ?np2 st)" "n_serv (put_rec r ?np2 st) = n_serv st"
          by (intro put_handled [OF inv r]; simp add: same_keys_def flagged_def)+
        moreover have "handleaccountmsg cargv st = Some (trigger [NickAccount r] (put_rec r ?np2 st))"
          using False y(1) Some r acc True by (simp add: handleaccountmsg_def Let_def)
        ultimately show ?thesis using nick_inv_trigger by (simp add: handled_def)
      next
        case id: False
        obtain a nm auths where l: "login r ?id (cargv ! 1) ?flags (n_auths st) = Some (a, nm, auths)"
          "\<And>np'. same_keys np' np \<Longrightarrow> np_auth np' = Some a \<Longrightarrow> np_nick np' = np_nick np \<Longrightarrow> has_umode np' UMODE_ACCOUNT
            \<Longrightarrow> nick_inv H (put_rec r np' (st\<lparr>n_auths := auths\<rparr>))"
          using login_inv [OF inv r acc id, of "cargv ! 1" ?flags] s False by metis
        let ?np2 = "?np\<lparr>np_auth := Some a, np_authname := nm\<rparr>"
        have "nick_inv H (put_rec r ?np2 (st\<lparr>n_auths := auths\<rparr>))"
          by (rule l(2)) (use has in \<open>simp_all add: same_keys_def has_umode_def\<close>)
        moreover have "n_serv (put_rec r ?np2 (st\<lparr>n_auths := auths\<rparr>)) = n_serv st" by (simp add: put_rec_def)
        moreover have "handleaccountmsg cargv st = Some (trigger [NickAccount r] (put_rec r ?np2 (st\<lparr>n_auths := auths\<rparr>)))"
          using False y(1) Some r acc id l(1) by (simp add: handleaccountmsg_def Let_def)
        ultimately show ?thesis using nick_inv_trigger by (simp add: handled_def)
      qed
    qed
  qed (use False y(1) inv in \<open>simp add: handleaccountmsg_def\<close>)
qed (use inv in \<open>simp add: handleaccountmsg_def\<close>)

section \<open>Renames\<close>

definition name_free :: "nickst \<Rightarrow> nat \<Rightarrow> string \<Rightarrow> bool" where
  "name_free st r name \<longleftrightarrow> (\<forall>q nq. n_recs st q = Some nq \<longrightarrow> q \<noteq> r \<longrightarrow> lower (np_nick nq) \<noteq> lower name)"

lemma take_all: "length name \<le> NICKLEN \<Longrightarrow> take NICKLEN name = name"
  by simp

lemma change_nick_ok:
  assumes inv: "nick_inv H st" and r: "n_recs st r = Some np"
    and name: "cstring name" "length name \<le> NICKLEN" "name_free st r name"
  obtains st' where "change_nick r name ts st = Some st'" "nick_inv H st'" "n_serv st' = n_serv st"
    "n_recs st' = (n_recs st)(r \<mapsto> np\<lparr>np_timestamp := ts, np_nick := name\<rparr>)"
    "n_servernicks st' = n_servernicks st"
proof -
  let ?np = "np\<lparr>np_timestamp := ts, np_nick := name\<rparr>"
  let ?h1 = "nickhash (np_nick np)" and ?h2 = "nickhash name"
  let ?t1 = "(n_nicktable st)(?h1 := remove1 r (n_nicktable st ?h1))"
  let ?st' = "st\<lparr>n_recs := (n_recs st)(r \<mapsto> ?np), n_nicktable := ?t1(?h2 := r # ?t1 ?h2)\<rparr>"
  have e: "change_nick r name ts st = Some ?st'"
    using r name(2) by (simp add: change_nick_def removenickfromhash_def addnicktohash_def put_rec_def Let_def)
  note t = nick_invD(1) [OF inv]
  let ?B = "\<lambda>q. map_option (nickhash \<circ> np_nick) (n_recs st q)"
  have "chains ?t1 (?B(r := None))" by (rule chains_remove [OF table_usersD(1) [OF t]]) (use r in simp)
  then have "chains (?t1(?h2 := r # ?t1 ?h2)) (?B(r := None, r \<mapsto> ?h2))" by (rule chains_insert) simp
  then have "chains (n_nicktable ?st') (\<lambda>q. map_option (nickhash \<circ> np_nick) (n_recs ?st' q))"
    by (auto elim!: chains_same)
  moreover have "q < n_next ?st' \<and> cstring (np_nick nq)" if "n_recs ?st' q = Some nq" for q nq
    using that table_usersD(2,3) [OF t, of q] table_usersD(2) [OF t r] name(1) by (auto split: if_splits)
  moreover have "p = q" if "n_recs ?st' p = Some n1" "n_recs ?st' q = Some n2" "lower (np_nick n1) = lower (np_nick n2)" for p q n1 n2
  proof -
    have nf: "lower (np_nick m) \<noteq> lower name" if "n_recs st k = Some m" "k \<noteq> r" for k m
      using that name(3) unfolding name_free_def by blast
    have own: "np_nick m = name" if "n_recs ?st' r = Some m" for m using that by auto
    have old: "n_recs st k = Some m" if "n_recs ?st' k = Some m" "k \<noteq> r" for k m using that by simp
    consider "p = r" "q = r" | "p = r" "q \<noteq> r" | "p \<noteq> r" "q = r" | "p \<noteq> r" "q \<noteq> r" by blast
    then show ?thesis
    proof cases
      case 1 then show ?thesis by simp
    next
      case 2 then show ?thesis using own [of n1] nf [OF old [OF that(2)]] that by simp
    next
      case 3 then show ?thesis using own [of n2] nf [OF old [OF that(1)]] that by simp
    next
      case 4 then show ?thesis using table_usersD(4) [OF t old [OF that(1)] old [OF that(2)] that(3)] by simp
    qed
  qed
  ultimately have "table_users ?st'" unfolding table_users_def by blast
  moreover have "slot_users (put_rec r ?np st)" by (rule slot_users_put [OF nick_invD(2) [OF inv] r]) simp
  then have "slot_users ?st'" by (rule slot_users_same) (simp_all add: put_rec_def)
  moreover have "cloaks_ok (n_recs ?st')" using cloaks_put [OF nick_invD(3) [OF inv] r, of ?np] by simp
  moreover have "user_links H ?st' (n_recs ?st')"
    using user_links_put [OF nick_invD(4) [OF inv] r, of ?np] user_links_tables [of ?st' st] by (simp add: same_keys_def)
  moreover have "\<forall>q nq. n_recs ?st' q = Some nq \<longrightarrow> flagged nq"
    using nick_invD(5) [OF inv] nick_invD(5) [OF inv r] by (simp add: flagged_def has_umode_def)
  ultimately have "nick_inv H ?st'" by (simp add: nick_inv_def)
  then show thesis by (rule that [OF e]) simp_all
qed

text \<open>
  Who loses a collision of nicks: of two different \<open>user@host\<close> the newer one, of two equal ones
  the older one.
\<close>

definition loses :: "bool \<Rightarrow> int \<Rightarrow> int \<Rightarrow> bool" where
  "loses same_userhost own_ts other_ts \<longleftrightarrow> (if same_userhost then own_ts \<le> other_ts else own_ts > other_ts)"

definition same_userhost :: "nickrec \<Rightarrow> nickrec \<Rightarrow> bool" where
  "same_userhost np np2 \<longleftrightarrow> ircd_strcmp (np_ident np) (np_ident np2) = 0 \<and> np_host np = np_host np2"

lemma rename_collision_ok:
  assumes inv: "nick_inv H st" and r: "n_recs st r = Some np" "n_recs st r2 = Some np2"
  obtains st' where "rename_collision r r2 ts st = Some (\<not> loses (same_userhost np np2) ts (np_timestamp np2), st')"
    "deletenick (if loses (same_userhost np np2) ts (np_timestamp np2) then r else r2) st = Some st'"
proof -
  let ?v = "if loses (same_userhost np np2) ts (np_timestamp np2) then r else r2"
  obtain nv where "n_recs st ?v = Some nv"
    using r by (cases "loses (same_userhost np np2) ts (np_timestamp np2)") simp_all
  then obtain st' where st': "deletenick ?v st = Some st'" by (rule delete_inv [OF inv])
  have "rename_collision r r2 ts st = Some (\<not> loses (same_userhost np np2) ts (np_timestamp np2), st')"
    using st' r by (auto simp: rename_collision_def loses_def same_userhost_def split: if_splits)
  then show thesis using that st' by blast
qed

text \<open>The user \<open>r\<close> asks for a nick; who is gone afterwards, and what \<open>r\<close> is called.\<close>

lemma rename_ok:
  assumes inv: "nick_inv H st" and x: "numeric_str sender" and name: "cstring name" "length name \<le> NICKLEN"
    and r: "n_recs st r = Some np" "numerictolong sender 5 = Some (int (np_numeric np))"
  obtains st' where "handle_rename sender [name, t] st = Some st'" "nick_inv H st'" "n_serv st' = n_serv st"
    "\<And>q nq. n_recs st q = Some nq \<Longrightarrow> lower (np_nick nq) = lower name \<Longrightarrow> q \<noteq> r \<Longrightarrow>
       dom (n_recs st') = dom (n_recs st) -
         {if loses (same_userhost np nq) (fst (strtol10 t)) (np_timestamp nq) then r else q}"
    "name_free st r name \<Longrightarrow> dom (n_recs st') = dom (n_recs st)"
    "\<And>np'. n_recs st' r = Some np' \<Longrightarrow> np_nick np' = name \<and> np_timestamp np' = fst (strtol10 t)"
proof -
  let ?ts = "fst (strtol10 t)"
  note tb = nick_invD(1) [OF inv]
  obtain y where y: "getnickbynumericstr sender st = Some y"
    "\<And>q. y = Some q \<Longrightarrow> \<exists>np. n_recs st q = Some np \<and> numerictolong sender 5 = Some (int (np_numeric np))"
    "y = None \<Longrightarrow> \<forall>r np. n_recs st r = Some np \<longrightarrow> numerictolong sender 5 \<noteq> Some (int (np_numeric np))"
    using getnickbynumericstr_ok [OF nick_invD(2) [OF inv] x] by metis
  have y: "getnickbynumericstr sender st = Some (Some r)"
  proof (cases y)
    case (Some q)
    then obtain nq where "n_recs st q = Some nq" "np_numeric nq = np_numeric np" using y(2) r(2) by fastforce
    then have "q = r" using numeric_unique [OF nick_invD(2) [OF inv] _ r(1)] by blast
    then show ?thesis using y(1) Some by simp
  qed (use y(3) r in blast)
  obtain z where z: "getnickbynick name st = Some z"
    "\<And>q. z = Some q \<longleftrightarrow> (\<exists>nq. n_recs st q = Some nq \<and> lower (np_nick nq) = lower name)"
    by (rule getnickbynick_ok [OF tb name(1)]) (rule that)
  show thesis
  proof (cases "z = Some r")
    case True
    then have l: "lower (np_nick np) = lower name" using z(2) [of r] r(1) by auto
    let ?np = "np\<lparr>np_timestamp := ?ts, np_nick := name\<rparr>"
    have e: "handle_rename sender [name, t] st = Some (trigger [NickRename r (np_nick np)] (put_rec r ?np st))"
      using y z(1) True r(1) name(2) by (simp add: handle_rename_def Let_def)
    have "nick_inv H (put_rec r ?np st)"
      by (rule put_inv [OF inv r(1)]) (use l name(1) nick_invD(5) [OF inv r(1)] in
        \<open>simp_all add: same_keys_def flagged_def has_umode_def\<close>)
    from nick_inv_trigger [OF this] show thesis
    proof (rule that [OF e])
      fix q nq assume "n_recs st q = Some nq" "lower (np_nick nq) = lower name" "q \<noteq> r"
      then have "q = r" using table_usersD(4) [OF tb _ r(1)] l by simp
      then show "dom (n_recs (trigger [NickRename r (np_nick np)] (put_rec r ?np st))) = dom (n_recs st) -
         {if loses (same_userhost np nq) ?ts (np_timestamp nq) then r else q}" using \<open>q \<noteq> r\<close> by simp
    qed (use r(1) in \<open>auto simp: put_rec_def\<close>)
  next
    case other: False
    have free_iff: "name_free st r name \<longleftrightarrow> z = None"
    proof (cases z)
      case (Some a)
      then show ?thesis using z(2) [of a] other by (auto simp: name_free_def)
    qed (use z(2) in \<open>auto simp: name_free_def\<close>)
    show thesis
    proof (cases z)
      case None
      then have "name_free st r name" using free_iff by simp
      then obtain st' where st': "change_nick r name ?ts st = Some st'" "nick_inv H st'" "n_serv st' = n_serv st"
        "n_recs st' = (n_recs st)(r \<mapsto> np\<lparr>np_timestamp := ?ts, np_nick := name\<rparr>)"
        by (rule change_nick_ok [OF inv r(1) name])
      have e: "handle_rename sender [name, t] st = Some (trigger [NickRename r (np_nick np)] st')"
        using y z(1) None r(1) st'(1) by (simp add: handle_rename_def Let_def)
      from nick_inv_trigger [OF st'(2)] show thesis
      proof (rule that [OF e])
        fix q nq assume "n_recs st q = Some nq" "lower (np_nick nq) = lower name" "q \<noteq> r"
        then show "dom (n_recs (trigger [NickRename r (np_nick np)] st')) = dom (n_recs st) -
         {if loses (same_userhost np nq) ?ts (np_timestamp nq) then r else q}"
          using \<open>name_free st r name\<close> by (auto simp: name_free_def)
      qed (use st' r(1) in auto)
    next
      case (Some q)
      then obtain nq where q: "n_recs st q = Some nq" "lower (np_nick nq) = lower name" using z(2) by blast
      have "q \<noteq> r" using other Some by simp
      let ?l = "loses (same_userhost np nq) ?ts (np_timestamp nq)" and ?v = "if loses (same_userhost np nq) ?ts (np_timestamp nq) then r else q"
      obtain st1 where st1: "rename_collision r q ?ts st = Some (\<not> ?l, st1)" "deletenick ?v st = Some st1"
        by (rule rename_collision_ok [OF inv r(1) q(1)])
      obtain nv where nv: "n_recs st ?v = Some nv" using r(1) q(1) by (cases ?l) simp_all
      have d: "nick_inv H st1" "same_nicks ((n_recs st)(?v := None)) (n_recs st1)" "n_serv st1 = n_serv st"
        using delete_inv [OF inv nv] st1(2) by (metis option.inject)+
      have dom1: "dom (n_recs st1) = dom (n_recs st) - {?v}" using same_nicks_dom [OF d(2)] by simp
      have only: "p = q" if "n_recs st p = Some n" "lower (np_nick n) = lower name" for p n
        using table_usersD(4) [OF tb that(1) q(1)] that(2) q(2) by simp
      have nf: "\<not> name_free st r name" using free_iff Some by simp
      show thesis
      proof (cases ?l)
        case True
        then have e: "handle_rename sender [name, t] st = Some st1"
          using y z(1) Some other r(1) st1(1) by (simp add: handle_rename_def Let_def)
        show thesis
        proof (rule that [OF e d(1,3)])
          show "n_recs st1 r = Some np' \<Longrightarrow> np_nick np' = name \<and> np_timestamp np' = ?ts" for np'
            using dom1 True by auto
        qed (use dom1 only q(1) nf in force)+
      next
        case False
        obtain np1 where np1: "n_recs st1 r = Some np1"
          using same_nicks_live [OF d(2), of r np] r(1) False \<open>q \<noteq> r\<close> by auto
        have "name_free st1 r name"
          unfolding name_free_def
        proof (intro allI impI)
          fix p n assume p: "n_recs st1 p = Some n" "p \<noteq> r"
          obtain n0 where n0: "((n_recs st)(?v := None)) p = Some n0" "uncloaked n0 = uncloaked n"
            by (rule same_nicks_live [OF same_nicks_sym [OF d(2)] p(1)])
          then have "p \<noteq> q" "n_recs st p = Some n0" using False by (auto split: if_splits)
          then have "lower (np_nick n0) \<noteq> lower name" using only by blast
          then show "lower (np_nick n) \<noteq> lower name" using uncloaked_fields(1) [OF n0(2)] by simp
        qed
        then obtain st' where st': "change_nick r name ?ts st1 = Some st'" "nick_inv H st'" "n_serv st' = n_serv st1"
          "n_recs st' = (n_recs st1)(r \<mapsto> np1\<lparr>np_timestamp := ?ts, np_nick := name\<rparr>)"
          by (rule change_nick_ok [OF d(1) np1 name])
        have e: "handle_rename sender [name, t] st = Some (trigger [NickRename r (np_nick np)] st')"
          using y z(1) Some other r(1) st1(1) False st'(1) by (simp add: handle_rename_def Let_def)
        have dom': "dom (n_recs st') = dom (n_recs st) - {?v}" using st'(4) dom1 np1 by auto
        from nick_inv_trigger [OF st'(2)] show thesis
        proof (rule that [OF e])
          show "n_serv (trigger [NickRename r (np_nick np)] st') = n_serv st" using st'(3) d(3) by simp
          show "n_recs (trigger [NickRename r (np_nick np)] st') r = Some np' \<Longrightarrow> np_nick np' = name \<and> np_timestamp np' = ?ts" for np'
            using st'(4) by auto
        qed (use dom' only q(1) nf in force)+
      qed
    qed
  qed
qed


section \<open>Extensions and markers\<close>

lemma nick_walk:
  assumes "table_users st"
  shows "(\<lambda>r. if \<exists>i < NICKHASHSIZE. r \<in> set (n_nicktable st i) then map_option f (n_recs st r) else n_recs st r)
    = (\<lambda>r. map_option f (n_recs st r))"
proof
  fix r
  have "r \<in> set (n_nicktable st (nickhash (np_nick np))) \<and> nickhash (np_nick np) < NICKHASHSIZE" if "n_recs st r = Some np" for np
    using chains_in [OF table_usersD(1) [OF assms]] that by (simp add: nickhash_def)
  then show "(if \<exists>i < NICKHASHSIZE. r \<in> set (n_nicktable st i) then map_option f (n_recs st r) else n_recs st r)
      = map_option f (n_recs st r)"
    by (cases "n_recs st r") auto
qed

text \<open>A change of all records that keeps what the tables are keyed by.\<close>

lemma map_inv:
  assumes inv: "nick_inv H st"
    and f: "\<And>np. same_keys (f np) np" "\<And>np. np_nick (f np) = np_nick np" "\<And>np. np_auth (f np) = np_auth np"
      "\<And>np. np_umodes (f np) = np_umodes np"
  shows "nick_inv H (st\<lparr>n_recs := (\<lambda>r. map_option f (n_recs st r))\<rparr>)" (is "nick_inv H ?st")
proof -
  have k: "np_numeric (f np) = np_numeric np" "np_host (f np) = np_host np" "np_realname (f np) = np_realname np"
    "node_key (f np) = node_key np" "np_cloak_count (f np) = np_cloak_count np" "np_cloak_extra (f np) = np_cloak_extra np" for np
    using f(1) [of np] by (simp_all add: same_keys_def node_key_def)
  have m: "map_option g (map_option f x) = map_option g x" if "\<And>np. g (f np) = g np" for g :: "nickrec \<Rightarrow> 'b" and x
    using that by (cases x) simp_all
  have b: "Option.bind (map_option f x) g = Option.bind x g" if "\<And>np. g (f np) = g np" for g :: "nickrec \<Rightarrow> nat option" and x
    using that by (cases x) simp_all
  have e: "(\<exists>np. map_option f x = Some np \<and> homeserver (np_numeric np) = n \<and> handle_slot st (np_numeric np) = i)
      \<longleftrightarrow> (\<exists>np. x = Some np \<and> homeserver (np_numeric np) = n \<and> handle_slot st (np_numeric np) = i)" for x n i
    using k(1) by (cases x) simp_all
  have "table_users ?st"
    using table_usersD [OF nick_invD(1) [OF inv]] unfolding table_users_def by (auto simp: f(2) option.map_comp comp_def)
  moreover have h: "handle_slot ?st = handle_slot st" "slot_user ?st = slot_user st"
    by (simp_all add: handle_slot_def slot_user_def fun_eq_iff)
  have "np_numeric np < 2 ^ 30" if "map_option f (n_recs st r) = Some np" for r np
    using slot_usersD(3) [OF nick_invD(2) [OF inv], of r] that k(1) by (cases "n_recs st r") auto
  then have "slot_users ?st" using nick_invD(2) [OF inv] unfolding slot_users_def h by (simp add: e del: map_option_eq_Some)
  moreover have "cloak_of (n_recs ?st) = cloak_of (n_recs st)" "cloak_count (n_recs ?st) = cloak_count (n_recs st)"
    by (simp_all add: cloak_of_def cloak_count_def fun_eq_iff m b k)
  then have "cloaks_ok (n_recs ?st)" using nick_invD(3) [OF inv] by (auto simp: cloaks_ok_def)
  moreover have "user_links H ?st (n_recs ?st)"
    using nick_invD(4) [OF inv] by (simp add: user_links_def m k b f(3))
  moreover have "\<forall>r np. n_recs ?st r = Some np \<longrightarrow> flagged np"
    using nick_invD(5) [OF inv] f(3,4) by (auto simp: flagged_def has_umode_def)
  ultimately show ?thesis by (simp add: nick_inv_def)
qed

lemma registernickext_inv:
  assumes "nick_inv H st" "registernickext name st = (i, st')"
  shows "nick_inv H st' \<and> n_serv st' = n_serv st"
proof -
  obtain names where st': "st' = st\<lparr>n_extnames := names\<rparr> \<or> st' = st"
    using assms(2) by (auto simp: registernickext_def split: if_splits option.splits)
  have "nick_inv H (st\<lparr>n_extnames := names\<rparr>)" by (rule nick_inv_tables [OF assms(1)]) simp_all
  then show ?thesis using st' assms(1) by auto
qed

lemma releasenickext_inv:
  assumes "nick_inv H st" "releasenickext i st = Some st'"
  shows "nick_inv H st' \<and> n_serv st' = n_serv st \<and> (\<forall>r np. n_recs st' r = Some np \<longrightarrow> i < length (np_exts np) \<longrightarrow> np_exts np ! i = None)"
proof -
  let ?f = "\<lambda>np. np\<lparr>np_exts := (np_exts np)[i := None]\<rparr>"
  let ?st = "st\<lparr>n_extnames := (n_extnames st)[i := None]\<rparr>"
  have st': "st' = ?st\<lparr>n_recs := (\<lambda>r. map_option ?f (n_recs ?st r))\<rparr>"
    using assms(2) unfolding releasenickext_def nick_walk [OF nick_invD(1) [OF assms(1)]] by (simp split: if_splits)
  have "nick_inv H ?st" by (rule nick_inv_tables [OF assms(1)]) simp_all
  then have "nick_inv H st'" unfolding st' by (rule map_inv) (simp_all add: same_keys_def)
  then show ?thesis by (auto simp: st')
qed

text \<open>A new marker is on no user, also when the counter wraps.\<close>

definition nick_marks_ok :: "nickst \<Rightarrow> bool" where
  "nick_marks_ok st \<longleftrightarrow> (\<forall>r np. n_recs st r = Some np \<longrightarrow> np_marker np \<le> n_marker st)"

lemma nextnickmarker_inv:
  assumes inv: "nick_inv H st" and m: "nextnickmarker st = (m, st')"
  shows "nick_inv H st' \<and> n_serv st' = n_serv st
    \<and> (nick_marks_ok st \<longrightarrow> nick_marks_ok st' \<and> (\<forall>r np. n_recs st' r = Some np \<longrightarrow> np_marker np \<noteq> m))"
proof (cases "n_marker st + 1 = 0")
  case True
  let ?f = "\<lambda>np. np\<lparr>np_marker := 0\<rparr>" and ?st = "st\<lparr>n_marker := 1\<rparr>"
  have st': "m = 1" "st' = ?st\<lparr>n_recs := (\<lambda>r. map_option ?f (n_recs ?st r))\<rparr>"
    using m True unfolding nextnickmarker_def nick_walk [OF nick_invD(1) [OF inv]] by simp_all
  have "nick_inv H ?st" by (rule nick_inv_tables [OF inv]) simp_all
  then have "nick_inv H st'" unfolding st' by (rule map_inv) (simp_all add: same_keys_def)
  then show ?thesis by (auto simp: st' nick_marks_ok_def)
next
  case False
  then have st': "m = n_marker st + 1" "st' = st\<lparr>n_marker := m\<rparr>" using m by (auto simp: nextnickmarker_def Let_def)
  have "nick_inv H st'" by (rule nick_inv_tables [OF inv]) (simp_all add: st')
  moreover have "n_marker st < m" using succ_word_gt [OF False] st'(1) by simp
  then have "np_marker np < m" if "nick_marks_ok st" "n_recs st r = Some np" for r np
    using that unfolding nick_marks_ok_def by (metis order.strict_trans1)
  then have "nick_marks_ok st \<longrightarrow> nick_marks_ok st' \<and> (\<forall>r np. n_recs st' r = Some np \<longrightarrow> np_marker np \<noteq> m)"
    unfolding nick_marks_ok_def by (simp add: st'(2)) (metis less_imp_le less_irrefl)
  ultimately show ?thesis by (simp add: st'(2))
qed

end
