(* ===== verification/NickNew.thy ===== *)
theory NickNew
  imports NickMsgs
begin

text \<open>
  The message about a new user: the collision with a user of the same nick, the host, the real
  name, the account and the address of the new user, and its places in the tables.
\<close>

section \<open>New users\<close>

lemma table_users_insert:
  assumes t: "table_users st" and r: "n_next st \<le> r" "cstring (np_nick np)"
    and free: "\<And>q nq. n_recs st q = Some nq \<Longrightarrow> lower (np_nick nq) \<noteq> lower (np_nick np)"
    and st': "n_recs st' = (n_recs st)(r \<mapsto> np)" "n_next st' = r + 1"
      "n_nicktable st' = (n_nicktable st)(nickhash (np_nick np) := r # n_nicktable st (nickhash (np_nick np)))"
  shows "table_users st'"
proof -
  have none: "n_recs st r = None" using table_usersD(2) [OF t, of r] r(1) by (cases "n_recs st r") auto
  have "chains (n_nicktable st') (\<lambda>q. map_option (nickhash \<circ> np_nick) (n_recs st' q))"
    using chains_insert [OF table_usersD(1) [OF t], of r "nickhash (np_nick np)"] none
    by (auto simp: st' elim!: chains_same)
  moreover have "q < n_next st' \<and> cstring (np_nick nq)" if "n_recs st' q = Some nq" for q nq
    using that table_usersD(2,3) [OF t, of q nq] r by (auto simp: st' split: if_splits)
  moreover have "p = q" if "n_recs st' p = Some n1" "n_recs st' q = Some n2" "lower (np_nick n1) = lower (np_nick n2)" for p q n1 n2
  proof -
    have own: "m = np" if "n_recs st' r = Some m" for m using that by (simp add: st'(1))
    have old: "n_recs st k = Some m" if "n_recs st' k = Some m" "k \<noteq> r" for k m using that by (simp add: st'(1))
    consider "p = r" "q = r" | "p = r" "q \<noteq> r" | "p \<noteq> r" "q = r" | "p \<noteq> r" "q \<noteq> r" by blast
    then show ?thesis
    proof cases
      case 1 then show ?thesis by simp
    next
      case 2 then show ?thesis using own [of n1] free [OF old [OF that(2)]] that by simp
    next
      case 3 then show ?thesis using own [of n2] free [OF old [OF that(1)]] that by simp
    next
      case 4 then show ?thesis using table_usersD(4) [OF t old [OF that(1)] old [OF that(2)] that(3)] by simp
    qed
  qed
  ultimately show ?thesis unfolding table_users_def by blast
qed

lemma slot_users_insert:
  assumes t: "slot_users st" and r: "n_recs st r = None" and x: "np_numeric np < 2 ^ 30" "\<not> no_handle st (np_numeric np)"
    and free: "slot_user st (homeserver (np_numeric np)) (handle_slot st (np_numeric np)) = None"
    and st': "n_recs st' = (n_recs st)(r \<mapsto> np)" "n_serv st' = n_serv st"
      "n_servernicks st (homeserver (np_numeric np)) = Some tab"
      "n_servernicks st' = (n_servernicks st)(homeserver (np_numeric np) \<mapsto> tab(handle_slot st (np_numeric np) := Some r))"
  shows "slot_users st'"
proof -
  have h: "handle_slot st' = handle_slot st" by (simp add: handle_slot_def st' fun_eq_iff)
  have s: "slot_user st' n i = (if n = homeserver (np_numeric np) \<and> i = handle_slot st (np_numeric np) then Some r
      else slot_user st n i)" for n i
    using st'(3) by (auto simp: slot_user_def st'(4))
  have "slot_user st' n i = Some q \<longleftrightarrow>
      (\<exists>nq. n_recs st' q = Some nq \<and> homeserver (np_numeric nq) = n \<and> handle_slot st' (np_numeric nq) = i)" for n i q
  proof (cases "q = r")
    case True
    have "slot_user st n i \<noteq> Some r" using slot_usersD(2) [OF t] r by auto
    then show ?thesis using True by (auto simp: st'(1) s h)
  next
    case False
    have "slot_user st' n i = Some q \<longleftrightarrow> slot_user st n i = Some q" using free False by (auto simp: s)
    then show ?thesis using slot_usersD(2) [OF t] False by (simp add: st'(1) h)
  qed
  moreover have "n_servernicks st' n = None \<longleftrightarrow> n_servernicks st n = None" for n using st'(3) by (simp add: st'(4))
  moreover have "np_numeric nq < 2 ^ 30" if "n_recs st' q = Some nq" for q nq
    using that slot_usersD(3) [OF t] x(1) by (auto simp: st'(1) split: if_splits)
  ultimately show ?thesis using slot_usersD(1) [OF t] unfolding slot_users_def by (simp add: st'(2))
qed

lemma cloaks_insert:
  assumes c: "cloaks_ok recs" and r: "recs r = None" and np: "np_cloak_count np = 0" "np_cloak_extra np = None"
  shows "cloaks_ok (recs(r \<mapsto> np))"
proof -
  have same: "cloak_of (recs(r \<mapsto> np)) = cloak_of recs" using r np by (auto simp: cloak_of_def fun_eq_iff)
  have "cloak_of recs q \<noteq> Some r" for q using cloaksD(1) [OF c] r by blast
  then show ?thesis using cloaksD [OF c] np(1) by (intro cloaksI) (auto simp: same split: if_splits)
qed

text \<open>The users that have the slot of a numeric.\<close>

definition slot_holders :: "nickst \<Rightarrow> nat \<Rightarrow> nat set" where
  "slot_holders st x = {q. \<exists>nq. n_recs st q = Some nq \<and> homeserver (np_numeric nq) = homeserver x
     \<and> handle_slot st (np_numeric nq) = handle_slot st x}"

lemma place_nick_ok:
  assumes t: "table_users st" and s: "slot_users st" and c: "cloaks_ok (n_recs st)"
    and u: "user_links H st ((n_recs st)(r \<mapsto> np))" and f: "\<forall>q nq. n_recs st q = Some nq \<longrightarrow> flagged nq" "flagged np"
    and r: "r = n_next st" "cstring (np_nick np)" "name_free st r (np_nick np)"
    and x: "np_numeric np < 2 ^ 30" "\<not> no_handle st (np_numeric np)" "np_cloak_count np = 0" "np_cloak_extra np = None"
  obtains st' where "place_nick r np st = Some st'" "nick_inv H st'" "n_serv st' = n_serv st"
    "n_recs st' r = Some np" "dom (n_recs st') = insert r (dom (n_recs st) - slot_holders st (np_numeric np))"
proof -
  let ?x = "np_numeric np"
  let ?old = "slot_user st (homeserver ?x) (handle_slot st ?x)"
  have none: "n_recs st r = None" using table_usersD(2) [OF t, of r] r(1) by (cases "n_recs st r") auto
  have old: "handle_value st ?x = Some ?old" by (rule handle_value_slot [OF s x(2)])
  have hold: "slot_holders st ?x = {q. ?old = Some q}" using slot_usersD(2) [OF s] by (simp add: slot_holders_def)
  obtain st1 where st1: "(case ?old of None \<Rightarrow> Some st | Some r2 \<Rightarrow> deletenick r2 st) = Some st1"
    "table_users st1" "slot_users st1" "cloaks_ok (n_recs st1)" "user_links H st1 ((n_recs st1)(r \<mapsto> np))"
    "same_nicks (\<lambda>q. if ?old = Some q then None else n_recs st q) (n_recs st1)" "n_serv st1 = n_serv st" "n_next st1 = n_next st"
    "\<forall>n. n_servernicks st1 n = None \<longleftrightarrow> n_servernicks st n = None"
  proof (cases ?old)
    case None
    then show thesis using that [of st] t s c u by simp
  next
    case (Some r2)
    then obtain np2 where np2: "n_recs st r2 = Some np2" using slot_usersD(2) [OF s] by blast
    have ne: "r2 \<noteq> r" using np2 none by auto
    obtain st1 where st1: "deletenick r2 st = Some st1"
      "table_users st1" "slot_users st1" "cloaks_ok (n_recs st1)" "user_links H st1 ((n_recs st)(r \<mapsto> np, r2 := None))"
      "same_nicks ((n_recs st)(r2 := None)) (n_recs st1)" "n_serv st1 = n_serv st" "n_next st1 = n_next st"
      "\<forall>n. n_servernicks st1 n = None \<longleftrightarrow> n_servernicks st n = None"
      by (rule deletenick_ok [OF t s c u np2]) (use np2 ne f(1) in \<open>simp_all add: flagged_def\<close>)
    have e: "(\<lambda>q. if ?old = Some q then None else n_recs st q) = (n_recs st)(r2 := None)" using Some by auto
    have "same_nicks ((n_recs st)(r \<mapsto> np, r2 := None)) ((n_recs st1)(r \<mapsto> np))"
      using st1(6) ne by (simp add: same_nicks_def)
    from user_links_same [OF this] have "user_links H st1 ((n_recs st1)(r \<mapsto> np))" using st1(5) by simp
    then show thesis using that [of st1] st1 Some unfolding e by simp
  qed
  have live: "\<exists>n0. n_recs st q = Some n0 \<and> ?old \<noteq> Some q \<and> uncloaked n0 = uncloaked nq" if "n_recs st1 q = Some nq" for q nq
    using same_nicks_live [OF same_nicks_sym [OF st1(6)] that] by (metis (full_types) option.distinct(1))
  have none1: "n_recs st1 r = None" using live [of r] none by (cases "n_recs st1 r") auto
  have handle1: "handle_slot st1 = handle_slot st" "no_handle st1 = no_handle st"
    by (simp_all add: handle_slot_def no_handle_def st1(7) fun_eq_iff)
  have "slot_user st1 (homeserver ?x) (handle_slot st1 ?x) = None"
  proof (rule ccontr)
    assume "\<not> ?thesis"
    then obtain q where "slot_user st1 (homeserver ?x) (handle_slot st1 ?x) = Some q" by blast
    then obtain nq where nq: "n_recs st1 q = Some nq" "homeserver (np_numeric nq) = homeserver ?x"
        "handle_slot st1 (np_numeric nq) = handle_slot st1 ?x" using slot_usersD(2) [OF st1(3)] by blast
    obtain n0 where n0: "n_recs st q = Some n0" "?old \<noteq> Some q" "uncloaked n0 = uncloaked nq" using live [OF nq(1)] by blast
    have "?old = Some q"
      using slot_usersD(2) [OF s] n0(1) nq(2,3) uncloaked_fields(2) [OF n0(3)] by (auto simp: handle1)
    then show False using n0(2) by simp
  qed
  note free = this
  obtain tab where tab: "n_servernicks st1 (homeserver ?x) = Some tab"
    using slot_usersD(1) [OF st1(3) homeserver_less [of ?x]] x(2)
    by (cases "n_servernicks st1 (homeserver ?x)") (auto simp: no_handle_def st1(7))
  let ?h = "nickhash (np_nick np)"
  define st' where "st' = trigger [NickNew r] (st1\<lparr>n_recs := (n_recs st1)(r \<mapsto> np),
    n_servernicks := (n_servernicks st1)(homeserver ?x \<mapsto> tab(handle_slot st1 ?x := Some r)), n_next := r + 1,
    n_nicktable := (n_nicktable st1)(?h := r # n_nicktable st1 ?h)\<rparr>)"
  have e: "place_nick r np st = Some st'"
    using old st1(1) tab by (simp add: place_nick_def set_handle_def put_rec_def addnicktohash_def Let_def st'_def handle_slot_def st1(7))
  have recs': "n_recs st' = (n_recs st1)(r \<mapsto> np)" by (simp add: st'_def)
  have nf: "lower (np_nick nq) \<noteq> lower (np_nick np)" if n: "n_recs st1 q = Some nq" for q nq
  proof -
    obtain n0 where n0: "n_recs st q = Some n0" "uncloaked n0 = uncloaked nq" using live [OF n] by blast
    have "q \<noteq> r" using n0(1) none by auto
    then have "lower (np_nick n0) \<noteq> lower (np_nick np)" using r(3) n0(1) unfolding name_free_def by blast
    then show ?thesis using uncloaked_fields(1) [OF n0(2)] by simp
  qed
  have "table_users st'"
    by (rule table_users_insert [OF st1(2), of r np]) (use r nf st1(8) in \<open>simp_all add: st'_def trigger_def\<close>)
  moreover have "slot_users st'"
    by (rule slot_users_insert [OF st1(3) none1 x(1) _ free _ _ tab]) (use x(2) in \<open>simp_all add: st'_def trigger_def handle1\<close>)
  moreover have "cloaks_ok (n_recs st')" unfolding recs' by (rule cloaks_insert [OF st1(4) none1 x(3,4)])
  moreover have "user_links H st' (n_recs st')"
    using st1(5) user_links_tables [of st' st1] by (simp add: recs') (simp add: st'_def trigger_def)
  moreover have "flagged nq" if "n_recs st' q = Some nq" for q nq
  proof (cases "q = r")
    case False
    then have "n_recs st1 q = Some nq" using that by (simp add: recs')
    then show ?thesis using live [of q nq] f(1) uncloaked_fields(5,6) by (metis flagged_def has_umode_def)
  qed (use that f(2) in \<open>simp add: recs'\<close>)
  ultimately have inv: "nick_inv H st'" by (simp add: nick_inv_def)
  have "dom (n_recs st1) = dom (n_recs st) - slot_holders st ?x"
    unfolding same_nicks_dom [OF st1(6)] hold by (auto split: if_splits)
  then have "dom (n_recs st') = insert r (dom (n_recs st) - slot_holders st ?x)" by (simp add: recs')
  moreover have "n_serv st' = n_serv st" by (simp add: st'_def st1(7))
  ultimately show thesis using that [OF e inv] by (simp add: recs')
qed

text \<open>The modes, the account and the set host of a new user.\<close>

lemma new_account_ok:
  assumes au: "account_users auths K" and r: "K r = None" and a: "cstring arg"
  obtains ts nm acc auths' where
    "new_account r mem arg np auths = Some (np\<lparr>np_accountts := ts, np_auth := acc, np_authname := nm\<rparr>, auths')"
    "account_users auths' (K(r := acc))"
  | "new_account r mem arg np auths = Some (np, auths)"
  | ts nm where "new_account r mem arg np auths = Some (np\<lparr>np_accountts := ts, np_authname := nm\<rparr>, auths)"
proof (cases "account_fields mem arg")
  case None
  then show thesis using that(2) by (simp add: new_account_def)
next
  case (Some f)
  obtain name ts userid flags where f: "f = (name, ts, userid, flags)" by (cases f) blast
  have name: "cstring name"
    using Some a f by (auto simp: account_fields_def cstring_def Let_def split: if_splits prod.splits dest: set_takeWhileD)
  show thesis
  proof (cases "userid = 0")
    case True
    then show thesis using that(3) Some f by (simp add: new_account_def)
  next
    case False
    obtain x nm auths' where l: "login r userid name (Some flags) auths = Some (x, nm, auths')" "account_users auths' (K(r \<mapsto> x))"
      by (rule login_ok [OF au r False name])
    show thesis by (rule that(1) [where ts = ts and nm = nm and acc = "Some x" and auths' = auths']) (use Some f False l in \<open>simp_all add: new_account_def\<close>)
  qed
qed

lemma new_modes_ok:
  assumes au: "account_users (n_auths st) K" "K r = None" and np: "np_auth np = None"
    and hub: "0 \<le> myhub (n_serv st)" and a: "9 \<le> length cargv" "\<forall>arg \<in> set cargv. cstring arg"
  obtains np' auths where "new_modes r mem cargv st np = Some (np', auths)" "same_keys np' np" "np_nick np' = np_nick np"
    "np_ident np' = np_ident np" "np_timestamp np' = np_timestamp np"
    "flagged np'" "account_users auths (K(r := np_auth np'))"
proof -
  have Kr: "K(r := None) = K" using au(2) by auto
  let ?np1 = "np\<lparr>np_umodes := snd (setflags (np_umodes np) UMODE_ALL (cargv ! 5) umodeflags False False)\<rparr>"
  obtain oper where oper: "(if has_umode ?np1 UMODE_OPER then hub_opernames st else Some False) = Some oper"
    using hub by (cases "has_umode ?np1 UMODE_OPER") (simp_all add: hub_opernames_def)
  define np2 where "np2 = (if oper then ?np1\<lparr>np_opername := Some (sstr (cargv ! 6) ACCOUNTLEN)\<rparr> else ?np1)"
  let ?a = "if oper then 7 else 6"
  let ?s = "?a + (if has_umode np2 UMODE_ACCOUNT then 1 else 0)"
  have np2: "same_keys np2 np" "np_nick np2 = np_nick np" "np_ident np2 = np_ident np" "np_timestamp np2 = np_timestamp np"
    "np_auth np2 = None" "np_umodes np2 = np_umodes ?np1"
    using np by (simp_all add: np2_def same_keys_def)
  have arg: "cstring (cargv ! ?a)" using a by (simp add: nth_mem)
  obtain np3 auths where np3: "(if has_umode np2 UMODE_ACCOUNT then new_account r mem (cargv ! ?a) np2 (n_auths st)
      else Some (np2, n_auths st)) = Some (np3, auths)"
    "same_keys np3 np" "np_nick np3 = np_nick np" "np_ident np3 = np_ident np" "np_timestamp np3 = np_timestamp np" "np_umodes np3 = np_umodes np2" "flagged np3"
    "account_users auths (K(r := np_auth np3))"
  proof (cases "has_umode np2 UMODE_ACCOUNT")
    case False
    then show thesis using that [of np2 "n_auths st"] np2 au(1) Kr by (simp add: flagged_def)
  next
    case True
    then have acc: "has_flag (np_umodes np2) UMODE_ACCOUNT" by (simp add: has_umode_def)
    show thesis
    proof (cases rule: new_account_ok [OF au arg, of mem np2])
      case (1 ts nm acc auths')
      show thesis
        by (rule that [of "np2\<lparr>np_accountts := ts, np_auth := acc, np_authname := nm\<rparr>" auths']) (use 1 True acc np2 in \<open>simp_all add: same_keys_def flagged_def has_umode_def\<close>)
    next
      case 2
      show thesis
        by (rule that [of np2 "n_auths st"]) (use 2 True acc np2 au(1) Kr in \<open>simp_all add: same_keys_def flagged_def\<close>)
    next
      case (3 ts nm)
      show thesis
        by (rule that [of "np2\<lparr>np_accountts := ts, np_authname := nm\<rparr>" "n_auths st"]) (use 3 True acc np2 au(1) Kr in \<open>simp_all add: same_keys_def flagged_def\<close>)
    qed
  qed
  let ?np4 = "if has_umode np3 UMODE_SETHOST \<and> CHR ''@'' \<in> set (cargv ! ?s) then set_host (cargv ! ?s) np3 else np3"
  have acc: "has_umode ?np1 UMODE_ACCOUNT = has_umode np2 UMODE_ACCOUNT" using np2(6) by (simp add: has_umode_def)
  have e: "new_modes r mem cargv st np = Some (?np4, auths)"
    unfolding new_modes_def Let_def oper acc
    by (simp only: bind.bind_lunit np2_def [symmetric] np3(1) split: prod.split) simp
  show thesis
    by (rule that [OF e]) (use np3 in \<open>simp_all add: set_host_def same_keys_def flagged_def has_umode_def\<close>)
qed

section \<open>The collision of a new user\<close>

definition nick_holders :: "nickst \<Rightarrow> string \<Rightarrow> nat set" where
  "nick_holders st name = {q. \<exists>nq. n_recs st q = Some nq \<and> lower (np_nick nq) = lower name}"

text \<open>The new user comes from the same \<open>user@host\<close> as a known one, and is refused.\<close>

definition same_origin :: "nickst \<Rightarrow> nickrec \<Rightarrow> string list \<Rightarrow> bool" where
  "same_origin st nq cargv \<longleftrightarrow> ircd_strcmp (np_ident nq) (cargv ! 3) = 0
     \<and> (\<exists>h. nt_recs (n_hosts st) (np_host nq) = Some h \<and> ircd_strcmp (hr_name h) (cargv ! 4) = 0)"

definition refused :: "nickst \<Rightarrow> string list \<Rightarrow> bool" where
  "refused st cargv \<longleftrightarrow> (\<exists>q nq. n_recs st q = Some nq \<and> lower (np_nick nq) = lower (cargv ! 0)
     \<and> loses (same_origin st nq cargv) (fst (strtol10 (cargv ! 2))) (np_timestamp nq))"

lemma host_live:
  assumes "user_links H st U" "U r = Some np"
  obtains h where "nt_recs (n_hosts st) (np_host np) = Some h"
proof -
  have c: "chains (name_chain (n_hosts st)) (\<lambda>r. map_option np_host (U r))"
    using assms(1) by (simp add: user_links_def name_users_def)
  have "r \<in> set (name_chain (n_hosts st) (np_host np))" using chains_in [OF c] assms(2) by simp
  then show thesis using that by (cases "nt_recs (n_hosts st) (np_host np)") (auto simp: name_chain_def)
qed

lemma new_collision_ok:
  assumes inv: "nick_inv H st" and name: "cstring (cargv ! 0)"
  obtains st1 where "new_collision cargv (fst (strtol10 (cargv ! 2))) st = Some (\<not> refused st cargv, st1)"
    "nick_inv H st1" "n_serv st1 = n_serv st" "n_next st1 = n_next st"
    "refused st cargv \<longrightarrow> st1 = st"
    "\<not> refused st cargv \<longrightarrow> same_nicks (\<lambda>q. if q \<in> nick_holders st (cargv ! 0) then None else n_recs st q) (n_recs st1)"
proof -
  let ?ts = "fst (strtol10 (cargv ! 2))"
  note tb = nick_invD(1) [OF inv]
  obtain z where z: "getnickbynick (cargv ! 0) st = Some z"
    "\<And>q. z = Some q \<longleftrightarrow> (\<exists>nq. n_recs st q = Some nq \<and> lower (np_nick nq) = lower (cargv ! 0))"
    by (rule getnickbynick_ok [OF tb name]) (rule that)
  have holders: "q \<in> nick_holders st (cargv ! 0) \<longleftrightarrow> z = Some q" for q using z(2) by (simp add: nick_holders_def)
  show thesis
  proof (cases z)
    case None
    have nr: "\<not> refused st cargv"
    proof
      assume "refused st cargv"
      then obtain q where "q \<in> nick_holders st (cargv ! 0)" by (auto simp: refused_def nick_holders_def)
      then show False using holders None by simp
    qed
    have "new_collision cargv ?ts st = Some (True, st)" using z(1) None by (simp add: new_collision_def)
    then show thesis using that [of st] inv nr None same_nicks_refl by (simp add: holders)
  next
    case (Some q)
    then obtain nq where q: "n_recs st q = Some nq" "lower (np_nick nq) = lower (cargv ! 0)" using z(2) by blast
    have only: "p = q" if "n_recs st p = Some n" "lower (np_nick n) = lower (cargv ! 0)" for p n
      using table_usersD(4) [OF tb that(1) q(1)] that(2) q(2) by simp
    obtain h where h: "nt_recs (n_hosts st) (np_host nq) = Some h" by (rule host_live [OF nick_invD(4) [OF inv] q(1)])
    have r: "refused st cargv \<longleftrightarrow> loses (same_origin st nq cargv) ?ts (np_timestamp nq)"
      unfolding refused_def using q only by (metis option.inject)
    have o: "same_origin st nq cargv \<longleftrightarrow> ircd_strcmp (np_ident nq) (cargv ! 3) = 0 \<and> ircd_strcmp (hr_name h) (cargv ! 4) = 0"
      using h by (simp add: same_origin_def)
    obtain st1 where st1: "deletenick q st = Some st1" "nick_inv H st1" "same_nicks ((n_recs st)(q := None)) (n_recs st1)"
      "n_serv st1 = n_serv st" "n_next st1 = n_next st" by (rule delete_inv [OF inv q(1)])
    have e: "new_collision cargv ?ts st = (if refused st cargv then Some (False, st) else Some (True, st1))"
      unfolding r o loses_def using z(1) Some q(1) h st1(1) by (auto simp: new_collision_def)
    have "(\<lambda>p. if p \<in> nick_holders st (cargv ! 0) then None else n_recs st p) = (n_recs st)(q := None)"
      using Some by (auto simp: holders)
    then show thesis using that [of "if refused st cargv then st else st1"] e st1 inv by (cases "refused st cargv") simp_all
  qed
qed

section \<open>The message\<close>

lemma user_links_enter:
  assumes u: "user_links H st U" and r: "U r = None" and host: "cstring host" "length host \<le> HOSTNAME_MAX"
    and real: "cstring real" "length real \<le> REALNAME_MAX"
  obtains hp hosts1 hosts2 rp reals1 reals2 node tree where
    "findorcreatehost host (n_hosts st) = Some (hp, hosts1)" "link_name r hp hosts1 = Some hosts2"
    "findorcreaterealname real (n_reals st) = Some (rp, reals1)" "link_name r rp reals1 = Some reals2"
    "user_on s (n_iptree st) = Some (node, tree)"
    "\<forall>np st'. np_host np = hp \<longrightarrow> np_realname np = rp \<longrightarrow> node_key np = (s, node) \<longrightarrow>
       account_users (n_auths st') ((\<lambda>q. Option.bind (U q) np_auth)(r := np_auth np)) \<longrightarrow>
       n_hosts st' = hosts2 \<longrightarrow> n_reals st' = reals2 \<longrightarrow> n_iptree st' = tree \<longrightarrow> user_links H st' (U(r \<mapsto> np))"
proof -
  obtain hp hosts1 hosts2 where h: "findorcreatehost host (n_hosts st) = Some (hp, hosts1)" "link_name r hp hosts1 = Some hosts2"
      "name_users hosthash (map ToLower) hosts2 ((\<lambda>q. map_option np_host (U q))(r \<mapsto> hp))"
    unfolding findorcreatehost_def
    by (rule host_names.enter_ok [of "n_hosts st" "\<lambda>q. map_option np_host (U q)" r host])
      (use u r host in \<open>auto simp: user_links_def\<close>)
  obtain rp reals1 reals2 where n: "findorcreaterealname real (n_reals st) = Some (rp, reals1)" "link_name r rp reals1 = Some reals2"
      "name_users realnamehash (\<lambda>n. n) reals2 ((\<lambda>q. map_option np_realname (U q))(r \<mapsto> rp))"
    unfolding findorcreaterealname_def
    by (rule real_names.enter_ok [of "n_reals st" "\<lambda>q. map_option np_realname (U q)" r real])
      (use u r real in \<open>auto simp: user_links_def\<close>)
  obtain node tree where t: "user_on s (n_iptree st) = Some (node, tree)"
      "trie_users tree ((\<lambda>q. map_option node_key (U q))(r \<mapsto> (s, node))) H"
    by (rule user_on_ok [of "n_iptree st" "\<lambda>q. map_option node_key (U q)" H r s]) (use u r in \<open>auto simp: user_links_def\<close>)
  have "user_links H st' (U(r \<mapsto> np))"
    if np: "np_host np = hp" "np_realname np = rp" "node_key np = (s, node)"
      and a: "account_users (n_auths st') ((\<lambda>q. Option.bind (U q) np_auth)(r := np_auth np))"
      and st': "n_hosts st' = hosts2" "n_reals st' = reals2" "n_iptree st' = tree" for np st'
  proof -
    have upd: "(\<lambda>q. map_option f ((U(r \<mapsto> np)) q)) = (\<lambda>q. map_option f (U q))(r \<mapsto> f np)" for f
      by (simp add: fun_eq_iff)
    have updb: "(\<lambda>q. Option.bind ((U(r \<mapsto> np)) q) np_auth) = (\<lambda>q. Option.bind (U q) np_auth)(r := np_auth np)"
      by (simp add: fun_eq_iff)
    show ?thesis unfolding user_links_def upd updb st' np using h(3) n(3) t(2) a by blast
  qed
  then show thesis using that h(1,2) n(1,2) t(1) by blast
qed

text \<open>What the message must bring; real names over \<open>REALNAME_MAX\<close> are cut by the hub.\<close>

definition newnick_args_ok :: "string list \<Rightarrow> bool" where
  "newnick_args_ok cargv \<longleftrightarrow> 8 \<le> length cargv \<and> (\<forall>arg \<in> set cargv. cstring arg) \<and> length (cargv ! 0) \<le> NICKLEN
     \<and> length (cargv ! 4) \<le> HOSTNAME_MAX \<and> length (cargv ! (length cargv - 1)) \<le> REALNAME_MAX
     \<and> numeric_str (cargv ! (length cargv - 2)) \<and> base64toip (cargv ! (length cargv - 3)) \<noteq> None"

lemma newnick_ok:
  assumes inv: "nick_inv H st" and a: "newnick_args_ok cargv" and hub: "0 \<le> myhub (n_serv st)"
    and x: "numerictolong (cargv ! (length cargv - 2)) 5 = Some (int x)"
  obtains st' where "handle_newnick mem cargv st = Some st'" "nick_inv H st'" "n_serv st' = n_serv st"
    "refused st cargv \<longrightarrow> st' = st"
    "\<not> refused st cargv \<longrightarrow> no_handle st x \<longrightarrow> dom (n_recs st') = dom (n_recs st) - nick_holders st (cargv ! 0)"
    "\<not> refused st cargv \<longrightarrow> \<not> no_handle st x \<longrightarrow>
       dom (n_recs st') = insert (n_next st) (dom (n_recs st) - nick_holders st (cargv ! 0) - slot_holders st x)
       \<and> (\<exists>np. n_recs st' (n_next st) = Some np \<and> np_nick np = cargv ! 0 \<and> np_numeric np = x
         \<and> np_ident np = take USERLEN (cargv ! 3) \<and> np_timestamp np = fst (strtol10 (cargv ! 2)))"
proof -
  let ?ts = "fst (strtol10 (cargv ! 2))" and ?r = "n_next st"
  have len: "8 \<le> length cargv" and cs: "\<forall>arg \<in> set cargv. cstring arg" and nl: "length (cargv ! 0) \<le> NICKLEN"
    using a by (simp_all add: newnick_args_ok_def)
  have arg: "cstring (cargv ! i)" if "i < length cargv" for i using cs that by simp
  have name: "cstring (cargv ! 0)" using len by (intro arg) linarith
  obtain ip where ip: "base64toip (cargv ! (length cargv - 3)) = Some ip" using a by (auto simp: newnick_args_ok_def)
  obtain st1 where c: "new_collision cargv ?ts st = Some (\<not> refused st cargv, st1)"
    "nick_inv H st1" "n_serv st1 = n_serv st" "n_next st1 = n_next st" "refused st cargv \<longrightarrow> st1 = st"
    "\<not> refused st cargv \<longrightarrow> same_nicks (\<lambda>q. if q \<in> nick_holders st (cargv ! 0) then None else n_recs st q) (n_recs st1)"
    by (rule new_collision_ok [OF inv name])
  have nh: "no_handle st1 = no_handle st" "handle_slot st1 = handle_slot st"
    by (simp_all add: no_handle_def handle_slot_def c(3) fun_eq_iff)
  show thesis
  proof (cases "refused st cargv")
    case True
    then have "handle_newnick mem cargv st = Some st" using c(1,5) by (simp add: handle_newnick_def Let_def)
    then show thesis using that [of st] inv True by simp
  next
    case proceed: False
    then have same: "same_nicks (\<lambda>q. if q \<in> nick_holders st (cargv ! 0) then None else n_recs st q) (n_recs st1)"
      using c(6) by simp
    have dom1: "dom (n_recs st1) = dom (n_recs st) - nick_holders st (cargv ! 0)"
      using same_nicks_dom [OF same] by (auto split: if_splits)
    show thesis
    proof (cases "no_handle st x")
      case True
      then have "handle_newnick mem cargv st = Some st1"
        using c(1) proceed x nh by (simp add: handle_newnick_def Let_def)
      then show thesis using that [of st1] c(2,3) proceed True dom1 by simp
    next
      case False
      have none: "n_recs st1 ?r = None"
        using table_usersD(2) [OF nick_invD(1) [OF c(2)], of ?r] c(4) by (cases "n_recs st1 ?r") auto
      let ?s = "ip_canonicalize_tunnel ip" and ?K = "\<lambda>q. Option.bind (n_recs st1 q) np_auth"
      obtain hp hosts1 hosts2 rp reals1 reals2 node tree where l:
        "findorcreatehost (cargv ! 4) (n_hosts st1) = Some (hp, hosts1)" "link_name ?r hp hosts1 = Some hosts2"
        "findorcreaterealname (cargv ! (length cargv - 1)) (n_reals st1) = Some (rp, reals1)" "link_name ?r rp reals1 = Some reals2"
        "user_on ?s (n_iptree st1) = Some (node, tree)"
        "\<forall>np st'. np_host np = hp \<longrightarrow> np_realname np = rp \<longrightarrow> node_key np = (?s, node) \<longrightarrow>
           account_users (n_auths st') (?K(?r := np_auth np)) \<longrightarrow>
           n_hosts st' = hosts2 \<longrightarrow> n_reals st' = reals2 \<longrightarrow> n_iptree st' = tree \<longrightarrow> user_links H st' ((n_recs st1)(?r \<mapsto> np))"
        by (rule user_links_enter [OF nick_invD(4) [OF c(2)] none, of "cargv ! 4" "cargv ! (length cargv - 1)" ?s])
          (use arg [of 4] arg [of "length cargv - 1"] len a in \<open>simp_all add: newnick_args_ok_def\<close>)
      let ?np = "fresh_nick cargv x ?ts ip hp rp node"
      let ?st2 = "st1\<lparr>n_hosts := hosts2, n_reals := reals2, n_iptree := tree\<rparr>"
      have K: "account_users (n_auths st1) ?K" "?K ?r = None"
        using nick_invD(4) [OF c(2)] none by (simp_all add: user_links_def)
      then have K0: "?K(?r := None) = ?K" by auto
      obtain np auths where m: "(if length cargv \<ge> 9 then new_modes ?r mem cargv ?st2 ?np else Some (?np, n_auths ?st2)) = Some (np, auths)"
        "same_keys np ?np" "np_nick np = np_nick ?np" "np_ident np = np_ident ?np" "np_timestamp np = np_timestamp ?np" "flagged np" "account_users auths (?K(?r := np_auth np))"
      proof (cases "length cargv \<ge> 9")
        case True
        have "account_users (n_auths ?st2) ?K" "0 \<le> myhub (n_serv ?st2)" "np_auth ?np = None"
          using K(1) hub c(3) by (simp_all add: fresh_nick_def)
        from new_modes_ok [OF this(1) K(2) this(3,2) True cs] show thesis using that True by metis
      next
        case False
        then show thesis using that [of ?np "n_auths st1"] K(1) K0 by (simp add: same_keys_def flagged_def fresh_nick_def)
      qed
      let ?st3 = "?st2\<lparr>n_auths := auths\<rparr>"
      have np: "np_nick np = cargv ! 0" "np_numeric np = x" "np_cloak_count np = 0" "np_cloak_extra np = None"
        "np_host np = hp" "np_realname np = rp" "node_key np = (?s, node)"
        "np_ident np = take USERLEN (cargv ! 3)" "np_timestamp np = ?ts"
        using m(2-5) nl by (simp_all add: same_keys_def fresh_nick_def node_key_def)
      have "table_users ?st3" by (rule table_users_same [OF nick_invD(1) [OF c(2)]]) simp_all
      moreover have "slot_users ?st3" by (rule slot_users_same [OF nick_invD(2) [OF c(2)]]) simp_all
      moreover have "cloaks_ok (n_recs ?st3)" using nick_invD(3) [OF c(2)] by simp
      moreover have "user_links H ?st3 ((n_recs ?st3)(?r \<mapsto> np))" using l(6) m(7) np by simp
      moreover have "\<forall>q nq. n_recs ?st3 q = Some nq \<longrightarrow> flagged nq" using nick_invD(5) [OF c(2)] by simp
      moreover have "?r = n_next ?st3" "cstring (np_nick np)" using c(4) name np(1) by simp_all
      moreover have "name_free ?st3 ?r (np_nick np)"
        unfolding name_free_def np(1)
      proof (intro allI impI notI)
        fix q nq assume q: "n_recs ?st3 q = Some nq" "lower (np_nick nq) = lower (cargv ! 0)"
        have "n_recs st1 q = Some nq" using q(1) by simp
        then obtain n0 where n0: "(if q \<in> nick_holders st (cargv ! 0) then None else n_recs st q) = Some n0" "uncloaked n0 = uncloaked nq"
          by (rule same_nicks_live [OF same_nicks_sym [OF same]])
        then have "n_recs st q = Some n0" "q \<notin> nick_holders st (cargv ! 0)" by (auto split: if_splits)
        moreover have "lower (np_nick n0) = lower (cargv ! 0)" using q(2) uncloaked_fields(1) [OF n0(2)] by simp
        ultimately show False by (simp add: nick_holders_def)
      qed
      moreover have "np_numeric np < 2 ^ 30" using numeric5_bound [OF x] np(2) by simp
      moreover have "no_handle ?st3 = no_handle st1" "handle_slot ?st3 = handle_slot st1"
        by (simp_all add: no_handle_def handle_slot_def fun_eq_iff)
      moreover from this have "\<not> no_handle ?st3 (np_numeric np)" using False nh np(2) by simp
      ultimately obtain st' where st': "place_nick ?r np ?st3 = Some st'" "nick_inv H st'" "n_serv st' = n_serv ?st3"
        "n_recs st' ?r = Some np" "dom (n_recs st') = insert ?r (dom (n_recs ?st3) - slot_holders ?st3 (np_numeric np))"
        using place_nick_ok [of ?st3 H ?r np] m(6) np(3,4) by metis
      have "dom (n_recs st1) - slot_holders ?st3 x = dom (n_recs st1) - slot_holders st x"
      proof -
        have "q \<in> slot_holders ?st3 x \<longleftrightarrow> q \<in> slot_holders st x" if q: "q \<in> dom (n_recs st1)" for q
        proof -
          obtain n1 where n1: "n_recs st1 q = Some n1" using q by blast
          then obtain n0 where n0: "(if q \<in> nick_holders st (cargv ! 0) then None else n_recs st q) = Some n0" "uncloaked n0 = uncloaked n1"
            by (rule same_nicks_live [OF same_nicks_sym [OF same]])
          then have "n_recs st q = Some n0" by (auto split: if_splits)
          then show ?thesis using n1 uncloaked_fields(2) [OF n0(2)]
            by (simp add: slot_holders_def nh \<open>handle_slot ?st3 = handle_slot st1\<close>)
        qed
        then show ?thesis by blast
      qed
      then have "dom (n_recs st') = insert ?r (dom (n_recs st) - nick_holders st (cargv ! 0) - slot_holders st x)"
        using st'(5) dom1 np(2) by simp
      moreover have "handle_newnick mem cargv st = Some st'"
        using c(1) proceed x False nh(1) ip c(4) l(1-5) m(1) st'(1) by (simp add: handle_newnick_def Let_def cong: if_cong)
      moreover have "n_serv st' = n_serv st" using st'(3) c(3) by simp
      ultimately show thesis using that [of st'] st'(2,4) proceed False np(1,2,8,9) by simp
    qed
  qed
qed

end
