(* ===== verification/NickSplit.thy ===== *)
theory NickSplit
  imports NickNew
begin

text \<open>
  The loss of servers: the hook of a lost server removes its users. The handler of the hook is
  run for every event of the server module, so that a split removes the users of all the
  servers behind it.
\<close>

unbundle bit_operations_syntax

section \<open>A lost server\<close>

lemma and_le: "(a :: nat) AND b \<le> b"
proof -
  have "int (a AND b) \<le> int b" by (simp add: of_nat_and_eq)
  then show ?thesis by simp
qed

lemma handle_slot_le: "handle_slot st x \<le> nat (s_maxusernum (slist (n_serv st) (homeserver x)))"
  by (simp add: handle_slot_def and_le)

text \<open>The users of a server in some of its slots.\<close>

definition users_in :: "nickst \<Rightarrow> nat \<Rightarrow> nat list \<Rightarrow> nat set" where
  "users_in st n is = {q. \<exists>nq. n_recs st q = Some nq \<and> homeserver (np_numeric nq) = n
     \<and> handle_slot st (np_numeric nq) \<in> set is}"

lemma users_in_same:
  assumes "same_nicks (n_recs st) (n_recs st')" "n_serv st' = n_serv st"
  shows "users_in st' n is = users_in st n is"
proof -
  have h: "handle_slot st' = handle_slot st" by (simp add: handle_slot_def assms(2) fun_eq_iff)
  have "map_option np_numeric (n_recs st' q) = map_option np_numeric (n_recs st q)" for q
    by (rule same_nicks_map [OF assms(1)]) (use uncloaked_fields(2) in blast)
  then have "(\<exists>nq. n_recs st' q = Some nq \<and> P (np_numeric nq)) \<longleftrightarrow> (\<exists>nq. n_recs st q = Some nq \<and> P (np_numeric nq))" for q P
    by (metis map_option_eq_Some)
  from this [where P = "\<lambda>x. homeserver x = n \<and> handle_slot st x \<in> set is"] show ?thesis
    by (simp add: users_in_def h)
qed

definition without :: "nat set \<Rightarrow> (nat \<rightharpoonup> nickrec) \<Rightarrow> (nat \<rightharpoonup> nickrec)" where
  "without S recs = (\<lambda>q. if q \<in> S then None else recs q)"

lemma without_dom: "dom (without S recs) = dom recs - S"
  by (auto simp: without_def split: if_splits)

lemma same_nicks_without: "same_nicks a b \<Longrightarrow> same_nicks (without S a) (without S b)"
  by (simp add: same_nicks_def without_def)

lemma without_without: "without S (without T recs) = without (S \<union> T) recs"
  by (auto simp: without_def)

lemma users_in_without:
  "users_in (st\<lparr>n_recs := without S (n_recs st)\<rparr>) n is = users_in st n is - S"
proof -
  have "handle_slot (st\<lparr>n_recs := without S (n_recs st)\<rparr>) = handle_slot st" by (simp add: handle_slot_def fun_eq_iff)
  then show ?thesis by (auto simp: users_in_def without_def split: if_splits)
qed

lemma delete_slots_ok:
  assumes "nick_inv H st" "n_servernicks st n \<noteq> None"
  shows "\<exists>st'. delete_slots n is st = Some st' \<and> nick_inv H st' \<and> n_serv st' = n_serv st \<and> n_next st' = n_next st
    \<and> (\<forall>m. n_servernicks st' m = None \<longleftrightarrow> n_servernicks st m = None)
    \<and> same_nicks (without (users_in st n is) (n_recs st)) (n_recs st')"
  using assms
proof (induction "is" arbitrary: st)
  case Nil
  have "without (users_in st n []) (n_recs st) = n_recs st" by (simp add: users_in_def without_def)
  then show ?case using Nil same_nicks_refl by simp
next
  case (Cons i "is")
  then obtain t where t: "n_servernicks st n = Some t" by blast
  note s = nick_invD(2) [OF Cons.prems(1)]
  have ti: "t i = slot_user st n i" using t by (simp add: slot_user_def)
  have one: "q \<in> users_in st n [i] \<longleftrightarrow> t i = Some q" for q
    unfolding ti slot_usersD(2) [OF s] by (simp add: users_in_def)
  obtain st1 where st1: "(case t i of None \<Rightarrow> Some st | Some r \<Rightarrow> deletenick r st) = Some st1" "nick_inv H st1"
    "n_serv st1 = n_serv st" "n_next st1 = n_next st" "\<forall>m. n_servernicks st1 m = None \<longleftrightarrow> n_servernicks st m = None"
    "same_nicks (without (users_in st n [i]) (n_recs st)) (n_recs st1)"
  proof (cases "t i")
    case None
    then have "without (users_in st n [i]) (n_recs st) = n_recs st" by (simp add: without_def one)
    then show thesis using that [of st] None Cons.prems(1) same_nicks_refl by simp
  next
    case (Some r)
    then obtain np where np: "n_recs st r = Some np" using slot_usersD(2) [OF s, of n i r] ti by auto
    have "without (users_in st n [i]) (n_recs st) = (n_recs st)(r := None)" using Some by (auto simp: without_def one)
    moreover obtain st1 where "deletenick r st = Some st1" "nick_inv H st1" "same_nicks ((n_recs st)(r := None)) (n_recs st1)"
      "n_serv st1 = n_serv st" "n_next st1 = n_next st" "\<forall>m. n_servernicks st1 m = None \<longleftrightarrow> n_servernicks st m = None"
      by (rule delete_inv [OF Cons.prems(1) np])
    ultimately show thesis using that [of st1] Some by simp
  qed
  have "n_servernicks st1 n \<noteq> None" using st1(5) Cons.prems(2) by simp
  from Cons.IH [OF st1(2) this] obtain st' where st': "delete_slots n is st1 = Some st'" "nick_inv H st'"
    "n_serv st' = n_serv st1" "n_next st' = n_next st1" "\<forall>m. n_servernicks st' m = None \<longleftrightarrow> n_servernicks st1 m = None"
    "same_nicks (without (users_in st1 n is) (n_recs st1)) (n_recs st')" by blast
  have h: "handle_slot st1 = handle_slot st" by (simp add: handle_slot_def st1(3) fun_eq_iff)
  have rest: "users_in st1 n is = users_in st n is - users_in st n [i]"
  proof -
    let ?st = "st\<lparr>n_recs := without (users_in st n [i]) (n_recs st)\<rparr>"
    have "users_in st1 n is = users_in ?st n is" by (rule users_in_same) (simp_all add: st1(3,6))
    also have "\<dots> = users_in st n is - users_in st n [i]"
      by (rule users_in_without)
    finally show ?thesis .
  qed
  have "users_in st n (i # is) = users_in st n is \<union> users_in st n [i]" by (auto simp: users_in_def)
  then have "without (users_in st n (i # is)) (n_recs st)
      = without (users_in st1 n is) (without (users_in st n [i]) (n_recs st))"
    unfolding rest without_without by (auto simp: without_def)
  then have "same_nicks (without (users_in st n (i # is)) (n_recs st)) (n_recs st')"
    using same_nicks_trans [OF same_nicks_without [OF st1(6)] st'(6)] by simp
  moreover have "delete_slots n (i # is) st = Some st'" using t st1(1) st'(1) by simp
  ultimately show ?case using st'(2-5) st1(3-5) by simp
qed

text \<open>The users of a server.\<close>

definition users_of :: "nickst \<Rightarrow> nat \<Rightarrow> nat set" where
  "users_of st n = {q. \<exists>nq. n_recs st q = Some nq \<and> homeserver (np_numeric nq) = n}"

lemma users_of_slots: "users_in st n [0..<Suc (nat (s_maxusernum (slist (n_serv st) n)))] = users_of st n"
proof -
  have "handle_slot st x < Suc (nat (s_maxusernum (slist (n_serv st) n)))" if "homeserver x = n" for x
    using handle_slot_le [of st x] that by simp
  then have "homeserver x = n \<and> handle_slot st x \<in> set [0..<Suc (nat (s_maxusernum (slist (n_serv st) n)))]
      \<longleftrightarrow> homeserver x = n" for x
    by (auto simp del: upt_Suc)
  then show ?thesis by (simp add: users_in_def users_of_def del: upt_Suc)
qed

lemma nick_inv_serv:
  assumes inv: "nick_inv H st"
    and same: "\<And>n. n < MAXSERVERS \<Longrightarrow> n_servernicks st' n = None \<longleftrightarrow> s_linkstate (slist (n_serv st') n) = LS_INVALID"
      "\<And>r np. n_recs st r = Some np \<Longrightarrow> s_maxusernum (slist (n_serv st') (homeserver (np_numeric np)))
         = s_maxusernum (slist (n_serv st) (homeserver (np_numeric np)))"
      "\<And>n i. slot_user st' n i = slot_user st n i"
    and st': "n_recs st' = n_recs st" "n_nicktable st' = n_nicktable st" "n_next st' = n_next st"
      "n_hosts st' = n_hosts st" "n_reals st' = n_reals st" "n_auths st' = n_auths st" "n_iptree st' = n_iptree st"
  shows "nick_inv H st'"
proof -
  have "table_users st'" by (rule table_users_same [OF nick_invD(1) [OF inv]]) (simp_all add: st')
  moreover have h: "handle_slot st' (np_numeric np) = handle_slot st (np_numeric np)" if "n_recs st r = Some np" for r np
    using same(2) [OF that] by (simp add: handle_slot_def)
  then have "slot_user st' n i = Some r \<longleftrightarrow>
      (\<exists>np. n_recs st' r = Some np \<and> homeserver (np_numeric np) = n \<and> handle_slot st' (np_numeric np) = i)" for n i r
    unfolding same(3) st'(1) slot_usersD(2) [OF nick_invD(2) [OF inv]] by auto
  then have "slot_users st'"
    unfolding slot_users_def using same(1) slot_usersD(3) [OF nick_invD(2) [OF inv]] st'(1) by simp
  moreover have "user_links H st' (n_recs st')"
    using nick_invD(4) [OF inv] by (simp add: user_links_tables [of st' st] st')
  ultimately show ?thesis using nick_invD(3,5) [OF inv] by (simp add: nick_inv_def st'(1))
qed

section \<open>The events of the server module\<close>

text \<open>The removal of a server, with the handler of its hook at the place of the hook.\<close>

definition lose_server :: "nat \<Rightarrow> nickst \<Rightarrow> nickst option" where
  "lose_server n st = do {
     st \<leftarrow> server_lost n (st\<lparr>n_serv := set_server n ((slist (n_serv st) n)\<lparr>s_linkstate := LS_SQUIT\<rparr>) (n_serv st)\<rparr>);
     Some (st\<lparr>n_serv := drop_server n (n_serv st)\<rparr>)
   }"

fun server_hook :: "server_event \<Rightarrow> nickst \<Rightarrow> nickst option" where
  "server_hook (ServerNew n) st = Some (server_added n st)"
| "server_hook (ServerLost n) st = lose_server n st"
| "server_hook _ st = Some st"

fun follow :: "server_event list \<Rightarrow> nickst \<Rightarrow> nickst option" where
  "follow [] st = Some st"
| "follow (e # es) st = do { st \<leftarrow> server_hook e st; follow es st }"

text \<open>The users after the server module has gone to the state \<open>sv\<close>.\<close>

definition after_servers :: "servst \<Rightarrow> nickst \<Rightarrow> nickst option" where
  "after_servers sv st = do {
     st \<leftarrow> follow (drop (length (s_trace (n_serv st))) (s_trace sv)) st;
     Some (st\<lparr>n_serv := sv\<rparr>)
   }"

lemma lose_server_ok:
  assumes inv: "nick_inv H st" and n: "n < MAXSERVERS" "s_linkstate (slist (n_serv st) n) \<noteq> LS_INVALID"
  obtains st' where "lose_server n st = Some st'" "nick_inv H st'" "n_serv st' = drop_server n (n_serv st)"
    "n_next st' = n_next st" "same_nicks (without (users_of st n) (n_recs st)) (n_recs st')"
proof -
  let ?s0 = "st\<lparr>n_serv := set_server n ((slist (n_serv st) n)\<lparr>s_linkstate := LS_SQUIT\<rparr>) (n_serv st)\<rparr>"
  have i0: "nick_inv H ?s0"
    by (rule nick_inv_serv [OF inv])
      (use n slot_usersD(1) [OF nick_invD(2) [OF inv]] in \<open>auto simp: set_server_def slot_user_def LS_SQUIT_def LS_INVALID_def\<close>)
  have "n_servernicks ?s0 n \<noteq> None" using slot_usersD(1) [OF nick_invD(2) [OF inv] n(1)] n(2) by simp
  from delete_slots_ok [OF i0 this, of "[0..<Suc (nat (s_maxusernum (slist (n_serv ?s0) n)))]"] obtain st1 where st1:
    "delete_slots n [0..<Suc (nat (s_maxusernum (slist (n_serv ?s0) n)))] ?s0 = Some st1" "nick_inv H st1"
    "n_serv st1 = n_serv ?s0" "n_next st1 = n_next st" "\<forall>m. n_servernicks st1 m = None \<longleftrightarrow> n_servernicks st m = None"
    "same_nicks (without (users_of ?s0 n) (n_recs st)) (n_recs st1)" unfolding users_of_slots by (auto simp del: upt_Suc)
  have u: "users_of ?s0 n = users_of st n" by (simp add: users_of_def)
  let ?st' = "st1\<lparr>n_servernicks := (n_servernicks st1)(n := None), n_serv := drop_server n (n_serv st1)\<rparr>"
  have e: "lose_server n st = Some ?st'" using st1(1,3) by (simp add: lose_server_def server_lost_def)
  have serv: "n_serv ?st' = drop_server n (n_serv st)"
    using st1(3) by (simp add: drop_server_def set_server_def signal_def Let_def)
  have gone: "homeserver (np_numeric np) \<noteq> n" if live: "n_recs st1 r = Some np" for r np
  proof
    assume h: "homeserver (np_numeric np) = n"
    obtain n0 where n0: "without (users_of st n) (n_recs st) r = Some n0" "uncloaked n0 = uncloaked np"
      by (rule same_nicks_live [OF same_nicks_sym [OF st1(6) [unfolded u]] live])
    have "n_recs st r = Some n0" "r \<notin> users_of st n" using n0(1) by (auto simp: without_def split: if_splits)
    then show False using h uncloaked_fields(2) [OF n0(2)] by (auto simp: users_of_def)
  qed
  have "nick_inv H ?st'"
  proof (rule nick_inv_serv [OF st1(2)])
    show "n_servernicks ?st' m = None \<longleftrightarrow> s_linkstate (slist (n_serv ?st') m) = LS_INVALID" if "m < MAXSERVERS" for m
      using slot_usersD(1) [OF nick_invD(2) [OF st1(2)] that]
      by (auto simp: drop_server_slist no_server_def LS_INVALID_def)
    show "s_maxusernum (slist (n_serv ?st') (homeserver (np_numeric np))) = s_maxusernum (slist (n_serv st1) (homeserver (np_numeric np)))"
      if "n_recs st1 r = Some np" for r np
      using gone [OF that] by (simp add: drop_server_slist)
    show "slot_user ?st' m i = slot_user st1 m i" for m i
    proof (cases "m = n")
      case True
      have "slot_user st1 n i = None"
        using slot_usersD(2) [OF nick_invD(2) [OF st1(2)], of n i] gone by (cases "slot_user st1 n i") auto
      then show ?thesis using True by (simp add: slot_user_def)
    qed (simp add: slot_user_def)
  qed simp_all
  then show thesis using that [OF e] serv st1(4,6) u by simp
qed

lemma follow_append: "follow (es @ fs) st = Option.bind (follow es st) (follow fs)"
proof (induction es arbitrary: st)
  case (Cons e es)
  then show ?case by (cases "server_hook e st") simp_all
qed simp

fun quiet :: "server_event \<Rightarrow> bool" where
  "quiet (ServerNew n) = False"
| "quiet (ServerLost n) = False"
| "quiet _ = True"

lemma follow_quiet: "list_all quiet es \<Longrightarrow> follow es st = Some st"
proof (induction es)
  case (Cons e es)
  then show ?case by (cases e) simp_all
qed simp

definition losses :: "nat list \<Rightarrow> server_event list" where
  "losses L = concat (map (\<lambda>n. [ServerPreLost n, ServerLost n]) L)"

lemma users_of_same:
  assumes "same_nicks (without S (n_recs st)) (n_recs st')"
  shows "users_of st' n = users_of st n - S"
proof -
  have "(\<exists>nq. n_recs st' q = Some nq \<and> P (np_numeric nq)) \<longleftrightarrow> q \<notin> S \<and> (\<exists>nq. n_recs st q = Some nq \<and> P (np_numeric nq))" for q P
  proof -
    have "map_option np_numeric (n_recs st' q) = map_option np_numeric (without S (n_recs st) q)"
      by (rule same_nicks_map [OF assms]) (use uncloaked_fields(2) in blast)
    then show ?thesis unfolding without_def by (cases "n_recs st' q"; cases "n_recs st q") (auto split: if_splits)
  qed
  from this [where P = "\<lambda>x. homeserver x = n"] show ?thesis by (auto simp: users_of_def)
qed

lemma follow_losses:
  assumes "nick_inv H st" "distinct L" "\<forall>n \<in> set L. n < MAXSERVERS \<and> s_linkstate (slist (n_serv st) n) \<noteq> LS_INVALID"
  shows "\<exists>st'. follow (losses L) st = Some st' \<and> nick_inv H st' \<and> n_serv st' = drop_all L (n_serv st)
    \<and> n_next st' = n_next st \<and> same_nicks (without (\<Union>n \<in> set L. users_of st n) (n_recs st)) (n_recs st')"
  using assms
proof (induction L arbitrary: st)
  case Nil
  then show ?case using same_nicks_refl by (simp add: losses_def without_def)
next
  case (Cons n L)
  obtain st1 where st1: "lose_server n st = Some st1" "nick_inv H st1" "n_serv st1 = drop_server n (n_serv st)"
    "n_next st1 = n_next st" "same_nicks (without (users_of st n) (n_recs st)) (n_recs st1)"
    by (rule lose_server_ok [OF Cons.prems(1), of n]) (use Cons.prems(3) in auto)
  have "\<forall>m \<in> set L. m < MAXSERVERS \<and> s_linkstate (slist (n_serv st1) m) \<noteq> LS_INVALID"
    using Cons.prems(2,3) by (auto simp: st1(3) drop_server_slist)
  from Cons.IH [OF st1(2) _ this] obtain st' where st': "follow (losses L) st1 = Some st'" "nick_inv H st'"
    "n_serv st' = drop_all L (n_serv st1)" "n_next st' = n_next st1"
    "same_nicks (without (\<Union>n \<in> set L. users_of st1 n) (n_recs st1)) (n_recs st')" using Cons.prems(2) by auto
  have "without (\<Union>m \<in> set (n # L). users_of st m) (n_recs st)
      = without (\<Union>m \<in> set L. users_of st1 m) (without (users_of st n) (n_recs st))"
    unfolding users_of_same [OF st1(5)] without_without by (auto simp: without_def)
  then have "same_nicks (without (\<Union>m \<in> set (n # L). users_of st m) (n_recs st)) (n_recs st')"
    using same_nicks_trans [OF same_nicks_without [OF st1(5)] st'(5)] by simp
  moreover have "follow (losses (n # L)) st = Some st'" using st1(1) st'(1) by (simp add: losses_def)
  ultimately show ?case using st'(2-4) st1(3,4) by simp
qed

end
