(* ===== verification/NickReach.thy ===== *)
theory NickReach
  imports NickSplit
begin

text \<open>
  The runs of the users and the servers together: the messages about users, and the steps of
  the server module with the hooks that follow them. What holds in every state they reach.
\<close>

section \<open>What a step of the servers does\<close>

definition serv_links :: "servst \<Rightarrow> bool" where
  "serv_links sv \<longleftrightarrow> (\<forall>n < MAXSERVERS. s_name (slist sv n) = None \<longleftrightarrow> s_linkstate (slist sv n) = LS_INVALID)"

text \<open>Two slots that are the same for the users.\<close>

definition like_slot :: "servrec \<Rightarrow> servrec \<Rightarrow> bool" where
  "like_slot s s' \<longleftrightarrow> (s_name s = None \<longleftrightarrow> s_name s' = None) \<and> s_maxusernum s = s_maxusernum s'
     \<and> (s_linkstate s = LS_INVALID \<longleftrightarrow> s_linkstate s' = LS_INVALID)"

lemma like_slot_simps [simp]: "like_slot s s" "like_slot (s\<lparr>s_marker := m\<rparr>) s"
  by (simp_all add: like_slot_def)

definition lost_effect :: "servst \<Rightarrow> servst \<Rightarrow> nat list \<Rightarrow> bool" where
  "lost_effect sv0 sv L \<longleftrightarrow> (\<exists>pre post. s_trace sv = s_trace sv0 @ pre @ losses L @ post \<and> list_all quiet pre \<and> list_all quiet post)
     \<and> distinct L \<and> (\<forall>n \<in> set L. in_use sv0 n) \<and> (\<forall>n < MAXSERVERS. like_slot (slist sv n) (slist (drop_all L sv0) n))"

definition new_effect :: "servst \<Rightarrow> servst \<Rightarrow> nat \<Rightarrow> bool" where
  "new_effect sv0 sv n \<longleftrightarrow> (\<exists>pre. s_trace sv = s_trace sv0 @ pre @ [ServerNew n] \<and> list_all quiet pre)
     \<and> n < MAXSERVERS \<and> \<not> in_use sv0 n \<and> in_use sv n \<and> s_linkstate (slist sv n) \<noteq> LS_INVALID
     \<and> (\<forall>m. m \<noteq> n \<longrightarrow> slist sv m = slist sv0 m)"

lemma lost_effect_nil:
  assumes "s_trace sv = s_trace sv0 @ es" "list_all quiet es" "\<And>n. n < MAXSERVERS \<Longrightarrow> like_slot (slist sv n) (slist sv0 n)"
  shows "lost_effect sv0 sv []"
proof -
  have "\<exists>pre post. s_trace sv = s_trace sv0 @ pre @ losses [] @ post \<and> list_all quiet pre \<and> list_all quiet post"
    by (rule exI [of _ es], rule exI [of _ "[]"]) (simp add: assms losses_def)
  then show ?thesis using assms(3) by (simp add: lost_effect_def)
qed

lemma lost_effect_drop:
  assumes "distinct L" "\<forall>n \<in> set L. in_use sv0 n" "slist sv = slist (drop_all L sv0)"
    "s_trace sv = s_trace sv0 @ pre @ losses L @ post" "list_all quiet pre" "list_all quiet post"
  shows "lost_effect sv0 sv L"
  using assms unfolding lost_effect_def by auto

lemma deleteserver_effect:
  assumes "tree_ok me sv0" "n < MAXSERVERS"
  obtains L where "deleteserver n sv0 = Some (drop_all L sv0)" "distinct L" "\<forall>m \<in> set L. in_use sv0 m"
    "set L = (if in_use sv0 n then behind sv0 n else {})"
proof (cases "in_use sv0 n")
  case True
  obtain L where L: "deleteserver n sv0 = Some (drop_all L sv0)" "leaves_first sv0 L" "set L = behind sv0 n"
    using deleteserver_ok [OF tree_acyclic [OF assms(1)] True] by blast
  have "in_use sv0 m" if "m \<in> behind sv0 n" for m
    using that True by (auto simp: behind_def uplink_def elim: converse_rtranclE)
  then show thesis using that [OF L(1)] leaves_first_distinct [OF L(2)] L(3) True by simp
next
  case False
  then have "deleteserver n sv0 = Some (drop_all [] sv0)" using assms(2) by (simp add: deleteserver_def in_use_def)
  then show thesis using that [of "[]"] False by simp
qed

lemma drop_all_losses: "s_trace (drop_all L sv) = s_trace sv @ losses L"
  by (simp add: drop_all_trace losses_def)

lemma drop_all_like: "slist sv = slist sv' \<Longrightarrow> slist (drop_all L sv) = slist (drop_all L sv')"
  by (simp add: drop_all_slist fun_eq_iff)

lemma link_all_trace: "s_trace (link_all L sv) = s_trace sv @ map ServerLinked L"
  by (induction L arbitrary: sv) (simp_all add: linked_def set_server_def signal_def)

lemma disconnect_effect:
  assumes "tree_ok me sv0" "myhub sv0 < int MAXSERVERS" "irc_disconnected sv0 = Some sv"
  shows "\<exists>L. lost_effect sv0 sv L"
proof (cases "connected sv0 \<and> myhub sv0 \<ge> 0")
  case True
  let ?s = "signal [IrcDisconnected] (sv0\<lparr>connected := False\<rparr>)"
  have s: "slist ?s = slist sv0" "s_trace ?s = s_trace sv0 @ [IrcDisconnected]" "in_use ?s = in_use sv0"
    by (simp_all add: signal_def in_use_def fun_eq_iff)
  have t: "tree_ok me ?s" using assms(1) s(1) by (rule tree_slist)
  have hub: "nat (myhub sv0) < MAXSERVERS" using assms(2) True by linarith
  obtain L where L: "deleteserver (nat (myhub sv0)) ?s = Some (drop_all L ?s)" "distinct L" "\<forall>m \<in> set L. in_use ?s m"
    by (rule deleteserver_effect [OF t hub])
  have "myhub ?s = myhub sv0" by (simp add: signal_def)
  then have sv: "sv = (drop_all L ?s)\<lparr>myhub := - 1\<rparr>"
    using assms(3) True L(1) by (simp add: irc_disconnected_def handledisconnect_def)
  have "lost_effect sv0 sv L"
    by (rule lost_effect_drop [where pre = "[IrcDisconnected]" and post = "[]"])
      (use L(2,3) drop_all_like [OF s(1), of L] in \<open>simp_all add: sv s drop_all_losses\<close>)
  then show ?thesis by blast
next
  case False
  then have "sv = sv0 \<or> sv = signal [IrcDisconnected] (sv0\<lparr>connected := False\<rparr>)"
    using assms(3) by (auto simp: irc_disconnected_def handledisconnect_def signal_def split: if_splits)
  then have "lost_effect sv0 sv []"
    by (elim disjE) (rule lost_effect_nil [where es = "[]"] lost_effect_nil [where es = "[IrcDisconnected]"]; simp add: signal_def)+
  then show ?thesis by blast
qed

lemma introduced_effect:
  assumes "from_server me source sv0" "handleservermsg me source cargv sv0 = Some sv"
  shows "lost_effect sv0 sv [] \<or> (\<exists>n. new_effect sv0 sv n)"
proof -
  obtain sn where sn: "numerictolong (cargv ! 5) 2 = Some sn"
    using assms(2) by (auto simp: handleservermsg_def bind_eq_Some_conv split: if_splits)
  have n: "nat sn < MAXSERVERS" using numeric2_bound [OF sn] by linarith
  show ?thesis
  proof (cases "s_name (slist sv0 (nat sn)) = None")
    case False
    then have "sv = sv0" using assms(2) sn by (auto simp: handleservermsg_def split: if_splits)
    then show ?thesis using lost_effect_nil [of sv0 sv0 "[]"] by simp
  next
    case True
    obtain maxn parent pre h where sv: "sv = signal [ServerNew (nat sn)]
        (set_server (nat sn) (new_server cargv maxn parent (slist sv0 (nat sn))) (signal pre (sv0\<lparr>myhub := h\<rparr>)))"
      "list_all quiet pre"
    proof (cases "take 4 source = ''INIT''")
      case init: True
      obtain maxn where "numerictolong (drop 2 (cargv ! 5)) 3 = Some maxn"
        using assms(2) sn True by (auto simp: handleservermsg_def bind_eq_Some_conv Let_def split: if_splits)
      then show thesis
        by (intro that [where maxn = maxn and pre = "[SendBurst, SendEB, IrcConnected]" and h = "int (nat sn)" and parent = "int me"])
          (use assms(2) sn True init in
            \<open>auto simp: handleservermsg_def bind_eq_Some_conv Let_def split: if_splits\<close>)
    next
      case other: False
      have "signal [] (sv0\<lparr>myhub := myhub sv0\<rparr>) = sv0" by (simp add: signal_def)
      then show thesis
        using assms(2) sn True other that [where pre = "[]" and h = "myhub sv0"]
        by (auto simp: handleservermsg_def bind_eq_Some_conv Let_def split: if_splits)
    qed
    have "new_effect sv0 sv (nat sn)"
      unfolding new_effect_def sv
      using n True sv(2) new_server_fields(1)
      by (auto simp: signal_def set_server_def in_use_def new_server_def LS_LINKING_def LS_PLINKING_def LS_INVALID_def)
    then show ?thesis by blast
  qed
qed

lemma server_step_effect:
  assumes "server_step me sv0 sv" "server_inv me sv0" "serv_links sv0"
  shows "(\<exists>L. lost_effect sv0 sv L) \<or> (\<exists>n. new_effect sv0 sv n)"
proof -
  have t: "tree_ok me sv0" "myhub sv0 < int MAXSERVERS" using assms(2) by (simp_all add: server_inv_def)
  show ?thesis
    using assms(1)
  proof cases
    case introduced
    then show ?thesis using introduced_effect by blast
  next
    case (burst_ended source)
    then obtain sn st1 where sn: "numerictolong source 2 = Some sn" "completelink (nat sn) sv0 = Some st1"
      and st': "sv = signal [SendEA, ServerEndOfBurst] st1 \<or> sv = st1"
      by (auto simp: handleeobmsg_def bind_eq_Some_conv split: if_splits)
    have n: "nat sn < MAXSERVERS" using numeric2_bound [OF sn(1)] by linarith
    obtain L where L: "st1 = link_all L sv0" "\<forall>m \<in> set L. in_use sv0 m"
    proof (cases "in_use sv0 (nat sn)")
      case True
      obtain L where L: "completelink (nat sn) sv0 = Some (link_all L sv0)" "set L = waiting sv0 (nat sn)"
        using completelink_ok [OF tree_acyclic [OF t(1)] True] by blast
      have "in_use sv0 m" if "m \<in> behind sv0 (nat sn)" for m
        using that True by (auto simp: behind_def uplink_def elim: converse_rtranclE)
      then have "\<forall>m \<in> set L. in_use sv0 m" using L(2) waiting_behind by blast
      then show thesis using that [of L] L(1) sn(2) by simp
    next
      case False
      then show thesis using that [of "[]"] sn(2) n by (simp add: completelink_def in_use_def)
    qed
    obtain es where es: "s_trace sv = s_trace sv0 @ map ServerLinked L @ es" "list_all quiet es" "slist sv = slist (link_all L sv0)"
      using st' that [of "[]"] that [of "[SendEA, ServerEndOfBurst]"] by (auto simp: L(1) link_all_trace signal_def)
    have "like_slot (slist sv n) (slist sv0 n)" if n: "n < MAXSERVERS" for n
    proof (cases "n \<in> set L")
      case True
      then have "s_name (slist sv0 n) \<noteq> None" using L(2) by (simp add: in_use_def)
      then have "s_linkstate (slist sv0 n) \<noteq> LS_INVALID" using assms(3) [unfolded serv_links_def, rule_format, OF n] by simp
      then show ?thesis using True by (simp add: es(3) link_all_slist like_slot_def LS_LINKED_def LS_INVALID_def)
    qed (simp add: es(3) link_all_slist)
    then have "lost_effect sv0 sv []" using es(1,2) by (intro lost_effect_nil [where es = "map ServerLinked L @ es"]) (auto simp: list_all_iff)
    then show ?thesis by blast
  next
    case (split_off cargv)
    show ?thesis
    proof (cases "findserver (cargv ! 0) sv0")
      case None
      then have "sv = sv0" using split_off by (auto simp: handlesquitmsg_def split: if_splits)
      then show ?thesis using lost_effect_nil [of sv0 sv0 "[]"] by auto
    next
      case (Some n)
      then have n: "n < MAXSERVERS" using findserver_in_use by (auto simp: in_use_def)
      have "irc_disconnected sv0 = Some sv \<or> deleteserver n sv0 = Some sv"
        using split_off Some by (auto simp: handlesquitmsg_def split: if_splits)
      then show ?thesis
      proof
        assume "irc_disconnected sv0 = Some sv"
        then show ?thesis using disconnect_effect [OF t] by blast
      next
        assume d: "deleteserver n sv0 = Some sv"
        obtain L where L: "deleteserver n sv0 = Some (drop_all L sv0)" "distinct L" "\<forall>m \<in> set L. in_use sv0 m"
          by (rule deleteserver_effect [OF t(1) n])
        then have "lost_effect sv0 sv L"
          using d by (intro lost_effect_drop [where pre = "[]" and post = "[]"]) (simp_all add: drop_all_losses)
        then show ?thesis by blast
      qed
    qed
  next
    case link_lost
    then show ?thesis using disconnect_effect [OF t] by blast
  next
    case link_up
    then have "lost_effect sv0 sv []" by (intro lost_effect_nil [where es = "[]"]) simp_all
    then show ?thesis by blast
  next
    case (marked m)
    then have "lost_effect sv0 sv []"
      by (intro lost_effect_nil [where es = "[]"]) (auto simp: nextservermarker_def Let_def split: if_splits)
    then show ?thesis by blast
  qed
qed

lemma after_lost:
  assumes inv: "nick_inv H st" "serv_links (n_serv st)" and e: "lost_effect (n_serv st) sv L"
  obtains st' where "after_servers sv st = Some st'" "nick_inv H st'" "n_serv st' = sv" "serv_links sv"
    "n_next st' = n_next st" "same_nicks (without (\<Union>n \<in> set L. users_of st n) (n_recs st)) (n_recs st')"
proof -
  obtain pre post where tr: "s_trace sv = s_trace (n_serv st) @ pre @ losses L @ post" "list_all quiet pre" "list_all quiet post"
    using e by (auto simp: lost_effect_def)
  have L: "distinct L" "\<forall>n \<in> set L. in_use (n_serv st) n"
    "\<And>n. n < MAXSERVERS \<Longrightarrow> like_slot (slist sv n) (slist (drop_all L (n_serv st)) n)"
    using e by (auto simp: lost_effect_def)
  have "\<forall>n \<in> set L. n < MAXSERVERS \<and> s_linkstate (slist (n_serv st) n) \<noteq> LS_INVALID"
    using L(2) inv(2) unfolding in_use_def serv_links_def by blast
  from follow_losses [OF inv(1) L(1) this] obtain st1 where st1: "follow (losses L) st = Some st1" "nick_inv H st1"
    "n_serv st1 = drop_all L (n_serv st)" "n_next st1 = n_next st"
    "same_nicks (without (\<Union>n \<in> set L. users_of st n) (n_recs st)) (n_recs st1)" by blast
  have "after_servers sv st = Some (st1\<lparr>n_serv := sv\<rparr>)"
    using st1(1) by (simp add: after_servers_def tr(1) follow_append follow_quiet tr(2,3))
  moreover have "nick_inv H (st1\<lparr>n_serv := sv\<rparr>)"
  proof (rule nick_inv_serv [OF st1(2)])
    show "n_servernicks (st1\<lparr>n_serv := sv\<rparr>) n = None \<longleftrightarrow> s_linkstate (slist (n_serv (st1\<lparr>n_serv := sv\<rparr>)) n) = LS_INVALID"
      if "n < MAXSERVERS" for n
      using slot_usersD(1) [OF nick_invD(2) [OF st1(2)] that] L(3) [OF that] st1(3) by (simp add: like_slot_def)
    show "s_maxusernum (slist (n_serv (st1\<lparr>n_serv := sv\<rparr>)) (homeserver (np_numeric np)))
        = s_maxusernum (slist (n_serv st1) (homeserver (np_numeric np)))" for np
      using L(3) [OF homeserver_less [of "np_numeric np"]] st1(3) by (simp add: like_slot_def)
  qed (simp_all add: slot_user_def)
  moreover have "serv_links (drop_all L (n_serv st))"
    using inv(2) by (simp add: serv_links_def drop_all_slist no_server_def LS_INVALID_def)
  then have "serv_links sv" using L(3) by (auto simp: serv_links_def like_slot_def)
  ultimately show thesis using that [of "st1\<lparr>n_serv := sv\<rparr>"] st1(4,5) by simp
qed

lemma after_new:
  assumes inv: "nick_inv H st" "serv_links (n_serv st)" and e: "new_effect (n_serv st) sv n"
  obtains st' where "after_servers sv st = Some st'" "nick_inv H st'" "n_serv st' = sv" "serv_links sv" "n_recs st' = n_recs st" "n_next st' = n_next st"
proof -
  obtain pre where tr: "s_trace sv = s_trace (n_serv st) @ pre @ [ServerNew n]" "list_all quiet pre"
    using e by (auto simp: new_effect_def)
  have n: "n < MAXSERVERS" "\<not> in_use (n_serv st) n" "in_use sv n" "s_linkstate (slist sv n) \<noteq> LS_INVALID"
    "\<And>m. m \<noteq> n \<Longrightarrow> slist sv m = slist (n_serv st) m"
    using e by (auto simp: new_effect_def)
  let ?st = "server_added n st\<lparr>n_serv := sv\<rparr>"
  have unused: "s_linkstate (slist (n_serv st) n) = LS_INVALID" using n(1,2) inv(2) by (simp add: in_use_def serv_links_def)
  have "n_servernicks st n = None" using slot_usersD(1) [OF nick_invD(2) [OF inv(1)] n(1)] unused by simp
  then have empty: "slot_user st n i = None" for i by (simp add: slot_user_def)
  have not_here: "homeserver (np_numeric np) \<noteq> n" if "n_recs st r = Some np" for r np
    using live_handle(1) [OF nick_invD(2) [OF inv(1)] that] empty by auto
  have "after_servers sv st = Some ?st"
    by (simp add: after_servers_def tr(1) follow_append follow_quiet tr(2))
  moreover have "nick_inv H ?st"
  proof (rule nick_inv_serv [OF inv(1)])
    show "n_servernicks ?st m = None \<longleftrightarrow> s_linkstate (slist (n_serv ?st) m) = LS_INVALID" if "m < MAXSERVERS" for m
      using slot_usersD(1) [OF nick_invD(2) [OF inv(1)] that] n(4) n(5) [of m] by (cases "m = n") (simp_all add: server_added_def)
    show "s_maxusernum (slist (n_serv ?st) (homeserver (np_numeric np))) = s_maxusernum (slist (n_serv st) (homeserver (np_numeric np)))"
      if "n_recs st r = Some np" for r np
      using n(5) [OF not_here [OF that]] by simp
    show "slot_user ?st m i = slot_user st m i" for m i
      using empty by (cases "m = n") (simp_all add: slot_user_def server_added_def)
  qed (simp_all add: server_added_def)
  moreover have "serv_links sv"
    unfolding serv_links_def
  proof (intro allI impI)
    fix m assume "m < MAXSERVERS"
    then show "s_name (slist sv m) = None \<longleftrightarrow> s_linkstate (slist sv m) = LS_INVALID"
      using n(3,4) n(5) [of m] inv(2) by (cases "m = n") (simp_all add: in_use_def serv_links_def)
  qed
  ultimately show thesis using that [of ?st] by (simp add: server_added_def)
qed

section \<open>Runs\<close>

text \<open>The module starts with our own server; accounts and address nodes can be there already.\<close>

definition nick_init :: "nat \<Rightarrow> servst \<Rightarrow> authtab \<Rightarrow> ptree \<Rightarrow> nickst" where
  "nick_init me sv auths iptree =
     server_added me \<lparr>n_serv = sv, n_servernicks = (\<lambda>_. None), n_nicktable = (\<lambda>_. []), n_recs = Map.empty, n_next = 0,
       n_hosts = init_nametab, n_reals = init_nametab, n_auths = auths, n_iptree = iptree,
       n_extnames = replicate MAXNICKEXTS None, n_marker = 0, n_trace = []\<rparr>"

text \<open>The messages about users, with what the protocol promises of their arguments.\<close>

datatype user_msg =
  MsgNick "string \<times> string" string "string list"
| MsgQuit string "string list"
| MsgKill "string list"
| MsgMode string "string list"
| MsgAccount "string list"
| MsgAway string "string list"
| MsgPriv string string "string list"
| MsgAddCloak string "string list"
| MsgClearCloak string

fun run_msg :: "user_msg \<Rightarrow> nickst \<Rightarrow> nickst option" where
  "run_msg (MsgNick mem source cargv) st = handlenickmsg mem source cargv st"
| "run_msg (MsgQuit source cargv) st = handlequitmsg source cargv st"
| "run_msg (MsgKill cargv) st = handlekillmsg cargv st"
| "run_msg (MsgMode source cargv) st = handleusermodemsg source cargv st"
| "run_msg (MsgAccount cargv) st = handleaccountmsg cargv st"
| "run_msg (MsgAway source cargv) st = handleawaymsg source cargv st"
| "run_msg (MsgPriv myserver source cargv) st = handleprivmsg myserver source cargv st"
| "run_msg (MsgAddCloak source cargv) st = handleaddcloak source cargv st"
| "run_msg (MsgClearCloak source) st = handleclearcloak source st"

fun msg_ok :: "user_msg \<Rightarrow> nickst \<Rightarrow> bool" where
  "msg_ok (MsgNick mem source cargv) st \<longleftrightarrow>
     (if length cargv = 2 then numeric_str source \<and> cstring (cargv ! 0) \<and> length (cargv ! 0) \<le> NICKLEN
      else newnick_args_ok cargv \<and> 0 \<le> myhub (n_serv st))"
| "msg_ok (MsgQuit source cargv) st \<longleftrightarrow> numeric_str source"
| "msg_ok (MsgKill cargv) st \<longleftrightarrow> cargv = [] \<or> numeric_str (cargv ! 0)"
| "msg_ok (MsgMode source cargv) st \<longleftrightarrow> numeric_str source \<and> mode_args_ok source cargv st"
| "msg_ok (MsgAccount cargv) st \<longleftrightarrow> length cargv < 4 \<or> numeric_str (cargv ! 0) \<and> cstring (cargv ! 1)"
| "msg_ok (MsgAway source cargv) st \<longleftrightarrow> numeric_str source"
| "msg_ok (MsgPriv myserver source cargv) st \<longleftrightarrow> length cargv < 2 \<or> deref (cargv ! 0) \<noteq> CHR ''$'' \<or> numeric_str source"
| "msg_ok (MsgAddCloak source cargv) st \<longleftrightarrow> numeric_str source \<and> (cargv = [] \<or> numeric_str (cargv ! 0))"
| "msg_ok (MsgClearCloak source) st \<longleftrightarrow> numeric_str source"

inductive nick_reach :: "nat \<Rightarrow> (irc_in_addr \<times> nat \<times> nat) multiset \<Rightarrow> nickst \<Rightarrow> bool"
  for me :: nat and H :: "(irc_in_addr \<times> nat \<times> nat) multiset" where
  nick_started: "me < MAXSERVERS \<Longrightarrow> account_users auths Map.empty \<Longrightarrow> trie_users iptree Map.empty H
    \<Longrightarrow> nick_reach me H (nick_init me (server_init me name description now) auths iptree)"
| nick_message: "nick_reach me H st \<Longrightarrow> msg_ok m st \<Longrightarrow> run_msg m st = Some st' \<Longrightarrow> nick_reach me H st'"
| nick_servers: "nick_reach me H st \<Longrightarrow> server_step me (n_serv st) sv \<Longrightarrow> after_servers sv st = Some st' \<Longrightarrow> nick_reach me H st'"
| nick_ext_taken: "nick_reach me H st \<Longrightarrow> registernickext name st = (i, st') \<Longrightarrow> nick_reach me H st'"
| nick_ext_left: "nick_reach me H st \<Longrightarrow> releasenickext index st = Some st' \<Longrightarrow> nick_reach me H st'"
| nick_marked: "nick_reach me H st \<Longrightarrow> nextnickmarker st = (mark, st') \<Longrightarrow> nick_reach me H st'"

definition run_inv :: "nat \<Rightarrow> (irc_in_addr \<times> nat \<times> nat) multiset \<Rightarrow> nickst \<Rightarrow> bool" where
  "run_inv me H st \<longleftrightarrow> nick_inv H st \<and> server_inv me (n_serv st) \<and> serv_links (n_serv st)"

lemma user_msg_handled:
  assumes inv: "nick_inv H st" and ok: "msg_ok m st"
  shows "handled H st (run_msg m st)"
proof (cases m)
  case (MsgNick mem source cargv)
  show ?thesis
  proof (cases "length cargv = 2")
    case True
    then obtain name t where cargv: "cargv = [name, t]" by (auto simp: length_Suc_conv numeral_2_eq_2)
    have a: "numeric_str source" "cstring name" "length name \<le> NICKLEN" using ok MsgNick cargv by simp_all
    obtain y where y: "getnickbynumericstr source st = Some y"
      "\<And>r. y = Some r \<Longrightarrow> \<exists>np. n_recs st r = Some np \<and> numerictolong source 5 = Some (int (np_numeric np))"
      using getnickbynumericstr_ok [OF nick_invD(2) [OF inv] a(1)] by metis
    show ?thesis
    proof (cases y)
      case None
      then show ?thesis using MsgNick cargv y(1) inv by (simp add: handlenickmsg_def handle_rename_def Let_def)
    next
      case (Some r)
      then obtain np where r: "n_recs st r = Some np" "numerictolong source 5 = Some (int (np_numeric np))" using y(2) by blast
      obtain st' where "handle_rename source [name, t] st = Some st'" "nick_inv H st'" "n_serv st' = n_serv st"
        by (rule rename_ok [OF inv a r])
      then show ?thesis using MsgNick cargv by (simp add: handlenickmsg_def handled_def)
    qed
  next
    case False
    then have a: "newnick_args_ok cargv" "0 \<le> myhub (n_serv st)" using ok MsgNick by simp_all
    obtain x where x: "numerictolong (cargv ! (length cargv - 2)) 5 = Some x"
      using a(1) by (auto simp: newnick_args_ok_def numeric_str_def)
    then have "numerictolong (cargv ! (length cargv - 2)) 5 = Some (int (nat x))" using numeric5_bound [OF x] by simp
    from newnick_ok [OF inv a this, of mem] obtain st' where "handle_newnick mem cargv st = Some st'" "nick_inv H st'"
      "n_serv st' = n_serv st" by metis
    moreover have "8 \<le> length cargv" using a(1) by (simp add: newnick_args_ok_def)
    ultimately show ?thesis using MsgNick False by (simp add: handlenickmsg_def handled_def)
  qed
qed (use ok in \<open>simp_all add: quit_handled [OF inv] kill_handled [OF inv] mode_handled [OF inv]
  account_handled [OF inv] away_handled [OF inv] priv_handled [OF inv] addcloak_handled [OF inv] clearcloak_handled [OF inv]\<close>)

lemma after_servers_ok:
  assumes "run_inv me H st" "server_step me (n_serv st) sv"
  obtains st' where "after_servers sv st = Some st'" "run_inv me H st'" "n_serv st' = sv"
proof -
  have i: "nick_inv H st" "server_inv me (n_serv st)" "serv_links (n_serv st)" using assms(1) by (simp_all add: run_inv_def)
  have sv: "server_inv me sv" by (rule server_step_inv [OF assms(2) i(2)])
  from server_step_effect [OF assms(2) i(2,3)] show thesis
  proof (elim disjE exE)
    fix L assume "lost_effect (n_serv st) sv L"
    from after_lost [OF i(1,3) this] show thesis using that sv by (metis run_inv_def)
  next
    fix n assume "new_effect (n_serv st) sv n"
    from after_new [OF i(1,3) this] show thesis using that sv by (metis run_inv_def)
  qed
qed

lemma init_links: "serv_links (server_init me name description now)"
  by (simp add: serv_links_def server_init_def no_server_def LS_INVALID_def LS_LINKED_def)

lemma init_names: "hash = hosthash \<and> norm = map ToLower \<or> hash = realnamehash \<and> norm = (\<lambda>n. n)
    \<Longrightarrow> name_users hash norm init_nametab Map.empty"
  by (auto simp: name_users_def nametab_ok_def init_nametab_def chains_def name_chain_def)

lemma nick_init_inv:
  assumes "me < MAXSERVERS" "account_users auths Map.empty" "trie_users iptree Map.empty H"
  shows "run_inv me H (nick_init me (server_init me name description now) auths iptree)"
proof -
  let ?st = "nick_init me (server_init me name description now) auths iptree"
  have empty: "n_recs ?st = Map.empty" by (simp add: nick_init_def server_added_def)
  have "table_users ?st" by (simp add: table_users_def empty chains_def nick_init_def server_added_def)
  moreover have "slot_users ?st"
    using assms(1) by (auto simp: slot_users_def slot_user_def nick_init_def server_added_def server_init_def
      no_server_def LS_INVALID_def LS_LINKED_def)
  moreover have "cloaks_ok (n_recs ?st)" by (simp add: empty cloaks_ok_def cloak_of_def cloak_count_def)
  moreover have "user_links H ?st (n_recs ?st)"
    using assms(2,3) init_names by (simp add: user_links_def empty) (simp add: nick_init_def server_added_def)
  ultimately have "nick_inv H ?st" by (simp add: nick_inv_def empty)
  then show ?thesis using init_inv [OF assms(1)] init_links by (simp add: run_inv_def nick_init_def server_added_def)
qed

lemma nick_reach_inv: "nick_reach me H st \<Longrightarrow> run_inv me H st"
proof (induction rule: nick_reach.induct)
  case (nick_message st m st')
  then have "handled H st (Some st')" using user_msg_handled [of H st m] by (simp add: run_inv_def)
  then show ?case using nick_message by (simp add: run_inv_def handled_def)
next
  case (nick_servers st sv st')
  then show ?case using after_servers_ok by (metis option.inject)
next
  case (nick_ext_taken st name i st')
  then show ?case using registernickext_inv by (metis run_inv_def)
next
  case (nick_ext_left st i st')
  then show ?case using releasenickext_inv by (metis run_inv_def)
next
  case (nick_marked st m st')
  then show ?case using nextnickmarker_inv by (metis run_inv_def)
qed (rule nick_init_inv)

section \<open>What the runs guarantee\<close>

lemma chain_users:
  assumes "chains tab K" "c = int (length (tab b))"
  shows "set (tab b) = {r. K r = Some b}" "c = int (card {r. K r = Some b})"
proof -
  show s: "set (tab b) = {r. K r = Some b}" using chains_in [OF assms(1)] by auto
  have "distinct (tab b)" using assms(1) by (simp add: chains_def)
  then show "c = int (card {r. K r = Some b})" using assms(2) s distinct_card by fastforce
qed

lemma name_users_live:
  assumes "name_users hash norm tab (\<lambda>r. map_option f (U r))" "nt_recs tab hp = Some h"
  shows "set (hr_nicks h) = {r. \<exists>np. U r = Some np \<and> f np = hp} \<and> hr_count h = int (card {r. \<exists>np. U r = Some np \<and> f np = hp})"
proof -
  have c: "chains (name_chain tab) (\<lambda>r. map_option f (U r))" "hr_count h = int (length (name_chain tab hp))"
    "name_chain tab hp = hr_nicks h"
    using assms by (auto simp: name_users_def name_chain_def)
  show ?thesis using chain_users [OF c(1,2)] by (simp add: c(3) map_option_eq_Some)
qed

lemma account_users_live:
  assumes "account_users tab (\<lambda>r. Option.bind (U r) np_auth)" "au_recs tab a = Some ar"
  shows "set (an_nicks ar) = {r. \<exists>np. U r = Some np \<and> np_auth np = Some a}
    \<and> an_usercount ar = int (card {r. \<exists>np. U r = Some np \<and> np_auth np = Some a})"
proof -
  have c: "chains (account_chain tab) (\<lambda>r. Option.bind (U r) np_auth)" "an_usercount ar = int (length (account_chain tab a))"
    "account_chain tab a = an_nicks ar"
    using assms account_usersD [OF assms(1)] by (auto simp: account_chain_def)
  show ?thesis using chain_users [OF c(1,2)] by (simp add: c(3) bind_eq_Some_conv)
qed

text \<open>
  C2: in every state the messages and the servers reach, a lookup by nick, in any case, and a
  lookup by numeric find exactly the user that has it; the server of every user is known; the
  record of every host, real name and account lists exactly the users that have it, and counts
  them.
\<close>
theorem nick_registry:
  assumes "nick_reach me H st"
  shows "(\<forall>name. cstring name \<longrightarrow> (\<exists>x. getnickbynick name st = Some x \<and> (\<forall>r. x = Some r \<longleftrightarrow> r \<in> nick_holders st name)))
    \<and> (\<forall>s x. numerictolong s 5 = Some (int x) \<longrightarrow> (\<exists>y. getnickbynumericstr s st = Some y
          \<and> (\<forall>r. y = Some r \<longleftrightarrow> (\<exists>np. n_recs st r = Some np \<and> np_numeric np = x))))
    \<and> (\<forall>r np. n_recs st r = Some np \<longrightarrow> in_use (n_serv st) (homeserver (np_numeric np)))
    \<and> (\<forall>hp h. nt_recs (n_hosts st) hp = Some h \<longrightarrow> set (hr_nicks h) = {r. \<exists>np. n_recs st r = Some np \<and> np_host np = hp}
          \<and> hr_count h = int (card {r. \<exists>np. n_recs st r = Some np \<and> np_host np = hp}))
    \<and> (\<forall>rp h. nt_recs (n_reals st) rp = Some h \<longrightarrow> set (hr_nicks h) = {r. \<exists>np. n_recs st r = Some np \<and> np_realname np = rp}
          \<and> hr_count h = int (card {r. \<exists>np. n_recs st r = Some np \<and> np_realname np = rp}))
    \<and> (\<forall>a ar. au_recs (n_auths st) a = Some ar \<longrightarrow> set (an_nicks ar) = {r. \<exists>np. n_recs st r = Some np \<and> np_auth np = Some a}
          \<and> an_usercount ar = int (card {r. \<exists>np. n_recs st r = Some np \<and> np_auth np = Some a}))"
proof -
  have inv: "nick_inv H st" "serv_links (n_serv st)" using nick_reach_inv [OF assms] by (simp_all add: run_inv_def)
  note t = nick_invD(1) [OF inv(1)] and s = nick_invD(2) [OF inv(1)] and u = nick_invD(4) [OF inv(1)]
  have "\<exists>x. getnickbynick name st = Some x \<and> (\<forall>r. x = Some r \<longleftrightarrow> r \<in> nick_holders st name)" if name: "cstring name" for name
  proof -
    obtain x where "getnickbynick name st = Some x"
      "\<And>r. x = Some r \<longleftrightarrow> (\<exists>np. n_recs st r = Some np \<and> lower (np_nick np) = lower name)"
      by (rule getnickbynick_ok [OF t name]) (rule that)
    then show ?thesis by (simp add: nick_holders_def)
  qed
  moreover have "\<exists>y. getnickbynumericstr s st = Some y \<and> (\<forall>r. y = Some r \<longleftrightarrow> (\<exists>np. n_recs st r = Some np \<and> np_numeric np = x))"
    if x: "numerictolong s 5 = Some (int x)" for s x
  proof -
    have "x < 2 ^ 30" using numeric5_bound [OF x] by simp
    then obtain y where "nickbynumeric x st = Some y" "\<And>r. y = Some r \<longleftrightarrow> (\<exists>np. n_recs st r = Some np \<and> np_numeric np = x)"
      by (rule nickbynumeric_ok [OF s]) (rule that)
    then show ?thesis using x by (simp add: getnickbynumericstr_def)
  qed
  moreover have "in_use (n_serv st) (homeserver (np_numeric np))" if "n_recs st r = Some np" for r np
    using live_handle(2) [OF s that] homeserver_less [of "np_numeric np"] inv(2)
    unfolding in_use_def no_handle_def serv_links_def by blast
  moreover have "name_users hosthash (map ToLower) (n_hosts st) (\<lambda>r. map_option np_host (n_recs st r))"
    "name_users realnamehash (\<lambda>n. n) (n_reals st) (\<lambda>r. map_option np_realname (n_recs st r))"
    "account_users (n_auths st) (\<lambda>r. Option.bind (n_recs st r) np_auth)"
    using u unfolding user_links_def by blast+
  note c = name_users_live [OF this(1)] name_users_live [OF this(2)] account_users_live [OF this(3)]
  ultimately show ?thesis by (intro conjI allI impI) (simp_all add: c)
qed


text \<open>
  C11: who is gone after a collision. A new user with a known nick is refused when it comes from
  the same \<open>user@host\<close> and is not newer, or from another one and is newer; else the known user
  is gone, with a user that has the slot of its numeric. A rename to a nick of another user
  removes one of the two by the same rule, and the renamed user has the nick if it is left.
\<close>
theorem nick_collisions:
  assumes "nick_reach me H st"
  shows "(\<forall>mem source cargv x. newnick_args_ok cargv \<and> 0 \<le> myhub (n_serv st)
        \<and> numerictolong (cargv ! (length cargv - 2)) 5 = Some (int x) \<longrightarrow>
        (\<exists>st'. handlenickmsg mem source cargv st = Some st' \<and>
          (if refused st cargv then st' = st
           else if no_handle st x then dom (n_recs st') = dom (n_recs st) - nick_holders st (cargv ! 0)
           else dom (n_recs st') = insert (n_next st) (dom (n_recs st) - nick_holders st (cargv ! 0) - slot_holders st x)
             \<and> (\<exists>np. n_recs st' (n_next st) = Some np \<and> np_nick np = cargv ! 0 \<and> np_numeric np = x
                  \<and> np_ident np = take USERLEN (cargv ! 3) \<and> np_timestamp np = fst (strtol10 (cargv ! 2))))))
    \<and> (\<forall>mem sender name t r np. numeric_str sender \<and> cstring name \<and> length name \<le> NICKLEN \<and> n_recs st r = Some np
        \<and> numerictolong sender 5 = Some (int (np_numeric np)) \<longrightarrow>
        (\<exists>st'. handlenickmsg mem sender [name, t] st = Some st'
          \<and> (name_free st r name \<longrightarrow> dom (n_recs st') = dom (n_recs st))
          \<and> (\<forall>q nq. n_recs st q = Some nq \<and> lower (np_nick nq) = lower name \<and> q \<noteq> r \<longrightarrow>
               dom (n_recs st') = dom (n_recs st) -
                 {if loses (same_userhost np nq) (fst (strtol10 t)) (np_timestamp nq) then r else q})
          \<and> (\<forall>np'. n_recs st' r = Some np' \<longrightarrow> np_nick np' = name \<and> np_timestamp np' = fst (strtol10 t))))"
proof (intro conjI allI impI; elim conjE)
  have inv: "nick_inv H st" using nick_reach_inv [OF assms] by (simp add: run_inv_def)
  {
    fix mem source cargv x
    assume a: "newnick_args_ok cargv" "0 \<le> myhub (n_serv st)"
      and x: "numerictolong (cargv ! (length cargv - 2)) 5 = Some (int x)"
    obtain st' where "handle_newnick mem cargv st = Some st'" "refused st cargv \<longrightarrow> st' = st"
      "\<not> refused st cargv \<longrightarrow> no_handle st x \<longrightarrow> dom (n_recs st') = dom (n_recs st) - nick_holders st (cargv ! 0)"
      "\<not> refused st cargv \<longrightarrow> \<not> no_handle st x \<longrightarrow>
         dom (n_recs st') = insert (n_next st) (dom (n_recs st) - nick_holders st (cargv ! 0) - slot_holders st x)
         \<and> (\<exists>np. n_recs st' (n_next st) = Some np \<and> np_nick np = cargv ! 0 \<and> np_numeric np = x
            \<and> np_ident np = take USERLEN (cargv ! 3) \<and> np_timestamp np = fst (strtol10 (cargv ! 2)))"
      by (rule newnick_ok [OF inv a x])
    moreover have "handlenickmsg mem source cargv st = handle_newnick mem cargv st"
      using a(1) by (simp add: handlenickmsg_def newnick_args_ok_def)
    ultimately show "\<exists>st'. handlenickmsg mem source cargv st = Some st' \<and>
          (if refused st cargv then st' = st
           else if no_handle st x then dom (n_recs st') = dom (n_recs st) - nick_holders st (cargv ! 0)
           else dom (n_recs st') = insert (n_next st) (dom (n_recs st) - nick_holders st (cargv ! 0) - slot_holders st x)
             \<and> (\<exists>np. n_recs st' (n_next st) = Some np \<and> np_nick np = cargv ! 0 \<and> np_numeric np = x
                  \<and> np_ident np = take USERLEN (cargv ! 3) \<and> np_timestamp np = fst (strtol10 (cargv ! 2))))" by auto
  next
    fix mem sender name t r np
    assume a: "numeric_str sender" "cstring name" "length name \<le> NICKLEN"
      and r: "n_recs st r = Some np" "numerictolong sender 5 = Some (int (np_numeric np))"
    obtain st' where "handle_rename sender [name, t] st = Some st'" "nick_inv H st'" "n_serv st' = n_serv st"
      "\<And>q nq. n_recs st q = Some nq \<Longrightarrow> lower (np_nick nq) = lower name \<Longrightarrow> q \<noteq> r \<Longrightarrow>
         dom (n_recs st') = dom (n_recs st) -
           {if loses (same_userhost np nq) (fst (strtol10 t)) (np_timestamp nq) then r else q}"
      "name_free st r name \<Longrightarrow> dom (n_recs st') = dom (n_recs st)"
      "\<And>np'. n_recs st' r = Some np' \<Longrightarrow> np_nick np' = name \<and> np_timestamp np' = fst (strtol10 t)"
      by (rule rename_ok [OF inv a r, of t]) (rule that)
    then show "\<exists>st'. handlenickmsg mem sender [name, t] st = Some st'
          \<and> (name_free st r name \<longrightarrow> dom (n_recs st') = dom (n_recs st))
          \<and> (\<forall>q nq. n_recs st q = Some nq \<and> lower (np_nick nq) = lower name \<and> q \<noteq> r \<longrightarrow>
               dom (n_recs st') = dom (n_recs st) -
                 {if loses (same_userhost np nq) (fst (strtol10 t)) (np_timestamp nq) then r else q})
          \<and> (\<forall>np'. n_recs st' r = Some np' \<longrightarrow> np_nick np' = name \<and> np_timestamp np' = fst (strtol10 t))"
      by (simp add: handlenickmsg_def)
  }
qed

text \<open>
  C4: a split removes exactly the users of the server and of all servers behind it. Every other
  user keeps its record, but for the cloaks.
\<close>
theorem split_users:
  assumes "nick_reach me H st" "in_use (n_serv st) n"
  shows "\<exists>sv st'. deleteserver n (n_serv st) = Some sv \<and> after_servers sv st = Some st'
    \<and> dom (n_recs st') = {r. \<exists>np. n_recs st r = Some np \<and> homeserver (np_numeric np) \<notin> behind (n_serv st) n}
    \<and> (\<forall>r \<in> dom (n_recs st'). map_option uncloaked (n_recs st' r) = map_option uncloaked (n_recs st r))"
proof -
  have i: "nick_inv H st" "server_inv me (n_serv st)" "serv_links (n_serv st)"
    using nick_reach_inv [OF assms(1)] by (simp_all add: run_inv_def)
  have t: "tree_ok me (n_serv st)" using i(2) by (simp add: server_inv_def)
  have n: "n < MAXSERVERS" using assms(2) by (simp add: in_use_def)
  obtain L where L: "deleteserver n (n_serv st) = Some (drop_all L (n_serv st))" "distinct L" "\<forall>m \<in> set L. in_use (n_serv st) m"
    "set L = (if in_use (n_serv st) n then behind (n_serv st) n else {})"
    by (rule deleteserver_effect [OF t n])
  then have behind: "set L = behind (n_serv st) n" using assms(2) by simp
  have "lost_effect (n_serv st) (drop_all L (n_serv st)) L"
    using L(2,3) by (intro lost_effect_drop [where pre = "[]" and post = "[]"]) (simp_all add: drop_all_losses)
  then obtain st' where st': "after_servers (drop_all L (n_serv st)) st = Some st'"
    "same_nicks (without (\<Union>m \<in> set L. users_of st m) (n_recs st)) (n_recs st')"
    by (rule after_lost [OF i(1,3)])
  have d: "dom (n_recs st') = {r. \<exists>np. n_recs st r = Some np \<and> homeserver (np_numeric np) \<notin> behind (n_serv st) n}"
    unfolding same_nicks_dom [OF st'(2)] without_dom behind by (auto simp: users_of_def)
  have "map_option uncloaked (n_recs st' r) = map_option uncloaked (n_recs st r)" if "r \<in> dom (n_recs st')" for r
  proof -
    have "r \<notin> (\<Union>m \<in> set L. users_of st m)" using that unfolding same_nicks_dom [OF st'(2)] without_dom by blast
    then have "without (\<Union>m \<in> set L. users_of st m) (n_recs st) r = n_recs st r" by (simp add: without_def)
    then show ?thesis using st'(2) unfolding same_nicks_def by metis
  qed
  then show ?thesis using L(1) st'(1) d by blast
qed

section \<open>Witnesses\<close>

text \<open>A hub, and a user behind it.\<close>

definition demo_hub :: "string list" where
  "demo_hub = [''hub'', ''1'', ''0'', ''100'', ''J10'', ''ACAAD'', ''+h6'', ''A hub'']"
definition demo_bob :: "string list" where
  "demo_bob = [''Bob'', ''1'', ''100'', ''bob'', ''pc.example.org'', ''BAQIDB'', ''ACAAB'', ''Bob B'']"
definition demo_eve :: "string list" where
  "demo_eve = [''BOB'', ''1'', ''200'', ''eve'', ''pc.example.org'', ''BAQIDB'', ''ACAAC'', ''Eve E'']"

lemma demo_args: "newnick_args_ok demo_bob" "newnick_args_ok demo_eve"
  "numerictolong ''ACAAB'' 5 = Some (int 524289)" "numerictolong ''ACAAC'' 5 = Some (int 524290)"
  "homeserver 524289 = 2" "fst (strtol10 ''100'') = 100" "fst (strtol10 ''200'') = 200"
proof -
  have "numerictolong ''ACAAB'' 5 \<noteq> None" "numerictolong ''ACAAC'' 5 \<noteq> None" "base64toip ''BAQIDB'' \<noteq> None"
    by code_simp+
  then show "newnick_args_ok demo_bob" "newnick_args_ok demo_eve"
    by (simp_all add: newnick_args_ok_def demo_bob_def demo_eve_def numeric_str_def cstring_def NICKLEN_def)
next
  have "numerictolong ''ACAAB'' 5 = Some 524289" "numerictolong ''ACAAC'' 5 = Some 524290" by code_simp+
  then show "numerictolong ''ACAAB'' 5 = Some (int 524289)" "numerictolong ''ACAAC'' 5 = Some (int 524290)" by simp_all
next
  show "fst (strtol10 ''100'') = 100" "fst (strtol10 ''200'') = 200" by code_simp+
next
  show "homeserver 524289 = 2" by (simp add: homeserver_def drop_bit_eq_div)
qed

lemma demo_accounts: "account_users init_authtab Map.empty"
  using init_authtab_ok by (simp add: account_users_def account_chain_def chains_def init_authtab_def)

lemma demo_addresses: "trie_users empty_trie Map.empty {#}"
  using empty_world_ok
  by (simp add: trie_users_def world_ok_def empty_world_def holds_def user_holds_def holds_ok_def users_on_def)
    (simp add: empty_trie_def)

lemma demo_users:
  "\<exists>st np. nick_reach 1 {#} st \<and> dom (n_recs st) = {0} \<and> n_recs st 0 = Some np \<and> np_nick np = ''Bob''
    \<and> np_numeric np = 524289 \<and> np_ident np = ''bob'' \<and> np_timestamp np = 100
    \<and> 0 \<le> myhub (n_serv st) \<and> in_use (n_serv st) 2"
proof -
  let ?sv0 = "server_init 1 ''me'' ''own'' 7" and ?s0 = "nick_init 1 (server_init 1 ''me'' ''own'' 7) init_authtab empty_trie"
  have num: "numerictolong ''ACAAD'' 2 = Some 2" "numerictolong ''AAD'' 3 = Some 3" by code_simp+
  have r0: "nick_reach 1 {#} ?s0" using demo_accounts demo_addresses by (intro nick_started) simp_all
  have serv0: "n_serv ?s0 = ?sv0" "n_recs ?s0 = Map.empty" "n_next ?s0 = 0" by (simp_all add: nick_init_def server_added_def)
  obtain sv where sv: "handleservermsg 1 ''INIT'' demo_hub ?sv0 = Some sv" "in_use sv 2" "myhub sv = 2"
    by (simp add: handleservermsg_def demo_hub_def num server_init_def no_server_def set_server_def
      signal_def in_use_def new_server_fields del: not_None_eq)
  have "server_step 1 ?sv0 sv"
    by (rule server_step.introduced [OF _ sv(1)]) (simp add: from_server_def in_use_def server_init_def)
  then have step: "server_step 1 (n_serv ?s0) sv" unfolding serv0 .
  have none: "\<not> lost_effect ?sv0 sv L" for L
  proof
    assume "lost_effect ?sv0 sv L"
    then have "like_slot (slist sv 2) (slist (drop_all L ?sv0) 2)" by (simp add: lost_effect_def)
    then show False using sv(2) by (simp add: like_slot_def in_use_def drop_all_slist server_init_def no_server_def split: if_splits)
  qed
  have i0: "nick_inv {#} ?s0" "serv_links (n_serv ?s0)" "server_inv 1 (n_serv ?s0)" using nick_reach_inv [OF r0] by (simp_all add: run_inv_def)
  obtain n where "new_effect (n_serv ?s0) sv n" using server_step_effect [OF step i0(3,2)] none serv0 by auto
  then obtain s1 where s1: "after_servers sv ?s0 = Some s1" "nick_inv {#} s1" "n_serv s1 = sv" "serv_links sv" "n_recs s1 = n_recs ?s0"
    "n_next s1 = n_next ?s0"
    by (rule after_new [OF i0(1,2)])
  have r1: "nick_reach 1 {#} s1" by (rule nick_servers [OF r0 step s1(1)])
  have empty: "n_recs s1 = Map.empty" using s1(5) serv0 by simp
  have use2: "\<not> no_handle s1 524289"
    using sv(2) s1(3,4) unfolding no_handle_def demo_args(5) by (simp add: in_use_def serv_links_def del: not_None_eq)
  have hub: "0 \<le> myhub (n_serv s1)" using s1(3) sv(3) by simp
  have len: "demo_bob ! (length demo_bob - 2) = ''ACAAB''" "demo_bob ! 0 = ''Bob''" "demo_bob ! 3 = ''bob''" "demo_bob ! 2 = ''100''"
    "length demo_bob = 8"
    by (simp_all add: demo_bob_def)
  have x: "numerictolong (demo_bob ! (length demo_bob - 2)) 5 = Some (int 524289)" unfolding len(1) by (rule demo_args(3))
  obtain st where st: "handle_newnick ([], []) demo_bob s1 = Some st" "nick_inv {#} st" "n_serv st = n_serv s1"
    "refused s1 demo_bob \<longrightarrow> st = s1"
    "\<not> refused s1 demo_bob \<longrightarrow> no_handle s1 524289 \<longrightarrow> dom (n_recs st) = dom (n_recs s1) - nick_holders s1 (demo_bob ! 0)"
    "\<not> refused s1 demo_bob \<longrightarrow> \<not> no_handle s1 524289 \<longrightarrow>
       dom (n_recs st) = insert (n_next s1) (dom (n_recs s1) - nick_holders s1 (demo_bob ! 0) - slot_holders s1 524289)
       \<and> (\<exists>np. n_recs st (n_next s1) = Some np \<and> np_nick np = demo_bob ! 0 \<and> np_numeric np = 524289
          \<and> np_ident np = take USERLEN (demo_bob ! 3) \<and> np_timestamp np = fst (strtol10 (demo_bob ! 2)))"
    by (rule newnick_ok [OF s1(2) demo_args(1) hub x])
  have "\<not> refused s1 demo_bob" by (simp add: refused_def empty)
  then obtain np where np: "dom (n_recs st) = {n_next s1}" "n_recs st (n_next s1) = Some np" "np_nick np = ''Bob''" "np_numeric np = 524289"
    "np_ident np = ''bob''" "np_timestamp np = 100"
    using st(6) use2 unfolding len demo_args(6) by (auto simp: empty USERLEN_def)
  have "nick_reach 1 {#} st"
    by (rule nick_message [OF r1, of "MsgNick ([], []) ''AC'' demo_bob"])
      (use st(1) hub demo_args(1) in \<open>simp_all add: handlenickmsg_def len(5)\<close>)
  moreover have "n_next s1 = 0" using s1(6) serv0(3) by simp
  ultimately show ?thesis using np hub sv(2) s1(3) st(3) by auto
qed

lemma only_user: "dom recs = {r} \<Longrightarrow> recs r = Some np \<Longrightarrow> recs q = Some nq \<Longrightarrow> q = r \<and> nq = np"
  by (metis domI option.inject singletonD)

theorem nick_registry_witness:
  "\<exists>st. nick_reach 1 {#} st \<and> getnickbynick ''bOB'' st = Some (Some 0) \<and> getnickbynumericstr ''ACAAB'' st = Some (Some 0)
    \<and> getnickbynick ''eve'' st = Some None"
proof -
  obtain st np where st: "nick_reach 1 {#} st" "dom (n_recs st) = {0}" "n_recs st 0 = Some np" "np_nick np = ''Bob''" "np_numeric np = 524289"
    using demo_users by blast
  have low: "lower ''Bob'' = lower ''bOB''" "lower ''Bob'' \<noteq> lower ''eve''" by code_simp+
  note only = only_user [OF st(2,3)]
  have h: "r \<in> nick_holders st ''bOB'' \<longleftrightarrow> r = 0" for r
  proof
    assume "r \<in> nick_holders st ''bOB''"
    then show "r = 0" using only unfolding nick_holders_def by blast
  next
    have "lower (np_nick np) = lower ''bOB''" unfolding st(4) by (rule low(1))
    then show "r = 0 \<Longrightarrow> r \<in> nick_holders st ''bOB''" using st(3) unfolding nick_holders_def by blast
  qed
  have e: "r \<notin> nick_holders st ''eve''" for r
  proof
    assume "r \<in> nick_holders st ''eve''"
    then obtain nq where "n_recs st r = Some nq" "lower (np_nick nq) = lower ''eve''" unfolding nick_holders_def by blast
    then show False using only [of r nq] st(4) low(2) by simp
  qed
  have n: "(\<exists>np. n_recs st r = Some np \<and> np_numeric np = 524289) \<longleftrightarrow> r = 0" for r
  proof
    assume "\<exists>np. n_recs st r = Some np \<and> np_numeric np = 524289"
    then show "r = 0" using only by blast
  qed (use st(3,5) in simp)
  note t = nick_registry [OF st(1)]
  have "\<exists>x. getnickbynick ''bOB'' st = Some x \<and> (\<forall>r. x = Some r \<longleftrightarrow> r \<in> nick_holders st ''bOB'')"
    "\<exists>x. getnickbynick ''eve'' st = Some x \<and> (\<forall>r. x = Some r \<longleftrightarrow> r \<in> nick_holders st ''eve'')"
    by (rule t [THEN conjunct1, rule_format]; simp add: cstring_def)+
  moreover have "\<exists>y. getnickbynumericstr ''ACAAB'' st = Some y
      \<and> (\<forall>r. y = Some r \<longleftrightarrow> (\<exists>np. n_recs st r = Some np \<and> np_numeric np = 524289))"
    by (rule t [THEN conjunct2, THEN conjunct1, rule_format]) (rule demo_args(3))
  ultimately show ?thesis using st(1) unfolding h n by (metis e not_None_eq)
qed


text \<open>A second user with the nick, from another address and newer, is refused; the first one can take another nick.\<close>

theorem nick_collisions_witness:
  "\<exists>st. nick_reach 1 {#} st \<and> handlenickmsg ([], []) ''AC'' demo_eve st = Some st
    \<and> (\<exists>st'. handlenickmsg ([], []) ''ACAAB'' [''Rob'', ''200''] st = Some st' \<and> dom (n_recs st') = {0})"
proof -
  obtain st np where st: "nick_reach 1 {#} st" "dom (n_recs st) = {0}" "n_recs st 0 = Some np" "np_nick np = ''Bob''"
    "np_numeric np = 524289" "np_ident np = ''bob''" "np_timestamp np = 100" "0 \<le> myhub (n_serv st)"
    using demo_users by blast
  have eve: "demo_eve ! 0 = ''BOB''" "demo_eve ! 2 = ''200''" "demo_eve ! 3 = ''eve''" "length demo_eve = 8" "demo_eve ! 6 = ''ACAAC''"
    by (simp_all add: demo_eve_def)
  have low: "lower ''Bob'' = lower ''BOB''" "lower ''Bob'' \<noteq> lower ''Rob''" "ircd_strcmp ''bob'' ''eve'' \<noteq> 0" by code_simp+
  have "\<not> same_origin st np demo_eve" using st(6) low(3) by (simp add: same_origin_def eve)
  then have "refused st demo_eve"
    unfolding refused_def eve using st(3,4,7) low(1) by (intro exI [of _ 0] exI [of _ np]) (simp add: loses_def demo_args(7))
  moreover have x: "numerictolong (demo_eve ! (length demo_eve - 2)) 5 = Some (int 524290)"
    unfolding eve(4) by (simp add: eve(5) demo_args(4))
  ultimately have "handlenickmsg ([], []) ''AC'' demo_eve st = Some st"
    using nick_collisions [OF st(1), THEN conjunct1, rule_format, of demo_eve 524290 "([], [])" "''AC''"] demo_args(2) st(8) by auto
  moreover have free: "name_free st 0 ''Rob''" unfolding name_free_def using only_user [OF st(2,3)] by blast
  have r: "numeric_str ''ACAAB'' \<and> cstring ''Rob'' \<and> length ''Rob'' \<le> NICKLEN \<and> n_recs st 0 = Some np
      \<and> numerictolong ''ACAAB'' 5 = Some (int (np_numeric np))"
    using st(3,5) by (simp add: numeric_str_def demo_args(3) cstring_def NICKLEN_def)
  obtain st' where "handlenickmsg ([], []) ''ACAAB'' [''Rob'', ''200''] st = Some st'" "dom (n_recs st') = {0}"
    using nick_collisions [OF st(1), THEN conjunct2, rule_format, OF r, of "([], [])" "''200''"]
    by (elim exE conjE) (rule that; simp add: free st(2))
  ultimately show ?thesis using st(1) by blast
qed

theorem split_users_witness:
  "\<exists>st sv st'. nick_reach 1 {#} st \<and> n_recs st 0 \<noteq> None \<and> deleteserver 2 (n_serv st) = Some sv
    \<and> after_servers sv st = Some st' \<and> n_recs st' = Map.empty"
proof -
  obtain st np where st: "nick_reach 1 {#} st" "dom (n_recs st) = {0}" "n_recs st 0 = Some np" "np_numeric np = 524289" "in_use (n_serv st) 2"
    using demo_users by blast
  have "homeserver (np_numeric nq) \<in> behind (n_serv st) 2" if "n_recs st r = Some nq" for r nq
    using only_user [OF st(2,3) that] st(4) demo_args(5) by (simp add: behind_def)
  then have none: "{r. \<exists>np. n_recs st r = Some np \<and> homeserver (np_numeric np) \<notin> behind (n_serv st) 2} = {}" by blast
  obtain sv st' where "deleteserver 2 (n_serv st) = Some sv" "after_servers sv st = Some st'" "dom (n_recs st') = {}"
    using split_users [OF st(1,5)] unfolding none by blast
  then show ?thesis using st(1,3) by auto
qed

end
